(* ===== verification/Prelude.thy ===== *)
theory Prelude
  imports Main "HOL-Library.Word"
begin

text \<open>
  Shared vocabulary of the development: names for the machine integers of the sources, the errors
  a C++ operation can end in, the index arithmetic of the ring buffers (every bounded queue of the
  repository is one), heaps of linked nodes, and reachability in a step relation together with the
  locale that turns an inductive invariant into a fact about every reachable state.
\<close>

unbundle bit_operations_syntax

section \<open>Machine integers and failures\<close>

type_synonym u8 = "8 word"
type_synonym u32 = "32 word"
type_synonym u64 = "64 word"
type_synonym size_t = "64 word"
type_synonym index_t = size_t    \<comment> \<open>\<open>Traits::index_t\<close> of the concurrent queue\<close>

text \<open>
  What a C++ operation ends in when it does not return: a failed \<open>assert\<close>, an exception
  (\<open>std::runtime_error\<close> with the text and the \<open>errno\<close>, \<open>std::bad_alloc\<close>),
  \<open>std::terminate\<close>, or an access the language leaves undefined.
\<close>

datatype cpp_error =
    AssertFailed string
  | RuntimeError string int
  | BadAlloc
  | Terminated
  | UndefinedBehaviour string

type_synonym 'a result = "cpp_error + 'a"

named_theorems ring_simps \<open>index arithmetic of ring buffers\<close>

section \<open>Words read as natural numbers\<close>

lemma unat_plus_one [ring_simps]:
  "(i :: 'a :: len word) < c \<Longrightarrow> unat (i + 1) = Suc (unat i)"
proof -
  assume "i < c"
  then have "unat i < unat c" by (simp add: word_less_nat_alt)
  then have "unat i + 1 < 2 ^ LENGTH('a)"
    using unsigned_less [of c] by (metis Suc_eq_plus1 Suc_leI order_le_less_trans)
  then show ?thesis by (simp add: unat_word_ariths)
qed

lemma plus_one_eq_iff [ring_simps]:
  "(i :: 'a :: len word) < c \<Longrightarrow> i + 1 = c \<longleftrightarrow> Suc (unat i) = unat c"
  by (metis unat_plus_one unsigned_word_eqI)

lemma unat_add_less:
  "unat (a :: 'a :: len word) + unat b < 2 ^ LENGTH('a) \<Longrightarrow> unat (a + b) = unat a + unat b"
  by (simp add: unat_word_ariths)

lemma unat_inject: "unat (x :: 'a :: len word) = unat y \<longleftrightarrow> x = y"
  by (auto dest: unsigned_word_eqI)

lemma unat_pow2:
  assumes "k < LENGTH('a)" shows "unat (2 ^ k :: 'a :: len word) = 2 ^ k"
proof -
  have "(2 :: 'a word) ^ k = of_nat (2 ^ k)" by simp
  then show ?thesis using assms by (simp only: unat_of_nat) (simp add: power_strict_increasing)
qed

lemma sint_unat:
  fixes x :: "'a :: len word"
  shows "sint x = (if unat x < 2 ^ (LENGTH('a) - 1) then int (unat x) else int (unat x) - 2 ^ LENGTH('a))"
proof -
  let ?h = "2 ^ (LENGTH('a) - 1) :: int" and ?u = "int (unat x)"
  have L: "(2 :: int) ^ LENGTH('a) = 2 * ?h"
    by (metis One_nat_def Suc_pred len_gt_0 power_Suc)
  have u: "0 \<le> ?u" "?u < 2 * ?h"
    using unsigned_less [of x, where 'a = int] by (simp_all add: L)
  have s: "sint x = (?u + ?h) mod (2 * ?h) - ?h"
    using int_word_sint [of "uint x", where 'a = 'a] by (simp add: L)
  show ?thesis
  proof (cases "?u < ?h")
    case True
    then have "unat x < 2 ^ (LENGTH('a) - 1)" by (simp flip: of_nat_less_iff [where 'a = int])
    with True u s show ?thesis by simp
  next
    case False
    then have "\<not> unat x < 2 ^ (LENGTH('a) - 1)" by (simp flip: of_nat_less_iff [where 'a = int])
    moreover have "(?u + ?h) mod (2 * ?h) = ?u - ?h"
      using False u mod_pos_pos_trivial [of "?u - ?h" "2 * ?h"] mod_add_self2 [of "?u - ?h" "2 * ?h"]
      by (simp add: algebra_simps)
    ultimately show ?thesis using s by (simp add: L)
  qed
qed

lemma mod_add_inj:
  assumes "i < n" "j < n" shows "(a + i) mod n = (a + j) mod n \<longleftrightarrow> i = (j :: nat)"
proof -
  have "x = y" if "x \<le> y" "y < n" "(a + x) mod n = (a + y) mod n" for x y
  proof -
    have "n dvd (a + y) - (a + x)" using that by (intro mod_eq_dvd_iff_nat [THEN iffD1]) auto
    then have "n dvd y - x" by simp
    moreover have "y - x < n" using that by linarith
    ultimately have "y - x = 0" by (metis dvd_imp_le not_less neq0_conv)
    then show ?thesis using that by simp
  qed
  then show ?thesis using assms by (metis nat_le_linear)
qed

section \<open>Ring buffers\<close>

text \<open>
  Indices below \<open>n\<close> that wrap to 0. \<open>ring_next\<close> is the successor, \<open>ring_dist n a b\<close> the number of
  steps from \<open>a\<close> to \<open>b\<close>, \<open>ring_at n r i\<close> the index \<open>i\<close> steps after \<open>r\<close>, and \<open>ring_list n f r k\<close>
  the \<open>k\<close> values that lie from index \<open>r\<close> on. They are written without \<open>mod\<close>, so that linear
  arithmetic decides the facts about them.
\<close>

definition ring_next :: "nat \<Rightarrow> nat \<Rightarrow> nat" where
  "ring_next n i = (if Suc i = n then 0 else Suc i)"

definition ring_dist :: "nat \<Rightarrow> nat \<Rightarrow> nat \<Rightarrow> nat" where
  "ring_dist n a b = (if a \<le> b then b - a else b + n - a)"

definition ring_at :: "nat \<Rightarrow> nat \<Rightarrow> nat \<Rightarrow> nat" where
  "ring_at n r i = (if r + i < n then r + i else r + i - n)"

definition ring_list :: "nat \<Rightarrow> (nat \<Rightarrow> 'a) \<Rightarrow> nat \<Rightarrow> nat \<Rightarrow> 'a list" where
  "ring_list n f r k = map (\<lambda>i. f (ring_at n r i)) [0..<k]"

lemma length_ring_list [simp]: "length (ring_list n f r k) = k"
  by (simp add: ring_list_def)

lemma ring_list_0 [simp]: "ring_list n f r 0 = []"
  by (simp add: ring_list_def)

lemma ring_next_less [ring_simps]: "i < n \<Longrightarrow> ring_next n i < n"
  by (simp add: ring_next_def)

lemma ring_dist_less [ring_simps]: "a < n \<Longrightarrow> b < n \<Longrightarrow> ring_dist n a b < n"
  by (auto simp: ring_dist_def)

lemma ring_at_less [ring_simps]: "r < n \<Longrightarrow> i < n \<Longrightarrow> ring_at n r i < n"
  by (auto simp: ring_at_def)

lemma ring_dist_eq_0 [ring_simps]:
  "a < n \<Longrightarrow> b < n \<Longrightarrow> ring_dist n a b = 0 \<longleftrightarrow> a = b"
  by (auto simp: ring_dist_def)

lemma ring_dist_self [simp]: "ring_dist n a a = 0"
  by (simp add: ring_dist_def)

lemma ring_dist_next_right [ring_simps]:
  "a < n \<Longrightarrow> b < n \<Longrightarrow> ring_next n b \<noteq> a \<Longrightarrow>
    ring_dist n a (ring_next n b) = Suc (ring_dist n a b)"
  by (auto simp: ring_dist_def ring_next_def split: if_splits)

lemma ring_dist_next_left:
  "a < n \<Longrightarrow> b < n \<Longrightarrow> a \<noteq> b \<Longrightarrow> ring_dist n a b = Suc (ring_dist n (ring_next n a) b)"
  by (auto simp: ring_dist_def ring_next_def split: if_splits)

lemma ring_at_dist [ring_simps]: "r < n \<Longrightarrow> w < n \<Longrightarrow> ring_at n r (ring_dist n r w) = w"
  by (auto simp: ring_dist_def ring_at_def)

lemma ring_dist_at [ring_simps]: "r < n \<Longrightarrow> i < n \<Longrightarrow> ring_dist n r (ring_at n r i) = i"
  by (auto simp: ring_dist_def ring_at_def)

lemma ring_at_inj: "r < n \<Longrightarrow> i < n \<Longrightarrow> j < n \<Longrightarrow> ring_at n r i = ring_at n r j \<Longrightarrow> i = j"
  by (metis ring_dist_at)

lemma ring_full_iff:
  "a < n \<Longrightarrow> b < n \<Longrightarrow> 2 \<le> n \<Longrightarrow> ring_next n b = a \<longleftrightarrow> ring_dist n a b = n - 1"
  by (auto simp: ring_dist_def ring_next_def)

lemma ring_dist_inj:
  "a < n \<Longrightarrow> i < n \<Longrightarrow> j < n \<Longrightarrow> ring_dist n a i = ring_dist n a j \<longleftrightarrow> i = j"
  by (auto simp: ring_dist_def split: if_splits)

lemma ring_dist_next_self: "a < n \<Longrightarrow> ring_dist n (ring_next n a) a = n - 1"
  by (auto simp: ring_dist_def ring_next_def)

lemma ring_next_eq_iff: "a < n \<Longrightarrow> b < n \<Longrightarrow> ring_next n b = a \<longleftrightarrow> ring_dist n a b = n - 1"
  by (auto simp: ring_dist_def ring_next_def)

lemma ring_at_next [ring_simps]:
  "r < n \<Longrightarrow> Suc i < n \<or> i < n \<Longrightarrow> ring_at n (ring_next n r) i = ring_at n r (Suc i)"
  by (auto simp: ring_at_def ring_next_def)

lemma ring_list_cong:
  "(\<And>i. i < k \<Longrightarrow> f (ring_at n r i) = g (ring_at n r i)) \<Longrightarrow> ring_list n f r k = ring_list n g r k"
  by (simp add: ring_list_def)

lemma ring_list_snoc:
  "ring_list n f r (Suc k) = ring_list n f r k @ [f (ring_at n r k)]"
  by (simp add: ring_list_def)

lemma ring_list_Cons:
  assumes "r < n" and "k \<le> n"
  shows "ring_list n f r (Suc k) = f r # ring_list n f (ring_next n r) k"
proof -
  have "ring_at n r 0 = r" using assms(1) by (simp add: ring_at_def)
  moreover have "i < k \<Longrightarrow> ring_at n (ring_next n r) i = ring_at n r (Suc i)" for i
    using assms by (intro ring_at_next) auto
  ultimately show ?thesis
    by (simp add: ring_list_def upt_conv_Cons map_Suc_upt [symmetric] del: upt_Suc)
qed

lemma ring_list_upd_outside:
  assumes "r < n" "w < n" "k \<le> ring_dist n r w"
  shows "ring_list n (f(w := x)) r k = ring_list n f r k"
proof (rule ring_list_cong)
  fix i assume "i < k"
  then have "ring_at n r i \<noteq> w"
    using assms ring_dist_at [of r n i] ring_dist_less [of r n w] by force
  then show "(f(w := x)) (ring_at n r i) = f (ring_at n r i)" by simp
qed

lemma ring_list_push:
  assumes "r < n" "w < n"
  shows "ring_list n (f(w := x)) r (Suc (ring_dist n r w)) = ring_list n f r (ring_dist n r w) @ [x]"
  using assms by (simp add: ring_list_snoc ring_list_upd_outside ring_at_dist)

section \<open>Chains\<close>

text \<open>The neighbours of a list: the links of a chain of nodes.\<close>

definition pairs :: "'b list \<Rightarrow> ('b \<times> 'b) set" where
  "pairs ns = set (zip ns (tl ns))"

lemma pairs_Nil [simp]: "pairs [] = {}" and pairs_single [simp]: "pairs [a] = {}"
  by (simp_all add: pairs_def)

lemma pairs_Cons [simp]: "pairs (a # b # ns) = insert (a, b) (pairs (b # ns))"
  by (simp add: pairs_def)

lemma pairs_snoc [simp]: "ns \<noteq> [] \<Longrightarrow> pairs (ns @ [a]) = insert (last ns, a) (pairs ns)"
proof (induction ns)
  case (Cons b ns)
  then show ?case by (cases ns) auto
qed simp

lemma pairs_in: "(a, b) \<in> pairs ns \<Longrightarrow> a \<in> set ns \<and> b \<in> set ns"
  by (cases ns) (auto simp: pairs_def dest: set_zip_leftD set_zip_rightD)

lemma pairs_not_last: "distinct ns \<Longrightarrow> (a, b) \<in> pairs ns \<Longrightarrow> a \<noteq> last ns"
proof (induction ns)
  case (Cons c ns)
  then show ?case by (cases ns) (auto dest: pairs_in)
qed simp

lemma pairs_not_hd: "distinct (c # ns) \<Longrightarrow> (a, b) \<in> pairs ns \<Longrightarrow> a \<noteq> c \<and> b \<noteq> c"
  by (auto dest: pairs_in)

lemma pairs_functional: "distinct ns \<Longrightarrow> (a, b) \<in> pairs ns \<Longrightarrow> (a, c) \<in> pairs ns \<Longrightarrow> b = c"
proof (induction ns)
  case (Cons d ns)
  then show ?case by (cases ns) (auto dest: pairs_in)
qed simp

lemma pairs_append: "xs \<noteq> [] \<Longrightarrow> ys \<noteq> [] \<Longrightarrow> pairs (xs @ ys) = insert (last xs, hd ys) (pairs xs \<union> pairs ys)"
proof (induction xs)
  case (Cons a xs)
  then show ?case by (cases xs; cases ys) auto
qed simp

section \<open>Sums over threads\<close>

lemma sum_upd:
  fixes g :: "'b \<Rightarrow> 'c :: comm_monoid_add" and t N :: nat
  assumes "t < N" shows "(\<Sum>u < N. g ((f(t := x)) u)) + g (f t) = (\<Sum>u < N. g (f u)) + g x"
proof -
  have "(\<Sum>u < N. g (h u)) = g (h t) + (\<Sum>u \<in> {..<N} - {t}. g (h u))" for h :: "nat \<Rightarrow> 'b"
    using assms by (intro sum.remove) auto
  note * = this [of "f(t := x)"] this [of f]
  have "(\<Sum>u \<in> {..<N} - {t}. g ((f(t := x)) u)) = (\<Sum>u \<in> {..<N} - {t}. g (f u))" by (intro sum.cong) auto
  with * show ?thesis by (simp add: ac_simps)
qed

section \<open>Reachable states and invariants\<close>

text \<open>
  Threads that run side by side are modelled by a step relation: one rule for each atomic access of
  one thread. \<open>reach\<close> collects the states such a system can get into.
\<close>

inductive reach :: "('s \<Rightarrow> bool) \<Rightarrow> ('s \<Rightarrow> 's \<Rightarrow> bool) \<Rightarrow> 's \<Rightarrow> bool"
  for init :: "'s \<Rightarrow> bool" and step :: "'s \<Rightarrow> 's \<Rightarrow> bool" where
  reach_init: "init s \<Longrightarrow> reach init step s"
| reach_step: "reach init step s \<Longrightarrow> step s t \<Longrightarrow> reach init step t"

locale inductive_invariant =
  fixes init :: "'s \<Rightarrow> bool" and step :: "'s \<Rightarrow> 's \<Rightarrow> bool" and inv :: "'s \<Rightarrow> bool"
  assumes inv_init: "init s \<Longrightarrow> inv s"
    and inv_step: "inv s \<Longrightarrow> step s t \<Longrightarrow> inv t"
begin

lemma inv_reach: "reach init step s \<Longrightarrow> inv s"
  by (induction rule: reach.induct) (auto intro: inv_init inv_step)

end

end
