(* ===== verification/Queue_Interface.thy ===== *)
theory Queue_Interface
  imports Prelude
begin

text \<open>
  The contract the event managers rely on: a transmit queue accepts an event or refuses it, and
  hands events back in the order it accepted them. \<open>fifo_queue\<close> states it for any representation
  through an abstraction to lists; \<open>bounded_fifo\<close> adds a capacity. An operation may fail or not
  return, and a run keeps both outcomes: the laws therefore say of every operation that it returns
  normally, and with which answer. What a whole sequence of operations answers is proved here once
  and reaches the concrete queues through their interpretations.
\<close>

section \<open>Sequences of queue operations\<close>

datatype 'a qop = Push 'a | Pop

datatype 'a qans = Pushed bool | Popped "'a option"

text \<open>
  \<open>run_ops\<close> applies a sequence of operations and records their answers. The result is \<open>None\<close> when
  an operation does not return and \<open>Some (Inl e)\<close> when one fails; nothing is skipped.
\<close>

fun run_ops :: "('a \<Rightarrow> 'q \<Rightarrow> (bool \<times> 'q) result option) \<Rightarrow> ('q \<Rightarrow> ('a option \<times> 'q) result option) \<Rightarrow>
    'a qop list \<Rightarrow> 'q \<Rightarrow> ('a qans list \<times> 'q) result option" where
  "run_ops push pop [] q = Some (Inr ([], q))"
| "run_ops push pop (Push x # ops) q =
     (case push x q of
        None \<Rightarrow> None
      | Some (Inl e) \<Rightarrow> Some (Inl e)
      | Some (Inr (b, q1)) \<Rightarrow> map_option (map_sum id (apfst (Cons (Pushed b)))) (run_ops push pop ops q1))"
| "run_ops push pop (Pop # ops) q =
     (case pop q of
        None \<Rightarrow> None
      | Some (Inl e) \<Rightarrow> Some (Inl e)
      | Some (Inr (r, q1)) \<Rightarrow> map_option (map_sum id (apfst (Cons (Popped r)))) (run_ops push pop ops q1))"

text \<open>What a list bounded by \<open>cap\<close> answers to the same operations, and what it holds afterwards.\<close>

fun bounded_answers :: "nat \<Rightarrow> 'a qop list \<Rightarrow> 'a list \<Rightarrow> 'a qans list \<times> 'a list" where
  "bounded_answers cap [] xs = ([], xs)"
| "bounded_answers cap (Push x # ops) xs =
     (if length xs < cap then apfst (Cons (Pushed True)) (bounded_answers cap ops (xs @ [x]))
      else apfst (Cons (Pushed False)) (bounded_answers cap ops xs))"
| "bounded_answers cap (Pop # ops) [] = apfst (Cons (Popped None)) (bounded_answers cap ops [])"
| "bounded_answers cap (Pop # ops) (x # xs) = apfst (Cons (Popped (Some x))) (bounded_answers cap ops xs)"

text \<open>
  The answers a first-in first-out list can give when it may refuse a push only where \<open>may\<close> allows
  it: \<open>fifo_trace may ops answers xs ys\<close> leads from the contents \<open>xs\<close> to the contents \<open>ys\<close>.
\<close>

fun fifo_trace :: "('a list \<Rightarrow> bool) \<Rightarrow> 'a qop list \<Rightarrow> 'a qans list \<Rightarrow> 'a list \<Rightarrow> 'a list \<Rightarrow> bool" where
  "fifo_trace may [] [] xs ys \<longleftrightarrow> xs = ys"
| "fifo_trace may (Push x # ops) (Pushed b # as) xs ys \<longleftrightarrow>
     (b \<or> may xs) \<and> fifo_trace may ops as (if b then xs @ [x] else xs) ys"
| "fifo_trace may (Pop # ops) (Popped r # as) xs ys \<longleftrightarrow>
     r = (case xs of [] \<Rightarrow> None | x # _ \<Rightarrow> Some x) \<and> fifo_trace may ops as (drop 1 xs) ys"
| "fifo_trace may _ _ xs ys \<longleftrightarrow> False"

text \<open>The values accepted and the values handed out, in order.\<close>

fun accepted_of :: "'a qop list \<Rightarrow> 'a qans list \<Rightarrow> 'a list" where
  "accepted_of (Push x # ops) (Pushed b # as) = (if b then x # accepted_of ops as else accepted_of ops as)"
| "accepted_of (Pop # ops) (a # as) = accepted_of ops as"
| "accepted_of _ _ = []"

fun taken_of :: "'a qans list \<Rightarrow> 'a list" where
  "taken_of [] = []"
| "taken_of (Popped (Some x) # as) = x # taken_of as"
| "taken_of (a # as) = taken_of as"

text \<open>First in, first out: what was inside plus what was accepted is what came out plus what is left.\<close>

lemma fifo_trace_conserves: "fifo_trace may ops as xs ys \<Longrightarrow> xs @ accepted_of ops as = taken_of as @ ys"
proof (induction may ops as xs ys rule: fifo_trace.induct)
  case (2 may x ops b as xs ys)
  then show ?case by (cases b) auto
next
  case (3 may ops r as xs ys)
  then show ?case by (cases xs) auto
qed auto

lemma fifo_trace_weaken: "fifo_trace may ops as xs ys \<Longrightarrow> (\<And>zs. may zs \<Longrightarrow> may' zs) \<Longrightarrow> fifo_trace may' ops as xs ys"
  by (induction may ops as xs ys rule: fifo_trace.induct) auto

text \<open>A bounded list is a first-in first-out list that refuses exactly when it is full.\<close>

lemma bounded_answers_trace:
  "fifo_trace (\<lambda>zs. cap \<le> length zs) ops (fst (bounded_answers cap ops xs)) xs (snd (bounded_answers cap ops xs))"
  by (induction cap ops xs rule: bounded_answers.induct) auto

lemma bounded_answers_length: "length xs \<le> cap \<Longrightarrow> length (snd (bounded_answers cap ops xs)) \<le> cap"
  by (induction cap ops xs rule: bounded_answers.induct) auto

text \<open>From an empty list, exactly the first \<open>cap\<close> of any number of pushes are accepted.\<close>

lemma bounded_answers_pushes:
  "length xs \<le> cap \<Longrightarrow> snd (bounded_answers cap (map Push ys) xs) = xs @ take (cap - length xs) ys"
  by (induction ys arbitrary: xs) (auto simp: take_Cons' Suc_diff_le)

section \<open>The contract\<close>

locale fifo_queue =
  fixes invar :: "'q \<Rightarrow> bool"
    and contents :: "'q \<Rightarrow> 'a list"
    and room :: "'q \<Rightarrow> bool"
    and push :: "'a \<Rightarrow> 'q \<Rightarrow> (bool \<times> 'q) result option"
    and pop :: "'q \<Rightarrow> ('a option \<times> 'q) result option"
  assumes push_accepts:
      "invar q \<Longrightarrow> room q \<Longrightarrow> \<exists>q'. push x q = Some (Inr (True, q')) \<and> invar q' \<and> contents q' = contents q @ [x]"
    and push_refuses:
      "invar q \<Longrightarrow> \<not> room q \<Longrightarrow> \<exists>q'. push x q = Some (Inr (False, q')) \<and> invar q' \<and> contents q' = contents q"
    and pop_empty:
      "invar q \<Longrightarrow> contents q = [] \<Longrightarrow> \<exists>q'. pop q = Some (Inr (None, q')) \<and> invar q' \<and> contents q' = []"
    and pop_front:
      "invar q \<Longrightarrow> contents q = x # xs \<Longrightarrow> \<exists>q'. pop q = Some (Inr (Some x, q')) \<and> invar q' \<and> contents q' = xs"
begin

lemma push_returns:
  assumes "invar q"
  shows "\<exists>q'. push x q = Some (Inr (room q, q')) \<and> invar q' \<and> contents q' = (if room q then contents q @ [x] else contents q)"
  using push_accepts [OF assms] push_refuses [OF assms] by (cases "room q") auto

lemma pop_returns:
  assumes "invar q"
  shows "\<exists>q'. pop q = Some (Inr (case contents q of [] \<Rightarrow> None | x # _ \<Rightarrow> Some x, q')) \<and> invar q' \<and> contents q' = drop 1 (contents q)"
  using pop_empty [OF assms] pop_front [OF assms] by (cases "contents q") auto

text \<open>Every sequence of operations returns normally, with the answers of a first-in first-out list.\<close>

lemma run_fifo:
  assumes may: "\<And>q. invar q \<Longrightarrow> \<not> room q \<Longrightarrow> may (contents q)"
  shows "invar q \<Longrightarrow> \<exists>as q'. run_ops push pop ops q = Some (Inr (as, q')) \<and> invar q' \<and>
    fifo_trace may ops as (contents q) (contents q')"
proof (induction ops arbitrary: q)
  case Nil
  then show ?case by auto
next
  case (Cons op ops)
  show ?case
  proof (cases op)
    case (Push x)
    obtain q1 where q1: "push x q = Some (Inr (room q, q1))" "invar q1"
      "contents q1 = (if room q then contents q @ [x] else contents q)" using push_returns [OF Cons.prems] by blast
    obtain as q' where "run_ops push pop ops q1 = Some (Inr (as, q'))" "invar q'" "fifo_trace may ops as (contents q1) (contents q')"
      using Cons.IH [OF q1(2)] by blast
    then show ?thesis using q1 may [OF Cons.prems]
      by (cases "room q") (auto simp: Push intro!: exI [of _ "Pushed (room q) # as"])
  next
    case Pop
    let ?r = "case contents q of [] \<Rightarrow> None | x # _ \<Rightarrow> Some x"
    obtain q1 where q1: "pop q = Some (Inr (?r, q1))" "invar q1" "contents q1 = drop 1 (contents q)"
      using pop_returns [OF Cons.prems] by blast
    obtain as q' where "run_ops push pop ops q1 = Some (Inr (as, q'))" "invar q'" "fifo_trace may ops as (contents q1) (contents q')"
      using Cons.IH [OF q1(2)] by blast
    then show ?thesis using q1 by (intro exI [of _ "Popped ?r # as"] exI [of _ q']) (simp add: Pop)
  qed
qed

end

locale bounded_fifo = fifo_queue invar contents room push pop
  for invar :: "'q \<Rightarrow> bool" and contents :: "'q \<Rightarrow> 'a list" and room :: "'q \<Rightarrow> bool"
    and push :: "'a \<Rightarrow> 'q \<Rightarrow> (bool \<times> 'q) result option" and pop :: "'q \<Rightarrow> ('a option \<times> 'q) result option" +
  fixes cap :: "'q \<Rightarrow> nat"
  assumes room_iff: "invar q \<Longrightarrow> room q \<longleftrightarrow> length (contents q) < cap q"
    and cap_push: "invar q \<Longrightarrow> push x q = Some (Inr (b, q')) \<Longrightarrow> cap q' = cap q"
    and cap_pop: "invar q \<Longrightarrow> pop q = Some (Inr (r, q')) \<Longrightarrow> cap q' = cap q"
begin

text \<open>Every sequence of operations gives exactly the answers of the list bounded by the capacity.\<close>

lemma run_bounded:
  "invar q \<Longrightarrow> \<exists>q'. run_ops push pop ops q = Some (Inr (fst (bounded_answers (cap q) ops (contents q)), q')) \<and>
    invar q' \<and> cap q' = cap q \<and> contents q' = snd (bounded_answers (cap q) ops (contents q))"
proof (induction ops arbitrary: q)
  case Nil
  then show ?case by simp
next
  case (Cons op ops)
  show ?case
  proof (cases op)
    case (Push x)
    obtain q1 where q1: "push x q = Some (Inr (room q, q1))" "invar q1"
      "contents q1 = (if room q then contents q @ [x] else contents q)" using push_returns [OF Cons.prems] by blast
    with Cons.IH [OF q1(2)] room_iff [OF Cons.prems] cap_push [OF Cons.prems q1(1)] show ?thesis by (auto simp: Push)
  next
    case Pop
    obtain q1 where q1: "pop q = Some (Inr (case contents q of [] \<Rightarrow> None | x # _ \<Rightarrow> Some x, q1))" "invar q1"
      "contents q1 = drop 1 (contents q)" using pop_returns [OF Cons.prems] by blast
    with Cons.IH [OF q1(2)] cap_pop [OF Cons.prems q1(1)] show ?thesis by (cases "contents q") (auto simp: Pop)
  qed
qed

end

end
