(* ===== verification/SPSCQueue.thy ===== *)
theory SPSCQueue
  imports Queue_Interface
begin

text \<open>
  \<^verbatim>\<open>SPSCQueue/include/rigtorp/SPSCQueue.h\<close>: the bounded single-producer single-consumer ring of
  \<^verbatim>\<open>app11.cpp\<close> and \<^verbatim>\<open>app12.cpp\<close>. Indices and capacity are 64-bit words, the allocation is a
  list of slots (\<open>None\<close> is raw storage, \<open>Some x\<close> a constructed element) with \<open>kPadding\<close> unused slots
  at either end, and an access outside the allocation or to storage that holds no element is an
  error value. This theory has the operations as one thread sees them; \<^verbatim>\<open>SPSC_Concurrent\<close> has
  the interleaving of the two threads.
\<close>

section \<open>State and operations\<close>

record 'a spsc_queue =
  sq_capacity :: size_t
  sq_kPadding :: size_t
  sq_slots :: "'a option list"
  sq_writeIdx :: size_t
  sq_readIdxCache :: size_t
  sq_readIdx :: size_t
  sq_writeIdxCache :: size_t

definition SIZE_MAX :: size_t where
  "SIZE_MAX = - 1"

definition spsc_kCacheLineSize :: size_t where
  "spsc_kCacheLineSize = 64"

definition spsc_kPadding :: "size_t \<Rightarrow> size_t" where
  "spsc_kPadding sizeofT = (spsc_kCacheLineSize - 1) div sizeofT + 1"

text \<open>
  The constructor. \<open>alloc_ok\<close> says which requests the allocator serves; \<open>at_least\<close> is the
  allocator's \<open>allocate_at_least\<close> (the count it returns for a request), \<open>None\<close> where the allocator
  has no such member.
\<close>

definition spsc_ctor ::
    "(size_t \<Rightarrow> bool) \<Rightarrow> (size_t \<Rightarrow> size_t) option \<Rightarrow> size_t \<Rightarrow> size_t \<Rightarrow> 'a spsc_queue result" where
  "spsc_ctor alloc_ok at_least sizeofT capacity =
     (let pad = spsc_kPadding sizeofT;
          c = (if capacity < 1 then 1 else capacity);
          c = c + 1;
          c = (if c > SIZE_MAX - 2 * pad then SIZE_MAX - 2 * pad else c)
      in if \<not> alloc_ok (c + 2 * pad) then Inl BadAlloc
         else let (count, c) = (case at_least of
                    Some f \<Rightarrow> (f (c + 2 * pad), f (c + 2 * pad) - 2 * pad)
                  | None \<Rightarrow> (c + 2 * pad, c))
              in Inr \<lparr>sq_capacity = c, sq_kPadding = pad, sq_slots = replicate (unat count) None,
                      sq_writeIdx = 0, sq_readIdxCache = 0, sq_readIdx = 0, sq_writeIdxCache = 0\<rparr>)"

text \<open>The wrapped successor of an index, shared by the producer and the consumer operations.\<close>

definition spsc_next :: "'a spsc_queue \<Rightarrow> size_t \<Rightarrow> size_t" where
  "spsc_next q i = (let j = i + 1 in if j = sq_capacity q then 0 else j)"

text \<open>Placement new into \<open>slots_[writeIdx + kPadding]\<close>, then the release store of \<open>writeIdx_\<close>.\<close>

definition spsc_construct :: "'a \<Rightarrow> size_t \<Rightarrow> size_t \<Rightarrow> 'a spsc_queue \<Rightarrow> 'a spsc_queue result" where
  "spsc_construct x writeIdx nextWriteIdx q =
     (let k = unat (writeIdx + sq_kPadding q)
      in if k < length (sq_slots q)
         then Inr (q\<lparr>sq_slots := (sq_slots q)[k := Some x], sq_writeIdx := nextWriteIdx\<rparr>)
         else Inl (UndefinedBehaviour ''slots_''))"

definition spsc_try_emplace :: "'a \<Rightarrow> 'a spsc_queue \<Rightarrow> (bool \<times> 'a spsc_queue) result" where
  "spsc_try_emplace x q =
     (let writeIdx = sq_writeIdx q; nextWriteIdx = spsc_next q writeIdx
      in if nextWriteIdx = sq_readIdxCache q
         then let q = q\<lparr>sq_readIdxCache := sq_readIdx q\<rparr>
              in if nextWriteIdx = sq_readIdxCache q then Inr (False, q)
                 else map_sum id (Pair True) (spsc_construct x writeIdx nextWriteIdx q)
         else map_sum id (Pair True) (spsc_construct x writeIdx nextWriteIdx q))"

text \<open>
  The blocking \<open>emplace\<close> spins until the cached read index moves on; with no consumer running beside
  it, not returning is \<open>None\<close>.
\<close>

partial_function (option) spsc_emplace_wait ::
    "size_t \<Rightarrow> 'a spsc_queue \<Rightarrow> 'a spsc_queue option" where
  "spsc_emplace_wait nextWriteIdx q =
     (if nextWriteIdx = sq_readIdxCache q
      then spsc_emplace_wait nextWriteIdx (q\<lparr>sq_readIdxCache := sq_readIdx q\<rparr>)
      else Some q)"

definition spsc_emplace :: "'a \<Rightarrow> 'a spsc_queue \<Rightarrow> 'a spsc_queue result option" where
  "spsc_emplace x q =
     (let writeIdx = sq_writeIdx q; nextWriteIdx = spsc_next q writeIdx
      in map_option (spsc_construct x writeIdx nextWriteIdx) (spsc_emplace_wait nextWriteIdx q))"

definition spsc_push :: "'a \<Rightarrow> 'a spsc_queue \<Rightarrow> 'a spsc_queue result option" where
  "spsc_push x q = spsc_emplace x q"

definition spsc_try_push :: "'a \<Rightarrow> 'a spsc_queue \<Rightarrow> (bool \<times> 'a spsc_queue) result" where
  "spsc_try_push x q = spsc_try_emplace x q"

text \<open>\<open>front\<close> returns a pointer into the allocation (its position), or null.\<close>

definition spsc_front :: "'a spsc_queue \<Rightarrow> nat option \<times> 'a spsc_queue" where
  "spsc_front q =
     (let readIdx = sq_readIdx q
      in if readIdx = sq_writeIdxCache q
         then let q = q\<lparr>sq_writeIdxCache := sq_writeIdx q\<rparr>
              in if sq_writeIdxCache q = readIdx then (None, q)
                 else (Some (unat (readIdx + sq_kPadding q)), q)
         else (Some (unat (readIdx + sq_kPadding q)), q))"

text \<open>Reading through the pointer \<open>front\<close> returned.\<close>

definition spsc_deref :: "nat \<Rightarrow> 'a spsc_queue \<Rightarrow> 'a result" where
  "spsc_deref k q =
     (if k < length (sq_slots q)
      then (case sq_slots q ! k of Some x \<Rightarrow> Inr x | None \<Rightarrow> Inl (UndefinedBehaviour ''raw slot''))
      else Inl (UndefinedBehaviour ''slots_''))"

definition spsc_pop :: "'a spsc_queue \<Rightarrow> 'a spsc_queue result" where
  "spsc_pop q =
     (let readIdx = sq_readIdx q; k = unat (readIdx + sq_kPadding q)
      in if sq_writeIdx q = readIdx
         then Inl (AssertFailed ''Can only call pop() after front() has returned a non-nullptr'')
         else case spsc_deref k q of
           Inl e \<Rightarrow> Inl e
         | Inr _ \<Rightarrow> Inr (q\<lparr>sq_slots := (sq_slots q)[k := None], sq_readIdx := spsc_next q readIdx\<rparr>))"

text \<open>The difference is a signed \<open>ptrdiff_t\<close>.\<close>

definition spsc_size :: "'a spsc_queue \<Rightarrow> size_t" where
  "spsc_size q =
     (let diff = sq_writeIdx q - sq_readIdx q
      in if sint diff < 0 then diff + sq_capacity q else diff)"

definition spsc_empty :: "'a spsc_queue \<Rightarrow> bool" where
  "spsc_empty q \<longleftrightarrow> sq_writeIdx q = sq_readIdx q"

definition spsc_capacity :: "'a spsc_queue \<Rightarrow> size_t" where
  "spsc_capacity q = sq_capacity q - 1"

text \<open>The loop of the destructor, \<open>while (front()) pop();\<close>.\<close>

partial_function (option) spsc_dtor :: "'a spsc_queue \<Rightarrow> 'a spsc_queue result option" where
  "spsc_dtor q =
     (case spsc_front q of
        (None, q') \<Rightarrow> Some (Inr q')
      | (Some _, q') \<Rightarrow> (case spsc_pop q' of Inl e \<Rightarrow> Some (Inl e) | Inr q'' \<Rightarrow> spsc_dtor q''))"

section \<open>Abstraction and invariant\<close>

definition spsc_slot :: "'a spsc_queue \<Rightarrow> nat \<Rightarrow> 'a option" where
  "spsc_slot q i = sq_slots q ! (i + unat (sq_kPadding q))"

definition spsc_contents :: "'a spsc_queue \<Rightarrow> 'a list" where
  "spsc_contents q =
     (let n = unat (sq_capacity q); r = unat (sq_readIdx q); w = unat (sq_writeIdx q)
      in ring_list n (\<lambda>i. the (spsc_slot q i)) r (ring_dist n r w))"

text \<open>
  The allocation has its size, all indices are in range, the producer's copy of the read index lags
  behind the read index, the consumer's copy of the write index lies between the read and the write
  index, and exactly the slots from the read to the write index hold an element.
\<close>

definition spsc_inv :: "'a spsc_queue \<Rightarrow> bool" where
  "spsc_inv q \<longleftrightarrow>
     (let n = unat (sq_capacity q); p = unat (sq_kPadding q);
          r = unat (sq_readIdx q); w = unat (sq_writeIdx q);
          rc = unat (sq_readIdxCache q); wc = unat (sq_writeIdxCache q)
      in 2 \<le> n \<and> n + 2 * p < 2 ^ 64 \<and> length (sq_slots q) = n + 2 * p \<and>
         r < n \<and> w < n \<and> rc < n \<and> wc < n \<and>
         ring_dist n r w \<le> ring_dist n rc w \<and> ring_dist n r wc \<le> ring_dist n r w \<and>
         (\<forall>i < n. spsc_slot q i \<noteq> None \<longleftrightarrow> ring_dist n r i < ring_dist n r w))"

definition spsc_room :: "'a spsc_queue \<Rightarrow> bool" where
  "spsc_room q \<longleftrightarrow> length (spsc_contents q) < unat (spsc_capacity q)"

section \<open>The indices as ring positions\<close>

lemma spsc_invD:
  assumes "spsc_inv q"
  shows "2 \<le> unat (sq_capacity q)"
    "unat (sq_capacity q) + 2 * unat (sq_kPadding q) < 2 ^ 64"
    "length (sq_slots q) = unat (sq_capacity q) + 2 * unat (sq_kPadding q)"
    "unat (sq_readIdx q) < unat (sq_capacity q)" "unat (sq_writeIdx q) < unat (sq_capacity q)"
    "unat (sq_readIdxCache q) < unat (sq_capacity q)"
    "unat (sq_writeIdxCache q) < unat (sq_capacity q)"
    "ring_dist (unat (sq_capacity q)) (unat (sq_readIdx q)) (unat (sq_writeIdx q))
       \<le> ring_dist (unat (sq_capacity q)) (unat (sq_readIdxCache q)) (unat (sq_writeIdx q))"
    "ring_dist (unat (sq_capacity q)) (unat (sq_readIdx q)) (unat (sq_writeIdxCache q))
       \<le> ring_dist (unat (sq_capacity q)) (unat (sq_readIdx q)) (unat (sq_writeIdx q))"
    "\<And>i. i < unat (sq_capacity q) \<Longrightarrow> spsc_slot q i \<noteq> None \<longleftrightarrow>
       ring_dist (unat (sq_capacity q)) (unat (sq_readIdx q)) i
         < ring_dist (unat (sq_capacity q)) (unat (sq_readIdx q)) (unat (sq_writeIdx q))"
  using assms by (simp_all add: spsc_inv_def Let_def)

lemma unat_spsc_next:
  "unat i < unat (sq_capacity q) \<Longrightarrow>
    unat (spsc_next q i) = ring_next (unat (sq_capacity q)) (unat i)"
  by (simp add: spsc_next_def ring_next_def Let_def word_less_nat_alt [symmetric] ring_simps)

lemma spsc_next_eq_iff:
  "unat i < unat (sq_capacity q) \<Longrightarrow>
    spsc_next q i = j \<longleftrightarrow> ring_next (unat (sq_capacity q)) (unat i) = unat j"
  by (metis unat_spsc_next word_unat_eq_iff)

lemma unat_plus_padding:
  "spsc_inv q \<Longrightarrow> unat i < unat (sq_capacity q) \<Longrightarrow>
    unat (i + sq_kPadding q) = unat i + unat (sq_kPadding q)"
  using spsc_invD(2) [of q] by (intro unat_add_less) simp

lemma length_spsc_contents:
  "length (spsc_contents q) =
    ring_dist (unat (sq_capacity q)) (unat (sq_readIdx q)) (unat (sq_writeIdx q))"
  by (simp add: spsc_contents_def Let_def)

lemma unat_spsc_capacity:
  "spsc_inv q \<Longrightarrow> unat (spsc_capacity q) = unat (sq_capacity q) - 1"
  using spsc_invD(1) [of q] unat_sub [of 1 "sq_capacity q"]
  by (simp add: spsc_capacity_def word_le_nat_alt)

lemma spsc_contents_Nil_iff:
  "spsc_inv q \<Longrightarrow> spsc_contents q = [] \<longleftrightarrow> sq_readIdx q = sq_writeIdx q"
  using spsc_invD(4,5) [of q]
  by (simp add: length_0_conv [symmetric] length_spsc_contents ring_dist_eq_0 word_unat_eq_iff
      del: length_0_conv)

lemma spsc_room_iff:
  assumes "spsc_inv q"
  shows "spsc_room q \<longleftrightarrow> spsc_next q (sq_writeIdx q) \<noteq> sq_readIdx q"
proof -
  note d = spsc_invD [OF assms]
  have "length (spsc_contents q) < unat (sq_capacity q)"
    using d by (simp add: length_spsc_contents ring_dist_less)
  then show ?thesis
    using ring_full_iff [OF d(4,5,1)] d(1)
    by (simp add: spsc_room_def unat_spsc_capacity [OF assms] spsc_next_eq_iff [OF d(5)]
        length_spsc_contents) linarith
qed

section \<open>The producer\<close>

text \<open>
  The copy of the read index is safe to use: if the ring is full for the real index, it is full for
  the copy too.
\<close>

lemma spsc_cache_full:
  assumes "spsc_inv q" "spsc_next q (sq_writeIdx q) = sq_readIdx q"
  shows "spsc_next q (sq_writeIdx q) = sq_readIdxCache q"
proof -
  note d = spsc_invD [OF assms(1)]
  let ?n = "unat (sq_capacity q)"
  have "ring_dist ?n (unat (sq_readIdx q)) (unat (sq_writeIdx q)) = ?n - 1"
    using assms(2) d ring_full_iff [OF d(4,5,1)] by (simp add: spsc_next_eq_iff)
  moreover have "ring_dist ?n (unat (sq_readIdxCache q)) (unat (sq_writeIdx q)) < ?n"
    using d by (intro ring_dist_less)
  ultimately have "ring_dist ?n (unat (sq_readIdxCache q)) (unat (sq_writeIdx q)) = ?n - 1"
    using d(8) by linarith
  then show ?thesis
    using d ring_full_iff [OF d(6,5,1)] by (simp add: spsc_next_eq_iff)
qed

lemma spsc_construct_ok:
  assumes inv: "spsc_inv q" and nr: "spsc_next q (sq_writeIdx q) \<noteq> sq_readIdx q"
    and nc: "spsc_next q (sq_writeIdx q) \<noteq> sq_readIdxCache q"
  shows "\<exists>q'. spsc_construct x (sq_writeIdx q) (spsc_next q (sq_writeIdx q)) q = Inr q' \<and>
    spsc_inv q' \<and> spsc_contents q' = spsc_contents q @ [x] \<and> sq_capacity q' = sq_capacity q"
proof -
  note d = spsc_invD [OF inv]
  let ?n = "unat (sq_capacity q)" and ?p = "unat (sq_kPadding q)"
  let ?r = "unat (sq_readIdx q)" and ?w = "unat (sq_writeIdx q)"
  let ?k = "?w + ?p"
  let ?q = "q\<lparr>sq_slots := (sq_slots q)[?k := Some x], sq_writeIdx := spsc_next q (sq_writeIdx q)\<rparr>"
  have k: "unat (sq_writeIdx q + sq_kPadding q) = ?k" "?k < length (sq_slots q)"
    using d by (simp_all add: unat_plus_padding [OF inv])
  have c: "spsc_construct x (sq_writeIdx q) (spsc_next q (sq_writeIdx q)) q = Inr ?q"
    by (simp add: spsc_construct_def k)
  have w': "unat (sq_writeIdx ?q) = ring_next ?n ?w" using d(5) by (simp add: unat_spsc_next)
  have n1: "ring_next ?n ?w \<noteq> ?r" using nr d(5) by (simp add: spsc_next_eq_iff)
  have n2: "ring_next ?n ?w \<noteq> unat (sq_readIdxCache q)" using nc d(5) by (simp add: spsc_next_eq_iff)
  have slot: "spsc_slot ?q i = (if i = ?w then Some x else spsc_slot q i)" if "i < ?n" for i
    using that k(2) by (auto simp: spsc_slot_def nth_list_update)
  have dist: "ring_dist ?n ?r (ring_next ?n ?w) = Suc (ring_dist ?n ?r ?w)"
    "ring_dist ?n (unat (sq_readIdxCache q)) (ring_next ?n ?w)
       = Suc (ring_dist ?n (unat (sq_readIdxCache q)) ?w)"
    using d n1 n2 by (simp_all add: ring_dist_next_right)
  have "spsc_inv ?q"
    unfolding spsc_inv_def Let_def w'
    using d slot dist ring_dist_inj [OF d(4) _ d(5)]
    by (auto simp: ring_next_less less_Suc_eq)
  moreover have "spsc_contents ?q = spsc_contents q @ [x]"
  proof -
    have at: "ring_at ?n ?r i < ?n" if "i < Suc (ring_dist ?n ?r ?w)" for i
      using that d ring_dist_less [OF d(4,5)] by (intro ring_at_less) auto
    have "spsc_contents ?q = ring_list ?n ((\<lambda>i. the (spsc_slot q i))(?w := x)) ?r (Suc (ring_dist ?n ?r ?w))"
      unfolding spsc_contents_def Let_def w'
      using dist by (auto intro!: ring_list_cong simp: slot [OF at])
    then show ?thesis
      using d by (simp add: ring_list_push spsc_contents_def Let_def)
  qed
  ultimately show ?thesis using c by auto
qed

lemma spsc_refresh_inv:
  assumes "spsc_inv q"
  shows "spsc_inv (q\<lparr>sq_readIdxCache := sq_readIdx q\<rparr>)"
    "spsc_contents (q\<lparr>sq_readIdxCache := sq_readIdx q\<rparr>) = spsc_contents q"
  using assms by (auto simp: spsc_inv_def spsc_contents_def spsc_slot_def Let_def)

lemma spsc_next_upd [simp]:
  "spsc_next (q\<lparr>sq_readIdxCache := c\<rparr>) i = spsc_next q i"
  "spsc_next (q\<lparr>sq_writeIdxCache := c\<rparr>) i = spsc_next q i"
  by (simp_all add: spsc_next_def)

lemma spsc_try_emplace_room:
  assumes inv: "spsc_inv q" and room: "spsc_next q (sq_writeIdx q) \<noteq> sq_readIdx q"
  shows "\<exists>q'. spsc_try_emplace x q = Inr (True, q') \<and> spsc_inv q' \<and>
    spsc_contents q' = spsc_contents q @ [x] \<and> sq_capacity q' = sq_capacity q"
proof (cases "spsc_next q (sq_writeIdx q) = sq_readIdxCache q")
  case True
  let ?q = "q\<lparr>sq_readIdxCache := sq_readIdx q\<rparr>"
  from spsc_construct_ok [of ?q x] spsc_refresh_inv [OF inv] room obtain q' where
    "spsc_construct x (sq_writeIdx q) (spsc_next q (sq_writeIdx q)) ?q = Inr q'"
    "spsc_inv q'" "spsc_contents q' = spsc_contents q @ [x]" "sq_capacity q' = sq_capacity q"
    by auto
  then show ?thesis using True room by (simp add: spsc_try_emplace_def Let_def)
next
  case False
  from spsc_construct_ok [OF inv room False, of x] False show ?thesis
    by (auto simp: spsc_try_emplace_def Let_def)
qed

lemma spsc_try_emplace_full:
  assumes inv: "spsc_inv q" and full: "spsc_next q (sq_writeIdx q) = sq_readIdx q"
  shows "spsc_try_emplace x q = Inr (False, q\<lparr>sq_readIdxCache := sq_readIdx q\<rparr>)"
  using full spsc_cache_full [OF inv full] by (simp add: spsc_try_emplace_def Let_def)

lemma spsc_emplace_wait_room:
  assumes "nx \<noteq> sq_readIdx q"
  shows "spsc_emplace_wait nx q = Some (if nx = sq_readIdxCache q
           then q\<lparr>sq_readIdxCache := sq_readIdx q\<rparr> else q)"
proof (cases "nx = sq_readIdxCache q")
  case True
  let ?q = "q\<lparr>sq_readIdxCache := sq_readIdx q\<rparr>"
  have "spsc_emplace_wait nx q = spsc_emplace_wait nx ?q"
    using True by (subst spsc_emplace_wait.simps) simp
  also have "\<dots> = Some ?q" using assms by (subst spsc_emplace_wait.simps) simp
  finally show ?thesis using True by simp
next
  case False
  then show ?thesis by (subst spsc_emplace_wait.simps) simp
qed

lemma spsc_emplace_wait_full:
  assumes "nx = sq_readIdx q" "nx = sq_readIdxCache q"
  shows "spsc_emplace_wait nx q = None"
proof (rule ccontr)
  assume "spsc_emplace_wait nx q \<noteq> None"
  then obtain r where r: "spsc_emplace_wait nx q = Some r" by auto
  have "nx = sq_readIdx q \<and> nx = sq_readIdxCache q \<longrightarrow> False"
    by (rule spsc_emplace_wait.raw_induct
        [where P = "\<lambda>nx q r. nx = sq_readIdx q \<and> nx = sq_readIdxCache q \<longrightarrow> False", OF _ r])
      (fastforce split: if_splits)
  with assms show False by simp
qed

section \<open>The consumer\<close>

lemma spsc_front_spec:
  assumes inv: "spsc_inv q"
  shows "spsc_contents q = [] \<Longrightarrow> \<exists>q'. spsc_front q = (None, q') \<and> spsc_inv q' \<and> spsc_contents q' = []"
    and "spsc_contents q \<noteq> [] \<Longrightarrow> \<exists>q'. spsc_front q = (Some (unat (sq_readIdx q + sq_kPadding q)), q') \<and>
      spsc_inv q' \<and> spsc_contents q' = spsc_contents q \<and> sq_writeIdxCache q' \<noteq> sq_readIdx q' \<and>
      sq_readIdx q' = sq_readIdx q \<and> sq_kPadding q' = sq_kPadding q \<and> sq_slots q' = sq_slots q"
proof -
  note d = spsc_invD [OF inv]
  have refresh: "spsc_inv (q\<lparr>sq_writeIdxCache := sq_writeIdx q\<rparr>)"
    "spsc_contents (q\<lparr>sq_writeIdxCache := sq_writeIdx q\<rparr>) = spsc_contents q"
    using inv by (auto simp: spsc_inv_def spsc_contents_def spsc_slot_def Let_def)
  have empty: "sq_writeIdxCache q = sq_readIdx q" if "sq_readIdx q = sq_writeIdx q"
    using that d(4,7,9) ring_dist_eq_0 [OF d(4,7)] by (simp add: word_unat_eq_iff)
  show "spsc_contents q = [] \<Longrightarrow> \<exists>q'. spsc_front q = (None, q') \<and> spsc_inv q' \<and> spsc_contents q' = []"
    using refresh empty by (auto simp: spsc_front_def Let_def spsc_contents_Nil_iff [OF inv])
  show "spsc_contents q \<noteq> [] \<Longrightarrow> \<exists>q'. spsc_front q = (Some (unat (sq_readIdx q + sq_kPadding q)), q') \<and>
      spsc_inv q' \<and> spsc_contents q' = spsc_contents q \<and> sq_writeIdxCache q' \<noteq> sq_readIdx q' \<and>
      sq_readIdx q' = sq_readIdx q \<and> sq_kPadding q' = sq_kPadding q \<and> sq_slots q' = sq_slots q"
    using refresh inv
    by (auto simp: spsc_front_def Let_def spsc_contents_Nil_iff [OF inv])
qed

lemma spsc_contents_Cons:
  assumes inv: "spsc_inv q" and ne: "spsc_contents q \<noteq> []"
  defines "n \<equiv> unat (sq_capacity q)" and "r \<equiv> unat (sq_readIdx q)" and "w \<equiv> unat (sq_writeIdx q)"
  shows "spsc_contents q = the (spsc_slot q r) #
           ring_list n (\<lambda>i. the (spsc_slot q i)) (ring_next n r) (ring_dist n (ring_next n r) w)"
    and "spsc_slot q r \<noteq> None"
proof -
  note d = spsc_invD [OF inv]
  have rw: "r \<noteq> w"
    using ne by (simp add: spsc_contents_Nil_iff [OF inv] r_def w_def word_unat_eq_iff)
  have dist: "ring_dist n r w = Suc (ring_dist n (ring_next n r) w)"
    using d rw unfolding n_def r_def w_def by (intro ring_dist_next_left)
  have "ring_dist n (ring_next n r) w \<le> n"
    using d ring_dist_less [of "ring_next n r" n w] ring_next_less [of r n]
    by (simp add: n_def r_def w_def)
  then show "spsc_contents q = the (spsc_slot q r) #
           ring_list n (\<lambda>i. the (spsc_slot q i)) (ring_next n r) (ring_dist n (ring_next n r) w)"
    using dist d(4) ring_list_Cons [of r n "ring_dist n (ring_next n r) w" "\<lambda>i. the (spsc_slot q i)"]
    by (simp add: spsc_contents_def Let_def n_def r_def w_def)
  show "spsc_slot q r \<noteq> None"
    using d(10) [OF d(4)] dist by (simp add: n_def r_def w_def)
qed

lemma spsc_deref_front:
  assumes "spsc_inv q" "spsc_contents q \<noteq> []"
  shows "spsc_deref (unat (sq_readIdx q + sq_kPadding q)) q = Inr (hd (spsc_contents q))"
proof -
  note d = spsc_invD [OF assms(1)] and c = spsc_contents_Cons [OF assms]
  obtain x where x: "spsc_slot q (unat (sq_readIdx q)) = Some x" using c(2) by auto
  with c(1) have "hd (spsc_contents q) = x" by simp
  with x d(3,4) show ?thesis
    by (simp add: spsc_deref_def unat_plus_padding [OF assms(1)] spsc_slot_def)
qed

lemma spsc_pop_ok:
  assumes inv: "spsc_inv q" and wc: "sq_writeIdxCache q \<noteq> sq_readIdx q"
  shows "\<exists>q'. spsc_pop q = Inr q' \<and> spsc_inv q' \<and> spsc_contents q' = tl (spsc_contents q) \<and>
    sq_capacity q' = sq_capacity q"
proof -
  note d = spsc_invD [OF inv]
  let ?n = "unat (sq_capacity q)" and ?p = "unat (sq_kPadding q)"
  let ?r = "unat (sq_readIdx q)" and ?w = "unat (sq_writeIdx q)" and ?wc = "unat (sq_writeIdxCache q)"
  have rwc: "?r \<noteq> ?wc" using wc by (metis word_unat_eq_iff)
  have ne: "spsc_contents q \<noteq> []"
    using d(9) rwc ring_dist_eq_0 [OF d(4,7)]
    by (auto simp: length_0_conv [symmetric] length_spsc_contents simp del: length_0_conv)
  then have rw: "?r \<noteq> ?w" by (simp add: spsc_contents_Nil_iff [OF inv] word_unat_eq_iff)
  let ?q = "q\<lparr>sq_slots := (sq_slots q)[?r + ?p := None], sq_readIdx := spsc_next q (sq_readIdx q)\<rparr>"
  have k: "unat (sq_readIdx q + sq_kPadding q) = ?r + ?p" "?r + ?p < length (sq_slots q)"
    using d by (simp_all add: unat_plus_padding [OF inv])
  have pop: "spsc_pop q = Inr ?q"
    using spsc_deref_front [OF inv ne] rw by (auto simp: spsc_pop_def Let_def k)
  have r': "unat (sq_readIdx ?q) = ring_next ?n ?r" using d(4) by (simp add: unat_spsc_next)
  have slot: "spsc_slot ?q i = (if i = ?r then None else spsc_slot q i)" if "i < ?n" for i
    using that k(2) by (auto simp: spsc_slot_def nth_list_update)
  have r'n: "ring_next ?n ?r < ?n" using d(4) by (rule ring_next_less)
  have dist: "ring_dist ?n ?r ?w = Suc (ring_dist ?n (ring_next ?n ?r) ?w)"
    "ring_dist ?n ?r ?wc = Suc (ring_dist ?n (ring_next ?n ?r) ?wc)"
    using d rw rwc by (auto intro: ring_dist_next_left)
  have distr: "ring_dist ?n ?r i = Suc (ring_dist ?n (ring_next ?n ?r) i)"
    if "i < ?n" "i \<noteq> ?r" for i using that d(4) by (intro ring_dist_next_left) auto
  have "spsc_inv ?q"
    unfolding spsc_inv_def Let_def r'
    using d slot dist distr ring_dist_next_self [OF d(4)] ring_dist_less [OF r'n d(5)]
    by (force simp: ring_next_less)
  moreover have "spsc_contents ?q = tl (spsc_contents q)"
  proof -
    have "ring_at ?n (ring_next ?n ?r) i \<noteq> ?r" "ring_at ?n (ring_next ?n ?r) i < ?n"
      if i: "i < ring_dist ?n (ring_next ?n ?r) ?w" for i
    proof -
      have "i < ?n - 1" "i < ?n" using i dist(1) ring_dist_less [OF d(4,5)] by linarith+
      then show "ring_at ?n (ring_next ?n ?r) i < ?n" "ring_at ?n (ring_next ?n ?r) i \<noteq> ?r"
        using r'n ring_dist_at [OF r'n, of i] ring_dist_next_self [OF d(4)]
        by (auto intro: ring_at_less)
    qed
    then show ?thesis
      unfolding spsc_contents_Cons(1) [OF inv ne] unfolding spsc_contents_def Let_def r'
      by (auto intro!: ring_list_cong simp: slot)
  qed
  ultimately show ?thesis using pop by auto
qed

section \<open>The interface\<close>

text \<open>One turn of a consumer loop: \<open>front\<close>, move the element out, \<open>pop\<close>; any of them may fail.\<close>

definition spsc_take :: "'a spsc_queue \<Rightarrow> ('a option \<times> 'a spsc_queue) result" where
  "spsc_take q =
     (case spsc_front q of
        (None, q1) \<Rightarrow> Inr (None, q1)
      | (Some k, q1) \<Rightarrow>
          (case spsc_deref k q1 of
             Inl e \<Rightarrow> Inl e
           | Inr x \<Rightarrow> (case spsc_pop q1 of Inl e \<Rightarrow> Inl e | Inr q2 \<Rightarrow> Inr (Some x, q2))))"

lemma spsc_pop_capacity: "spsc_pop q = Inr q' \<Longrightarrow> sq_capacity q' = sq_capacity q"
  by (auto simp: spsc_pop_def Let_def split: if_splits sum.splits)

lemma spsc_take_Cons:
  assumes inv: "spsc_inv q" and c: "spsc_contents q = x # xs"
  shows "\<exists>k q1 q2. spsc_front q = (Some k, q1) \<and> spsc_deref k q1 = Inr x \<and> spsc_pop q1 = Inr q2 \<and>
    spsc_take q = Inr (Some x, q2) \<and> spsc_inv q2 \<and> spsc_contents q2 = xs"
proof -
  from spsc_front_spec(2) [OF inv] c obtain q1 where
    f: "spsc_front q = (Some (unat (sq_readIdx q1 + sq_kPadding q1)), q1)"
    and q1: "spsc_inv q1" "spsc_contents q1 = x # xs" "sq_writeIdxCache q1 \<noteq> sq_readIdx q1"
    by auto
  from spsc_deref_front [OF q1(1)] q1(2)
  have dr: "spsc_deref (unat (sq_readIdx q1 + sq_kPadding q1)) q1 = Inr x" by simp
  from spsc_pop_ok [OF q1(1,3)] q1(2) obtain q2 where
    "spsc_pop q1 = Inr q2" "spsc_inv q2" "spsc_contents q2 = xs" by auto
  with f dr show ?thesis by (simp add: spsc_take_def)
qed

lemma spsc_take_Nil:
  assumes "spsc_inv q" "spsc_contents q = []"
  shows "\<exists>q'. spsc_front q = (None, q') \<and> spsc_take q = Inr (None, q') \<and> spsc_inv q' \<and> spsc_contents q' = []"
  using spsc_front_spec(1) [OF assms] by (auto simp: spsc_take_def)

lemma spsc_take_capacity: "spsc_take q = Inr (r, q') \<Longrightarrow> sq_capacity q' = sq_capacity q"
  by (auto simp: spsc_take_def spsc_front_def Let_def dest!: spsc_pop_capacity split: option.splits prod.splits sum.splits if_splits)

lemma spsc_try_emplace_capacity: "spsc_try_emplace x q = Inr (b, q') \<Longrightarrow> sq_capacity q' = sq_capacity q"
  by (auto simp: spsc_try_emplace_def spsc_construct_def Let_def split: if_splits option.splits sum.splits)

interpretation spsc: bounded_fifo spsc_inv spsc_contents spsc_room "\<lambda>x q. Some (spsc_try_emplace x q)"
  "\<lambda>q. Some (spsc_take q)" "\<lambda>q. unat (spsc_capacity q)"
proof
  fix q :: "'a spsc_queue" and x :: 'a
  assume inv: "spsc_inv q"
  show "spsc_room q \<Longrightarrow> \<exists>q'. Some (spsc_try_emplace x q) = Some (Inr (True, q')) \<and> spsc_inv q' \<and>
      spsc_contents q' = spsc_contents q @ [x]"
    using spsc_try_emplace_room [OF inv, of x] by (auto simp: spsc_room_iff [OF inv])
  show "\<not> spsc_room q \<Longrightarrow> \<exists>q'. Some (spsc_try_emplace x q) = Some (Inr (False, q')) \<and> spsc_inv q' \<and>
      spsc_contents q' = spsc_contents q"
    using spsc_try_emplace_full [OF inv, of x] spsc_refresh_inv [OF inv] by (auto simp: spsc_room_iff [OF inv])
  show "spsc_room q \<longleftrightarrow> length (spsc_contents q) < unat (spsc_capacity q)"
    by (simp add: spsc_room_def)
next
  fix q :: "'a spsc_queue" assume "spsc_inv q" "spsc_contents q = []"
  then show "\<exists>q'. Some (spsc_take q) = Some (Inr (None, q')) \<and> spsc_inv q' \<and> spsc_contents q' = []"
    using spsc_take_Nil by fastforce
next
  fix q :: "'a spsc_queue" and x xs assume "spsc_inv q" "spsc_contents q = x # xs"
  then show "\<exists>q'. Some (spsc_take q) = Some (Inr (Some x, q')) \<and> spsc_inv q' \<and> spsc_contents q' = xs"
    using spsc_take_Cons by fastforce
next
  fix q q' :: "'a spsc_queue" and x :: 'a and b
  assume "Some (spsc_try_emplace x q) = Some (Inr (b, q'))"
  then show "unat (spsc_capacity q') = unat (spsc_capacity q)"
    by (simp add: spsc_capacity_def spsc_try_emplace_capacity)
next
  fix q q' :: "'a spsc_queue" and r
  assume "Some (spsc_take q) = Some (Inr (r, q'))"
  then show "unat (spsc_capacity q') = unat (spsc_capacity q)"
    by (simp add: spsc_capacity_def spsc_take_capacity)
qed

section \<open>Construction and destruction\<close>

lemma spsc_kPadding_bounds: "1 \<le> unat (spsc_kPadding s)" "unat (spsc_kPadding s) \<le> 64"
proof -
  have "unat ((63 :: size_t) div s) \<le> 63"
    by (simp add: unat_div_distrib div_le_dividend)
  then have "unat (spsc_kPadding s) = Suc (unat ((63 :: size_t) div s))"
    unfolding spsc_kPadding_def spsc_kCacheLineSize_def by (simp add: unat_word_ariths)
  with \<open>unat ((63 :: size_t) div s) \<le> 63\<close>
  show "1 \<le> unat (spsc_kPadding s)" "unat (spsc_kPadding s) \<le> 64" by simp_all
qed

text \<open>The state right after construction satisfies the invariant if its sizes fit.\<close>

lemma spsc_fresh:
  assumes "2 \<le> unat c" "unat c + 2 * unat p < 2 ^ 64" "n = unat c + 2 * unat p"
  defines "q \<equiv> \<lparr>sq_capacity = c, sq_kPadding = p, sq_slots = replicate n None, sq_writeIdx = 0,
    sq_readIdxCache = 0, sq_readIdx = 0, sq_writeIdxCache = 0\<rparr>"
  shows "spsc_inv q" "spsc_contents q = []"
  using assms by (auto simp: spsc_inv_def spsc_contents_def spsc_slot_def Let_def)

text \<open>The capacity the constructor settles on, as a number.\<close>

definition spsc_usable :: "size_t \<Rightarrow> size_t \<Rightarrow> nat" where
  "spsc_usable sizeofT capacity =
     min (max 1 (unat capacity)) (2 ^ 64 - 2 - 2 * unat (spsc_kPadding sizeofT))"

lemma unat_SIZE_MAX: "unat SIZE_MAX = 2 ^ 64 - 1"
  by (simp add: SIZE_MAX_def unsigned_minus_1_eq_mask mask_eq_exp_minus_1)

lemma unat_double_padding: "unat (2 * spsc_kPadding s) = 2 * unat (spsc_kPadding s)"
  using spsc_kPadding_bounds [of s] by (simp add: unat_word_ariths)

lemma spsc_ctor_capacity:
  fixes sizeofT capacity :: size_t
  assumes "capacity < SIZE_MAX"
  defines "p \<equiv> spsc_kPadding sizeofT"
  defines "c \<equiv> (if capacity < 1 then 1 else capacity) + 1"
  shows "unat (if c > SIZE_MAX - 2 * p then SIZE_MAX - 2 * p else c) = Suc (spsc_usable sizeofT capacity)"
proof -
  note pb = spsc_kPadding_bounds [of sizeofT, folded p_def]
  have "unat capacity < 2 ^ 64 - 1"
    using assms(1) by (simp add: word_less_nat_alt unat_SIZE_MAX)
  then have c: "unat c = Suc (max 1 (unat capacity))"
    unfolding c_def by (auto simp: word_less_nat_alt unat_word_ariths max_def)
  have m: "unat (SIZE_MAX - 2 * p) = 2 ^ 64 - 1 - 2 * unat p"
    using pb unat_double_padding [of sizeofT, folded p_def]
    by (subst unat_sub) (simp_all add: word_le_nat_alt unat_SIZE_MAX)
  show ?thesis
    using c m pb by (auto simp: word_less_nat_alt spsc_usable_def p_def [symmetric] min_def)
qed

definition spsc_fill :: "'a list \<Rightarrow> 'a spsc_queue \<Rightarrow> 'a spsc_queue result" where
  "spsc_fill xs q =
     fold (\<lambda>x r. case r of Inl e \<Rightarrow> Inl e | Inr q \<Rightarrow> map_sum id snd (spsc_try_emplace x q)) xs (Inr q)"

lemma spsc_dtor_destroys:
  "spsc_inv q \<Longrightarrow> \<exists>q'. spsc_dtor q = Some (Inr q') \<and> spsc_inv q' \<and> spsc_contents q' = []"
proof (induction "spsc_contents q" arbitrary: q)
  case Nil
  from spsc_take_Nil [OF Nil.prems Nil.hyps [symmetric]] show ?case
    by (subst spsc_dtor.simps) auto
next
  case (Cons x xs)
  from spsc_take_Cons [OF Cons.prems Cons.hyps(2) [symmetric]] obtain k q1 q2 where
    q: "spsc_front q = (Some k, q1)" "spsc_pop q1 = Inr q2" "spsc_inv q2" "spsc_contents q2 = xs"
    by auto
  from Cons.hyps(1) [OF q(4) [symmetric] q(3)] q(1,2) show ?case
    by (subst spsc_dtor.simps) simp
qed

lemma spsc_empty_slots:
  assumes "spsc_inv q" "spsc_contents q = []" "i < unat (sq_capacity q)"
  shows "spsc_slot q i = None"
  using spsc_invD(10) [OF assms(1,3)] assms(1,2)
  by (simp add: spsc_contents_Nil_iff)

lemma spsc_size_ring:
  assumes inv: "spsc_inv q" and small: "unat (sq_capacity q) \<le> 2 ^ 63"
  shows "unat (spsc_size q) =
    ring_dist (unat (sq_capacity q)) (unat (sq_readIdx q)) (unat (sq_writeIdx q))"
proof -
  note d = spsc_invD [OF inv]
  let ?r = "unat (sq_readIdx q)" and ?w = "unat (sq_writeIdx q)"
  let ?d = "sq_writeIdx q - sq_readIdx q"
  have sint_neg: "sint ?d < 0 \<longleftrightarrow> 2 ^ 63 \<le> unat ?d"
    using unsigned_less [of ?d, where 'a = int] by (simp add: sint_unat)
  show ?thesis
  proof (cases "?r \<le> ?w")
    case True
    then have "unat ?d = ?w - ?r" by (simp add: unat_sub word_le_nat_alt)
    moreover from this have "\<not> sint ?d < 0" using d(5) small by (simp add: sint_neg)
    ultimately show ?thesis using True by (simp add: spsc_size_def Let_def ring_dist_def)
  next
    case False
    then have u: "unat ?d = 2 ^ 64 + ?w - ?r"
      using unsigned_less [of "sq_readIdx q"] by (simp add: unat_sub_if')
    moreover have "unat (?d + sq_capacity q) = ?w + unat (sq_capacity q) - ?r"
    proof -
      obtain m where m: "?w + unat (sq_capacity q) = m + ?r"
        using d(4) by (metis le_add2 le_trans less_imp_le_nat ordered_cancel_comm_monoid_diff_class.diff_add)
      then have "unat ?d + unat (sq_capacity q) = m + 2 ^ 64" "m < 2 ^ 64"
        using False u small unsigned_less [of "sq_readIdx q", where 'a = nat] by simp_all
      then show ?thesis using m by (simp add: unat_word_ariths)
    qed
    moreover have "sint ?d < 0" using u d(4) small by (simp add: sint_neg)
    ultimately show ?thesis using False by (simp add: spsc_size_def Let_def ring_dist_def)
  qed
qed

section \<open>Properties\<close>

text \<open>A queue with room for two elements that holds the element 7, for the witnesses.\<close>

definition spsc_example :: "nat spsc_queue" where
  "spsc_example = \<lparr>sq_capacity = 3, sq_kPadding = 1, sq_slots = [None, Some 7, None, None, None],
     sq_writeIdx = 1, sq_readIdxCache = 0, sq_readIdx = 0, sq_writeIdxCache = 0\<rparr>"

lemma all_less_3: "(\<forall>i < 3 :: nat. P i) \<longleftrightarrow> P 0 \<and> P 1 \<and> P 2"
  by (auto simp: less_Suc_eq numeral_3_eq_3 numeral_2_eq_2)

lemma spsc_example_inv: "spsc_inv spsc_example"
  by (simp add: spsc_example_def spsc_inv_def spsc_slot_def ring_dist_def Let_def all_less_3)

lemma spsc_example_contents: "spsc_contents spsc_example = [7]"
  by (simp add: spsc_example_def spsc_contents_def spsc_slot_def ring_dist_def ring_list_def
      ring_at_def Let_def)

text \<open>
  Every call of \<open>try_emplace\<close> on a well-formed queue ends without touching memory outside the
  allocation; it returns true and appends the element when fewer than \<open>capacity()\<close> elements are
  inside, and returns false and leaves the contents alone when the queue is full. The invariant
  holds afterwards in both cases.
\<close>

theorem spsc_try_emplace_spec:
  assumes "spsc_inv q"
  shows "\<exists>ok q'. spsc_try_emplace x q = Inr (ok, q') \<and> spsc_inv q' \<and>
    (ok \<longleftrightarrow> length (spsc_contents q) < unat (spsc_capacity q)) \<and>
    spsc_contents q' = (if ok then spsc_contents q @ [x] else spsc_contents q)"
proof (cases "spsc_room q")
  case True
  with spsc_try_emplace_room [OF assms, of x] obtain q' where
    "spsc_try_emplace x q = Inr (True, q')" "spsc_inv q'" "spsc_contents q' = spsc_contents q @ [x]"
    by (auto simp: spsc_room_iff [OF assms])
  with True show ?thesis by (auto simp: spsc_room_def)
next
  case False
  with spsc_try_emplace_full [OF assms, of x] have
    "spsc_try_emplace x q = Inr (False, q\<lparr>sq_readIdxCache := sq_readIdx q\<rparr>)"
    by (simp add: spsc_room_iff [OF assms])
  with False spsc_refresh_inv [OF assms] show ?thesis by (auto simp: spsc_room_def)
qed

theorem spsc_try_emplace_spec_witness:
  "\<exists>ok q'. spsc_try_emplace 8 spsc_example = Inr (ok, q') \<and> spsc_inv q' \<and>
    (ok \<longleftrightarrow> length (spsc_contents spsc_example) < unat (spsc_capacity spsc_example)) \<and>
    spsc_contents q' = (if ok then spsc_contents spsc_example @ [8] else spsc_contents spsc_example)"
  using spsc_try_emplace_spec [OF spsc_example_inv, of 8] .

text \<open>
  The consumer side: on a well-formed queue \<open>front\<close> returns null exactly when the queue is empty;
  otherwise it points at the oldest element, and the \<open>pop\<close> that follows neither fails its assertion
  nor reads raw storage, removes exactly that element and keeps the invariant.
\<close>

theorem spsc_front_pop_spec:
  assumes "spsc_inv q"
  shows "case spsc_contents q of
      [] \<Rightarrow> \<exists>q'. spsc_front q = (None, q') \<and> spsc_inv q' \<and> spsc_contents q' = []
    | x # xs \<Rightarrow> \<exists>k q1 q2. spsc_front q = (Some k, q1) \<and> spsc_deref k q1 = Inr x \<and>
        spsc_pop q1 = Inr q2 \<and> spsc_inv q2 \<and> spsc_contents q2 = xs"
proof (cases "spsc_contents q")
  case Nil
  with spsc_take_Nil [OF assms] show ?thesis by auto
next
  case (Cons x xs)
  with spsc_take_Cons [OF assms Cons] show ?thesis by simp blast
qed

theorem spsc_front_pop_spec_witness:
  "\<exists>k q1 q2. spsc_front spsc_example = (Some k, q1) \<and> spsc_deref k q1 = Inr 7 \<and>
     spsc_pop q1 = Inr q2 \<and> spsc_inv q2 \<and> spsc_contents q2 = []"
  using spsc_front_pop_spec [OF spsc_example_inv] by (simp add: spsc_example_contents)

text \<open>
  The constructor, for every requested capacity below \<open>SIZE_MAX\<close> that the allocator serves, builds
  an empty well-formed queue; its usable capacity is the requested one, at least 1 and at most what
  leaves room for the padding in a \<open>size_t\<close>.
\<close>

theorem spsc_ctor_spec:
  assumes "capacity < SIZE_MAX" and "\<And>n. alloc_ok n"
  shows "\<exists>q. spsc_ctor alloc_ok None sizeofT capacity = Inr q \<and> spsc_inv q \<and> spsc_contents q = [] \<and>
    unat (spsc_capacity q) =
      min (max 1 (unat capacity)) (2 ^ 64 - 2 - 2 * unat (spsc_kPadding sizeofT))"
proof -
  let ?p = "spsc_kPadding sizeofT"
  define c where "c = (if capacity < 1 then 1 else capacity) + 1"
  define d where "d = (if c > SIZE_MAX - 2 * ?p then SIZE_MAX - 2 * ?p else c)"
  have d: "unat d = Suc (spsc_usable sizeofT capacity)"
    unfolding c_def d_def by (rule spsc_ctor_capacity [OF assms(1)])
  have fit: "unat d + 2 * unat ?p < 2 ^ 64" "2 \<le> unat d"
    using spsc_kPadding_bounds [of sizeofT] by (auto simp: d spsc_usable_def)
  then have len: "unat (d + 2 * ?p) = unat d + 2 * unat ?p"
    using unat_add_less [of d "2 * ?p"] by (simp add: unat_double_padding)
  note fresh = spsc_fresh [OF fit(2,1) len]
  have "spsc_ctor alloc_ok None sizeofT capacity =
    Inr \<lparr>sq_capacity = d, sq_kPadding = ?p, sq_slots = replicate (unat (d + 2 * ?p)) None,
         sq_writeIdx = 0, sq_readIdxCache = 0, sq_readIdx = 0, sq_writeIdxCache = 0\<rparr>"
    unfolding spsc_ctor_def Let_def c_def [symmetric] d_def [symmetric] using assms(2) by simp
  with fresh unat_spsc_capacity [OF fresh(1)] show ?thesis
    by (auto simp: d spsc_usable_def)
qed

theorem spsc_ctor_spec_witness:
  "\<exists>q :: nat spsc_queue. spsc_ctor (\<lambda>_. True) None 8 3500000 = Inr q \<and> spsc_inv q \<and>
     spsc_contents q = [] \<and> unat (spsc_capacity q) = 3500000"
  using spsc_ctor_spec [of 3500000 "\<lambda>_. True" 8, where 'a = nat]
  by (simp add: SIZE_MAX_def spsc_kPadding_def spsc_kCacheLineSize_def word_less_nat_alt
      unsigned_minus_1_eq_mask mask_eq_exp_minus_1)



text \<open>
  The overflow guard of the constructor comes after the increment: for a requested capacity of
  \<open>SIZE_MAX\<close> the increment wraps to 0, the queue claims room for \<open>SIZE_MAX\<close> elements but has an
  allocation of only the padding, and the ninth element (of size 8) is constructed outside it.
\<close>

theorem spsc_ctor_size_max_overflows:
  "\<exists>q :: nat spsc_queue. spsc_ctor (\<lambda>_. True) None 8 SIZE_MAX = Inr q \<and> sq_capacity q = 0 \<and>
     spsc_capacity q = SIZE_MAX \<and> length (sq_slots q) = 16 \<and>
     spsc_fill (replicate 9 x) q = Inl (UndefinedBehaviour ''slots_'')"
proof -
  have nine: "replicate 9 x = [x, x, x, x, x, x, x, x, x]" by (simp add: numeral_eq_Suc)
  show ?thesis
    unfolding nine
    by (simp add: spsc_ctor_def SIZE_MAX_def spsc_kPadding_def spsc_kCacheLineSize_def Let_def
        spsc_capacity_def spsc_fill_def spsc_try_emplace_def spsc_construct_def spsc_next_def)
qed

end
