(* ===== verification/SPSC_Concurrent.thy ===== *)
theory SPSC_Concurrent
  imports SPSCQueue
begin

text \<open>
  The producer and the consumer of \<^verbatim>\<open>SPSCQueue.h\<close> side by side. A step is one access to shared
  memory by one thread: a load of the other side's index, the construction, the move or the
  destruction of an element, the release store that publishes an index. The two index copies and the
  program counters (with the local variables of the running call) belong to one thread each.
  Constructing an element where one is alive, and moving from or destroying a slot that holds none, are
  steps like the others: they raise the flag \<open>cq_error\<close>.
  Interleavings are sequentially consistent; the acquire and release orders of the source give the
  threads exactly the reads this needs. The indices are numbers here: \<^verbatim>\<open>SPSCQueue\<close> shows
  that they stay below the capacity, so that no word operation on them wraps.
\<close>

section \<open>State and steps\<close>

datatype 'a producer_pc =
    PIdle
  | PReload 'a nat nat     \<comment> \<open>value, \<open>writeIdx\<close>, \<open>nextWriteIdx\<close>: about to load \<open>readIdx_\<close>\<close>
  | PWrite 'a nat nat      \<comment> \<open>about to construct the element\<close>
  | PPublish 'a nat nat    \<comment> \<open>about to store \<open>writeIdx_\<close>\<close>

datatype consumer_pc =
    CIdle
  | CReload nat            \<comment> \<open>\<open>readIdx\<close>: about to load \<open>writeIdx_\<close>\<close>
  | CRead nat              \<comment> \<open>\<open>front\<close> returned a pointer, about to move the element out\<close>
  | CDestroy nat           \<comment> \<open>in \<open>pop\<close>, about to destroy the element\<close>
  | CPublish nat           \<comment> \<open>about to store \<open>readIdx_\<close>\<close>

record 'a spsc_sys =
  cq_n :: nat
  cq_slot :: "nat \<Rightarrow> 'a option"
  cq_w :: nat
  cq_r :: nat
  cq_rc :: nat
  cq_wc :: nat
  cq_ppc :: "'a producer_pc"
  cq_cpc :: consumer_pc
  cq_in :: "'a list"       \<comment> \<open>history: the values published\<close>
  cq_out :: "'a list"      \<comment> \<open>history: the values moved out\<close>
  cq_error :: bool         \<comment> \<open>history: a slot was used against its state\<close>

definition spsc_sys_init :: "nat \<Rightarrow> 'a spsc_sys \<Rightarrow> bool" where
  "spsc_sys_init n s \<longleftrightarrow> 2 \<le> n \<and>
     s = \<lparr>cq_n = n, cq_slot = (\<lambda>_. None), cq_w = 0, cq_r = 0, cq_rc = 0, cq_wc = 0,
          cq_ppc = PIdle, cq_cpc = CIdle, cq_in = [], cq_out = [], cq_error = False\<rparr>"

text \<open>The producer: \<open>try_emplace\<close>, line by line.\<close>

inductive spsc_pstep :: "'a spsc_sys \<Rightarrow> 'a spsc_sys \<Rightarrow> bool" where
  p_room: "cq_ppc s = PIdle \<Longrightarrow> nx = ring_next (cq_n s) (cq_w s) \<Longrightarrow> nx \<noteq> cq_rc s \<Longrightarrow>
     spsc_pstep s (s\<lparr>cq_ppc := PWrite x (cq_w s) nx\<rparr>)"
| p_maybe_full: "cq_ppc s = PIdle \<Longrightarrow> nx = ring_next (cq_n s) (cq_w s) \<Longrightarrow> nx = cq_rc s \<Longrightarrow>
     spsc_pstep s (s\<lparr>cq_ppc := PReload x (cq_w s) nx\<rparr>)"
| p_full: "cq_ppc s = PReload x w nx \<Longrightarrow> nx = cq_r s \<Longrightarrow>
     spsc_pstep s (s\<lparr>cq_rc := cq_r s, cq_ppc := PIdle\<rparr>)"
| p_not_full: "cq_ppc s = PReload x w nx \<Longrightarrow> nx \<noteq> cq_r s \<Longrightarrow>
     spsc_pstep s (s\<lparr>cq_rc := cq_r s, cq_ppc := PWrite x w nx\<rparr>)"
| p_write: "cq_ppc s = PWrite x w nx \<Longrightarrow>
     spsc_pstep s (s\<lparr>cq_slot := (cq_slot s)(w := Some x), cq_ppc := PPublish x w nx,
       cq_error := cq_error s \<or> cq_slot s w \<noteq> None\<rparr>)"
| p_publish: "cq_ppc s = PPublish x w nx \<Longrightarrow>
     spsc_pstep s (s\<lparr>cq_w := nx, cq_ppc := PIdle, cq_in := cq_in s @ [x]\<rparr>)"

text \<open>The consumer: \<open>front\<close>, moving the element out, \<open>pop\<close>.\<close>

inductive spsc_cstep :: "'a spsc_sys \<Rightarrow> 'a spsc_sys \<Rightarrow> bool" where
  c_some: "cq_cpc s = CIdle \<Longrightarrow> cq_r s \<noteq> cq_wc s \<Longrightarrow> spsc_cstep s (s\<lparr>cq_cpc := CRead (cq_r s)\<rparr>)"
| c_maybe_empty: "cq_cpc s = CIdle \<Longrightarrow> cq_r s = cq_wc s \<Longrightarrow>
     spsc_cstep s (s\<lparr>cq_cpc := CReload (cq_r s)\<rparr>)"
| c_empty: "cq_cpc s = CReload r \<Longrightarrow> cq_w s = r \<Longrightarrow>
     spsc_cstep s (s\<lparr>cq_wc := cq_w s, cq_cpc := CIdle\<rparr>)"
| c_not_empty: "cq_cpc s = CReload r \<Longrightarrow> cq_w s \<noteq> r \<Longrightarrow>
     spsc_cstep s (s\<lparr>cq_wc := cq_w s, cq_cpc := CRead r\<rparr>)"
| c_read: "cq_cpc s = CRead r \<Longrightarrow>
     spsc_cstep s (s\<lparr>cq_out := cq_out s @ (case cq_slot s r of None \<Rightarrow> [] | Some x \<Rightarrow> [x]), cq_cpc := CDestroy r,
       cq_error := cq_error s \<or> cq_slot s r = None\<rparr>)"
| c_destroy: "cq_cpc s = CDestroy r \<Longrightarrow>
     spsc_cstep s (s\<lparr>cq_slot := (cq_slot s)(r := None), cq_cpc := CPublish r,
       cq_error := cq_error s \<or> cq_slot s r = None\<rparr>)"
| c_publish: "cq_cpc s = CPublish r \<Longrightarrow>
     spsc_cstep s (s\<lparr>cq_r := ring_next (cq_n s) r, cq_cpc := CIdle\<rparr>)"

inductive spsc_step :: "'a spsc_sys \<Rightarrow> 'a spsc_sys \<Rightarrow> bool" where
  by_producer: "spsc_pstep s t \<Longrightarrow> spsc_step s t"
| by_consumer: "spsc_cstep s t \<Longrightarrow> spsc_step s t"

section \<open>Invariant\<close>

text \<open>What is inside as far as the consumer is concerned: an element it has moved out is gone.\<close>

definition cq_from :: "'a spsc_sys \<Rightarrow> nat \<Rightarrow> 'a list" where
  "cq_from s r = ring_list (cq_n s) (\<lambda>i. the (cq_slot s i)) r (ring_dist (cq_n s) r (cq_w s))"

definition cq_first :: "'a spsc_sys \<Rightarrow> nat" where
  "cq_first s =
     (case cq_cpc s of
        CDestroy r \<Rightarrow> ring_next (cq_n s) r
      | CPublish r \<Rightarrow> ring_next (cq_n s) r
      | _ \<Rightarrow> cq_r s)"

definition cq_pending :: "'a spsc_sys \<Rightarrow> 'a list" where
  "cq_pending s = cq_from s (cq_first s)"

definition cq_range :: "'a spsc_sys \<Rightarrow> bool" where
  "cq_range s \<longleftrightarrow> 2 \<le> cq_n s \<and> cq_r s < cq_n s \<and> cq_w s < cq_n s \<and> cq_rc s < cq_n s \<and> cq_wc s < cq_n s \<and>
     ring_dist (cq_n s) (cq_r s) (cq_w s) \<le> ring_dist (cq_n s) (cq_rc s) (cq_w s) \<and>
     ring_dist (cq_n s) (cq_r s) (cq_wc s) \<le> ring_dist (cq_n s) (cq_r s) (cq_w s)"

definition cq_pinv :: "'a spsc_sys \<Rightarrow> bool" where
  "cq_pinv s \<longleftrightarrow>
     (case cq_ppc s of
        PIdle \<Rightarrow> True
      | PReload x w nx \<Rightarrow> w = cq_w s \<and> nx = ring_next (cq_n s) w
      | PWrite x w nx \<Rightarrow> w = cq_w s \<and> nx = ring_next (cq_n s) w \<and> nx \<noteq> cq_r s \<and> nx \<noteq> cq_rc s
      | PPublish x w nx \<Rightarrow> w = cq_w s \<and> nx = ring_next (cq_n s) w \<and> nx \<noteq> cq_r s \<and> nx \<noteq> cq_rc s \<and>
          cq_slot s w = Some x)"

definition cq_cinv :: "'a spsc_sys \<Rightarrow> bool" where
  "cq_cinv s \<longleftrightarrow>
     (case cq_cpc s of
        CIdle \<Rightarrow> True
      | CReload r \<Rightarrow> r = cq_r s
      | CRead r \<Rightarrow> r = cq_r s \<and> r \<noteq> cq_wc s
      | CDestroy r \<Rightarrow> r = cq_r s \<and> r \<noteq> cq_wc s
      | CPublish r \<Rightarrow> r = cq_r s \<and> r \<noteq> cq_wc s \<and> cq_slot s r = None)"

definition cq_live :: "'a spsc_sys \<Rightarrow> nat \<Rightarrow> bool" where
  "cq_live s i \<longleftrightarrow>
     ring_dist (cq_n s) (cq_r s) i < ring_dist (cq_n s) (cq_r s) (cq_w s) \<and> cq_cpc s \<noteq> CPublish i \<or>
     i = cq_w s \<and> (\<exists>x nx. cq_ppc s = PPublish x i nx)"

definition cq_inv :: "'a spsc_sys \<Rightarrow> bool" where
  "cq_inv s \<longleftrightarrow> cq_range s \<and> cq_pinv s \<and> cq_cinv s \<and> \<not> cq_error s \<and>
     (\<forall>i < cq_n s. cq_slot s i \<noteq> None \<longleftrightarrow> cq_live s i) \<and> cq_in s = cq_out s @ cq_pending s"

lemmas cq_inv_defs = cq_inv_def cq_range_def cq_pinv_def cq_cinv_def cq_live_def
lemmas cq_pending_defs = cq_pending_def cq_first_def

lemma ring_cache_full:
  assumes "r < n" "w < n" "c < n" "2 \<le> n" "ring_dist n r w \<le> ring_dist n c w" "ring_next n w = r"
  shows "ring_next n w = c"
  using assms ring_full_iff [of r n w] ring_full_iff [of c n w] ring_dist_less [of c n w] by linarith

lemma ring_between:
  assumes "r < n" "w < n" "c < n" "ring_dist n r c \<le> ring_dist n r w" "r \<noteq> c"
  shows "r \<noteq> w" "ring_dist n r w = Suc (ring_dist n (ring_next n r) w)"
    "ring_dist n r c = Suc (ring_dist n (ring_next n r) c)"
proof -
  show "r \<noteq> w" using assms ring_dist_eq_0 [of r n c] by auto
  then show "ring_dist n r w = Suc (ring_dist n (ring_next n r) w)"
    "ring_dist n r c = Suc (ring_dist n (ring_next n r) c)"
    using assms by (auto intro: ring_dist_next_left)
qed

lemma cq_inv_init: "spsc_sys_init n s \<Longrightarrow> cq_inv s"
  by (auto simp: spsc_sys_init_def cq_inv_defs cq_pending_defs cq_from_def)

text \<open>What each part of the invariant depends on.\<close>

lemma cq_from_cong:
  "cq_n t = cq_n s \<Longrightarrow> cq_w t = cq_w s \<Longrightarrow> cq_slot t = cq_slot s \<Longrightarrow> cq_from t = cq_from s"
  by (rule ext) (simp add: cq_from_def)

lemma cq_pending_cong:
  "cq_from t = cq_from s \<Longrightarrow> cq_n t = cq_n s \<Longrightarrow> cq_r t = cq_r s \<Longrightarrow> cq_cpc t = cq_cpc s \<Longrightarrow>
    cq_pending t = cq_pending s"
  by (simp add: cq_pending_defs split: consumer_pc.split)

lemma cq_pinv_cong:
  "cq_n t = cq_n s \<Longrightarrow> cq_w t = cq_w s \<Longrightarrow> cq_slot t = cq_slot s \<Longrightarrow> cq_r t = cq_r s \<Longrightarrow>
    cq_rc t = cq_rc s \<Longrightarrow> cq_ppc t = cq_ppc s \<Longrightarrow> cq_pinv t = cq_pinv s"
  by (simp add: cq_pinv_def split: producer_pc.split)

lemma cq_cinv_cong:
  "cq_slot t = cq_slot s \<Longrightarrow> cq_r t = cq_r s \<Longrightarrow> cq_wc t = cq_wc s \<Longrightarrow> cq_cpc t = cq_cpc s \<Longrightarrow>
    cq_cinv t = cq_cinv s"
  by (simp add: cq_cinv_def split: consumer_pc.split)

text \<open>Steps that only move a program counter or an index copy.\<close>

lemma cq_inv_p_quiet:
  assumes inv: "cq_inv s" and idle: "\<And>x w nx. cq_ppc s \<noteq> PPublish x w nx"
    and t: "t = s\<lparr>cq_rc := c, cq_ppc := pc\<rparr>" and c: "c = cq_rc s \<or> c = cq_r s"
    and pc: "pc = PIdle \<or> (\<exists>x. pc = PReload x (cq_w s) (ring_next (cq_n s) (cq_w s))) \<or>
      (\<exists>x. pc = PWrite x (cq_w s) (ring_next (cq_n s) (cq_w s))) \<and>
       ring_next (cq_n s) (cq_w s) \<noteq> cq_r s \<and> ring_next (cq_n s) (cq_w s) \<noteq> c"
  shows "cq_inv t"
proof -
  have "cq_pending t = cq_pending s" by (intro cq_pending_cong cq_from_cong) (simp_all add: t)
  moreover have "cq_cinv t = cq_cinv s" by (intro cq_cinv_cong) (simp_all add: t)
  moreover have "cq_live t = cq_live s" using idle pc by (auto simp: cq_live_def t fun_eq_iff)
  moreover have "cq_range t" using inv c by (auto simp: cq_inv_def cq_range_def t)
  moreover have "cq_pinv t" using pc by (auto simp: cq_pinv_def t)
  ultimately show ?thesis using inv by (simp add: cq_inv_def t)
qed

lemma cq_inv_c_quiet:
  assumes inv: "cq_inv s" and idle: "cq_cpc s = CIdle \<or> (\<exists>r. cq_cpc s = CReload r)"
    and t: "t = s\<lparr>cq_wc := c, cq_cpc := pc\<rparr>" and c: "c = cq_wc s \<or> c = cq_w s"
    and pc: "pc = CIdle \<or> pc = CReload (cq_r s) \<or> pc = CRead (cq_r s) \<and> cq_r s \<noteq> c"
  shows "cq_inv t"
proof -
  have "cq_pending t = cq_pending s"
    using idle pc by (auto simp: cq_pending_defs t cq_from_def)
  moreover have "cq_pinv t = cq_pinv s" by (intro cq_pinv_cong) (simp_all add: t)
  moreover have "cq_live t = cq_live s" using idle pc by (auto simp: cq_live_def t fun_eq_iff)
  moreover have "cq_range t" using inv c by (auto simp: cq_inv_def cq_range_def t)
  moreover have "cq_cinv t" using pc by (auto simp: cq_cinv_def t)
  ultimately show ?thesis using inv by (simp add: cq_inv_def t)
qed

text \<open>The producer's two stores. The slot it is about to use is raw storage.\<close>

lemma cq_slot_free:
  assumes inv: "cq_inv s" and pc: "cq_ppc s = PWrite x w nx"
  shows "cq_slot s w = None"
proof -
  have w: "w = cq_w s" "w < cq_n s" using inv pc by (auto simp: cq_inv_def cq_pinv_def cq_range_def)
  then have "\<not> cq_live s w" using pc by (simp add: cq_live_def)
  then show ?thesis using inv w(2) by (auto simp: cq_inv_def)
qed

lemma cq_inv_p_write:
  assumes inv: "cq_inv s" and pc: "cq_ppc s = PWrite x w nx"
  shows "cq_inv (s\<lparr>cq_slot := (cq_slot s)(w := Some x), cq_ppc := PPublish x w nx, cq_error := False\<rparr>)"
    (is "cq_inv ?t")
proof -
  from inv pc have w: "w = cq_w s" "nx = ring_next (cq_n s) w" "nx \<noteq> cq_r s" "nx \<noteq> cq_rc s"
    by (auto simp: cq_inv_def cq_pinv_def)
  from inv have rg: "cq_r s < cq_n s" "cq_w s < cq_n s" "cq_wc s < cq_n s"
    "ring_dist (cq_n s) (cq_r s) (cq_wc s) \<le> ring_dist (cq_n s) (cq_r s) (cq_w s)"
    by (simp_all add: cq_inv_def cq_range_def)
  have keep: "cq_from ?t r = cq_from s r" if "r < cq_n s" for r
    using that rg w ring_list_upd_outside [of r "cq_n s" w "ring_dist (cq_n s) r w" "\<lambda>i. the (cq_slot s i)" x]
    by (simp add: cq_from_def fun_upd_def if_distrib [of the] cong: if_cong)
  have cpc: "r = cq_r s \<and> r \<noteq> cq_w s" if "cq_cpc s = CDestroy r \<or> cq_cpc s = CPublish r \<or> cq_cpc s = CRead r" for r
    using that inv ring_between(1) [OF rg] by (auto simp: cq_inv_def cq_cinv_def)
  have "cq_pending ?t = cq_pending s"
    using keep rg cpc by (auto simp: cq_pending_defs ring_next_less split: consumer_pc.split)
  moreover have "cq_cinv ?t"
  proof -
    have "cq_cinv s" using inv by (simp add: cq_inv_def)
    then show ?thesis using cpc w(1) by (cases "cq_cpc s") (simp_all add: cq_cinv_def)
  qed
  moreover have "cq_live ?t i \<longleftrightarrow> cq_live s i \<or> i = w" for i
    using pc w cpc by (auto simp: cq_live_def)
  moreover have "cq_range ?t" "cq_pinv ?t"
    using inv w by (simp_all add: cq_inv_def cq_range_def cq_pinv_def)
  ultimately show ?thesis using inv by (auto simp: cq_inv_def)
qed

lemma cq_inv_p_publish:
  assumes inv: "cq_inv s" and pc: "cq_ppc s = PPublish x w nx"
  shows "cq_inv (s\<lparr>cq_w := nx, cq_ppc := PIdle, cq_in := cq_in s @ [x]\<rparr>)" (is "cq_inv ?t")
proof -
  from inv pc have w: "w = cq_w s" "nx = ring_next (cq_n s) w" "nx \<noteq> cq_r s" "nx \<noteq> cq_rc s"
    "cq_slot s w = Some x"
    by (auto simp: cq_inv_def cq_pinv_def)
  from inv have rg: "cq_r s < cq_n s" "cq_w s < cq_n s" "cq_wc s < cq_n s" "cq_rc s < cq_n s"
    and le: "ring_dist (cq_n s) (cq_r s) (cq_wc s) \<le> ring_dist (cq_n s) (cq_r s) (cq_w s)"
    by (simp_all add: cq_inv_def cq_range_def)
  have dist: "ring_dist (cq_n s) r nx = Suc (ring_dist (cq_n s) r (cq_w s))"
    if "r < cq_n s" "r \<noteq> nx" for r
    using that rg w by (auto intro: ring_dist_next_right)
  have snoc: "cq_from ?t r = cq_from s r @ [x]" if "r < cq_n s" "r \<noteq> nx" for r
    using that rg w dist [OF that] by (simp add: cq_from_def ring_list_snoc ring_at_dist)
  have cpc: "r = cq_r s \<and> ring_next (cq_n s) r \<noteq> nx \<and> r \<noteq> w"
    if "cq_cpc s = CDestroy r \<or> cq_cpc s = CPublish r \<or> cq_cpc s = CRead r" for r
  proof -
    have r: "r = cq_r s" "r \<noteq> cq_wc s" using that inv by (auto simp: cq_inv_def cq_cinv_def)
    then have "r \<noteq> w" using ring_between(1) [OF rg(1-3) le] w by auto
    moreover have "ring_next (cq_n s) r \<noteq> ring_next (cq_n s) w"
      using \<open>r \<noteq> w\<close> r rg w(1) by (auto simp: ring_next_def split: if_splits)
    ultimately show ?thesis using r w by simp
  qed
  have "cq_pending ?t = cq_pending s @ [x]"
    using snoc rg w(3) cpc by (auto simp: cq_pending_defs ring_next_less split: consumer_pc.split)
  moreover have "cq_cinv ?t = cq_cinv s" by (intro cq_cinv_cong) simp_all
  moreover have "cq_live ?t i = cq_live s i" if "i < cq_n s" for i
    using pc w cpc dist [OF rg(1)] ring_dist_inj [OF rg(1) that rg(2)]
    by (auto simp: cq_live_def less_Suc_eq)
  moreover have "cq_range ?t"
    using inv w rg dist [OF rg(1)] dist [OF rg(4)] by (auto simp: cq_inv_def cq_range_def ring_next_less)
  moreover have "cq_pinv ?t" by (simp add: cq_pinv_def)
  ultimately show ?thesis using inv by (simp add: cq_inv_def)
qed

text \<open>The consumer's accesses.\<close>

lemma cq_consumer:
  assumes inv: "cq_inv s" and pc: "cq_cpc s = CRead r \<or> cq_cpc s = CDestroy r \<or> cq_cpc s = CPublish r"
  shows "r = cq_r s" "r < cq_n s" "ring_next (cq_n s) r < cq_n s" "r \<noteq> cq_w s"
    "ring_dist (cq_n s) r (cq_w s) = Suc (ring_dist (cq_n s) (ring_next (cq_n s) r) (cq_w s))"
    "ring_dist (cq_n s) r (cq_wc s) = Suc (ring_dist (cq_n s) (ring_next (cq_n s) r) (cq_wc s))"
    "cq_from s r = the (cq_slot s r) # cq_from s (ring_next (cq_n s) r)"
proof -
  from inv have rg: "cq_r s < cq_n s" "cq_w s < cq_n s" "cq_wc s < cq_n s"
    "ring_dist (cq_n s) (cq_r s) (cq_wc s) \<le> ring_dist (cq_n s) (cq_r s) (cq_w s)"
    by (simp_all add: cq_inv_def cq_range_def)
  have r: "r = cq_r s" "cq_r s \<noteq> cq_wc s" using inv pc by (auto simp: cq_inv_def cq_cinv_def)
  then show "r = cq_r s" "r < cq_n s" "ring_next (cq_n s) r < cq_n s" "r \<noteq> cq_w s"
    "ring_dist (cq_n s) r (cq_w s) = Suc (ring_dist (cq_n s) (ring_next (cq_n s) r) (cq_w s))"
    "ring_dist (cq_n s) r (cq_wc s) = Suc (ring_dist (cq_n s) (ring_next (cq_n s) r) (cq_wc s))"
    using rg ring_between [OF rg r(2)] by (simp_all add: ring_next_less)
  then show "cq_from s r = the (cq_slot s r) # cq_from s (ring_next (cq_n s) r)"
    using ring_dist_less [of "ring_next (cq_n s) r" "cq_n s" "cq_w s"] rg
    by (simp add: cq_from_def ring_list_Cons)
qed

lemma cq_slot_front:
  assumes inv: "cq_inv s" and pc: "cq_cpc s = CRead r \<or> cq_cpc s = CDestroy r"
  shows "\<exists>x. cq_slot s r = Some x"
proof -
  have "cq_cpc s = CRead r \<or> cq_cpc s = CDestroy r \<or> cq_cpc s = CPublish r" using pc by auto
  note c = cq_consumer [OF inv this]
  from c(1,5) pc have "cq_live s r" by (auto simp: cq_live_def)
  with inv c(2) show ?thesis by (auto simp: cq_inv_def)
qed

lemma cq_inv_c_read:
  assumes inv: "cq_inv s" and pc: "cq_cpc s = CRead r" and x: "cq_slot s r = Some x"
  shows "cq_inv (s\<lparr>cq_out := cq_out s @ [x], cq_cpc := CDestroy r, cq_error := False\<rparr>)" (is "cq_inv ?t")
proof -
  note c = cq_consumer [OF inv disjI1 [OF pc]]
  have from_eq: "cq_from ?t = cq_from s" by (rule cq_from_cong) simp_all
  have "cq_pending s = x # cq_pending ?t"
    using pc x c(7) by (simp add: cq_pending_defs from_eq c(1) [symmetric])
  moreover have "cq_pinv ?t = cq_pinv s" by (intro cq_pinv_cong) simp_all
  moreover have "cq_live ?t = cq_live s" using pc by (auto simp: cq_live_def fun_eq_iff)
  moreover have "cq_range ?t" "cq_cinv ?t"
    using inv pc by (auto simp: cq_inv_def cq_range_def cq_cinv_def)
  ultimately show ?thesis using inv by (simp add: cq_inv_def)
qed

lemma cq_inv_c_destroy:
  assumes inv: "cq_inv s" and pc: "cq_cpc s = CDestroy r"
  shows "cq_inv (s\<lparr>cq_slot := (cq_slot s)(r := None), cq_cpc := CPublish r, cq_error := False\<rparr>)" (is "cq_inv ?t")
proof -
  note c = cq_consumer [OF inv disjI2 [OF disjI1 [OF pc]]]
  let ?n = "cq_n s" and ?r' = "ring_next (cq_n s) r"
  have w: "cq_w s < ?n" using inv by (simp add: cq_inv_def cq_range_def)
  have "ring_at ?n ?r' i \<noteq> r" if i: "i < ring_dist ?n ?r' (cq_w s)" for i
  proof -
    have "i < ?n - 1" "i < ?n" using i c(5) ring_dist_less [OF c(2) w] by linarith+
    then show ?thesis using ring_dist_at [OF c(3), of i] ring_dist_next_self [OF c(2)] by auto
  qed
  then have "cq_from ?t ?r' = cq_from s ?r'"
    by (auto simp: cq_from_def intro!: ring_list_cong)
  then have "cq_pending ?t = cq_pending s" using pc by (simp add: cq_pending_defs)
  moreover have "cq_pinv ?t"
    using inv c(1,4) by (auto simp: cq_inv_def cq_pinv_def split: producer_pc.splits)
  moreover have "cq_live ?t i \<longleftrightarrow> cq_live s i \<and> i \<noteq> r" for i
    using pc c(1,4) by (auto simp: cq_live_def)
  moreover have "cq_range ?t" "cq_cinv ?t"
    using inv pc by (auto simp: cq_inv_def cq_range_def cq_cinv_def)
  ultimately show ?thesis using inv by (auto simp: cq_inv_def)
qed

lemma cq_inv_c_publish:
  assumes inv: "cq_inv s" and pc: "cq_cpc s = CPublish r"
  shows "cq_inv (s\<lparr>cq_r := ring_next (cq_n s) r, cq_cpc := CIdle\<rparr>)" (is "cq_inv ?t")
proof -
  note c = cq_consumer [OF inv disjI2 [OF disjI2 [OF pc]]]
  let ?n = "cq_n s" and ?r' = "ring_next (cq_n s) r"
  have w: "cq_w s < ?n" "cq_rc s < ?n" "2 \<le> ?n"
    and rc: "ring_dist ?n (cq_r s) (cq_w s) \<le> ring_dist ?n (cq_rc s) (cq_w s)"
    using inv by (auto simp: cq_inv_def cq_range_def)
  have from_eq: "cq_from ?t = cq_from s" by (rule cq_from_cong) simp_all
  have "cq_pending ?t = cq_pending s" using pc by (simp add: cq_pending_defs from_eq)
  moreover have "cq_pinv ?t"
  proof -
    have "ring_next ?n (cq_w s) \<noteq> ?r'"
      using c(2,4) w(1) by (auto simp: ring_next_def split: if_splits)
    then show ?thesis using inv by (auto simp: cq_inv_def cq_pinv_def split: producer_pc.splits)
  qed
  moreover have "cq_live ?t i \<longleftrightarrow> cq_live s i" if "i < ?n" for i
  proof (cases "i = r")
    case True
    then show ?thesis
      using pc c(1,4) ring_dist_next_self [OF c(2)] ring_dist_less [OF c(3) w(1)]
      by (auto simp: cq_live_def)
  next
    case False
    then have "ring_dist ?n r i = Suc (ring_dist ?n ?r' i)"
      using c(2) that by (intro ring_dist_next_left) auto
    with False pc c(1,5) show ?thesis by (auto simp: cq_live_def)
  qed
  moreover have "cq_range ?t" using inv c by (auto simp: cq_inv_def cq_range_def)
  moreover have "cq_cinv ?t" by (simp add: cq_cinv_def)
  ultimately show ?thesis using inv by (simp add: cq_inv_def)
qed

lemma cq_same_copy: "s\<lparr>cq_rc := cq_rc s\<rparr> = s" "s\<lparr>cq_wc := cq_wc s\<rparr> = s"
  by (cases s; simp)+

lemma cq_inv_pstep:
  assumes "spsc_pstep s t" and inv: "cq_inv s"
  shows "cq_inv t"
  using assms(1)
proof cases
  case (p_room nx x)
  have "nx \<noteq> cq_r s"
    using inv p_room(3,4) ring_cache_full [of "cq_r s" "cq_n s" "cq_w s" "cq_rc s"]
    by (auto simp: cq_inv_def cq_range_def)
  then show ?thesis
    using p_room
    by (intro cq_inv_p_quiet [OF inv, where c = "cq_rc s" and pc = "PWrite x (cq_w s) nx"])
      (simp_all add: cq_same_copy)
next
  case (p_maybe_full nx x)
  then show ?thesis
    by (intro cq_inv_p_quiet [OF inv, where c = "cq_rc s" and pc = "PReload x (cq_w s) nx"])
      (simp_all add: cq_same_copy)
next
  case (p_full x w nx)
  then show ?thesis by (intro cq_inv_p_quiet [OF inv, where c = "cq_r s" and pc = PIdle]) simp_all
next
  case (p_not_full x w nx)
  then have "w = cq_w s \<and> nx = ring_next (cq_n s) w" using inv by (simp add: cq_inv_def cq_pinv_def)
  with p_not_full show ?thesis
    by (intro cq_inv_p_quiet [OF inv, where c = "cq_r s" and pc = "PWrite x w nx"]) simp_all
next
  case (p_write x w nx)
  moreover have "\<not> cq_error s" using inv by (simp add: cq_inv_def)
  ultimately show ?thesis using cq_inv_p_write [OF inv] cq_slot_free [OF inv] by simp
next
  case (p_publish x w nx)
  then show ?thesis using cq_inv_p_publish [OF inv] by simp
qed

lemma cq_inv_cstep:
  assumes "spsc_cstep s t" and inv: "cq_inv s"
  shows "cq_inv t"
  using assms(1)
proof cases
  case c_some
  then show ?thesis
    by (intro cq_inv_c_quiet [OF inv, where c = "cq_wc s" and pc = "CRead (cq_r s)"])
      (simp_all add: cq_same_copy)
next
  case c_maybe_empty
  then show ?thesis
    by (intro cq_inv_c_quiet [OF inv, where c = "cq_wc s" and pc = "CReload (cq_r s)"])
      (simp_all add: cq_same_copy)
next
  case (c_empty r)
  then show ?thesis by (intro cq_inv_c_quiet [OF inv, where c = "cq_w s" and pc = CIdle]) simp_all
next
  case (c_not_empty r)
  then have "r = cq_r s" using inv by (simp add: cq_inv_def cq_cinv_def)
  with c_not_empty show ?thesis
    by (intro cq_inv_c_quiet [OF inv, where c = "cq_w s" and pc = "CRead r"]) simp_all
next
  case (c_read r)
  moreover obtain x where "cq_slot s r = Some x" using cq_slot_front [OF inv] c_read by blast
  moreover have "\<not> cq_error s" using inv by (simp add: cq_inv_def)
  ultimately show ?thesis using cq_inv_c_read [OF inv] by simp
next
  case (c_destroy r)
  moreover obtain x where "cq_slot s r = Some x" using cq_slot_front [OF inv] c_destroy by blast
  moreover have "\<not> cq_error s" using inv by (simp add: cq_inv_def)
  ultimately show ?thesis using cq_inv_c_destroy [OF inv] by simp
next
  case (c_publish r)
  then show ?thesis using cq_inv_c_publish [OF inv] by simp
qed

interpretation spsc_conc: inductive_invariant "spsc_sys_init n" spsc_step cq_inv
  by unfold_locales (auto simp: cq_inv_init elim!: spsc_step.cases intro: cq_inv_pstep cq_inv_cstep)

section \<open>Properties\<close>

lemma cq_pending_length: "cq_inv s \<Longrightarrow> length (cq_pending s) < cq_n s"
proof -
  assume inv: "cq_inv s"
  then have rg: "cq_r s < cq_n s" "cq_w s < cq_n s" by (simp_all add: cq_inv_def cq_range_def)
  have "ring_next (cq_n s) r < cq_n s" if "cq_cpc s = CDestroy r \<or> cq_cpc s = CPublish r" for r
    using that inv rg by (auto simp: cq_inv_def cq_cinv_def intro: ring_next_less)
  then show ?thesis
    using rg by (cases "cq_cpc s") (auto simp: cq_pending_defs cq_from_def intro: ring_dist_less)
qed

text \<open>The run in which one element is published and both threads are in the middle of their next call.\<close>

definition spsc_demo :: "nat spsc_sys" where
  "spsc_demo = \<lparr>cq_n = 3, cq_slot = (\<lambda>_. None)(0 := Some 7), cq_w = 1, cq_r = 0, cq_rc = 0, cq_wc = 1,
     cq_ppc = PWrite 8 1 2, cq_cpc = CRead 0, cq_in = [7], cq_out = [], cq_error = False\<rparr>"

lemma spsc_demo_reach: "reach (spsc_sys_init 3) spsc_step spsc_demo"
proof -
  let ?s0 = "\<lparr>cq_n = 3, cq_slot = (\<lambda>_. None), cq_w = 0, cq_r = 0, cq_rc = 0, cq_wc = 0,
    cq_ppc = PIdle, cq_cpc = CIdle, cq_in = [], cq_out = [], cq_error = False\<rparr> :: nat spsc_sys"
  let ?s1 = "?s0\<lparr>cq_ppc := PWrite 7 0 1\<rparr>"
  let ?s2 = "?s1\<lparr>cq_slot := (\<lambda>_. None)(0 := Some 7), cq_ppc := PPublish 7 0 1\<rparr>"
  let ?s3 = "?s2\<lparr>cq_w := 1, cq_ppc := PIdle, cq_in := [7]\<rparr>"
  let ?s4 = "?s3\<lparr>cq_cpc := CReload 0\<rparr>"
  let ?s5 = "?s4\<lparr>cq_wc := 1, cq_cpc := CRead 0\<rparr>"
  have "reach (spsc_sys_init 3) spsc_step ?s0" by (rule reach_init) (simp add: spsc_sys_init_def)
  moreover have "spsc_step ?s0 ?s1"
    using spsc_pstep.p_room [of ?s0 1 7] by (intro by_producer) (simp add: ring_next_def)
  moreover have "spsc_step ?s1 ?s2"
    using spsc_pstep.p_write [of ?s1 7 0 1] by (intro by_producer) simp
  moreover have "spsc_step ?s2 ?s3"
    using spsc_pstep.p_publish [of ?s2 7 0 1] by (intro by_producer) simp
  moreover have "spsc_step ?s3 ?s4"
    using spsc_cstep.c_maybe_empty [of ?s3] by (intro by_consumer) simp
  moreover have "spsc_step ?s4 ?s5"
    using spsc_cstep.c_not_empty [of ?s4 0] by (intro by_consumer) simp
  moreover have "spsc_step ?s5 spsc_demo"
    using spsc_pstep.p_room [of ?s5 2 8] by (intro by_producer) (simp add: ring_next_def spsc_demo_def)
  ultimately show ?thesis by (meson reach_step)
qed

text \<open>What is pending lies in the ring, constructed, from the consumer's position on.\<close>

lemma cq_pending_slots:
  assumes inv: "cq_inv s" and i: "i < length (cq_pending s)"
  shows "cq_slot s (ring_at (cq_n s) (cq_first s) i) = Some (cq_pending s ! i)"
proof -
  let ?n = "cq_n s" and ?f = "cq_first s" and ?k = "ring_at (cq_n s) (cq_first s) i"
  have rg: "cq_r s < ?n" "cq_w s < ?n" "?f < ?n"
    using inv by (auto simp: cq_inv_def cq_range_def cq_cinv_def cq_first_def ring_next_less split: consumer_pc.splits)
  have d: "i < ring_dist ?n ?f (cq_w s)" using i by (simp add: cq_pending_def cq_from_def)
  then have n: "i < ?n" using ring_dist_less [OF rg(3,2)] by linarith
  have k: "?k < ?n" "ring_dist ?n ?f ?k = i" using rg(3) n by (simp_all add: ring_at_less ring_dist_at)
  have "cq_live s ?k"
  proof (cases "\<exists>r. cq_cpc s = CDestroy r \<or> cq_cpc s = CPublish r")
    case True
    then obtain r where r: "cq_cpc s = CRead r \<or> cq_cpc s = CDestroy r \<or> cq_cpc s = CPublish r" "?f = ring_next ?n r"
      by (auto simp: cq_first_def)
    note c = cq_consumer [OF inv r(1)]
    have "?k \<noteq> r" using k(2) ring_dist_next_self [OF c(2)] d ring_dist_less [OF c(2) rg(2)] c(5) r(2) by auto
    then have "ring_dist ?n r ?k = Suc i" using k r(2) c(2) by (subst ring_dist_next_left) auto
    then show ?thesis using d c(1,5) r \<open>?k \<noteq> r\<close> by (auto simp: cq_live_def)
  next
    case False
    then have "?f = cq_r s" by (auto simp: cq_first_def split: consumer_pc.splits)
    then show ?thesis using d k False by (auto simp: cq_live_def)
  qed
  then have "cq_slot s ?k \<noteq> None" using inv k(1) by (auto simp: cq_inv_def)
  then show ?thesis using d by (auto simp: cq_pending_def cq_from_def ring_list_def)
qed

text \<open>
  C1. In every interleaving of the producer and the consumer no element is constructed over another, moved out of raw
  storage or destroyed there, and the values moved out are, in order, the first values published: those still to come lie
  constructed in consecutive slots of the ring, from the slot the consumer reads next up to the producer's index, and are
  fewer than \<open>capacity_\<close>. Nothing is lost, duplicated, reordered or overwritten.
\<close>

theorem spsc_concurrent_fifo:
  assumes "reach (spsc_sys_init n) spsc_step s"
  shows "\<not> cq_error s \<and>
    (\<exists>rest. cq_in s = cq_out s @ rest \<and> length rest < cq_n s \<and>
      length rest = ring_dist (cq_n s) (cq_first s) (cq_w s) \<and>
      (\<forall>i < length rest. cq_slot s (ring_at (cq_n s) (cq_first s) i) = Some (rest ! i)))"
proof -
  have inv: "cq_inv s" using spsc_conc.inv_reach [OF assms] .
  moreover have "length (cq_pending s) = ring_dist (cq_n s) (cq_first s) (cq_w s)"
    by (simp add: cq_pending_def cq_from_def)
  ultimately show ?thesis using cq_pending_slots [OF inv] cq_pending_length [OF inv] by (auto simp: cq_inv_def)
qed

theorem spsc_concurrent_fifo_witness:
  "\<not> cq_error spsc_demo \<and> (\<exists>rest. cq_in spsc_demo = cq_out spsc_demo @ rest \<and> length rest = 1 \<and>
     cq_slot spsc_demo 0 = Some (rest ! 0))"
proof -
  have "ring_at (cq_n spsc_demo) (cq_first spsc_demo) 0 = 0" "ring_dist (cq_n spsc_demo) (cq_first spsc_demo) (cq_w spsc_demo) = 1"
    by (simp_all add: spsc_demo_def cq_first_def ring_at_def ring_dist_def)
  with spsc_concurrent_fifo [OF spsc_demo_reach] show ?thesis by auto
qed

text \<open>
  The threads never touch the same slot at the same time: whenever the producer is about to
  construct an element while the consumer is about to read or destroy one, the slots differ, the
  producer's slot is raw storage inside the ring and the consumer's slot holds an element.
\<close>

theorem spsc_concurrent_no_race:
  assumes "reach (spsc_sys_init n) spsc_step s" and "cq_ppc s = PWrite x w nx"
    and "cq_cpc s = CRead r \<or> cq_cpc s = CDestroy r"
  shows "w \<noteq> r \<and> w < cq_n s \<and> r < cq_n s \<and> cq_slot s w = None \<and> cq_slot s r \<noteq> None"
proof -
  have inv: "cq_inv s" using spsc_conc.inv_reach [OF assms(1)] .
  have "cq_cpc s = CRead r \<or> cq_cpc s = CDestroy r \<or> cq_cpc s = CPublish r" using assms(3) by blast
  note c = cq_consumer [OF inv this]
  have "w = cq_w s" "w < cq_n s"
    using inv assms(2) by (auto simp: cq_inv_def cq_pinv_def cq_range_def)
  then show ?thesis using c cq_slot_free [OF inv assms(2)] cq_slot_front [OF inv assms(3)] by auto
qed

theorem spsc_concurrent_no_race_witness:
  "(1::nat) \<noteq> 0 \<and> 1 < cq_n spsc_demo \<and> 0 < cq_n spsc_demo \<and> cq_slot spsc_demo 1 = None \<and>
     cq_slot spsc_demo 0 \<noteq> None"
  using spsc_concurrent_no_race [OF spsc_demo_reach, of 8 1 2 0] by (simp add: spsc_demo_def)

text \<open>
  The verdicts are true at the moment they are given, and neither thread can get stuck: when the
  consumer concludes that the queue is empty, every published value has been moved out; when the
  producer concludes that it is full, \<open>capacity_ - 1\<close> slots are in use; and in every reachable state
  either thread can take a step, whatever the other one is doing.
\<close>

theorem spsc_concurrent_verdicts:
  assumes "reach (spsc_sys_init n) spsc_step s"
  shows "(\<forall>r. cq_cpc s = CReload r \<and> cq_w s = r \<longrightarrow> cq_in s = cq_out s) \<and>
    (\<forall>x w nx. cq_ppc s = PReload x w nx \<and> nx = cq_r s \<longrightarrow>
       ring_dist (cq_n s) (cq_r s) (cq_w s) = cq_n s - 1) \<and>
    (\<exists>t. spsc_pstep s t) \<and> (\<exists>t. spsc_cstep s t)"
proof -
  have inv: "cq_inv s" using spsc_conc.inv_reach [OF assms] .
  have "cq_in s = cq_out s" if "cq_cpc s = CReload r" "cq_w s = r" for r
    using that inv by (auto simp: cq_inv_def cq_cinv_def cq_pending_defs cq_from_def)
  moreover have "ring_dist (cq_n s) (cq_r s) (cq_w s) = cq_n s - 1"
    if "cq_ppc s = PReload x w nx" "nx = cq_r s" for x w nx
    using that inv ring_full_iff [of "cq_r s" "cq_n s" "cq_w s"]
    by (auto simp: cq_inv_def cq_pinv_def cq_range_def)
  moreover have "\<exists>t. spsc_pstep s t"
    by (cases "cq_ppc s") (blast intro: spsc_pstep.intros)+
  moreover have "\<exists>t. spsc_cstep s t"
    by (cases "cq_cpc s") (blast intro: spsc_cstep.intros)+
  ultimately show ?thesis by blast
qed

theorem spsc_concurrent_verdicts_witness:
  "(\<exists>t. spsc_pstep spsc_demo t) \<and> (\<exists>t. spsc_cstep spsc_demo t)"
  using spsc_concurrent_verdicts [OF spsc_demo_reach] by blast

end
