(* ===== verification/PipedEvent.thy ===== *)
theory PipedEvent
  imports Prelude
begin

text \<open>
  \<^verbatim>\<open>inc/PipedEvent.h\<close>: a flag and a pipe that wake the router. The pipe is the POSIX one: a
  counter of buffered bytes with a capacity, an open flag for either end, and the descriptor numbers
  the kernel gave out. A call that would block returns \<open>None\<close>. A write to any other descriptor is
  remembered in \<open>kp_stray\<close>, so that a write the class did not mean shows up.
\<close>

section \<open>The pipe of the operating system\<close>

record kpipe =
  kp_src :: int
  kp_snk :: int
  kp_src_open :: bool
  kp_snk_open :: bool
  kp_bytes :: nat
  kp_cap :: nat
  kp_stray :: "int list"

text \<open>Writing one byte: without a reader the process gets \<open>SIGPIPE\<close>, with a full buffer it blocks.\<close>

definition sys_write :: "int \<Rightarrow> kpipe \<Rightarrow> (int \<times> kpipe) result option" where
  "sys_write fd k =
     (if fd = kp_snk k \<and> kp_snk_open k
      then if \<not> kp_src_open k then Some (Inl Terminated)
           else if kp_bytes k < kp_cap k then Some (Inr (1, k\<lparr>kp_bytes := Suc (kp_bytes k)\<rparr>))
           else None
      else if fd < 0 then Some (Inr (- 1, k))
      else Some (Inr (1, k\<lparr>kp_stray := kp_stray k @ [fd]\<rparr>)))"

text \<open>Reading one byte: end of file without a writer, blocking while the buffer is empty.\<close>

definition sys_read :: "int \<Rightarrow> kpipe \<Rightarrow> (int \<times> kpipe) option" where
  "sys_read fd k =
     (if fd = kp_src k \<and> kp_src_open k
      then if 0 < kp_bytes k then Some (1, k\<lparr>kp_bytes := kp_bytes k - 1\<rparr>)
           else if kp_snk_open k then None
           else Some (0, k)
      else Some (- 1, k))"

text \<open>Closing a descriptor; \<open>rc\<close> is what the kernel answers, 0 for success.\<close>

definition sys_close :: "int \<Rightarrow> int \<Rightarrow> kpipe \<Rightarrow> kpipe" where
  "sys_close rc fd k =
     (if rc \<noteq> 0 then k
      else k\<lparr>kp_src_open := kp_src_open k \<and> fd \<noteq> kp_src k, kp_snk_open := kp_snk_open k \<and> fd \<noteq> kp_snk k\<rparr>)"

section \<open>State and operations\<close>

record piped_event =
  pe_fd0 :: int
  pe_fd1 :: int
  pe_fired :: bool

text \<open>The constructor; \<open>pipe_result\<close> is the error number of \<open>pipe\<close> or the two descriptors.\<close>

definition pe_ctor :: "int + int \<times> int \<Rightarrow> piped_event result" where
  "pe_ctor pipe_result =
     (case pipe_result of
        Inl errno \<Rightarrow> Inl (RuntimeError ''pipe failed with '' errno)
      | Inr (r, w) \<Rightarrow> Inr \<lparr>pe_fd0 = r, pe_fd1 = w, pe_fired = False\<rparr>)"

definition pe_Fire :: "piped_event \<Rightarrow> kpipe \<Rightarrow> (piped_event \<times> kpipe) result option" where
  "pe_Fire e k =
     (if pe_fd0 e \<noteq> 0 \<and> \<not> pe_fired e
      then let e = e\<lparr>pe_fired := True\<rparr>
           in map_option (map_sum id (\<lambda>(unused, k). (e, k))) (sys_write (pe_fd1 e) k)
      else Some (Inr (e, k)))"

definition pe_Consume :: "piped_event \<Rightarrow> kpipe \<Rightarrow> (piped_event \<times> kpipe) result option" where
  "pe_Consume e k =
     (if pe_fd0 e \<noteq> 0 \<and> pe_fired e
      then map_option (\<lambda>(unused, k). Inr (e\<lparr>pe_fired := False\<rparr>, k)) (sys_read (pe_fd0 e) k)
      else Some (Inr (e, k)))"

definition pe_GetSource :: "piped_event \<Rightarrow> int" where
  "pe_GetSource e = pe_fd0 e"

definition pe_GetSink :: "piped_event \<Rightarrow> int" where
  "pe_GetSink e = pe_fd1 e"

definition pe_GetFds :: "piped_event \<Rightarrow> int \<times> int" where
  "pe_GetFds e = (pe_fd0 e, pe_fd1 e)"

text \<open>\<open>rc\<close> is what \<open>close\<close> returns, should it be called.\<close>

definition pe_CloseSource :: "int \<Rightarrow> piped_event \<Rightarrow> kpipe \<Rightarrow> int \<times> piped_event \<times> kpipe" where
  "pe_CloseSource rc e k =
     (if pe_fd0 e = 0 then (0, e, k)
      else let k = sys_close rc (pe_fd0 e) k
           in (rc, if rc = 0 then e\<lparr>pe_fd0 := 0\<rparr> else e, k))"

definition pe_CloseSink :: "int \<Rightarrow> piped_event \<Rightarrow> kpipe \<Rightarrow> int \<times> piped_event \<times> kpipe" where
  "pe_CloseSink rc e k =
     (if pe_fd1 e = 0 then (0, e, k)
      else let k = sys_close rc (pe_fd1 e) k
           in (rc, if rc = 0 then e\<lparr>pe_fd1 := 0\<rparr> else e, k))"

definition pe_dtor :: "int \<Rightarrow> int \<Rightarrow> piped_event \<Rightarrow> kpipe \<Rightarrow> piped_event \<times> kpipe" where
  "pe_dtor rc0 rc1 e k =
     (let (_, e, k) = pe_CloseSource rc0 e k; (_, e, k) = pe_CloseSink rc1 e k in (e, k))"

section \<open>The signal as a flag\<close>

text \<open>
  The pipe right after its creation, and the agreement between the flag and the pipe: one byte is
  buffered exactly when the event has been fired and not consumed.
\<close>

definition kpipe_of :: "int \<Rightarrow> int \<Rightarrow> nat \<Rightarrow> kpipe" where
  "kpipe_of r w cap = \<lparr>kp_src = r, kp_snk = w, kp_src_open = True, kp_snk_open = True, kp_bytes = 0,
     kp_cap = cap, kp_stray = []\<rparr>"

definition pe_wf :: "piped_event \<Rightarrow> kpipe \<Rightarrow> bool" where
  "pe_wf e k \<longleftrightarrow> pe_fd0 e = kp_src k \<and> pe_fd1 e = kp_snk k \<and> kp_src k \<noteq> kp_snk k \<and>
     0 < kp_src k \<and> 0 < kp_snk k \<and> kp_src_open k \<and> kp_snk_open k \<and> 0 < kp_cap k \<and>
     kp_bytes k = (if pe_fired e then 1 else 0)"

lemma pe_ctor_wf:
  "pe_ctor (Inr (r, w)) = Inr e \<Longrightarrow> r \<noteq> w \<Longrightarrow> 0 < r \<Longrightarrow> 0 < w \<Longrightarrow> 0 < cap \<Longrightarrow> pe_wf e (kpipe_of r w cap)"
  by (auto simp: pe_ctor_def pe_wf_def kpipe_of_def)

lemma pe_Fire_wf:
  assumes "pe_wf e k"
  shows "\<exists>k'. pe_Fire e k = Some (Inr (e\<lparr>pe_fired := True\<rparr>, k')) \<and> pe_wf (e\<lparr>pe_fired := True\<rparr>) k' \<and>
    kp_bytes k' = 1 \<and> kp_stray k' = kp_stray k"
  using assms by (cases e) (auto simp: pe_wf_def pe_Fire_def sys_write_def Let_def)

lemma pe_Consume_wf:
  assumes "pe_wf e k"
  shows "\<exists>k'. pe_Consume e k = Some (Inr (e\<lparr>pe_fired := False\<rparr>, k')) \<and> pe_wf (e\<lparr>pe_fired := False\<rparr>) k' \<and>
    kp_bytes k' = 0 \<and> kp_stray k' = kp_stray k"
  using assms by (cases e) (auto simp: pe_wf_def pe_Consume_def sys_read_def Let_def)

datatype pe_op = OpFire | OpConsume

text \<open>A sequence of calls; it stops at the first call that blocks or fails.\<close>

fun pe_run :: "pe_op list \<Rightarrow> piped_event \<Rightarrow> kpipe \<Rightarrow> (piped_event \<times> kpipe) result option" where
  "pe_run [] e k = Some (Inr (e, k))"
| "pe_run (op # ops) e k =
     (case (case op of OpFire \<Rightarrow> pe_Fire e k | OpConsume \<Rightarrow> pe_Consume e k) of
        Some (Inr (e', k')) \<Rightarrow> pe_run ops e' k'
      | r \<Rightarrow> r)"

lemma pe_run_wf:
  "pe_wf e k \<Longrightarrow> \<exists>e' k'. pe_run ops e k = Some (Inr (e', k')) \<and> pe_wf e' k' \<and>
    pe_fired e' = (if ops = [] then pe_fired e else last ops = OpFire) \<and> kp_stray k' = kp_stray k"
proof (induction ops arbitrary: e k)
  case Nil
  then show ?case by simp
next
  case (Cons op ops)
  show ?case
  proof (cases op)
    case OpFire
    from pe_Fire_wf [OF Cons.prems] obtain k1 where
      k1: "pe_Fire e k = Some (Inr (e\<lparr>pe_fired := True\<rparr>, k1))" "pe_wf (e\<lparr>pe_fired := True\<rparr>) k1"
        "kp_stray k1 = kp_stray k" by auto
    from Cons.IH [OF k1(2)] k1(1,3) OpFire show ?thesis by auto
  next
    case OpConsume
    from pe_Consume_wf [OF Cons.prems] obtain k1 where
      k1: "pe_Consume e k = Some (Inr (e\<lparr>pe_fired := False\<rparr>, k1))" "pe_wf (e\<lparr>pe_fired := False\<rparr>) k1"
        "kp_stray k1 = kp_stray k" by auto
    from Cons.IH [OF k1(2)] k1(1,3) OpConsume show ?thesis by auto
  qed
qed

section \<open>Properties\<close>

text \<open>
  C21. Signals coalesce and nothing blocks: after any sequence of \<open>Fire\<close> and \<open>Consume\<close> on a fresh
  event, every call has returned, the source is readable exactly when the last call was \<open>Fire\<close>, and
  then one byte is buffered; no other descriptor has been written to.
\<close>

theorem piped_event_coalesces:
  assumes "pe_ctor (Inr (r, w)) = Inr e" and "r \<noteq> w" "0 < r" "0 < w" "0 < cap"
  shows "\<exists>e' k. pe_run ops e (kpipe_of r w cap) = Some (Inr (e', k)) \<and>
    kp_bytes k = (if ops \<noteq> [] \<and> last ops = OpFire then 1 else 0) \<and> kp_stray k = []"
proof -
  have wf: "pe_wf e (kpipe_of r w cap)" using assms by (intro pe_ctor_wf)
  have "\<not> pe_fired e" using assms(1) by (auto simp: pe_ctor_def)
  with pe_run_wf [OF wf, of ops] show ?thesis
    by (auto simp: pe_wf_def kpipe_of_def split: if_splits)
qed

theorem piped_event_coalesces_witness:
  "\<exists>e' k. pe_run [OpFire, OpFire, OpConsume, OpFire] \<lparr>pe_fd0 = 3, pe_fd1 = 4, pe_fired = False\<rparr>
     (kpipe_of 3 4 65536) = Some (Inr (e', k)) \<and> kp_bytes k = 1 \<and> kp_stray k = []"
  using piped_event_coalesces [of 3 4 "\<lparr>pe_fd0 = 3, pe_fd1 = 4, pe_fired = False\<rparr>" 65536
      "[OpFire, OpFire, OpConsume, OpFire]"]
  by (simp add: pe_ctor_def)

text \<open>
  \<open>Fire\<close> guards only the source descriptor. After \<open>CloseSink\<close> has succeeded the sink field is 0,
  and a \<open>Fire\<close> on the still open source sends its byte to descriptor 0, the standard input, while the
  pipe stays empty.
\<close>

theorem fire_after_close_sink_writes_to_stdin:
  assumes "pe_wf e k" and "\<not> pe_fired e"
  shows "\<exists>e1 k1 e2 k2. pe_CloseSink 0 e k = (0, e1, k1) \<and> pe_Fire e1 k1 = Some (Inr (e2, k2)) \<and>
    kp_stray k2 = kp_stray k @ [0] \<and> kp_bytes k2 = 0 \<and> pe_fired e2"
  using assms by (auto simp: pe_wf_def pe_CloseSink_def pe_Fire_def sys_close_def sys_write_def Let_def)

theorem fire_after_close_sink_witness:
  "\<exists>e1 k1 e2 k2. pe_CloseSink 0 \<lparr>pe_fd0 = 3, pe_fd1 = 4, pe_fired = False\<rparr> (kpipe_of 3 4 65536) = (0, e1, k1) \<and>
     pe_Fire e1 k1 = Some (Inr (e2, k2)) \<and> kp_stray k2 = [0] \<and> kp_bytes k2 = 0 \<and> pe_fired e2"
  using fire_after_close_sink_writes_to_stdin
      [of "\<lparr>pe_fd0 = 3, pe_fd1 = 4, pe_fired = False\<rparr>" "kpipe_of 3 4 65536"]
  by (simp add: pe_wf_def kpipe_of_def)

text \<open>
  The destructor closes both ends when the kernel lets it, and closing again, by hand or by the
  destructor, closes nothing twice: the fields are 0 afterwards and a second round changes nothing.
\<close>

theorem piped_event_dtor_closes_once:
  assumes "pe_wf e k"
  shows "case pe_dtor 0 0 e k of (e', k') \<Rightarrow> \<not> kp_src_open k' \<and> \<not> kp_snk_open k' \<and>
    pe_GetFds e' = (0, 0) \<and> pe_dtor rc0 rc1 e' k' = (e', k')"
  using assms
  by (simp add: pe_wf_def pe_dtor_def pe_CloseSource_def pe_CloseSink_def sys_close_def pe_GetFds_def Let_def)

theorem piped_event_dtor_witness:
  "case pe_dtor 0 0 \<lparr>pe_fd0 = 3, pe_fd1 = 4, pe_fired = True\<rparr> (kpipe_of 3 4 9\<lparr>kp_bytes := 1\<rparr>) of
     (e', k') \<Rightarrow> \<not> kp_src_open k' \<and> \<not> kp_snk_open k' \<and> pe_GetFds e' = (0, 0) \<and>
       pe_dtor (- 1) (- 1) e' k' = (e', k')"
  using piped_event_dtor_closes_once
      [of "\<lparr>pe_fd0 = 3, pe_fd1 = 4, pe_fired = True\<rparr>" "kpipe_of 3 4 9\<lparr>kp_bytes := 1\<rparr>" "- 1" "- 1"]
  by (simp add: pe_wf_def kpipe_of_def)

end
