(* ===== verification/Wakeup.thy ===== *)
theory Wakeup
  imports PipedEvent
begin

text \<open>
  A manager's thread and the router thread side by side. The manager's thread pushes an event on its
  queue and calls \<open>Fire\<close>; the router thread sleeps in \<open>epoll_wait\<close> until the pipe is readable and
  calls \<open>Produce\<close>, which calls \<open>Consume\<close> and empties the queue. A step is one access to the flag, the
  pipe or the queue. Two orders of \<open>Produce\<close> are in the repository: \<^verbatim>\<open>app10\<close>, \<^verbatim>\<open>app11\<close> and
  \<^verbatim>\<open>app12\<close> consume the signal first and empty the queue afterwards; \<^verbatim>\<open>app5\<close>, \<^verbatim>\<open>app6\<close> and
  \<^verbatim>\<open>app7\<close> empty the queue first. Only the first order cannot lose a wake-up.
\<close>

section \<open>State and steps\<close>

datatype run_pc =
    RIdle
  | RCheck      \<comment> \<open>in \<open>Fire\<close>, about to load \<open>_fired\<close>\<close>
  | RStore      \<comment> \<open>about to store \<open>true\<close>\<close>
  | RWrite      \<comment> \<open>about to write the byte\<close>

datatype poll_pc =
    WIdle       \<comment> \<open>in \<open>epoll_wait\<close>\<close>
  | WCheck      \<comment> \<open>in \<open>Consume\<close>, about to load \<open>_fired\<close>\<close>
  | WRead       \<comment> \<open>about to read the byte\<close>
  | WReset      \<comment> \<open>about to store \<open>false\<close>\<close>
  | WDrain      \<comment> \<open>in the loop that empties the queue\<close>

record 'e wake_sys =
  ws_queue :: "'e list"
  ws_fired :: bool
  ws_bytes :: nat
  ws_run :: run_pc
  ws_poll :: poll_pc
  ws_out :: "'e list"

definition wake_init :: "'e wake_sys \<Rightarrow> bool" where
  "wake_init s \<longleftrightarrow> s = \<lparr>ws_queue = [], ws_fired = False, ws_bytes = 0, ws_run = RIdle, ws_poll = WIdle,
     ws_out = []\<rparr>"

text \<open>The manager's thread: push, then \<open>Fire\<close>.\<close>

inductive run_step :: "'e wake_sys \<Rightarrow> 'e wake_sys \<Rightarrow> bool" where
  r_push: "ws_run s = RIdle \<Longrightarrow> run_step s (s\<lparr>ws_queue := ws_queue s @ [e], ws_run := RCheck\<rparr>)"
| r_skip: "ws_run s = RCheck \<Longrightarrow> ws_fired s \<Longrightarrow> run_step s (s\<lparr>ws_run := RIdle\<rparr>)"
| r_need: "ws_run s = RCheck \<Longrightarrow> \<not> ws_fired s \<Longrightarrow> run_step s (s\<lparr>ws_run := RStore\<rparr>)"
| r_store: "ws_run s = RStore \<Longrightarrow> run_step s (s\<lparr>ws_fired := True, ws_run := RWrite\<rparr>)"
| r_write: "ws_run s = RWrite \<Longrightarrow> run_step s (s\<lparr>ws_bytes := Suc (ws_bytes s), ws_run := RIdle\<rparr>)"

text \<open>The router thread, consuming the signal first.\<close>

inductive consume_first :: "'e wake_sys \<Rightarrow> 'e wake_sys \<Rightarrow> bool" where
  a_wake: "ws_poll s = WIdle \<Longrightarrow> 0 < ws_bytes s \<Longrightarrow> consume_first s (s\<lparr>ws_poll := WCheck\<rparr>)"
| a_check: "ws_poll s = WCheck \<Longrightarrow> consume_first s (s\<lparr>ws_poll := if ws_fired s then WRead else WDrain\<rparr>)"
| a_read: "ws_poll s = WRead \<Longrightarrow> 0 < ws_bytes s \<Longrightarrow>
     consume_first s (s\<lparr>ws_bytes := ws_bytes s - 1, ws_poll := WReset\<rparr>)"
| a_reset: "ws_poll s = WReset \<Longrightarrow> consume_first s (s\<lparr>ws_fired := False, ws_poll := WDrain\<rparr>)"
| a_pop: "ws_poll s = WDrain \<Longrightarrow> ws_queue s = e # es \<Longrightarrow>
     consume_first s (s\<lparr>ws_queue := es, ws_out := ws_out s @ [e]\<rparr>)"
| a_done: "ws_poll s = WDrain \<Longrightarrow> ws_queue s = [] \<Longrightarrow> consume_first s (s\<lparr>ws_poll := WIdle\<rparr>)"

text \<open>The router thread, emptying the queue first.\<close>

inductive drain_first :: "'e wake_sys \<Rightarrow> 'e wake_sys \<Rightarrow> bool" where
  b_wake: "ws_poll s = WIdle \<Longrightarrow> 0 < ws_bytes s \<Longrightarrow> drain_first s (s\<lparr>ws_poll := WDrain\<rparr>)"
| b_pop: "ws_poll s = WDrain \<Longrightarrow> ws_queue s = e # es \<Longrightarrow>
     drain_first s (s\<lparr>ws_queue := es, ws_out := ws_out s @ [e]\<rparr>)"
| b_done: "ws_poll s = WDrain \<Longrightarrow> ws_queue s = [] \<Longrightarrow> drain_first s (s\<lparr>ws_poll := WCheck\<rparr>)"
| b_check: "ws_poll s = WCheck \<Longrightarrow> drain_first s (s\<lparr>ws_poll := if ws_fired s then WRead else WIdle\<rparr>)"
| b_read: "ws_poll s = WRead \<Longrightarrow> 0 < ws_bytes s \<Longrightarrow>
     drain_first s (s\<lparr>ws_bytes := ws_bytes s - 1, ws_poll := WReset\<rparr>)"
| b_reset: "ws_poll s = WReset \<Longrightarrow> drain_first s (s\<lparr>ws_fired := False, ws_poll := WIdle\<rparr>)"

definition wake_step_a :: "'e wake_sys \<Rightarrow> 'e wake_sys \<Rightarrow> bool" where
  "wake_step_a s t \<longleftrightarrow> run_step s t \<or> consume_first s t"

definition wake_step_b :: "'e wake_sys \<Rightarrow> 'e wake_sys \<Rightarrow> bool" where
  "wake_step_b s t \<longleftrightarrow> run_step s t \<or> drain_first s t"

section \<open>Consuming first\<close>

text \<open>
  The byte is in the pipe, about to be written, or just read: the three places add up to the flag.
  And if the queue holds an event then the flag is up, or its producer has not finished \<open>Fire\<close>, or the
  router is still emptying the queue.
\<close>

definition wake_inv :: "'e wake_sys \<Rightarrow> bool" where
  "wake_inv s \<longleftrightarrow>
     ws_bytes s + (if ws_run s = RWrite then 1 else 0) + (if ws_poll s = WReset then 1 else 0)
       = (if ws_fired s then 1 else 0) \<and>
     (ws_run s = RStore \<longrightarrow> \<not> ws_fired s) \<and>
     (ws_poll s = WCheck \<or> ws_poll s = WRead \<longrightarrow> 0 < ws_bytes s) \<and>
     (ws_queue s \<noteq> [] \<longrightarrow> ws_fired s \<or> ws_run s = RCheck \<or> ws_run s = RStore \<or> ws_poll s = WDrain)"

lemma wake_inv_run: "run_step s t \<Longrightarrow> wake_inv s \<Longrightarrow> wake_inv t"
  by (induction rule: run_step.induct) (auto simp: wake_inv_def split: if_splits)

lemma wake_inv_consume: "consume_first s t \<Longrightarrow> wake_inv s \<Longrightarrow> wake_inv t"
  by (induction rule: consume_first.induct) (auto simp: wake_inv_def split: if_splits)

interpretation wake_a: inductive_invariant wake_init wake_step_a wake_inv
proof
  show "wake_inv s" if "wake_init s" for s :: "'a wake_sys"
    using that by (simp add: wake_init_def wake_inv_def)
  show "wake_inv t" if "wake_inv s" "wake_step_a s t" for s t :: "'a wake_sys"
    using that wake_inv_run wake_inv_consume by (auto simp: wake_step_a_def)
qed

text \<open>The router alone, from any state with an event in the queue and a settled manager thread.\<close>

lemma drain_star:
  "ws_poll s = WDrain \<Longrightarrow> \<exists>t. consume_first\<^sup>*\<^sup>* s t \<and> ws_queue t = [] \<and> ws_out t = ws_out s @ ws_queue s"
proof (induction "ws_queue s" arbitrary: s)
  case Nil
  then show ?case by (metis append_Nil2 rtranclp.rtrancl_refl)
next
  case (Cons e es)
  let ?s = "s\<lparr>ws_queue := es, ws_out := ws_out s @ [e]\<rparr>"
  from Cons.hyps(1) [of ?s] Cons.prems obtain t where
    t: "consume_first\<^sup>*\<^sup>* ?s t" "ws_queue t = []" "ws_out t = ws_out s @ [e] @ es" by auto
  moreover have "consume_first s ?s" using a_pop Cons.prems Cons.hyps(2) by metis
  ultimately show ?case by (metis Cons.hyps(2) append_Cons append_Nil converse_rtranclp_into_rtranclp)
qed

lemma reset_star:
  assumes "ws_poll s = WReset"
  shows "\<exists>t. consume_first\<^sup>*\<^sup>* s t \<and> ws_queue t = [] \<and> ws_out t = ws_out s @ ws_queue s"
proof -
  let ?s = "s\<lparr>ws_fired := False, ws_poll := WDrain\<rparr>"
  from drain_star [of ?s] a_reset [OF assms] show ?thesis
    by (auto intro: converse_rtranclp_into_rtranclp)
qed

lemma read_star:
  assumes "ws_poll s = WRead" "0 < ws_bytes s"
  shows "\<exists>t. consume_first\<^sup>*\<^sup>* s t \<and> ws_queue t = [] \<and> ws_out t = ws_out s @ ws_queue s"
proof -
  let ?s = "s\<lparr>ws_bytes := ws_bytes s - 1, ws_poll := WReset\<rparr>"
  from reset_star [of ?s] a_read [OF assms] show ?thesis
    by (auto intro: converse_rtranclp_into_rtranclp)
qed

lemma check_star:
  assumes "ws_poll s = WCheck" "0 < ws_bytes s"
  shows "\<exists>t. consume_first\<^sup>*\<^sup>* s t \<and> ws_queue t = [] \<and> ws_out t = ws_out s @ ws_queue s"
proof -
  let ?s = "s\<lparr>ws_poll := if ws_fired s then WRead else WDrain\<rparr>"
  have "\<exists>t. consume_first\<^sup>*\<^sup>* ?s t \<and> ws_queue t = [] \<and> ws_out t = ws_out s @ ws_queue s"
    using read_star [of ?s] drain_star [of ?s] assms(2) by (cases "ws_fired s") auto
  with a_check [OF assms(1)] show ?thesis by (auto intro: converse_rtranclp_into_rtranclp)
qed

section \<open>Properties\<close>

text \<open>A run in which an event is waiting and both threads are settled.\<close>

definition wake_demo :: "nat wake_sys" where
  "wake_demo = \<lparr>ws_queue = [5], ws_fired = True, ws_bytes = 1, ws_run = RIdle, ws_poll = WIdle, ws_out = []\<rparr>"

lemma wake_demo_run:
  assumes "\<And>s t :: nat wake_sys. run_step s t \<Longrightarrow> step s t"
  shows "reach wake_init step wake_demo"
proof -
  let ?s0 = "\<lparr>ws_queue = [], ws_fired = False, ws_bytes = 0, ws_run = RIdle, ws_poll = WIdle, ws_out = []\<rparr> :: nat wake_sys"
  let ?s1 = "?s0\<lparr>ws_queue := [5], ws_run := RCheck\<rparr>"
  let ?s2 = "?s1\<lparr>ws_run := RStore\<rparr>"
  let ?s3 = "?s2\<lparr>ws_fired := True, ws_run := RWrite\<rparr>"
  have "reach wake_init step ?s0" by (rule reach_init) (simp add: wake_init_def)
  moreover have "step ?s0 ?s1" using r_push [of ?s0 5] by (intro assms) simp
  moreover have "step ?s1 ?s2" using r_need [of ?s1] by (intro assms) simp
  moreover have "step ?s2 ?s3" using r_store [of ?s2] by (intro assms) simp
  moreover have "step ?s3 wake_demo" using r_write [of ?s3] by (intro assms) (simp add: wake_demo_def)
  ultimately show ?thesis by (meson reach_step)
qed

text \<open>
  C2. No lost wake-up when \<open>Produce\<close> consumes the signal before it empties the queue: in every
  reachable state in which the manager's thread is not inside \<open>Fire\<close>, the router thread is asleep and
  the queue holds an event, the pipe holds exactly one byte, so that \<open>epoll_wait\<close> returns; and the
  read in \<open>Consume\<close> never blocks.
\<close>

theorem no_lost_wakeup:
  assumes "reach wake_init wake_step_a s"
  shows "(ws_run s = RIdle \<and> ws_poll s = WIdle \<and> ws_queue s \<noteq> [] \<longrightarrow> ws_bytes s = 1) \<and>
    (ws_poll s = WRead \<longrightarrow> 0 < ws_bytes s)"
  using wake_a.inv_reach [OF assms] by (auto simp: wake_inv_def split: if_splits)

theorem no_lost_wakeup_witness: "ws_bytes wake_demo = 1"
  using no_lost_wakeup [OF wake_demo_run [where step = wake_step_a]]
  by (auto simp: wake_step_a_def wake_demo_def)

lemma idle_delivers:
  assumes "reach wake_init wake_step_a s" and "ws_run s = RIdle"
  shows "\<exists>t. consume_first\<^sup>*\<^sup>* s t \<and> ws_queue t = [] \<and> ws_out t = ws_out s @ ws_queue s"
proof (cases "ws_queue s = []")
  case True
  then show ?thesis by auto
next
  case False
  note inv = wake_a.inv_reach [OF assms(1), unfolded wake_inv_def]
  show ?thesis
  proof (cases "ws_poll s")
    case WIdle
    with inv assms(2) False have b: "0 < ws_bytes s" by (auto split: if_splits)
    from check_star [of "s\<lparr>ws_poll := WCheck\<rparr>"] a_wake [OF WIdle b] b show ?thesis
      by (auto intro: converse_rtranclp_into_rtranclp)
  qed (use inv check_star read_star reset_star drain_star in auto)
qed

text \<open>The rest of a call of \<open>Fire\<close> ends, and leaves the queue and what was delivered alone.\<close>

definition fire_step :: "'a wake_sys \<Rightarrow> 'a wake_sys \<Rightarrow> bool" where
  "fire_step s t \<longleftrightarrow> run_step s t \<and> ws_run s \<noteq> RIdle"

lemma fire_stepI: "run_step s t \<Longrightarrow> ws_run s \<noteq> RIdle \<Longrightarrow> fire_step s t"
  by (simp add: fire_step_def)

lemma fire_ends:
  "\<exists>u. fire_step\<^sup>*\<^sup>* s u \<and> ws_run u = RIdle \<and> ws_queue u = ws_queue s \<and> ws_out u = ws_out s"
proof -
  let ?ends = "\<lambda>s u. fire_step\<^sup>*\<^sup>* s u \<and> ws_run u = RIdle \<and> ws_queue u = ws_queue s \<and> ws_out u = ws_out s"
  have w: "\<exists>u. ?ends s u" if "ws_run s = RWrite" for s :: "'a wake_sys"
    using fire_stepI [OF r_write [OF that]] that
    by (intro exI [of _ "s\<lparr>ws_bytes := Suc (ws_bytes s), ws_run := RIdle\<rparr>"]) (simp add: r_into_rtranclp)
  have st: "\<exists>u. ?ends s u" if "ws_run s = RStore" for s :: "'a wake_sys"
    using fire_stepI [OF r_store [OF that]] that w [of "s\<lparr>ws_fired := True, ws_run := RWrite\<rparr>"]
    by (auto intro: converse_rtranclp_into_rtranclp)
  show ?thesis
  proof (cases "ws_run s")
    case RCheck
    show ?thesis
    proof (cases "ws_fired s")
      case True
      with fire_stepI [OF r_skip [OF RCheck]] RCheck show ?thesis
        by (intro exI [of _ "s\<lparr>ws_run := RIdle\<rparr>"]) (simp add: r_into_rtranclp)
    next
      case False
      with fire_stepI [OF r_need [OF RCheck]] RCheck st [of "s\<lparr>ws_run := RStore\<rparr>"]
      show ?thesis by (auto intro: converse_rtranclp_into_rtranclp)
    qed
  qed (use w st in auto)
qed

lemma fire_reach: "fire_step\<^sup>*\<^sup>* s u \<Longrightarrow> reach wake_init wake_step_a s \<Longrightarrow> reach wake_init wake_step_a u"
  by (induction rule: rtranclp_induct) (auto simp: fire_step_def wake_step_a_def intro: reach_step)

text \<open>
  C22. Delivery, from every reachable state of the order of \<^verbatim>\<open>app12\<close>. When the manager's thread is not inside \<open>Fire\<close>,
  the router thread running on its own gets to an empty queue and has then delivered exactly the queued events, in
  order. When it is inside \<open>Fire\<close> the byte may still be missing from the pipe; once that call has run to its end (which it
  can do on its own) the router delivers the same.
\<close>

theorem router_delivers:
  assumes "reach wake_init wake_step_a s"
  shows "(ws_run s = RIdle \<longrightarrow> (\<exists>t. consume_first\<^sup>*\<^sup>* s t \<and> ws_queue t = [] \<and> ws_out t = ws_out s @ ws_queue s)) \<and>
    (\<exists>u t. fire_step\<^sup>*\<^sup>* s u \<and> ws_run u = RIdle \<and> consume_first\<^sup>*\<^sup>* u t \<and> ws_queue t = [] \<and> ws_out t = ws_out s @ ws_queue s)"
proof -
  obtain u where "fire_step\<^sup>*\<^sup>* s u" "ws_run u = RIdle" "ws_queue u = ws_queue s" "ws_out u = ws_out s"
    using fire_ends by blast
  with idle_delivers [of u] fire_reach [of s u] idle_delivers [of s] assms show ?thesis by (metis (no_types, lifting))
qed

theorem router_delivers_witness:
  "\<exists>t. consume_first\<^sup>*\<^sup>* wake_demo t \<and> ws_queue t = [] \<and> ws_out t = [5]"
  using router_delivers [OF wake_demo_run [where step = wake_step_a]]
  by (auto simp: wake_step_a_def wake_demo_def)

text \<open>
  C37. A lost wake-up when \<open>Produce\<close> empties the queue before it consumes the signal: there is a
  reachable state in which both threads are settled, an event is in the queue and the pipe is empty,
  so the router thread sleeps on. The event arrives between the last look at the queue and the reset
  of the flag, where \<open>Fire\<close> still sees the flag up and writes nothing.
\<close>

theorem drain_first_loses_wakeup:
  "\<exists>s :: nat wake_sys. reach wake_init wake_step_b s \<and> ws_run s = RIdle \<and> ws_poll s = WIdle \<and>
     ws_queue s \<noteq> [] \<and> ws_bytes s = 0 \<and> (\<nexists>t. drain_first s t)"
proof -
  let ?s1 = "wake_demo\<lparr>ws_poll := WDrain\<rparr>"
  let ?s2 = "?s1\<lparr>ws_queue := [], ws_out := [5]\<rparr>"
  let ?s3 = "?s2\<lparr>ws_poll := WCheck\<rparr>"
  let ?s4 = "?s3\<lparr>ws_queue := [6], ws_run := RCheck\<rparr>"
  let ?s5 = "?s4\<lparr>ws_run := RIdle\<rparr>"
  let ?s6 = "?s5\<lparr>ws_poll := WRead\<rparr>"
  let ?s7 = "?s6\<lparr>ws_bytes := 0, ws_poll := WReset\<rparr>"
  let ?s8 = "?s7\<lparr>ws_fired := False, ws_poll := WIdle\<rparr>"
  have "reach wake_init wake_step_b wake_demo" by (rule wake_demo_run) (simp add: wake_step_b_def)
  moreover have "wake_step_b wake_demo ?s1"
    using b_wake [of wake_demo] by (simp add: wake_step_b_def wake_demo_def)
  moreover have "wake_step_b ?s1 ?s2"
    using b_pop [of ?s1 5 "[]"] by (simp add: wake_step_b_def wake_demo_def)
  moreover have "wake_step_b ?s2 ?s3" using b_done [of ?s2] by (simp add: wake_step_b_def wake_demo_def)
  moreover have "wake_step_b ?s3 ?s4" using r_push [of ?s3 6] by (simp add: wake_step_b_def wake_demo_def)
  moreover have "wake_step_b ?s4 ?s5" using r_skip [of ?s4] by (simp add: wake_step_b_def wake_demo_def)
  moreover have "wake_step_b ?s5 ?s6" using b_check [of ?s5] by (simp add: wake_step_b_def wake_demo_def)
  moreover have "wake_step_b ?s6 ?s7" using b_read [of ?s6] by (simp add: wake_step_b_def wake_demo_def)
  moreover have "wake_step_b ?s7 ?s8" using b_reset [of ?s7] by (simp add: wake_step_b_def wake_demo_def)
  ultimately have "reach wake_init wake_step_b ?s8" by (meson reach_step)
  moreover have "\<nexists>t. drain_first ?s8 t" by (auto simp: wake_demo_def elim: drain_first.cases)
  ultimately show ?thesis by (intro exI [of _ ?s8]) (simp add: wake_demo_def)
qed

end
