(* ===== verification/LockeFreeQueue.thy ===== *)
theory LockeFreeQueue
  imports Prelude
begin

text \<open>
  \<^verbatim>\<open>inc/LockeFreeQueue.h\<close>: the linked queue of \<^verbatim>\<open>app6.cpp\<close>. Nodes live in a heap (a map from
  addresses); \<open>new\<close> returns some unused address, \<open>delete\<close> removes the node, and an access to an
  address without a node is undefined behaviour. The first part has the operations as one thread sees
  them. The second part runs any number of producers beside one consumer, an access to shared memory
  at a time: a producer swings \<open>tail_\<close> first and links its node later, so the list can have gaps.
\<close>

section \<open>Nodes and operations\<close>

record 'a lf_node =
  nd_data :: "'a option"      \<comment> \<open>\<open>None\<close>: default-constructed or moved from\<close>
  nd_next :: "nat option"

record 'a lf_queue =
  lf_heap :: "nat \<rightharpoonup> 'a lf_node"
  lf_head :: nat
  lf_tail :: nat

definition lf_ctor :: "nat \<Rightarrow> 'a lf_queue" where
  "lf_ctor a = \<lparr>lf_heap = [a \<mapsto> \<lparr>nd_data = None, nd_next = None\<rparr>], lf_head = a, lf_tail = a\<rparr>"

text \<open>\<open>a\<close> is the address \<open>new\<close> returns.\<close>

definition lf_emplace_back :: "nat \<Rightarrow> 'a \<Rightarrow> 'a lf_queue \<Rightarrow> 'a lf_queue result" where
  "lf_emplace_back a x q =
     (let h = (lf_heap q)(a \<mapsto> \<lparr>nd_data = Some x, nd_next = None\<rparr>); prev = lf_tail q
      in case h prev of
           None \<Rightarrow> Inl (UndefinedBehaviour ''prev->next'')
         | Some nd \<Rightarrow> Inr (q\<lparr>lf_heap := h(prev \<mapsto> nd\<lparr>nd_next := Some a\<rparr>), lf_tail := a\<rparr>))"

text \<open>The loop of \<open>swap\<close>: \<open>cur\<close> is deleted, its successor's data is moved out and becomes \<open>cur\<close>.\<close>

partial_function (option) lf_swap_loop ::
    "(nat \<rightharpoonup> 'a lf_node) \<Rightarrow> nat \<Rightarrow> nat option \<Rightarrow> 'a option list \<Rightarrow>
       ((nat \<rightharpoonup> 'a lf_node) \<times> nat \<times> 'a option list) result option" where
  "lf_swap_loop h cur next out =
     (case next of
        None \<Rightarrow> Some (Inr (h, cur, out))
      | Some nx \<Rightarrow>
          (let h = h(cur := None)
           in case h nx of
                None \<Rightarrow> Some (Inl (UndefinedBehaviour ''cur->data''))
              | Some nd \<Rightarrow>
                  lf_swap_loop (h(nx \<mapsto> nd\<lparr>nd_data := None\<rparr>)) nx (nd_next nd) (out @ [nd_data nd])))"

definition lf_swap :: "'a option list \<Rightarrow> 'a lf_queue \<Rightarrow> ('a option list \<times> 'a lf_queue) result option" where
  "lf_swap out q =
     (case lf_heap q (lf_head q) of
        None \<Rightarrow> Some (Inl (UndefinedBehaviour ''cur->next''))
      | Some nd \<Rightarrow>
          map_option (map_sum id (\<lambda>(h, cur, out). (out, q\<lparr>lf_heap := h, lf_head := cur\<rparr>)))
            (lf_swap_loop (lf_heap q) (lf_head q) (nd_next nd) out))"

text \<open>The destructor walks the list and deletes every node.\<close>

partial_function (option) lf_dtor_loop ::
    "(nat \<rightharpoonup> 'a lf_node) \<Rightarrow> nat option \<Rightarrow> (nat \<rightharpoonup> 'a lf_node) result option" where
  "lf_dtor_loop h node =
     (case node of
        None \<Rightarrow> Some (Inr h)
      | Some a \<Rightarrow>
          (case h a of
             None \<Rightarrow> Some (Inl (UndefinedBehaviour ''node->next''))
           | Some nd \<Rightarrow> lf_dtor_loop (h(a := None)) (nd_next nd)))"

definition lf_dtor :: "'a lf_queue \<Rightarrow> (nat \<rightharpoonup> 'a lf_node) result option" where
  "lf_dtor q = lf_dtor_loop (lf_heap q) (Some (lf_head q))"

section \<open>Chains of nodes\<close>

text \<open>A node's fields when it is allocated.\<close>

definition nx_of :: "(nat \<rightharpoonup> 'a lf_node) \<Rightarrow> nat \<Rightarrow> nat option" where
  "nx_of h a = (case h a of None \<Rightarrow> None | Some nd \<Rightarrow> nd_next nd)"

definition dt_of :: "(nat \<rightharpoonup> 'a lf_node) \<Rightarrow> nat \<Rightarrow> 'a option" where
  "dt_of h a = (case h a of None \<Rightarrow> None | Some nd \<Rightarrow> nd_data nd)"

text \<open>
  \<open>ns\<close> is the chain of all nodes in the order in which \<open>tail_\<close> passed over them; the pairs in \<open>P\<close> are
  not linked yet.
\<close>

definition lf_chain :: "(nat \<rightharpoonup> 'a lf_node) \<Rightarrow> (nat \<times> nat) set \<Rightarrow> nat list \<Rightarrow> bool" where
  "lf_chain h P ns \<longleftrightarrow> ns \<noteq> [] \<and> distinct ns \<and> dom h = set ns \<and> P \<subseteq> pairs ns \<and> nx_of h (last ns) = None \<and>
     (\<forall>(a, b) \<in> pairs ns. nx_of h a = (if (a, b) \<in> P then None else Some b))"

lemma nx_of_upd: "nx_of (h(a \<mapsto> nd)) b = (if b = a then nd_next nd else nx_of h b)"
  by (simp add: nx_of_def)

lemma nx_of_del: "nx_of (h(a := None)) b = (if b = a then None else nx_of h b)"
  by (simp add: nx_of_def)

lemma dt_of_upd: "dt_of (h(a \<mapsto> nd)) b = (if b = a then nd_data nd else dt_of h b)"
  by (simp add: dt_of_def)

lemma dt_of_del: "dt_of (h(a := None)) b = (if b = a then None else dt_of h b)"
  by (simp add: dt_of_def)

lemmas node_simps = nx_of_upd nx_of_del dt_of_upd dt_of_del

lemma lf_chain_allocated: "lf_chain h P ns \<Longrightarrow> a \<in> set ns \<Longrightarrow> \<exists>nd. h a = Some nd"
  by (auto simp: lf_chain_def)

lemma lf_chain_pending:
  assumes "lf_chain h P ns" "(a, b) \<in> P"
  shows "(a, b) \<in> pairs ns" "nx_of h a = None" "a \<in> set ns" "b \<in> set ns"
proof -
  from assms show p: "(a, b) \<in> pairs ns" unfolding lf_chain_def by blast
  then show "a \<in> set ns" "b \<in> set ns" by (auto dest: pairs_in)
  from assms p show "nx_of h a = None" unfolding lf_chain_def by fastforce
qed

text \<open>A new node behind the last one, not linked yet.\<close>

lemma lf_chain_append:
  assumes "lf_chain h P ns" "h a = None"
  shows "lf_chain (h(a \<mapsto> \<lparr>nd_data = Some x, nd_next = None\<rparr>)) (insert (last ns, a) P) (ns @ [a])"
proof -
  let ?h = "h(a \<mapsto> \<lparr>nd_data = Some x, nd_next = None\<rparr>)" and ?P = "insert (last ns, a) P"
  from assms have c: "ns \<noteq> []" "distinct ns" "dom h = set ns" "P \<subseteq> pairs ns" "nx_of h (last ns) = None"
    and l: "\<And>e f. (e, f) \<in> pairs ns \<Longrightarrow> nx_of h e = (if (e, f) \<in> P then None else Some f)"
    unfolding lf_chain_def by blast+
  from assms(2) c(3) have a: "a \<notin> set ns" by auto
  from c(1) have la: "last ns \<noteq> a" using a by auto
  have "nx_of ?h e = (if (e, f) \<in> ?P then None else Some f)" if "(e, f) \<in> pairs (ns @ [a])" for e f
  proof (cases "(e, f) \<in> pairs ns")
    case True
    then have "e \<noteq> a" "e \<noteq> last ns" using a pairs_in pairs_not_last [OF c(2)] by metis+
    then show ?thesis using l [OF True] by (simp add: node_simps)
  next
    case False
    then have "e = last ns" "f = a" using that c(1) by (simp_all)
    then show ?thesis using c(5) la by (simp add: node_simps)
  qed
  moreover have "dom ?h = set (ns @ [a])" using c(3) by auto
  moreover have "?P \<subseteq> pairs (ns @ [a])" using c(1,4) by (auto)
  moreover have "distinct (ns @ [a])" using a c(2) by simp
  ultimately show ?thesis unfolding lf_chain_def by (auto simp: node_simps)
qed

text \<open>Linking a node.\<close>

lemma lf_chain_link:
  assumes c: "lf_chain h P ns" and p: "(a, b) \<in> P" and nd: "h a = Some nd"
  shows "lf_chain (h(a \<mapsto> nd\<lparr>nd_next := Some b\<rparr>)) (P - {(a, b)}) ns"
proof -
  from c p have ab: "(a, b) \<in> pairs ns" and d: "distinct ns" by (auto simp: lf_chain_def)
  note f = pairs_functional [OF d ab] and l = pairs_not_last [OF d ab]
  let ?h = "h(a \<mapsto> nd\<lparr>nd_next := Some b\<rparr>)"
  have "nx_of ?h e = (if (e, f) \<in> P - {(a, b)} then None else Some f)" if "(e, f) \<in> pairs ns" for e f
  proof (cases "e = a")
    case True
    with that f have "f = b" by blast
    with True show ?thesis by (simp add: node_simps)
  next
    case False
    with that c show ?thesis by (auto simp: lf_chain_def node_simps)
  qed
  moreover have "dom ?h = set ns" using c nd by (auto simp: lf_chain_def)
  moreover have "nx_of ?h (last ns) = None" using c l by (auto simp: lf_chain_def node_simps)
  ultimately show ?thesis using c unfolding lf_chain_def by blast
qed

text \<open>Deleting the first node once its successor is linked.\<close>

lemma lf_chain_delete:
  assumes "lf_chain h P (a # b # ns)" "(a, b) \<notin> P"
  shows "lf_chain (h(a := None)) P (b # ns)"
proof -
  from assms have d: "distinct (a # b # ns)" by (simp add: lf_chain_def)
  have "P \<subseteq> pairs (b # ns)" using assms by (auto simp: lf_chain_def)
  then show ?thesis
    using assms pairs_not_hd [OF d] by (auto simp: lf_chain_def node_simps dom_def split: if_splits)
qed

lemma lf_chain_data:
  assumes "lf_chain h P ns" "h a = Some nd"
  shows "lf_chain (h(a \<mapsto> nd\<lparr>nd_data := d\<rparr>)) P ns"
proof -
  have "nx_of (h(a \<mapsto> nd\<lparr>nd_data := d\<rparr>)) = nx_of h" using assms(2) by (auto simp: nx_of_def fun_eq_iff)
  then show ?thesis using assms by (auto simp: lf_chain_def)
qed

section \<open>One thread\<close>

text \<open>The queue holds \<open>xs\<close>: every node is linked and the nodes behind \<open>head_\<close> carry the elements.\<close>

definition lf_rep :: "'a lf_queue \<Rightarrow> 'a list \<Rightarrow> bool" where
  "lf_rep q xs \<longleftrightarrow> (\<exists>ns. lf_chain (lf_heap q) {} (lf_head q # ns) \<and> last (lf_head q # ns) = lf_tail q \<and>
     map (dt_of (lf_heap q)) ns = map Some xs)"

lemma lf_rep_ctor: "lf_rep (lf_ctor a) []"
  by (auto simp: lf_rep_def lf_ctor_def lf_chain_def nx_of_def)

lemma lf_chain_head: "lf_chain h P (c # ns) \<Longrightarrow> \<exists>nd. h c = Some nd \<and> nx_of h c = nd_next nd \<and> dt_of h c = nd_data nd"
  using lf_chain_allocated [of h P "c # ns" c] by (auto simp: nx_of_def dt_of_def)

lemma lf_emplace_back_rep:
  assumes "lf_rep q xs" "lf_heap q a = None"
  shows "\<exists>q'. lf_emplace_back a x q = Inr q' \<and> lf_rep q' (xs @ [x]) \<and>
           dom (lf_heap q') = insert a (dom (lf_heap q))"
proof -
  from assms(1) obtain ns where c: "lf_chain (lf_heap q) {} (lf_head q # ns)"
    and t: "last (lf_head q # ns) = lf_tail q" and d: "map (dt_of (lf_heap q)) ns = map Some xs"
    unfolding lf_rep_def by blast
  let ?h = "(lf_heap q)(a \<mapsto> \<lparr>nd_data = Some x, nd_next = None\<rparr>)" and ?ns = "lf_head q # ns"
  have tin: "lf_tail q \<in> set ?ns" using t last_in_set [of ?ns] by simp
  have a: "a \<notin> set ?ns" using c assms(2) by (auto simp: lf_chain_def)
  obtain nd where nd: "?h (lf_tail q) = Some nd" and hq: "lf_heap q (lf_tail q) = Some nd"
    using lf_chain_allocated [OF c tin] a tin by (metis map_upd_Some_unfold)
  let ?h' = "?h(lf_tail q \<mapsto> nd\<lparr>nd_next := Some a\<rparr>)" and ?q = "q\<lparr>lf_heap := ?h(lf_tail q \<mapsto> nd\<lparr>nd_next := Some a\<rparr>), lf_tail := a\<rparr>"
  have "lf_chain ?h' {} (?ns @ [a])"
    using lf_chain_link [OF lf_chain_append [OF c assms(2), of x, unfolded t] insertI1 nd]
    by (simp del: fun_upd_apply)
  moreover have "dt_of ?h' b = (if b = a then Some x else dt_of (lf_heap q) b)" for b
    using hq a tin by (auto simp: dt_of_def)
  then have "map (dt_of ?h') (ns @ [a]) = map Some (xs @ [x])" using a by (auto simp flip: d)
  ultimately have "lf_rep ?q (xs @ [x])"
    unfolding lf_rep_def by (intro exI [of _ "ns @ [a]"]) simp
  moreover have "dom (lf_heap ?q) = insert a (dom (lf_heap q))" using hq by auto
  ultimately show ?thesis using nd by (auto simp: lf_emplace_back_def Let_def)
qed

lemma lf_swap_loop_spec:
  "lf_chain h {} (c # ns) \<Longrightarrow>
   \<exists>h'. lf_swap_loop h c (nx_of h c) out = Some (Inr (h', last (c # ns), out @ map (dt_of h) ns)) \<and>
        lf_chain h' {} [last (c # ns)]"
proof (induction ns arbitrary: h c out)
  case Nil
  then show ?case by (subst lf_swap_loop.simps) (simp add: lf_chain_def)
next
  case (Cons b ns)
  let ?h = "h(c := None)"
  have cb: "lf_chain ?h {} (b # ns)" and nx: "nx_of h c = Some b"
    using lf_chain_delete [OF Cons.prems] Cons.prems by (auto simp: lf_chain_def)
  then obtain nd where nd: "?h b = Some nd" by (auto dest: lf_chain_head)
  let ?h' = "?h(b \<mapsto> nd\<lparr>nd_data := None\<rparr>)"
  have ds: "distinct (c # b # ns)" using Cons.prems by (simp add: lf_chain_def)
  have nb: "h b = Some nd" using nd by (simp split: if_splits)
  have "lf_chain ?h' {} (b # ns)" by (rule lf_chain_data [OF cb nd])
  from Cons.IH [OF this, of "out @ [nd_data nd]"] obtain h' where
    ih: "lf_swap_loop ?h' b (nx_of ?h' b) (out @ [nd_data nd]) =
           Some (Inr (h', last (b # ns), (out @ [nd_data nd]) @ map (dt_of ?h') ns))"
        "lf_chain h' {} [last (b # ns)]" by blast
  have "nx_of ?h' b = nd_next nd" by (simp add: node_simps)
  moreover have "map (dt_of ?h') ns = map (dt_of h) ns" using ds by (auto simp: node_simps)
  moreover have "dt_of h b = nd_data nd" using nb by (simp add: dt_of_def)
  ultimately have "lf_swap_loop h c (nx_of h c) out =
      Some (Inr (h', last (c # b # ns), out @ map (dt_of h) (b # ns)))"
    using ih(1) nd by (subst lf_swap_loop.simps) (simp add: nx Let_def)
  then show ?case using ih(2) by auto
qed

lemma lf_dtor_loop_spec:
  "lf_chain h {} (c # ns) \<Longrightarrow> lf_dtor_loop h (Some c) = Some (Inr Map.empty)"
proof (induction ns arbitrary: h c)
  case Nil
  then obtain nd where nd: "h c = Some nd" "nd_next nd = None"
    using lf_chain_head [OF Nil] by (auto simp: lf_chain_def)
  moreover have "dom (h(c := None)) = {}" using Nil by (auto simp: lf_chain_def)
  then have "h(c := None) = Map.empty" by (simp only: dom_eq_empty_conv)
  ultimately show ?case
    by (subst lf_dtor_loop.simps) (simp add: lf_dtor_loop.simps [of _ None])
next
  case (Cons b ns)
  have "lf_chain (h(c := None)) {} (b # ns)" "nx_of h c = Some b"
    using lf_chain_delete [OF Cons.prems] Cons.prems by (auto simp: lf_chain_def)
  note Cons.IH [OF this(1)] and this(2)
  then show ?case
    using lf_chain_head [OF Cons.prems] by (subst lf_dtor_loop.simps) (auto simp del: fun_upd_apply)
qed

lemma lf_swap_rep:
  assumes "lf_rep q xs"
  shows "\<exists>q'. lf_swap out q = Some (Inr (out @ map Some xs, q')) \<and> lf_rep q' []"
proof -
  from assms obtain ns where c: "lf_chain (lf_heap q) {} (lf_head q # ns)"
    and t: "last (lf_head q # ns) = lf_tail q" and d: "map (dt_of (lf_heap q)) ns = map Some xs"
    unfolding lf_rep_def by blast
  from lf_swap_loop_spec [OF c, of out] obtain h' where
    l: "lf_swap_loop (lf_heap q) (lf_head q) (nx_of (lf_heap q) (lf_head q)) out = Some (Inr (h', lf_tail q, out @ map Some xs))"
    and c': "lf_chain h' {} [lf_tail q]" by (auto simp: t d simp del: last.simps)
  from c' have "lf_rep (q\<lparr>lf_heap := h', lf_head := lf_tail q\<rparr>) []" by (simp add: lf_rep_def)
  with l lf_chain_head [OF c] show ?thesis by (auto simp: lf_swap_def)
qed

lemma lf_dtor_rep: "lf_rep q xs \<Longrightarrow> lf_dtor q = Some (Inr Map.empty)"
  by (auto simp: lf_rep_def lf_dtor_def dest: lf_dtor_loop_spec)


text \<open>Pushing a list, at the addresses \<open>new\<close> returns.\<close>

fun lf_emplace_all :: "(nat \<times> 'a) list \<Rightarrow> 'a lf_queue \<Rightarrow> 'a lf_queue result" where
  "lf_emplace_all [] q = Inr q"
| "lf_emplace_all ((a, x) # axs) q =
     (case lf_emplace_back a x q of Inl e \<Rightarrow> Inl e | Inr q' \<Rightarrow> lf_emplace_all axs q')"

lemma lf_emplace_all_rep:
  assumes "lf_rep q xs" "distinct (map fst axs)" "fst ` set axs \<inter> dom (lf_heap q) = {}"
  shows "\<exists>q'. lf_emplace_all axs q = Inr q' \<and> lf_rep q' (xs @ map snd axs)"
  using assms
proof (induction axs arbitrary: q xs)
  case (Cons ax axs)
  obtain a x where ax: "ax = (a, x)" by fastforce
  with Cons.prems have "lf_heap q a = None" by auto
  from lf_emplace_back_rep [OF Cons.prems(1) this, of x] obtain q' where
    q': "lf_emplace_back a x q = Inr q'" "lf_rep q' (xs @ [x])" "dom (lf_heap q') = insert a (dom (lf_heap q))"
    by blast
  have "fst ` set axs \<inter> dom (lf_heap q') = {}" using Cons.prems q'(3) ax by auto
  from Cons.IH [OF q'(2) _ this] Cons.prems ax q'(1) show ?case by auto
qed auto

text \<open>
  One thread that pushes any list into a fresh \<open>LockeFreeQueue\<close> and calls \<open>swap\<close> once
  gets every element back, in order, behind what was in the output list already; the loop ends, never
  touches a freed node, and leaves one (empty) node allocated. The destructor, called before or after the
  \<open>swap\<close>, ends too and frees every node.
\<close>

theorem lf_sequential:
  assumes "distinct (a0 # map fst axs)"
  shows "\<exists>q q'. lf_emplace_all axs (lf_ctor a0) = Inr q \<and>
           lf_swap out q = Some (Inr (out @ map (Some \<circ> snd) axs, q')) \<and>
           dom (lf_heap q') = {lf_head q'} \<and>
           lf_dtor q = Some (Inr Map.empty) \<and> lf_dtor q' = Some (Inr Map.empty)"
proof -
  have f: "fst ` set axs \<inter> dom (lf_heap (lf_ctor a0)) = {}"
    using assms by (auto simp: lf_ctor_def)
  have d: "distinct (map fst axs)" using assms by simp
  obtain q where q: "lf_emplace_all axs (lf_ctor a0) = Inr q" "lf_rep q (map snd axs)"
    using lf_emplace_all_rep [OF lf_rep_ctor d f] by auto
  obtain q' where q': "lf_swap out q = Some (Inr (out @ map Some (map snd axs), q'))" "lf_rep q' []"
    using lf_swap_rep [OF q(2)] by blast
  from q'(2) have "dom (lf_heap q') = {lf_head q'}" by (auto simp: lf_rep_def lf_chain_def)
  with q q' show ?thesis by (auto intro: lf_dtor_rep)
qed

theorem lf_sequential_witness:
  "\<exists>q q'. lf_emplace_all [(7, ''a''), (3, ''b'')] (lf_ctor 5) = Inr q \<and>
     lf_swap [Some ''z''] q = Some (Inr ([Some ''z'', Some ''a'', Some ''b''], q')) \<and>
     dom (lf_heap q') = {lf_head q'}"
  using lf_sequential [of 5 "[(7, ''a''), (3, ''b'')]" "[Some ''z'']"] by auto

section \<open>Producers beside the consumer\<close>

text \<open>
  Where the consumer is in \<open>swap\<close>: outside (\<open>cur\<close> is \<open>head_\<close>), before \<open>delete cur\<close>, before the
  move of \<open>cur->data\<close>, before the load of \<open>cur->next\<close>.
\<close>

datatype lf_cpc = SIdle | SDel nat nat | SMove nat | SLoad nat

text \<open>
  \<open>ls_pend\<close> holds, for a thread inside \<open>emplace_back\<close> between the exchange and the store, its \<open>prev\<close>
  and its \<open>newNode\<close>. \<open>ls_in\<close> and \<open>ls_out\<close> record what went in (in the order of the exchanges) and what
  \<open>swap\<close> moved out; \<open>ls_ub\<close> is set by an access to a node that is not allocated.
\<close>

record 'a lf_sys =
  ls_heap :: "nat \<rightharpoonup> 'a lf_node"
  ls_head :: nat
  ls_tail :: nat
  ls_pend :: "nat \<rightharpoonup> nat \<times> nat"
  ls_cpc :: lf_cpc
  ls_in :: "'a list"
  ls_out :: "'a option list"
  ls_ub :: bool

definition lf_sys_init :: "'a lf_sys \<Rightarrow> bool" where
  "lf_sys_init s \<longleftrightarrow> (\<exists>a. s = \<lparr>ls_heap = lf_heap (lf_ctor a), ls_head = a, ls_tail = a, ls_pend = Map.empty,
      ls_cpc = SIdle, ls_in = [], ls_out = [], ls_ub = False\<rparr>)"

text \<open>A producer: the node it allocates is private until the exchange publishes it in \<open>tail_\<close>.\<close>

inductive lf_pstep :: "'a lf_sys \<Rightarrow> 'a lf_sys \<Rightarrow> bool" where
  e_exchange: "ls_pend s t = None \<Longrightarrow> ls_heap s a = None \<Longrightarrow>
    lf_pstep s (s\<lparr>ls_heap := (ls_heap s)(a \<mapsto> \<lparr>nd_data = Some x, nd_next = None\<rparr>), ls_tail := a,
                 ls_pend := (ls_pend s)(t \<mapsto> (ls_tail s, a)), ls_in := ls_in s @ [x]\<rparr>)"
| e_link: "ls_pend s t = Some (prev, a) \<Longrightarrow> ls_heap s prev = Some nd \<Longrightarrow>
    lf_pstep s (s\<lparr>ls_heap := (ls_heap s)(prev \<mapsto> nd\<lparr>nd_next := Some a\<rparr>), ls_pend := (ls_pend s)(t := None)\<rparr>)"
| e_link_ub: "ls_pend s t = Some (prev, a) \<Longrightarrow> ls_heap s prev = None \<Longrightarrow> lf_pstep s (s\<lparr>ls_ub := True\<rparr>)"

text \<open>The load of \<open>cur->next\<close>: \<open>swap\<close> ends, or goes on with the successor.\<close>

definition lf_load :: "nat \<Rightarrow> 'a lf_node \<Rightarrow> 'a lf_sys \<Rightarrow> 'a lf_sys" where
  "lf_load cur nd s = (case nd_next nd of
      None \<Rightarrow> s\<lparr>ls_head := cur, ls_cpc := SIdle\<rparr>
    | Some nx \<Rightarrow> s\<lparr>ls_cpc := SDel cur nx\<rparr>)"

inductive lf_cstep :: "'a lf_sys \<Rightarrow> 'a lf_sys \<Rightarrow> bool" where
  s_enter: "ls_cpc s = SIdle \<Longrightarrow> ls_heap s (ls_head s) = Some nd \<Longrightarrow> lf_cstep s (lf_load (ls_head s) nd s)"
| s_enter_ub: "ls_cpc s = SIdle \<Longrightarrow> ls_heap s (ls_head s) = None \<Longrightarrow> lf_cstep s (s\<lparr>ls_ub := True\<rparr>)"
| s_delete: "ls_cpc s = SDel cur nx \<Longrightarrow> ls_heap s cur \<noteq> None \<Longrightarrow>
    lf_cstep s (s\<lparr>ls_heap := (ls_heap s)(cur := None), ls_cpc := SMove nx\<rparr>)"
| s_delete_ub: "ls_cpc s = SDel cur nx \<Longrightarrow> ls_heap s cur = None \<Longrightarrow> lf_cstep s (s\<lparr>ls_ub := True\<rparr>)"
| s_move: "ls_cpc s = SMove cur \<Longrightarrow> ls_heap s cur = Some nd \<Longrightarrow>
    lf_cstep s (s\<lparr>ls_heap := (ls_heap s)(cur \<mapsto> nd\<lparr>nd_data := None\<rparr>), ls_out := ls_out s @ [nd_data nd],
                 ls_cpc := SLoad cur\<rparr>)"
| s_move_ub: "ls_cpc s = SMove cur \<Longrightarrow> ls_heap s cur = None \<Longrightarrow> lf_cstep s (s\<lparr>ls_ub := True\<rparr>)"
| s_load: "ls_cpc s = SLoad cur \<Longrightarrow> ls_heap s cur = Some nd \<Longrightarrow> lf_cstep s (lf_load cur nd s)"
| s_load_ub: "ls_cpc s = SLoad cur \<Longrightarrow> ls_heap s cur = None \<Longrightarrow> lf_cstep s (s\<lparr>ls_ub := True\<rparr>)"

inductive lf_step :: "'a lf_sys \<Rightarrow> 'a lf_sys \<Rightarrow> bool" where
  lf_p: "lf_pstep s t \<Longrightarrow> lf_step s t"
| lf_c: "lf_cstep s t \<Longrightarrow> lf_step s t"

text \<open>What is still in the queue is what the nodes \<open>ms\<close> hold.\<close>

definition lf_rest :: "'a lf_sys \<Rightarrow> nat list \<Rightarrow> bool" where
  "lf_rest s ms \<longleftrightarrow> map Some (ls_in s) = ls_out s @ map (dt_of (ls_heap s)) ms"

text \<open>The consumer's node heads the chain; its data is still to be moved out only before the move.\<close>

fun lf_at :: "'a lf_sys \<Rightarrow> nat list \<Rightarrow> bool" where
  "lf_at s [] = False"
| "lf_at s (c # ns) =
     (case ls_cpc s of
        SIdle \<Rightarrow> c = ls_head s \<and> lf_rest s ns
      | SDel cur nx \<Rightarrow> c = cur \<and> nx_of (ls_heap s) c = Some nx \<and> lf_rest s ns
      | SMove cur \<Rightarrow> c = cur \<and> lf_rest s (c # ns)
      | SLoad cur \<Rightarrow> c = cur \<and> lf_rest s ns)"

definition lf_inv :: "'a lf_sys \<Rightarrow> bool" where
  "lf_inv s \<longleftrightarrow> \<not> ls_ub s \<and> inj_on (ls_pend s) (dom (ls_pend s)) \<and>
     (\<exists>ns. lf_chain (ls_heap s) (ran (ls_pend s)) ns \<and> last ns = ls_tail s \<and> lf_at s ns)"

lemma lf_inv_init: "lf_sys_init s \<Longrightarrow> lf_inv s"
  unfolding lf_sys_init_def lf_inv_def
  by (auto simp: lf_rest_def lf_ctor_def lf_chain_def nx_of_def split: if_splits intro!: exI [of _ "[ls_head s]"])

lemma lf_at_heap:
  assumes "lf_at s ns" "\<And>a. a \<in> set ns \<Longrightarrow> dt_of h a = dt_of (ls_heap s) a"
    "\<And>b. nx_of (ls_heap s) (hd ns) = Some b \<Longrightarrow> nx_of h (hd ns) = Some b"
  shows "lf_at (s\<lparr>ls_heap := h\<rparr>) ns"
  using assms by (cases ns) (auto simp: lf_rest_def split: lf_cpc.splits cong: map_cong)

lemma lf_at_snoc:
  "lf_at s ns \<Longrightarrow> dt_of (ls_heap s) a = Some x \<Longrightarrow> lf_at (s\<lparr>ls_in := ls_in s @ [x]\<rparr>) (ns @ [a])"
  by (cases ns) (auto simp: lf_rest_def split: lf_cpc.splits)

lemma lf_at_cong:
  "ls_heap s = ls_heap t \<Longrightarrow> ls_head s = ls_head t \<Longrightarrow> ls_cpc s = ls_cpc t \<Longrightarrow> ls_in s = ls_in t \<Longrightarrow>
   ls_out s = ls_out t \<Longrightarrow> lf_at s ns \<Longrightarrow> lf_at t ns"
  by (cases ns) (simp_all add: lf_rest_def split: lf_cpc.splits)

lemma lf_inv_exchange:
  assumes i: "lf_inv s" and t: "ls_pend s t = None" and a: "ls_heap s a = None"
  shows "lf_inv (s\<lparr>ls_heap := (ls_heap s)(a \<mapsto> \<lparr>nd_data = Some x, nd_next = None\<rparr>), ls_tail := a,
                 ls_pend := (ls_pend s)(t \<mapsto> (ls_tail s, a)), ls_in := ls_in s @ [x]\<rparr>)" (is "lf_inv ?s")
proof -
  from i obtain ns where c: "lf_chain (ls_heap s) (ran (ls_pend s)) ns" and l: "last ns = ls_tail s"
    and at: "lf_at s ns" and inj: "inj_on (ls_pend s) (dom (ls_pend s))" and ub: "\<not> ls_ub s"
    unfolding lf_inv_def by blast
  let ?h = "(ls_heap s)(a \<mapsto> \<lparr>nd_data = Some x, nd_next = None\<rparr>)"
  have na: "a \<notin> set ns" and ne: "ns \<noteq> []" using c a by (auto simp: lf_chain_def)
  have "lf_chain ?h (ran ((ls_pend s)(t \<mapsto> (ls_tail s, a)))) (ns @ [a])"
    using lf_chain_append [OF c a] by (simp add: l t ran_map_upd del: fun_upd_apply)
  moreover have "lf_at ?s (ns @ [a])"
  proof -
    have "hd ns \<in> set ns" using ne by simp
    with na have "hd ns \<noteq> a" by metis
    then have "lf_at (s\<lparr>ls_heap := ?h\<rparr>) ns"
      using na by (intro lf_at_heap [OF at]) (auto simp: node_simps)
    then have "lf_at (s\<lparr>ls_heap := ?h, ls_in := ls_in s @ [x]\<rparr>) (ns @ [a])"
      using lf_at_snoc [of "s\<lparr>ls_heap := ?h\<rparr>" ns a x] by (simp add: node_simps)
    then show ?thesis by (rule lf_at_cong [rotated -1]) simp_all
  qed
  moreover have "(ls_tail s, a) \<notin> ran (ls_pend s)" using c na by (auto simp: lf_chain_def dest: pairs_in)
  then have "inj_on ((ls_pend s)(t \<mapsto> (ls_tail s, a))) (dom ((ls_pend s)(t \<mapsto> (ls_tail s, a))))"
    using inj t by (auto simp: inj_on_def ran_def split: if_splits)
  ultimately show ?thesis unfolding lf_inv_def using ub by auto
qed

lemma ran_del:
  assumes "inj_on m (dom m)" "m t = Some y" shows "ran (m(t := None)) = ran m - {y}"
  using assms by (auto simp: ran_def inj_on_def dom_def; metis option.inject)

lemma lf_inv_link:
  assumes i: "lf_inv s" and t: "ls_pend s t = Some (prev, a)" and nd: "ls_heap s prev = Some nd"
  shows "lf_inv (s\<lparr>ls_heap := (ls_heap s)(prev \<mapsto> nd\<lparr>nd_next := Some a\<rparr>), ls_pend := (ls_pend s)(t := None)\<rparr>)"
proof -
  from i obtain ns where c: "lf_chain (ls_heap s) (ran (ls_pend s)) ns" and l: "last ns = ls_tail s"
    and at: "lf_at s ns" and inj: "inj_on (ls_pend s) (dom (ls_pend s))" and ub: "\<not> ls_ub s"
    unfolding lf_inv_def by blast
  let ?h = "(ls_heap s)(prev \<mapsto> nd\<lparr>nd_next := Some a\<rparr>)"
  have p: "(prev, a) \<in> ran (ls_pend s)" using t by (auto simp: ran_def)
  have "lf_chain ?h (ran ((ls_pend s)(t := None))) ns"
    using lf_chain_link [OF c p nd] by (simp add: ran_del [OF inj t])
  moreover note lf_chain_pending(2) [OF c p]
  then have "lf_at (s\<lparr>ls_heap := ?h\<rparr>) ns"
    using nd by (intro lf_at_heap [OF at]) (auto simp: dt_of_def nx_of_upd)
  then have "lf_at (s\<lparr>ls_heap := ?h, ls_pend := (ls_pend s)(t := None)\<rparr>) ns"
    by (rule lf_at_cong [rotated -1]) simp_all
  moreover have "inj_on ((ls_pend s)(t := None)) (dom ((ls_pend s)(t := None)))"
    using inj by (auto simp: inj_on_def dom_def)
  ultimately show ?thesis
    unfolding lf_inv_def using ub l by auto
qed

lemma lf_inv_pending:
  "lf_inv s \<Longrightarrow> ls_pend s t = Some (prev, a) \<Longrightarrow> ls_heap s prev \<noteq> None \<and> ls_heap s a \<noteq> None"
  unfolding lf_inv_def using lf_chain_pending(3,4) lf_chain_allocated
  by (metis (no_types, lifting) option.distinct(1) ranI)

lemma lf_inv_pstep: "lf_pstep s s' \<Longrightarrow> lf_inv s \<Longrightarrow> lf_inv s'"
  by (cases rule: lf_pstep.cases, assumption)
     (auto intro: lf_inv_exchange lf_inv_link dest: lf_inv_pending)

lemma lf_chain_next:
  assumes "lf_chain h P (c # ns)" "nx_of h c = Some b"
  shows "\<exists>ms. ns = b # ms \<and> (c, b) \<notin> P"
  using assms by (cases ns) (auto simp: lf_chain_def split: if_splits)

text \<open>The invariant as the consumer uses it: the chain starts at its node.\<close>

lemma lf_invE:
  assumes "lf_inv s"
  obtains c ns where "lf_chain (ls_heap s) (ran (ls_pend s)) (c # ns)" "last (c # ns) = ls_tail s"
    "lf_at s (c # ns)" "inj_on (ls_pend s) (dom (ls_pend s))" "\<not> ls_ub s"
  using assms unfolding lf_inv_def by (metis lf_at.elims(2))

lemma lf_invI:
  "lf_chain (ls_heap s) (ran (ls_pend s)) ns \<Longrightarrow> last ns = ls_tail s \<Longrightarrow> lf_at s ns \<Longrightarrow>
   inj_on (ls_pend s) (dom (ls_pend s)) \<Longrightarrow> \<not> ls_ub s \<Longrightarrow> lf_inv s"
  unfolding lf_inv_def by blast

definition lf_node_of :: "'a lf_sys \<Rightarrow> nat" where
  "lf_node_of s = (case ls_cpc s of SIdle \<Rightarrow> ls_head s | SDel c nx \<Rightarrow> c | SMove c \<Rightarrow> c | SLoad c \<Rightarrow> c)"

lemma lf_inv_node: "lf_inv s \<Longrightarrow> \<exists>nd. ls_heap s (lf_node_of s) = Some nd"
  by (erule lf_invE, drule lf_chain_head) (auto simp: lf_node_of_def split: lf_cpc.splits)

lemma lf_inv_load:
  assumes "lf_inv s" "ls_cpc s = SIdle \<and> cur = ls_head s \<or> ls_cpc s = SLoad cur" "ls_heap s cur = Some nd"
  shows "lf_inv (lf_load cur nd s)"
proof -
  have "nx_of (ls_heap s) cur = nd_next nd" using assms(3) by (simp add: nx_of_def)
  with assms(2) show ?thesis
    using assms(1)
    by (elim lf_invE; intro lf_invI)
       (auto simp: lf_load_def lf_rest_def split: option.splits lf_cpc.splits)
qed

lemma lf_inv_delete:
  assumes "lf_inv s" and pc: "ls_cpc s = SDel cur nx"
  shows "lf_inv (s\<lparr>ls_heap := (ls_heap s)(cur := None), ls_cpc := SMove nx\<rparr>)" (is "lf_inv ?s")
proof -
  from assms(1) obtain c ns where c: "lf_chain (ls_heap s) (ran (ls_pend s)) (c # ns)"
    and l: "last (c # ns) = ls_tail s" and at: "lf_at s (c # ns)"
    and i: "inj_on (ls_pend s) (dom (ls_pend s))" "\<not> ls_ub s" by (rule lf_invE)
  from at pc have cur: "c = cur" and nx: "nx_of (ls_heap s) c = Some nx" and r: "lf_rest s ns" by auto
  from lf_chain_next [OF c nx] obtain ms where ns: "ns = nx # ms" and p: "(c, nx) \<notin> ran (ls_pend s)" by blast
  have "lf_chain ((ls_heap s)(cur := None)) (ran (ls_pend s)) (nx # ms)"
    using lf_chain_delete [OF c [unfolded ns] p] cur by simp
  moreover have "cur \<notin> set ns" using c cur by (auto simp: lf_chain_def)
  then have "map (dt_of ((ls_heap s)(cur := None))) ns = map (dt_of (ls_heap s)) ns" by (auto simp: node_simps)
  with r have "lf_at ?s (nx # ms)" by (simp add: lf_rest_def ns)
  ultimately show ?thesis using l i ns by (intro lf_invI [of _ "nx # ms"]) auto
qed

lemma lf_inv_move:
  assumes "lf_inv s" and pc: "ls_cpc s = SMove cur" and nd: "ls_heap s cur = Some nd"
  shows "lf_inv (s\<lparr>ls_heap := (ls_heap s)(cur \<mapsto> nd\<lparr>nd_data := None\<rparr>), ls_out := ls_out s @ [nd_data nd],
           ls_cpc := SLoad cur\<rparr>)" (is "lf_inv ?s")
proof -
  from assms(1) obtain c ns where c: "lf_chain (ls_heap s) (ran (ls_pend s)) (c # ns)"
    and l: "last (c # ns) = ls_tail s" and at: "lf_at s (c # ns)"
    and i: "inj_on (ls_pend s) (dom (ls_pend s))" "\<not> ls_ub s" by (rule lf_invE)
  from at pc have cur: "c = cur" and r: "lf_rest s (c # ns)" by auto
  let ?h = "(ls_heap s)(cur \<mapsto> nd\<lparr>nd_data := None\<rparr>)"
  have "cur \<notin> set ns" using c cur by (auto simp: lf_chain_def)
  then have "map (dt_of ?h) ns = map (dt_of (ls_heap s)) ns" by (auto simp: node_simps)
  moreover have "dt_of (ls_heap s) cur = nd_data nd" using nd by (simp add: dt_of_def)
  ultimately have "lf_at ?s (c # ns)" using r cur by (simp add: lf_rest_def)
  then show ?thesis using lf_chain_data [OF c nd, of None] l i by (intro lf_invI [of _ "c # ns"]) simp_all
qed

lemma lf_inv_cstep:
  assumes "lf_cstep s s'" "lf_inv s" shows "lf_inv s'"
  using assms(1) lf_inv_node [OF assms(2)] assms(2)
  by cases (auto simp: lf_node_of_def intro: lf_inv_load lf_inv_delete lf_inv_move)

interpretation lf_conc: inductive_invariant lf_sys_init lf_step lf_inv
  by unfold_locales (auto intro: lf_inv_init lf_inv_pstep lf_inv_cstep elim: lf_step.cases)


section \<open>Properties of the concurrent queue\<close>

lemma lf_rest_list:
  "map Some xs = out @ ys \<Longrightarrow> \<exists>zs. ys = map Some zs \<and> out = map Some (take (length out) xs) \<and> xs = take (length out) xs @ zs"
  by (auto simp: map_eq_append_conv) 

text \<open>
  C4. Any number of threads in \<open>emplace_back\<close> beside one in \<open>swap\<close>, whatever the interleaving: no access
  hits a freed node, and what \<open>swap\<close> has moved out is a prefix of what went in, in the order of the
  exchanges on \<open>tail_\<close> (nothing lost, duplicated or reordered). Allocated are exactly the consumer's
  node and one node for each element that was not deleted yet: no node leaks.
\<close>

theorem lf_concurrent_fifo:
  assumes "reach lf_sys_init lf_step s"
  shows "\<not> ls_ub s \<and> (\<exists>rest. map Some (ls_in s) = ls_out s @ map Some rest \<and>
           card (dom (ls_heap s)) = length rest + (case ls_cpc s of SMove c \<Rightarrow> 0 | _ \<Rightarrow> 1))"
proof -
  obtain c ns where c: "lf_chain (ls_heap s) (ran (ls_pend s)) (c # ns)" and at: "lf_at s (c # ns)"
    and ub: "\<not> ls_ub s" using lf_conc.inv_reach [OF assms] by (rule lf_invE)
  have card: "card (dom (ls_heap s)) = Suc (length ns)"
    using c distinct_card [of "c # ns"] by (simp add: lf_chain_def)
  from at obtain ms where r: "map Some (ls_in s) = ls_out s @ map (dt_of (ls_heap s)) ms"
    and l: "card (dom (ls_heap s)) = length ms + (case ls_cpc s of SMove c \<Rightarrow> 0 | _ \<Rightarrow> 1)"
  proof (cases "ls_cpc s")
    case (SMove d)
    with at card show ?thesis by (intro that [of "c # ns"]) (simp_all add: lf_rest_def)
  qed (use at card in \<open>auto simp: lf_rest_def intro!: that [of ns]\<close>)
  from lf_rest_list [OF r] obtain rest where "map (dt_of (ls_heap s)) ms = map Some rest" by blast
  with r l ub show ?thesis by (metis length_map)
qed

text \<open>
  Between two calls of \<open>swap\<close>, and with no thread between its exchange and its store, the next
  \<open>swap\<close> delivers everything that is left: all elements of completed \<open>emplace_back\<close> calls not
  delivered before.
\<close>

theorem lf_quiescent_swap_complete:
  assumes "reach lf_sys_init lf_step s" "ls_cpc s = SIdle" "ls_pend s = Map.empty"
  shows "\<exists>rest q'. map Some (ls_in s) = ls_out s @ map Some rest \<and>
           lf_swap [] \<lparr>lf_heap = ls_heap s, lf_head = ls_head s, lf_tail = ls_tail s\<rparr> = Some (Inr (map Some rest, q'))"
proof -
  obtain c ns where c: "lf_chain (ls_heap s) (ran (ls_pend s)) (c # ns)" and at: "lf_at s (c # ns)"
    and l: "last (c # ns) = ls_tail s" using lf_conc.inv_reach [OF assms(1)] by (rule lf_invE)
  from at assms(2) have h: "c = ls_head s" and r: "map Some (ls_in s) = ls_out s @ map (dt_of (ls_heap s)) ns"
    by (simp_all add: lf_rest_def)
  from lf_rest_list [OF r] obtain rest where d: "map (dt_of (ls_heap s)) ns = map Some rest" by blast
  have "lf_rep \<lparr>lf_heap = ls_heap s, lf_head = ls_head s, lf_tail = ls_tail s\<rparr> rest"
    unfolding lf_rep_def using c l d h assms(3) by (intro exI [of _ ns]) simp
  from lf_swap_rep [OF this, of "[]"] r d show ?thesis by auto
qed

text \<open>
  A run: threads 1 and 2 exchange in this order, thread 2 links its node first; then thread 1 links too.
\<close>

definition lf_gap :: "nat lf_sys" where
  "lf_gap = \<lparr>ls_heap = [0 \<mapsto> \<lparr>nd_data = None, nd_next = None\<rparr>, 1 \<mapsto> \<lparr>nd_data = Some 10, nd_next = Some 2\<rparr>,
                         2 \<mapsto> \<lparr>nd_data = Some 20, nd_next = None\<rparr>],
     ls_head = 0, ls_tail = 2, ls_pend = [1 \<mapsto> (0, 1)], ls_cpc = SIdle, ls_in = [10, 20], ls_out = [], ls_ub = False\<rparr>"

definition lf_linked :: "nat lf_sys" where
  "lf_linked = lf_gap\<lparr>ls_heap := (ls_heap lf_gap)(0 \<mapsto> \<lparr>nd_data = None, nd_next = Some 1\<rparr>), ls_pend := Map.empty\<rparr>"

lemma lf_gap_reach: "reach lf_sys_init lf_step lf_gap"
proof -
  let ?s0 = "\<lparr>ls_heap = lf_heap (lf_ctor 0), ls_head = 0, ls_tail = 0, ls_pend = Map.empty,
      ls_cpc = SIdle, ls_in = [], ls_out = [], ls_ub = False\<rparr> :: nat lf_sys"
  let ?ex = "\<lambda>s a x t. s\<lparr>ls_heap := (ls_heap s)(a \<mapsto> \<lparr>nd_data = Some x, nd_next = None\<rparr>), ls_tail := a,
                 ls_pend := (ls_pend s)(t \<mapsto> (ls_tail s, a)), ls_in := ls_in s @ [x]\<rparr> :: nat lf_sys"
  let ?s1 = "?ex ?s0 1 10 1" and ?s2 = "?ex (?ex ?s0 1 10 1) 2 20 2"
  have "reach lf_sys_init lf_step ?s0" by (rule reach_init) (auto simp: lf_sys_init_def)
  then have "reach lf_sys_init lf_step ?s1"
    by (rule reach_step, intro lf_p e_exchange) (simp_all add: lf_ctor_def)
  then have "reach lf_sys_init lf_step ?s2"
    by (rule reach_step, intro lf_p e_exchange) (simp_all add: lf_ctor_def)
  moreover have "lf_gap = ?s2\<lparr>ls_heap := (ls_heap ?s2)(1 \<mapsto> \<lparr>nd_data = Some 10, nd_next = None\<rparr>\<lparr>nd_next := Some 2\<rparr>),
      ls_pend := (ls_pend ?s2)(2 := None)\<rparr>"
    by (auto simp: lf_gap_def lf_ctor_def)
  moreover have "lf_pstep ?s2 (?s2\<lparr>ls_heap := (ls_heap ?s2)(1 \<mapsto> \<lparr>nd_data = Some 10, nd_next = None\<rparr>\<lparr>nd_next := Some 2\<rparr>),
      ls_pend := (ls_pend ?s2)(2 := None)\<rparr>)"
    by (rule e_link) simp_all
  ultimately show ?thesis by (metis (no_types, lifting) reach_step lf_p)
qed

lemma lf_linked_reach: "reach lf_sys_init lf_step lf_linked"
proof -
  have "lf_pstep lf_gap (lf_gap\<lparr>ls_heap := (ls_heap lf_gap)(0 \<mapsto> \<lparr>nd_data = None, nd_next = None\<rparr>\<lparr>nd_next := Some 1\<rparr>),
      ls_pend := (ls_pend lf_gap)(1 := None)\<rparr>)"
    by (rule e_link) (simp_all add: lf_gap_def)
  moreover have "(ls_pend lf_gap)(1 := None) = Map.empty" by (simp add: lf_gap_def)
  ultimately show ?thesis
    using lf_gap_reach by (auto intro: reach_step lf_p simp: lf_linked_def)
qed

theorem lf_concurrent_fifo_witness:
  "\<not> ls_ub lf_gap \<and> (\<exists>rest. map Some [10, 20 :: nat] = [] @ map Some rest \<and> card (dom (ls_heap lf_gap)) = length rest + 1)"
  using lf_concurrent_fifo [OF lf_gap_reach] by (simp add: lf_gap_def)

theorem lf_quiescent_swap_complete_witness:
  "\<exists>rest q'. map Some [10, 20 :: nat] = map Some rest \<and>
     lf_swap [] \<lparr>lf_heap = ls_heap lf_linked, lf_head = 0, lf_tail = 2\<rparr> = Some (Inr (map Some rest, q'))"
  using lf_quiescent_swap_complete [OF lf_linked_reach] by (simp add: lf_linked_def lf_gap_def)

text \<open>
  The queue is not lock-free for the consumer: while one producer is stopped between its exchange and its
  store, the elements of producers that came later and have returned from \<open>emplace_back\<close> stay
  invisible: \<open>swap\<close> returns nothing although 20 was pushed completely.
\<close>

theorem lf_stalled_producer_hides:
  "\<exists>s :: nat lf_sys. reach lf_sys_init lf_step s \<and> ls_in s = [10, 20] \<and> ls_out s = [] \<and>
     ls_pend s = [1 \<mapsto> (0, 1)] \<and>
     (\<exists>q'. lf_swap [] \<lparr>lf_heap = ls_heap s, lf_head = ls_head s, lf_tail = ls_tail s\<rparr> = Some (Inr ([], q')))"
proof (intro exI [of _ lf_gap] conjI lf_gap_reach)
  show "\<exists>q'. lf_swap [] \<lparr>lf_heap = ls_heap lf_gap, lf_head = ls_head lf_gap, lf_tail = ls_tail lf_gap\<rparr> =
      Some (Inr ([], q'))"
    by (simp add: lf_gap_def lf_swap_def lf_swap_loop.simps)
qed (simp_all add: lf_gap_def)

end
