(* ===== verification/Manager.thy ===== *)
theory Manager
  imports Prelude
begin

text \<open>
  \<^verbatim>\<open>inc/AutoId.h\<close>, \<^verbatim>\<open>inc/IConsumer.h\<close>, \<^verbatim>\<open>inc/IManager.h\<close>, \<^verbatim>\<open>inc/IPrometheus.h\<close> and
  \<^verbatim>\<open>inc/promethues-simple-server.h\<close>: object identities, the life cycle of a manager and its thread, and
  the metrics calls. The metrics library is not part of the repository; the calls made to it are recorded,
  and the pointers it returns are arguments. The first part has \<open>Run\<close>, \<open>Stop\<close> and the destructor as the
  owner sees them; the second runs the manager's thread beside the owner.
\<close>

section \<open>Identities\<close>

text \<open>\<open>id{counter.fetch_add(1)}\<close>; the 32-bit counter is atomic and wraps.\<close>

definition AutoId :: "u32 \<Rightarrow> u32 \<times> u32" where
  "AutoId counter = (counter, counter + 1)"

fun AutoIds :: "nat \<Rightarrow> u32 \<Rightarrow> u32 list \<times> u32" where
  "AutoIds 0 counter = ([], counter)"
| "AutoIds (Suc n) counter =
     (let (i, counter) = AutoId counter; (is, counter) = AutoIds n counter in (i # is, counter))"

lemma AutoIds_eq: "AutoIds n c = (map (\<lambda>i. c + of_nat i) [0..<n], c + of_nat n)"
proof (induction n arbitrary: c)
  case (Suc n)
  have "map (\<lambda>i. c + of_nat i) [0..<Suc n] = c # map (\<lambda>i. c + 1 + of_nat i) [0..<n]"
    by (simp add: upt_conv_Cons map_Suc_upt [symmetric] comp_def add.assoc del: upt_Suc)
  with Suc show ?case by (simp add: AutoId_def add.assoc)
qed simp

text \<open>
  Up to \<open>2 ^ 32\<close> objects have pairwise different identities, so the router's test
  \<open>consumer->GetAutoId() != producer->GetAutoId()\<close> compares objects.
\<close>

theorem AutoId_distinct:
  assumes "n \<le> 2 ^ 32" shows "distinct (fst (AutoIds n counter)) \<and> length (fst (AutoIds n counter)) = n"
proof -
  have "inj_on (\<lambda>i. counter + (of_nat i :: u32)) {0..<n}"
  proof (rule inj_onI)
    fix i j assume ij: "i \<in> {0..<n}" "j \<in> {0..<n}" and "counter + of_nat i = counter + (of_nat j :: u32)"
    then have "unat (of_nat i :: u32) = unat (of_nat j :: u32)" by simp
    then show "i = j" using ij assms by (simp only: unat_of_nat) simp
  qed
  then show ?thesis by (simp add: AutoIds_eq distinct_map)
qed

theorem AutoId_distinct_witness: "distinct (fst (AutoIds 3 (- 1))) \<and> length (fst (AutoIds 3 (- 1))) = 3"
  using AutoId_distinct [of 3 "- 1"] by simp

section \<open>Consumers and metrics\<close>

text \<open>The default \<open>Consume1\<close> hands a batch on, one event at a time.\<close>

fun Consume1 :: "('e \<Rightarrow> 'm \<Rightarrow> 'm) \<Rightarrow> 'e list \<Rightarrow> 'm \<Rightarrow> 'm" where
  "Consume1 Consume [] m = m"
| "Consume1 Consume (event # events) m = Consume1 Consume events (Consume event m)"

datatype prom_call =
    AddCounter string string    \<comment> \<open>\<open>BuildCounter().Name(name).Help(help).Register(*registry)\<close> and \<open>Add({})\<close>\<close>
  | IncrementCounter nat

section \<open>The owner's view\<close>

record imanager =
  im_prometheus :: bool                \<comment> \<open>\<open>_prometheus\<close> is not null\<close>
  im_eventRxCounter :: "nat option"
  im_eventTxCounter :: "nat option"
  im_eventTxDroppedCounter :: "nat option"
  im_joinable :: bool                  \<comment> \<open>\<open>_thread.joinable()\<close>\<close>
  im_running :: bool

definition im_ctor :: imanager where
  "im_ctor = \<lparr>im_prometheus = False, im_eventRxCounter = None, im_eventTxCounter = None,
     im_eventTxDroppedCounter = None, im_joinable = False, im_running = True\<rparr>"

definition SetPrometheus :: "bool \<Rightarrow> imanager \<Rightarrow> imanager" where
  "SetPrometheus prom m = m\<lparr>im_prometheus := prom\<rparr>"

text \<open>
  \<open>Run\<close>: three counters are added (\<open>p1\<close>, \<open>p2\<close>, \<open>p3\<close> are the pointers returned), then a thread is started
  and assigned to \<open>_thread\<close>; assigning to a joinable \<open>std::thread\<close> calls \<open>std::terminate\<close>.
\<close>

definition im_Run :: "string \<Rightarrow> nat \<Rightarrow> nat \<Rightarrow> nat \<Rightarrow> imanager \<Rightarrow> (imanager \<times> prom_call list) result" where
  "im_Run threadName p1 p2 p3 m =
     (if \<not> im_prometheus m then Inl (UndefinedBehaviour ''_prometheus->AddCounter'')
      else
        let calls =
              [AddCounter (''eventRx'' @ threadName) ''Total number of times the manager has received events'',
               AddCounter (''eventTx'' @ threadName) ''Total number of times the manager has transmitted events'',
               AddCounter (''eventTxDropped'' @ threadName)
                 ''Total number of times the manager has dropped events due to full queue''];
            m = m\<lparr>im_eventRxCounter := Some p1, im_eventTxCounter := Some p2, im_eventTxDroppedCounter := Some p3\<rparr>
        in if im_joinable m then Inl Terminated else Inr (m\<lparr>im_joinable := True\<rparr>, calls))"

text \<open>\<open>Stop\<close>, once the thread it joins has ended.\<close>

definition im_Stop :: "imanager \<Rightarrow> imanager" where
  "im_Stop m = (let m = m\<lparr>im_running := False\<rparr> in if im_joinable m then m\<lparr>im_joinable := False\<rparr> else m)"

text \<open>
  \<open>~IManager\<close> only looks at the flag; the member \<open>_thread\<close> is destroyed next, and the destructor of a
  joinable \<open>std::thread\<close> calls \<open>std::terminate\<close>.
\<close>

definition im_dtor :: "imanager \<Rightarrow> unit result" where
  "im_dtor m = (if im_joinable m then Inl Terminated else Inr ())"

text \<open>Any sequence of the owner's calls, up to the first that does not return.\<close>

datatype owner_call = OSetPrometheus bool | ORun string nat nat nat | OStop

fun im_call :: "owner_call \<Rightarrow> imanager \<Rightarrow> (imanager \<times> prom_call list) result" where
  "im_call (OSetPrometheus prom) m = Inr (SetPrometheus prom m, [])"
| "im_call (ORun threadName p1 p2 p3) m = im_Run threadName p1 p2 p3 m"
| "im_call OStop m = Inr (im_Stop m, [])"

fun im_calls :: "owner_call list \<Rightarrow> imanager \<Rightarrow> (imanager \<times> prom_call list) result" where
  "im_calls [] m = Inr (m, [])"
| "im_calls (c # cs) m =
     (case im_call c m of Inl e \<Rightarrow> Inl e | Inr (m, calls) \<Rightarrow> map_sum id (apsnd ((@) calls)) (im_calls cs m))"

text \<open>
  What the history of calls alone says: was the last \<open>SetPrometheus\<close> given a server, and is the last of the calls of
  \<open>Run\<close> and \<open>Stop\<close> a \<open>Run\<close>?
\<close>

definition attached :: "owner_call list \<Rightarrow> bool" where
  "attached cs = fold (\<lambda>c b. case c of OSetPrometheus p \<Rightarrow> p | _ \<Rightarrow> b) cs False"

definition thread_live :: "owner_call list \<Rightarrow> bool" where
  "thread_live cs = fold (\<lambda>c b. case c of ORun _ _ _ _ \<Rightarrow> True | OStop \<Rightarrow> False | _ \<Rightarrow> b) cs False"

definition is_run :: "owner_call \<Rightarrow> bool" where
  "is_run c = (case c of ORun _ _ _ _ \<Rightarrow> True | _ \<Rightarrow> False)"

lemmas history_defs = attached_def thread_live_def is_run_def

lemma im_calls_append:
  "im_calls (cs @ ds) m =
     (case im_calls cs m of Inl e \<Rightarrow> Inl e | Inr (m, calls) \<Rightarrow> map_sum id (apsnd ((@) calls)) (im_calls ds m))"
  by (induction cs arbitrary: m)
    (auto simp: map_sum_def apsnd_def map_prod_def split: sum.splits prod.splits)

lemma im_calls_snoc:
  "im_calls (cs @ [c]) m =
     (case im_calls cs m of Inl e \<Rightarrow> Inl e | Inr (m, calls) \<Rightarrow> map_sum id (apsnd ((@) calls)) (im_call c m))"
  by (auto simp: im_calls_append split: sum.splits prod.splits)

lemma im_calls_state:
  "im_calls cs im_ctor = Inr (m, calls) \<Longrightarrow>
    (im_prometheus m \<longleftrightarrow> attached cs) \<and> (im_joinable m \<longleftrightarrow> thread_live cs) \<and> (im_running m \<longleftrightarrow> OStop \<notin> set cs) \<and>
    length calls = 3 * length (filter is_run cs)"
proof (induction cs arbitrary: m calls rule: rev_induct)
  case Nil
  then show ?case by (auto simp: im_ctor_def history_defs)
next
  case (snoc c cs)
  then obtain n calls1 where n: "im_calls cs im_ctor = Inr (n, calls1)" by (auto simp: im_calls_snoc split: sum.splits)
  from snoc.IH [OF n] snoc.prems n show ?case
    by (cases c) (auto simp: im_calls_snoc history_defs im_Run_def im_Stop_def SetPrometheus_def Let_def split: if_splits)
qed

lemma im_calls_fail:
  "im_calls cs im_ctor = Inl e \<Longrightarrow>
    \<exists>pre name p1 p2 p3 post m calls. cs = pre @ ORun name p1 p2 p3 # post \<and> im_calls pre im_ctor = Inr (m, calls) \<and>
      (if attached pre then thread_live pre \<and> e = Terminated else e = UndefinedBehaviour ''_prometheus->AddCounter'')"
proof (induction cs rule: rev_induct)
  case (snoc c cs)
  show ?case
  proof (cases "im_calls cs im_ctor")
    case (Inl e')
    with snoc have "\<exists>pre name p1 p2 p3 post m calls. cs = pre @ ORun name p1 p2 p3 # post \<and> im_calls pre im_ctor = Inr (m, calls) \<and>
      (if attached pre then thread_live pre \<and> e = Terminated else e = UndefinedBehaviour ''_prometheus->AddCounter'')"
      by (simp add: im_calls_snoc)
    then show ?thesis by (metis append.assoc append_Cons)
  next
    case (Inr r)
    then obtain m calls where r: "im_calls cs im_ctor = Inr (m, calls)" by (cases r) auto
    with snoc.prems obtain name p1 p2 p3 where c: "c = ORun name p1 p2 p3" by (cases c) (auto simp: im_calls_snoc)
    from im_calls_state [OF r] snoc.prems r show ?thesis
      by (intro exI [of _ cs] exI [of _ name] exI [of _ p1] exI [of _ p2] exI [of _ p3] exI [of _ "[]"] exI [of _ m] exI [of _ calls])
        (auto simp: im_calls_snoc c im_Run_def Let_def split: if_splits)
  qed
qed simp

text \<open>
  C28. The life cycle, for every sequence of \<open>SetPrometheus\<close>, \<open>Run\<close> and \<open>Stop\<close> on a new manager. The sequence returns
  exactly when every \<open>Run\<close> in it finds a metrics server set and no thread left from an earlier \<open>Run\<close>; otherwise the first
  \<open>Run\<close> that does not fails, dereferencing the null pointer without a server and terminating the program with a running
  thread. After a sequence that returns, the destructor terminates the program exactly when the last of the calls of \<open>Run\<close> and
  \<open>Stop\<close> is a \<open>Run\<close> (the documentation speaks of a logged error), one more \<open>Stop\<close> makes it safe, each \<open>Run\<close> has added
  three counters, and the flag the thread's loop tests is up exactly when \<open>Stop\<close> was never called: a \<open>Run\<close> after a \<open>Stop\<close>
  starts a thread whose loop ends at once.
\<close>

theorem im_lifecycle:
  "case im_calls cs im_ctor of
     Inl e \<Rightarrow> \<exists>pre name p1 p2 p3 post m calls. cs = pre @ ORun name p1 p2 p3 # post \<and> im_calls pre im_ctor = Inr (m, calls) \<and>
       (if attached pre then thread_live pre \<and> e = Terminated else e = UndefinedBehaviour ''_prometheus->AddCounter'')
   | Inr (m, calls) \<Rightarrow>
       (\<forall>pre name p1 p2 p3 post. cs = pre @ ORun name p1 p2 p3 # post \<longrightarrow> attached pre \<and> \<not> thread_live pre) \<and>
       (im_running m \<longleftrightarrow> OStop \<notin> set cs) \<and> length calls = 3 * length (filter is_run cs) \<and>
       im_dtor m = (if thread_live cs then Inl Terminated else Inr ()) \<and> im_dtor (im_Stop m) = Inr ()"
proof (cases "im_calls cs im_ctor")
  case (Inl e)
  then show ?thesis using im_calls_fail [OF Inl] by simp
next
  case (Inr r)
  then obtain m calls where r: "im_calls cs im_ctor = Inr (m, calls)" by (cases r) auto
  have "attached pre \<and> \<not> thread_live pre" if cs: "cs = pre @ ORun name p1 p2 p3 # post" for pre name p1 p2 p3 post
  proof -
    have "im_calls (pre @ [ORun name p1 p2 p3] @ post) im_ctor = Inr (m, calls)" using r cs by simp
    then obtain m1 calls1 where m1: "im_calls (pre @ [ORun name p1 p2 p3]) im_ctor = Inr (m1, calls1)"
      using im_calls_append by (auto split: sum.splits)
    then obtain m0 calls0 where m0: "im_calls pre im_ctor = Inr (m0, calls0)" by (auto simp: im_calls_snoc split: sum.splits)
    with m1 im_calls_state [OF m0] show ?thesis by (auto simp: im_calls_snoc im_Run_def Let_def split: if_splits)
  qed
  then show ?thesis using im_calls_state [OF r] r by (auto simp: im_dtor_def im_Stop_def Let_def)
qed

theorem im_lifecycle_witness:
  "(\<exists>m calls. im_calls [OSetPrometheus True, ORun ''ManagerA'' 1 2 3, OStop, OStop] im_ctor = Inr (m, calls) \<and>
      \<not> im_running m \<and> length calls = 3 \<and> im_dtor m = Inr ()) \<and>
   im_calls [OSetPrometheus True, ORun ''ManagerA'' 1 2 3, ORun ''ManagerA'' 1 2 3] im_ctor = Inl Terminated"
proof -
  have "\<exists>m calls. im_calls [OSetPrometheus True, ORun ''ManagerA'' 1 2 3, OStop, OStop] im_ctor = Inr (m, calls)"
    by (simp add: im_Run_def im_Stop_def im_ctor_def SetPrometheus_def Let_def)
  then obtain m calls where r: "im_calls [OSetPrometheus True, ORun ''ManagerA'' 1 2 3, OStop, OStop] im_ctor = Inr (m, calls)" by blast
  have "im_calls [OSetPrometheus True, ORun ''ManagerA'' 1 2 3, ORun ''ManagerA'' 1 2 3] im_ctor = Inl Terminated"
    by (simp add: im_Run_def im_Stop_def im_ctor_def SetPrometheus_def Let_def)
  with im_lifecycle [of "[OSetPrometheus True, ORun ''ManagerA'' 1 2 3, OStop, OStop]"] r show ?thesis
    by (auto simp: history_defs)
qed

section \<open>The thread beside its owner\<close>

datatype thread_pc =
    TNone      \<comment> \<open>not started\<close>
  | TPre       \<comment> \<open>before \<open>_preRunImpl()\<close>\<close>
  | TLoad      \<comment> \<open>before \<open>_running.load()\<close>\<close>
  | TCall      \<comment> \<open>the load returned true\<close>
  | TBody      \<comment> \<open>inside \<open>_runImpl()\<close>\<close>
  | TEnd       \<comment> \<open>the thread function has returned\<close>

datatype owner_pc =
    OIdle
  | OJoin      \<comment> \<open>in \<open>Stop\<close>, in \<open>_thread.join()\<close>\<close>
  | OStopped   \<comment> \<open>\<open>Stop\<close> has returned\<close>

record mgr_sys =
  ms_running :: bool
  ms_thread :: thread_pc
  ms_joinable :: bool
  ms_owner :: owner_pc
  ms_pre :: nat        \<comment> \<open>calls of \<open>_preRunImpl\<close>\<close>
  ms_runs :: nat       \<comment> \<open>calls of \<open>_runImpl\<close>\<close>
  ms_late :: nat       \<comment> \<open>calls of \<open>_runImpl\<close> that began after the flag was cleared\<close>

definition mgr_init :: "mgr_sys \<Rightarrow> bool" where
  "mgr_init s \<longleftrightarrow> s = \<lparr>ms_running = True, ms_thread = TNone, ms_joinable = False, ms_owner = OIdle,
     ms_pre = 0, ms_runs = 0, ms_late = 0\<rparr>"

text \<open>
  \<open>ms_late\<close> counts a call of \<open>_runImpl\<close> that is entered although the flag is already down: the load and the
  call are two steps of the thread.
\<close>

inductive thread_step :: "mgr_sys \<Rightarrow> mgr_sys \<Rightarrow> bool" where
  t_pre: "ms_thread s = TPre \<Longrightarrow> thread_step s (s\<lparr>ms_thread := TLoad, ms_pre := Suc (ms_pre s)\<rparr>)"
| t_load: "ms_thread s = TLoad \<Longrightarrow> ms_running s \<Longrightarrow> thread_step s (s\<lparr>ms_thread := TCall\<rparr>)"
| t_call: "ms_thread s = TCall \<Longrightarrow> thread_step s (s\<lparr>ms_thread := TBody, ms_runs := Suc (ms_runs s),
    ms_late := (if ms_running s then ms_late s else Suc (ms_late s))\<rparr>)"
| t_return: "ms_thread s = TBody \<Longrightarrow> thread_step s (s\<lparr>ms_thread := TLoad\<rparr>)"
| t_exit: "ms_thread s = TLoad \<Longrightarrow> \<not> ms_running s \<Longrightarrow> thread_step s (s\<lparr>ms_thread := TEnd\<rparr>)"

inductive owner_step :: "mgr_sys \<Rightarrow> mgr_sys \<Rightarrow> bool" where
  o_run: "ms_owner s = OIdle \<Longrightarrow> \<not> ms_joinable s \<Longrightarrow> ms_thread s = TNone \<Longrightarrow>
    owner_step s (s\<lparr>ms_thread := TPre, ms_joinable := True\<rparr>)"
| o_stop: "ms_owner s \<noteq> OJoin \<Longrightarrow>
    owner_step s (s\<lparr>ms_running := False, ms_owner := if ms_joinable s then OJoin else OStopped\<rparr>)"
| o_join: "ms_owner s = OJoin \<Longrightarrow> ms_thread s = TEnd \<Longrightarrow>
    owner_step s (s\<lparr>ms_joinable := False, ms_owner := OStopped\<rparr>)"

inductive mgr_step :: "mgr_sys \<Rightarrow> mgr_sys \<Rightarrow> bool" where
  by_thread: "thread_step s t \<Longrightarrow> mgr_step s t"
| by_owner: "owner_step s t \<Longrightarrow> mgr_step s t"

inductive_cases thread_stepE: "thread_step s t"
inductive_cases owner_stepE: "owner_step s t"

definition mgr_inv :: "mgr_sys \<Rightarrow> bool" where
  "mgr_inv s \<longleftrightarrow>
     (ms_joinable s \<longleftrightarrow> ms_thread s \<noteq> TNone \<and> ms_owner s \<noteq> OStopped) \<and>
     (ms_owner s = OStopped \<longrightarrow> ms_thread s = TNone \<or> ms_thread s = TEnd) \<and>
     (ms_running s \<longleftrightarrow> ms_owner s = OIdle) \<and>
     (ms_owner s = OJoin \<longrightarrow> ms_thread s \<noteq> TNone) \<and>
     ms_pre s = (if ms_thread s = TNone \<or> ms_thread s = TPre then 0 else 1) \<and>
     (ms_pre s = 0 \<longrightarrow> ms_runs s = 0) \<and>
     ms_late s \<le> (if ms_running s \<or> ms_thread s = TCall then 0 else 1)"

lemma mgr_inv_thread: "thread_step s t \<Longrightarrow> mgr_inv s \<Longrightarrow> mgr_inv t"
  by (erule thread_stepE) (auto simp: mgr_inv_def split: if_splits)

lemma mgr_inv_owner: "owner_step s t \<Longrightarrow> mgr_inv s \<Longrightarrow> mgr_inv t"
  by (erule owner_stepE) (auto simp: mgr_inv_def split: if_splits)

interpretation mgr: inductive_invariant mgr_init mgr_step mgr_inv
proof
  show "mgr_inv s" if "mgr_init s" for s using that by (simp add: mgr_init_def mgr_inv_def)
  show "mgr_inv t" if "mgr_inv s" "mgr_step s t" for s t
    using that(2,1) by (cases rule: mgr_step.cases) (auto intro: mgr_inv_thread mgr_inv_owner)
qed

text \<open>
  C24. In every interleaving: once \<open>Stop\<close> has returned, the thread is over (or was never started), is no longer
  joinable and takes no further step; \<open>_preRunImpl\<close> has run once before any \<open>_runImpl\<close>; and at most one call of
  \<open>_runImpl\<close> begins after \<open>Stop\<close> cleared the flag.
\<close>

theorem stop_stops:
  assumes "reach mgr_init mgr_step s"
  shows "(ms_owner s = OStopped \<longrightarrow> ms_thread s \<in> {TNone, TEnd} \<and> \<not> ms_joinable s \<and> (\<nexists>t. thread_step s t)) \<and>
    (0 < ms_runs s \<longrightarrow> ms_pre s = 1) \<and> ms_late s \<le> 1"
  using mgr.inv_reach [OF assms] by (auto simp: mgr_inv_def elim!: thread_stepE split: if_splits)

text \<open>The thread, alone, with the flag down.\<close>

fun thread_left :: "thread_pc \<Rightarrow> nat" where
  "thread_left TNone = 0"
| "thread_left TEnd = 0"
| "thread_left TLoad = 1"
| "thread_left TPre = 2"
| "thread_left TBody = 2"
| "thread_left TCall = 3"

lemma thread_left_step:
  "thread_step s t \<Longrightarrow> \<not> ms_running s \<Longrightarrow> thread_left (ms_thread s) = Suc (thread_left (ms_thread t)) \<and> \<not> ms_running t"
  by (erule thread_stepE) auto

lemma thread_left_zero:
  assumes "ms_thread s \<noteq> TNone" "\<nexists>t. thread_step s t" shows "ms_thread s = TEnd"
  using assms by (cases "ms_thread s"; cases "ms_running s") (auto intro: thread_step.intros)

lemma thread_left_steps:
  "(thread_step ^^ n) s t \<Longrightarrow> \<not> ms_running s \<Longrightarrow> n \<le> thread_left (ms_thread s) \<and> \<not> ms_running t"
proof (induction n arbitrary: s)
  case (Suc n)
  from Suc.prems(1) obtain u where "thread_step s u" "(thread_step ^^ n) u t" by (metis relpowp_Suc_D2)
  with Suc.IH [of u] thread_left_step [of s u] Suc.prems(2) show ?case by auto
qed simp

text \<open>
  \<open>Stop\<close> returns, provided \<open>_preRunImpl\<close> and \<open>_runImpl\<close> do: once the flag is down the thread takes at most
  three more steps, and when it can take none while the owner waits in \<open>join\<close>, the owner's join succeeds.
\<close>

theorem stop_returns:
  assumes "reach mgr_init mgr_step s" "ms_owner s = OJoin" "(thread_step ^^ n) s t"
  shows "n \<le> 3 \<and> ((\<nexists>u. thread_step t u) \<longrightarrow> ms_thread t = TEnd \<and> (\<exists>u. owner_step t u \<and> ms_owner u = OStopped))"
proof
  from mgr.inv_reach [OF assms(1)] assms(2) have r: "\<not> ms_running s" by (simp add: mgr_inv_def)
  have "thread_left (ms_thread s) \<le> 3" by (cases "ms_thread s") auto
  with thread_left_steps [OF assms(3) r] show "n \<le> 3" by simp
  have keep: "ms_owner u = ms_owner s \<and> ms_thread u \<noteq> TNone" if "(thread_step ^^ n) s u" "ms_thread s \<noteq> TNone" for n s u
    using that
  proof (induction n arbitrary: u)
    case (Suc n)
    then show ?case by (auto elim!: thread_stepE)
  qed simp
  have "ms_thread s \<noteq> TNone" using mgr.inv_reach [OF assms(1)] assms(2) by (simp add: mgr_inv_def)
  from keep [OF assms(3) this] assms(2) have t: "ms_owner t = OJoin" "ms_thread t \<noteq> TNone" by auto
  show "(\<nexists>u. thread_step t u) \<longrightarrow> ms_thread t = TEnd \<and> (\<exists>u. owner_step t u \<and> ms_owner u = OStopped)"
    using thread_left_zero [OF t(2)] o_join [OF t(1)] by fastforce
qed

text \<open>A run: \<open>Run\<close>, the thread gets into \<open>_runImpl\<close>, then the owner calls \<open>Stop\<close>.\<close>

definition mgr_demo :: mgr_sys where
  "mgr_demo = \<lparr>ms_running = False, ms_thread = TBody, ms_joinable = True, ms_owner = OJoin,
     ms_pre = 1, ms_runs = 1, ms_late = 0\<rparr>"

lemma mgr_demo_reach: "reach mgr_init mgr_step mgr_demo"
proof -
  let ?s = "\<lambda>r th j ow p n. \<lparr>ms_running = r, ms_thread = th, ms_joinable = j, ms_owner = ow, ms_pre = p, ms_runs = n, ms_late = 0\<rparr>"
  have "reach mgr_init mgr_step (?s True TNone False OIdle 0 0)" by (rule reach_init) (simp add: mgr_init_def)
  then have "reach mgr_init mgr_step (?s True TPre True OIdle 0 0)"
    by (rule reach_step) (rule by_owner, use o_run [of "?s True TNone False OIdle 0 0"] in simp)
  then have "reach mgr_init mgr_step (?s True TLoad True OIdle 1 0)"
    by (rule reach_step) (rule by_thread, use t_pre [of "?s True TPre True OIdle 0 0"] in simp)
  then have "reach mgr_init mgr_step (?s True TCall True OIdle 1 0)"
    by (rule reach_step) (rule by_thread, use t_load [of "?s True TLoad True OIdle 1 0"] in simp)
  then have "reach mgr_init mgr_step (?s True TBody True OIdle 1 1)"
    by (rule reach_step) (rule by_thread, use t_call [of "?s True TCall True OIdle 1 0"] in simp)
  then have "reach mgr_init mgr_step (?s False TBody True OJoin 1 1)"
    by (rule reach_step) (rule by_owner, use o_stop [of "?s True TBody True OIdle 1 1"] in simp)
  then show ?thesis by (simp add: mgr_demo_def)
qed

theorem stop_stops_witness: "0 < ms_runs mgr_demo \<and> ms_pre mgr_demo = 1 \<and> ms_late mgr_demo \<le> 1"
  using stop_stops [OF mgr_demo_reach] by (simp add: mgr_demo_def)

theorem stop_returns_witness:
  "(thread_step ^^ 1) mgr_demo (mgr_demo\<lparr>ms_thread := TLoad\<rparr>) \<and> (1 :: nat) \<le> 3"
proof -
  have "thread_step mgr_demo (mgr_demo\<lparr>ms_thread := TLoad\<rparr>)" by (rule t_return) (simp add: mgr_demo_def)
  then have s: "(thread_step ^^ 1) mgr_demo (mgr_demo\<lparr>ms_thread := TLoad\<rparr>)" by (simp only: relpowp_1)
  from stop_returns [OF mgr_demo_reach _ s] s show ?thesis by (simp add: mgr_demo_def del: relpowp.simps)
qed

end
