(* ===== verification/Router.thy ===== *)
theory Router
  imports SPSCQueue PipedEvent Manager
begin

text \<open>
  \<^verbatim>\<open>app12.cpp\<close>: typed events, the three managers and the event router. A manager owns a transmit queue
  (\<^verbatim>\<open>SPSCQueue\<close>) and a signal (\<^verbatim>\<open>PipedEvent\<close>); the router watches the signals with \<open>epoll\<close>, takes a
  manager's events with \<open>Produce\<close> and hands a clone of each to every other live manager registered for its
  type. The objects live in a map from references (\<open>std::shared_ptr\<close>) to managers; a weak pointer that
  no longer locks is a reference without an object. Results of \<open>epoll\<close> calls are arguments.
\<close>

section \<open>Events\<close>

datatype event_type = STATUS | CONTROL | ERROR | SERIAL

datatype event =
    StatusEvent int string
  | ControlEvent int string
  | SerialEvent "u8 list"

fun event_type_of :: "event \<Rightarrow> event_type" where
  "event_type_of (StatusEvent _ _) = STATUS"
| "event_type_of (ControlEvent _ _) = CONTROL"
| "event_type_of (SerialEvent _) = SERIAL"

fun event_target :: "event \<Rightarrow> int" where
  "event_target (StatusEvent t _) = t"
| "event_target (ControlEvent t _) = t"
| "event_target (SerialEvent _) = 0"

fun Clone :: "event \<Rightarrow> event" where
  "Clone (StatusEvent t json) = (let copy = json in StatusEvent t copy)"
| "Clone (ControlEvent t json) = (let copy = json in ControlEvent t copy)"
| "Clone (SerialEvent data) = (let copy = data in SerialEvent copy)"

text \<open>\<open>num\<close> is how \<open>fmt::format\<close> prints an integer.\<close>

fun type_number :: "event_type \<Rightarrow> int" where
  "type_number STATUS = 0"
| "type_number CONTROL = 1"
| "type_number ERROR = 2"
| "type_number SERIAL = 3"

definition Event_to_string :: "(int \<Rightarrow> string) \<Rightarrow> event \<Rightarrow> string" where
  "Event_to_string num e =
     ''Event{type:'' @ num (type_number (event_type_of e)) @ '', target:'' @ num (event_target e) @ ''}''"

fun event_to_string :: "(int \<Rightarrow> string) \<Rightarrow> event \<Rightarrow> string" where
  "event_to_string num (StatusEvent t json) =
     ''StatusEvent{'' @ Event_to_string num (StatusEvent t json) @ '', json:'' @ json @ ''}''"
| "event_to_string num (ControlEvent t json) =
     ''ControlEvent{'' @ Event_to_string num (ControlEvent t json) @ '', json:'' @ json @ ''}''"
| "event_to_string num (SerialEvent data) =
     ''SerialEvent{'' @ Event_to_string num (SerialEvent data) @ '', data_size:'' @ num (int (length data)) @ ''}''"

section \<open>Managers\<close>

text \<open>
  \<open>mg_tx\<close>, \<open>mg_dropped\<close> and \<open>mg_rx\<close> count the calls of \<open>IncrementCounter\<close> on the three counters; \<open>mg_log\<close> is what
  \<open>Consume\<close> has printed.
\<close>

record manager =
  mg_auto :: u32
  mg_event :: piped_event
  mg_pipe :: kpipe
  mg_queue :: "event spsc_queue"
  mg_counter :: u32
  mg_tx :: nat
  mg_dropped :: nat
  mg_rx :: nat
  mg_log :: "event list"

definition mg_GetSources :: "manager \<Rightarrow> int" where
  "mg_GetSources m = pe_GetSource (mg_event m)"

text \<open>The common end of every \<open>_runImpl\<close>: offer the event, count it and signal, or count it as dropped.\<close>

definition mg_send :: "event \<Rightarrow> manager \<Rightarrow> manager result option" where
  "mg_send event m =
     (case spsc_try_emplace event (mg_queue m) of
        Inl err \<Rightarrow> Some (Inl err)
      | Inr (b, q) \<Rightarrow>
          if b then
            map_option (map_sum id (\<lambda>(ev, k). m\<lparr>mg_queue := q, mg_tx := Suc (mg_tx m), mg_event := ev, mg_pipe := k\<rparr>))
              (pe_Fire (mg_event m) (mg_pipe m))
          else Some (Inr (m\<lparr>mg_queue := q, mg_dropped := Suc (mg_dropped m)\<rparr>)))"

definition status_ok :: string where
  "status_ok = ''{'' @ [CHR 0x22] @ ''status'' @ [CHR 0x22] @ '':'' @ [CHR 0x22] @ ''ok'' @ [CHR 0x22] @ ''}''"

definition a_runImpl :: "manager \<Rightarrow> manager result option" where
  "a_runImpl m =
     (let c = mg_counter m; m = m\<lparr>mg_counter := c + 1\<rparr>
      in if c mod 2 = 0 then mg_send (StatusEvent 0 status_ok) m else mg_send (SerialEvent [0, 1, 2, 3]) m)"

definition b_runImpl :: "manager \<Rightarrow> manager result option" where
  "b_runImpl m = mg_send (SerialEvent [0, 1, 2, 3]) m"

definition c_runImpl :: "manager \<Rightarrow> manager result option" where
  "c_runImpl m = mg_send (ControlEvent 0 status_ok) m"

definition a_WillConsume :: "event_type list" where
  "a_WillConsume = [CONTROL, SERIAL]"

definition b_WillConsume :: "event_type list" where
  "b_WillConsume = [SERIAL]"

definition c_WillConsume :: "event_type list" where
  "c_WillConsume = [STATUS]"

definition mg_Consume :: "event \<Rightarrow> manager \<Rightarrow> manager" where
  "mg_Consume event m = m\<lparr>mg_rx := Suc (mg_rx m), mg_log := mg_log m @ [event]\<rparr>"

text \<open>The loop \<open>while (txQueue.empty() == false) { events.push_back(std::move(*txQueue.front())); txQueue.pop(); }\<close>.\<close>

partial_function (option) mg_drain ::
    "event list \<Rightarrow> event spsc_queue \<Rightarrow> (event list \<times> event spsc_queue) result option" where
  "mg_drain events q =
     (if spsc_empty q then Some (Inr (events, q))
      else case spsc_front q of
             (None, q) \<Rightarrow> Some (Inl (UndefinedBehaviour ''*front()''))
           | (Some p, q) \<Rightarrow>
               (case spsc_deref p q of
                  Inl err \<Rightarrow> Some (Inl err)
                | Inr event \<Rightarrow>
                    (case spsc_pop q of
                       Inl err \<Rightarrow> Some (Inl err)
                     | Inr q \<Rightarrow> mg_drain (events @ [event]) q)))"

definition mg_Produce :: "manager \<Rightarrow> (event list \<times> manager) result option" where
  "mg_Produce m =
     (case pe_Consume (mg_event m) (mg_pipe m) of
        None \<Rightarrow> None
      | Some (Inl err) \<Rightarrow> Some (Inl err)
      | Some (Inr (ev, k)) \<Rightarrow>
          map_option (map_sum id (\<lambda>(events, q). (events, m\<lparr>mg_event := ev, mg_pipe := k, mg_queue := q\<rparr>)))
            (mg_drain [] (mg_queue m)))"

section \<open>The router\<close>

record event_router =
  er_fd :: int
  er_producers :: "int \<rightharpoonup> nat"
  er_consumers :: "event_type \<rightharpoonup> nat list"

type_synonym objects = "nat \<rightharpoonup> manager"

definition er_ctor :: "int \<Rightarrow> int \<Rightarrow> event_router result" where
  "er_ctor fd errno =
     (if fd = - 1 then Inl (RuntimeError ''epoll_create1 failed with '' errno)
      else Inr \<lparr>er_fd = fd, er_producers = Map.empty, er_consumers = Map.empty\<rparr>)"

text \<open>\<open>rc\<close> is the result of \<open>epoll_ctl\<close>; the producer is entered before the call.\<close>

definition er_AddProducer :: "int \<Rightarrow> int \<Rightarrow> int \<Rightarrow> nat \<Rightarrow> event_router \<Rightarrow> unit result \<times> event_router" where
  "er_AddProducer rc errno fd producer r =
     (let r = r\<lparr>er_producers := (er_producers r)(fd \<mapsto> producer)\<rparr>
      in (if rc = - 1 then Inl (RuntimeError ''epoll_ctl failed with '' errno) else Inr (), r))"

fun er_AddConsumer :: "event_type list \<Rightarrow> nat \<Rightarrow> event_router \<Rightarrow> event_router" where
  "er_AddConsumer [] consumer r = r"
| "er_AddConsumer (type # types) consumer r =
     er_AddConsumer types consumer
       (r\<lparr>er_consumers := (er_consumers r)(type \<mapsto>
            (case er_consumers r type of None \<Rightarrow> [] | Some cs \<Rightarrow> cs) @ [consumer])\<rparr>)"

text \<open>The innermost loop: every live consumer of the list but the producer itself gets a clone.\<close>

fun er_deliver :: "u32 \<Rightarrow> event \<Rightarrow> nat list \<Rightarrow> objects \<Rightarrow> objects" where
  "er_deliver pid event [] objs = objs"
| "er_deliver pid event (c # cs) objs =
     er_deliver pid event cs
       (case objs c of
          None \<Rightarrow> objs
        | Some m \<Rightarrow> if mg_auto m \<noteq> pid then objs(c \<mapsto> mg_Consume (Clone event) m) else objs)"

fun er_route_events :: "event_router \<Rightarrow> u32 \<Rightarrow> event list \<Rightarrow> objects \<Rightarrow> objects" where
  "er_route_events r pid [] objs = objs"
| "er_route_events r pid (event # events) objs =
     er_route_events r pid events
       (case er_consumers r (event_type_of event) of
          None \<Rightarrow> objs
        | Some cs \<Rightarrow> er_deliver pid event cs objs)"

fun er_route :: "event_router \<Rightarrow> int list \<Rightarrow> objects \<Rightarrow> objects result option" where
  "er_route r [] objs = Some (Inr objs)"
| "er_route r (fd # fds) objs =
     (case er_producers r fd of
        None \<Rightarrow> er_route r fds objs
      | Some p \<Rightarrow>
          (case objs p of
             None \<Rightarrow> er_route r fds objs
           | Some producer \<Rightarrow>
               (case mg_Produce producer of
                  None \<Rightarrow> None
                | Some (Inl err) \<Rightarrow> Some (Inl err)
                | Some (Inr (events, producer)) \<Rightarrow>
                    er_route r fds (er_route_events r (mg_auto producer) events (objs(p \<mapsto> producer))))))"

text \<open>
  \<open>count\<close> and \<open>ready\<close> are the result of \<open>epoll_wait\<close> and the descriptors it stored; the count is returned as a
  \<open>size_t\<close>.
\<close>

definition er_WaitAndRoute :: "int \<Rightarrow> int list \<Rightarrow> event_router \<Rightarrow> objects \<Rightarrow> (size_t \<times> objects) result option" where
  "er_WaitAndRoute count ready r objs =
     (if count > 0 then map_option (map_sum id (Pair (of_int count))) (er_route r (take (nat count) ready) objs)
      else Some (Inr (of_int count, objs)))"

section \<open>Sending and producing\<close>

definition mg_wf :: "manager \<Rightarrow> bool" where
  "mg_wf m \<longleftrightarrow> spsc_inv (mg_queue m) \<and> pe_wf (mg_event m) (mg_pipe m)"

abbreviation mg_pending :: "manager \<Rightarrow> event list" where
  "mg_pending m \<equiv> spsc_contents (mg_queue m)"

lemma mg_send_spec:
  assumes "mg_wf m"
  shows "\<exists>m'. mg_send e m = Some (Inr m') \<and> mg_wf m' \<and> mg_auto m' = mg_auto m \<and> mg_log m' = mg_log m \<and> mg_counter m' = mg_counter m \<and>
    (if spsc_room (mg_queue m)
     then mg_pending m' = mg_pending m @ [e] \<and> pe_fired (mg_event m') \<and> mg_tx m' = Suc (mg_tx m) \<and> mg_dropped m' = mg_dropped m
     else mg_pending m' = mg_pending m \<and> mg_event m' = mg_event m \<and> mg_pipe m' = mg_pipe m \<and>
       mg_tx m' = mg_tx m \<and> mg_dropped m' = Suc (mg_dropped m))"
proof -
  from assms have q: "spsc_inv (mg_queue m)" and e: "pe_wf (mg_event m) (mg_pipe m)" by (auto simp: mg_wf_def)
  show ?thesis
  proof (cases "spsc_room (mg_queue m)")
    case True
    then have "spsc_next (mg_queue m) (sq_writeIdx (mg_queue m)) \<noteq> sq_readIdx (mg_queue m)"
      using spsc_room_iff [OF q] by simp
    from spsc_try_emplace_room [OF q this, of e] obtain q' where
      "spsc_try_emplace e (mg_queue m) = Inr (True, q')" "spsc_inv q'" "spsc_contents q' = mg_pending m @ [e]" by auto
    with True pe_Fire_wf [OF e] show ?thesis by (auto simp: mg_send_def mg_wf_def)
  next
    case False
    then have "spsc_next (mg_queue m) (sq_writeIdx (mg_queue m)) = sq_readIdx (mg_queue m)"
      using spsc_room_iff [OF q] by simp
    from spsc_try_emplace_full [OF q this, of e] spsc_refresh_inv [OF q] False e show ?thesis
      by (auto simp: mg_send_def mg_wf_def)
  qed
qed

lemma mg_drain_all:
  "spsc_inv q \<Longrightarrow> \<exists>q'. mg_drain out q = Some (Inr (out @ spsc_contents q, q')) \<and> spsc_inv q' \<and> spsc_contents q' = []"
proof (induction "spsc_contents q" arbitrary: q out)
  case Nil
  then have "spsc_empty q" using spsc_contents_Nil_iff [OF Nil.prems] by (auto simp: spsc_empty_def)
  with Nil show ?case by (subst mg_drain.simps) auto
next
  case (Cons x xs)
  from spsc_take_Cons [OF Cons.prems Cons.hyps(2) [symmetric]] obtain k q1 q2 where
    f: "spsc_front q = (Some k, q1)" "spsc_deref k q1 = Inr x" "spsc_pop q1 = Inr q2" "spsc_inv q2" "spsc_contents q2 = xs"
    by blast
  have "\<not> spsc_empty q" using Cons spsc_contents_Nil_iff [OF Cons.prems] by (auto simp: spsc_empty_def)
  with Cons.hyps(1) [OF f(5) [symmetric] f(4), of "out @ [x]"] f Cons.hyps(2) [symmetric] show ?case
    by (subst mg_drain.simps) simp
qed

lemma mg_Produce_spec:
  assumes "mg_wf m"
  shows "\<exists>m'. mg_Produce m = Some (Inr (mg_pending m, m')) \<and> mg_wf m' \<and> mg_pending m' = [] \<and> \<not> pe_fired (mg_event m') \<and>
    mg_auto m' = mg_auto m \<and> mg_log m' = mg_log m \<and> mg_rx m' = mg_rx m"
proof -
  from assms have q: "spsc_inv (mg_queue m)" and e: "pe_wf (mg_event m) (mg_pipe m)" by (auto simp: mg_wf_def)
  from mg_drain_all [OF q, of "[]"] pe_Consume_wf [OF e] show ?thesis by (auto simp: mg_Produce_def mg_wf_def)
qed

section \<open>Delivery\<close>

text \<open>What an object finds in the events of one producer: a copy for each of its registrations for the type.\<close>

definition er_inbox :: "event_router \<Rightarrow> nat \<Rightarrow> event list \<Rightarrow> event list" where
  "er_inbox r c events =
     concat (map (\<lambda>e. replicate (count_list (case er_consumers r (event_type_of e) of None \<Rightarrow> [] | Some cs \<Rightarrow> cs) c) e) events)"

lemma Clone_id [simp]: "Clone e = e"
  by (cases e) simp_all

lemma mg_Consume_simps [simp]:
  "mg_auto (mg_Consume e m) = mg_auto m" "mg_queue (mg_Consume e m) = mg_queue m"
  "mg_wf (mg_Consume e m) = mg_wf m"
  by (simp_all add: mg_Consume_def mg_wf_def)

lemma mg_Consume_simps_log:
  "mg_log (mg_Consume e m) = mg_log m @ [e]" "mg_rx (mg_Consume e m) = Suc (mg_rx m)"
  by (simp_all add: mg_Consume_def)

lemma fold_mg_Consume:
  "mg_auto (fold mg_Consume es m) = mg_auto m" "mg_queue (fold mg_Consume es m) = mg_queue m"
  "mg_wf (fold mg_Consume es m) = mg_wf m" "mg_log (fold mg_Consume es m) = mg_log m @ es"
  "mg_rx (fold mg_Consume es m) = mg_rx m + length es"
  by (induction es arbitrary: m) (simp_all add: mg_Consume_simps_log)

lemma er_deliver_at:
  "er_deliver pid e cs objs c =
     map_option (\<lambda>m. if mg_auto m \<noteq> pid then fold mg_Consume (replicate (count_list cs c) e) m else m) (objs c)"
proof (induction cs arbitrary: objs)
  case Nil
  then show ?case by (cases "objs c") auto
next
  case (Cons d cs)
  then show ?case by (cases "objs c"; cases "objs d"; cases "d = c") (auto simp: fold_mg_Consume)
qed

lemma er_route_events_at:
  "er_route_events r pid events objs c =
     map_option (\<lambda>m. if mg_auto m \<noteq> pid then fold mg_Consume (er_inbox r c events) m else m) (objs c)"
proof (induction events arbitrary: objs)
  case Nil
  then show ?case by (cases "objs c") (auto simp: er_inbox_def)
next
  case (Cons e events)
  show ?case
    by (cases "er_consumers r (event_type_of e)"; cases "objs c")
       (auto simp: Cons.IH er_deliver_at er_inbox_def fold_mg_Consume simp del: fold_replicate)
qed

text \<open>What object \<open>c\<close> is to receive when descriptor \<open>fd\<close> is served.\<close>

definition er_from :: "event_router \<Rightarrow> objects \<Rightarrow> nat \<Rightarrow> int \<Rightarrow> event list" where
  "er_from r objs c fd =
     (case er_producers r fd of
        None \<Rightarrow> []
      | Some p \<Rightarrow>
          (case (objs p, objs c) of
             (Some m, Some n) \<Rightarrow> if mg_auto n \<noteq> mg_auto m then er_inbox r c (mg_pending m) else []
           | _ \<Rightarrow> []))"

definition objs_wf :: "objects \<Rightarrow> bool" where
  "objs_wf objs \<longleftrightarrow> (\<forall>p m. objs p = Some m \<longrightarrow> mg_wf m)"

text \<open>One object before and after a round of routing.\<close>

definition routed :: "event_router \<Rightarrow> int list \<Rightarrow> objects \<Rightarrow> nat \<Rightarrow> manager \<Rightarrow> manager \<Rightarrow> bool" where
  "routed r fds objs c n n' \<longleftrightarrow> mg_wf n' \<and> mg_auto n' = mg_auto n \<and>
     mg_log n' = mg_log n @ concat (map (er_from r objs c) fds) \<and>
     mg_rx n' = mg_rx n + length (concat (map (er_from r objs c) fds)) \<and>
     mg_pending n' = (if \<exists>fd \<in> set fds. er_producers r fd = Some c then [] else mg_pending n)"

lemma er_route_one:
  assumes w: "objs_wf objs" and p: "er_producers r fd = Some p" "objs p = Some m"
  shows "\<exists>m'. mg_Produce m = Some (Inr (mg_pending m, m')) \<and> mg_auto m' = mg_auto m \<and>
    (\<forall>c n. objs c = Some n \<longrightarrow> (\<exists>n'. er_route_events r (mg_auto m') (mg_pending m) (objs(p \<mapsto> m')) c = Some n' \<and> routed r [fd] objs c n n')) \<and>
    (\<forall>c. objs c = None \<longrightarrow> er_route_events r (mg_auto m') (mg_pending m) (objs(p \<mapsto> m')) c = None)"
proof -
  from w p(2) have mw: "mg_wf m" by (simp add: objs_wf_def)
  from mg_Produce_spec [OF mw] obtain m' where m': "mg_Produce m = Some (Inr (mg_pending m, m'))" "mg_wf m'" "mg_pending m' = []"
    "mg_auto m' = mg_auto m" "mg_log m' = mg_log m" "mg_rx m' = mg_rx m" by blast
  have "\<exists>n'. er_route_events r (mg_auto m') (mg_pending m) (objs(p \<mapsto> m')) c = Some n' \<and> routed r [fd] objs c n n'"
    if "objs c = Some n" for c n
    using that w m' p by (cases "c = p") (auto simp: er_route_events_at routed_def er_from_def fold_mg_Consume objs_wf_def)
  moreover have "er_route_events r (mg_auto m') (mg_pending m) (objs(p \<mapsto> m')) c = None" if "objs c = None" for c
    using that p by (auto simp: er_route_events_at)
  ultimately show ?thesis using m' by blast
qed

text \<open>After one descriptor is served, what the others will deliver is the same.\<close>

lemma er_from_after:
  assumes "\<And>c n. objs c = Some n \<Longrightarrow> \<exists>n'. objs1 c = Some n' \<and> routed r [fd] objs c n n'"
    "\<And>c. objs c = None \<Longrightarrow> objs1 c = None" "er_producers r fd' \<noteq> er_producers r fd"
  shows "er_from r objs1 c fd' = er_from r objs c fd'"
proof (cases "er_producers r fd'")
  case (Some p)
  have p: "objs p = Some m \<Longrightarrow> \<exists>m'. objs1 p = Some m' \<and> mg_auto m' = mg_auto m \<and> mg_pending m' = mg_pending m" for m
    using assms(1) [of p m] assms(3) Some by (auto simp: routed_def split: if_splits)
  have c: "objs c = Some n \<Longrightarrow> \<exists>n'. objs1 c = Some n' \<and> mg_auto n' = mg_auto n" for n
    using assms(1) [of c n] by (auto simp: routed_def)
  show ?thesis
    using p c assms(2) [of p] assms(2) [of c] Some
    by (cases "objs p"; cases "objs c") (fastforce simp: er_from_def)+
qed (simp add: er_from_def)

lemma routed_trans:
  assumes "routed r [fd] objs c n n1" "routed r fds objs1 c n1 n2" "map (er_from r objs1 c) fds = map (er_from r objs c) fds"
  shows "routed r (fd # fds) objs c n n2"
  using assms by (auto simp: routed_def split: if_splits)

lemma er_route_skip:
  assumes "er_producers r fd = None \<or> (\<exists>p. er_producers r fd = Some p \<and> objs p = None)"
  shows "er_route r (fd # fds) objs = er_route r fds objs" "er_from r objs c fd = []"
    "objs c = Some n \<Longrightarrow> er_producers r fd \<noteq> Some c"
  using assms by (auto simp: er_from_def)

lemma er_route_all:
  assumes "objs_wf objs" "distinct fds" "inj_on (er_producers r) (set fds \<inter> dom (er_producers r))"
  shows "\<exists>objs'. er_route r fds objs = Some (Inr objs') \<and> (\<forall>c. objs c = None \<longrightarrow> objs' c = None) \<and>
    (\<forall>c n. objs c = Some n \<longrightarrow> (\<exists>n'. objs' c = Some n' \<and> routed r fds objs c n n'))"
  using assms
proof (induction fds arbitrary: objs)
  case Nil
  then show ?case by (auto simp: routed_def objs_wf_def)
next
  case (Cons fd fds)
  have inj: "inj_on (er_producers r) (set fds \<inter> dom (er_producers r))"
    using Cons.prems(3) by (rule inj_on_subset) auto
  show ?case
  proof (cases "er_producers r fd = None \<or> (\<exists>p. er_producers r fd = Some p \<and> objs p = None)")
    case True
    note skip = er_route_skip [OF True]
    have "routed r fds objs c n n' \<Longrightarrow> objs c = Some n \<Longrightarrow> routed r (fd # fds) objs c n n'" for c n n'
      using skip(2,3) by (auto simp: routed_def)
    with Cons.IH [OF Cons.prems(1) _ inj] Cons.prems(2) skip(1) show ?thesis by (metis distinct.simps(2))
  next
    case False
    then obtain p m where p: "er_producers r fd = Some p" "objs p = Some m" by auto
    from er_route_one [OF Cons.prems(1) p] obtain m' where m': "mg_Produce m = Some (Inr (mg_pending m, m'))"
      and one: "\<And>c n. objs c = Some n \<Longrightarrow> \<exists>n'. er_route_events r (mg_auto m') (mg_pending m) (objs(p \<mapsto> m')) c = Some n' \<and> routed r [fd] objs c n n'"
      and none: "\<And>c. objs c = None \<Longrightarrow> er_route_events r (mg_auto m') (mg_pending m) (objs(p \<mapsto> m')) c = None" by blast
    define objs1 where "objs1 = er_route_events r (mg_auto m') (mg_pending m) (objs(p \<mapsto> m'))"
    have w1: "objs_wf objs1"
      unfolding objs_wf_def objs1_def using one none by (metis option.distinct(1) option.exhaust option.inject routed_def)
    have other: "er_producers r fd' \<noteq> er_producers r fd" if "fd' \<in> set fds" for fd'
      using that Cons.prems(2,3) p(1) by (auto simp: inj_on_def dom_def)
    have same: "map (er_from r objs1 c) fds = map (er_from r objs c) fds" for c
      using er_from_after [of objs objs1, OF one [folded objs1_def] none [folded objs1_def] other] by auto
    obtain objs' where o: "er_route r fds objs1 = Some (Inr objs')" "\<forall>c. objs1 c = None \<longrightarrow> objs' c = None"
      "\<forall>c n. objs1 c = Some n \<longrightarrow> (\<exists>n'. objs' c = Some n' \<and> routed r fds objs1 c n n')"
      using Cons.IH [OF w1 _ inj] Cons.prems(2) by auto
    have "er_route r (fd # fds) objs = Some (Inr objs')" using o(1) p m' by (simp add: objs1_def)
    moreover have "\<exists>n'. objs' c = Some n' \<and> routed r (fd # fds) objs c n n'" if "objs c = Some n" for c n
      using one [OF that, folded objs1_def] o(3) routed_trans [OF _ _ same] by blast
    ultimately show ?thesis using o(2) none [folded objs1_def] by blast
  qed
qed

section \<open>The program\<close>

text \<open>The registrations of \<open>main\<close>: objects 0, 1 and 2 are managers A, B and C.\<close>

definition app12_router :: "int \<Rightarrow> int \<Rightarrow> int \<Rightarrow> int \<Rightarrow> event_router" where
  "app12_router epfd fdA fdB fdC =
     (let r = \<lparr>er_fd = epfd, er_producers = Map.empty, er_consumers = Map.empty\<rparr>;
          (_, r) = er_AddProducer 0 0 fdA 0 r;
          (_, r) = er_AddProducer 0 0 fdB 1 r;
          (_, r) = er_AddProducer 0 0 fdC 2 r;
          r = er_AddConsumer a_WillConsume 0 r;
          r = er_AddConsumer b_WillConsume 1 r;
          r = er_AddConsumer c_WillConsume 2 r
      in r)"

lemma app12_router_producers: "er_producers (app12_router ep a b c) = [a \<mapsto> 0, b \<mapsto> 1, c \<mapsto> 2]"
  by (simp add: app12_router_def er_AddProducer_def a_WillConsume_def b_WillConsume_def c_WillConsume_def Let_def)

lemma app12_router_consumers:
  "er_consumers (app12_router ep a b c) = [CONTROL \<mapsto> [0], SERIAL \<mapsto> [0, 1], STATUS \<mapsto> [2]]"
  by (simp add: app12_router_def er_AddProducer_def a_WillConsume_def b_WillConsume_def c_WillConsume_def Let_def)

lemma app12_inbox:
  "er_inbox (app12_router ep a b c) 0 es = filter (\<lambda>e. event_type_of e \<in> set a_WillConsume) es"
  "er_inbox (app12_router ep a b c) 1 es = filter (\<lambda>e. event_type_of e \<in> set b_WillConsume) es"
  "er_inbox (app12_router ep a b c) 2 es = filter (\<lambda>e. event_type_of e \<in> set c_WillConsume) es"
proof (induction es)
  case (Cons e es)
  case 1
  show ?case using Cons by (cases "event_type_of e") (auto simp: er_inbox_def app12_router_consumers a_WillConsume_def)
  case 2
  show ?case using Cons by (cases "event_type_of e") (auto simp: er_inbox_def app12_router_consumers b_WillConsume_def)
  case 3
  show ?case using Cons by (cases "event_type_of e") (auto simp: er_inbox_def app12_router_consumers c_WillConsume_def)
qed (simp_all add: er_inbox_def)

section \<open>Properties\<close>

text \<open>
  C23. One turn of a manager, then \<open>Produce\<close>: where the queue has room the event is appended and signalled (the
  event is fired and one byte is in its pipe, so that the router's \<open>epoll_wait\<close> reports it), and where it is full the
  event is counted as dropped and the signal left as it was; \<open>Produce\<close> then ends, returns every accepted event in
  order, empties the queue and takes the signal back. No call fails or blocks.
\<close>

theorem manager_send_produce:
  assumes "mg_wf m"
  shows "\<exists>m1 m2. mg_send e m = Some (Inr m1) \<and>
    (if spsc_room (mg_queue m)
     then mg_pending m1 = mg_pending m @ [e] \<and> mg_tx m1 = Suc (mg_tx m) \<and> mg_dropped m1 = mg_dropped m \<and>
       pe_fired (mg_event m1) \<and> kp_bytes (mg_pipe m1) = 1
     else mg_pending m1 = mg_pending m \<and> mg_tx m1 = mg_tx m \<and> mg_dropped m1 = Suc (mg_dropped m) \<and>
       mg_event m1 = mg_event m \<and> mg_pipe m1 = mg_pipe m) \<and>
    mg_Produce m1 = Some (Inr (mg_pending m1, m2)) \<and> mg_wf m2 \<and> mg_pending m2 = [] \<and>
    \<not> pe_fired (mg_event m2) \<and> kp_bytes (mg_pipe m2) = 0"
proof -
  from mg_send_spec [OF assms, of e] obtain m1 where m1: "mg_send e m = Some (Inr m1)" "mg_wf m1"
    "if spsc_room (mg_queue m)
     then mg_pending m1 = mg_pending m @ [e] \<and> pe_fired (mg_event m1) \<and> mg_tx m1 = Suc (mg_tx m) \<and> mg_dropped m1 = mg_dropped m
     else mg_pending m1 = mg_pending m \<and> mg_event m1 = mg_event m \<and> mg_pipe m1 = mg_pipe m \<and>
       mg_tx m1 = mg_tx m \<and> mg_dropped m1 = Suc (mg_dropped m)" by blast
  have pipe: "mg_wf n \<Longrightarrow> kp_bytes (mg_pipe n) = (if pe_fired (mg_event n) then 1 else 0)" for n
    by (simp add: mg_wf_def pe_wf_def)
  from mg_Produce_spec [OF m1(2)] obtain m2 where m2: "mg_Produce m1 = Some (Inr (mg_pending m1, m2))" "mg_wf m2" "mg_pending m2 = []"
    "\<not> pe_fired (mg_event m2)" by blast
  with m1 pipe [OF m1(2)] pipe [OF m2(2)] show ?thesis by (auto split: if_splits)
qed

text \<open>
  C3. A round of \<open>WaitAndRoute\<close> over the ready descriptors (each watched once, each for its own producer): it ends
  without an error; every live object receives, in the order of the descriptors and within one descriptor
  in the producer's order, one clone of each event per registration for its type, except of its own events;
  the queues of the served producers are empty afterwards, the others untouched; the count is returned.
\<close>

theorem router_routes:
  assumes "objs_wf objs" "distinct ready" "inj_on (er_producers r) (set ready \<inter> dom (er_producers r))"
    "0 < count" "nat count = length ready"
  shows "\<exists>objs'. er_WaitAndRoute count ready r objs = Some (Inr (of_int count, objs')) \<and>
    (\<forall>c. objs c = None \<longrightarrow> objs' c = None) \<and>
    (\<forall>c n. objs c = Some n \<longrightarrow> (\<exists>n'. objs' c = Some n' \<and> routed r ready objs c n n'))"
  using er_route_all [OF assms(1-3)] assms(4,5) by (auto simp: er_WaitAndRoute_def)

text \<open>
  C19. The program's routing table: when the router serves the three managers, manager A gets the control and
  serial events of B and C, manager B the serial events of A and C, manager C the status events of A and B,
  and nobody gets an event of its own.
\<close>

theorem app12_routing:
  assumes "objs_wf objs" "distinct [fa, fb, fc]" "distinct [mg_auto a, mg_auto b, mg_auto c]"
    "objs 0 = Some a" "objs 1 = Some b" "objs 2 = Some c"
  shows "\<exists>objs' a' b' c'. er_WaitAndRoute 3 [fa, fb, fc] (app12_router ep fa fb fc) objs = Some (Inr (3, objs')) \<and>
    objs' 0 = Some a' \<and> objs' 1 = Some b' \<and> objs' 2 = Some c' \<and>
    mg_log a' = mg_log a @ filter (\<lambda>e. event_type_of e \<in> {CONTROL, SERIAL}) (mg_pending b @ mg_pending c) \<and>
    mg_log b' = mg_log b @ filter (\<lambda>e. event_type_of e = SERIAL) (mg_pending a @ mg_pending c) \<and>
    mg_log c' = mg_log c @ filter (\<lambda>e. event_type_of e = STATUS) (mg_pending a @ mg_pending b) \<and>
    mg_pending a' = [] \<and> mg_pending b' = [] \<and> mg_pending c' = []"
proof -
  let ?r = "app12_router ep fa fb fc" and ?fds = "[fa, fb, fc]"
  have inj: "inj_on (er_producers ?r) (set ?fds \<inter> dom (er_producers ?r))"
    using assms(2) by (auto simp: inj_on_def app12_router_producers)
  obtain objs' where o: "er_WaitAndRoute 3 ?fds ?r objs = Some (Inr (3, objs'))"
    "\<And>c n. objs c = Some n \<Longrightarrow> \<exists>n'. objs' c = Some n' \<and> routed ?r ?fds objs c n n'"
    using er_route_all [OF assms(1,2) inj] by (auto simp: er_WaitAndRoute_def)
  from o(2) [OF assms(4)] o(2) [OF assms(5)] o(2) [OF assms(6)] obtain a' b' c' where
    m: "objs' 0 = Some a'" "routed ?r ?fds objs 0 a a'" "objs' 1 = Some b'" "routed ?r ?fds objs 1 b b'"
      "objs' 2 = Some c'" "routed ?r ?fds objs 2 c c'" by blast
  have p: "er_producers ?r fa = Some 0" "er_producers ?r fb = Some 1" "er_producers ?r fc = Some 2"
    using assms(2) by (auto simp: app12_router_producers)
  have f: "er_from ?r objs 0 fa = []" "er_from ?r objs 1 fb = []" "er_from ?r objs 2 fc = []"
    "er_from ?r objs 0 fb = er_inbox ?r 0 (mg_pending b)" "er_from ?r objs 0 fc = er_inbox ?r 0 (mg_pending c)"
    "er_from ?r objs 1 fa = er_inbox ?r 1 (mg_pending a)" "er_from ?r objs 1 fc = er_inbox ?r 1 (mg_pending c)"
    "er_from ?r objs 2 fa = er_inbox ?r 2 (mg_pending a)" "er_from ?r objs 2 fb = er_inbox ?r 2 (mg_pending b)"
    using p assms(3-6) by (auto simp: er_from_def)
  show ?thesis
    using o(1) m p f
    by - (rule exI [of _ objs'], rule exI [of _ a'], rule exI [of _ b'], rule exI [of _ c'],
       simp add: routed_def app12_inbox app12_inbox(2) [unfolded One_nat_def] a_WillConsume_def b_WillConsume_def c_WillConsume_def)
qed

text \<open>Three managers with small queues, fresh but for two events that A has sent.\<close>

definition demo_queue :: "event spsc_queue" where
  "demo_queue = \<lparr>sq_capacity = 3, sq_kPadding = 8, sq_slots = replicate 19 None, sq_writeIdx = 0, sq_readIdxCache = 0,
     sq_readIdx = 0, sq_writeIdxCache = 0\<rparr>"

definition demo_manager :: "u32 \<Rightarrow> int \<Rightarrow> manager" where
  "demo_manager i fd = \<lparr>mg_auto = i, mg_event = \<lparr>pe_fd0 = fd, pe_fd1 = fd + 1, pe_fired = False\<rparr>,
     mg_pipe = kpipe_of fd (fd + 1) 65536,
     mg_queue = demo_queue,
     mg_counter = 0, mg_tx = 0, mg_dropped = 0, mg_rx = 0, mg_log = []\<rparr>"

lemma demo_queue_inv: "spsc_inv demo_queue" "spsc_contents demo_queue = []"
  unfolding demo_queue_def by (rule spsc_fresh; simp)+

lemma demo_manager_wf: "0 < fd \<Longrightarrow> mg_wf (demo_manager i fd)" "mg_pending (demo_manager i fd) = []"
  using demo_queue_inv by (simp_all add: mg_wf_def demo_manager_def pe_wf_def kpipe_of_def)

theorem manager_send_produce_witness:
  "\<exists>m1 m2. mg_send (SerialEvent [1]) (demo_manager 0 3) = Some (Inr m1) \<and> mg_pending m1 = [SerialEvent [1]] \<and>
     pe_fired (mg_event m1) \<and> kp_bytes (mg_pipe m1) = 1 \<and>
     mg_Produce m1 = Some (Inr ([SerialEvent [1]], m2)) \<and> mg_pending m2 = []"
proof -
  have "spsc_room (mg_queue (demo_manager 0 3))"
    using demo_queue_inv demo_manager_wf(2) [of 0 3] by (simp add: spsc_room_def demo_manager_def demo_queue_def spsc_capacity_def)
  with manager_send_produce [OF demo_manager_wf(1) [of 3 0], of "SerialEvent [1]"] demo_manager_wf(2) [of 0 3] show ?thesis by auto
qed

lemma a_runImpl_twice:
  assumes "mg_wf m" "mg_counter m = 0" "length (mg_pending m) + 2 \<le> unat (spsc_capacity (mg_queue m))"
  shows "\<exists>m1 m2. a_runImpl m = Some (Inr m1) \<and> a_runImpl m1 = Some (Inr m2) \<and> mg_wf m2 \<and> mg_auto m2 = mg_auto m \<and>
    mg_log m2 = mg_log m \<and> mg_pending m2 = mg_pending m @ [StatusEvent 0 status_ok, SerialEvent [0, 1, 2, 3]]"
proof -
  let ?m = "m\<lparr>mg_counter := 1\<rparr>"
  have w: "mg_wf ?m" using assms(1) by (simp add: mg_wf_def)
  have r: "spsc_room (mg_queue ?m)" using assms(3) by (simp add: spsc_room_def)
  from mg_send_spec [OF w, of "StatusEvent 0 status_ok"] r obtain m1 where
    m1: "mg_send (StatusEvent 0 status_ok) ?m = Some (Inr m1)" "mg_wf m1" "mg_auto m1 = mg_auto m" "mg_log m1 = mg_log m"
      "mg_counter m1 = 1" "mg_pending m1 = mg_pending m @ [StatusEvent 0 status_ok]" by auto
  have cap: "unat (spsc_capacity (mg_queue m1)) = unat (spsc_capacity (mg_queue m))"
    using m1(1) spsc_try_emplace_capacity [of "StatusEvent 0 status_ok" "mg_queue m"]
    by (auto simp: mg_send_def spsc_capacity_def map_option_case map_sum_def split: sum.splits prod.splits if_splits option.splits)
  let ?m1 = "m1\<lparr>mg_counter := 2\<rparr>"
  have w1: "mg_wf ?m1" using m1(2) by (simp add: mg_wf_def)
  have "spsc_room (mg_queue ?m1)" using assms(3) m1(6) cap by (simp add: spsc_room_def)
  with mg_send_spec [OF w1, of "SerialEvent [0, 1, 2, 3]"] obtain m2 where
    m2: "mg_send (SerialEvent [0, 1, 2, 3]) ?m1 = Some (Inr m2)" "mg_wf m2" "mg_auto m2 = mg_auto m1" "mg_log m2 = mg_log m1"
      "mg_pending m2 = mg_pending m1 @ [SerialEvent [0, 1, 2, 3]]" by auto
  show ?thesis using m1 m2 assms(2) by (simp add: a_runImpl_def Let_def)
qed

lemma demo_room: "length (mg_pending (demo_manager i fd)) + 2 \<le> unat (spsc_capacity (mg_queue (demo_manager i fd)))"
  using demo_queue_inv by (simp add: demo_manager_def demo_queue_def spsc_capacity_def)

theorem router_routes_witness:
  "\<exists>objs' n'. er_WaitAndRoute 1 [3] (app12_router 9 3 5 7) [0 \<mapsto> demo_manager 0 3, 1 \<mapsto> demo_manager 1 5] = Some (Inr (1, objs')) \<and>
     objs' 1 = Some n' \<and> mg_log n' = []"
proof -
  let ?objs = "[0 \<mapsto> demo_manager 0 3, 1 \<mapsto> demo_manager 1 5] :: objects"
  have "objs_wf ?objs" using demo_manager_wf(1) by (auto simp: objs_wf_def split: if_splits)
  then have "\<exists>objs'. er_WaitAndRoute 1 [3] (app12_router 9 3 5 7) ?objs = Some (Inr (of_int 1, objs')) \<and>
      (\<forall>c. ?objs c = None \<longrightarrow> objs' c = None) \<and>
      (\<forall>c n. ?objs c = Some n \<longrightarrow> (\<exists>n'. objs' c = Some n' \<and> routed (app12_router 9 3 5 7) [3] ?objs c n n'))"
    by (intro router_routes) (auto simp: inj_on_def)
  then obtain objs' where o: "er_WaitAndRoute 1 [3] (app12_router 9 3 5 7) ?objs = Some (Inr (1, objs'))"
    "\<exists>n'. objs' 1 = Some n' \<and> routed (app12_router 9 3 5 7) [3] ?objs 1 (demo_manager 1 5) n'" by auto
  have "er_from (app12_router 9 3 5 7) ?objs 1 3 = []"
    using demo_manager_wf(2) by (simp add: er_from_def app12_router_producers er_inbox_def)
  with o show ?thesis by (auto simp: routed_def demo_manager_def)
qed

theorem app12_routing_witness:
  "\<exists>m1 m2 objs' a' b' c'. a_runImpl (demo_manager 0 3) = Some (Inr m1) \<and> a_runImpl m1 = Some (Inr m2) \<and>
     er_WaitAndRoute 3 [3, 5, 7] (app12_router 9 3 5 7) [0 \<mapsto> m2, 1 \<mapsto> demo_manager 1 5, 2 \<mapsto> demo_manager 2 7] = Some (Inr (3, objs')) \<and>
     objs' 0 = Some a' \<and> objs' 1 = Some b' \<and> objs' 2 = Some c' \<and>
     mg_log a' = [] \<and> mg_log b' = [SerialEvent [0, 1, 2, 3]] \<and> mg_log c' = [StatusEvent 0 status_ok]"
proof -
  let ?b = "demo_manager 1 5" and ?c = "demo_manager 2 7"
  obtain m1 m2 where m: "a_runImpl (demo_manager 0 3) = Some (Inr m1)" "a_runImpl m1 = Some (Inr m2)" "mg_wf m2"
    "mg_auto m2 = 0" "mg_log m2 = []" "mg_pending m2 = [StatusEvent 0 status_ok, SerialEvent [0, 1, 2, 3]]"
    using a_runImpl_twice [OF demo_manager_wf(1) _ demo_room, of 3 0] demo_manager_wf(2) by (auto simp: demo_manager_def)
  let ?objs = "[0 \<mapsto> m2, 1 \<mapsto> ?b, 2 \<mapsto> ?c] :: objects"
  have w: "objs_wf ?objs" using m(3) demo_manager_wf(1) by (auto simp: objs_wf_def split: if_splits)
  have au: "distinct [mg_auto m2, mg_auto ?b, mg_auto ?c]" by (simp add: m(4) demo_manager_def)
  have b: "mg_log ?b = []" "mg_log ?c = []" by (simp_all add: demo_manager_def)
  from app12_routing [OF w _ au, of 3 5 7 9] obtain objs' a' b' c' where
    "er_WaitAndRoute 3 [3, 5, 7] (app12_router 9 3 5 7) ?objs = Some (Inr (3, objs'))"
    "objs' 0 = Some a'" "objs' 1 = Some b'" "objs' 2 = Some c'"
    "mg_log a' = []" "mg_log b' = [SerialEvent [0, 1, 2, 3]]" "mg_log c' = [StatusEvent 0 status_ok]"
    by (auto simp: m(5,6) b demo_manager_wf(2))
  with m(1,2) show ?thesis by blast
qed

end
