(* ===== verification/EventPoller.thy ===== *)
theory EventPoller
  imports Prelude
begin

text \<open>
  \<^verbatim>\<open>inc/EventPoller.h\<close>: the wrapper around \<open>epoll\<close>. The kernel's interest list is part of the state;
  \<open>valid fd\<close> tells whether the kernel accepts a descriptor, and the answer of \<open>epoll_wait\<close> is an argument.
  Producers and consumers are references into a map of objects (a weak pointer that does not lock has no
  object), and their \<open>Produce\<close> and \<open>Consume\<close> are arguments, as they are virtual in the source.
\<close>

section \<open>Kernel\<close>

type_synonym epoll = "int \<rightharpoonup> int"

definition epoll_ctl_add :: "(int \<Rightarrow> bool) \<Rightarrow> int \<Rightarrow> int \<Rightarrow> epoll \<Rightarrow> int \<times> epoll" where
  "epoll_ctl_add valid fd events ep = (if valid fd \<and> ep fd = None then (0, ep(fd \<mapsto> events)) else (- 1, ep))"

definition epoll_ctl_del :: "int \<Rightarrow> epoll \<Rightarrow> int \<times> epoll" where
  "epoll_ctl_del fd ep = (if ep fd = None then (- 1, ep) else (0, ep(fd := None)))"

section \<open>State and operations\<close>

record event_poller =
  po_fd :: int
  po_watchers :: "int \<rightharpoonup> nat \<times> nat"

definition po_ctor :: "int \<Rightarrow> int \<Rightarrow> event_poller result" where
  "po_ctor fd errno =
     (if fd = - 1 then Inl (RuntimeError ''epoll_create1 failed with '' errno)
      else Inr \<lparr>po_fd = fd, po_watchers = Map.empty\<rparr>)"

definition po_Add :: "(int \<Rightarrow> bool) \<Rightarrow> int \<Rightarrow> int \<Rightarrow> epoll \<Rightarrow> int \<times> epoll" where
  "po_Add valid flags fd ep = (if fd \<noteq> - 1 then epoll_ctl_add valid fd flags ep else (0, ep))"

definition po_Add_watch ::
    "(int \<Rightarrow> bool) \<Rightarrow> int \<Rightarrow> int \<Rightarrow> nat \<Rightarrow> nat \<Rightarrow> event_poller \<times> epoll \<Rightarrow> int \<times> event_poller \<times> epoll" where
  "po_Add_watch valid flags fd producer consumer s =
     (case s of (po, ep) \<Rightarrow>
        if fd \<noteq> - 1 then
          (let (ret, ep) = po_Add valid flags fd ep
           in (ret, if ret = 0 then po\<lparr>po_watchers := (po_watchers po)(fd \<mapsto> (producer, consumer))\<rparr> else po, ep))
        else (0, po, ep))"

text \<open>The loop over the events that \<open>Produce\<close> returned; a consumer may fail or block.\<close>

fun po_consume_all ::
    "('e \<Rightarrow> 'o \<Rightarrow> 'o result option) \<Rightarrow> nat \<Rightarrow> 'e list \<Rightarrow> (nat \<rightharpoonup> 'o) \<Rightarrow> (nat \<rightharpoonup> 'o) result option" where
  "po_consume_all Consume c [] objs = Some (Inr objs)"
| "po_consume_all Consume c (e # es) objs =
     (case objs c of
        None \<Rightarrow> Some (Inr objs)
      | Some consumer \<Rightarrow>
          (case Consume e consumer of
             None \<Rightarrow> None
           | Some (Inl err) \<Rightarrow> Some (Inl err)
           | Some (Inr consumer) \<Rightarrow> po_consume_all Consume c es (objs(c \<mapsto> consumer))))"

definition po_Execute ::
    "('o \<Rightarrow> ('e list \<times> 'o) result option) \<Rightarrow> ('e \<Rightarrow> 'o \<Rightarrow> 'o result option) \<Rightarrow> event_poller \<Rightarrow> int \<Rightarrow> (nat \<rightharpoonup> 'o)
       \<Rightarrow> (nat \<rightharpoonup> 'o) result option" where
  "po_Execute Produce Consume po fd objs =
     (case po_watchers po fd of
        None \<Rightarrow> Some (Inr objs)
      | Some (p, c) \<Rightarrow>
          (case (objs p, objs c) of
             (Some producer, Some consumer) \<Rightarrow>
               (case Produce producer of
                  None \<Rightarrow> None
                | Some (Inl err) \<Rightarrow> Some (Inl err)
                | Some (Inr (events, producer)) \<Rightarrow>
                    (let objs = objs(p \<mapsto> producer)
                     in if events \<noteq> [] then po_consume_all Consume c events objs else Some (Inr objs)))
           | _ \<Rightarrow> Some (Inr objs)))"

definition po_Remove :: "int \<Rightarrow> epoll \<Rightarrow> int \<times> epoll" where
  "po_Remove fd ep = epoll_ctl_del fd ep"

definition po_Wait :: "(int \<Rightarrow> int \<Rightarrow> int \<Rightarrow> int \<times> int list) \<Rightarrow> event_poller \<Rightarrow> int \<Rightarrow> int \<Rightarrow> int \<times> int list" where
  "po_Wait epoll_wait po maxevents timeout = epoll_wait (po_fd po) maxevents timeout"

text \<open>The body of the loop in \<open>main\<close> of \<^verbatim>\<open>app1\<close> to \<^verbatim>\<open>app11\<close>: every ready descriptor is executed.\<close>

fun po_execute_all ::
    "('o \<Rightarrow> ('e list \<times> 'o) result option) \<Rightarrow> ('e \<Rightarrow> 'o \<Rightarrow> 'o result option) \<Rightarrow> event_poller \<Rightarrow> int list \<Rightarrow> (nat \<rightharpoonup> 'o)
       \<Rightarrow> (nat \<rightharpoonup> 'o) result option" where
  "po_execute_all Produce Consume po [] objs = Some (Inr objs)"
| "po_execute_all Produce Consume po (fd # fds) objs =
     (case po_Execute Produce Consume po fd objs of
        None \<Rightarrow> None
      | Some (Inl err) \<Rightarrow> Some (Inl err)
      | Some (Inr objs) \<Rightarrow> po_execute_all Produce Consume po fds objs)"

section \<open>Properties\<close>

text \<open>A batch handed to one consumer.\<close>

fun consume_list :: "('e \<Rightarrow> 'o \<Rightarrow> 'o result option) \<Rightarrow> 'e list \<Rightarrow> 'o \<Rightarrow> 'o result option" where
  "consume_list Consume [] n = Some (Inr n)"
| "consume_list Consume (e # es) n =
     (case Consume e n of None \<Rightarrow> None | Some (Inl err) \<Rightarrow> Some (Inl err) | Some (Inr n) \<Rightarrow> consume_list Consume es n)"

lemma po_consume_all_eq:
  "objs c = Some n \<Longrightarrow> po_consume_all Consume c es objs = map_option (map_sum id (\<lambda>n'. objs(c \<mapsto> n'))) (consume_list Consume es n)"
  by (induction es arbitrary: objs n) (auto simp: fun_upd_idem split: option.splits sum.splits)

lemma po_Execute_live:
  assumes "po_watchers po fd = Some (p, c)" "objs p = Some m" "objs c = Some n" "Produce m = Some (Inr (es, m'))"
    "consume_list Consume es (if p = c then m' else n) = Some (Inr n')"
  shows "po_Execute Produce Consume po fd objs = Some (Inr (objs(p \<mapsto> m', c \<mapsto> n')))"
proof -
  have a: "(objs(p \<mapsto> m')) c = Some (if p = c then m' else n)" using assms(3) by auto
  have "po_consume_all Consume c es (objs(p \<mapsto> m')) = Some (Inr (objs(p \<mapsto> m', c \<mapsto> n')))"
    by (subst po_consume_all_eq [of "objs(p \<mapsto> m')" c, OF a]) (simp add: assms(5))
  moreover have "es = [] \<Longrightarrow> objs(p \<mapsto> m', c \<mapsto> n') = objs(p \<mapsto> m')" using assms(3,5) by (auto split: if_splits)
  ultimately show ?thesis using assms(1-4) by (auto simp: po_Execute_def Let_def)
qed

text \<open>
  \<open>Execute\<close> on a watched descriptor whose producer and consumer are alive: what the producer produces, in
  order, is consumed by the consumer, and no other object changes (also when the two are the same object);
  on any other descriptor, or when one of them is gone, nothing changes and nothing is produced.
\<close>

theorem execute_transfers:
  assumes "po_watchers po fd = Some (p, c)" "objs p = Some m" "objs c = Some n" "Produce m = Some (Inr (es, m'))"
    "consume_list Consume es (if p = c then m' else n) = Some (Inr n')"
  shows "po_Execute Produce Consume po fd objs = Some (Inr (objs(p \<mapsto> m', c \<mapsto> n'))) \<and>
    (fd' \<notin> dom (po_watchers po) \<longrightarrow> po_Execute Produce Consume po fd' objs = Some (Inr objs)) \<and>
    po_Execute Produce Consume po fd (objs(c := None)) = Some (Inr (objs(c := None)))"
  using po_Execute_live [of po fd p c objs m n Produce es m' Consume n'] assms
  by (auto simp: po_Execute_def split: option.splits)

theorem execute_transfers_witness:
  "po_Execute (\<lambda>m :: nat list. Some (Inr (m, []))) (\<lambda>e m. Some (Inr (m @ [e]))) \<lparr>po_fd = 4, po_watchers = [5 \<mapsto> (0, 1)]\<rparr> 5
     [0 \<mapsto> [7, 8], 1 \<mapsto> [1]] = Some (Inr [0 \<mapsto> [], 1 \<mapsto> [1, 7, 8]])"
  using execute_transfers [of "\<lparr>po_fd = 4, po_watchers = [5 \<mapsto> (0, 1)]\<rparr>" 5 0 1 "[0 \<mapsto> [7, 8], 1 \<mapsto> [1 :: nat]]" "[7, 8]" "[1]"
      "\<lambda>m. Some (Inr (m, []))" "[7, 8]" "[]" "\<lambda>e m. Some (Inr (m @ [e]))" "[1, 7, 8]" 6]
  by (simp add: fun_upd_twist)

text \<open>
  Registration: when \<open>Add\<close> with a producer and a consumer returns 0 for a real descriptor, the kernel watches it
  and the pair is remembered; when it fails, nothing has changed. For the descriptor \<open>-1\<close> it reports
  success and does nothing. \<open>Remove\<close> takes the descriptor out of the kernel's list only: the pair stays, and
  \<open>Execute\<close> would still serve it.
\<close>

theorem add_registers:
  assumes "po_Add_watch valid flags fd p c (po, ep) = (ret, po', ep')"
  shows "(fd = - 1 \<longrightarrow> ret = 0 \<and> po' = po \<and> ep' = ep) \<and>
    (fd \<noteq> - 1 \<and> ret = 0 \<longrightarrow> ep' = ep(fd \<mapsto> flags) \<and> po_watchers po' = (po_watchers po)(fd \<mapsto> (p, c)) \<and>
       po_Remove fd ep' = (0, ep'(fd := None)) \<and> po_watchers po' fd = Some (p, c)) \<and>
    (ret \<noteq> 0 \<longrightarrow> po' = po \<and> ep' = ep \<and> (\<not> valid fd \<or> ep fd \<noteq> None))"
  using assms
  by (auto simp: po_Add_watch_def po_Add_def epoll_ctl_add_def po_Remove_def epoll_ctl_del_def Let_def split: if_splits)

theorem add_registers_witness:
  "\<exists>po' ep'. po_Add_watch (\<lambda>_. True) 1 5 0 1 (\<lparr>po_fd = 4, po_watchers = Map.empty\<rparr>, Map.empty) = (0, po', ep') \<and>
     ep' = [5 \<mapsto> 1] \<and> po_watchers po' 5 = Some (0, 1)"
proof -
  obtain ret po' ep' where r: "po_Add_watch (\<lambda>_. True) 1 5 0 1 (\<lparr>po_fd = 4, po_watchers = Map.empty\<rparr>, Map.empty) = (ret, po', ep')"
    using prod_cases3 by blast
  moreover have "ret = 0" using r by (auto simp: po_Add_watch_def po_Add_def epoll_ctl_add_def Let_def)
  ultimately show ?thesis using add_registers [OF r] by auto
qed

end
