(* ===== verification/Apps.thy ===== *)
theory Apps
  imports PipedEvent EventPoller
begin

text \<open>
  The programs whose managers keep their events in a \<open>std::list\<close>: \<^verbatim>\<open>app1.cpp\<close> (a bound checked before the
  lock is taken), \<^verbatim>\<open>app3.cpp\<close> (no bound), \<^verbatim>\<open>app4.cpp\<close> (no queue at all), \<^verbatim>\<open>app8.cpp\<close> (two lists with
  \<open>try_lock\<close>) and \<^verbatim>\<open>main.cpp\<close> (three managers). A critical section is one step here: \<open>std::lock_guard\<close>
  excludes the other thread. The random payload of an event is an argument.
\<close>

section \<open>Managers with one list\<close>

datatype ab_event = EventA int | EventB int

definition MAX_QUEUE_SIZE :: nat where
  "MAX_QUEUE_SIZE = 5000"

record list_manager =
  lm_event :: piped_event
  lm_pipe :: kpipe
  lm_queue :: "ab_event list"
  lm_tx :: nat
  lm_dropped :: nat
  lm_rx :: nat

definition lm_fire :: "list_manager \<Rightarrow> list_manager result option" where
  "lm_fire m = map_option (map_sum id (\<lambda>(e, k). m\<lparr>lm_event := e, lm_pipe := k\<rparr>)) (pe_Fire (lm_event m) (lm_pipe m))"

definition app3_runImpl :: "int \<Rightarrow> list_manager \<Rightarrow> list_manager result option" where
  "app3_runImpl x m = lm_fire (m\<lparr>lm_queue := lm_queue m @ [EventA x], lm_tx := Suc (lm_tx m)\<rparr>)"

text \<open>\<open>app1\<close> looks at the size first, without the lock, and appends under it.\<close>

definition app1_full :: "list_manager \<Rightarrow> bool" where
  "app1_full m \<longleftrightarrow> length (lm_queue m) > MAX_QUEUE_SIZE"

definition app1_append :: "int \<Rightarrow> list_manager \<Rightarrow> list_manager result option" where
  "app1_append x m = lm_fire (m\<lparr>lm_queue := lm_queue m @ [EventA x], lm_tx := Suc (lm_tx m)\<rparr>)"

definition app1_runImpl :: "int \<Rightarrow> list_manager \<Rightarrow> list_manager result option" where
  "app1_runImpl x m =
     (if app1_full m then Some (Inr (m\<lparr>lm_dropped := Suc (lm_dropped m)\<rparr>)) else app1_append x m)"

definition app4_runImpl :: "list_manager \<Rightarrow> list_manager result option" where
  "app4_runImpl m = lm_fire (m\<lparr>lm_tx := Suc (lm_tx m)\<rparr>)"

definition lm_Consume :: "ab_event \<Rightarrow> list_manager \<Rightarrow> list_manager" where
  "lm_Consume e m = m\<lparr>lm_rx := Suc (lm_rx m)\<rparr>"

definition lm_Produce :: "list_manager \<Rightarrow> (ab_event list \<times> list_manager) result option" where
  "lm_Produce m =
     (let events = lm_queue m; m = m\<lparr>lm_queue := []\<rparr>
      in map_option (map_sum id (\<lambda>(e, k). (events, m\<lparr>lm_event := e, lm_pipe := k\<rparr>))) (pe_Consume (lm_event m) (lm_pipe m)))"

definition app4_Produce :: "list_manager \<Rightarrow> (ab_event list \<times> list_manager) result option" where
  "app4_Produce m =
     map_option (map_sum id (\<lambda>(e, k). ([], m\<lparr>lm_event := e, lm_pipe := k\<rparr>))) (pe_Consume (lm_event m) (lm_pipe m))"

definition lm_wf :: "list_manager \<Rightarrow> bool" where
  "lm_wf m \<longleftrightarrow> pe_wf (lm_event m) (lm_pipe m)"

lemma lm_fire_wf:
  assumes "lm_wf m"
  shows "\<exists>m'. lm_fire m = Some (Inr m') \<and> lm_wf m' \<and> lm_queue m' = lm_queue m \<and> lm_tx m' = lm_tx m \<and>
    lm_dropped m' = lm_dropped m \<and> lm_rx m' = lm_rx m \<and> pe_fired (lm_event m')"
  using pe_Fire_wf assms by (fastforce simp: lm_fire_def lm_wf_def)

lemma lm_Produce_wf:
  assumes "lm_wf m"
  shows "\<exists>m'. lm_Produce m = Some (Inr (lm_queue m, m')) \<and> lm_wf m' \<and> lm_queue m' = [] \<and> lm_tx m' = lm_tx m \<and>
    lm_dropped m' = lm_dropped m \<and> lm_rx m' = lm_rx m \<and> \<not> pe_fired (lm_event m')"
  using pe_Consume_wf assms by (fastforce simp: lm_Produce_def lm_wf_def Let_def)

lemma lm_wf_upd [simp]:
  "lm_wf (m\<lparr>lm_queue := q\<rparr>) = lm_wf m" "lm_wf (m\<lparr>lm_dropped := d\<rparr>) = lm_wf m" "lm_wf (m\<lparr>lm_tx := t\<rparr>) = lm_wf m"
  by (simp_all add: lm_wf_def)

section \<open>The bound of \<open>app1\<close>\<close>

datatype app1_op = RunImpl int | ProduceOp

text \<open>A sequence of turns of the two threads; the events that came out are collected.\<close>

fun app1_run :: "app1_op list \<Rightarrow> list_manager \<Rightarrow> (ab_event list \<times> list_manager) result option" where
  "app1_run [] m = Some (Inr ([], m))"
| "app1_run (RunImpl x # ops) m =
     (case app1_runImpl x m of
        Some (Inr m) \<Rightarrow> app1_run ops m
      | Some (Inl err) \<Rightarrow> Some (Inl err)
      | None \<Rightarrow> None)"
| "app1_run (ProduceOp # ops) m =
     (case lm_Produce m of
        Some (Inr (es, m)) \<Rightarrow> map_option (map_sum id (\<lambda>(out, m). (es @ out, m))) (app1_run ops m)
      | Some (Inl err) \<Rightarrow> Some (Inl err)
      | None \<Rightarrow> None)"

lemma app1_runImpl_spec:
  assumes "lm_wf m"
  shows "\<exists>m'. app1_runImpl x m = Some (Inr m') \<and> lm_wf m' \<and>
    (if length (lm_queue m) > MAX_QUEUE_SIZE
     then lm_queue m' = lm_queue m \<and> lm_tx m' = lm_tx m \<and> lm_dropped m' = Suc (lm_dropped m)
     else lm_queue m' = lm_queue m @ [EventA x] \<and> lm_tx m' = Suc (lm_tx m) \<and> lm_dropped m' = lm_dropped m \<and> pe_fired (lm_event m'))"
  using lm_fire_wf [of "m\<lparr>lm_queue := lm_queue m @ [EventA x], lm_tx := Suc (lm_tx m)\<rparr>"] assms
  by (auto simp: app1_runImpl_def app1_full_def app1_append_def)

lemma app1_run_spec:
  "lm_wf m \<Longrightarrow> length (lm_queue m) \<le> Suc MAX_QUEUE_SIZE \<Longrightarrow>
   \<exists>out m'. app1_run ops m = Some (Inr (out, m')) \<and> lm_wf m' \<and> length (lm_queue m') \<le> Suc MAX_QUEUE_SIZE \<and>
     lm_tx m' + length (lm_queue m) = lm_tx m + length out + length (lm_queue m') \<and>
     lm_tx m' + lm_dropped m' = lm_tx m + lm_dropped m + length (filter (\<lambda>op. op \<noteq> ProduceOp) ops)"
proof (induction ops arbitrary: m)
  case (Cons op ops)
  show ?case
  proof (cases op)
    case (RunImpl x)
    from app1_runImpl_spec [OF Cons.prems(1), of x] obtain m1 where m1: "app1_runImpl x m = Some (Inr m1)" "lm_wf m1"
      and q: "if length (lm_queue m) > MAX_QUEUE_SIZE
        then lm_queue m1 = lm_queue m \<and> lm_tx m1 = lm_tx m \<and> lm_dropped m1 = Suc (lm_dropped m)
        else lm_queue m1 = lm_queue m @ [EventA x] \<and> lm_tx m1 = Suc (lm_tx m) \<and> lm_dropped m1 = lm_dropped m \<and> pe_fired (lm_event m1)"
      by blast
    have "length (lm_queue m1) \<le> Suc MAX_QUEUE_SIZE" using q Cons.prems(2) by (auto split: if_splits)
    from Cons.IH [OF m1(2) this] m1(1) q RunImpl show ?thesis by (auto split: if_splits)
  next
    case ProduceOp
    from lm_Produce_wf [OF Cons.prems(1)] obtain m1 where
      m1: "lm_Produce m = Some (Inr (lm_queue m, m1))" "lm_wf m1" "lm_queue m1 = []" "lm_tx m1 = lm_tx m" "lm_dropped m1 = lm_dropped m"
      by blast
    from Cons.IH [OF m1(2)] m1 ProduceOp show ?thesis by auto
  qed
qed auto

text \<open>
  C27. \<^verbatim>\<open>app1\<close>: in any sequence of turns of the manager's thread and the router no call fails or blocks; every
  turn is counted as sent or as dropped; every event counted as sent comes out or is still queued; and the
  queue never holds more than \<open>MAX_QUEUE_SIZE + 1\<close> events.
\<close>

theorem app1_bounded:
  assumes "lm_wf m" "lm_queue m = []" "lm_tx m = 0" "lm_dropped m = 0"
  shows "\<exists>out m'. app1_run ops m = Some (Inr (out, m')) \<and> length (lm_queue m') \<le> Suc MAX_QUEUE_SIZE \<and>
    lm_tx m' = length out + length (lm_queue m') \<and>
    lm_tx m' + lm_dropped m' = length (filter (\<lambda>op. op \<noteq> ProduceOp) ops)"
  using app1_run_spec [OF assms(1), of ops] assms by auto

definition lm_fresh :: list_manager where
  "lm_fresh = \<lparr>lm_event = \<lparr>pe_fd0 = 3, pe_fd1 = 4, pe_fired = False\<rparr>, lm_pipe = kpipe_of 3 4 65536, lm_queue = [],
     lm_tx = 0, lm_dropped = 0, lm_rx = 0\<rparr>"

lemma lm_fresh_wf: "lm_wf lm_fresh"
  by (simp add: lm_fresh_def lm_wf_def pe_wf_def kpipe_of_def)

theorem app1_bounded_witness:
  "\<exists>out m'. app1_run [RunImpl 1, RunImpl 2, ProduceOp, RunImpl 3] lm_fresh = Some (Inr (out, m')) \<and>
     lm_tx m' = length out + length (lm_queue m') \<and> lm_tx m' + lm_dropped m' = 3"
  using app1_bounded [OF lm_fresh_wf, of "[RunImpl 1, RunImpl 2, ProduceOp, RunImpl 3]"] by (auto simp: lm_fresh_def)

lemma app1_runs:
  "lm_wf m \<Longrightarrow> length (lm_queue m) + n \<le> Suc MAX_QUEUE_SIZE \<Longrightarrow>
   \<exists>m'. app1_run (replicate n (RunImpl 0)) m = Some (Inr ([], m')) \<and> length (lm_queue m') = length (lm_queue m) + n"
proof (induction n arbitrary: m)
  case (Suc n)
  then have "\<not> length (lm_queue m) > MAX_QUEUE_SIZE" by simp
  with app1_runImpl_spec [OF Suc.prems(1), of 0] obtain m1 where
    m1: "app1_runImpl 0 m = Some (Inr m1)" "lm_wf m1" "lm_queue m1 = lm_queue m @ [EventA 0]" by auto
  with Suc.IH [OF m1(2)] Suc.prems(2) show ?case by auto
qed simp

text \<open>
  The test and the append as two steps of the manager's thread, with \<open>Produce\<close> of the router in between or not. The flag says
  that the test has let the turn pass; an access that does not come next is left out.
\<close>

datatype app1_access = TestSize | AppendLocked int | ProduceLocked

fun app1_access_step :: "app1_access \<Rightarrow> bool \<times> list_manager \<Rightarrow> (bool \<times> list_manager) result option" where
  "app1_access_step TestSize (False, m) =
     Some (Inr (if app1_full m then (False, m\<lparr>lm_dropped := Suc (lm_dropped m)\<rparr>) else (True, m)))"
| "app1_access_step (AppendLocked x) (True, m) = map_option (map_sum id (Pair False)) (app1_append x m)"
| "app1_access_step ProduceLocked (b, m) = map_option (map_sum id (\<lambda>(es, m). (b, m))) (lm_Produce m)"
| "app1_access_step _ s = Some (Inr s)"

fun app1_accesses :: "app1_access list \<Rightarrow> bool \<times> list_manager \<Rightarrow> (bool \<times> list_manager) result option" where
  "app1_accesses [] s = Some (Inr s)"
| "app1_accesses (a # as) s =
     (case app1_access_step a s of
        None \<Rightarrow> None
      | Some (Inl err) \<Rightarrow> Some (Inl err)
      | Some (Inr s) \<Rightarrow> app1_accesses as s)"

lemma app1_access_step_ok:
  assumes "lm_wf m" "length (lm_queue m) \<le> Suc MAX_QUEUE_SIZE" "b \<longrightarrow> \<not> app1_full m"
  shows "\<exists>b' m'. app1_access_step a (b, m) = Some (Inr (b', m')) \<and> lm_wf m' \<and> length (lm_queue m') \<le> Suc MAX_QUEUE_SIZE \<and>
    (b' \<longrightarrow> \<not> app1_full m')"
  using assms lm_Produce_wf [OF assms(1)] lm_fire_wf [of "m\<lparr>lm_queue := lm_queue m @ [EventA x], lm_tx := Suc (lm_tx m)\<rparr>" for x]
  by (cases a; cases b) (fastforce simp: app1_full_def app1_append_def)+

text \<open>The unlocked test does no harm with one producer: between it and the append the list can only get shorter.\<close>

lemma app1_interleaved_bounded:
  assumes "lm_wf m" "length (lm_queue m) \<le> Suc MAX_QUEUE_SIZE" "b \<longrightarrow> \<not> app1_full m"
  shows "\<exists>b' m'. app1_accesses as (b, m) = Some (Inr (b', m')) \<and> lm_wf m' \<and> length (lm_queue m') \<le> Suc MAX_QUEUE_SIZE"
  using assms
proof (induction as arbitrary: b m)
  case (Cons a as)
  from app1_access_step_ok [OF Cons.prems, of a] Cons.IH show ?case by fastforce
qed simp

text \<open>
  The limit of \<^verbatim>\<open>app1\<close> and \<^verbatim>\<open>main\<close> is off by one: the test is \<open>size() > MAX_QUEUE_SIZE\<close>, so 5001 turns without a
  reader are all accepted and the queue holds one event more than \<open>MAX_QUEUE_SIZE\<close>.
\<close>

theorem app1_exceeds_limit:
  "\<exists>m'. app1_run (replicate (Suc MAX_QUEUE_SIZE) (RunImpl 0)) lm_fresh = Some (Inr ([], m')) \<and>
     length (lm_queue m') = Suc MAX_QUEUE_SIZE"
  using app1_runs [OF lm_fresh_wf, of "Suc MAX_QUEUE_SIZE"] by (simp add: lm_fresh_def)

section \<open>\<open>app8\<close>: two lists and \<open>try_lock\<close>\<close>

text \<open>
  Thread 0 is the manager's, thread 1 the router. A mutex is free or held by a thread; \<open>try_lock\<close> on a held mutex
  returns \<open>false\<close> (also in the thread that holds it, as the implementation on Linux does).
\<close>

record app8_manager =
  a8_m1 :: "nat option"
  a8_m2 :: "nat option"
  a8_q1 :: "ab_event list"
  a8_q2 :: "ab_event list"
  a8_event :: piped_event
  a8_pipe :: kpipe
  a8_tx :: nat
  a8_dropped :: nat

definition try_lock :: "nat \<Rightarrow> nat option \<Rightarrow> bool \<times> nat option" where
  "try_lock t m = (case m of None \<Rightarrow> (True, Some t) | Some h \<Rightarrow> (False, m))"

text \<open>\<open>_runImpl\<close> up to the counter, and its call of \<open>Fire\<close>; the result tells whether \<open>Fire\<close> follows.\<close>

definition app8_push :: "ab_event \<Rightarrow> app8_manager \<Rightarrow> bool \<times> app8_manager" where
  "app8_push event m =
     (let (b1, l1) = try_lock 0 (a8_m1 m)
      in if b1 then (True, m\<lparr>a8_m1 := None, a8_q1 := a8_q1 m @ [event], a8_tx := Suc (a8_tx m)\<rparr>)
         else let (b2, l2) = try_lock 0 (a8_m2 m)
              in if b2 then (True, m\<lparr>a8_m2 := None, a8_q2 := a8_q2 m @ [event], a8_tx := Suc (a8_tx m)\<rparr>)
                 else (False, m\<lparr>a8_dropped := Suc (a8_dropped m)\<rparr>))"

definition app8_fire :: "app8_manager \<Rightarrow> app8_manager result option" where
  "app8_fire m = map_option (map_sum id (\<lambda>(e, k). m\<lparr>a8_event := e, a8_pipe := k\<rparr>)) (pe_Fire (a8_event m) (a8_pipe m))"

text \<open>
  The condition \<open>txMutex2.try_lock() && !txQueue2.empty()\<close> keeps the lock when the list is empty: only the branch
  body unlocks.
\<close>

definition app8_Produce :: "app8_manager \<Rightarrow> (ab_event list \<times> app8_manager) result option" where
  "app8_Produce m =
     (let (b2, l2) = try_lock 1 (a8_m2 m); m = m\<lparr>a8_m2 := l2\<rparr>;
          (events, m) =
            (if b2 \<and> a8_q2 m \<noteq> [] then (a8_q2 m, m\<lparr>a8_q2 := [], a8_m2 := None\<rparr>)
             else let (b1, l1) = try_lock 1 (a8_m1 m); m = m\<lparr>a8_m1 := l1\<rparr>
                  in if b1 \<and> a8_q1 m \<noteq> [] then (a8_q1 m, m\<lparr>a8_q1 := [], a8_m1 := None\<rparr>) else ([], m))
      in map_option (map_sum id (\<lambda>(e, k). (events, m\<lparr>a8_event := e, a8_pipe := k\<rparr>))) (pe_Consume (a8_event m) (a8_pipe m)))"

datatype app8_op = Push8 int | Fire8 | Produce8

fun app8_run :: "app8_op list \<Rightarrow> app8_manager \<Rightarrow> (ab_event list \<times> app8_manager) result option" where
  "app8_run [] m = Some (Inr ([], m))"
| "app8_run (Push8 x # ops) m = app8_run ops (snd (app8_push (EventA x) m))"
| "app8_run (Fire8 # ops) m =
     (case app8_fire m of Some (Inr m) \<Rightarrow> app8_run ops m | Some (Inl err) \<Rightarrow> Some (Inl err) | None \<Rightarrow> None)"
| "app8_run (Produce8 # ops) m =
     (case app8_Produce m of
        Some (Inr (es, m)) \<Rightarrow> map_option (map_sum id (\<lambda>(out, m). (es @ out, m))) (app8_run ops m)
      | Some (Inl err) \<Rightarrow> Some (Inl err)
      | None \<Rightarrow> None)"

definition a8_fresh :: app8_manager where
  "a8_fresh = \<lparr>a8_m1 = None, a8_m2 = None, a8_q1 = [], a8_q2 = [], a8_event = \<lparr>pe_fd0 = 3, pe_fd1 = 4, pe_fired = False\<rparr>,
     a8_pipe = kpipe_of 3 4 65536, a8_tx = 0, a8_dropped = 0\<rparr>"

lemma app8_jammed:
  assumes "a8_m1 m = Some 1" "a8_m2 m = Some 1" "pe_wf (a8_event m) (a8_pipe m)"
  shows "\<exists>m'. app8_run ops m = Some (Inr ([], m')) \<and> a8_tx m' = a8_tx m \<and>
    a8_dropped m' = a8_dropped m + length (filter (\<lambda>op. op \<noteq> Fire8 \<and> op \<noteq> Produce8) ops)"
  using assms
proof (induction ops arbitrary: m)
  case (Cons op ops)
  show ?case
  proof (cases op)
    case (Push8 x)
    have "snd (app8_push (EventA x) m) = m\<lparr>a8_dropped := Suc (a8_dropped m)\<rparr>"
      using Cons.prems by (simp add: app8_push_def try_lock_def)
    with Cons.IH [of "m\<lparr>a8_dropped := Suc (a8_dropped m)\<rparr>"] Cons.prems Push8 show ?thesis by auto
  next
    case Fire8
    from pe_Fire_wf [OF Cons.prems(3)] obtain k where k: "pe_Fire (a8_event m) (a8_pipe m) = Some (Inr ((a8_event m)\<lparr>pe_fired := True\<rparr>, k))"
      "pe_wf ((a8_event m)\<lparr>pe_fired := True\<rparr>) k" by blast
    with Cons.IH [of "m\<lparr>a8_event := (a8_event m)\<lparr>pe_fired := True\<rparr>, a8_pipe := k\<rparr>"] Cons.prems Fire8 show ?thesis
      by (auto simp: app8_fire_def)
  next
    case Produce8
    from pe_Consume_wf [OF Cons.prems(3)] obtain k where
      k: "pe_Consume (a8_event m) (a8_pipe m) = Some (Inr ((a8_event m)\<lparr>pe_fired := False\<rparr>, k))" "pe_wf ((a8_event m)\<lparr>pe_fired := False\<rparr>) k"
      by blast
    have "app8_Produce m = Some (Inr ([], m\<lparr>a8_event := (a8_event m)\<lparr>pe_fired := False\<rparr>, a8_pipe := k\<rparr>))"
      using Cons.prems(1,2) k(1) by (simp add: app8_Produce_def try_lock_def)
    with Cons.IH [of "m\<lparr>a8_event := (a8_event m)\<lparr>pe_fired := False\<rparr>, a8_pipe := k\<rparr>"] Cons.prems k(2) Produce8 show ?thesis
      by auto
  qed
qed simp

lemma app8_jam_reached:
  "\<exists>m. app8_run [Push8 1, Fire8, Push8 2, Produce8, Fire8, Produce8] a8_fresh = Some (Inr ([EventA 1, EventA 2], m)) \<and>
     a8_m1 m = Some 1 \<and> a8_m2 m = Some 1 \<and> pe_wf (a8_event m) (a8_pipe m)"
  by (simp add: a8_fresh_def app8_push_def app8_fire_def app8_Produce_def try_lock_def pe_Fire_def pe_Consume_def sys_write_def
      sys_read_def kpipe_of_def pe_wf_def Let_def)

text \<open>
  C38. \<^verbatim>\<open>app8\<close> can jam for good: the manager pushes and fires, pushes again, the router takes both events, the manager
  fires for the second, and the router finds both lists empty and keeps both locks. From then on every
  event is dropped, whatever the threads do.
\<close>

theorem app8_jams:
  "\<exists>m. app8_run [Push8 1, Fire8, Push8 2, Produce8, Fire8, Produce8] a8_fresh = Some (Inr ([EventA 1, EventA 2], m)) \<and>
     (\<forall>ops. \<exists>m'. app8_run ops m = Some (Inr ([], m')) \<and> a8_tx m' = a8_tx m \<and>
        a8_dropped m' = a8_dropped m + length (filter (\<lambda>op. op \<noteq> Fire8 \<and> op \<noteq> Produce8) ops))"
  using app8_jam_reached app8_jammed by blast

section \<open>\<open>main\<close>: three managers\<close>

text \<open>
  Manager C passes every event on: \<open>Consume\<close> queues and signals it. The loop of \<open>main\<close> serves C itself, by the
  type of the event, and leaves the others to the poller. Objects 0, 1 and 2 are A, B and C; \<open>started i\<close> tells
  whether \<open>Run\<close> was called on manager \<open>i\<close>, without which its counters are null.
\<close>

definition mainC_Consume :: "ab_event \<Rightarrow> list_manager \<Rightarrow> list_manager result option" where
  "mainC_Consume e m =
     lm_fire (m\<lparr>lm_queue := lm_queue m @ [e], lm_rx := Suc (lm_rx m), lm_tx := Suc (lm_tx m)\<rparr>)"

fun main_dispatch ::
    "(nat \<Rightarrow> bool) \<Rightarrow> ab_event list \<Rightarrow> (nat \<rightharpoonup> list_manager) \<Rightarrow> nat \<Rightarrow> ((nat \<rightharpoonup> list_manager) \<times> nat) result" where
  "main_dispatch started [] objs produced = Inr (objs, produced)"
| "main_dispatch started (e # es) objs produced =
     (let i = (case e of EventA _ \<Rightarrow> 0 | EventB _ \<Rightarrow> 1)
      in case objs i of
           None \<Rightarrow> Inl (UndefinedBehaviour ''manager->Consume'')
         | Some m \<Rightarrow>
             if \<not> started i then Inl (UndefinedBehaviour ''IncrementCounter(nullptr)'')
             else main_dispatch started es (objs(i \<mapsto> lm_Consume e m)) (Suc produced))"

fun main_body ::
    "(nat \<Rightarrow> bool) \<Rightarrow> event_poller \<Rightarrow> int list \<Rightarrow> (nat \<rightharpoonup> list_manager) \<Rightarrow> nat
       \<Rightarrow> ((nat \<rightharpoonup> list_manager) \<times> nat) result option" where
  "main_body started po [] objs produced = Some (Inr (objs, produced))"
| "main_body started po (fd # fds) objs produced =
     (case objs 2 of
        None \<Rightarrow> Some (Inl (UndefinedBehaviour ''managerC->GetSources''))
      | Some c \<Rightarrow>
          if fd = pe_GetSource (lm_event c) then
            (case lm_Produce c of
               None \<Rightarrow> None
             | Some (Inl err) \<Rightarrow> Some (Inl err)
             | Some (Inr (events, c)) \<Rightarrow>
                 (case main_dispatch started events (objs(2 \<mapsto> c)) produced of
                    Inl err \<Rightarrow> Some (Inl err)
                  | Inr (objs, produced) \<Rightarrow> main_body started po fds objs produced))
          else
            (case po_Execute lm_Produce mainC_Consume po fd objs of
               None \<Rightarrow> None
             | Some (Inl err) \<Rightarrow> Some (Inl err)
             | Some (Inr objs) \<Rightarrow> main_body started po fds objs produced))"

lemma mainC_Consume_all:
  "lm_wf n \<Longrightarrow> \<exists>n'. consume_list mainC_Consume es n = Some (Inr n') \<and> lm_wf n' \<and> lm_queue n' = lm_queue n @ es \<and>
    lm_rx n' = lm_rx n + length es \<and> lm_tx n' = lm_tx n + length es \<and> pe_fd0 (lm_event n') = pe_fd0 (lm_event n)"
proof (induction es arbitrary: n)
  case (Cons e es)
  let ?n = "n\<lparr>lm_queue := lm_queue n @ [e], lm_rx := Suc (lm_rx n), lm_tx := Suc (lm_tx n)\<rparr>"
  have "pe_wf (lm_event n) (lm_pipe n)" using Cons.prems by (simp add: lm_wf_def)
  from pe_Fire_wf [OF this] obtain n1 where n1: "mainC_Consume e n = Some (Inr n1)" "lm_wf n1" "lm_queue n1 = lm_queue n @ [e]"
    "lm_rx n1 = Suc (lm_rx n)" "lm_tx n1 = Suc (lm_tx n)" "pe_fd0 (lm_event n1) = pe_fd0 (lm_event n)"
    by (auto simp: mainC_Consume_def lm_fire_def lm_wf_def)
  from Cons.IH [OF n1(2)] n1 show ?case by auto
qed auto

lemma fold_lm_Consume: "fold lm_Consume es m = m\<lparr>lm_rx := lm_rx m + length es\<rparr>"
  by (induction es arbitrary: m) (simp_all add: lm_Consume_def)

lemma main_dispatch_A:
  "started 0 \<Longrightarrow> objs 0 = Some a \<Longrightarrow> (\<And>e. e \<in> set es \<Longrightarrow> \<exists>x. e = EventA x) \<Longrightarrow>
   main_dispatch started es objs produced = Inr (objs(0 \<mapsto> fold lm_Consume es a), produced + length es)"
proof (induction es arbitrary: objs a produced)
  case (Cons e es)
  from Cons.prems(3) [of e] obtain x where e: "e = EventA x" by auto
  have "main_dispatch started es (objs(0 \<mapsto> lm_Consume e a)) (Suc produced) =
      Inr ((objs(0 \<mapsto> lm_Consume e a))(0 \<mapsto> fold lm_Consume es (lm_Consume e a)), Suc produced + length es)"
    by (rule Cons.IH) (use Cons.prems in auto)
  then show ?case using Cons.prems e by (simp del: fun_upd_apply)
qed (simp add: fun_upd_idem)

text \<open>
  A round of \<open>main\<close> that serves A and then C: A's events pass through C and come back to A, together with what C
  still had; every one is counted once as produced; B, whose \<open>Run\<close> is commented out, is not touched, so its
  null counters are never used; nothing fails or blocks.
\<close>

theorem main_round:
  assumes "objs 0 = Some a" "objs 2 = Some c" "lm_wf a" "lm_wf c" "started 0"
    "po_watchers po fdA = Some (0, 2)" "fdA \<noteq> pe_GetSource (lm_event c)"
    "\<forall>e \<in> set (lm_queue a @ lm_queue c). \<exists>x. e = EventA x"
  shows "\<exists>objs' a' c'. main_body started po [fdA, pe_GetSource (lm_event c)] objs produced =
      Some (Inr (objs', produced + length (lm_queue c @ lm_queue a))) \<and>
    objs' 0 = Some a' \<and> objs' 2 = Some c' \<and> objs' 1 = objs 1 \<and>
    lm_queue a' = [] \<and> lm_queue c' = [] \<and> lm_rx a' = lm_rx a + length (lm_queue c @ lm_queue a) \<and>
    lm_tx c' = lm_tx c + length (lm_queue a)"
proof -
  from lm_Produce_wf [OF assms(3)] obtain a1 where a1: "lm_Produce a = Some (Inr (lm_queue a, a1))" "lm_queue a1 = []" "lm_rx a1 = lm_rx a"
    by blast
  from mainC_Consume_all [OF assms(4), of "lm_queue a"] obtain c1 where c1: "consume_list mainC_Consume (lm_queue a) c = Some (Inr c1)"
    "lm_wf c1" "lm_queue c1 = lm_queue c @ lm_queue a" "lm_tx c1 = lm_tx c + length (lm_queue a)"
    "pe_fd0 (lm_event c1) = pe_fd0 (lm_event c)" by blast
  have x: "po_Execute lm_Produce mainC_Consume po fdA objs = Some (Inr (objs(0 \<mapsto> a1, 2 \<mapsto> c1)))"
    using assms(1,2,6) a1(1) c1(1) by (intro po_Execute_live) auto
  from lm_Produce_wf [OF c1(2)] obtain c2 where c2: "lm_Produce c1 = Some (Inr (lm_queue c1, c2))" "lm_queue c2 = []" "lm_tx c2 = lm_tx c1"
    by blast
  have d: "main_dispatch started (lm_queue c1) (objs(0 \<mapsto> a1, 2 \<mapsto> c2)) produced =
      Inr (objs(0 \<mapsto> a1, 2 \<mapsto> c2, 0 \<mapsto> fold lm_Consume (lm_queue c1) a1), produced + length (lm_queue c1))"
    using assms(5,8) c1(3) by (intro main_dispatch_A) auto
  show ?thesis
    using assms(1,2,7) x c2 d a1(2,3) c1(3-5) by (simp add: pe_GetSource_def fold_lm_Consume)
qed

theorem main_round_witness:
  "\<exists>objs' a'. main_body (\<lambda>i. i \<noteq> 1) \<lparr>po_fd = 9, po_watchers = [3 \<mapsto> (0, 2), 5 \<mapsto> (1, 2)]\<rparr> [3, 7]
     [0 \<mapsto> lm_fresh\<lparr>lm_queue := [EventA 1, EventA 2]\<rparr>,
      2 \<mapsto> lm_fresh\<lparr>lm_event := \<lparr>pe_fd0 = 7, pe_fd1 = 8, pe_fired = False\<rparr>, lm_pipe := kpipe_of 7 8 65536\<rparr>] 0 = Some (Inr (objs', 2)) \<and>
   objs' 0 = Some a' \<and> lm_rx a' = 2"
proof -
  let ?a = "lm_fresh\<lparr>lm_queue := [EventA 1, EventA 2]\<rparr>"
  let ?c = "lm_fresh\<lparr>lm_event := \<lparr>pe_fd0 = 7, pe_fd1 = 8, pe_fired = False\<rparr>, lm_pipe := kpipe_of 7 8 65536\<rparr>"
  have "lm_wf ?a" "lm_wf ?c" using lm_fresh_wf by (simp_all add: lm_wf_def pe_wf_def kpipe_of_def)
  then show ?thesis
    using main_round [of "[0 \<mapsto> ?a, 2 \<mapsto> ?c]" ?a ?c "\<lambda>i. i \<noteq> 1" "\<lparr>po_fd = 9, po_watchers = [3 \<mapsto> (0, 2), 5 \<mapsto> (1, 2)]\<rparr>" 3 0]
    by (auto simp: lm_fresh_def pe_GetSource_def numeral_2_eq_2 simp del: main_body.simps)
qed

end
