(* ===== verification/LockedList.thy ===== *)
theory LockedList
  imports Prelude
begin

text \<open>
  \<^verbatim>\<open>inc/List.h\<close>: Stroustrup's wrapper. \<open>operator->\<close> locks the mutex and returns a proxy; the call on the
  wrapped object goes through the proxy, and the proxy's destructor unlocks at the end of the full
  expression. First the operations as one thread runs them (a mutex is \<open>None\<close> or held by a thread; waiting
  for another thread is \<open>None\<close>), then any number of threads, a step at a time.
\<close>

section \<open>Operations\<close>

record 'd wrapper =
  wr_data :: 'd
  wr_mutex :: "nat option"

text \<open>\<open>operator->\<close> by thread \<open>t\<close>; locking a \<open>std::mutex\<close> one already holds is undefined.\<close>

definition wr_arrow :: "nat \<Rightarrow> 'd wrapper \<Rightarrow> 'd wrapper result option" where
  "wr_arrow t w =
     (case wr_mutex w of
        None \<Rightarrow> Some (Inr (w\<lparr>wr_mutex := Some t\<rparr>))
      | Some h \<Rightarrow> if h = t then Some (Inl (UndefinedBehaviour ''mutex.lock'')) else None)"

text \<open>\<open>~CallProxy\<close> runs \<open>Unlock\<close>; unlocking a mutex one does not hold is undefined.\<close>

definition wr_release :: "nat \<Rightarrow> 'd wrapper \<Rightarrow> 'd wrapper result" where
  "wr_release t w =
     (if wr_mutex w = Some t then Inr (w\<lparr>wr_mutex := None\<rparr>) else Inl (UndefinedBehaviour ''mutex.unlock''))"

text \<open>A full expression \<open>w->f()\<close>: the method returns a value and the new object.\<close>

definition wr_call :: "nat \<Rightarrow> ('d \<Rightarrow> 'r \<times> 'd) \<Rightarrow> 'd wrapper \<Rightarrow> ('r \<times> 'd wrapper) result option" where
  "wr_call t f w =
     (case wr_arrow t w of
        None \<Rightarrow> None
      | Some (Inl err) \<Rightarrow> Some (Inl err)
      | Some (Inr w) \<Rightarrow>
          (let (r, d) = f (wr_data w)
           in Some (map_sum id (Pair r) (wr_release t (w\<lparr>wr_data := d\<rparr>)))))"

text \<open>\<open>queue->splice(queue->end(), from, at)\<close> and the overload for a whole list; the proxy lives to the end.\<close>

definition Append_at :: "nat \<Rightarrow> 'a list wrapper \<Rightarrow> 'a list \<Rightarrow> nat \<Rightarrow> ('a list wrapper \<times> 'a list) result option" where
  "Append_at t to from at =
     (case wr_arrow t to of
        None \<Rightarrow> None
      | Some (Inl err) \<Rightarrow> Some (Inl err)
      | Some (Inr queue) \<Rightarrow>
          if length from \<le> at then Some (Inl (UndefinedBehaviour ''splice''))
          else Some (map_sum id (\<lambda>q. (q, take at from @ drop (Suc at) from))
                 (wr_release t (queue\<lparr>wr_data := wr_data queue @ [from ! at]\<rparr>))))"

definition Append_all :: "nat \<Rightarrow> 'a list wrapper \<Rightarrow> 'a list \<Rightarrow> ('a list wrapper \<times> 'a list) result option" where
  "Append_all t to from =
     (case wr_arrow t to of
        None \<Rightarrow> None
      | Some (Inl err) \<Rightarrow> Some (Inl err)
      | Some (Inr queue) \<Rightarrow>
          Some (map_sum id (\<lambda>q. (q, [])) (wr_release t (queue\<lparr>wr_data := wr_data queue @ from\<rparr>))))"

text \<open>
  On an unlocked list every expression through the wrapper runs its method once and leaves the mutex unlocked;
  \<open>Append\<close> moves the element, or all elements, to the end and out of the other list. A second \<open>->\<close> on the
  same list while a proxy is alive, as in \<open>w->f(w->g())\<close>, locks the mutex twice in one thread.
\<close>

theorem wrapper_call_spec:
  assumes "wr_mutex w = None" "at < length from" "wr_arrow t w = Some (Inr w')"
  shows "wr_call t f w = Some (Inr (fst (f (wr_data w)), \<lparr>wr_data = snd (f (wr_data w)), wr_mutex = None\<rparr>)) \<and>
    Append_at t w from at = Some (Inr (\<lparr>wr_data = wr_data w @ [from ! at], wr_mutex = None\<rparr>, take at from @ drop (Suc at) from)) \<and>
    Append_all t w from = Some (Inr (\<lparr>wr_data = wr_data w @ from, wr_mutex = None\<rparr>, [])) \<and>
    wr_call t f w' = Some (Inl (UndefinedBehaviour ''mutex.lock''))"
  using assms
  by (cases w) (auto simp: wr_call_def wr_arrow_def wr_release_def Append_at_def Append_all_def Let_def split: prod.splits)

theorem wrapper_call_spec_witness:
  "wr_call 1 (\<lambda>d. (length d, d @ [5])) \<lparr>wr_data = [3, 4 :: nat], wr_mutex = None\<rparr> =
     Some (Inr (2, \<lparr>wr_data = [3, 4, 5], wr_mutex = None\<rparr>)) \<and>
   Append_all 1 \<lparr>wr_data = [3, 4], wr_mutex = None\<rparr> [7 :: nat] = Some (Inr (\<lparr>wr_data = [3, 4, 7], wr_mutex = None\<rparr>, []))"
  using wrapper_call_spec [of "\<lparr>wr_data = [3, 4 :: nat], wr_mutex = None\<rparr>" 0 "[7]" 1 "\<lparr>wr_data = [3, 4], wr_mutex = Some 1\<rparr>"
      "\<lambda>d. (length d, d @ [5])"]
  by (simp add: wr_arrow_def)

section \<open>Many threads\<close>

datatype 'd wpc =
    WOut                    \<comment> \<open>outside\<close>
  | WHold "'d \<Rightarrow> 'd"       \<comment> \<open>\<open>operator->\<close> has returned; the method is to be called\<close>
  | WDone                   \<comment> \<open>the method has returned; the proxy is still alive\<close>

record 'd wrapper_sys =
  ws_obj :: "'d wrapper"
  ws_pc :: "nat \<Rightarrow> 'd wpc"
  ws_calls :: "('d \<Rightarrow> 'd) list"      \<comment> \<open>the methods called so far, in order\<close>

definition wrapper_init :: "'d \<Rightarrow> 'd wrapper_sys \<Rightarrow> bool" where
  "wrapper_init d0 s \<longleftrightarrow> s = \<lparr>ws_obj = \<lparr>wr_data = d0, wr_mutex = None\<rparr>, ws_pc = (\<lambda>_. WOut), ws_calls = []\<rparr>"

inductive wrapper_step :: "'d wrapper_sys \<Rightarrow> 'd wrapper_sys \<Rightarrow> bool" where
  w_arrow: "ws_pc s t = WOut \<Longrightarrow> wr_arrow t (ws_obj s) = Some (Inr w) \<Longrightarrow>
    wrapper_step s (s\<lparr>ws_obj := w, ws_pc := (ws_pc s)(t := WHold f)\<rparr>)"
| w_method: "ws_pc s t = WHold f \<Longrightarrow>
    wrapper_step s (s\<lparr>ws_obj := (ws_obj s)\<lparr>wr_data := f (wr_data (ws_obj s))\<rparr>, ws_pc := (ws_pc s)(t := WDone),
      ws_calls := ws_calls s @ [f]\<rparr>)"
| w_release: "ws_pc s t = WDone \<Longrightarrow> wr_release t (ws_obj s) = Inr w \<Longrightarrow>
    wrapper_step s (s\<lparr>ws_obj := w, ws_pc := (ws_pc s)(t := WOut)\<rparr>)"

definition wrapper_inv :: "'d \<Rightarrow> 'd wrapper_sys \<Rightarrow> bool" where
  "wrapper_inv d0 s \<longleftrightarrow> (\<forall>t. ws_pc s t \<noteq> WOut \<longleftrightarrow> wr_mutex (ws_obj s) = Some t) \<and>
     wr_data (ws_obj s) = fold (\<lambda>f d. f d) (ws_calls s) d0"

lemma wr_arrowD: "wr_arrow t w = Some (Inr w') \<Longrightarrow> wr_mutex w = None \<and> w' = w\<lparr>wr_mutex := Some t\<rparr>"
  by (auto simp: wr_arrow_def split: option.splits if_splits)

lemma wr_releaseD: "wr_release t w = Inr w' \<Longrightarrow> wr_mutex w = Some t \<and> w' = w\<lparr>wr_mutex := None\<rparr>"
  by (auto simp: wr_release_def split: if_splits)

lemma wrapper_inv_step:
  assumes "wrapper_step s s'" "wrapper_inv d0 s" shows "wrapper_inv d0 s'"
proof -
  from assms(2) have i: "\<And>t. ws_pc s t \<noteq> WOut \<longleftrightarrow> wr_mutex (ws_obj s) = Some t"
    and d: "wr_data (ws_obj s) = fold (\<lambda>f d. f d) (ws_calls s) d0" by (simp_all add: wrapper_inv_def)
  from assms(1) show ?thesis
  proof cases
    case (w_arrow t w f)
    from wr_arrowD [OF w_arrow(3)] i have "\<And>u. ws_pc s u = WOut" by simp
    with wr_arrowD [OF w_arrow(3)] w_arrow(1) d show ?thesis by (simp add: wrapper_inv_def)
  next
    case (w_method t f)
    then have "wr_mutex (ws_obj s) = Some t" using i [of t] by simp
    with i w_method d show ?thesis by (simp add: wrapper_inv_def)
  next
    case (w_release t w)
    from wr_releaseD [OF w_release(3)] i have "\<And>u. u \<noteq> t \<Longrightarrow> ws_pc s u = WOut" by fastforce
    with wr_releaseD [OF w_release(3)] w_release(1) d show ?thesis by (simp add: wrapper_inv_def)
  qed
qed

interpretation wrapper: inductive_invariant "wrapper_init d0" wrapper_step "wrapper_inv d0" for d0
proof
  show "wrapper_inv d0 s" if "wrapper_init d0 s" for s using that by (simp add: wrapper_init_def wrapper_inv_def)
  show "wrapper_inv d0 t" if "wrapper_inv d0 s" "wrapper_step s t" for s t
    by (rule wrapper_inv_step [OF that(2,1)])
qed

text \<open>
  Any number of threads using one wrapped object: at most one is between \<open>operator->\<close> and the end of its
  expression, and the object is always the result of the method calls made so far, one after the other. A
  thread that holds a proxy is never refused its unlock.
\<close>

theorem wrapper_atomic:
  assumes "reach (wrapper_init d0) wrapper_step s"
  shows "(\<forall>t u. ws_pc s t \<noteq> WOut \<and> ws_pc s u \<noteq> WOut \<longrightarrow> t = u) \<and>
    wr_data (ws_obj s) = fold (\<lambda>f d. f d) (ws_calls s) d0 \<and>
    (\<forall>t. ws_pc s t = WDone \<longrightarrow> (\<exists>w. wr_release t (ws_obj s) = Inr w \<and> wr_mutex w = None))"
proof -
  from wrapper.inv_reach [OF assms] have i: "\<And>t. ws_pc s t \<noteq> WOut \<longleftrightarrow> wr_mutex (ws_obj s) = Some t"
    and d: "wr_data (ws_obj s) = fold (\<lambda>f d. f d) (ws_calls s) d0" by (auto simp: wrapper_inv_def)
  have "t = u" if "ws_pc s t \<noteq> WOut" "ws_pc s u \<noteq> WOut" for t u using that i [of t] i [of u] by simp
  moreover have "\<exists>w. wr_release t (ws_obj s) = Inr w \<and> wr_mutex w = None" if "ws_pc s t = WDone" for t
    using that i [of t] by (simp add: wr_release_def)
  ultimately show ?thesis using d by blast
qed

definition wrapper_demo :: "nat wrapper_sys" where
  "wrapper_demo = \<lparr>ws_obj = \<lparr>wr_data = 1, wr_mutex = Some 3\<rparr>, ws_pc = (\<lambda>_. WOut)(3 := WDone), ws_calls = [Suc]\<rparr>"

lemma wrapper_demo_reach: "reach (wrapper_init 0) wrapper_step wrapper_demo"
proof -
  let ?s0 = "\<lparr>ws_obj = \<lparr>wr_data = 0, wr_mutex = None\<rparr>, ws_pc = (\<lambda>_. WOut), ws_calls = []\<rparr> :: nat wrapper_sys"
  let ?s1 = "?s0\<lparr>ws_obj := \<lparr>wr_data = 0, wr_mutex = Some 3\<rparr>, ws_pc := (ws_pc ?s0)(3 := WHold Suc)\<rparr>"
  have "reach (wrapper_init 0) wrapper_step ?s0" by (rule reach_init) (simp add: wrapper_init_def)
  then have "reach (wrapper_init 0) wrapper_step ?s1"
    by (rule reach_step) (rule w_arrow, simp_all add: wr_arrow_def)
  moreover have "wrapper_step ?s1 wrapper_demo"
    using w_method [of ?s1 3 Suc] by (simp add: wrapper_demo_def)
  ultimately show ?thesis by (rule reach_step)
qed

theorem wrapper_atomic_witness:
  "wr_data (ws_obj wrapper_demo) = fold (\<lambda>f d. f d) (ws_calls wrapper_demo) 0 \<and>
   (\<exists>w. wr_release 3 (ws_obj wrapper_demo) = Inr w \<and> wr_mutex w = None)"
  using wrapper_atomic [OF wrapper_demo_reach] by (simp add: wrapper_demo_def)

end
