(* ===== verification/Index_Bits.thy ===== *)
theory Index_Bits
  imports Prelude
begin

text \<open>
  The bit-level helpers the queues share: rounding a size up to a power of two
  (\<^verbatim>\<open>atomic_queue.h\<close>, \<^verbatim>\<open>readerwriterqueue.h\<close>, \<^verbatim>\<open>concurrentqueue.h\<close>), the index shuffling of
  \<^verbatim>\<open>atomic_queue.h\<close>, pointer alignment, and the comparison of wrapping counters.
\<close>

section \<open>Definitions\<close>

subsection \<open>\<open>atomic_queue.h\<close>\<close>

definition or_equal :: "'a :: len word \<Rightarrow> nat \<Rightarrow> 'a word" where
  "or_equal x u = x OR drop_bit u x"

text \<open>The variadic overload.\<close>

definition or_equal_all :: "'a :: len word \<Rightarrow> nat list \<Rightarrow> 'a word" where
  "or_equal_all x us = foldl or_equal x us"

definition round_up_to_power_of_2_32 :: "u32 \<Rightarrow> u32" where
  "round_up_to_power_of_2_32 a = or_equal_all (a - 1) [1, 2, 4, 8, 16] + 1"

definition round_up_to_power_of_2_64 :: "u64 \<Rightarrow> u64" where
  "round_up_to_power_of_2_64 a = or_equal_all (a - 1) [1, 2, 4, 8, 16, 32] + 1"

fun GetCacheLineIndexBits :: "nat \<Rightarrow> nat" where
  "GetCacheLineIndexBits n =
     (if n = 256 then 8 else if n = 128 then 7 else if n = 64 then 6 else if n = 32 then 5
      else if n = 16 then 4 else if n = 8 then 3 else if n = 4 then 2 else if n = 2 then 1 else 0)"

definition GetIndexShuffleBits :: "bool \<Rightarrow> u32 \<Rightarrow> nat \<Rightarrow> nat" where
  "GetIndexShuffleBits minimize_contention array_size elements_per_cache_line =
     (if \<not> minimize_contention then 0
      else let bits = GetCacheLineIndexBits elements_per_cache_line; min_size = push_bit (bits * 2) 1
           in if array_size < min_size then 0 else bits)"

definition remap_index :: "nat \<Rightarrow> u32 \<Rightarrow> u32" where
  "remap_index BITS index =
     (if BITS = 0 then index
      else let mix_mask = push_bit BITS 1 - 1;
               mix = (index XOR drop_bit BITS index) AND mix_mask
           in index XOR mix XOR push_bit BITS mix)"

subsection \<open>The \<open>moodycamel\<close> queues\<close>

text \<open>
  The loop \<open>for (i = 1; i < sizeof(T); i <<= 1) x |= x >> (i << 3)\<close>; \<open>i\<close> is never 0 there, and the
  guard \<open>0 < i\<close> only tells so.
\<close>

function smear_loop :: "nat \<Rightarrow> nat \<Rightarrow> 'a :: len word \<Rightarrow> 'a word" where
  "smear_loop sz i x = (if 0 < i \<and> i < sz then smear_loop sz (2 * i) (or_equal x (8 * i)) else x)"
  by auto
termination by (relation "measure (\<lambda>(sz, i, x). sz - i)") auto

declare smear_loop.simps [simp del]

definition smear :: "nat \<Rightarrow> 'a :: len word \<Rightarrow> 'a word" where
  "smear sz x = smear_loop sz 1 (or_equal (or_equal (or_equal x 1) 2) 4)"

definition ceilToPow2 :: "size_t \<Rightarrow> size_t" where
  "ceilToPow2 x = smear 8 (x - 1) + 1"

text \<open>\<open>ceil_to_pow_2<T>\<close> for an unsigned \<open>T\<close> of \<open>LENGTH('a)\<close> bits.\<close>

definition ceil_to_pow_2 :: "'a :: len word \<Rightarrow> 'a word" where
  "ceil_to_pow_2 x = smear (LENGTH('a) div 8) (x - 1) + 1"

definition align_for :: "size_t \<Rightarrow> size_t \<Rightarrow> size_t" where
  "align_for alignment ptr = ptr + (alignment - ptr mod alignment) mod alignment"

definition circular_less_than :: "'a :: len word \<Rightarrow> 'a word \<Rightarrow> bool" where
  "circular_less_than a b \<longleftrightarrow> a - b > push_bit (LENGTH('a) - 1) 1"

section \<open>Smearing the highest bit downwards\<close>

text \<open>\<open>y\<close> has a bit wherever \<open>x\<close> has one at most \<open>w\<close> places higher.\<close>

definition smeared :: "nat \<Rightarrow> 'a :: len word \<Rightarrow> 'a word \<Rightarrow> bool" where
  "smeared w x y \<longleftrightarrow> (\<forall>i. bit y i \<longleftrightarrow> (\<exists>j \<le> w. bit x (i + j)))"

lemma smeared_refl: "smeared 0 x x"
  by (simp add: smeared_def)

lemma smeared_step:
  assumes "smeared w x y" "u \<le> Suc w" shows "smeared (w + u) x (or_equal y u)"
  unfolding smeared_def
proof
  fix i
  have "bit (or_equal y u) i \<longleftrightarrow> (\<exists>j \<le> w. bit x (i + j)) \<or> (\<exists>j \<le> w. bit x (i + (u + j)))"
    using assms(1) by (simp add: or_equal_def bit_or_iff bit_drop_bit_eq smeared_def add.assoc add.left_commute)
  also have "\<dots> \<longleftrightarrow> (\<exists>j \<le> w + u. bit x (i + j))"
  proof
    assume "\<exists>j \<le> w + u. bit x (i + j)"
    then obtain j where j: "j \<le> w + u" "bit x (i + j)" by blast
    show "(\<exists>j \<le> w. bit x (i + j)) \<or> (\<exists>j \<le> w. bit x (i + (u + j)))"
    proof (cases "j \<le> w")
      case False
      with j assms(2) show ?thesis by (intro disjI2 exI [of _ "j - u"]) auto
    qed (use j in auto)
  next
    assume "(\<exists>j \<le> w. bit x (i + j)) \<or> (\<exists>j \<le> w. bit x (i + (u + j)))"
    then show "\<exists>j \<le> w + u. bit x (i + j)"
      by (metis add.commute add_le_mono1 trans_le_add1)
  qed
  finally show "bit (or_equal y u) i \<longleftrightarrow> (\<exists>j \<le> w + u. bit x (i + j))" .
qed

lemma word_top_bit:
  fixes x :: "'a :: len word"
  assumes "x \<noteq> 0"
  obtains t where "t < LENGTH('a)" "bit x t" "\<And>j. t < j \<Longrightarrow> \<not> bit x j"
proof -
  let ?S = "{j. bit x j}"
  have f: "finite ?S" by (rule finite_subset [of _ "{..<LENGTH('a)}"]) (auto dest: bit_imp_le_length)
  moreover have "?S \<noteq> {}" using assms by (auto simp: bit_eq_iff)
  ultimately have "bit x (Max ?S)" "\<And>j. bit x j \<Longrightarrow> j \<le> Max ?S" using Max_in Max_ge by blast+
  then show thesis by (metis that bit_imp_le_length not_less)
qed

lemma word_top_bit_bounds:
  fixes x :: "'a :: len word"
  assumes "bit x t" "\<And>j. t < j \<Longrightarrow> \<not> bit x j"
  shows "2 ^ t \<le> unat x" "unat x < 2 ^ Suc t"
proof -
  have "take_bit (Suc t) x = x"
    using assms(2) by (auto simp: bit_eq_iff bit_take_bit_iff) (meson not_less_eq)
  then have "take_bit (Suc t) (unat x) = unat x" by (metis unsigned_take_bit_eq)
  then show "unat x < 2 ^ Suc t" by (metis take_bit_nat_less_exp)
  have "bit (unat x) t" using assms(1) by (simp add: bit_unsigned_iff)
  then have "odd (unat x div 2 ^ t)" by (simp add: bit_iff_odd)
  then have "unat x div 2 ^ t \<noteq> 0" by (metis even_zero)
  then show "2 ^ t \<le> unat x" by (metis div_less not_le_imp_less)
qed

text \<open>A full smear of \<open>a - 1\<close>, incremented, is the smallest power of two not below \<open>a\<close>.\<close>

lemma smeared_pow2:
  fixes a y :: "'a :: len word"
  assumes s: "smeared w (a - 1) y" and w: "LENGTH('a) - 1 \<le> w"
    and a: "0 < unat a" "unat a \<le> 2 ^ (LENGTH('a) - 1)"
  shows "\<exists>k. unat (y + 1) = 2 ^ k \<and> unat a \<le> 2 ^ k \<and> (\<forall>m. unat a \<le> 2 ^ m \<longrightarrow> k \<le> m)"
proof (cases "a = 1")
  case True
  with s have "y = 0" by (simp add: smeared_def bit_eq_iff)
  with True show ?thesis by (intro exI [of _ 0]) simp
next
  case False
  have u: "unat (a - 1) = unat a - 1" using a(1) by (simp add: unat_sub_if' Suc_leI)
  from False have "a - 1 \<noteq> 0" by simp
  then obtain t where t: "t < LENGTH('a)" "bit (a - 1) t" "\<And>j. t < j \<Longrightarrow> \<not> bit (a - 1) j"
    by (rule word_top_bit) blast
  note b = word_top_bit_bounds [OF t(2,3)]
  have "(2 :: nat) ^ t < 2 ^ (LENGTH('a) - 1)" using b(1) a u by linarith
  then have tl: "Suc t < LENGTH('a)" by (simp add: less_diff_conv)
  have "bit y i \<longleftrightarrow> i < Suc t" for i
  proof
    assume "bit y i"
    then obtain j where "bit (a - 1) (i + j)" using s by (auto simp: smeared_def)
    then show "i < Suc t" using t(3) [of "i + j"] by linarith
  next
    assume "i < Suc t"
    then show "bit y i" using s t w by (auto simp: smeared_def intro!: exI [of _ "t - i"])
  qed
  then have "y = mask (Suc t)" using tl by (auto simp: bit_eq_iff bit_mask_iff dest: bit_imp_le_length)
  then have "y + 1 = 2 ^ Suc t" by (simp only: mask_eq_exp_minus_1) simp
  moreover have "unat (2 ^ Suc t :: 'a word) = 2 ^ Suc t" by (rule unat_pow2 [OF tl])
  moreover have "unat a \<le> 2 ^ Suc t" using b(2) u by linarith
  moreover have "Suc t \<le> m" if "unat a \<le> 2 ^ m" for m
  proof -
    have "(2 :: nat) ^ t < 2 ^ m" using b(1) u a(1) that by linarith
    then show ?thesis by simp
  qed
  ultimately show ?thesis by metis
qed

text \<open>Beyond half of the range, and for 0, the increment wraps to 0.\<close>

lemma smeared_wraps:
  fixes a y :: "'a :: len word"
  assumes s: "smeared w (a - 1) y" and w: "LENGTH('a) - 1 \<le> w" and a: "a = 0 \<or> 2 ^ (LENGTH('a) - 1) < unat a"
  shows "y + 1 = 0"
proof -
  have "2 ^ (LENGTH('a) - 1) \<le> unat (a - 1)"
  proof (cases "a = 0")
    case True
    have "unat (- 1 :: 'a word) = 2 ^ LENGTH('a) - 1" by (simp add: unsigned_minus_1_eq_mask mask_eq_exp_minus_1)
    moreover have "(2 :: nat) ^ LENGTH('a) = 2 * 2 ^ (LENGTH('a) - 1)" by (metis One_nat_def Suc_pred len_gt_0 power_Suc)
    moreover have "(1 :: nat) \<le> 2 ^ (LENGTH('a) - 1)" by simp
    ultimately show ?thesis using True by simp
  next
    case False
    then have "unat (a - 1) = unat a - 1" by (simp add: unat_sub_if' unat_gt_0 Suc_leI)
    with a False show ?thesis by simp
  qed
  moreover have "a - 1 \<noteq> 0" using calculation by force
  then obtain t where t: "t < LENGTH('a)" "bit (a - 1) t" "\<And>j. t < j \<Longrightarrow> \<not> bit (a - 1) j"
    by (rule word_top_bit) blast
  note word_top_bit_bounds(2) [OF t(2,3)]
  ultimately have "(2 :: nat) ^ (LENGTH('a) - 1) < 2 ^ Suc t" by linarith
  then have "LENGTH('a) - 1 < Suc t" by (simp only: power_strict_increasing_iff)
  then have tl: "t = LENGTH('a) - 1" using t(1) by linarith
  have "bit y i" if "i < LENGTH('a)" for i
    using that s t w tl by (auto simp: smeared_def intro!: exI [of _ "t - i"])
  then have "y = - 1" by (auto simp: bit_eq_iff bit_minus_1_iff dest: bit_imp_le_length)
  then show ?thesis by simp
qed


section \<open>Rounding up\<close>

lemma or_equal_all_smeared:
  "smeared 31 x (or_equal_all x [1, 2, 4, 8, 16])" "smeared 63 z (or_equal_all z [1, 2, 4, 8, 16, 32])"
proof -
  note s = smeared_step [OF smeared_refl [of x], of 1] and t = smeared_step [OF smeared_refl [of z], of 1]
  show "smeared 31 x (or_equal_all x [1, 2, 4, 8, 16])"
    using s [THEN smeared_step, of 2, THEN smeared_step, of 4, THEN smeared_step, of 8, THEN smeared_step, of 16]
    by (simp add: or_equal_all_def)
  show "smeared 63 z (or_equal_all z [1, 2, 4, 8, 16, 32])"
    using t [THEN smeared_step, of 2, THEN smeared_step, of 4, THEN smeared_step, of 8, THEN smeared_step, of 16,
        THEN smeared_step, of 32]
    by (simp add: or_equal_all_def)
qed

lemma smear_loop_smeared:
  "smeared (8 * i - 1) x y \<Longrightarrow> 0 < i \<Longrightarrow> \<exists>w. smeared w x (smear_loop sz i y) \<and> 8 * sz - 1 \<le> w"
proof (induction sz i y rule: smear_loop.induct)
  case (1 sz i y)
  show ?case
  proof (cases "i < sz")
    case True
    have "smeared (8 * i - 1 + 8 * i) x (or_equal y (8 * i))" using 1 by (intro smeared_step) auto
    moreover have "8 * i - 1 + 8 * i = 8 * (2 * i) - 1" using 1 by simp
    ultimately show ?thesis using 1 True by (subst smear_loop.simps) auto
  next
    case False
    then show ?thesis using 1 by (subst smear_loop.simps) (auto intro!: exI [of _ "8 * i - 1"])
  qed
qed

lemma smear_smeared: "\<exists>w. smeared w x (smear sz x) \<and> 8 * sz - 1 \<le> w"
proof -
  have "smeared (0 + 1 + 2 + 4) x (or_equal (or_equal (or_equal x 1) 2) 4)"
    by (intro smeared_step smeared_refl) auto
  then show ?thesis unfolding smear_def by (intro smear_loop_smeared) auto
qed

text \<open>The specification of all of them: the least power of two that is not below \<open>a\<close>.\<close>

definition least_pow2 :: "nat \<Rightarrow> nat \<Rightarrow> bool" where
  "least_pow2 a r \<longleftrightarrow> (\<exists>k. r = 2 ^ k \<and> a \<le> r \<and> (\<forall>m. a \<le> 2 ^ m \<longrightarrow> k \<le> m))"

lemma ceil_to_pow_2_correct:
  fixes a :: "'a :: len word"
  assumes "LENGTH('a) = 8 * sz"
  shows "0 < unat a \<Longrightarrow> unat a \<le> 2 ^ (LENGTH('a) - 1) \<Longrightarrow> least_pow2 (unat a) (unat (smear sz (a - 1) + 1))"
    and "a = 0 \<or> 2 ^ (LENGTH('a) - 1) < unat a \<Longrightarrow> smear sz (a - 1) + 1 = 0"
proof -
  obtain w where w: "smeared w (a - 1) (smear sz (a - 1))" "LENGTH('a) - 1 \<le> w"
    using smear_smeared [of "a - 1" sz] assms by auto
  show "0 < unat a \<Longrightarrow> unat a \<le> 2 ^ (LENGTH('a) - 1) \<Longrightarrow> least_pow2 (unat a) (unat (smear sz (a - 1) + 1))"
    using smeared_pow2 [OF w] by (auto simp: least_pow2_def)
  show "a = 0 \<or> 2 ^ (LENGTH('a) - 1) < unat a \<Longrightarrow> smear sz (a - 1) + 1 = 0"
    using smeared_wraps [OF w] by blast
qed

lemma round_up_32: "0 < unat a \<Longrightarrow> unat a \<le> 2 ^ 31 \<Longrightarrow> least_pow2 (unat a) (unat (round_up_to_power_of_2_32 a))"
  using smeared_pow2 [OF or_equal_all_smeared(1), of a] by (auto simp: least_pow2_def round_up_to_power_of_2_32_def)

lemma round_up_32_wraps: "a = 0 \<or> 2 ^ 31 < unat a \<Longrightarrow> round_up_to_power_of_2_32 a = 0"
  using smeared_wraps [OF or_equal_all_smeared(1), of a] by (simp add: round_up_to_power_of_2_32_def)

lemma round_up_64: "0 < unat a \<Longrightarrow> unat a \<le> 2 ^ 63 \<Longrightarrow> least_pow2 (unat a) (unat (round_up_to_power_of_2_64 a))"
  using smeared_pow2 [OF or_equal_all_smeared(2), of a] by (auto simp: least_pow2_def round_up_to_power_of_2_64_def)

lemma ceilToPow2: "0 < unat a \<Longrightarrow> unat a \<le> 2 ^ 63 \<Longrightarrow> least_pow2 (unat a) (unat (ceilToPow2 a))"
  using ceil_to_pow_2_correct(1) [of 8 a] by (simp add: ceilToPow2_def)

lemma least_pow2_unique: "least_pow2 a r \<Longrightarrow> least_pow2 a r' \<Longrightarrow> r = r'"
  unfolding least_pow2_def by (metis le_antisym)

lemma round_64_wraps:
  assumes "c = 0 \<or> 2 ^ 63 < unat c" shows "ceilToPow2 c = 0" "round_up_to_power_of_2_64 c = 0"
  using ceil_to_pow_2_correct(2) [of 8 c] smeared_wraps [OF or_equal_all_smeared(2), of c] assms
  by (auto simp: ceilToPow2_def round_up_to_power_of_2_64_def)

text \<open>
  C26. Rounding up to a power of two: for every size from 1 to half of the range the routines of the
  repository return the least power of two that is not below it (and so agree with each other), for
  \<open>ceil_to_pow_2\<close> at any width of whole bytes. For 0 and beyond half of the range they return 0.
\<close>

theorem rounding_correct:
  fixes a f :: "'a :: len word" and b :: u32 and c :: u64
  assumes "LENGTH('a) mod 8 = 0" "0 < unat a" "unat a \<le> 2 ^ (LENGTH('a) - 1)"
    "0 < unat b" "unat b \<le> 2 ^ 31" "0 < unat c" "unat c \<le> 2 ^ 63" "d = 0 \<or> 2 ^ 63 < unat d" "e = 0 \<or> 2 ^ 31 < unat e"
    "f = 0 \<or> 2 ^ (LENGTH('a) - 1) < unat f"
  shows "least_pow2 (unat a) (unat (ceil_to_pow_2 a)) \<and>
    least_pow2 (unat b) (unat (round_up_to_power_of_2_32 b)) \<and>
    least_pow2 (unat c) (unat (round_up_to_power_of_2_64 c)) \<and>
    ceilToPow2 c = round_up_to_power_of_2_64 c \<and>
    ceilToPow2 d = 0 \<and> round_up_to_power_of_2_64 d = 0 \<and> round_up_to_power_of_2_32 e = 0 \<and> ceil_to_pow_2 f = 0"
proof (intro conjI)
  have l: "LENGTH('a) = 8 * (LENGTH('a) div 8)" using assms(1) by presburger
  then show "ceil_to_pow_2 f = 0"
    unfolding ceil_to_pow_2_def using assms(10) by (intro ceil_to_pow_2_correct(2))
  from l show "least_pow2 (unat a) (unat (ceil_to_pow_2 a))"
    unfolding ceil_to_pow_2_def using assms by (intro ceil_to_pow_2_correct(1))
  show "ceilToPow2 c = round_up_to_power_of_2_64 c"
    using assms by (metis round_up_64 ceilToPow2 least_pow2_unique unsigned_word_eqI)
qed (use assms round_up_32 round_up_64 round_64_wraps round_up_32_wraps in blast)+

theorem rounding_correct_witness:
  "least_pow2 100 (unat (ceil_to_pow_2 (100 :: 16 word))) \<and> ceil_to_pow_2 (40000 :: 16 word) = 0 \<and> round_up_to_power_of_2_32 5000 = 8192 \<and>
   ceilToPow2 5 = round_up_to_power_of_2_64 5 \<and> ceilToPow2 0 = 0 \<and> round_up_to_power_of_2_32 3000000000 = 0"
proof -
  note r = rounding_correct [of "100 :: 16 word" 5000 5 0 3000000000 40000]
  have "round_up_to_power_of_2_32 5000 = 8192"
    by (simp add: round_up_to_power_of_2_32_def or_equal_all_def or_equal_def)
  with r show ?thesis by simp
qed

section \<open>Shuffling indices\<close>

lemma bit_remap_index:
  assumes "2 * B \<le> 32"
  shows "bit (remap_index B x) n =
    (if n < B then bit x (n + B) else if n < 2 * B then bit x (n - B) else bit x n)"
proof (cases "B = 0")
  case False
  let ?mix = "(x XOR drop_bit B x) AND mask B"
  have "push_bit B 1 - 1 = (mask B :: u32)" by (simp add: mask_eq_exp_minus_1 push_bit_eq_mult)
  then have r: "remap_index B x = x XOR ?mix XOR push_bit B ?mix"
    using False unfolding remap_index_def Let_def by (simp only: if_False)
  have l: "bit x i \<Longrightarrow> i < 32" for i using bit_imp_le_length [of x i] by simp
  show ?thesis
    unfolding r using False assms l
    by (auto simp: bit_xor_iff bit_and_iff bit_mask_iff bit_drop_bit_eq bit_push_bit_iff add.commute)
qed (simp add: remap_index_def)

lemma remap_index_involution: "2 * B \<le> 32 \<Longrightarrow> remap_index B (remap_index B x) = x"
  by (auto simp: bit_eq_iff bit_remap_index)

lemma remap_index_inj: "2 * B \<le> 32 \<Longrightarrow> remap_index B x = remap_index B y \<longleftrightarrow> x = y"
  by (metis remap_index_involution)

lemma u32_less_pow2_iff:
  "k \<le> 32 \<Longrightarrow> unat (x :: u32) < 2 ^ k \<longleftrightarrow> (\<forall>n. bit x n \<longrightarrow> n < k)"
proof -
  assume k: "k \<le> 32"
  have "unat x < 2 ^ k \<longleftrightarrow> take_bit k (unat x) = unat x"
    by (metis take_bit_nat_less_exp take_bit_nat_eq_self)
  also have "\<dots> \<longleftrightarrow> take_bit k x = x" by (metis unsigned_take_bit_eq unsigned_word_eqI)
  also have "\<dots> \<longleftrightarrow> (\<forall>n. bit x n \<longrightarrow> n < k)"
    using bit_imp_le_length [of x] by (auto simp: bit_eq_iff bit_take_bit_iff)
  finally show ?thesis .
qed

lemma remap_index_range:
  "2 * B \<le> k \<Longrightarrow> k \<le> 32 \<Longrightarrow> unat x < 2 ^ k \<Longrightarrow> unat (remap_index B x) < 2 ^ k"
  by (auto simp: u32_less_pow2_iff bit_remap_index split: if_splits)

text \<open>
  \<open>remap_index\<close> permutes the indices of a ring of a power of two (it is its own inverse and stays in
  range), so no two elements share a slot; and for at least one shuffled bit two subsequent indices lie on
  different cache lines (of \<open>2 ^ B\<close> elements), as the comment above it promises.
\<close>

theorem remap_index_permutes:
  assumes "2 * B \<le> k" "k \<le> 32"
  shows "bij_betw (remap_index B) {x. unat x < 2 ^ k} {x. unat x < 2 ^ k} \<and>
    remap_index B (remap_index B x) = x \<and>
    (0 < B \<longrightarrow> drop_bit B (remap_index B x) \<noteq> drop_bit B (remap_index B (x + 1)))"
proof (intro conjI impI)
  have i: "remap_index B (remap_index B y) = y" for y using assms by (intro remap_index_involution) simp
  then show "remap_index B (remap_index B x) = x" .
  show "bij_betw (remap_index B) {x. unat x < 2 ^ k} {x. unat x < 2 ^ k}"
    using assms i by (intro bij_betw_byWitness [where f' = "remap_index B"]) (auto intro: remap_index_range)
  assume "0 < B"
  then have "bit (drop_bit B (remap_index B y)) 0 = odd y" for y
    using assms by (simp add: bit_drop_bit_eq bit_remap_index bit_0)
  moreover have "odd (x + 1) \<noteq> odd x" by simp
  ultimately show "drop_bit B (remap_index B x) \<noteq> drop_bit B (remap_index B (x + 1))" by metis
qed

theorem remap_index_permutes_witness:
  "bij_betw (remap_index 3) {x. unat x < 2 ^ 6} {x. unat x < 2 ^ 6} \<and> remap_index 3 (remap_index 3 9) = 9 \<and>
   drop_bit 3 (remap_index 3 9) \<noteq> drop_bit 3 (remap_index 3 10)"
  using remap_index_permutes [of 3 6 9] by simp

section \<open>Alignment and wrapping counters\<close>

text \<open>
  \<open>align_for\<close> moves a pointer up to the next multiple of the alignment, by less than the alignment
  (which the allocation has room for), unless the address space ends before it.
\<close>

theorem align_for_spec:
  assumes "0 < unat alignment" "unat ptr + unat alignment \<le> 2 ^ 64"
  shows "unat (align_for alignment ptr) mod unat alignment = 0 \<and> ptr \<le> align_for alignment ptr \<and>
    unat (align_for alignment ptr) < unat ptr + unat alignment"
proof -
  let ?a = "unat alignment" and ?p = "unat ptr"
  define d where "d = (?a - ?p mod ?a) mod ?a"
  have d: "d < ?a" using assms(1) by (simp add: d_def)
  have "ptr mod alignment \<le> alignment" using assms(1) by (simp add: word_le_nat_alt unat_mod_distrib less_imp_le)
  then have "unat ((alignment - ptr mod alignment) mod alignment) = d"
    by (simp add: d_def unat_mod_distrib unat_sub)
  then have u: "unat (align_for alignment ptr) = ?p + d"
    unfolding align_for_def using d assms(2) by (subst unat_add_less) simp_all
  have "(?p + d) mod ?a = (?p mod ?a + (?a - ?p mod ?a)) mod ?a" unfolding d_def by (metis mod_add_eq mod_mod_trivial)
  also have "\<dots> = 0" using assms(1) by (simp add: less_imp_le)
  finally show ?thesis using u d by (simp add: word_le_nat_alt)
qed

theorem align_for_spec_witness:
  "unat (align_for 8 1021) mod 8 = 0 \<and> 1021 \<le> align_for 8 1021 \<and> unat (align_for 8 1021) < 1029"
  using align_for_spec [of 8 1021] by simp

lemma unat_sub_words:
  "unat (a - b :: 'a :: len word) = (if unat b \<le> unat a then unat a - unat b else unat a + 2 ^ LENGTH('a) - unat b)"
  by (simp add: unat_sub_if' word_size)

text \<open>
  \<open>circular_less_than\<close> compares counters that wrap: for true counts \<open>m\<close> and \<open>n\<close> less than half of the
  range apart it decides \<open>m < n\<close> from their wrapped values, at every width.
\<close>

theorem circular_less_than_spec:
  fixes a b :: "'a :: len word"
  assumes "a = of_nat m" "b = of_nat n" "m < n + 2 ^ (LENGTH('a) - 1)" "n < m + 2 ^ (LENGTH('a) - 1)"
  shows "circular_less_than a b \<longleftrightarrow> m < n"
proof -
  let ?h = "2 ^ (LENGTH('a) - 1) :: nat"
  have L: "2 ^ LENGTH('a) = 2 * ?h" by (metis One_nat_def Suc_pred len_gt_0 power_Suc)
  have p: "unat (push_bit (LENGTH('a) - 1) 1 :: 'a word) = ?h"
    by (simp add: push_bit_eq_mult unat_pow2)
  have c: "circular_less_than a b \<longleftrightarrow> ?h < unat (a - b)"
    by (simp only: circular_less_than_def word_less_nat_alt p)
  show ?thesis
  proof (cases "m < n")
    case True
    then have "a - b = - of_nat (n - m)" by (simp add: assms of_nat_diff)
    moreover have "unat (of_nat (n - m) :: 'a word) = n - m"
      unfolding unat_of_nat using assms(4) True L by (intro mod_less) linarith
    ultimately have "unat (a - b) = 2 * ?h - (n - m)" using True L unat_sub_words [of 0 "of_nat (n - m) :: 'a word"] by simp
    with c True assms(4) show ?thesis by simp
  next
    case False
    then have "a - b = of_nat (m - n)" by (simp add: assms of_nat_diff)
    moreover have "unat (of_nat (m - n) :: 'a word) = m - n"
      unfolding unat_of_nat using assms(3) False L by (intro mod_less) linarith
    ultimately show ?thesis using c False assms(3) by simp
  qed
qed

theorem circular_less_than_spec_witness:
  "circular_less_than (of_nat (2 ^ 64 - 1) :: u64) (of_nat (2 ^ 64 + 1)) \<longleftrightarrow> (2 :: nat) ^ 64 - 1 < 2 ^ 64 + 1"
  by (rule circular_less_than_spec [OF refl refl]) simp_all

end
