(* ===== verification/AtomicQueue.thy ===== *)
theory AtomicQueue
  imports Queue_Interface Index_Bits
begin

text \<open>
  \<^verbatim>\<open>atomic_queue/include/atomic_queue/atomic_queue.h\<close>: \<open>AtomicQueueCommon\<close> and the four classes built on
  it. The common part reserves a ticket (\<open>head_\<close> or \<open>tail_\<close>, 32-bit words that wrap) and leaves the slot to
  \<open>do_push\<close> and \<open>do_pop\<close> of the derived class, which are arguments here. A slot is either one atomic value
  with a \<open>NIL\<close> (\<open>AtomicQueue\<close>, \<open>AtomicQueueB\<close>) or a value beside a state byte (\<open>AtomicQueue2\<close>,
  \<open>AtomicQueueB2\<close>, the queue of \<^verbatim>\<open>app10.cpp\<close>). What the common part needs of a slot is the locale
  \<open>aq_cell\<close>; both kinds of slot interpret it, and in it every queue is a bounded FIFO. The operations
  here run in one thread, so a compare-and-swap on an unchanged word succeeds and a wait for another
  thread never ends (\<open>None\<close>).
\<close>

section \<open>Slots\<close>

text \<open>
  The element type is \<open>'a option\<close>: \<open>None\<close> is \<open>NIL\<close> in the first kind and a moved-from (or
  default-constructed) value in the second. \<open>spin_while\<close> is \<open>do spin_loop_pause(); while (maximize_throughput_ && c)\<close>
  with a condition nobody changes.
\<close>

partial_function (option) spin_while :: "bool \<Rightarrow> bool \<Rightarrow> unit option" where
  "spin_while maximize_throughput c = (if maximize_throughput \<and> c then spin_while maximize_throughput c else Some ())"

partial_function (option) do_pop_atomic ::
    "bool \<Rightarrow> bool \<Rightarrow> 'a option \<Rightarrow> ('a option \<times> 'a option) result option" where
  "do_pop_atomic spsc mt q_element =
     (if spsc then
        (if q_element \<noteq> None then Some (Inr (q_element, None)) else do_pop_atomic spsc mt q_element)
      else
        (if q_element \<noteq> None then Some (Inr (q_element, None))
         else Option.bind (spin_while mt (q_element = None)) (\<lambda>_. do_pop_atomic spsc mt None)))"

partial_function (option) do_push_atomic_loop ::
    "bool \<Rightarrow> bool \<Rightarrow> 'a option \<Rightarrow> 'a option \<Rightarrow> 'a option option" where
  "do_push_atomic_loop spsc mt element q_element =
     (if spsc then
        (if q_element \<noteq> None then do_push_atomic_loop spsc mt element q_element else Some element)
      else
        (if q_element = None then Some element
         else Option.bind (spin_while mt (q_element \<noteq> None)) (\<lambda>_. do_push_atomic_loop spsc mt element q_element)))"

definition do_push_atomic :: "bool \<Rightarrow> bool \<Rightarrow> 'a option \<Rightarrow> 'a option \<Rightarrow> 'a option result option" where
  "do_push_atomic spsc mt element q_element =
     (if element = None then Some (Inl (AssertFailed ''element != NIL''))
      else map_option Inr (do_push_atomic_loop spsc mt element q_element))"

datatype aq_state = EMPTY | STORING | STORED | LOADING

type_synonym 'a aq_any = "aq_state \<times> 'a option"

partial_function (option) do_pop_any ::
    "bool \<Rightarrow> bool \<Rightarrow> 'a aq_any \<Rightarrow> ('a option \<times> 'a aq_any) result option" where
  "do_pop_any spsc mt c =
     (if spsc then
        (if fst c \<noteq> STORED then do_pop_any spsc mt c else Some (Inr (snd c, (EMPTY, None))))
      else
        (if fst c = STORED then Some (Inr (snd c, (EMPTY, None)))
         else Option.bind (spin_while mt (fst c \<noteq> STORED)) (\<lambda>_. do_pop_any spsc mt c)))"

partial_function (option) do_push_any ::
    "bool \<Rightarrow> bool \<Rightarrow> 'a option \<Rightarrow> 'a aq_any \<Rightarrow> 'a aq_any result option" where
  "do_push_any spsc mt element c =
     (if spsc then
        (if fst c \<noteq> EMPTY then do_push_any spsc mt element c else Some (Inr (STORED, element)))
      else
        (if fst c = EMPTY then Some (Inr (STORED, element))
         else Option.bind (spin_while mt (fst c \<noteq> EMPTY)) (\<lambda>_. do_push_any spsc mt element c)))"

section \<open>The common part\<close>

text \<open>
  The static members of a derived class: \<open>spsc_\<close>, \<open>maximize_throughput_\<close>, \<open>SHUFFLE_BITS\<close>, and whether a
  ticket becomes an index by \<open>% size_\<close> (\<open>AtomicQueue\<close>, \<open>AtomicQueue2\<close>) or by \<open>& (size_ - 1)\<close> (the others).
\<close>

record aq_class =
  aqc_spsc :: bool
  aqc_maximize_throughput :: bool
  aqc_bits :: nat
  aqc_mod :: bool

record 'c atomic_queue =
  aq_head :: u32
  aq_tail :: u32
  aq_size :: u32
  aq_elements :: "'c list option"    \<comment> \<open>\<open>None\<close>: a null pointer, after a move\<close>

definition aq_index :: "aq_class \<Rightarrow> u32 \<Rightarrow> u32 \<Rightarrow> nat" where
  "aq_index k sz ticket =
     unat (remap_index (aqc_bits k) (if aqc_mod k then ticket mod sz else ticket AND (sz - 1)))"

definition aq_do_pop ::
    "(bool \<Rightarrow> bool \<Rightarrow> 'c \<Rightarrow> ('e \<times> 'c) result option) \<Rightarrow> aq_class \<Rightarrow> u32 \<Rightarrow> 'c atomic_queue
       \<Rightarrow> ('e \<times> 'c atomic_queue) result option" where
  "aq_do_pop pop k tail q =
     (let i = aq_index k (aq_size q) tail
      in case aq_elements q of
           None \<Rightarrow> Some (Inl (UndefinedBehaviour ''elements_''))
         | Some es \<Rightarrow>
             if length es \<le> i then Some (Inl (UndefinedBehaviour ''elements_[index]''))
             else map_option (map_sum id (\<lambda>(e, c). (e, q\<lparr>aq_elements := Some (es[i := c])\<rparr>)))
                    (pop (aqc_spsc k) (aqc_maximize_throughput k) (es ! i)))"

definition aq_do_push ::
    "(bool \<Rightarrow> bool \<Rightarrow> 'e \<Rightarrow> 'c \<Rightarrow> 'c result option) \<Rightarrow> aq_class \<Rightarrow> 'e \<Rightarrow> u32 \<Rightarrow> 'c atomic_queue
       \<Rightarrow> 'c atomic_queue result option" where
  "aq_do_push push k element head q =
     (let i = aq_index k (aq_size q) head
      in case aq_elements q of
           None \<Rightarrow> Some (Inl (UndefinedBehaviour ''elements_''))
         | Some es \<Rightarrow>
             if length es \<le> i then Some (Inl (UndefinedBehaviour ''elements_[index]''))
             else map_option (map_sum id (\<lambda>c. q\<lparr>aq_elements := Some (es[i := c])\<rparr>))
                    (push (aqc_spsc k) (aqc_maximize_throughput k) element (es ! i)))"

text \<open>\<open>static_cast<int>\<close> reads a 32-bit word as signed.\<close>

definition aq_try_push ::
    "(bool \<Rightarrow> bool \<Rightarrow> 'e \<Rightarrow> 'c \<Rightarrow> 'c result option) \<Rightarrow> aq_class \<Rightarrow> 'e \<Rightarrow> 'c atomic_queue
       \<Rightarrow> (bool \<times> 'c atomic_queue) result option" where
  "aq_try_push push k element q =
     (let head = aq_head q
      in if sint (head - aq_tail q) \<ge> sint (aq_size q) then Some (Inr (False, q))
         else map_option (map_sum id (Pair True))
                (aq_do_push push k element head (q\<lparr>aq_head := head + 1\<rparr>)))"

definition aq_try_pop ::
    "(bool \<Rightarrow> bool \<Rightarrow> 'c \<Rightarrow> ('e \<times> 'c) result option) \<Rightarrow> aq_class \<Rightarrow> 'c atomic_queue
       \<Rightarrow> ('e option \<times> 'c atomic_queue) result option" where
  "aq_try_pop pop k q =
     (let tail = aq_tail q
      in if sint (aq_head q - tail) \<le> 0 then Some (Inr (None, q))
         else map_option (map_sum id (\<lambda>(e, q'). (Some e, q')))
                (aq_do_pop pop k tail (q\<lparr>aq_tail := tail + 1\<rparr>)))"

definition aq_push ::
    "(bool \<Rightarrow> bool \<Rightarrow> 'e \<Rightarrow> 'c \<Rightarrow> 'c result option) \<Rightarrow> aq_class \<Rightarrow> 'e \<Rightarrow> 'c atomic_queue
       \<Rightarrow> 'c atomic_queue result option" where
  "aq_push push k element q = aq_do_push push k element (aq_head q) (q\<lparr>aq_head := aq_head q + 1\<rparr>)"

definition aq_pop ::
    "(bool \<Rightarrow> bool \<Rightarrow> 'c \<Rightarrow> ('e \<times> 'c) result option) \<Rightarrow> aq_class \<Rightarrow> 'c atomic_queue
       \<Rightarrow> ('e \<times> 'c atomic_queue) result option" where
  "aq_pop pop k q = aq_do_pop pop k (aq_tail q) (q\<lparr>aq_tail := aq_tail q + 1\<rparr>)"

definition aq_was_size :: "'c atomic_queue \<Rightarrow> u32" where
  "aq_was_size q = (let n = aq_head q - aq_tail q in if sint n < 0 then 0 else n)"

definition aq_capacity :: "'c atomic_queue \<Rightarrow> u32" where
  "aq_capacity q = aq_size q"

definition aq_was_empty :: "'c atomic_queue \<Rightarrow> bool" where
  "aq_was_empty q \<longleftrightarrow> aq_was_size q = 0"

definition aq_was_full :: "'c atomic_queue \<Rightarrow> bool" where
  "aq_was_full q \<longleftrightarrow> aq_was_size q \<ge> aq_capacity q"

section \<open>The classes\<close>

text \<open>
  \<open>AtomicQueue\<close> and \<open>AtomicQueue2\<close> have their size as a template argument; \<open>sizeofT\<close> is
  \<open>sizeof(std::atomic<T>)\<close>, and the state byte of the second has size 1.
\<close>

definition CACHE_LINE_SIZE :: nat where
  "CACHE_LINE_SIZE = 64"

definition aq_static_size :: "bool \<Rightarrow> u32 \<Rightarrow> u32" where
  "aq_static_size minimize_contention SIZE =
     (if minimize_contention then round_up_to_power_of_2_32 SIZE else SIZE)"

definition aq_static_class :: "bool \<Rightarrow> bool \<Rightarrow> bool \<Rightarrow> u32 \<Rightarrow> nat \<Rightarrow> aq_class" where
  "aq_static_class minimize_contention mt spsc SIZE sizeofT =
     \<lparr>aqc_spsc = spsc, aqc_maximize_throughput = mt,
      aqc_bits = GetIndexShuffleBits minimize_contention (aq_static_size minimize_contention SIZE)
                   (CACHE_LINE_SIZE div sizeofT),
      aqc_mod = True\<rparr>"

definition AtomicQueue_ctor :: "bool \<Rightarrow> u32 \<Rightarrow> 'a option atomic_queue" where
  "AtomicQueue_ctor minimize_contention SIZE =
     \<lparr>aq_head = 0, aq_tail = 0, aq_size = aq_static_size minimize_contention SIZE,
      aq_elements = Some (replicate (unat (aq_static_size minimize_contention SIZE)) None)\<rparr>"

definition AtomicQueue2_ctor :: "bool \<Rightarrow> u32 \<Rightarrow> 'a aq_any atomic_queue" where
  "AtomicQueue2_ctor minimize_contention SIZE =
     \<lparr>aq_head = 0, aq_tail = 0, aq_size = aq_static_size minimize_contention SIZE,
      aq_elements = Some (replicate (unat (aq_static_size minimize_contention SIZE)) (EMPTY, None))\<rparr>"

text \<open>
  \<open>AtomicQueueB\<close> and \<open>AtomicQueueB2\<close> allocate: \<open>alloc n\<close> tells whether the allocator serves \<open>n\<close> elements.
  A class without shuffle bits does not compile (\<open>static_assert\<close>).
\<close>

definition aqb_class :: "bool \<Rightarrow> bool \<Rightarrow> nat \<Rightarrow> aq_class" where
  "aqb_class mt spsc sizeofT =
     \<lparr>aqc_spsc = spsc, aqc_maximize_throughput = mt,
      aqc_bits = GetCacheLineIndexBits (CACHE_LINE_SIZE div sizeofT), aqc_mod = False\<rparr>"

definition aqb_size :: "nat \<Rightarrow> u32 \<Rightarrow> u32" where
  "aqb_size bits sz = max (round_up_to_power_of_2_32 sz) (push_bit (bits * 2) 1)"

definition AtomicQueueB_ctor :: "(nat \<Rightarrow> bool) \<Rightarrow> nat \<Rightarrow> u32 \<Rightarrow> 'a option atomic_queue result" where
  "AtomicQueueB_ctor alloc bits sz =
     (let n = unat (aqb_size bits sz)
      in if alloc n
         then Inr \<lparr>aq_head = 0, aq_tail = 0, aq_size = aqb_size bits sz, aq_elements = Some (replicate n None)\<rparr>
         else Inl BadAlloc)"

definition AtomicQueueB2_ctor :: "(nat \<Rightarrow> bool) \<Rightarrow> nat \<Rightarrow> u32 \<Rightarrow> 'a aq_any atomic_queue result" where
  "AtomicQueueB2_ctor alloc bits sz =
     (let n = unat (aqb_size bits sz)
      in if alloc n
         then Inr \<lparr>aq_head = 0, aq_tail = 0, aq_size = aqb_size bits sz,
                   aq_elements = Some (replicate n (EMPTY, None))\<rparr>
         else Inl BadAlloc)"

text \<open>The move constructor copies the tickets and takes size and storage; \<open>swap\<close> exchanges everything.\<close>

definition aqb_move :: "'c atomic_queue \<Rightarrow> 'c atomic_queue \<times> 'c atomic_queue" where
  "aqb_move b = (\<lparr>aq_head = aq_head b, aq_tail = aq_tail b, aq_size = aq_size b, aq_elements = aq_elements b\<rparr>,
                 b\<lparr>aq_size := 0, aq_elements := None\<rparr>)"

definition aqb_swap :: "'c atomic_queue \<Rightarrow> 'c atomic_queue \<Rightarrow> 'c atomic_queue \<times> 'c atomic_queue" where
  "aqb_swap a b =
     (a\<lparr>aq_head := aq_head b, aq_tail := aq_tail b, aq_size := aq_size b, aq_elements := aq_elements b\<rparr>,
      b\<lparr>aq_head := aq_head a, aq_tail := aq_tail a, aq_size := aq_size a, aq_elements := aq_elements a\<rparr>)"

definition aqb_assign :: "'c atomic_queue \<Rightarrow> 'c atomic_queue \<Rightarrow> 'c atomic_queue \<times> 'c atomic_queue" where
  "aqb_assign this b = prod.swap (aqb_swap b this)"

text \<open>The destructor destroys \<open>size_\<close> elements and frees the storage; the number destroyed is returned.\<close>

definition aqb_dtor :: "'c atomic_queue \<Rightarrow> (nat \<times> 'c atomic_queue) result" where
  "aqb_dtor q =
     (case aq_elements q of
        None \<Rightarrow> Inr (0, q)
      | Some es \<Rightarrow>
          if length es < unat (aq_size q) then Inl (UndefinedBehaviour ''destroy_n'')
          else Inr (unat (aq_size q), q\<lparr>aq_elements := None\<rparr>))"

text \<open>\<open>RetryDecorator\<close>: \<open>push\<close> and \<open>pop\<close> retry until they succeed.\<close>

partial_function (option) retry_push ::
    "('q \<Rightarrow> (bool \<times> 'q) result option) \<Rightarrow> 'q \<Rightarrow> 'q result option" where
  "retry_push try_push q =
     Option.bind (try_push q) (\<lambda>r. case r of
         Inl e \<Rightarrow> Some (Inl e)
       | Inr (b, q') \<Rightarrow> if b then Some (Inr q') else retry_push try_push q')"

partial_function (option) retry_pop ::
    "('q \<Rightarrow> ('e option \<times> 'q) result option) \<Rightarrow> 'q \<Rightarrow> ('e \<times> 'q) result option" where
  "retry_pop try_pop q =
     Option.bind (try_pop q) (\<lambda>r. case r of
         Inl e \<Rightarrow> Some (Inl e)
       | Inr (Some x, q') \<Rightarrow> Some (Inr (x, q'))
       | Inr (None, q') \<Rightarrow> retry_pop try_pop q')"

section \<open>Tickets and slots\<close>

text \<open>The size is a power of two, large enough for the shuffle and small enough for \<open>int\<close>.\<close>

definition aq_shape :: "aq_class \<Rightarrow> u32 \<Rightarrow> bool" where
  "aq_shape k sz \<longleftrightarrow> (\<exists>n. unat sz = 2 ^ n \<and> 2 * aqc_bits k \<le> n \<and> n \<le> 30)"

lemma ticket_low_bits:
  fixes sz t :: u32
  assumes "unat sz = 2 ^ n" "n \<le> 30"
  shows "unat (if m then t mod sz else t AND (sz - 1)) = unat t mod 2 ^ n"
proof -
  have "unat sz = unat (2 ^ n :: u32)" using assms by (simp add: unat_pow2)
  then have "sz = 2 ^ n" by (rule unsigned_word_eqI)
  then have "sz - 1 = mask n" by (simp add: mask_eq_exp_minus_1)
  then have "unat (t AND (sz - 1)) = unat t mod 2 ^ n"
    by (simp only: take_bit_eq_mask [symmetric] unsigned_take_bit_eq) (simp only: take_bit_eq_mod)
  moreover have "unat (t mod sz) = unat t mod 2 ^ n" by (simp only: unat_mod_distrib assms(1))
  ultimately show ?thesis by simp
qed

lemma aq_index_less:
  assumes "aq_shape k sz" shows "aq_index k sz t < unat sz"
proof -
  from assms obtain n where n: "unat sz = 2 ^ n" "2 * aqc_bits k \<le> n" "n \<le> 30" by (auto simp: aq_shape_def)
  show ?thesis unfolding aq_index_def n(1)
    by (intro remap_index_range) (use n ticket_low_bits [OF n(1,3)] in auto)
qed

lemma aq_index_eq_iff:
  assumes "aq_shape k sz"
  shows "aq_index k sz t = aq_index k sz u \<longleftrightarrow> unat t mod unat sz = unat u mod unat sz"
proof -
  from assms obtain n where n: "unat sz = 2 ^ n" "2 * aqc_bits k \<le> n" "n \<le> 30" by (auto simp: aq_shape_def)
  let ?w = "\<lambda>t :: u32. if aqc_mod k then t mod sz else t AND (sz - 1)"
  have b: "2 * aqc_bits k \<le> 32" using n by linarith
  have "aq_index k sz t = aq_index k sz u \<longleftrightarrow> remap_index (aqc_bits k) (?w t) = remap_index (aqc_bits k) (?w u)"
    by (simp only: aq_index_def unat_inject)
  also have "\<dots> \<longleftrightarrow> ?w t = ?w u" by (simp only: remap_index_inj [OF b])
  also have "\<dots> \<longleftrightarrow> unat (?w t) = unat (?w u)" by (simp only: unat_inject)
  also have "\<dots> \<longleftrightarrow> unat t mod 2 ^ n = unat u mod 2 ^ n" by (simp only: ticket_low_bits [OF n(1,3)])
  finally show ?thesis using n(1) by simp
qed

lemma unat_ticket_mod:
  fixes t :: u32
  assumes "aq_shape k sz" shows "unat (t + of_nat i) mod unat sz = (unat t + i) mod unat sz"
proof -
  from assms obtain n where n: "unat sz = 2 ^ n" "n \<le> 30" by (auto simp: aq_shape_def)
  have "(2 :: nat) ^ n dvd 2 ^ 32" using n(2) by (intro le_imp_power_dvd) simp
  then have d: "unat sz dvd 2 ^ 32" by (simp only: n(1))
  have "unat (t + of_nat i) = (unat t + i) mod 2 ^ 32"
    by (simp only: unat_word_ariths unat_of_nat mod_add_right_eq) (simp add: mod_simps)
  then show ?thesis using d by (simp add: mod_mod_cancel)
qed

lemma aq_index_ticket_inj:
  assumes "aq_shape k sz" "i < unat sz" "j < unat sz"
  shows "aq_index k sz (t + of_nat i) = aq_index k sz (t + of_nat j) \<longleftrightarrow> i = j"
  by (simp only: aq_index_eq_iff [OF assms(1)] unat_ticket_mod [OF assms(1)] mod_add_inj [OF assms(2,3)])

lemma aq_index_ticket_period:
  assumes "aq_shape k sz" shows "aq_index k sz (t + of_nat (unat sz)) = aq_index k sz t"
  by (simp only: aq_index_eq_iff [OF assms] unat_ticket_mod [OF assms]) simp

section \<open>What a slot promises\<close>

text \<open>
  \<open>val c\<close> is the element in a slot at rest. A free slot takes an element, a full one gives it back and
  is free again, and the opposite waits for another thread.
\<close>

locale aq_cell =
  fixes ok :: "'c \<Rightarrow> bool" and val :: "'c \<Rightarrow> 'a option"
    and push :: "bool \<Rightarrow> bool \<Rightarrow> 'a option \<Rightarrow> 'c \<Rightarrow> 'c result option"
    and pop :: "bool \<Rightarrow> bool \<Rightarrow> 'c \<Rightarrow> ('a option \<times> 'c) result option"
  assumes push_free: "ok c \<Longrightarrow> val c = None \<Longrightarrow> \<exists>c'. push s m (Some x) c = Some (Inr c') \<and> ok c' \<and> val c' = Some x"
    and push_full: "ok c \<Longrightarrow> val c = Some y \<Longrightarrow> push s m (Some x) c = None"
    and pop_full: "ok c \<Longrightarrow> val c = Some x \<Longrightarrow> \<exists>c'. pop s m c = Some (Inr (Some x, c')) \<and> ok c' \<and> val c' = None"
    and pop_free: "ok c \<Longrightarrow> val c = None \<Longrightarrow> pop s m c = None"

lemma do_pop_atomic_waits: "do_pop_atomic s m (None :: 'a option) = None"
proof (rule ccontr)
  assume "do_pop_atomic s m (None :: 'a option) \<noteq> None"
  then obtain r where r: "do_pop_atomic s m (None :: 'a option) = Some r" by auto
  have "(None :: 'a option) = None \<longrightarrow> False"
    by (rule do_pop_atomic.raw_induct [where P = "\<lambda>s m c r. c = None \<longrightarrow> False", OF _ r])
       (fastforce simp: bind_eq_Some_conv split: if_splits)
  then show False by simp
qed

lemma do_push_atomic_loop_waits: "do_push_atomic_loop s m e (Some y) = None"
proof (rule ccontr)
  assume "do_push_atomic_loop s m e (Some y) \<noteq> None"
  then obtain r where r: "do_push_atomic_loop s m e (Some y) = Some r" by auto
  have "Some y = Some y \<longrightarrow> False"
    by (rule do_push_atomic_loop.raw_induct [where P = "\<lambda>s m e c r. c = Some y \<longrightarrow> False", OF _ r])
       (fastforce simp: bind_eq_Some_conv split: if_splits)
  then show False by simp
qed

lemma do_pop_any_waits:
  assumes "fst c \<noteq> STORED" shows "do_pop_any s m c = None"
proof (rule ccontr)
  assume "do_pop_any s m c \<noteq> None"
  then obtain r where r: "do_pop_any s m c = Some r" by auto
  have "fst c \<noteq> STORED \<longrightarrow> False"
    by (rule do_pop_any.raw_induct [where P = "\<lambda>s m c r. fst c \<noteq> STORED \<longrightarrow> False", OF _ r])
       (fastforce simp: bind_eq_Some_conv split: if_splits)
  with assms show False by simp
qed

lemma do_push_any_waits:
  assumes "fst c \<noteq> EMPTY" shows "do_push_any s m e c = None"
proof (rule ccontr)
  assume "do_push_any s m e c \<noteq> None"
  then obtain r where r: "do_push_any s m e c = Some r" by auto
  have "fst c \<noteq> EMPTY \<longrightarrow> False"
    by (rule do_push_any.raw_induct [where P = "\<lambda>s m e c r. fst c \<noteq> EMPTY \<longrightarrow> False", OF _ r])
       (fastforce simp: bind_eq_Some_conv split: if_splits)
  with assms show False by simp
qed

definition aq_any_wf :: "'a aq_any \<Rightarrow> bool" where
  "aq_any_wf c \<longleftrightarrow> fst c = EMPTY \<or> fst c = STORED \<and> snd c \<noteq> None"

definition aq_any_val :: "'a aq_any \<Rightarrow> 'a option" where
  "aq_any_val c = (if fst c = STORED then snd c else None)"

interpretation aq_atomic_cell: aq_cell "\<lambda>_. True" "\<lambda>c. c" do_push_atomic do_pop_atomic
  by unfold_locales
     (simp_all add: do_push_atomic_def do_pop_atomic_waits do_push_atomic_loop_waits,
      simp_all add: do_push_atomic_loop.simps do_pop_atomic.simps)

interpretation aq_any_cell: aq_cell aq_any_wf aq_any_val do_push_any do_pop_any
proof unfold_locales
  fix c :: "'a aq_any" and x s m
  assume w: "aq_any_wf c"
  show "aq_any_val c = None \<Longrightarrow> \<exists>c'. do_push_any s m (Some x) c = Some (Inr c') \<and> aq_any_wf c' \<and> aq_any_val c' = Some x"
    using w by (subst do_push_any.simps) (auto simp: aq_any_wf_def aq_any_val_def)
  show "aq_any_val c = Some x \<Longrightarrow> \<exists>c'. do_pop_any s m c = Some (Inr (Some x, c')) \<and> aq_any_wf c' \<and> aq_any_val c' = None"
    using w by (subst do_pop_any.simps) (auto simp: aq_any_wf_def aq_any_val_def split: if_splits)
  show "aq_any_val c = Some y \<Longrightarrow> do_push_any s m (Some x) c = None" for y
    by (rule do_push_any_waits) (auto simp: aq_any_val_def split: if_splits)
  show "aq_any_val c = None \<Longrightarrow> do_pop_any s m c = None"
    using w by (intro do_pop_any_waits) (auto simp: aq_any_wf_def aq_any_val_def)
qed

section \<open>The invariant\<close>

text \<open>
  Counted from \<open>tail_\<close>, the first \<open>head_ - tail_\<close> slots are full and the others are free.
\<close>

definition aq_count :: "'c atomic_queue \<Rightarrow> nat" where
  "aq_count q = unat (aq_head q - aq_tail q)"

definition aq_cell_at :: "aq_class \<Rightarrow> 'c atomic_queue \<Rightarrow> nat \<Rightarrow> 'c" where
  "aq_cell_at k q i = the (aq_elements q) ! aq_index k (aq_size q) (aq_tail q + of_nat i)"

definition aq_inv :: "('c \<Rightarrow> bool) \<Rightarrow> ('c \<Rightarrow> 'a option) \<Rightarrow> aq_class \<Rightarrow> 'c atomic_queue \<Rightarrow> bool" where
  "aq_inv ok val k q \<longleftrightarrow> aq_shape k (aq_size q) \<and>
     (\<exists>es. aq_elements q = Some es \<and> length es = unat (aq_size q)) \<and>
     aq_count q \<le> unat (aq_size q) \<and>
     (\<forall>i < unat (aq_size q). ok (aq_cell_at k q i) \<and> (val (aq_cell_at k q i) \<noteq> None \<longleftrightarrow> i < aq_count q))"

definition aq_contents :: "('c \<Rightarrow> 'a option) \<Rightarrow> aq_class \<Rightarrow> 'c atomic_queue \<Rightarrow> 'a list" where
  "aq_contents val k q = map (\<lambda>i. the (val (aq_cell_at k q i))) [0..<aq_count q]"

lemma length_aq_contents [simp]: "length (aq_contents val k q) = aq_count q"
  by (simp add: aq_contents_def)

lemma aq_shape_size: "aq_shape k sz \<Longrightarrow> 0 < unat sz \<and> unat sz \<le> 2 ^ 30"
  unfolding aq_shape_def by (metis power_increasing one_le_numeral zero_less_numeral zero_less_power)

lemma aq_head_eq: "aq_head q = aq_tail q + of_nat (aq_count q)"
  by (simp add: aq_count_def)

lemma aq_sint_count:
  assumes "aq_shape k (aq_size q)" "aq_count q \<le> unat (aq_size q)"
  shows "sint (aq_head q - aq_tail q) = int (aq_count q)" "sint (aq_size q) = int (unat (aq_size q))"
  using aq_shape_size [OF assms(1)] assms(2) by (simp_all add: sint_unat aq_count_def)

lemma unat_count_Suc:
  "aq_count q < 2 ^ 30 \<Longrightarrow> unat (aq_head q + 1 - aq_tail q) = Suc (aq_count q)"
proof -
  assume a: "aq_count q < 2 ^ 30"
  have "aq_head q + 1 - aq_tail q = of_nat (Suc (aq_count q))" by (simp add: aq_head_eq)
  then show ?thesis using a by (simp only: unat_of_nat) simp
qed

lemma unat_count_pred:
  "0 < aq_count q \<Longrightarrow> unat (aq_head q - (aq_tail q + 1)) = aq_count q - 1"
proof -
  assume a: "0 < aq_count q"
  have "aq_head q - (aq_tail q + 1) = (aq_head q - aq_tail q) - 1" by simp
  moreover have "1 \<le> unat (aq_head q - aq_tail q)" using a by (simp add: aq_count_def)
  ultimately show ?thesis by (simp only: aq_count_def unat_sub_words) simp
qed

text \<open>The slots after a push and after a pop, counted from the new \<open>tail_\<close>.\<close>

lemma aq_cell_at_push:
  assumes "aq_shape k (aq_size q)" "aq_elements q = Some es" "length es = unat (aq_size q)" "aq_count q < unat (aq_size q)"
    "i < unat (aq_size q)"
  shows "aq_cell_at k (q\<lparr>aq_head := h, aq_elements := Some (es[aq_index k (aq_size q) (aq_head q) := c])\<rparr>) i =
    (if i = aq_count q then c else aq_cell_at k q i)"
  using assms aq_index_less [OF assms(1)] aq_index_ticket_inj [OF assms(1) assms(4,5), of "aq_tail q"]
  by (auto simp: aq_cell_at_def aq_head_eq nth_list_update)

lemma aq_cell_at_pop:
  assumes "aq_shape k (aq_size q)" "aq_elements q = Some es" "length es = unat (aq_size q)" "i < unat (aq_size q)"
  shows "aq_cell_at k (q\<lparr>aq_tail := aq_tail q + 1, aq_elements := Some (es[aq_index k (aq_size q) (aq_tail q) := c])\<rparr>) i =
    (if Suc i = unat (aq_size q) then c else aq_cell_at k q (Suc i))"
proof (cases "Suc i = unat (aq_size q)")
  case True
  have "aq_tail q + 1 + of_nat i = aq_tail q + of_nat (unat (aq_size q))"
    by (simp flip: True)
  then have "aq_index k (aq_size q) (aq_tail q + 1 + of_nat i) = aq_index k (aq_size q) (aq_tail q)"
    by (simp only: aq_index_ticket_period [OF assms(1)])
  with True show ?thesis using assms aq_index_less [OF assms(1)] by (simp add: aq_cell_at_def)
next
  case False
  have e: "aq_tail q + 1 + of_nat i = aq_tail q + of_nat (Suc i)" by simp
  have "aq_index k (aq_size q) (aq_tail q + of_nat (Suc i)) \<noteq> aq_index k (aq_size q) (aq_tail q + of_nat 0)"
    using assms False aq_shape_size [OF assms(1)] by (subst aq_index_ticket_inj) auto
  with False show ?thesis using assms by (simp add: aq_cell_at_def e del: of_nat_Suc)
qed

lemma aq_invE:
  assumes "aq_inv ok val k q"
  obtains es where "aq_shape k (aq_size q)" "aq_elements q = Some es" "length es = unat (aq_size q)"
    "aq_count q \<le> unat (aq_size q)"
    "\<And>i. i < unat (aq_size q) \<Longrightarrow> ok (aq_cell_at k q i) \<and> (val (aq_cell_at k q i) \<noteq> None \<longleftrightarrow> i < aq_count q)"
  using assms by (auto simp: aq_inv_def)

text \<open>
  The consumer as the interface sees it. \<open>try_pop\<close> returns what the slot held; handing out the \<open>NIL\<close> of an empty
  slot as if it were an element is an error.
\<close>

definition aq_take ::
    "(bool \<Rightarrow> bool \<Rightarrow> 'c \<Rightarrow> ('a option \<times> 'c) result option) \<Rightarrow> aq_class \<Rightarrow> 'c atomic_queue
       \<Rightarrow> ('a option \<times> 'c atomic_queue) result option" where
  "aq_take pop k q =
     (case aq_try_pop pop k q of
        None \<Rightarrow> None
      | Some (Inl e) \<Rightarrow> Some (Inl e)
      | Some (Inr (None, q')) \<Rightarrow> Some (Inr (None, q'))
      | Some (Inr (Some None, q')) \<Rightarrow> Some (Inl (UndefinedBehaviour ''NIL''))
      | Some (Inr (Some (Some x), q')) \<Rightarrow> Some (Inr (Some x, q')))"

definition aq_room :: "'c atomic_queue \<Rightarrow> bool" where
  "aq_room q \<longleftrightarrow> aq_count q < unat (aq_size q)"

section \<open>Every queue built on such slots is a bounded FIFO\<close>

locale aq_queue = aq_cell ok val push pop
  for ok :: "'c \<Rightarrow> bool" and val :: "'c \<Rightarrow> 'a option"
    and push :: "bool \<Rightarrow> bool \<Rightarrow> 'a option \<Rightarrow> 'c \<Rightarrow> 'c result option"
    and pop :: "bool \<Rightarrow> bool \<Rightarrow> 'c \<Rightarrow> ('a option \<times> 'c) result option" +
  fixes k :: aq_class
begin

lemma push_room:
  assumes inv: "aq_inv ok val k q" and room: "aq_room q"
  shows "\<exists>q'. aq_push push k (Some x) q = Some (Inr q') \<and> aq_inv ok val k q' \<and>
    aq_contents val k q' = aq_contents val k q @ [x] \<and> aq_size q' = aq_size q"
proof -
  from inv obtain es where sh: "aq_shape k (aq_size q)" and es: "aq_elements q = Some es" "length es = unat (aq_size q)"
    and c: "\<And>i. i < unat (aq_size q) \<Longrightarrow> ok (aq_cell_at k q i) \<and> (val (aq_cell_at k q i) \<noteq> None \<longleftrightarrow> i < aq_count q)"
    by (rule aq_invE) blast
  let ?d = "aq_count q" and ?i = "aq_index k (aq_size q) (aq_head q)"
  have d: "?d < unat (aq_size q)" using room by (simp add: aq_room_def)
  have at: "aq_cell_at k q ?d = es ! ?i" using es by (simp add: aq_cell_at_def aq_head_eq)
  then obtain c' where c': "push (aqc_spsc k) (aqc_maximize_throughput k) (Some x) (es ! ?i) = Some (Inr c')"
    "ok c'" "val c' = Some x" using push_free [of "es ! ?i"] c [OF d] by fastforce
  let ?q = "q\<lparr>aq_head := aq_head q + 1, aq_elements := Some (es[?i := c'])\<rparr>"
  have p: "aq_push push k (Some x) q = Some (Inr ?q)"
    using es c' aq_index_less [OF sh, of "aq_head q"] by (simp add: aq_push_def aq_do_push_def Let_def)
  have n: "aq_count ?q = Suc ?d"
    using unat_count_Suc [of q] d aq_shape_size [OF sh] by (simp add: aq_count_def [of ?q])
  note cell = aq_cell_at_push [OF sh es d, where h = "aq_head q + 1" and c = c']
  have "aq_inv ok val k ?q"
    unfolding aq_inv_def using sh es d n c c' by (auto simp: cell less_Suc_eq)
  moreover have "aq_contents val k ?q = aq_contents val k q @ [x]"
    unfolding aq_contents_def n using d c' by (auto simp: cell)
  ultimately show ?thesis using p by auto
qed

lemma pop_nonempty:
  assumes inv: "aq_inv ok val k q" and ne: "0 < aq_count q"
  shows "\<exists>x xs q'. aq_pop pop k q = Some (Inr (Some x, q')) \<and> aq_inv ok val k q' \<and>
    aq_contents val k q = x # xs \<and> aq_contents val k q' = xs \<and> aq_size q' = aq_size q"
proof -
  from inv obtain es where sh: "aq_shape k (aq_size q)" and es: "aq_elements q = Some es" "length es = unat (aq_size q)"
    and le: "aq_count q \<le> unat (aq_size q)"
    and c: "\<And>i. i < unat (aq_size q) \<Longrightarrow> ok (aq_cell_at k q i) \<and> (val (aq_cell_at k q i) \<noteq> None \<longleftrightarrow> i < aq_count q)"
    by (rule aq_invE) blast
  let ?i = "aq_index k (aq_size q) (aq_tail q)"
  have pos: "0 < unat (aq_size q)" using aq_shape_size [OF sh] by simp
  have at: "aq_cell_at k q 0 = es ! ?i" using es by (simp add: aq_cell_at_def)
  obtain x where x: "val (es ! ?i) = Some x" using c [OF pos] at ne by auto
  then obtain c' where c': "pop (aqc_spsc k) (aqc_maximize_throughput k) (es ! ?i) = Some (Inr (Some x, c'))"
    "ok c'" "val c' = None" using pop_full [of "es ! ?i"] c [OF pos] at by fastforce
  let ?q = "q\<lparr>aq_tail := aq_tail q + 1, aq_elements := Some (es[?i := c'])\<rparr>"
  have p: "aq_pop pop k q = Some (Inr (Some x, ?q))"
    using es c' aq_index_less [OF sh, of "aq_tail q"] by (simp add: aq_pop_def aq_do_pop_def Let_def)
  have n: "aq_count ?q = aq_count q - 1"
    using unat_count_pred [OF ne] by (simp add: aq_count_def [of ?q])
  note cell = aq_cell_at_pop [OF sh es, where c = c']
  have "aq_inv ok val k ?q"
    unfolding aq_inv_def using sh es n c c' le ne by (auto simp: cell)
  moreover have "aq_contents val k q = x # aq_contents val k ?q"
  proof -
    obtain d where d: "aq_count q = Suc d" using ne by (cases "aq_count q") auto
    have "aq_contents val k q = x # map (\<lambda>i. the (val (aq_cell_at k q (Suc i)))) [0..<d]"
      using x at by (simp add: aq_contents_def d upt_conv_Cons map_Suc_upt [symmetric] del: upt_Suc)
    also have "map (\<lambda>i. the (val (aq_cell_at k q (Suc i)))) [0..<d] = aq_contents val k ?q"
      unfolding aq_contents_def n using d le by (auto simp: cell)
    finally show ?thesis .
  qed
  ultimately show ?thesis using p by auto
qed

lemma push_waits:
  assumes inv: "aq_inv ok val k q" and full: "\<not> aq_room q"
  shows "aq_push push k (Some x) q = None"
proof -
  from inv obtain es where sh: "aq_shape k (aq_size q)" and es: "aq_elements q = Some es" "length es = unat (aq_size q)"
    and le: "aq_count q \<le> unat (aq_size q)"
    and c: "\<And>i. i < unat (aq_size q) \<Longrightarrow> ok (aq_cell_at k q i) \<and> (val (aq_cell_at k q i) \<noteq> None \<longleftrightarrow> i < aq_count q)"
    by (rule aq_invE) blast
  have n: "aq_count q = unat (aq_size q)" using full le by (simp add: aq_room_def)
  then have h: "aq_index k (aq_size q) (aq_head q) = aq_index k (aq_size q) (aq_tail q)"
    using aq_index_ticket_period [OF sh, of "aq_tail q"] by (simp add: aq_head_eq)
  then obtain y where "ok (es ! aq_index k (aq_size q) (aq_head q))" "val (es ! aq_index k (aq_size q) (aq_head q)) = Some y"
    using c [of 0] es n aq_shape_size [OF sh] by (auto simp: aq_cell_at_def)
  then show ?thesis
    using es aq_index_less [OF sh, of "aq_head q"] by (simp add: aq_push_def aq_do_push_def Let_def push_full)
qed

lemma pop_waits:
  assumes inv: "aq_inv ok val k q" and em: "aq_count q = 0"
  shows "aq_pop pop k q = None"
proof -
  from inv obtain es where sh: "aq_shape k (aq_size q)" and es: "aq_elements q = Some es" "length es = unat (aq_size q)"
    and c: "\<And>i. i < unat (aq_size q) \<Longrightarrow> ok (aq_cell_at k q i) \<and> (val (aq_cell_at k q i) \<noteq> None \<longleftrightarrow> i < aq_count q)"
    by (rule aq_invE) blast
  have "ok (es ! aq_index k (aq_size q) (aq_tail q))" "val (es ! aq_index k (aq_size q) (aq_tail q)) = None"
    using c [of 0] es em aq_shape_size [OF sh] by (auto simp: aq_cell_at_def)
  then show ?thesis
    using es aq_index_less [OF sh, of "aq_tail q"] by (simp add: aq_pop_def aq_do_pop_def Let_def pop_free)
qed

text \<open>\<open>try_push\<close> and \<open>try_pop\<close> look at the tickets first and otherwise do what \<open>push\<close> and \<open>pop\<close> do.\<close>

lemma try_push_eq:
  assumes "aq_inv ok val k q"
  shows "aq_try_push push k e q = (if aq_room q then map_option (map_sum id (Pair True)) (aq_push push k e q) else Some (Inr (False, q)))"
proof -
  have "sint (aq_size q) \<le> sint (aq_head q - aq_tail q) \<longleftrightarrow> \<not> aq_room q"
    using assms aq_sint_count [of k q] by (simp only: aq_inv_def aq_room_def zle_int not_less)
  then show ?thesis by (simp add: aq_try_push_def aq_push_def Let_def)
qed

lemma try_pop_eq:
  assumes "aq_inv ok val k q"
  shows "aq_try_pop pop k q = (if 0 < aq_count q then map_option (map_sum id (\<lambda>(e, q'). (Some e, q'))) (aq_pop pop k q) else Some (Inr (None, q)))"
  using assms aq_sint_count [of k q] by (auto simp: aq_inv_def aq_try_pop_def aq_pop_def Let_def)

lemma try_push_room:
  assumes "aq_inv ok val k q" "aq_room q"
  shows "\<exists>q'. aq_try_push push k (Some x) q = Some (Inr (True, q')) \<and> aq_inv ok val k q' \<and>
    aq_contents val k q' = aq_contents val k q @ [x] \<and> aq_size q' = aq_size q"
  using push_room [OF assms, of x] assms by (auto simp: try_push_eq)

lemma try_push_full: "aq_inv ok val k q \<Longrightarrow> \<not> aq_room q \<Longrightarrow> aq_try_push push k e q = Some (Inr (False, q))"
  by (simp add: try_push_eq)

lemma try_pop_nonempty:
  assumes "aq_inv ok val k q" "aq_contents val k q = x # xs"
  shows "\<exists>q'. aq_try_pop pop k q = Some (Inr (Some (Some x), q')) \<and> aq_inv ok val k q' \<and>
    aq_contents val k q' = xs \<and> aq_size q' = aq_size q"
proof -
  have "0 < aq_count q" using assms(2) by (metis length_aq_contents length_greater_0_conv list.distinct(1))
  from pop_nonempty [OF assms(1) this] this assms show ?thesis by (auto simp: try_pop_eq)
qed

lemma try_pop_empty:
  "aq_inv ok val k q \<Longrightarrow> aq_contents val k q = [] \<Longrightarrow> aq_try_pop pop k q = Some (Inr (None, q))"
  by (simp add: try_pop_eq flip: length_aq_contents [of val k])

end

sublocale aq_queue \<subseteq> bounded_fifo "aq_inv ok val k" "aq_contents val k" aq_room "\<lambda>x. aq_try_push push k (Some x)" "aq_take pop k"
  "\<lambda>q. unat (aq_capacity q)"
proof unfold_locales
  fix q x assume inv: "aq_inv ok val k q"
  note p = try_push_room [OF inv, of x] and f = try_push_full [OF inv, of "Some x"]
  show "aq_room q \<Longrightarrow> \<exists>q'. aq_try_push push k (Some x) q = Some (Inr (True, q')) \<and> aq_inv ok val k q' \<and>
      aq_contents val k q' = aq_contents val k q @ [x]" using p by auto
  show "\<not> aq_room q \<Longrightarrow> \<exists>q'. aq_try_push push k (Some x) q = Some (Inr (False, q')) \<and> aq_inv ok val k q' \<and>
      aq_contents val k q' = aq_contents val k q" using f inv by auto
  show "unat (aq_capacity q') = unat (aq_capacity q)" if "aq_try_push push k (Some x) q = Some (Inr (b, q'))" for b q'
    using p f that by (cases "aq_room q") (auto simp: aq_capacity_def)
  show "aq_contents val k q = [] \<Longrightarrow> \<exists>q'. aq_take pop k q = Some (Inr (None, q')) \<and> aq_inv ok val k q' \<and> aq_contents val k q' = []"
    using try_pop_empty [OF inv] inv by (simp add: aq_take_def)
  show "aq_contents val k q = y # ys \<Longrightarrow> \<exists>q'. aq_take pop k q = Some (Inr (Some y, q')) \<and> aq_inv ok val k q' \<and>
      aq_contents val k q' = ys" for y ys
    using try_pop_nonempty [OF inv, of y ys] by (auto simp: aq_take_def)
  show "unat (aq_capacity q') = unat (aq_capacity q)" if "aq_take pop k q = Some (Inr (r, q'))" for r q'
    using try_pop_empty [OF inv] try_pop_nonempty [OF inv] that
    by (cases "aq_contents val k q") (auto simp: aq_take_def aq_capacity_def)
  show "aq_room q \<longleftrightarrow> length (aq_contents val k q) < unat (aq_capacity q)"
    by (simp add: aq_room_def aq_capacity_def)
qed

interpretation aq_atomic: aq_queue "\<lambda>_. True" "\<lambda>c. c" do_push_atomic do_pop_atomic k for k ..

interpretation aq_any: aq_queue aq_any_wf aq_any_val do_push_any do_pop_any k for k ..

section \<open>Construction\<close>

lemma aq_fresh:
  assumes "aq_shape k sz" "ok c" "val c = None"
  shows "aq_inv ok val k \<lparr>aq_head = 0, aq_tail = 0, aq_size = sz, aq_elements = Some (replicate (unat sz) c)\<rparr>"
    "aq_contents val k \<lparr>aq_head = 0, aq_tail = 0, aq_size = sz, aq_elements = Some (replicate (unat sz) c)\<rparr> = []"
  using assms aq_index_less [OF assms(1)] by (auto simp: aq_inv_def aq_contents_def aq_count_def aq_cell_at_def)

lemma least_pow2_le: "least_pow2 a r \<Longrightarrow> a \<le> 2 ^ m \<Longrightarrow> \<exists>n \<le> m. r = 2 ^ n"
  by (auto simp: least_pow2_def)

lemma round_up_32_pow2: "0 < unat a \<Longrightarrow> unat a \<le> 2 ^ 30 \<Longrightarrow> \<exists>n \<le> 30. unat (round_up_to_power_of_2_32 a) = 2 ^ n"
  using round_up_32 [of a] by (intro least_pow2_le) auto

lemma unat_min_size: "bits \<le> 15 \<Longrightarrow> unat (push_bit (bits * 2) 1 :: u32) = 2 ^ (bits * 2)"
  by (simp add: push_bit_eq_mult unat_pow2)

lemma unat_max: "unat (max a b :: 'a :: len word) = max (unat a) (unat b)"
  by (simp add: max_def word_le_nat_alt)

text \<open>The size of an \<open>AtomicQueueB\<close>: the rounded size or the minimum the shuffle needs, whichever is larger.\<close>

lemma aqb_size_shape:
  assumes "unat sz \<le> 2 ^ 30" "aqc_bits k \<le> 15"
  shows "aq_shape k (aqb_size (aqc_bits k) sz)" "unat sz \<le> unat (aqb_size (aqc_bits k) sz)"
proof -
  let ?r = "unat (round_up_to_power_of_2_32 sz)" and ?m = "2 ^ (aqc_bits k * 2) :: nat"
  have u: "unat (aqb_size (aqc_bits k) sz) = max ?r ?m"
    using assms(2) by (simp only: aqb_size_def unat_max unat_min_size)
  show "aq_shape k (aqb_size (aqc_bits k) sz)"
  proof (cases "?m \<le> ?r")
    case True
    then have "0 < unat sz" using round_up_32_wraps [of sz] by (cases "sz = 0") (auto simp: unat_gt_0)
    with assms(1) obtain n where n: "n \<le> 30" "?r = 2 ^ n" using round_up_32_pow2 by blast
    then have "aqc_bits k * 2 \<le> n" using True by (metis one_less_numeral_iff power_le_imp_le_exp semiring_norm(76))
    with n True u show ?thesis unfolding aq_shape_def by (intro exI [of _ n]) (auto simp: max_def)
  next
    case False
    with u assms(2) show ?thesis unfolding aq_shape_def
      by (intro exI [of _ "aqc_bits k * 2"]) (auto simp: max_def)
  qed
  show "unat sz \<le> unat (aqb_size (aqc_bits k) sz)"
    using round_up_32 [of sz] assms(1) u by (cases "sz = 0") (auto simp: least_pow2_def unat_gt_0)
qed

lemma GetIndexShuffleBits_shape:
  assumes "0 < unat SIZE" "unat SIZE \<le> 2 ^ 30"
  shows "aq_shape (aq_static_class True mt spsc SIZE sizeofT) (aq_static_size True SIZE)"
proof -
  obtain n where n: "n \<le> 30" "unat (aq_static_size True SIZE) = 2 ^ n"
    using round_up_32_pow2 [OF assms] by (auto simp: aq_static_size_def)
  let ?b = "GetCacheLineIndexBits (CACHE_LINE_SIZE div sizeofT)"
  have b: "?b \<le> 15" by simp
  have "2 * ?b \<le> n" if "\<not> aq_static_size True SIZE < push_bit (?b * 2) 1"
  proof -
    have "2 ^ (?b * 2) \<le> (2 :: nat) ^ n"
      using that by (simp only: word_less_nat_alt unat_min_size [OF b] n(2) not_less)
    then show ?thesis by (metis mult.commute one_less_numeral_iff power_le_imp_le_exp semiring_norm(76))
  qed
  then have "2 * aqc_bits (aq_static_class True mt spsc SIZE sizeofT) \<le> n"
    by (simp add: aq_static_class_def GetIndexShuffleBits_def Let_def del: GetCacheLineIndexBits.simps)
  with n show ?thesis unfolding aq_shape_def by blast
qed

lemma aq_was_size_count:
  assumes "aq_inv ok val k q"
  shows "unat (aq_was_size q) = aq_count q" "aq_was_empty q \<longleftrightarrow> aq_contents val k q = []" "aq_was_full q \<longleftrightarrow> \<not> aq_room q"
proof -
  have "\<not> sint (aq_head q - aq_tail q) < 0" using aq_sint_count [of k q] assms by (simp add: aq_inv_def)
  then show c: "unat (aq_was_size q) = aq_count q" by (simp add: aq_was_size_def aq_count_def Let_def)
  have "aq_was_empty q \<longleftrightarrow> unat (aq_was_size q) = 0" by (simp add: aq_was_empty_def unat_eq_0)
  then show "aq_was_empty q \<longleftrightarrow> aq_contents val k q = []" by (simp only: c length_aq_contents [symmetric, of q val k] length_0_conv)
  show "aq_was_full q \<longleftrightarrow> \<not> aq_room q"
    by (simp only: aq_was_full_def aq_capacity_def word_le_nat_alt c aq_room_def not_less)
qed

section \<open>Properties\<close>

text \<open>
  One thread on a well-formed queue of \<open>AtomicQueue2\<close> or \<open>AtomicQueueB2\<close>: \<open>try_push\<close> always returns,
  refuses exactly when \<open>was_full\<close> and otherwise appends; \<open>try_pop\<close> always returns, finds nothing exactly
  when \<open>was_empty\<close> and otherwise removes the oldest element; neither leaves the arrays, and the
  invariant is kept, also when the 32-bit tickets wrap.
\<close>

theorem atomic_queue2_spec:
  assumes "aq_inv aq_any_wf aq_any_val k q"
  shows "(if aq_was_full q then aq_try_push do_push_any k (Some x) q = Some (Inr (False, q))
          else \<exists>q'. aq_try_push do_push_any k (Some x) q = Some (Inr (True, q')) \<and> aq_inv aq_any_wf aq_any_val k q' \<and>
                 aq_contents aq_any_val k q' = aq_contents aq_any_val k q @ [x]) \<and>
    (if aq_was_empty q then aq_try_pop do_pop_any k q = Some (Inr (None, q))
     else \<exists>y ys q'. aq_contents aq_any_val k q = y # ys \<and> aq_try_pop do_pop_any k q = Some (Inr (Some (Some y), q')) \<and>
            aq_inv aq_any_wf aq_any_val k q' \<and> aq_contents aq_any_val k q' = ys)"
proof (intro conjI)
  note w = aq_was_size_count(2,3) [OF assms]
  show "if aq_was_full q then aq_try_push do_push_any k (Some x) q = Some (Inr (False, q))
     else \<exists>q'. aq_try_push do_push_any k (Some x) q = Some (Inr (True, q')) \<and> aq_inv aq_any_wf aq_any_val k q' \<and>
            aq_contents aq_any_val k q' = aq_contents aq_any_val k q @ [x]"
    using aq_any.try_push_full [OF assms] aq_any.try_push_room [OF assms, of x] w by auto
  show "if aq_was_empty q then aq_try_pop do_pop_any k q = Some (Inr (None, q))
     else \<exists>y ys q'. aq_contents aq_any_val k q = y # ys \<and> aq_try_pop do_pop_any k q = Some (Inr (Some (Some y), q')) \<and>
            aq_inv aq_any_wf aq_any_val k q' \<and> aq_contents aq_any_val k q' = ys"
    using aq_any.try_pop_empty [OF assms] aq_any.try_pop_nonempty [OF assms] w
    by (cases "aq_contents aq_any_val k q") auto
qed

text \<open>The queue of \<^verbatim>\<open>app10\<close>, empty, with both tickets about to wrap.\<close>

definition aq_example :: "nat aq_any atomic_queue" where
  "aq_example = \<lparr>aq_head = - 1, aq_tail = - 1, aq_size = 4, aq_elements = Some (replicate 4 (EMPTY, None))\<rparr>"

definition aq_example_class :: aq_class where
  "aq_example_class = \<lparr>aqc_spsc = False, aqc_maximize_throughput = True, aqc_bits = 1, aqc_mod = False\<rparr>"

lemma aq_example_inv: "aq_inv aq_any_wf aq_any_val aq_example_class aq_example"
proof -
  have sh: "aq_shape aq_example_class 4" by (simp add: aq_shape_def aq_example_class_def) (rule exI [of _ 2], simp)
  show ?thesis
    using sh aq_index_less [OF sh]
    by (auto simp: aq_inv_def aq_example_def aq_count_def aq_cell_at_def aq_any_wf_def aq_any_val_def)
qed

theorem atomic_queue2_spec_witness:
  "\<exists>q'. aq_try_push do_push_any aq_example_class (Some 7) aq_example = Some (Inr (True, q')) \<and>
     aq_contents aq_any_val aq_example_class q' = [7]"
proof -
  have "\<not> aq_was_full aq_example" by (simp add: aq_was_full_def aq_was_size_def aq_capacity_def aq_example_def)
  moreover have "aq_contents aq_any_val aq_example_class aq_example = []"
    by (simp add: aq_contents_def aq_count_def aq_example_def)
  ultimately show ?thesis using atomic_queue2_spec [OF aq_example_inv, of 7] by auto
qed

text \<open>
  C5. First in, first out for \<open>AtomicQueueB2\<close> (\<^verbatim>\<open>app10\<close>), for every requested size up to \<open>2 ^ 30\<close>, every
  element size and every sequence of \<open>try_push\<close> and \<open>try_pop\<close> by one thread on a fresh queue: every call returns
  (none spins or fails), and the answers are exactly those of a list bounded by \<open>capacity()\<close>, which is at least the
  requested size.
\<close>

theorem atomic_queueB2_fifo:
  assumes "AtomicQueueB2_ctor alloc (aqc_bits k) n = Inr q" "unat n \<le> 2 ^ 30" "aqc_bits k \<le> 15"
  shows "\<exists>q'. run_ops (\<lambda>x. aq_try_push do_push_any k (Some x)) (aq_take do_pop_any k) ops q =
      Some (Inr (fst (bounded_answers (unat (aq_capacity q)) ops []), q')) \<and>
    aq_contents aq_any_val k q' = snd (bounded_answers (unat (aq_capacity q)) ops []) \<and>
    aq_capacity q' = aq_capacity q \<and> unat n \<le> unat (aq_capacity q)"
proof -
  note sh = aqb_size_shape [OF assms(2,3)]
  have q: "q = \<lparr>aq_head = 0, aq_tail = 0, aq_size = aqb_size (aqc_bits k) n,
      aq_elements = Some (replicate (unat (aqb_size (aqc_bits k) n)) (EMPTY, None))\<rparr>"
    using assms(1) by (auto simp: AtomicQueueB2_ctor_def Let_def split: if_splits)
  have i: "aq_inv aq_any_wf aq_any_val k q" "aq_contents aq_any_val k q = []"
    unfolding q by (rule aq_fresh [OF sh(1)]; simp add: aq_any_wf_def aq_any_val_def)+
  moreover have "unat n \<le> unat (aq_capacity q)" using sh(2) by (simp add: q aq_capacity_def)
  ultimately show ?thesis using aq_any.run_bounded [OF i(1), of ops] by (auto simp: unat_inject)
qed

theorem atomic_queueB2_fifo_witness:
  "\<exists>(q :: nat aq_any atomic_queue) q'. AtomicQueueB2_ctor (\<lambda>_. True) 1 3 = Inr q \<and> unat (aq_capacity q) = 4 \<and>
     run_ops (\<lambda>x. aq_try_push do_push_any aq_example_class (Some x)) (aq_take do_pop_any aq_example_class)
       [Pop, Push 1, Push 2, Push 3, Push 4, Push 5, Pop, Push 6] q =
     Some (Inr ([Popped None, Pushed True, Pushed True, Pushed True, Pushed True, Pushed False, Popped (Some 1), Pushed True], q')) \<and>
     aq_contents aq_any_val aq_example_class q' = [2, 3, 4, 6]"
proof -
  obtain q :: "nat aq_any atomic_queue" where q: "AtomicQueueB2_ctor (\<lambda>_. True) 1 3 = Inr q" 
    by (simp add: AtomicQueueB2_ctor_def Let_def)
  have b: "aqc_bits aq_example_class = 1" by (simp add: aq_example_class_def)
  have r: "round_up_to_power_of_2_32 3 = 4" by code_simp
  have c: "unat (aq_capacity q) = 4"
    using q by (auto simp: AtomicQueueB2_ctor_def Let_def aq_capacity_def aqb_size_def r)
  have "unat (3 :: u32) \<le> 2 ^ 30" "aqc_bits aq_example_class \<le> 15" by (simp_all add: b)
  from atomic_queueB2_fifo [OF q [folded b] this, of "[Pop, Push 1, Push 2, Push 3, Push 4, Push 5, Pop, Push 6]"] q c
  show ?thesis by auto
qed

text \<open>
  \<open>AtomicQueue\<close> (one atomic value with a \<open>NIL\<close> per slot, size a template argument): for every size from 1 to
  \<open>2 ^ 30\<close> and every sequence of \<open>try_push\<close> and \<open>try_pop\<close> on the fresh queue, exactly the answers of a list bounded
  by \<open>capacity()\<close>.
\<close>

theorem atomic_queue_fifo:
  assumes "0 < unat SIZE" "unat SIZE \<le> 2 ^ 30" "k = aq_static_class True mt spsc SIZE sizeofT"
    and c: "c = unat (aq_static_size True SIZE)"
  shows "\<exists>q'. run_ops (\<lambda>x. aq_try_push do_push_atomic k (Some x)) (aq_take do_pop_atomic k) ops (AtomicQueue_ctor True SIZE) =
      Some (Inr (fst (bounded_answers c ops []), q')) \<and> aq_contents (\<lambda>c. c) k q' = snd (bounded_answers c ops [])"
proof -
  note sh = GetIndexShuffleBits_shape [OF assms(1,2), of mt spsc sizeofT, folded assms(3)]
  let ?q = "AtomicQueue_ctor True SIZE :: 'a option atomic_queue"
  have i: "aq_inv (\<lambda>_. True) (\<lambda>c. c) k ?q" "aq_contents (\<lambda>c. c) k ?q = []"
    unfolding AtomicQueue_ctor_def by (rule aq_fresh [OF sh]; simp)+
  have "unat (aq_capacity ?q) = c" by (simp add: aq_capacity_def AtomicQueue_ctor_def c)
  with aq_atomic.run_bounded [OF i(1), of ops] i(2) show ?thesis by auto
qed

theorem atomic_queue_fifo_witness:
  "\<exists>q'. run_ops (\<lambda>x. aq_try_push do_push_atomic (aq_static_class True True False 2 8) (Some x))
       (aq_take do_pop_atomic (aq_static_class True True False 2 8)) [Pop, Push (5 :: nat), Pop] (AtomicQueue_ctor True 2) =
     Some (Inr ([Popped None, Pushed True, Popped (Some 5)], q'))"
proof -
  have "0 < unat (aq_static_size True 2)" using GetIndexShuffleBits_shape [of 2 True False 8] aq_shape_size by fastforce
  with atomic_queue_fifo [of 2 _ True False 8 _ "[Pop, Push (5 :: nat), Pop]", OF _ _ refl refl] show ?thesis by auto
qed

text \<open>
  \<open>push\<close> and \<open>pop\<close> take their ticket first: on a full queue \<open>push\<close> spins until another thread pops
  (in one thread it never returns), on an empty one \<open>pop\<close> spins; otherwise they do what the \<open>try_\<close> forms do.
\<close>

theorem atomic_queue_blocking:
  assumes "aq_inv aq_any_wf aq_any_val k q"
  shows "(aq_push do_push_any k (Some x) q = None \<longleftrightarrow> aq_was_full q) \<and>
    (aq_pop do_pop_any k q = None \<longleftrightarrow> aq_was_empty q) \<and>
    (\<not> aq_was_full q \<longrightarrow> map_option (map_sum id (Pair True)) (aq_push do_push_any k (Some x) q) = aq_try_push do_push_any k (Some x) q) \<and>
    (\<not> aq_was_empty q \<longrightarrow> map_option (map_sum id (\<lambda>(e, q'). (Some e, q'))) (aq_pop do_pop_any k q) = aq_try_pop do_pop_any k q)"
proof -
  note w = aq_was_size_count [OF assms]
  have e: "aq_was_empty q \<longleftrightarrow> aq_count q = 0" by (metis w(2) length_aq_contents length_0_conv)
  have "aq_push do_push_any k (Some x) q = None \<longleftrightarrow> aq_was_full q"
    using aq_any.push_waits [OF assms, of x] aq_any.push_room [OF assms, of x] w(3) by auto
  moreover have "aq_pop do_pop_any k q = None \<longleftrightarrow> aq_was_empty q"
    using aq_any.pop_waits [OF assms] aq_any.pop_nonempty [OF assms] e by auto
  ultimately show ?thesis
    using w(3) e by (simp only: aq_any.try_push_eq [OF assms] aq_any.try_pop_eq [OF assms]) simp
qed

theorem atomic_queue_blocking_witness:
  "aq_pop do_pop_any aq_example_class aq_example = None \<and>
   map_option (map_sum id (Pair True)) (aq_push do_push_any aq_example_class (Some 7) aq_example) =
     aq_try_push do_push_any aq_example_class (Some 7) aq_example"
proof -
  have "\<not> aq_was_full aq_example" "aq_was_empty aq_example"
    by (simp_all add: aq_was_full_def aq_was_empty_def aq_was_size_def aq_capacity_def aq_example_def)
  with atomic_queue_blocking [OF aq_example_inv, of 7] show ?thesis by blast
qed

text \<open>
  Sizes beyond \<open>2 ^ 30\<close> are not served: from there to \<open>2 ^ 31\<close> the queue is built with size \<open>2 ^ 31\<close>,
  which is negative as an \<open>int\<close>, and every \<open>try_push\<close> refuses; for more than \<open>2 ^ 31\<close> the rounding wraps to 0
  and the queue silently gets the minimum size.
\<close>

theorem atomic_queueB_oversized:
  assumes "AtomicQueueB_ctor alloc bits n = Inr q" "bits \<le> 15" "2 ^ 30 < unat n"
  shows "(unat n \<le> 2 ^ 31 \<longrightarrow> aq_try_push p k e q = Some (Inr (False, q))) \<and>
    (2 ^ 31 < unat n \<longrightarrow> unat (aq_capacity q) = 2 ^ (bits * 2))"
proof (intro conjI impI)
  have q: "aq_head q = 0" "aq_tail q = 0" "aq_size q = aqb_size bits n"
    using assms(1) by (auto simp: AtomicQueueB_ctor_def Let_def split: if_splits)
  have u: "unat (aq_size q) = max (unat (round_up_to_power_of_2_32 n)) (2 ^ (bits * 2))"
    using assms(2) by (simp only: q aqb_size_def unat_max unat_min_size)
  have m: "(2 :: nat) ^ (bits * 2) \<le> 2 ^ 30" using assms(2) by (intro power_increasing) auto
  show "unat (aq_capacity q) = 2 ^ (bits * 2)" if "2 ^ 31 < unat n"
    using u round_up_32_wraps [of n] that by (simp add: aq_capacity_def)
  assume le: "unat n \<le> 2 ^ 31"
  have "least_pow2 (unat n) (unat (round_up_to_power_of_2_32 n))" using assms(3) le by (intro round_up_32) auto
  then obtain j where j: "unat (round_up_to_power_of_2_32 n) = 2 ^ j" "unat n \<le> 2 ^ j" "j \<le> 31"
    using le by (auto simp: least_pow2_def)
  have "(2 :: nat) ^ 30 < 2 ^ j" using j(2) assms(3) by linarith
  then have "j = 31" using j(3) by (simp only: power_strict_increasing_iff)
  then have "unat (aq_size q) = 2 ^ 31" using u j(1) m by (simp add: max_def)
  then have "sint (aq_size q) = - (2 ^ 31)" by (simp add: sint_unat)
  then show "aq_try_push p k e q = Some (Inr (False, q))" by (simp add: aq_try_push_def q Let_def)
qed

theorem atomic_queueB_oversized_witness:
  "\<exists>q :: nat option atomic_queue. AtomicQueueB_ctor (\<lambda>_. True) 3 2000000000 = Inr q \<and>
     aq_try_push do_push_atomic aq_example_class (Some 1) q = Some (Inr (False, q))"
proof -
  obtain q :: "nat option atomic_queue" where q: "AtomicQueueB_ctor (\<lambda>_. True) 3 2000000000 = Inr q"
    by (simp add: AtomicQueueB_ctor_def Let_def)
  from atomic_queueB_oversized [OF this, of do_push_atomic aq_example_class "Some 1"] q show ?thesis by auto
qed

text \<open>
  Moving an \<open>AtomicQueueB\<close>: the new queue holds what the old one held; the old one refuses every push and its
  destructor destroys nothing, so the elements are destroyed once. But the tickets are copied, not reset:
  if the old queue was not empty, \<open>try_pop\<close> on the moved-from object passes its guard and
  dereferences the null pointer.
\<close>

theorem atomic_queueB_move:
  assumes "aq_inv ok val k b" "aqb_move b = (a, b')"
  shows "aq_inv ok val k a \<and> aq_contents val k a = aq_contents val k b \<and>
    aq_try_push p k e b' = Some (Inr (False, b')) \<and>
    aqb_dtor b' = Inr (0, b') \<and> (\<exists>a'. aqb_dtor a = Inr (unat (aq_capacity b), a') \<and> aq_elements a' = None) \<and>
    (\<not> aq_was_empty b \<longrightarrow> aq_try_pop p' k b' = Some (Inl (UndefinedBehaviour ''elements_'')))"
proof -
  from assms(1) obtain es where sh: "aq_shape k (aq_size b)" and es: "aq_elements b = Some es" "length es = unat (aq_size b)"
    and le: "aq_count b \<le> unat (aq_size b)" by (rule aq_invE)
  have a: "a = b" "b' = b\<lparr>aq_size := 0, aq_elements := None\<rparr>" using assms(2) by (auto simp: aqb_move_def)
  have "sint (aq_head b - aq_tail b) = int (aq_count b)" by (rule aq_sint_count(1) [OF sh le])
  moreover have "aq_was_empty b \<longleftrightarrow> aq_count b = 0"
    by (metis aq_was_size_count(2) [OF assms(1)] length_aq_contents length_0_conv)
  ultimately show ?thesis using assms(1) es
    by (simp add: a aq_try_push_def aq_try_pop_def aq_do_pop_def aqb_dtor_def Let_def aq_capacity_def)
qed

theorem atomic_queueB_move_witness:
  "aq_try_push do_push_any aq_example_class (Some 7) (aq_example\<lparr>aq_size := 0, aq_elements := None\<rparr>) =
     Some (Inr (False, aq_example\<lparr>aq_size := 0, aq_elements := None\<rparr>))"
proof -
  have "aqb_move aq_example = (aq_example, aq_example\<lparr>aq_size := 0, aq_elements := None\<rparr>)"
    by (simp add: aqb_move_def aq_example_def)
  from atomic_queueB_move [OF aq_example_inv this, where p = do_push_any and e = "Some 7" and p' = do_pop_any] show ?thesis by blast
qed

definition aq_plain_class :: aq_class where
  "aq_plain_class = \<lparr>aqc_spsc = False, aqc_maximize_throughput = True, aqc_bits = 0, aqc_mod = True\<rparr>"

abbreviation aq_three :: "u32 \<Rightarrow> 'a option atomic_queue" where
  "aq_three t \<equiv> \<lparr>aq_head = t, aq_tail = t, aq_size = 3, aq_elements = Some [None, None, None]\<rparr>"

lemma aq_plain_index: "aq_index aq_plain_class 3 t < 3"
proof -
  have "unat (t mod 3) = unat t mod 3" by (simp add: unat_mod_distrib)
  then show ?thesis by (simp add: aq_index_def aq_plain_class_def remap_index_def)
qed

lemma aq_three_push:
  fixes x :: 'a
  shows "aq_try_push do_push_atomic aq_plain_class (Some x) (aq_three t) =
     Some (Inr (True, \<lparr>aq_head = t + 1, aq_tail = t, aq_size = 3,
       aq_elements = Some ([None, None, None] [aq_index aq_plain_class 3 t := Some x])\<rparr>))"
proof -
  let ?i = "aq_index aq_plain_class 3 t" and ?es = "[None, None, None :: 'a option]"
  have i: "\<not> length ?es \<le> ?i" using aq_plain_index [of t] by simp
  then have n: "?es ! ?i = None" by (auto simp: not_le less_Suc_eq)
  have s: "do_push_atomic sp mt (Some x) None = Some (Inr (Some x))" for sp mt
    by (simp add: do_push_atomic_def do_push_atomic_loop.simps)
  show ?thesis
    unfolding aq_try_push_def aq_do_push_def Let_def using i n by (simp add: s del: length_Cons list_update.simps)
qed

text \<open>A push and a pop on the empty queue move both tickets on; any number of rounds does no more.\<close>

lemma aq_three_cycle:
  fixes x :: 'a
  shows "run_ops (\<lambda>x. aq_try_push do_push_atomic aq_plain_class (Some x)) (aq_take do_pop_atomic aq_plain_class) (Push x # Pop # ops) (aq_three t) =
     map_option (map_sum id (apfst ((@) [Pushed True, Popped (Some x)])))
       (run_ops (\<lambda>x. aq_try_push do_push_atomic aq_plain_class (Some x)) (aq_take do_pop_atomic aq_plain_class) ops (aq_three (t + 1)))"
proof -
  let ?i = "aq_index aq_plain_class 3 t"
  have i: "?i < length [None, None, None :: 'a option]" using aq_plain_index [of t] by simp
  have n: "[None, None, None][?i := None] = [None, None, None :: 'a option]"
    using i by (auto simp: less_Suc_eq)
  have p: "aq_take do_pop_atomic aq_plain_class \<lparr>aq_head = t + 1, aq_tail = t, aq_size = 3,
       aq_elements = Some ([None, None, None] [?i := Some x])\<rparr> = Some (Inr (Some x, aq_three (t + 1)))"
    unfolding aq_take_def aq_try_pop_def
    using i n by (simp add: aq_do_pop_def Let_def do_pop_atomic.simps del: list_update.simps length_Cons)
  show ?thesis
    by (simp add: aq_three_push p del: list_update.simps)
      (simp add: option.map_comp sum.map_comp comp_def apfst_def map_prod_def id_def case_prod_unfold)
qed

lemma aq_three_cycles:
  "run_ops (\<lambda>x. aq_try_push do_push_atomic aq_plain_class (Some x)) (aq_take do_pop_atomic aq_plain_class) (concat (replicate m [Push x, Pop])) (aq_three t) =
     Some (Inr (concat (replicate m [Pushed True, Popped (Some x)]), aq_three (t + of_nat m)))"
proof (induction m arbitrary: t)
  case (Suc m)
  have "concat (replicate (Suc m) [Push x, Pop]) = Push x # Pop # concat (replicate m [Push x, Pop])" by simp
  then show ?case using Suc [of "t + 1"] by (simp only: aq_three_cycle) (simp add: add.assoc)
qed simp

text \<open>
  C39. With \<open>MINIMIZE_CONTENTION = false\<close> the size need not be a power of two, and then the tickets do not
  wrap at a multiple of it. On an \<open>AtomicQueue\<close> of size 3, after \<open>2 ^ 32 - 1\<close> pushes and pops of one thread, which all
  succeed, the queue is empty, accepts one element, and the next \<open>try_push\<close>, which should succeed as well, spins
  forever on the slot of the first.
\<close>

theorem atomic_queue_wrap_blocks:
  "\<exists>q0 q. run_ops (\<lambda>x. aq_try_push do_push_atomic aq_plain_class (Some x)) (aq_take do_pop_atomic aq_plain_class)
        (concat (replicate (2 ^ 32 - 1) [Push x, Pop])) (AtomicQueue_ctor False 3) =
      Some (Inr (concat (replicate (2 ^ 32 - 1) [Pushed True, Popped (Some x)]), q0)) \<and>
    aq_was_empty q0 \<and> aq_try_push do_push_atomic aq_plain_class (Some y) q0 = Some (Inr (True, q)) \<and>
    \<not> aq_was_full q \<and> aq_try_push do_push_atomic aq_plain_class (Some z) q = None"
proof -
  have ctor: "AtomicQueue_ctor False 3 = aq_three 0"
    by (simp add: AtomicQueue_ctor_def aq_static_size_def, simp add: numeral_3_eq_3)
  have "0 + of_nat (2 ^ 32 - 1) = (- 1 :: u32)" by simp
  note run = aq_three_cycles [of "2 ^ 32 - 1" x 0, unfolded this, folded ctor]
  have i: "aq_index aq_plain_class 3 (- 1) = 0" "aq_index aq_plain_class 3 0 = 0"
    by (simp_all add: aq_index_def aq_plain_class_def remap_index_def)
  let ?q = "\<lparr>aq_head = 0, aq_tail = - 1, aq_size = 3, aq_elements = Some [Some y, None, None]\<rparr>"
  have "aq_try_push do_push_atomic aq_plain_class (Some y) (aq_three (- 1)) = Some (Inr (True, ?q))"
    by (simp add: aq_three_push i)
  moreover have "\<not> aq_was_full ?q" "aq_was_empty (aq_three (- 1))"
    by (simp_all add: aq_was_full_def aq_was_empty_def aq_was_size_def aq_capacity_def word_le_nat_alt)
  moreover have "aq_try_push do_push_atomic aq_plain_class (Some z) ?q = None"
    by (simp add: aq_try_push_def aq_do_push_def i Let_def do_push_atomic_def do_push_atomic_loop_waits)
  ultimately show ?thesis using run by blast
qed

end
