(* ===== verification/Locks.thy ===== *)
theory Locks
  imports AtomicQueue
begin

text \<open>
  \<^verbatim>\<open>atomic_queue/include/atomic_queue/spinlock.h\<close>, \<^verbatim>\<open>barrier.h\<close> and \<^verbatim>\<open>atomic_queue_mutex.h\<close>: the locks
  and the barrier as threads taking one atomic access at a time, and the queue that is protected by a lock.
\<close>

section \<open>\<open>Spinlock\<close>\<close>

text \<open>The wrapper around the \<open>pthread\<close> spin lock: \<open>rc\<close> is what the library returns, 0 for success.\<close>

definition Spinlock_ctor :: "int \<Rightarrow> unit result" where
  "Spinlock_ctor rc = (if rc \<noteq> 0 then Inl Terminated else Inr ())"

definition Spinlock_lock :: "int \<Rightarrow> unit result" where
  "Spinlock_lock rc = (if rc \<noteq> 0 then Inl Terminated else Inr ())"

definition Spinlock_unlock :: "int \<Rightarrow> unit result" where
  "Spinlock_unlock rc = (if rc \<noteq> 0 then Inl Terminated else Inr ())"

section \<open>\<open>TicketSpinlock\<close>\<close>

record ticket_lock =
  tl_ticket :: u32
  tl_next :: u32

definition tl_init :: ticket_lock where
  "tl_init = \<lparr>tl_ticket = 0, tl_next = 0\<rparr>"

text \<open>\<open>do spin_loop_pause(); while (--position);\<close>\<close>

lemma unat_pred_less:
  assumes "(p :: u32) \<noteq> 0" shows "unat (p - 1) < unat p"
proof -
  have "0 < unat p" using assms by (simp add: unat_gt_0)
  then show ?thesis by (simp add: unat_sub_words)
qed

function tl_pause :: "u32 \<Rightarrow> nat" where
  "tl_pause position = (let p = position - 1 in if p = 0 then 1 else Suc (tl_pause p))"
  by auto
termination
proof (relation "measure (\<lambda>p. unat (p - 1))")
  fix position p :: u32
  assume "p = position - 1" "p \<noteq> 0"
  then have "unat (p - 1) < unat p" by (intro unat_pred_less)
  with \<open>p = position - 1\<close> show "(p, position) \<in> measure (\<lambda>p. unat (p - 1))" by simp
qed simp

text \<open>\<open>lock()\<close> in one thread: the loop ends only if it is this thread's turn.\<close>

partial_function (option) tl_wait :: "u32 \<Rightarrow> ticket_lock \<Rightarrow> unit option" where
  "tl_wait ticket l =
     (let position = ticket - tl_next l
      in if position = 0 then Some () else (let pauses = tl_pause position in tl_wait ticket l))"

definition tl_lock :: "ticket_lock \<Rightarrow> (u32 \<times> ticket_lock) option" where
  "tl_lock l =
     (let ticket = tl_ticket l; l = l\<lparr>tl_ticket := tl_ticket l + 1\<rparr>
      in map_option (\<lambda>_. (ticket, l)) (tl_wait ticket l))"

definition tl_unlock :: "u32 \<Rightarrow> ticket_lock \<Rightarrow> ticket_lock" where
  "tl_unlock ticket l = l\<lparr>tl_next := ticket + 1\<rparr>"

definition tl_unlock_noarg :: "ticket_lock \<Rightarrow> ticket_lock" where
  "tl_unlock_noarg l = tl_unlock (tl_next l + 1) l"

text \<open>\<open>LockGuard\<close>: the constructor locks and keeps the ticket, the destructor unlocks with it.\<close>

definition LockGuard :: "ticket_lock \<Rightarrow> (u32 \<times> ticket_lock) option" where
  "LockGuard l = tl_lock l"

definition LockGuard_dtor :: "u32 \<Rightarrow> ticket_lock \<Rightarrow> ticket_lock" where
  "LockGuard_dtor ticket l = tl_unlock ticket l"

lemma tl_wait_never:
  assumes "ticket \<noteq> tl_next l" shows "tl_wait ticket l = None"
proof (rule ccontr)
  assume "tl_wait ticket l \<noteq> None"
  then obtain r where r: "tl_wait ticket l = Some r" by auto
  have "ticket \<noteq> tl_next l \<longrightarrow> False"
    by (rule tl_wait.raw_induct [where P = "\<lambda>t l r. t \<noteq> tl_next l \<longrightarrow> False", OF _ r]) (auto simp: Let_def split: if_splits)
  with assms show False by simp
qed

lemma tl_wait_now: "tl_wait (tl_next l) l = Some ()"
  by (subst tl_wait.simps) simp

text \<open>
  Scoped use of the ticket lock by one thread, over and over: a lock that is free (both counters equal) is taken
  at once and is free again after the guard is gone, also when the counters wrap.
\<close>

theorem ticket_guard_reusable:
  assumes "tl_ticket l = tl_next l"
  shows "\<exists>t l'. LockGuard l = Some (t, l') \<and> tl_ticket (LockGuard_dtor t l') = tl_next (LockGuard_dtor t l')"
  using assms tl_wait_now [of "l\<lparr>tl_ticket := tl_next l + 1\<rparr>"]
  by (auto simp: LockGuard_def LockGuard_dtor_def tl_lock_def tl_unlock_def Let_def)

theorem ticket_guard_reusable_witness:
  "\<exists>t l'. LockGuard \<lparr>tl_ticket = - 1, tl_next = - 1\<rparr> = Some (t, l') \<and>
     tl_ticket (LockGuard_dtor t l') = tl_next (LockGuard_dtor t l')"
  by (rule ticket_guard_reusable) simp

text \<open>
  C40. The overload \<open>unlock()\<close> without a ticket passes \<open>next_ + 1\<close> where the ticket of the holder is \<open>next_\<close>: it
  advances \<open>next_\<close> by two. After one \<open>lock()\<close> and one \<open>unlock()\<close> the next \<open>lock()\<close> of the only thread never returns.
\<close>

theorem ticket_unlock_noarg_deadlocks:
  "\<exists>t l. tl_lock tl_init = Some (t, l) \<and> tl_next (tl_unlock_noarg l) = 2 \<and> tl_lock (tl_unlock_noarg l) = None"
proof -
  have "tl_lock tl_init = Some (0, \<lparr>tl_ticket = 1, tl_next = 0\<rparr>)"
    using tl_wait_now [of "\<lparr>tl_ticket = 1, tl_next = 0\<rparr>"] by (simp add: tl_lock_def tl_init_def Let_def)
  moreover have "tl_lock \<lparr>tl_ticket = 1, tl_next = 2\<rparr> = None"
    by (simp add: tl_lock_def Let_def tl_wait_never)
  ultimately show ?thesis by (simp add: tl_unlock_noarg_def tl_unlock_def)
qed

section \<open>The ticket lock under contention\<close>

datatype ticket_pc =
    TOut
  | TSpin u32      \<comment> \<open>has a ticket, in the loop of \<open>lock()\<close>\<close>
  | TIn u32        \<comment> \<open>\<open>lock()\<close> has returned\<close>

text \<open>\<open>tk_asked\<close> and \<open>tk_left\<close> record the threads in the order of their tickets and of their releases.\<close>

record ticket_sys =
  tk_lock :: ticket_lock
  tk_pc :: "nat \<Rightarrow> ticket_pc"
  tk_asked :: "nat list"
  tk_left :: "nat list"

definition ticket_init :: "ticket_sys \<Rightarrow> bool" where
  "ticket_init s \<longleftrightarrow> (\<exists>n. s = \<lparr>tk_lock = \<lparr>tl_ticket = n, tl_next = n\<rparr>, tk_pc = (\<lambda>_. TOut), tk_asked = [], tk_left = []\<rparr>)"

text \<open>There are \<open>N\<close> threads, fewer than \<open>2 ^ 32\<close>.\<close>

inductive ticket_step :: "nat \<Rightarrow> ticket_sys \<Rightarrow> ticket_sys \<Rightarrow> bool" for N :: nat where
  tk_ask: "t < N \<Longrightarrow> tk_pc s t = TOut \<Longrightarrow>
    ticket_step N s (s\<lparr>tk_lock := (tk_lock s)\<lparr>tl_ticket := tl_ticket (tk_lock s) + 1\<rparr>,
      tk_pc := (tk_pc s)(t := TSpin (tl_ticket (tk_lock s))), tk_asked := tk_asked s @ [t]\<rparr>)"
| tk_enter: "tk_pc s t = TSpin x \<Longrightarrow> x - tl_next (tk_lock s) = 0 \<Longrightarrow>
    ticket_step N s (s\<lparr>tk_pc := (tk_pc s)(t := TIn x)\<rparr>)"
| tk_leave: "tk_pc s t = TIn x \<Longrightarrow>
    ticket_step N s (s\<lparr>tk_lock := tl_unlock x (tk_lock s), tk_pc := (tk_pc s)(t := TOut), tk_left := tk_left s @ [t]\<rparr>)"

text \<open>\<open>ws\<close> is the queue of threads with a ticket, the one whose turn it is first.\<close>

definition ticket_queue :: "nat \<Rightarrow> ticket_sys \<Rightarrow> nat list \<Rightarrow> bool" where
  "ticket_queue N s ws \<longleftrightarrow> tk_asked s = tk_left s @ ws \<and> distinct ws \<and> set ws \<subseteq> {..<N} \<and>
     tl_ticket (tk_lock s) = tl_next (tk_lock s) + of_nat (length ws) \<and>
     (\<forall>t. t \<notin> set ws \<longrightarrow> tk_pc s t = TOut) \<and>
     (\<forall>i < length ws. tk_pc s (ws ! i) = TSpin (tl_next (tk_lock s) + of_nat i) \<or>
        i = 0 \<and> tk_pc s (ws ! i) = TIn (tl_next (tk_lock s)))"

definition ticket_inv :: "nat \<Rightarrow> ticket_sys \<Rightarrow> bool" where
  "ticket_inv N s \<longleftrightarrow> N < 2 ^ 32 \<longrightarrow> (\<exists>ws. ticket_queue N s ws)"

lemma ticket_queue_length:
  assumes "ticket_queue N s ws" shows "length ws \<le> N"
proof -
  have "length ws = card (set ws)" using assms by (simp add: ticket_queue_def distinct_card)
  also have "\<dots> \<le> card {..<N}" using assms by (intro card_mono) (auto simp: ticket_queue_def)
  finally show ?thesis by simp
qed

lemma of_nat_u32_inj: "i < 2 ^ 32 \<Longrightarrow> j < 2 ^ 32 \<Longrightarrow> (of_nat i :: u32) = of_nat j \<longleftrightarrow> i = j"
proof
  assume ij: "i < 2 ^ 32" "j < 2 ^ 32" and "(of_nat i :: u32) = of_nat j"
  then have "unat (of_nat i :: u32) = unat (of_nat j :: u32)" by simp
  then show "i = j" using ij by (simp only: unat_of_nat) simp
qed simp

text \<open>Only the first of the queue can see its number in \<open>next_\<close>.\<close>

lemma ticket_queue_turn:
  assumes q: "ticket_queue N s ws" "N < 2 ^ 32" and x: "tk_pc s t = TSpin x \<and> x = tl_next (tk_lock s) \<or> tk_pc s t = TIn x"
  shows "\<exists>vs. ws = t # vs \<and> x = tl_next (tk_lock s)"
proof -
  have "t \<in> set ws" using q(1) x by (fastforce simp: ticket_queue_def)
  then obtain i where i: "i < length ws" "ws ! i = t" by (auto simp: in_set_conv_nth)
  have l: "length ws < 2 ^ 32" using ticket_queue_length [OF q(1)] q(2) by linarith
  have "i = 0 \<and> x = tl_next (tk_lock s)"
  proof (cases "tk_pc s t = TIn x")
    case True
    with q(1) i show ?thesis by (auto simp: ticket_queue_def)
  next
    case False
    with x have "tk_pc s t = TSpin (tl_next (tk_lock s))" "x = tl_next (tk_lock s)" by auto
    moreover have "tk_pc s t = TSpin (tl_next (tk_lock s) + of_nat i) \<or> i = 0 \<and> tk_pc s t = TIn (tl_next (tk_lock s))"
      using q(1) i by (auto simp: ticket_queue_def)
    ultimately have "(of_nat i :: u32) = of_nat 0" by auto
    then show ?thesis using of_nat_u32_inj [of i 0] i l \<open>x = _\<close> by simp
  qed
  with i show ?thesis by (cases ws) auto
qed

lemma ticket_inv_ask:
  assumes q: "ticket_queue N s ws" and t: "t < N" "tk_pc s t = TOut"
  shows "ticket_queue N (s\<lparr>tk_lock := (tk_lock s)\<lparr>tl_ticket := tl_ticket (tk_lock s) + 1\<rparr>,
      tk_pc := (tk_pc s)(t := TSpin (tl_ticket (tk_lock s))), tk_asked := tk_asked s @ [t]\<rparr>) (ws @ [t])"
proof -
  have nt: "t \<notin> set ws"
  proof
    assume "t \<in> set ws"
    then obtain i where "i < length ws" "ws ! i = t" by (auto simp: in_set_conv_nth)
    with q t(2) show False by (auto simp: ticket_queue_def)
  qed
  then have "ws ! i \<noteq> t" if "i < length ws" for i using that by (metis nth_mem)
  with q t nt show ?thesis
    unfolding ticket_queue_def by (auto simp: nth_append less_Suc_eq algebra_simps)
qed

lemma ticket_inv_enter:
  assumes "ticket_queue N s (t # vs)" shows "ticket_queue N (s\<lparr>tk_pc := (tk_pc s)(t := TIn (tl_next (tk_lock s)))\<rparr>) (t # vs)"
proof -
  have "t \<notin> set vs" using assms by (simp add: ticket_queue_def)
  then have "(t # vs) ! i = t \<longleftrightarrow> i = 0" if "i < Suc (length vs)" for i
    using that by (auto simp: nth_Cons' dest: nth_mem)
  then show ?thesis using assms unfolding ticket_queue_def by auto
qed

lemma ticket_inv_leave:
  assumes q: "ticket_queue N s (t # vs)"
  shows "ticket_queue N (s\<lparr>tk_lock := tl_unlock (tl_next (tk_lock s)) (tk_lock s), tk_pc := (tk_pc s)(t := TOut), tk_left := tk_left s @ [t]\<rparr>) vs"
proof -
  have nt: "t \<notin> set vs" using q by (simp add: ticket_queue_def)
  have "tk_pc s (vs ! i) = TSpin (tl_next (tk_lock s) + 1 + of_nat i) \<and> vs ! i \<noteq> t" if "i < length vs" for i
  proof -
    have "tk_pc s ((t # vs) ! Suc i) = TSpin (tl_next (tk_lock s) + of_nat (Suc i)) \<or>
        Suc i = 0 \<and> tk_pc s ((t # vs) ! Suc i) = TIn (tl_next (tk_lock s))"
      using q that unfolding ticket_queue_def by (metis Suc_less_eq length_Cons)
    moreover have "vs ! i \<in> set vs" using that by simp
    ultimately show ?thesis using nt by (auto simp: algebra_simps)
  qed
  with q nt show ?thesis unfolding ticket_queue_def by (auto simp: tl_unlock_def algebra_simps)
qed

lemma ticket_inv_step:
  assumes "ticket_step N s s'" "ticket_inv N s" shows "ticket_inv N s'"
  unfolding ticket_inv_def
proof
  assume N: "N < 2 ^ 32"
  with assms(2) obtain ws where q: "ticket_queue N s ws" by (auto simp: ticket_inv_def)
  from assms(1) show "\<exists>ws. ticket_queue N s' ws"
  proof cases
    case (tk_ask t)
    then show ?thesis using ticket_inv_ask [OF q] by blast
  next
    case (tk_enter t x)
    then have "tk_pc s t = TSpin x \<and> x = tl_next (tk_lock s) \<or> tk_pc s t = TIn x" by simp
    from ticket_queue_turn [OF q N this] tk_enter ticket_inv_enter q show ?thesis by blast
  next
    case (tk_leave t x)
    then have "tk_pc s t = TSpin x \<and> x = tl_next (tk_lock s) \<or> tk_pc s t = TIn x" by simp
    from ticket_queue_turn [OF q N this] tk_leave ticket_inv_leave q show ?thesis by blast
  qed
qed

interpretation ticket: inductive_invariant ticket_init "ticket_step N" "ticket_inv N" for N
proof
  show "ticket_inv N s" if "ticket_init s" for s
    using that by (auto simp: ticket_init_def ticket_inv_def ticket_queue_def)
  show "ticket_inv N t" if "ticket_inv N s" "ticket_step N s t" for s t by (rule ticket_inv_step [OF that(2,1)])
qed

text \<open>
  C25. The ticket lock with fewer than \<open>2 ^ 32\<close> threads, in every interleaving and across the wrap of the counters:
  at most one thread is inside; threads leave in the order in which they asked; and when nobody is inside
  and somebody waits, the first that asked can enter.
\<close>

theorem ticket_mutex_fifo:
  assumes "reach ticket_init (ticket_step N) s" "N < 2 ^ 32"
  shows "(\<forall>t u x y. tk_pc s t = TIn x \<and> tk_pc s u = TIn y \<longrightarrow> t = u) \<and>
    (\<exists>ws. tk_asked s = tk_left s @ ws \<and>
       (ws \<noteq> [] \<and> (\<nexists>t x. tk_pc s t = TIn x) \<longrightarrow> tk_pc s (hd ws) = TSpin (tl_next (tk_lock s))))"
proof -
  from ticket.inv_reach [OF assms(1)] assms(2) obtain ws where q: "ticket_queue N s ws" by (auto simp: ticket_inv_def)
  have "t = u" if "tk_pc s t = TIn x" "tk_pc s u = TIn y" for t u x y
    using ticket_queue_turn [OF q assms(2), of t x] ticket_queue_turn [OF q assms(2), of u y] that by auto
  moreover have "tk_pc s (hd ws) = TSpin (tl_next (tk_lock s))" if "ws \<noteq> []" "\<nexists>t x. tk_pc s t = TIn x"
    using q that unfolding ticket_queue_def by (cases ws) force+
  ultimately show ?thesis using q unfolding ticket_queue_def by blast
qed

definition ticket_demo :: ticket_sys where
  "ticket_demo = \<lparr>tk_lock = \<lparr>tl_ticket = 0, tl_next = - 1\<rparr>, tk_pc = (\<lambda>_. TOut)(3 := TSpin (- 1)), tk_asked = [3], tk_left = []\<rparr>"

lemma ticket_demo_reach: "reach ticket_init (ticket_step 5) ticket_demo"
proof -
  let ?s = "\<lparr>tk_lock = \<lparr>tl_ticket = - 1, tl_next = - 1\<rparr>, tk_pc = (\<lambda>_. TOut), tk_asked = [], tk_left = []\<rparr>"
  have "reach ticket_init (ticket_step 5) ?s" by (rule reach_init) (auto simp: ticket_init_def)
  moreover have "ticket_step 5 ?s ticket_demo" using tk_ask [of 3 5 ?s] by (simp add: ticket_demo_def)
  ultimately show ?thesis by (rule reach_step)
qed

theorem ticket_mutex_fifo_witness:
  "\<exists>ws. tk_asked ticket_demo = tk_left ticket_demo @ ws \<and> (\<forall>t u x y. tk_pc ticket_demo t = TIn x \<and> tk_pc ticket_demo u = TIn y \<longrightarrow> t = u)"
  using ticket_mutex_fifo [OF ticket_demo_reach] by auto

section \<open>\<open>UnfairSpinlock\<close>\<close>

datatype unfair_pc =
    UOut
  | ULoad      \<comment> \<open>before \<open>lock_.load\<close>\<close>
  | UXchg      \<comment> \<open>the load gave 0; before \<open>lock_.exchange(1)\<close>\<close>
  | UIn

record unfair_sys =
  us_lock :: u32
  us_pc :: "nat \<Rightarrow> unfair_pc"

definition unfair_init :: "unfair_sys \<Rightarrow> bool" where
  "unfair_init s \<longleftrightarrow> s = \<lparr>us_lock = 0, us_pc = (\<lambda>_. UOut)\<rparr>"

inductive unfair_step :: "unfair_sys \<Rightarrow> unfair_sys \<Rightarrow> bool" where
  u_call: "us_pc s t = UOut \<Longrightarrow> unfair_step s (s\<lparr>us_pc := (us_pc s)(t := ULoad)\<rparr>)"
| u_load: "us_pc s t = ULoad \<Longrightarrow> unfair_step s (s\<lparr>us_pc := (us_pc s)(t := if us_lock s = 0 then UXchg else ULoad)\<rparr>)"
| u_xchg: "us_pc s t = UXchg \<Longrightarrow>
    unfair_step s (s\<lparr>us_lock := 1, us_pc := (us_pc s)(t := if us_lock s = 0 then UIn else ULoad)\<rparr>)"
| u_unlock: "us_pc s t = UIn \<Longrightarrow> unfair_step s (s\<lparr>us_lock := 0, us_pc := (us_pc s)(t := UOut)\<rparr>)"

definition unfair_inv :: "unfair_sys \<Rightarrow> bool" where
  "unfair_inv s \<longleftrightarrow> (\<forall>t u. us_pc s t = UIn \<and> us_pc s u = UIn \<longrightarrow> t = u) \<and> (us_lock s = 0 \<longleftrightarrow> (\<nexists>t. us_pc s t = UIn))"

lemma unfair_inv_step:
  assumes "unfair_step s s'" "unfair_inv s" shows "unfair_inv s'"
  using assms(1)
proof cases
  case (u_call t)
  then show ?thesis using assms(2) unfolding unfair_inv_def by simp (metis unfair_pc.distinct)
next
  case (u_load t)
  then show ?thesis using assms(2) unfolding unfair_inv_def by simp (metis unfair_pc.distinct)
next
  case (u_xchg t)
  then show ?thesis using assms(2) unfolding unfair_inv_def by (simp split: if_splits) (metis unfair_pc.distinct)
next
  case (u_unlock t)
  then show ?thesis using assms(2) unfolding unfair_inv_def by simp (metis unfair_pc.distinct)
qed

interpretation unfair: inductive_invariant unfair_init unfair_step unfair_inv
proof
  show "unfair_inv s" if "unfair_init s" for s using that by (simp add: unfair_init_def unfair_inv_def)
  show "unfair_inv t" if "unfair_inv s" "unfair_step s t" for s t by (rule unfair_inv_step [OF that(2,1)])
qed

section \<open>\<open>Barrier\<close>\<close>

datatype barrier_pc =
    BBefore     \<comment> \<open>has not called \<open>wait\<close>\<close>
  | BWaiting    \<comment> \<open>has counted itself, waits for 0\<close>
  | BAfter      \<comment> \<open>\<open>wait\<close> has returned\<close>

record barrier_sys =
  bs_counter :: u32
  bs_pc :: "nat \<Rightarrow> barrier_pc"
  bs_released :: bool    \<comment> \<open>\<open>release\<close> has returned\<close>

definition barrier_init :: "barrier_sys \<Rightarrow> bool" where
  "barrier_init s \<longleftrightarrow> s = \<lparr>bs_counter = 0, bs_pc = (\<lambda>_. BBefore), bs_released = False\<rparr>"

text \<open>Threads \<open>0, \<dots>, N - 1\<close> call \<open>wait\<close> once, one thread calls \<open>release(N)\<close>.\<close>

inductive barrier_step :: "nat \<Rightarrow> barrier_sys \<Rightarrow> barrier_sys \<Rightarrow> bool" for N :: nat where
  b_arrive: "t < N \<Longrightarrow> bs_pc s t = BBefore \<Longrightarrow>
    barrier_step N s (s\<lparr>bs_counter := bs_counter s + 1, bs_pc := (bs_pc s)(t := BWaiting)\<rparr>)"
| b_pass: "bs_pc s t = BWaiting \<Longrightarrow> bs_counter s = 0 \<Longrightarrow> barrier_step N s (s\<lparr>bs_pc := (bs_pc s)(t := BAfter)\<rparr>)"
| b_release: "\<not> bs_released s \<Longrightarrow> bs_counter s = of_nat N \<Longrightarrow> barrier_step N s (s\<lparr>bs_counter := 0, bs_released := True\<rparr>)"

definition arrived :: "nat \<Rightarrow> barrier_sys \<Rightarrow> nat set" where
  "arrived N s = {t. t < N \<and> bs_pc s t \<noteq> BBefore}"

definition barrier_inv :: "nat \<Rightarrow> barrier_sys \<Rightarrow> bool" where
  "barrier_inv N s \<longleftrightarrow> 0 < N \<and> N < 2 ^ 32 \<longrightarrow>
     (if bs_released s then arrived N s = {..<N} \<and> bs_counter s = 0
      else bs_counter s = of_nat (card (arrived N s)) \<and> (\<forall>t. bs_pc s t \<noteq> BAfter)) \<and>
     (\<forall>t. bs_pc s t \<noteq> BBefore \<longrightarrow> t < N)"

lemma arrived_le: "card (arrived N s) \<le> N"
  using card_mono [of "{..<N}" "arrived N s"] by (auto simp: arrived_def)

lemma arrived_all: "card (arrived N s) = N \<Longrightarrow> arrived N s = {..<N}"
  by (rule card_subset_eq) (auto simp: arrived_def)

lemma barrier_inv_step:
  assumes "barrier_step N s s'" "barrier_inv N s" shows "barrier_inv N s'"
  unfolding barrier_inv_def
proof
  assume N: "0 < N \<and> N < 2 ^ 32"
  with assms(2) have i: "if bs_released s then arrived N s = {..<N} \<and> bs_counter s = 0
      else bs_counter s = of_nat (card (arrived N s)) \<and> (\<forall>t. bs_pc s t \<noteq> BAfter)"
    and lt: "\<And>t. bs_pc s t \<noteq> BBefore \<Longrightarrow> t < N" by (auto simp: barrier_inv_def)
  from assms(1) show "(if bs_released s' then arrived N s' = {..<N} \<and> bs_counter s' = 0
      else bs_counter s' = of_nat (card (arrived N s')) \<and> (\<forall>t. bs_pc s' t \<noteq> BAfter)) \<and> (\<forall>t. bs_pc s' t \<noteq> BBefore \<longrightarrow> t < N)"
  proof cases
    case (b_arrive t)
    have a: "arrived N s' = insert t (arrived N s)" "t \<notin> arrived N s" using b_arrive by (auto simp: arrived_def)
    have "finite (arrived N s)" by (simp add: arrived_def)
    then have "card (arrived N s') = Suc (card (arrived N s))" using a by simp
    moreover have "\<not> bs_released s" using i a b_arrive by auto
    ultimately show ?thesis using i lt b_arrive by (auto simp: add.commute)
  next
    case (b_pass t)
    have ar: "arrived N s' = arrived N s" using b_pass by (auto simp: arrived_def)
    have "bs_released s"
    proof (rule ccontr)
      assume "\<not> bs_released s"
      then have "(of_nat (card (arrived N s)) :: u32) = of_nat 0" using i b_pass by simp
      then have "card (arrived N s) = 0" using of_nat_u32_inj [of "card (arrived N s)" 0] arrived_le [of N s] N by simp
      then have "t \<notin> arrived N s" by (simp add: arrived_def)
      then show False using lt [of t] b_pass by (simp add: arrived_def)
    qed
    then show ?thesis using i lt [of t] lt ar b_pass by auto
  next
    case b_release
    then have "(of_nat (card (arrived N s)) :: u32) = of_nat N" using i by simp
    then have "card (arrived N s) = N" using of_nat_u32_inj [of "card (arrived N s)" N] arrived_le [of N s] N by simp
    then have "arrived N s = {..<N}" by (rule arrived_all)
    then show ?thesis using lt b_release by (auto simp: arrived_def)
  qed
qed

interpretation barrier: inductive_invariant barrier_init "barrier_step N" "barrier_inv N" for N
proof
  show "barrier_inv N s" if "barrier_init s" for s using that by (simp add: barrier_init_def barrier_inv_def arrived_def)
  show "barrier_inv N t" if "barrier_inv N s" "barrier_step N s t" for s t by (rule barrier_inv_step [OF that(2,1)])
qed

text \<open>
  \<open>UnfairSpinlock\<close> and \<open>Barrier\<close>, in every interleaving: at most one thread is inside the lock, and its word is 0
  exactly when nobody is; no thread passes the barrier before all \<open>N\<close> have arrived, and once \<open>release\<close> has
  returned every thread that waits can pass.
\<close>

theorem unfair_lock_and_barrier:
  assumes "reach unfair_init unfair_step u" "reach barrier_init (barrier_step N) b" "0 < N" "N < 2 ^ 32"
  shows "(\<forall>s t. us_pc u s = UIn \<and> us_pc u t = UIn \<longrightarrow> s = t) \<and> (us_lock u = 0 \<longleftrightarrow> (\<nexists>t. us_pc u t = UIn)) \<and>
    ((\<exists>t. bs_pc b t = BAfter) \<longrightarrow> (\<forall>t < N. bs_pc b t \<noteq> BBefore)) \<and>
    (bs_released b \<longrightarrow> (\<forall>t. bs_pc b t = BWaiting \<longrightarrow> (\<exists>b'. barrier_step N b b' \<and> bs_pc b' t = BAfter)))"
proof -
  from unfair.inv_reach [OF assms(1)] have u: "(\<forall>s t. us_pc u s = UIn \<and> us_pc u t = UIn \<longrightarrow> s = t)"
    "us_lock u = 0 \<longleftrightarrow> (\<nexists>t. us_pc u t = UIn)" unfolding unfair_inv_def by blast+
  from barrier.inv_reach [OF assms(2)] assms(3,4) have b: "if bs_released b then arrived N b = {..<N} \<and> bs_counter b = 0
      else bs_counter b = of_nat (card (arrived N b)) \<and> (\<forall>t. bs_pc b t \<noteq> BAfter)" by (simp add: barrier_inv_def)
  have p: "\<forall>t < N. bs_pc b t \<noteq> BBefore" if "bs_pc b t = BAfter" for t
    using b that by (auto simp: arrived_def split: if_splits)
  have "\<exists>b'. barrier_step N b b' \<and> bs_pc b' t = BAfter" if "bs_released b" "bs_pc b t = BWaiting" for t
    using b_pass [of b t N] b that by auto
  with u p show ?thesis by blast
qed

theorem unfair_lock_and_barrier_witness:
  "us_lock \<lparr>us_lock = 0, us_pc = (\<lambda>_. UOut)\<rparr> = 0 \<and> \<not> (\<exists>t. bs_pc \<lparr>bs_counter = 0, bs_pc = (\<lambda>_. BBefore), bs_released = False\<rparr> t = BAfter)"
  using unfair_lock_and_barrier [of "\<lparr>us_lock = 0, us_pc = (\<lambda>_. UOut)\<rparr>" 2 "\<lparr>bs_counter = 0, bs_pc = (\<lambda>_. BBefore), bs_released = False\<rparr>"]
    reach_init [of unfair_init _ unfair_step] reach_init [of barrier_init _ "barrier_step 2"]
  by (simp add: unfair_init_def barrier_init_def)

section \<open>\<open>AtomicQueueMutexT\<close>\<close>

text \<open>
  The same ring and the same tickets, not atomic but used under a lock; its state is that of an \<open>AtomicQueue\<close> whose
  slots hold plain values (\<open>None\<close> for a default-constructed or moved-from one).
\<close>

definition amq_try_push :: "aq_class \<Rightarrow> 'a option \<Rightarrow> 'a option atomic_queue \<Rightarrow> (bool \<times> 'a option atomic_queue) result" where
  "amq_try_push k element q =
     (if aq_head q - aq_tail q < aq_size q then
        (let i = aq_index k (aq_size q) (aq_head q); es = the (aq_elements q)
         in if length es \<le> i then Inl (UndefinedBehaviour ''q_[index]'')
            else Inr (True, q\<lparr>aq_head := aq_head q + 1, aq_elements := Some (es[i := element])\<rparr>))
      else Inr (False, q))"

definition amq_try_pop :: "aq_class \<Rightarrow> 'a option atomic_queue \<Rightarrow> ('a option option \<times> 'a option atomic_queue) result" where
  "amq_try_pop k q =
     (if aq_head q \<noteq> aq_tail q then
        (let i = aq_index k (aq_size q) (aq_tail q); es = the (aq_elements q)
         in if length es \<le> i then Inl (UndefinedBehaviour ''q_[index]'')
            else Inr (Some (es ! i), q\<lparr>aq_tail := aq_tail q + 1, aq_elements := Some (es[i := None])\<rparr>))
      else Inr (None, q))"

definition amq_was_empty :: "'a option atomic_queue \<Rightarrow> bool" where
  "amq_was_empty q \<longleftrightarrow> sint (aq_head q - aq_tail q) \<le> 0"

definition amq_was_full :: "'a option atomic_queue \<Rightarrow> bool" where
  "amq_was_full q \<longleftrightarrow> sint (aq_head q - aq_tail q) \<ge> sint (aq_size q)"

lemma aq_count_zero_iff: "aq_count q = 0 \<longleftrightarrow> aq_head q = aq_tail q"
  by (simp add: aq_count_def unat_eq_0)

lemma amq_push_eq:
  assumes inv: "aq_inv (\<lambda>_. True) (\<lambda>c. c) k q"
  shows "aq_try_push do_push_atomic k (Some x) q = Some (amq_try_push k (Some x) q)"
proof (cases "aq_room q")
  case False
  then show ?thesis using aq_atomic.try_push_full [OF inv False]
    by (simp add: amq_try_push_def aq_room_def aq_count_def word_less_nat_alt)
next
  case True
  from inv obtain es where sh: "aq_shape k (aq_size q)" and es: "aq_elements q = Some es" "length es = unat (aq_size q)"
    and c: "\<And>i. i < unat (aq_size q) \<Longrightarrow> True \<and> (aq_cell_at k q i \<noteq> None \<longleftrightarrow> i < aq_count q)" by (rule aq_invE) blast
  have d: "aq_count q < unat (aq_size q)" using True by (simp add: aq_room_def)
  have "es ! aq_index k (aq_size q) (aq_head q) = None" using c [OF d] es by (simp add: aq_cell_at_def aq_head_eq)
  moreover have "do_push_atomic s m (Some x) None = Some (Inr (Some x))" for s m
    by (simp add: do_push_atomic_def do_push_atomic_loop.simps)
  moreover have "aq_head q - aq_tail q < aq_size q" using d by (simp add: aq_count_def word_less_nat_alt)
  ultimately show ?thesis
    using True es aq_index_less [OF sh, of "aq_head q"]
    by (simp add: aq_atomic.try_push_eq [OF inv] aq_push_def aq_do_push_def amq_try_push_def Let_def)
qed

lemma amq_pop_eq:
  assumes inv: "aq_inv (\<lambda>_. True) (\<lambda>c. c) k q"
  shows "aq_try_pop do_pop_atomic k q = Some (amq_try_pop k q)"
proof (cases "aq_count q = 0")
  case True
  then have "aq_head q = aq_tail q" by (simp add: aq_count_zero_iff)
  with True show ?thesis by (simp add: aq_atomic.try_pop_eq [OF inv] amq_try_pop_def)
next
  case False
  from inv obtain es where sh: "aq_shape k (aq_size q)" and es: "aq_elements q = Some es" "length es = unat (aq_size q)"
    and c: "\<And>i. i < unat (aq_size q) \<Longrightarrow> True \<and> (aq_cell_at k q i \<noteq> None \<longleftrightarrow> i < aq_count q)" by (rule aq_invE) blast
  have "es ! aq_index k (aq_size q) (aq_tail q) \<noteq> None" using c [of 0] es False aq_shape_size [OF sh] by (simp add: aq_cell_at_def)
  then have "do_pop_atomic s m (es ! aq_index k (aq_size q) (aq_tail q)) = Some (Inr (es ! aq_index k (aq_size q) (aq_tail q), None))" for s m
    by (subst do_pop_atomic.simps) simp
  then show ?thesis
    using False es aq_index_less [OF sh, of "aq_tail q"]
    by (simp add: aq_atomic.try_pop_eq [OF inv] aq_pop_def aq_do_pop_def amq_try_pop_def aq_count_zero_iff Let_def)
qed

text \<open>
  Under its lock the mutex queue gives the same answers and the same states as the lock-free \<open>AtomicQueue\<close> does in
  one thread: \<open>try_push\<close>, \<open>try_pop\<close>, \<open>was_empty\<close> and \<open>was_full\<close> agree on every well-formed queue.
\<close>

theorem mutex_queue_equivalent:
  assumes "aq_inv (\<lambda>_. True) (\<lambda>c. c) k q"
  shows "aq_try_push do_push_atomic k (Some x) q = Some (amq_try_push k (Some x) q) \<and>
    aq_try_pop do_pop_atomic k q = Some (amq_try_pop k q) \<and>
    amq_was_empty q = aq_was_empty q \<and> amq_was_full q = aq_was_full q"
proof -
  from assms have s: "sint (aq_head q - aq_tail q) = int (aq_count q)" "sint (aq_size q) = int (unat (aq_size q))"
    using aq_sint_count [of k q] by (simp_all add: aq_inv_def)
  have "aq_was_empty q \<longleftrightarrow> aq_count q = 0" by (metis aq_was_size_count(2) [OF assms] length_aq_contents length_0_conv)
  moreover have "aq_was_full q \<longleftrightarrow> \<not> aq_room q" by (rule aq_was_size_count(3) [OF assms])
  ultimately show ?thesis
    using amq_push_eq [OF assms] amq_pop_eq [OF assms]
    by (simp only: amq_was_empty_def amq_was_full_def s aq_room_def zle_int not_less) simp
qed

theorem mutex_queue_equivalent_witness:
  "aq_try_push do_push_atomic aq_example_class (Some 7) \<lparr>aq_head = - 1, aq_tail = - 1, aq_size = 4, aq_elements = Some (replicate 4 None)\<rparr> =
     Some (amq_try_push aq_example_class (Some 7) \<lparr>aq_head = - 1, aq_tail = - 1, aq_size = 4, aq_elements = Some (replicate 4 (None :: nat option))\<rparr>)"
proof -
  have sh: "aq_shape aq_example_class 4" by (simp add: aq_shape_def aq_example_class_def) (rule exI [of _ 2], simp)
  let ?q = "\<lparr>aq_head = - 1, aq_tail = - 1, aq_size = 4, aq_elements = Some (replicate 4 (None :: nat option))\<rparr>"
  have "aq_inv (\<lambda>_. True) (\<lambda>c. c) aq_example_class ?q"
    using sh aq_index_less [OF sh] by (auto simp: aq_inv_def aq_count_def aq_cell_at_def)
  from mutex_queue_equivalent [OF this, of 7] show ?thesis by blast
qed

end
