(* ===== verification/ReaderWriterQueue.thy ===== *)
theory ReaderWriterQueue
  imports Queue_Interface Index_Bits
begin

text \<open>
  \<^verbatim>\<open>readerwriterqueue/readerwriterqueue.h\<close>: the unbounded single-producer single-consumer queue of
  \<^verbatim>\<open>app5.cpp\<close>, a circular list of ring buffers (blocks). Blocks live in a heap; the address of a
  block is the number of blocks allocated before it, and whether \<open>malloc\<close> serves the request is an
  input. A block's memory is a list of slots (\<open>None\<close> is raw storage), as many as the allocated bytes
  have room for. An access to a missing block, outside the slots, or to raw storage is an error value.
\<close>

section \<open>State\<close>

record 'a rw_block =
  bk_front :: size_t
  bk_localTail :: size_t
  bk_tail :: size_t
  bk_localFront :: size_t
  bk_next :: "nat option"
  bk_data :: "'a option list"
  bk_sizeMask :: size_t

record 'a rw_queue =
  rw_heap :: "nat \<rightharpoonup> 'a rw_block"
  rw_allocated :: nat                \<comment> \<open>blocks allocated so far, the address of the next one\<close>
  rw_frontBlock :: nat
  rw_tailBlock :: nat
  rw_largestBlockSize :: size_t
  rw_enqueuing :: bool
  rw_dequeuing :: bool

text \<open>The template arguments and the layout of the types, and the answers of \<open>malloc\<close>.\<close>

record rw_class =
  rwc_MAX_BLOCK_SIZE :: size_t
  rwc_sizeofBlock :: size_t
  rwc_alignofBlock :: size_t
  rwc_sizeofT :: size_t
  rwc_alignofT :: size_t
  rwc_malloc :: "nat \<Rightarrow> size_t \<Rightarrow> bool"    \<comment> \<open>does allocation number \<open>n\<close> of so many bytes succeed\<close>

text \<open>The constructor of \<open>Block\<close>; \<open>slots\<close> is the storage behind \<open>data\<close>.\<close>

definition rw_Block :: "size_t \<Rightarrow> nat \<Rightarrow> 'a rw_block" where
  "rw_Block sz slots =
     \<lparr>bk_front = 0, bk_localTail = 0, bk_tail = 0, bk_localFront = 0, bk_next = None,
      bk_data = replicate slots None, bk_sizeMask = sz - 1\<rparr>"

text \<open>
  \<open>make_block\<close>: the bytes are computed in \<open>size_t\<close>; what remains of them after the block itself and the
  room for alignment are the slots.
\<close>

definition rw_block_bytes :: "rw_class \<Rightarrow> size_t \<Rightarrow> size_t" where
  "rw_block_bytes k capacity =
     (let sz = rwc_sizeofBlock k + rwc_alignofBlock k - 1
      in sz + (rwc_sizeofT k * capacity + rwc_alignofT k - 1))"

definition rw_make_block :: "rw_class \<Rightarrow> nat \<Rightarrow> size_t \<Rightarrow> 'a rw_block option" where
  "rw_make_block k n capacity =
     (let sz = rw_block_bytes k capacity
      in if rwc_malloc k n sz
         then Some (rw_Block capacity
                ((unat sz - unat (rwc_sizeofBlock k + rwc_alignofBlock k - 1) - (unat (rwc_alignofT k) - 1))
                   div unat (rwc_sizeofT k)))
         else None)"

section \<open>Operations\<close>

text \<open>Following a pointer to a block.\<close>

definition rw_deref :: "'a rw_queue \<Rightarrow> nat option \<Rightarrow> (nat \<Rightarrow> 'a rw_block \<Rightarrow> 'b result) \<Rightarrow> 'b result" where
  "rw_deref q p f =
     (case p of
        None \<Rightarrow> Inl (UndefinedBehaviour ''nullptr'')
      | Some a \<Rightarrow> (case rw_heap q a of None \<Rightarrow> Inl (UndefinedBehaviour ''block'') | Some b \<Rightarrow> f a b))"

definition rw_put :: "nat \<Rightarrow> 'a rw_block \<Rightarrow> 'a rw_queue \<Rightarrow> 'a rw_queue" where
  "rw_put a b q = q\<lparr>rw_heap := (rw_heap q)(a \<mapsto> b)\<rparr>"

text \<open>The loop of the constructor that builds several blocks; \<open>first\<close> and \<open>prev\<close> are \<open>firstBlock\<close> and \<open>lastBlock\<close>.\<close>

fun rw_ctor_loop :: "rw_class \<Rightarrow> nat \<Rightarrow> nat option \<Rightarrow> nat option \<Rightarrow> 'a rw_queue
    \<Rightarrow> (nat option \<times> 'a rw_queue) result" where
  "rw_ctor_loop k 0 first prev q = Inr (first, q)"
| "rw_ctor_loop k (Suc i) first prev q =
     (case rw_make_block k (rw_allocated q) (rw_largestBlockSize q) of
        None \<Rightarrow> Inl BadAlloc
      | Some block \<Rightarrow>
          (let a = rw_allocated q; q = rw_put a block (q\<lparr>rw_allocated := Suc a\<rparr>)
           in case first of
                None \<Rightarrow> rw_ctor_loop k i (Some a) (Some a) (rw_put a (block\<lparr>bk_next := Some a\<rparr>) q)
              | Some f \<Rightarrow>
                  rw_deref q prev (\<lambda>l lastBlock.
                    let q = rw_put l (lastBlock\<lparr>bk_next := Some a\<rparr>) q
                    in rw_ctor_loop k i first (Some a) (rw_put a (block\<lparr>bk_next := Some f\<rparr>) q))))"

definition rw_fresh :: "size_t \<Rightarrow> 'a rw_queue" where
  "rw_fresh largest = \<lparr>rw_heap = Map.empty, rw_allocated = 0, rw_frontBlock = 0, rw_tailBlock = 0,
     rw_largestBlockSize = largest, rw_enqueuing = False, rw_dequeuing = False\<rparr>"

definition rw_ctor :: "rw_class \<Rightarrow> size_t \<Rightarrow> 'a rw_queue result" where
  "rw_ctor k sz =
     (let M = rwc_MAX_BLOCK_SIZE k; largest = ceilToPow2 (sz + 1)
      in if M \<noteq> ceilToPow2 M then Inl (AssertFailed ''MAX_BLOCK_SIZE must be a power of 2'')
         else if \<not> M \<ge> 2 then Inl (AssertFailed ''MAX_BLOCK_SIZE must be at least 2'')
         else let count = (if largest > M * 2 then (sz + M * 2 - 3) div (M - 1) else 1);
                  largest = (if largest > M * 2 then M else largest)
              in case rw_ctor_loop k (unat count) None None (rw_fresh largest) of
                   Inl e \<Rightarrow> Inl e
                 | Inr (None, q) \<Rightarrow> Inl (UndefinedBehaviour ''frontBlock is null'')
                 | Inr (Some f, q) \<Rightarrow> Inr (q\<lparr>rw_frontBlock := f, rw_tailBlock := f\<rparr>))"

text \<open>Placement new at \<open>data + i * sizeof(T)\<close>; and reading and destroying the element there.\<close>

definition bk_construct :: "'a \<Rightarrow> size_t \<Rightarrow> 'a rw_block \<Rightarrow> 'a rw_block result" where
  "bk_construct x i b =
     (if unat i < length (bk_data b) then Inr (b\<lparr>bk_data := (bk_data b)[unat i := Some x]\<rparr>)
      else Inl (UndefinedBehaviour ''data''))"

definition bk_element :: "size_t \<Rightarrow> 'a rw_block \<Rightarrow> 'a result" where
  "bk_element i b =
     (if unat i < length (bk_data b)
      then (case bk_data b ! unat i of Some x \<Rightarrow> Inr x | None \<Rightarrow> Inl (UndefinedBehaviour ''raw storage''))
      else Inl (UndefinedBehaviour ''data''))"

definition bk_destroy :: "size_t \<Rightarrow> 'a rw_block \<Rightarrow> 'a rw_block" where
  "bk_destroy i b = b\<lparr>bk_data := (bk_data b)[unat i := None]\<rparr>"

text \<open>The debug guard against two threads in one role: an assertion on entry, reset on return.\<close>

definition enqueue_guard :: "'a rw_queue \<Rightarrow> ('a rw_queue \<Rightarrow> ('b \<times> 'a rw_queue) result) \<Rightarrow> ('b \<times> 'a rw_queue) result" where
  "enqueue_guard q f =
     (if rw_enqueuing q then Inl (AssertFailed ''Concurrent (or re-entrant) enqueue'')
      else map_sum id (\<lambda>(r, q). (r, q\<lparr>rw_enqueuing := False\<rparr>)) (f (q\<lparr>rw_enqueuing := True\<rparr>)))"

definition dequeue_guard :: "'a rw_queue \<Rightarrow> ('a rw_queue \<Rightarrow> ('b \<times> 'a rw_queue) result) \<Rightarrow> ('b \<times> 'a rw_queue) result" where
  "dequeue_guard q f =
     (if rw_dequeuing q then Inl (AssertFailed ''Concurrent (or re-entrant) dequeue'')
      else map_sum id (\<lambda>(r, q). (r, q\<lparr>rw_dequeuing := False\<rparr>)) (f (q\<lparr>rw_dequeuing := True\<rparr>)))"

subsection \<open>The producer\<close>

text \<open>The three places where an element can go: the tail block, the free block ahead, a new block.\<close>

definition enqueue_here :: "'a \<Rightarrow> nat \<Rightarrow> 'a rw_block \<Rightarrow> 'a rw_queue \<Rightarrow> (bool \<times> 'a rw_queue) result" where
  "enqueue_here x a b q =
     (let blockTail = bk_tail b; nextBlockTail = (blockTail + 1) AND bk_sizeMask b
      in case bk_construct x blockTail b of
           Inl e \<Rightarrow> Inl e
         | Inr b \<Rightarrow> Inr (True, rw_put a (b\<lparr>bk_tail := nextBlockTail\<rparr>) q))"

definition enqueue_next :: "'a \<Rightarrow> nat \<Rightarrow> 'a rw_block \<Rightarrow> 'a rw_queue \<Rightarrow> (bool \<times> 'a rw_queue) result" where
  "enqueue_next x a b q =
     (let b = b\<lparr>bk_localFront := bk_front b\<rparr>; nextBlockFront = bk_localFront b; nextBlockTail = bk_tail b
      in if nextBlockFront \<noteq> nextBlockTail then Inl (AssertFailed ''nextBlockFront == nextBlockTail'')
         else case bk_construct x nextBlockTail b of
                Inl e \<Rightarrow> Inl e
              | Inr b \<Rightarrow>
                  Inr (True, (rw_put a (b\<lparr>bk_tail := (nextBlockTail + 1) AND bk_sizeMask b\<rparr>) q)\<lparr>rw_tailBlock := a\<rparr>))"

definition enqueue_new :: "rw_class \<Rightarrow> 'a \<Rightarrow> nat \<Rightarrow> 'a rw_block \<Rightarrow> 'a rw_queue \<Rightarrow> (bool \<times> 'a rw_queue) result" where
  "enqueue_new k x t tb q =
     (let newBlockSize = (if rw_largestBlockSize q \<ge> rwc_MAX_BLOCK_SIZE k then rw_largestBlockSize q
                          else rw_largestBlockSize q * 2);
          a = rw_allocated q
      in case rw_make_block k a newBlockSize of
           None \<Rightarrow> Inr (False, q)
         | Some newBlock \<Rightarrow>
             (let q = q\<lparr>rw_allocated := Suc a, rw_largestBlockSize := newBlockSize\<rparr>
              in case bk_construct x 0 newBlock of
                   Inl e \<Rightarrow> Inl e
                 | Inr newBlock \<Rightarrow>
                     if bk_front newBlock \<noteq> 0 then Inl (AssertFailed ''newBlock->front == 0'')
                     else Inr (True,
                       (rw_put t (tb\<lparr>bk_next := Some a\<rparr>)
                         (rw_put a (newBlock\<lparr>bk_tail := 1, bk_localTail := 1, bk_next := bk_next tb\<rparr>) q))
                       \<lparr>rw_tailBlock := a\<rparr>)))"

definition rw_enqueue_body :: "rw_class \<Rightarrow> bool \<Rightarrow> 'a \<Rightarrow> 'a rw_queue \<Rightarrow> (bool \<times> 'a rw_queue) result" where
  "rw_enqueue_body k canAlloc x q =
     rw_deref q (Some (rw_tailBlock q)) (\<lambda>t tb.
       let nextBlockTail = (bk_tail tb + 1) AND bk_sizeMask tb
       in if nextBlockTail \<noteq> bk_localFront tb then enqueue_here x t tb q
          else let tb = tb\<lparr>bk_localFront := bk_front tb\<rparr>; q = rw_put t tb q
               in if nextBlockTail \<noteq> bk_localFront tb then enqueue_here x t tb q
                  else if bk_next tb \<noteq> Some (rw_frontBlock q)
                       then rw_deref q (bk_next tb) (\<lambda>n nb. enqueue_next x n nb q)
                  else if canAlloc then enqueue_new k x t tb q
                  else Inr (False, q))"

definition rw_inner_enqueue :: "rw_class \<Rightarrow> bool \<Rightarrow> 'a \<Rightarrow> 'a rw_queue \<Rightarrow> (bool \<times> 'a rw_queue) result" where
  "rw_inner_enqueue k canAlloc x q = enqueue_guard q (rw_enqueue_body k canAlloc x)"

definition rw_try_enqueue :: "rw_class \<Rightarrow> 'a \<Rightarrow> 'a rw_queue \<Rightarrow> (bool \<times> 'a rw_queue) result" where
  "rw_try_enqueue k x q = rw_inner_enqueue k False x q"

definition rw_enqueue :: "rw_class \<Rightarrow> 'a \<Rightarrow> 'a rw_queue \<Rightarrow> (bool \<times> 'a rw_queue) result" where
  "rw_enqueue k x q = rw_inner_enqueue k True x q"

subsection \<open>The consumer\<close>

text \<open>
  \<open>try_dequeue\<close>, \<open>peek\<close> and \<open>pop\<close> begin with the same search for the oldest element: in the front block (with
  the cached tail, then with the tail itself, and once more when the tail block is another one), or in the
  block after it. The caches are refreshed on the way.
\<close>

datatype rw_place = FrontBlock | NextBlock nat | NoElement

definition rw_find :: "'a rw_queue \<Rightarrow> (rw_place \<times> 'a rw_queue) result" where
  "rw_find q =
     rw_deref q (Some (rw_frontBlock q)) (\<lambda>f fb.
       if bk_front fb \<noteq> bk_localTail fb then Inr (FrontBlock, q)
       else let fb = fb\<lparr>bk_localTail := bk_tail fb\<rparr>; q = rw_put f fb q
            in if bk_front fb \<noteq> bk_localTail fb then Inr (FrontBlock, q)
               else if f \<noteq> rw_tailBlock q
                    then rw_deref q (Some (rw_frontBlock q)) (\<lambda>f fb.
                           let fb = fb\<lparr>bk_localTail := bk_tail fb\<rparr>; q = rw_put f fb q
                           in if bk_front fb \<noteq> bk_localTail fb then Inr (FrontBlock, q)
                              else rw_deref q (bk_next fb) (\<lambda>n nb. Inr (NextBlock n, q)))
               else Inr (NoElement, q))"

text \<open>The label \<open>non_empty_front_block\<close>: take the element at \<open>front\<close> of the front block.\<close>

definition dequeue_front :: "'a rw_queue \<Rightarrow> ('a \<times> 'a rw_queue) result" where
  "dequeue_front q =
     rw_deref q (Some (rw_frontBlock q)) (\<lambda>f fb.
       case bk_element (bk_front fb) fb of
         Inl e \<Rightarrow> Inl e
       | Inr x \<Rightarrow> Inr (x, rw_put f ((bk_destroy (bk_front fb) fb)\<lparr>bk_front := (bk_front fb + 1) AND bk_sizeMask fb\<rparr>) q))"

text \<open>Going on to the next block, whose element the assertion expects.\<close>

definition dequeue_advance :: "nat \<Rightarrow> 'a rw_queue \<Rightarrow> 'a rw_queue result" where
  "dequeue_advance n q =
     rw_deref q (Some n) (\<lambda>n nb.
       let nb = nb\<lparr>bk_localTail := bk_tail nb\<rparr>
       in if bk_front nb = bk_localTail nb then Inl (AssertFailed ''nextBlockFront != nextBlockTail'')
          else Inr ((rw_put n nb q)\<lparr>rw_frontBlock := n\<rparr>))"

definition rw_try_dequeue :: "'a rw_queue \<Rightarrow> ('a option \<times> 'a rw_queue) result" where
  "rw_try_dequeue q =
     dequeue_guard q (\<lambda>q. case rw_find q of
         Inl e \<Rightarrow> Inl e
       | Inr (FrontBlock, q) \<Rightarrow> map_sum id (\<lambda>(x, q). (Some x, q)) (dequeue_front q)
       | Inr (NextBlock n, q) \<Rightarrow>
           (case dequeue_advance n q of
              Inl e \<Rightarrow> Inl e
            | Inr q \<Rightarrow> map_sum id (\<lambda>(x, q). (Some x, q)) (dequeue_front q))
       | Inr (NoElement, q) \<Rightarrow> Inr (None, q))"

definition rw_pop :: "'a rw_queue \<Rightarrow> (bool \<times> 'a rw_queue) result" where
  "rw_pop q =
     dequeue_guard q (\<lambda>q. case rw_find q of
         Inl e \<Rightarrow> Inl e
       | Inr (FrontBlock, q) \<Rightarrow> map_sum id (\<lambda>(x, q). (True, q)) (dequeue_front q)
       | Inr (NextBlock n, q) \<Rightarrow>
           (case dequeue_advance n q of
              Inl e \<Rightarrow> Inl e
            | Inr q \<Rightarrow> map_sum id (\<lambda>(x, q). (True, q)) (dequeue_front q))
       | Inr (NoElement, q) \<Rightarrow> Inr (False, q))"

text \<open>\<open>peek\<close> returns a pointer: the block and the index of the element.\<close>

definition rw_peek :: "'a rw_queue \<Rightarrow> ((nat \<times> size_t) option \<times> 'a rw_queue) result" where
  "rw_peek q =
     dequeue_guard q (\<lambda>q. case rw_find q of
         Inl e \<Rightarrow> Inl e
       | Inr (FrontBlock, q) \<Rightarrow>
           rw_deref q (Some (rw_frontBlock q)) (\<lambda>f fb. Inr (Some (f, bk_front fb), q))
       | Inr (NextBlock n, q) \<Rightarrow>
           rw_deref q (Some n) (\<lambda>n nb.
             if bk_front nb = bk_tail nb then Inl (AssertFailed ''nextBlockFront != nextBlock->tail.load()'')
             else Inr (Some (n, bk_front nb), q))
       | Inr (NoElement, q) \<Rightarrow> Inr (None, q))"

subsection \<open>Walking the blocks\<close>

text \<open>The loops of \<open>size_approx\<close> and \<open>max_capacity\<close>: once around the circle from the front block.\<close>

partial_function (option) rw_walk ::
    "('a rw_block \<Rightarrow> size_t) \<Rightarrow> 'a rw_queue \<Rightarrow> nat option \<Rightarrow> size_t \<Rightarrow> size_t result option" where
  "rw_walk f q block result =
     (case block of
        None \<Rightarrow> Some (Inl (UndefinedBehaviour ''nullptr''))
      | Some a \<Rightarrow>
          (case rw_heap q a of
             None \<Rightarrow> Some (Inl (UndefinedBehaviour ''block''))
           | Some b \<Rightarrow>
               (let result = result + f b
                in if bk_next b \<noteq> Some (rw_frontBlock q) then rw_walk f q (bk_next b) result
                   else Some (Inr result))))"

definition rw_size_approx :: "'a rw_queue \<Rightarrow> size_t result option" where
  "rw_size_approx q = rw_walk (\<lambda>b. (bk_tail b - bk_front b) AND bk_sizeMask b) q (Some (rw_frontBlock q)) 0"

definition rw_max_capacity :: "'a rw_queue \<Rightarrow> size_t result option" where
  "rw_max_capacity q = rw_walk bk_sizeMask q (Some (rw_frontBlock q)) 0"

text \<open>
  The destructor: every block's elements are destroyed, from \<open>front\<close> to \<open>tail\<close>, and the block is freed. The
  result is the destroyed elements in order and what is left in the heap.
\<close>

partial_function (option) bk_destroy_all ::
    "size_t \<Rightarrow> 'a rw_block \<Rightarrow> 'a list \<Rightarrow> 'a list result option" where
  "bk_destroy_all i b destroyed =
     (if i \<noteq> bk_tail b
      then (case bk_element i b of
              Inl e \<Rightarrow> Some (Inl e)
            | Inr x \<Rightarrow> bk_destroy_all ((i + 1) AND bk_sizeMask b) (bk_destroy i b) (destroyed @ [x]))
      else Some (Inr destroyed))"

partial_function (option) rw_dtor_loop ::
    "nat \<Rightarrow> (nat \<rightharpoonup> 'a rw_block) \<Rightarrow> nat option \<Rightarrow> 'a list \<Rightarrow> ('a list \<times> (nat \<rightharpoonup> 'a rw_block)) result option" where
  "rw_dtor_loop start h block destroyed =
     (case block of
        None \<Rightarrow> Some (Inl (UndefinedBehaviour ''nullptr''))
      | Some a \<Rightarrow>
          (case h a of
             None \<Rightarrow> Some (Inl (UndefinedBehaviour ''block''))
           | Some b \<Rightarrow>
               (case bk_destroy_all (bk_front b) b destroyed of
                  None \<Rightarrow> None
                | Some (Inl e) \<Rightarrow> Some (Inl e)
                | Some (Inr destroyed) \<Rightarrow>
                    (if bk_next b \<noteq> Some start
                     then rw_dtor_loop start (h(a := None)) (bk_next b) destroyed
                     else Some (Inr (destroyed, h(a := None)))))))"

definition rw_dtor :: "'a rw_queue \<Rightarrow> ('a list \<times> (nat \<rightharpoonup> 'a rw_block)) result option" where
  "rw_dtor q = rw_dtor_loop (rw_frontBlock q) (rw_heap q) (Some (rw_frontBlock q)) []"

text \<open>
  Moving: the new queue takes the blocks, the old one gets a block of 32 of its own; move assignment swaps. A
  queue owns the blocks of its heap, so the heaps change hands with the pointers.
\<close>

definition rw_move :: "rw_class \<Rightarrow> 'a rw_queue \<Rightarrow> ('a rw_queue \<times> 'a rw_queue) result" where
  "rw_move k other =
     (case rw_make_block k 0 32 of
        None \<Rightarrow> Inl BadAlloc
      | Some b \<Rightarrow>
          Inr (other\<lparr>rw_enqueuing := False, rw_dequeuing := False\<rparr>,
               other\<lparr>rw_heap := [0 \<mapsto> b\<lparr>bk_next := Some 0\<rparr>], rw_allocated := 1, rw_frontBlock := 0,
                     rw_tailBlock := 0, rw_largestBlockSize := 32\<rparr>))"

definition rw_assign :: "'a rw_queue \<Rightarrow> 'a rw_queue \<Rightarrow> 'a rw_queue \<times> 'a rw_queue" where
  "rw_assign this other =
     (other\<lparr>rw_enqueuing := rw_enqueuing this, rw_dequeuing := rw_dequeuing this\<rparr>,
      this\<lparr>rw_enqueuing := rw_enqueuing other, rw_dequeuing := rw_dequeuing other\<rparr>)"

section \<open>One block\<close>

definition bk_n :: "'a rw_block \<Rightarrow> nat" where
  "bk_n b = Suc (unat (bk_sizeMask b))"

definition bk_list :: "'a rw_block \<Rightarrow> 'a list" where
  "bk_list b = ring_list (bk_n b) (\<lambda>i. the (bk_data b ! i)) (unat (bk_front b))
     (ring_dist (bk_n b) (unat (bk_front b)) (unat (bk_tail b)))"

definition bk_full :: "'a rw_block \<Rightarrow> bool" where
  "bk_full b \<longleftrightarrow> length (bk_list b) = unat (bk_sizeMask b)"

text \<open>
  The size is a power of two (and at least 2), every index is in range, the producer's copy of \<open>front\<close> lags behind it, the
  consumer's copy of \<open>tail\<close> lies between \<open>front\<close> and \<open>tail\<close>, and exactly the slots between them hold an element.
\<close>

definition bk_inv :: "'a rw_block \<Rightarrow> bool" where
  "bk_inv b \<longleftrightarrow>
     (let n = bk_n b; f = unat (bk_front b); t = unat (bk_tail b); lf = unat (bk_localFront b); lt = unat (bk_localTail b)
      in (\<exists>e < 64. 0 < e \<and> bk_sizeMask b = mask e) \<and> length (bk_data b) = n \<and> f < n \<and> t < n \<and> lf < n \<and> lt < n \<and>
         ring_dist n f t \<le> ring_dist n lf t \<and> ring_dist n f lt \<le> ring_dist n f t \<and>
         (\<forall>i < n. bk_data b ! i \<noteq> None \<longleftrightarrow> ring_dist n f i < ring_dist n f t))"

lemma bk_invD:
  assumes "bk_inv b"
  shows "\<exists>e < 64. 0 < e \<and> bk_sizeMask b = mask e" "length (bk_data b) = bk_n b"
    "unat (bk_front b) < bk_n b" "unat (bk_tail b) < bk_n b" "unat (bk_localFront b) < bk_n b" "unat (bk_localTail b) < bk_n b"
    "ring_dist (bk_n b) (unat (bk_front b)) (unat (bk_tail b)) \<le> ring_dist (bk_n b) (unat (bk_localFront b)) (unat (bk_tail b))"
    "ring_dist (bk_n b) (unat (bk_front b)) (unat (bk_localTail b)) \<le> ring_dist (bk_n b) (unat (bk_front b)) (unat (bk_tail b))"
    "\<And>i. i < bk_n b \<Longrightarrow> bk_data b ! i \<noteq> None \<longleftrightarrow>
       ring_dist (bk_n b) (unat (bk_front b)) i < ring_dist (bk_n b) (unat (bk_front b)) (unat (bk_tail b))"
  using assms by (simp_all add: bk_inv_def Let_def)

lemma bk_n_upd [simp]:
  "bk_n (b\<lparr>bk_front := i\<rparr>) = bk_n b" "bk_n (b\<lparr>bk_tail := i\<rparr>) = bk_n b" "bk_n (b\<lparr>bk_localFront := i\<rparr>) = bk_n b"
  "bk_n (b\<lparr>bk_localTail := i\<rparr>) = bk_n b" "bk_n (b\<lparr>bk_next := p\<rparr>) = bk_n b" "bk_n (b\<lparr>bk_data := d\<rparr>) = bk_n b"
  by (simp_all add: bk_n_def)

lemma bk_list_upd [simp]:
  "bk_list (b\<lparr>bk_localFront := i\<rparr>) = bk_list b" "bk_list (b\<lparr>bk_localTail := i\<rparr>) = bk_list b" "bk_list (b\<lparr>bk_next := p\<rparr>) = bk_list b"
  by (simp_all add: bk_list_def)

lemma bk_full_upd [simp]:
  "bk_full (b\<lparr>bk_localFront := i\<rparr>) = bk_full b" "bk_full (b\<lparr>bk_localTail := i\<rparr>) = bk_full b" "bk_full (b\<lparr>bk_next := p\<rparr>) = bk_full b"
  by (simp_all add: bk_full_def)

lemma bk_inv_next [simp]: "bk_inv (b\<lparr>bk_next := p\<rparr>) = bk_inv b"
  by (simp add: bk_inv_def)

lemma bk_inv_localFront: "bk_inv b \<Longrightarrow> bk_inv (b\<lparr>bk_localFront := bk_front b\<rparr>)"
  by (auto simp: bk_inv_def Let_def)

lemma bk_inv_localTail: "bk_inv b \<Longrightarrow> bk_inv (b\<lparr>bk_localTail := bk_tail b\<rparr>)"
  by (auto simp: bk_inv_def Let_def)

lemma unat_mask_word: "e < 64 \<Longrightarrow> unat (mask e :: size_t) = 2 ^ e - 1"
  by (simp add: mask_eq_exp_minus_1 unat_sub_if' unat_pow2)

lemma bk_succ:
  assumes "bk_inv b" "unat i < bk_n b"
  shows "unat ((i + 1) AND bk_sizeMask b) = ring_next (bk_n b) (unat i)"
proof -
  obtain e where e: "e < 64" "bk_sizeMask b = mask e" using bk_invD(1) [OF assms(1)] by auto
  have n: "bk_n b = 2 ^ e" by (simp add: bk_n_def e unat_mask_word)
  have "unat i + 1 \<le> 2 ^ e" using assms(2) n by simp
  moreover have "(2 :: nat) ^ e < 2 ^ 64" using e(1) by (intro power_strict_increasing) auto
  ultimately have "unat (i + 1) = unat i + 1" by (subst unat_add_less) auto
  then have "unat ((i + 1) AND bk_sizeMask b) = (unat i + 1) mod 2 ^ e"
    by (simp add: e(2) take_bit_eq_mask [symmetric] unsigned_take_bit_eq) (simp add: take_bit_eq_mod)
  then show ?thesis using assms(2) n by (auto simp: ring_next_def)
qed

lemma bk_succ_eq_iff:
  "bk_inv b \<Longrightarrow> unat i < bk_n b \<Longrightarrow> (i + 1) AND bk_sizeMask b = j \<longleftrightarrow> ring_next (bk_n b) (unat i) = unat j"
  by (metis bk_succ unat_inject)

lemma length_bk_list: "length (bk_list b) = ring_dist (bk_n b) (unat (bk_front b)) (unat (bk_tail b))"
  by (simp add: bk_list_def)

lemma bk_list_Nil_iff: "bk_inv b \<Longrightarrow> bk_list b = [] \<longleftrightarrow> bk_front b = bk_tail b"
  using bk_invD(3,4) [of b]
  by (simp add: length_0_conv [symmetric] length_bk_list ring_dist_eq_0 unat_inject del: length_0_conv)

lemma bk_full_iff: "bk_inv b \<Longrightarrow> bk_full b \<longleftrightarrow> (bk_tail b + 1) AND bk_sizeMask b = bk_front b"
  using bk_invD(3,4) [of b] ring_next_eq_iff [of "unat (bk_front b)" "bk_n b" "unat (bk_tail b)"]
  by (simp add: bk_succ_eq_iff bk_full_def length_bk_list) (simp add: bk_n_def)

text \<open>The copy of \<open>front\<close> is safe: a full block looks full; and the copy of \<open>tail\<close>: an empty block looks empty.\<close>

lemma bk_full_cached:
  assumes "bk_inv b" "bk_full b" shows "(bk_tail b + 1) AND bk_sizeMask b = bk_localFront b"
proof -
  note d = bk_invD [OF assms(1)]
  have "ring_dist (bk_n b) (unat (bk_localFront b)) (unat (bk_tail b)) = bk_n b - 1"
    using assms(2) d(7) ring_dist_less [OF d(5,4)] by (simp add: bk_full_def length_bk_list bk_n_def)
  then show ?thesis using ring_next_eq_iff [OF d(5,4)] by (simp add: bk_succ_eq_iff [OF assms(1) d(4)])
qed

lemma bk_empty_cached: "bk_inv b \<Longrightarrow> bk_front b = bk_tail b \<Longrightarrow> bk_localTail b = bk_front b"
  using bk_invD(3,6,8) [of b] by (simp add: ring_dist_eq_0 unat_inject)

lemma bk_push:
  assumes inv: "bk_inv b" and room: "\<not> bk_full b" "(bk_tail b + 1) AND bk_sizeMask b \<noteq> bk_localFront b"
  shows "\<exists>b'. bk_construct x (bk_tail b) b = Inr b' \<and> bk_next b' = bk_next b \<and> bk_sizeMask b' = bk_sizeMask b \<and>
    bk_inv (b'\<lparr>bk_tail := (bk_tail b + 1) AND bk_sizeMask b\<rparr>) \<and>
    bk_list (b'\<lparr>bk_tail := (bk_tail b + 1) AND bk_sizeMask b\<rparr>) = bk_list b @ [x]"
proof -
  note d = bk_invD [OF inv]
  let ?n = "bk_n b" and ?f = "unat (bk_front b)" and ?t = "unat (bk_tail b)" and ?lf = "unat (bk_localFront b)"
  let ?b = "b\<lparr>bk_data := (bk_data b)[?t := Some x], bk_tail := (bk_tail b + 1) AND bk_sizeMask b\<rparr>"
  have t': "unat (bk_tail ?b) = ring_next ?n ?t" using bk_succ [OF inv d(4)] by simp
  have n1: "ring_next ?n ?t \<noteq> ?f" using room(1) by (simp add: bk_full_iff [OF inv] bk_succ_eq_iff [OF inv d(4)])
  have n2: "ring_next ?n ?t \<noteq> ?lf" using room(2) by (simp add: bk_succ_eq_iff [OF inv d(4)])
  have dist: "ring_dist ?n ?f (ring_next ?n ?t) = Suc (ring_dist ?n ?f ?t)"
    "ring_dist ?n ?lf (ring_next ?n ?t) = Suc (ring_dist ?n ?lf ?t)"
    using d n1 n2 by (simp_all add: ring_dist_next_right)
  have slot: "bk_data ?b ! i = (if i = ?t then Some x else bk_data b ! i)" for i
    using d(2,4) by (simp add: nth_list_update)
  have "bk_inv ?b"
    unfolding bk_inv_def Let_def t'
    using d slot dist ring_dist_inj [OF d(3) _ d(4)] by (auto simp: ring_next_less less_Suc_eq)
  moreover have "bk_list ?b = bk_list b @ [x]"
  proof -
    have "bk_list ?b = ring_list ?n ((\<lambda>i. the (bk_data b ! i))(?t := x)) ?f (Suc (ring_dist ?n ?f ?t))"
      unfolding bk_list_def t' using dist d(2,4) by (auto intro!: ring_list_cong simp: nth_list_update)
    then show ?thesis using d by (simp add: ring_list_push bk_list_def)
  qed
  ultimately show ?thesis using d(2,4) by (auto simp: bk_construct_def)
qed

lemma bk_list_Cons:
  assumes inv: "bk_inv b" and ne: "bk_front b \<noteq> bk_tail b"
  defines "n \<equiv> bk_n b" and "f \<equiv> unat (bk_front b)" and "t \<equiv> unat (bk_tail b)"
  shows "bk_list b = the (bk_data b ! f) # ring_list n (\<lambda>i. the (bk_data b ! i)) (ring_next n f) (ring_dist n (ring_next n f) t)"
    and "bk_data b ! f \<noteq> None"
proof -
  note d = bk_invD [OF inv]
  have ft: "f \<noteq> t" using ne by (simp add: f_def t_def unat_inject)
  have dist: "ring_dist n f t = Suc (ring_dist n (ring_next n f) t)"
    using d ft unfolding n_def f_def t_def by (intro ring_dist_next_left)
  have "ring_dist n (ring_next n f) t \<le> n"
    using d ring_dist_less [of "ring_next n f" n t] ring_next_less [of f n] by (simp add: n_def f_def t_def)
  then show "bk_list b = the (bk_data b ! f) # ring_list n (\<lambda>i. the (bk_data b ! i)) (ring_next n f) (ring_dist n (ring_next n f) t)"
    using dist d(3) ring_list_Cons [of f n "ring_dist n (ring_next n f) t" "\<lambda>i. the (bk_data b ! i)"]
    by (simp add: bk_list_def n_def f_def t_def)
  show "bk_data b ! f \<noteq> None" using d(9) [OF d(3)] dist by (simp add: n_def f_def t_def)
qed

lemma bk_element_front: "bk_inv b \<Longrightarrow> bk_front b \<noteq> bk_tail b \<Longrightarrow> bk_element (bk_front b) b = Inr (hd (bk_list b))"
  using bk_list_Cons [of b] bk_invD(2,3) [of b] by (auto simp: bk_element_def)

definition bk_drop :: "'a rw_block \<Rightarrow> 'a rw_block" where
  "bk_drop b = (bk_destroy (bk_front b) b)\<lparr>bk_front := (bk_front b + 1) AND bk_sizeMask b\<rparr>"

lemma bk_drop_fields [simp]: "bk_next (bk_drop b) = bk_next b" "bk_sizeMask (bk_drop b) = bk_sizeMask b"
  "bk_n (bk_drop b) = bk_n b" "bk_tail (bk_drop b) = bk_tail b"
  by (simp_all add: bk_drop_def bk_destroy_def)

lemma bk_drop_list:
  assumes inv: "bk_inv b" and ne: "bk_front b \<noteq> bk_tail b"
  shows "bk_list (bk_drop b) = tl (bk_list b)"
proof -
  note d = bk_invD [OF inv]
  let ?n = "bk_n b" and ?f = "unat (bk_front b)" and ?t = "unat (bk_tail b)"
  have f': "unat (bk_front (bk_drop b)) = ring_next ?n ?f" using bk_succ [OF inv d(3)] by (simp add: bk_drop_def)
  have slot: "bk_data (bk_drop b) ! i = (if i = ?f then None else bk_data b ! i)" for i
    using d(2,3) by (simp add: nth_list_update bk_drop_def bk_destroy_def)
  have f'n: "ring_next ?n ?f < ?n" using d(3) by (rule ring_next_less)
  have dist: "ring_dist ?n ?f ?t = Suc (ring_dist ?n (ring_next ?n ?f) ?t)"
    using d ne by (intro ring_dist_next_left) (simp_all add: unat_inject)
  have "ring_at ?n (ring_next ?n ?f) i \<noteq> ?f" if i: "i < ring_dist ?n (ring_next ?n ?f) ?t" for i
  proof -
    have "i < ?n - 1" "i < ?n" using i dist ring_dist_less [OF d(3,4)] by linarith+
    then show ?thesis using f'n ring_dist_at [OF f'n, of i] ring_dist_next_self [OF d(3)] by auto
  qed
  then show ?thesis
    unfolding bk_list_Cons(1) [OF inv ne] unfolding bk_list_def f' bk_drop_fields
    by (auto intro!: ring_list_cong simp: slot)
qed

lemma bk_drop_inv:
  assumes inv: "bk_inv b" and ne: "bk_front b \<noteq> bk_localTail b"
  shows "bk_inv (bk_drop b)"
proof -
  note d = bk_invD [OF inv]
  let ?n = "bk_n b" and ?f = "unat (bk_front b)" and ?t = "unat (bk_tail b)" and ?lt = "unat (bk_localTail b)"
  have ne': "?f \<noteq> ?lt" using ne by (simp add: unat_inject)
  then have ft: "?f \<noteq> ?t" using d(8) ring_dist_eq_0 [OF d(3,6)] by (metis le_zero_eq ring_dist_self)
  have f': "unat (bk_front (bk_drop b)) = ring_next ?n ?f" using bk_succ [OF inv d(3)] by (simp add: bk_drop_def)
  have slot: "bk_data (bk_drop b) ! i = (if i = ?f then None else bk_data b ! i)" for i
    using d(2,3) by (simp add: nth_list_update bk_drop_def bk_destroy_def)
  have f'n: "ring_next ?n ?f < ?n" using d(3) by (rule ring_next_less)
  have dist: "ring_dist ?n ?f ?t = Suc (ring_dist ?n (ring_next ?n ?f) ?t)"
    "ring_dist ?n ?f ?lt = Suc (ring_dist ?n (ring_next ?n ?f) ?lt)"
    using d ne' ft by (auto intro: ring_dist_next_left)
  have distr: "ring_dist ?n ?f i = Suc (ring_dist ?n (ring_next ?n ?f) i)" if "i < ?n" "i \<noteq> ?f" for i
    using that d(3) by (intro ring_dist_next_left) auto
  have fields: "bk_localTail (bk_drop b) = bk_localTail b" "bk_localFront (bk_drop b) = bk_localFront b"
    "length (bk_data (bk_drop b)) = length (bk_data b)" by (simp_all add: bk_drop_def bk_destroy_def)
  have live: "(bk_data (bk_drop b) ! i \<noteq> None) = (ring_dist ?n (ring_next ?n ?f) i < ring_dist ?n (ring_next ?n ?f) ?t)" if "i < ?n" for i
    using d(9) [OF that] slot [of i] distr [OF that] dist(1) ring_dist_next_self [OF d(3)] ring_dist_less [OF f'n d(4)]
    by (cases "i = ?f") auto
  show ?thesis
    unfolding bk_inv_def Let_def f' fields bk_drop_fields
    using d dist f'n live by auto
qed

section \<open>The circle of blocks\<close>

definition rw_blk :: "'a rw_queue \<Rightarrow> nat \<Rightarrow> 'a rw_block" where
  "rw_blk q a = the (rw_heap q a)"

text \<open>The blocks from \<open>a\<close> on up to the tail block, and the elements in them.\<close>

fun rw_path :: "'a rw_queue \<Rightarrow> nat \<Rightarrow> nat \<Rightarrow> nat list" where
  "rw_path q 0 a = []"
| "rw_path q (Suc fuel) a =
     a # (if a = rw_tailBlock q then [] else case bk_next (rw_blk q a) of None \<Rightarrow> [] | Some b \<Rightarrow> rw_path q fuel b)"

definition rw_contents :: "'a rw_queue \<Rightarrow> 'a list" where
  "rw_contents q = concat (map (\<lambda>a. bk_list (rw_blk q a)) (rw_path q (rw_allocated q) (rw_frontBlock q)))"

text \<open>A single block, or any set of blocks but one, has room for \<open>g\<close> elements.\<close>

definition rw_reserve :: "nat \<Rightarrow> 'a rw_queue \<Rightarrow> nat set \<Rightarrow> bool" where
  "rw_reserve g q B \<longleftrightarrow>
     (\<forall>a \<in> B. g \<le> (if B = {a} then unat (bk_sizeMask (rw_blk q a)) else \<Sum>b \<in> B - {a}. unat (bk_sizeMask (rw_blk q b))))"

definition rw_limit :: "rw_class \<Rightarrow> nat" where
  "rw_limit k = max 32 (2 * unat (rwc_MAX_BLOCK_SIZE k))"

text \<open>
  The circle consists of the blocks \<open>fs\<close> from the front block to the tail block and the blocks \<open>es\<close>, which
  are empty. All blocks of \<open>fs\<close> but the first hold an element, and those strictly inside are full.
\<close>

definition rw_shape :: "nat \<Rightarrow> rw_class \<Rightarrow> 'a rw_queue \<Rightarrow> nat list \<Rightarrow> nat list \<Rightarrow> bool" where
  "rw_shape g k q fs es \<longleftrightarrow>
     fs \<noteq> [] \<and> distinct (fs @ es) \<and> dom (rw_heap q) = set (fs @ es) \<and> set (fs @ es) \<subseteq> {..<rw_allocated q} \<and>
     hd fs = rw_frontBlock q \<and> last fs = rw_tailBlock q \<and>
     (\<forall>(a, b) \<in> pairs (fs @ es @ [hd fs]). bk_next (rw_blk q a) = Some b) \<and>
     (\<forall>a \<in> set (fs @ es). bk_inv (rw_blk q a) \<and> bk_n (rw_blk q a) \<le> unat (rw_largestBlockSize q)) \<and>
     (\<forall>a \<in> set es. bk_list (rw_blk q a) = []) \<and> (\<forall>a \<in> set (tl fs). bk_list (rw_blk q a) \<noteq> []) \<and>
     (\<forall>a \<in> set (butlast (tl fs)). bk_full (rw_blk q a)) \<and>
     (\<exists>e < 64. 0 < e \<and> unat (rw_largestBlockSize q) = 2 ^ e) \<and> unat (rw_largestBlockSize q) \<le> rw_limit k \<and>
     rw_reserve g q (set (fs @ es))"

definition rw_inv :: "nat \<Rightarrow> rw_class \<Rightarrow> 'a rw_queue \<Rightarrow> bool" where
  "rw_inv g k q \<longleftrightarrow> (\<exists>fs es. rw_shape g k q fs es) \<and> \<not> rw_enqueuing q \<and> \<not> rw_dequeuing q"

lemma rw_shapeD:
  assumes "rw_shape g k q fs es"
  shows "fs \<noteq> []" "distinct (fs @ es)" "dom (rw_heap q) = set (fs @ es)" "set (fs @ es) \<subseteq> {..<rw_allocated q}"
    "hd fs = rw_frontBlock q" "last fs = rw_tailBlock q"
    "\<And>a b. (a, b) \<in> pairs (fs @ es @ [hd fs]) \<Longrightarrow> bk_next (rw_blk q a) = Some b"
    "\<And>a. a \<in> set (fs @ es) \<Longrightarrow> bk_inv (rw_blk q a)"
    "\<And>a. a \<in> set (fs @ es) \<Longrightarrow> bk_n (rw_blk q a) \<le> unat (rw_largestBlockSize q)"
    "\<And>a. a \<in> set es \<Longrightarrow> bk_list (rw_blk q a) = []" "\<And>a. a \<in> set (tl fs) \<Longrightarrow> bk_list (rw_blk q a) \<noteq> []"
    "\<And>a. a \<in> set (butlast (tl fs)) \<Longrightarrow> bk_full (rw_blk q a)"
    "\<exists>e < 64. 0 < e \<and> unat (rw_largestBlockSize q) = 2 ^ e" "unat (rw_largestBlockSize q) \<le> rw_limit k"
    "rw_reserve g q (set (fs @ es))"
  using assms by (auto simp: rw_shape_def)

lemma rw_shape_heap: "rw_shape g k q fs es \<Longrightarrow> a \<in> set (fs @ es) \<Longrightarrow> rw_heap q a = Some (rw_blk q a)"
  using rw_shapeD(3) [of g k q fs es] by (metis domD option.sel rw_blk_def)

lemma rw_path_chain:
  "fs \<noteq> [] \<Longrightarrow> distinct fs \<Longrightarrow> last fs = rw_tailBlock q \<Longrightarrow> (\<forall>(a, b) \<in> pairs fs. bk_next (rw_blk q a) = Some b) \<Longrightarrow>
    length fs \<le> fuel \<Longrightarrow> rw_path q fuel (hd fs) = fs"
proof (induction fs arbitrary: fuel)
  case (Cons a fs)
  have "fs \<noteq> [] \<Longrightarrow> rw_tailBlock q \<in> set fs" using Cons.prems(3) last_in_set [of fs] by simp
  then have "fs \<noteq> [] \<Longrightarrow> rw_tailBlock q \<noteq> a" using Cons.prems(2) by auto
  with Cons show ?case by (cases fs; cases fuel) (auto split: option.splits)
qed simp

lemma rw_shape_path:
  assumes "rw_shape g k q fs es"
  shows "rw_path q (rw_allocated q) (rw_frontBlock q) = fs"
proof -
  note d = rw_shapeD [OF assms]
  have "length fs = card (set fs)" using d(2) by (simp add: distinct_card)
  also have "\<dots> \<le> rw_allocated q" using card_mono [of "{..<rw_allocated q}" "set fs"] d(4) by simp
  finally have "length fs \<le> rw_allocated q" .
  moreover have "pairs fs \<subseteq> pairs (fs @ es @ [hd fs])" using d(1) by (simp add: pairs_append subset_insertI2)
  ultimately show ?thesis using d(1,2,5,6,7) rw_path_chain [of fs q "rw_allocated q"] by auto
qed

lemma rw_contents_shape:
  "rw_shape g k q fs es \<Longrightarrow> rw_contents q = concat (map (\<lambda>a. bk_list (rw_blk q a)) fs)"
  by (simp add: rw_contents_def rw_shape_path)

lemma rw_blk_put: "rw_blk (rw_put a b q) c = (if c = a then b else rw_blk q c)"
  by (simp add: rw_blk_def rw_put_def)

lemma rw_put_fields [simp]:
  "rw_allocated (rw_put a b q) = rw_allocated q" "rw_frontBlock (rw_put a b q) = rw_frontBlock q"
  "rw_tailBlock (rw_put a b q) = rw_tailBlock q" "rw_largestBlockSize (rw_put a b q) = rw_largestBlockSize q"
  "rw_enqueuing (rw_put a b q) = rw_enqueuing q" "rw_dequeuing (rw_put a b q) = rw_dequeuing q"
  "rw_heap (rw_put a b q) = (rw_heap q)(a \<mapsto> b)"
  by (simp_all add: rw_put_def)

lemma rw_blk_upd [simp]:
  "rw_blk (q\<lparr>rw_enqueuing := f\<rparr>) = rw_blk q" "rw_blk (q\<lparr>rw_dequeuing := f\<rparr>) = rw_blk q"
  "rw_blk (q\<lparr>rw_frontBlock := p\<rparr>) = rw_blk q" "rw_blk (q\<lparr>rw_tailBlock := p\<rparr>) = rw_blk q"
  "rw_blk (q\<lparr>rw_allocated := n\<rparr>) = rw_blk q" "rw_blk (q\<lparr>rw_largestBlockSize := l\<rparr>) = rw_blk q"
  by (simp_all add: rw_blk_def fun_eq_iff)

lemma rw_reserve_cong:
  "(\<And>a. a \<in> B \<Longrightarrow> bk_sizeMask (rw_blk q a) = bk_sizeMask (rw_blk q' a)) \<Longrightarrow> rw_reserve g q B = rw_reserve g q' B"
  by (auto simp: rw_reserve_def intro!: ball_cong sum.cong)

lemma rw_shape_flags [simp]:
  "rw_shape g k (q\<lparr>rw_enqueuing := f\<rparr>) fs es = rw_shape g k q fs es"
  "rw_shape g k (q\<lparr>rw_dequeuing := f\<rparr>) fs es = rw_shape g k q fs es"
  by (simp_all add: rw_shape_def rw_reserve_def)

lemma rw_contents_flags [simp]:
  "rw_contents (q\<lparr>rw_enqueuing := f\<rparr>) = rw_contents q" "rw_contents (q\<lparr>rw_dequeuing := f\<rparr>) = rw_contents q"
proof -
  have "rw_path (q\<lparr>rw_enqueuing := f\<rparr>) n a = rw_path q n a" "rw_path (q\<lparr>rw_dequeuing := f\<rparr>) n a = rw_path q n a" for n a
    by (induction n arbitrary: a) (auto split: option.splits)
  then show "rw_contents (q\<lparr>rw_enqueuing := f\<rparr>) = rw_contents q" "rw_contents (q\<lparr>rw_dequeuing := f\<rparr>) = rw_contents q"
    by (simp_all add: rw_contents_def)
qed

text \<open>Replacing a block by one with the same link and size.\<close>

lemma rw_shape_put:
  assumes s: "rw_shape g k q fs es" and a: "a \<in> set (fs @ es)"
    and b: "bk_inv b" "bk_next b = bk_next (rw_blk q a)" "bk_sizeMask b = bk_sizeMask (rw_blk q a)"
    and es: "a \<in> set es \<Longrightarrow> bk_list b = []" and fs: "a \<in> set (tl fs) \<Longrightarrow> bk_list b \<noteq> []"
    and full: "a \<in> set (butlast (tl fs)) \<Longrightarrow> bk_full b"
  shows "rw_shape g k (rw_put a b q) fs es"
proof -
  note d = rw_shapeD [OF s]
  have n: "bk_n b = bk_n (rw_blk q a)" using b(3) by (simp add: bk_n_def)
  have "rw_reserve g (rw_put a b q) (set (fs @ es)) = rw_reserve g q (set (fs @ es))"
    using b(3) by (intro rw_reserve_cong) (simp add: rw_blk_put)
  moreover have "bk_next (rw_blk (rw_put a b q) c) = bk_next (rw_blk q c)" for c using b(2) by (simp add: rw_blk_put)
  ultimately show ?thesis
    unfolding rw_shape_def using d a b(1) n es fs full by (auto simp: rw_blk_put split: if_splits)
qed

lemma rw_contents_put:
  assumes "rw_shape g k q fs es" "rw_shape g k (rw_put a b q) fs es"
  shows "rw_contents (rw_put a b q) = concat (map (\<lambda>c. if c = a then bk_list b else bk_list (rw_blk q c)) fs)"
  unfolding rw_contents_shape [OF assms(2)] by (simp add: rw_blk_put if_distrib cong: if_cong)

lemma rw_refresh:
  assumes s: "rw_shape g k q fs es" and a: "a \<in> set (fs @ es)"
    and b: "b = (rw_blk q a)\<lparr>bk_localFront := bk_front (rw_blk q a)\<rparr> \<or> b = (rw_blk q a)\<lparr>bk_localTail := bk_tail (rw_blk q a)\<rparr>"
  shows "rw_shape g k (rw_put a b q) fs es \<and> rw_contents (rw_put a b q) = rw_contents q"
proof -
  note d = rw_shapeD [OF s]
  have inv: "bk_inv b" "bk_next b = bk_next (rw_blk q a)" "bk_sizeMask b = bk_sizeMask (rw_blk q a)"
    "bk_list b = bk_list (rw_blk q a)" "bk_full b = bk_full (rw_blk q a)"
    using b d(8) [OF a] by (auto simp: bk_inv_localFront bk_inv_localTail)
  have s': "rw_shape g k (rw_put a b q) fs es"
    using inv d(10,11,12) by (intro rw_shape_put [OF s a]) auto
  moreover have "rw_contents (rw_put a b q) = rw_contents q"
    unfolding rw_contents_put [OF s s'] rw_contents_shape [OF s] using inv(4)
    by (intro arg_cong [where f = concat] map_cong) auto
  ultimately show ?thesis by simp
qed

subsection \<open>The producer\<close>

lemma bk_n_ge_2: "bk_inv b \<Longrightarrow> 2 \<le> bk_n b"
proof -
  assume "bk_inv b"
  then obtain e where e: "e < 64" "0 < e" "bk_sizeMask b = mask e" using bk_invD(1) by blast
  then have "bk_n b = 2 ^ e" by (simp add: bk_n_def unat_mask_word)
  with e(2) show ?thesis by (cases e) auto
qed

lemma rw_tail_next:
  assumes "rw_shape g k q fs es" shows "bk_next (rw_blk q (rw_tailBlock q)) = Some (hd (es @ [hd fs]))"
  using rw_shapeD(1,6) [OF assms] by (intro rw_shapeD(7) [OF assms]) (simp add: pairs_append hd_append)

lemma rw_next_is_front:
  assumes "rw_shape g k q fs es"
  shows "bk_next (rw_blk q (rw_tailBlock q)) = Some (rw_frontBlock q) \<longleftrightarrow> es = []"
  using rw_tail_next [OF assms] rw_shapeD(1,2,5) [OF assms] by (cases es; cases fs) auto

lemma concat_map_upd_last:
  assumes "distinct fs" "fs \<noteq> []"
  shows "concat (map (\<lambda>c. if c = last fs then f c @ [x] else f c) fs) = concat (map f fs) @ [x]"
  using assms by (cases fs rule: rev_cases) (auto intro!: arg_cong [where f = concat] map_cong)

lemma set_tl_butlast: "set (butlast (tl fs)) \<subseteq> set (tl fs)" "fs \<noteq> [] \<Longrightarrow> set (tl fs) \<subseteq> set fs"
  by (auto dest: in_set_butlastD list.set_sel(2))

lemma last_notin_butlast_tl: "distinct fs \<Longrightarrow> last fs \<notin> set (butlast (tl fs))"
  by (cases fs rule: rev_cases; cases "butlast fs") (auto simp: tl_append butlast_append dest: in_set_butlastD split: list.splits)

lemma enqueue_here_ok:
  assumes s: "rw_shape g k q fs es"
  defines "tb \<equiv> rw_blk q (rw_tailBlock q)"
  assumes room: "\<not> bk_full tb" "(bk_tail tb + 1) AND bk_sizeMask tb \<noteq> bk_localFront tb"
  shows "\<exists>q'. enqueue_here x (rw_tailBlock q) tb q = Inr (True, q') \<and> rw_shape g k q' fs es \<and>
    rw_contents q' = rw_contents q @ [x] \<and> rw_enqueuing q' = rw_enqueuing q \<and> rw_dequeuing q' = rw_dequeuing q"
proof -
  note d = rw_shapeD [OF s]
  have t: "rw_tailBlock q \<in> set fs" using d(1,6) by (metis last_in_set)
  have inv: "bk_inv tb" using d(8) t by (simp add: tb_def)
  obtain b where b: "bk_construct x (bk_tail tb) tb = Inr b" "bk_next b = bk_next tb" "bk_sizeMask b = bk_sizeMask tb"
    "bk_inv (b\<lparr>bk_tail := (bk_tail tb + 1) AND bk_sizeMask tb\<rparr>)"
    "bk_list (b\<lparr>bk_tail := (bk_tail tb + 1) AND bk_sizeMask tb\<rparr>) = bk_list tb @ [x]"
    using bk_push [OF inv room, of x] by blast
  let ?b = "b\<lparr>bk_tail := (bk_tail tb + 1) AND bk_sizeMask tb\<rparr>" and ?q = "rw_put (rw_tailBlock q) (b\<lparr>bk_tail := (bk_tail tb + 1) AND bk_sizeMask tb\<rparr>) q"
  have "distinct fs" using d(2) by simp
  then have s': "rw_shape g k ?q fs es"
    using b t d(2,6) last_notin_butlast_tl [of fs] by (intro rw_shape_put [OF s]) (auto simp: tb_def)
  have "rw_contents ?q = concat (map (\<lambda>c. if c = last fs then bk_list (rw_blk q c) @ [x] else bk_list (rw_blk q c)) fs)"
    unfolding rw_contents_put [OF s s'] using b(5) d(6) by (intro arg_cong [where f = concat] map_cong) (auto simp: tb_def)
  then have "rw_contents ?q = rw_contents q @ [x]"
    using concat_map_upd_last [OF \<open>distinct fs\<close> d(1), of "\<lambda>c. bk_list (rw_blk q c)" x] rw_contents_shape [OF s] by simp
  with s' b(1) show ?thesis by (simp add: enqueue_here_def Let_def)
qed

text \<open>With a full tail block all blocks behind the front block are full.\<close>

lemma rw_full_tl:
  assumes s: "rw_shape g k q fs es" and full: "bk_full (rw_blk q (rw_tailBlock q))" and a: "a \<in> set (tl fs)"
  shows "bk_full (rw_blk q a)"
proof -
  note d = rw_shapeD [OF s]
  have ne: "tl fs \<noteq> []" using a by auto
  then have "last (tl fs) = rw_tailBlock q" using d(6) by (simp add: last_tl)
  then have "tl fs = butlast (tl fs) @ [rw_tailBlock q]" using ne by (metis append_butlast_last_id)
  then have "a \<in> set (butlast (tl fs)) \<or> a = rw_tailBlock q" using a by (metis Un_iff empty_iff empty_set insert_iff list.simps(15) set_append)
  then show ?thesis using d(12) full by auto
qed

lemma bk_push_empty:
  assumes inv: "bk_inv b" and e: "bk_list b = []"
  defines "b1 \<equiv> b\<lparr>bk_localFront := bk_front b\<rparr>"
  shows "\<exists>b'. bk_construct x (bk_tail b1) b1 = Inr b' \<and> bk_next b' = bk_next b \<and> bk_sizeMask b' = bk_sizeMask b \<and>
    bk_inv (b'\<lparr>bk_tail := (bk_tail b1 + 1) AND bk_sizeMask b1\<rparr>) \<and>
    bk_list (b'\<lparr>bk_tail := (bk_tail b1 + 1) AND bk_sizeMask b1\<rparr>) = [x]"
proof -
  have inv1: "bk_inv b1" using inv by (simp add: b1_def bk_inv_localFront)
  have nf: "\<not> bk_full b1" using bk_n_ge_2 [OF inv] e by (simp add: b1_def bk_full_def bk_n_def)
  then have "(bk_tail b1 + 1) AND bk_sizeMask b1 \<noteq> bk_localFront b1"
    using bk_full_iff [OF inv1] by (simp add: b1_def)
  from bk_push [OF inv1 nf this, of x] e show ?thesis by (simp add: b1_def)
qed

lemma enqueue_next_ok:
  assumes s: "rw_shape g k q fs (n # es)" and full: "bk_full (rw_blk q (rw_tailBlock q))"
  shows "\<exists>q'. enqueue_next x n (rw_blk q n) q = Inr (True, q') \<and> rw_shape g k q' (fs @ [n]) es \<and>
    rw_contents q' = rw_contents q @ [x] \<and> rw_enqueuing q' = rw_enqueuing q \<and> rw_dequeuing q' = rw_dequeuing q"
proof -
  note d = rw_shapeD [OF s]
  let ?nb = "rw_blk q n" and ?b1 = "(rw_blk q n)\<lparr>bk_localFront := bk_front (rw_blk q n)\<rparr>"
  have inv: "bk_inv ?nb" and e: "bk_list ?nb = []" using d(8,10) by simp_all
  obtain b where b: "bk_construct x (bk_tail ?b1) ?b1 = Inr b" "bk_next b = bk_next ?nb" "bk_sizeMask b = bk_sizeMask ?nb"
    "bk_inv (b\<lparr>bk_tail := (bk_tail ?b1 + 1) AND bk_sizeMask ?b1\<rparr>)"
    "bk_list (b\<lparr>bk_tail := (bk_tail ?b1 + 1) AND bk_sizeMask ?b1\<rparr>) = [x]"
    using bk_push_empty [OF inv e, of x] by blast
  let ?b = "b\<lparr>bk_tail := (bk_tail ?b1 + 1) AND bk_sizeMask ?b1\<rparr>"
  let ?q = "(rw_put n ?b q)\<lparr>rw_tailBlock := n\<rparr>"
  have nfs: "n \<notin> set fs" "n \<notin> set es" using d(2) by auto
  have "rw_reserve g ?q (set ((fs @ [n]) @ es)) = rw_reserve g q (set (fs @ n # es))"
    using b(3) by (subst rw_reserve_cong [of _ ?q q]) (auto simp: rw_blk_put)
  moreover have "bk_next (rw_blk ?q c) = bk_next (rw_blk q c)" for c using b(2) by (simp add: rw_blk_put)
  moreover have "bk_n ?b = bk_n ?nb" using b(3) by (simp add: bk_n_def)
  moreover have "butlast (tl (fs @ [n])) = tl fs" using d(1) by (cases fs) auto
  moreover have "c \<noteq> n" if "c \<in> set (tl fs)" for c using that nfs d(1) by (auto dest: list.set_sel(2))
  moreover have "\<And>a. a \<in> set (tl fs) \<Longrightarrow> bk_full (rw_blk q a)" by (rule rw_full_tl [OF s full])
  ultimately have s': "rw_shape g k ?q (fs @ [n]) es"
    unfolding rw_shape_def using d b(4,5) nfs by (auto simp: rw_blk_put)
  have "rw_contents ?q = rw_contents q @ [x]"
    unfolding rw_contents_shape [OF s'] rw_contents_shape [OF s]
    using nfs b(5) by (auto simp: rw_blk_put intro!: arg_cong [where f = concat] map_cong)
  moreover have "bk_front ?nb = bk_tail ?nb" using e bk_list_Nil_iff [OF inv] by simp
  ultimately show ?thesis using s' b(1,3) by (simp add: enqueue_next_def Let_def)
qed

subsection \<open>New blocks\<close>

text \<open>The template arguments make sense, and the bytes of the largest block fit into \<open>size_t\<close>.\<close>

definition rw_class_ok :: "rw_class \<Rightarrow> bool" where
  "rw_class_ok k \<longleftrightarrow>
     (\<exists>e < 63. 0 < e \<and> unat (rwc_MAX_BLOCK_SIZE k) = 2 ^ e) \<and>
     0 < unat (rwc_sizeofT k) \<and> 0 < unat (rwc_alignofT k) \<and> 0 < unat (rwc_alignofBlock k) \<and>
     unat (rwc_sizeofBlock k) + unat (rwc_alignofBlock k) + unat (rwc_sizeofT k) * rw_limit k + unat (rwc_alignofT k) < 2 ^ 64"

lemma rw_make_block_ok:
  assumes ok: "rw_class_ok k" and c: "unat c \<le> rw_limit k" and m: "rw_make_block k n c = Some b"
  shows "b = rw_Block c (unat c)"
proof -
  let ?B = "unat (rwc_sizeofBlock k)" and ?A = "unat (rwc_alignofBlock k)"
  let ?T = "unat (rwc_sizeofT k)" and ?a = "unat (rwc_alignofT k)"
  have o: "0 < ?T" "0 < ?a" "0 < ?A" "?B + ?A + ?T * rw_limit k + ?a < 2 ^ 64" using ok by (auto simp: rw_class_ok_def)
  have "?T * unat c \<le> ?T * rw_limit k" using c by simp
  then have l: "?B + ?A + ?T * unat c + ?a < 2 ^ 64" using o(4) by linarith
  have t: "unat (rwc_sizeofT k * c) = ?T * unat c" using l by (simp add: unat_word_ariths)
  have one: "unat (x - 1) = unat x - 1" if "0 < unat x" for x :: size_t
    using that unat_sub [of 1 x] by (simp add: word_le_nat_alt Suc_leI)
  have p1: "unat (rwc_sizeofBlock k + rwc_alignofBlock k) = ?B + ?A" using l by (intro unat_add_less) simp
  have u1: "unat (rwc_sizeofBlock k + rwc_alignofBlock k - 1) = ?B + ?A - 1" using one [of "rwc_sizeofBlock k + rwc_alignofBlock k"] p1 o(3) by simp
  have p2: "unat (rwc_sizeofT k * c + rwc_alignofT k) = ?T * unat c + ?a" using l t by (subst unat_add_less) simp_all
  have u2: "unat (rwc_sizeofT k * c + rwc_alignofT k - 1) = ?T * unat c + ?a - 1"
    using one [of "rwc_sizeofT k * c + rwc_alignofT k"] p2 o(2) by simp
  have "unat (rw_block_bytes k c) = (?B + ?A - 1) + (?T * unat c + ?a - 1)"
    unfolding rw_block_bytes_def Let_def using l u1 u2 by (subst unat_add_less) simp_all
  then have "unat (rw_block_bytes k c) - unat (rwc_sizeofBlock k + rwc_alignofBlock k - 1) - (?a - 1) = ?T * unat c"
    using u1 o(2) by simp
  then show ?thesis using m o(1) by (auto simp: rw_make_block_def Let_def split: if_splits)
qed

lemma rw_Block_ok:
  assumes "unat c = 2 ^ e" "0 < e" "e < 64" "B = rw_Block c (unat c)"
  shows "bk_inv B" "bk_list B = []" "bk_n B = unat c" "bk_sizeMask B = c - 1" "unat (c - 1) = 2 ^ e - 1"
proof -
  have c: "c = 2 ^ e" using assms unat_pow2 [of e, where 'a = 64] by (simp add: unat_inject [symmetric] del: unat_pow2)
  have m: "c - 1 = mask e" by (simp add: c mask_eq_exp_minus_1)
  show "unat (c - 1) = 2 ^ e - 1" unfolding m by (rule unat_mask_word [OF assms(3)])
  then show n: "bk_n B = unat c" by (simp add: bk_n_def rw_Block_def assms(1,4))
  show "bk_list B = []" by (simp add: bk_list_def rw_Block_def assms(4))
  show "bk_sizeMask B = c - 1" by (simp add: rw_Block_def assms(4))
  show "bk_inv B" unfolding bk_inv_def Let_def n using m assms by (auto simp: rw_Block_def)
qed

lemma bk_new:
  assumes "unat c = 2 ^ e" "0 < e" "e < 64" "B = rw_Block c (unat c)"
  shows "\<exists>b. bk_construct x 0 B = Inr b \<and> bk_front b = 0 \<and> bk_sizeMask b = c - 1 \<and>
    bk_inv (b\<lparr>bk_tail := 1, bk_localTail := 1, bk_next := p\<rparr>) \<and> bk_list (b\<lparr>bk_tail := 1, bk_localTail := 1, bk_next := p\<rparr>) = [x]"
proof -
  note B = rw_Block_ok [OF assms]
  have z: "bk_tail B = 0" "bk_front B = 0" "bk_localFront B = 0" by (simp_all add: rw_Block_def assms(4))
  have n: "2 \<le> bk_n B" using bk_n_ge_2 [OF B(1)] .
  then have n1: "Suc 0 \<noteq> bk_n B" by linarith
  have one: "(1 :: size_t) AND (c - 1) = 1"
    using bk_succ_eq_iff [OF B(1), of 0 1] n n1 z B(4) by (simp add: ring_next_def)
  have "\<not> bk_full B" using n B(2) by (simp add: bk_full_def bk_n_def)
  then obtain b where b: "bk_construct x 0 B = Inr b" "bk_sizeMask b = c - 1" "bk_inv (b\<lparr>bk_tail := 1\<rparr>)" "bk_list (b\<lparr>bk_tail := 1\<rparr>) = [x]"
    using bk_push [OF B(1), of x] z one B(2,4) by auto
  have "bk_front b = 0" using b(1) z by (auto simp: bk_construct_def split: if_splits)
  moreover have "bk_inv (b\<lparr>bk_tail := 1, bk_localTail := 1\<rparr>)" using bk_inv_localTail [OF b(3)] by simp
  ultimately show ?thesis using b by simp
qed

lemma rw_reserve_insert:
  assumes r: "rw_reserve g q B" and B: "finite B" "B \<noteq> {}" "a \<notin> B"
    and same: "\<And>c. c \<in> B \<Longrightarrow> bk_sizeMask (rw_blk q' c) = bk_sizeMask (rw_blk q c)"
    and big: "\<And>c. c \<in> B \<Longrightarrow> unat (bk_sizeMask (rw_blk q c)) \<le> unat (bk_sizeMask (rw_blk q' a))"
  shows "rw_reserve g q' (insert a B)"
proof -
  let ?m = "\<lambda>c. unat (bk_sizeMask (rw_blk q' c))"
  have r': "g \<le> (if B = {c} then ?m c else sum ?m (B - {c}))" if "c \<in> B" for c
  proof -
    have "sum ?m (B - {c}) = (\<Sum>b \<in> B - {c}. unat (bk_sizeMask (rw_blk q b)))" using same by (intro sum.cong) auto
    then show ?thesis using bspec [OF r [unfolded rw_reserve_def] that] same [OF that] by (simp split: if_splits)
  qed
  have one: "insert a B \<noteq> {c}" for c using B by auto
  have "g \<le> sum ?m (insert a B - {c})" if c: "c \<in> insert a B" for c
  proof (cases "c = a")
    case True
    obtain f where f: "f \<in> B" using B(2) by auto
    have "sum ?m (B - {f}) \<le> sum ?m B" "?m f \<le> sum ?m B"
      using B(1) f by (auto intro: sum_mono2 member_le_sum)
    then have "g \<le> sum ?m B" using r' [OF f] by (auto split: if_splits)
    then show ?thesis using True B(3) by simp
  next
    case False
    then have "c \<in> B" using c by simp
    have "insert a B - {c} = insert a (B - {c})" using False by auto
    then have "sum ?m (insert a B - {c}) = ?m a + sum ?m (B - {c})" using B by simp
    moreover have "?m c \<le> ?m a" using big \<open>c \<in> B\<close> same by simp
    ultimately show ?thesis using r' [OF \<open>c \<in> B\<close>] by (auto split: if_splits)
  qed
  then show ?thesis by (simp only: rw_reserve_def one if_False) blast
qed

lemma rw_new_size:
  assumes ok: "rw_class_ok k" and l: "e < 64" "0 < e" "unat largest = 2 ^ e" "unat largest \<le> rw_limit k"
  defines "ns \<equiv> if largest \<ge> rwc_MAX_BLOCK_SIZE k then largest else largest * 2"
  shows "\<exists>e' < 64. 0 < e' \<and> unat ns = 2 ^ e'" "unat largest \<le> unat ns" "unat ns \<le> rw_limit k"
proof -
  obtain m where m: "m < 63" "unat (rwc_MAX_BLOCK_SIZE k) = 2 ^ m" using ok by (auto simp: rw_class_ok_def)
  have "(\<exists>e' < 64. 0 < e' \<and> unat ns = 2 ^ e') \<and> unat largest \<le> unat ns \<and> unat ns \<le> rw_limit k"
  proof (cases "largest \<ge> rwc_MAX_BLOCK_SIZE k")
    case True
    then show ?thesis using l by (auto simp: ns_def)
  next
    case False
    then have "(2 :: nat) ^ e < 2 ^ m" using l m by (simp add: word_le_nat_alt)
    then have "e < m" by simp
    then have "(2 :: nat) ^ Suc e < 2 ^ 64" using m by (intro power_strict_increasing) auto
    then have "unat (largest * 2) = 2 ^ Suc e" using l by (simp add: unat_word_ariths)
    moreover have "(2 :: nat) ^ Suc e \<le> 2 * unat (rwc_MAX_BLOCK_SIZE k)" using \<open>e < m\<close> m(2) by simp
    moreover have "unat ns = unat (largest * 2)" using False by (simp add: ns_def)
    ultimately show ?thesis using l(3) \<open>e < m\<close> m(1)
      by (intro conjI exI [of _ "Suc e"]) (simp_all add: rw_limit_def)
  qed
  then show "\<exists>e' < 64. 0 < e' \<and> unat ns = 2 ^ e'" "unat largest \<le> unat ns" "unat ns \<le> rw_limit k" by blast+
qed

text \<open>Would \<open>malloc\<close> serve the request for the next block?\<close>

definition rw_can_grow :: "rw_class \<Rightarrow> 'a rw_queue \<Rightarrow> bool" where
  "rw_can_grow k q \<longleftrightarrow>
     rwc_malloc k (rw_allocated q) (rw_block_bytes k
       (if rw_largestBlockSize q \<ge> rwc_MAX_BLOCK_SIZE k then rw_largestBlockSize q else rw_largestBlockSize q * 2))"

lemma enqueue_new_ok:
  assumes ok: "rw_class_ok k" and s: "rw_shape g k q fs []" and full: "bk_full (rw_blk q (rw_tailBlock q))"
  shows "\<not> rw_can_grow k q \<Longrightarrow> enqueue_new k x (rw_tailBlock q) (rw_blk q (rw_tailBlock q)) q = Inr (False, q)"
    and "rw_can_grow k q \<Longrightarrow> (\<exists>q' a. enqueue_new k x (rw_tailBlock q) (rw_blk q (rw_tailBlock q)) q = Inr (True, q') \<and> rw_shape g k q' (fs @ [a]) [] \<and>
      rw_contents q' = rw_contents q @ [x] \<and> rw_enqueuing q' = rw_enqueuing q \<and> rw_dequeuing q' = rw_dequeuing q)"
proof -
  note d = rw_shapeD [OF s]
  let ?t = "rw_tailBlock q" and ?a = "rw_allocated q" and ?tb = "rw_blk q (rw_tailBlock q)"
  define ns where "ns = (if rw_largestBlockSize q \<ge> rwc_MAX_BLOCK_SIZE k then rw_largestBlockSize q else rw_largestBlockSize q * 2)"
  obtain e where "e < 64" "0 < e" "unat (rw_largestBlockSize q) = 2 ^ e" using d(13) by blast
  note sz = rw_new_size [OF ok this d(14), folded ns_def]
  obtain e' where e': "e' < 64" "0 < e'" "unat ns = 2 ^ e'" using sz(1) by blast
  have grow: "rw_can_grow k q \<longleftrightarrow> (rw_make_block k ?a ns :: 'a rw_block option) \<noteq> None"
    by (simp add: rw_can_grow_def rw_make_block_def ns_def [symmetric] Let_def)
  show "\<not> rw_can_grow k q \<Longrightarrow> enqueue_new k x ?t ?tb q = Inr (False, q)"
    using grow by (simp add: enqueue_new_def Let_def ns_def [symmetric])
  show "\<exists>q' a. enqueue_new k x ?t ?tb q = Inr (True, q') \<and> rw_shape g k q' (fs @ [a]) [] \<and>
      rw_contents q' = rw_contents q @ [x] \<and> rw_enqueuing q' = rw_enqueuing q \<and> rw_dequeuing q' = rw_dequeuing q"
    if can: "rw_can_grow k q"
  proof -
    obtain B :: "'a rw_block" where Some: "rw_make_block k ?a ns = Some B" using can grow by auto
    have B: "B = rw_Block ns (unat ns)" by (rule rw_make_block_ok [OF ok sz(3) Some])
    obtain b where b: "bk_construct x 0 B = Inr b" "bk_front b = 0" "bk_sizeMask b = ns - 1"
      "bk_inv (b\<lparr>bk_tail := 1, bk_localTail := 1, bk_next := bk_next ?tb\<rparr>)"
      "bk_list (b\<lparr>bk_tail := 1, bk_localTail := 1, bk_next := bk_next ?tb\<rparr>) = [x]"
      using bk_new [OF e'(3,2,1) B, of x "bk_next ?tb"] by blast
    let ?nb = "b\<lparr>bk_tail := 1, bk_localTail := 1, bk_next := bk_next ?tb\<rparr>"
    let ?q1 = "q\<lparr>rw_allocated := Suc ?a, rw_largestBlockSize := ns\<rparr>"
    let ?q = "(rw_put ?t (?tb\<lparr>bk_next := Some ?a\<rparr>) (rw_put ?a ?nb ?q1))\<lparr>rw_tailBlock := ?a\<rparr>"
    have q': "enqueue_new k x ?t ?tb q = Inr (True, ?q)"
      using Some b(1,2) by (simp add: enqueue_new_def Let_def ns_def [symmetric])
    have afs: "?a \<notin> set fs" using d(4) by auto
    have tfs: "?t \<in> set fs" using d(1,6) last_in_set by metis
    have at: "?a \<noteq> ?t" using afs tfs by auto
    have nn: "bk_n ?nb = unat ns" using b(3) rw_Block_ok(5) [OF e'(3,2,1) B] e' by (simp add: bk_n_def)
    have m: "unat (bk_sizeMask (rw_blk q c)) \<le> unat (bk_sizeMask ?nb)" if "c \<in> set fs" for c
      using d(9) [of c] that sz(2) nn by (simp add: bk_n_def)
    have small: "bk_n (rw_blk q c) \<le> unat ns" if "c \<in> set fs" for c using d(9) [of c] that sz(2) by simp
    have r: "rw_reserve g ?q (insert ?a (set fs))"
      using d(1,15) afs m at by (intro rw_reserve_insert [where q = q]) (auto simp: rw_blk_put)
    have old: "bk_next (rw_blk q c) = Some c'" if "(c, c') \<in> pairs fs" for c c'
      using that d(1) d(7) [of c c'] by (simp add: pairs_append)
    have "c \<noteq> ?t" if "(c, c') \<in> pairs fs" for c c' using that pairs_not_last [of fs] d(2,6) by auto
    moreover have "c \<noteq> ?a" if "(c, c') \<in> pairs fs" for c c' using that afs pairs_in by fastforce
    moreover have "bk_next ?tb = Some (hd fs)" using rw_tail_next [OF s] by simp
    moreover have ps: "pairs (fs @ ?a # [hd fs]) = insert (?t, ?a) (insert (?a, hd fs) (pairs fs))"
      using d(1,6) by (simp add: pairs_append)
    ultimately have link: "bk_next (rw_blk ?q c) = Some c'" if "(c, c') \<in> pairs (fs @ [?a] @ [hd fs])" for c c'
      using that old at by (auto simp: rw_blk_put)
    have ft: "\<And>c. c \<in> set (tl fs) \<Longrightarrow> bk_full (rw_blk q c)" by (rule rw_full_tl [OF s full])
    have tls: "c \<in> set fs" if "c \<in> set (tl fs)" for c using that d(1) by (auto dest: list.set_sel(2))
    have "butlast (tl (fs @ [?a])) = tl fs" using d(1) by (cases fs) auto
    then have s': "rw_shape g k ?q (fs @ [?a]) []"
      unfolding rw_shape_def
      using d(1-6,8,11) b(4,5) nn sz(3) e' afs tfs at r link ft tls small
      by (auto simp: rw_blk_put)
    have "rw_contents ?q = rw_contents q @ [x]"
      unfolding rw_contents_shape [OF s'] rw_contents_shape [OF s]
      using afs b(5) at by (auto simp: rw_blk_put intro!: arg_cong [where f = concat] map_cong)
    then show ?thesis using q' s' by auto
  qed
qed

subsection \<open>The whole of \<open>inner_enqueue\<close>\<close>

definition rw_room :: "'a rw_queue \<Rightarrow> bool" where
  "rw_room q \<longleftrightarrow> \<not> bk_full (rw_blk q (rw_tailBlock q)) \<or> bk_next (rw_blk q (rw_tailBlock q)) \<noteq> Some (rw_frontBlock q)"

lemma rw_deref_shape:
  "rw_shape g k q fs es \<Longrightarrow> a \<in> set (fs @ es) \<Longrightarrow> rw_deref q (Some a) f = f a (rw_blk q a)"
  using rw_shape_heap [of g k q fs es a] by (simp add: rw_deref_def)

lemma rw_enqueue_body_ok:
  assumes ok: "rw_class_ok k" and s: "rw_shape g k q fs es"
  shows "\<exists>q' fs' es'. rw_enqueue_body k c x q = Inr (rw_room q \<or> c \<and> rw_can_grow k q, q') \<and> rw_shape g k q' fs' es' \<and>
    rw_contents q' = rw_contents q @ (if rw_room q \<or> c \<and> rw_can_grow k q then [x] else []) \<and>
    rw_enqueuing q' = rw_enqueuing q \<and> rw_dequeuing q' = rw_dequeuing q"
proof -
  note d = rw_shapeD [OF s]
  let ?t = "rw_tailBlock q" and ?tb = "rw_blk q (rw_tailBlock q)" and ?nx = "(bk_tail (rw_blk q (rw_tailBlock q)) + 1) AND bk_sizeMask (rw_blk q (rw_tailBlock q))"
  have t: "?t \<in> set (fs @ es)" using d(1,6) last_in_set by fastforce
  have inv: "bk_inv ?tb" using d(8) t .
  note deref = rw_deref_shape [OF s t]
  let ?tb1 = "?tb\<lparr>bk_localFront := bk_front ?tb\<rparr>" and ?q1 = "rw_put ?t (?tb\<lparr>bk_localFront := bk_front ?tb\<rparr>) q"
  have s1: "rw_shape g k ?q1 fs es" "rw_contents ?q1 = rw_contents q" using rw_refresh [OF s t] by auto
  have b1: "rw_blk ?q1 (rw_tailBlock ?q1) = ?tb1" "rw_tailBlock ?q1 = ?t" by (simp_all add: rw_blk_put)
  consider (cached) "?nx \<noteq> bk_localFront ?tb" | (fresh) "?nx = bk_localFront ?tb" "?nx \<noteq> bk_front ?tb"
    | (full) "?nx = bk_localFront ?tb" "?nx = bk_front ?tb" by blast
  then show ?thesis
  proof cases
    case cached
    then have nf: "\<not> bk_full ?tb" using bk_full_cached [OF inv] by auto
    from enqueue_here_ok [OF s nf cached, of x] cached nf show ?thesis
      by (auto simp: rw_enqueue_body_def deref Let_def rw_room_def)
  next
    case fresh
    then have nf: "\<not> bk_full ?tb" using bk_full_iff [OF inv] by auto
    from enqueue_here_ok [OF s1(1), of x] fresh nf s1(2) b1 show ?thesis
      by (auto simp: rw_enqueue_body_def deref Let_def rw_room_def)
  next
    case full
    then have f: "bk_full ?tb" using bk_full_iff [OF inv] by auto
    then have f1: "bk_full (rw_blk ?q1 (rw_tailBlock ?q1))" using b1 by simp
    show ?thesis
    proof (cases es)
      case Nil
      then have nx: "bk_next ?tb = Some (rw_frontBlock q)" using rw_next_is_front [OF s] by simp
      have g: "rw_can_grow k ?q1 = rw_can_grow k q" by (simp add: rw_can_grow_def)
      have nr: "\<not> rw_room q" using f nx by (simp add: rw_room_def)
      from s1 Nil have s1': "rw_shape g k ?q1 fs []" by simp
      show ?thesis
        using enqueue_new_ok [OF ok s1' f1, of x] full nx nr s1 b1 g Nil
        by (cases "c \<and> rw_can_grow k q") (auto simp: rw_enqueue_body_def deref Let_def)
    next
      case (Cons n es')
      have nx: "bk_next ?tb = Some n" using rw_tail_next [OF s] Cons by simp
      have nf: "bk_next ?tb \<noteq> Some (rw_frontBlock q)" using rw_next_is_front [OF s] Cons by simp
      have s1': "rw_shape g k ?q1 fs (n # es')" using s1(1) Cons by simp
      have n: "rw_deref ?q1 (Some n) h = h n (rw_blk ?q1 n)" for h :: "nat \<Rightarrow> 'a rw_block \<Rightarrow> (bool \<times> 'a rw_queue) result"
        by (rule rw_deref_shape [OF s1']) simp
      from enqueue_next_ok [OF s1' f1, of x] show ?thesis
        using full nx nf s1(2) n by (auto simp: rw_enqueue_body_def deref Let_def rw_room_def)
    qed
  qed
qed

lemma rw_inner_enqueue_ok:
  assumes ok: "rw_class_ok k" and inv: "rw_inv g k q"
  shows "\<exists>q'. rw_inner_enqueue k c x q = Inr (rw_room q \<or> c \<and> rw_can_grow k q, q') \<and> rw_inv g k q' \<and>
    rw_contents q' = rw_contents q @ (if rw_room q \<or> c \<and> rw_can_grow k q then [x] else [])"
proof -
  obtain fs es where s: "rw_shape g k q fs es" and fl: "\<not> rw_enqueuing q" "\<not> rw_dequeuing q" using inv by (auto simp: rw_inv_def)
  let ?q = "q\<lparr>rw_enqueuing := True\<rparr>"
  have "rw_shape g k ?q fs es" using s by simp
  from rw_enqueue_body_ok [OF ok this, of c x] obtain q' fs' es' where q':
    "rw_enqueue_body k c x ?q = Inr (rw_room q \<or> c \<and> rw_can_grow k q, q')" "rw_shape g k q' fs' es'"
    "rw_contents q' = rw_contents q @ (if rw_room q \<or> c \<and> rw_can_grow k q then [x] else [])" "\<not> rw_dequeuing q'"
    using fl by (auto simp: rw_room_def rw_can_grow_def)
  have "rw_inner_enqueue k c x q = Inr (rw_room q \<or> c \<and> rw_can_grow k q, q'\<lparr>rw_enqueuing := False\<rparr>)"
    using q'(1) fl(1) by (simp add: rw_inner_enqueue_def enqueue_guard_def)
  moreover have "rw_inv g k (q'\<lparr>rw_enqueuing := False\<rparr>)" using q'(2,4) by (auto simp: rw_inv_def)
  ultimately show ?thesis using q'(3) by auto
qed

subsection \<open>The consumer\<close>

lemma rw_contents_Cons: "rw_shape g k q (f # fs) es \<Longrightarrow> rw_contents q = bk_list (rw_blk q f) @ concat (map (\<lambda>a. bk_list (rw_blk q a)) fs)"
  by (simp add: rw_contents_shape)

fun rw_found :: "'a rw_queue \<Rightarrow> nat list \<Rightarrow> rw_place \<Rightarrow> bool" where
  "rw_found q fs FrontBlock \<longleftrightarrow> bk_front (rw_blk q (hd fs)) \<noteq> bk_localTail (rw_blk q (hd fs))"
| "rw_found q fs (NextBlock n) \<longleftrightarrow> bk_list (rw_blk q (hd fs)) = [] \<and> (\<exists>fs'. tl fs = n # fs')"
| "rw_found q fs NoElement \<longleftrightarrow> rw_contents q = []"

lemma rw_find_ok:
  assumes s: "rw_shape g k q (f # fs) es"
  shows "\<exists>place q'. rw_find q = Inr (place, q') \<and> rw_shape g k q' (f # fs) es \<and> rw_contents q' = rw_contents q \<and>
    rw_enqueuing q' = rw_enqueuing q \<and> rw_dequeuing q' = rw_dequeuing q \<and> rw_found q' (f # fs) place"
proof -
  note d = rw_shapeD [OF s]
  have f: "f \<in> set ((f # fs) @ es)" "rw_frontBlock q = f" using d(5) by simp_all
  let ?fb = "rw_blk q f" and ?fb1 = "(rw_blk q f)\<lparr>bk_localTail := bk_tail (rw_blk q f)\<rparr>"
  let ?q1 = "rw_put f ?fb1 q"
  have inv: "bk_inv ?fb" using d(8) by simp
  have s1: "rw_shape g k ?q1 (f # fs) es" "rw_contents ?q1 = rw_contents q" using rw_refresh [OF s f(1)] by auto
  note deref = rw_deref_shape [OF s f(1)] and deref1 = rw_deref_shape [OF s1(1) f(1)]
  have same: "rw_put f (?fb1\<lparr>bk_localTail := bk_tail ?fb1\<rparr>) ?q1 = ?q1" "rw_put f ?fb1 ?q1 = ?q1" by (simp_all add: rw_put_def)
  have tail: "f = rw_tailBlock q \<longleftrightarrow> fs = []" using d(2,6) last_in_set [of fs] by (cases "fs = []") auto
  consider (cached) "bk_front ?fb \<noteq> bk_localTail ?fb" | (fresh) "bk_front ?fb = bk_localTail ?fb" "bk_front ?fb \<noteq> bk_tail ?fb"
    | (empty) "bk_front ?fb = bk_localTail ?fb" "bk_front ?fb = bk_tail ?fb" "fs = []"
    | (more) n fs' where "bk_front ?fb = bk_localTail ?fb" "bk_front ?fb = bk_tail ?fb" "fs = n # fs'"
    by (cases fs) (blast, blast)
  then show ?thesis
  proof cases
    case cached
    with s show ?thesis by (auto simp: rw_find_def f deref)
  next
    case fresh
    with s1 show ?thesis by (auto simp: rw_find_def f deref Let_def rw_blk_put)
  next
    case empty
    then have "rw_contents q = []" using rw_contents_Cons [OF s] bk_list_Nil_iff [OF inv] by simp
    moreover have "rw_tailBlock q = f" using tail empty by simp
    then have "rw_find q = Inr (NoElement, ?q1)" unfolding rw_find_def f(2) deref by (simp add: Let_def empty(1,2) [symmetric])
    ultimately show ?thesis using s1 by auto
  next
    case more
    then have e: "bk_list ?fb = []" using bk_list_Nil_iff [OF inv] by simp
    define fb1 where "fb1 = ?fb1"
    define q1 where "q1 = rw_put f fb1 q"
    have fb1: "bk_front fb1 = bk_tail fb1" "bk_localTail fb1 = bk_tail fb1" "bk_next fb1 = Some n" "bk_list fb1 = []"
      using d(7) [of f n] more e by (simp_all add: fb1_def)
    have q1: "rw_put f (fb1\<lparr>bk_localTail := bk_tail fb1\<rparr>) q1 = q1" "rw_frontBlock q1 = f" "rw_tailBlock q1 \<noteq> f" "rw_blk q1 f = fb1"
      using f tail more by (simp_all add: q1_def fb1_def rw_put_def rw_blk_def)
    have s1': "rw_shape g k q1 (f # fs) es" using s1(1) by (simp add: q1_def fb1_def)
    have dr: "rw_deref q1 (Some f) h = h f fb1" "rw_deref q1 (Some n) h = h n (rw_blk q1 n)" for h :: "nat \<Rightarrow> 'a rw_block \<Rightarrow> (rw_place \<times> 'a rw_queue) result"
      using rw_deref_shape [OF s1', of f] rw_deref_shape [OF s1', of n] more q1(4) by auto
    have "rw_find q = Inr (NextBlock n, q1)"
      unfolding rw_find_def f(2) deref using more(1)
      by (simp add: Let_def fb1_def [symmetric] q1_def [symmetric] fb1 q1 q1(3) [symmetric] dr)
    then show ?thesis
      using more s1 fb1(4) by (auto simp: q1_def fb1_def rw_blk_put)
  qed
qed

lemma dequeue_front_ok:
  assumes s: "rw_shape g k q (f # fs) es" and ne: "bk_front (rw_blk q f) \<noteq> bk_localTail (rw_blk q f)"
  shows "\<exists>q' x. dequeue_front q = Inr (x, q') \<and> rw_shape g k q' (f # fs) es \<and> rw_contents q = x # rw_contents q' \<and>
    rw_enqueuing q' = rw_enqueuing q \<and> rw_dequeuing q' = rw_dequeuing q"
proof -
  note d = rw_shapeD [OF s]
  have f: "f \<in> set ((f # fs) @ es)" "rw_frontBlock q = f" using d(5) by simp_all
  let ?fb = "rw_blk q f"
  have inv: "bk_inv ?fb" using d(8) by simp
  then have ft: "bk_front ?fb \<noteq> bk_tail ?fb" using ne bk_empty_cached by force
  have l: "bk_list ?fb \<noteq> []" "bk_list (bk_drop ?fb) = tl (bk_list ?fb)"
    using bk_list_Nil_iff [OF inv] ft bk_drop_list [OF inv ft] by simp_all
  have fnot: "f \<notin> set fs" "f \<notin> set es" using d(2) by auto
  then have s': "rw_shape g k (rw_put f (bk_drop ?fb) q) (f # fs) es"
    using bk_drop_inv [OF inv ne] by (intro rw_shape_put [OF s f(1)]) (auto dest: in_set_butlastD)
  have rest: "map (\<lambda>a. bk_list (rw_blk (rw_put f (bk_drop ?fb) q) a)) fs = map (\<lambda>a. bk_list (rw_blk q a)) fs"
    using fnot by (auto simp: rw_blk_put)
  have "rw_contents q = hd (bk_list ?fb) # rw_contents (rw_put f (bk_drop ?fb) q)"
    unfolding rw_contents_Cons [OF s] rw_contents_Cons [OF s'] rest using l by (simp add: rw_blk_put)
  with s' show ?thesis
    by (auto simp: dequeue_front_def f rw_deref_shape [OF s f(1)] bk_element_front [OF inv ft] bk_drop_def)
qed

lemma dequeue_advance_ok:
  assumes s: "rw_shape g k q (f # n # fs) es" and e: "bk_list (rw_blk q f) = []"
  shows "\<exists>q'. dequeue_advance n q = Inr q' \<and> rw_shape g k q' (n # fs) (es @ [f]) \<and> rw_contents q' = rw_contents q \<and>
    bk_front (rw_blk q' n) \<noteq> bk_localTail (rw_blk q' n) \<and> rw_enqueuing q' = rw_enqueuing q \<and> rw_dequeuing q' = rw_dequeuing q"
proof -
  note d = rw_shapeD [OF s]
  have n: "n \<in> set ((f # n # fs) @ es)" by simp
  let ?nb = "rw_blk q n" and ?nb1 = "(rw_blk q n)\<lparr>bk_localTail := bk_tail (rw_blk q n)\<rparr>"
  let ?q1 = "rw_put n ?nb1 q"
  have s1: "rw_shape g k ?q1 (f # n # fs) es" "rw_contents ?q1 = rw_contents q" using rw_refresh [OF s n] by auto
  note d1 = rw_shapeD [OF s1(1)]
  have inv: "bk_inv ?nb" using d(8) by simp
  have ne: "bk_front ?nb \<noteq> bk_tail ?nb" using d(11) [of n] bk_list_Nil_iff [OF inv] by simp
  let ?q = "?q1\<lparr>rw_frontBlock := n\<rparr>"
  have adv: "dequeue_advance n q = Inr ?q" using ne by (simp add: dequeue_advance_def rw_deref_shape [OF s n] Let_def)
  have set: "set ((n # fs) @ es @ [f]) = set ((f # n # fs) @ es)" by auto
  have pairs: "pairs ((n # fs) @ (es @ [f]) @ [n]) = pairs ((f # n # fs) @ es @ [hd (f # n # fs)])"
    using pairs_snoc [of "n # fs @ es @ [f]" n] by auto
  have ef: "bk_list (rw_blk ?q1 f) = []" using e d(2) by (simp add: rw_blk_put)
  have res: "rw_reserve g ?q B = rw_reserve g ?q1 B" for B by (rule rw_reserve_cong) simp
  have full: "\<And>a. a \<in> set (butlast fs) \<Longrightarrow> bk_full (rw_blk ?q1 a)" using d1(12) by (cases "fs = []") auto
  have "rw_shape g k ?q (n # fs) (es @ [f])"
    unfolding rw_shape_def set list.sel pairs res rw_blk_upd
    using d1(1-6,8-11,13-15) d1(7) ef full by (auto split: if_splits)
  moreover from this have "rw_contents ?q = rw_contents q"
    unfolding s1(2) [symmetric] by (simp add: rw_contents_shape [OF s1(1)] rw_contents_shape ef)
  ultimately show ?thesis using adv ne by (simp add: rw_blk_put)
qed

lemma rw_invE:
  assumes "rw_inv g k q"
  obtains f fs es where "rw_shape g k q (f # fs) es" "\<not> rw_enqueuing q" "\<not> rw_dequeuing q"
proof -
  from assms obtain fs es where s: "rw_shape g k q fs es" and fl: "\<not> rw_enqueuing q" "\<not> rw_dequeuing q" by (auto simp: rw_inv_def)
  then obtain f fs' where "fs = f # fs'" using rw_shapeD(1) by (metis list.exhaust)
  with s fl that show thesis by blast
qed

lemma rw_inv_shape: "rw_shape g k q fs es \<Longrightarrow> \<not> rw_enqueuing q \<Longrightarrow> rw_inv g k (q\<lparr>rw_dequeuing := False\<rparr>)"
  by (auto simp: rw_inv_def)

lemma rw_find_inv:
  assumes inv: "rw_inv g k q"
  obtains f fs es place q' where "\<not> rw_dequeuing q" "rw_find (q\<lparr>rw_dequeuing := True\<rparr>) = Inr (place, q')" "rw_shape g k q' (f # fs) es"
    "rw_contents q' = rw_contents q" "\<not> rw_enqueuing q'" "rw_found q' (f # fs) place"
proof -
  obtain f fs es where s: "rw_shape g k q (f # fs) es" and fl: "\<not> rw_enqueuing q" "\<not> rw_dequeuing q" using inv by (rule rw_invE)
  have "rw_shape g k (q\<lparr>rw_dequeuing := True\<rparr>) (f # fs) es" using s by simp
  from rw_find_ok [OF this] fl that show thesis by auto
qed

lemma rw_try_dequeue_ok:
  assumes inv: "rw_inv g k q"
  shows "\<exists>r q'. rw_try_dequeue q = Inr (r, q') \<and> rw_inv g k q' \<and> (r = None \<longleftrightarrow> rw_contents q = []) \<and>
    rw_contents q = (case r of None \<Rightarrow> [] | Some x \<Rightarrow> [x]) @ rw_contents q'"
proof -
  obtain f fs es place q1 where fl: "\<not> rw_dequeuing q" and f: "rw_find (q\<lparr>rw_dequeuing := True\<rparr>) = Inr (place, q1)" "rw_shape g k q1 (f # fs) es"
    "rw_contents q1 = rw_contents q" "\<not> rw_enqueuing q1" and place: "rw_found q1 (f # fs) place" using inv by (rule rw_find_inv)
  show ?thesis
  proof (cases place)
    case FrontBlock
    with dequeue_front_ok [OF f(2)] place obtain x q2 where "dequeue_front q1 = Inr (x, q2)" "rw_shape g k q2 (f # fs) es"
      "rw_contents q1 = x # rw_contents q2" "\<not> rw_enqueuing q2" using f(4) by auto
    with FrontBlock f fl show ?thesis by (auto simp: rw_try_dequeue_def dequeue_guard_def intro: rw_inv_shape)
  next
    case (NextBlock n)
    with place obtain fs' where n: "fs = n # fs'" "bk_list (rw_blk q1 f) = []" by auto
    from dequeue_advance_ok [of g k q1 f n fs' es] n f obtain q2 where q2: "dequeue_advance n q1 = Inr q2" "rw_shape g k q2 (n # fs') (es @ [f])"
      "rw_contents q2 = rw_contents q1" "bk_front (rw_blk q2 n) \<noteq> bk_localTail (rw_blk q2 n)" "\<not> rw_enqueuing q2" by auto
    with dequeue_front_ok [OF q2(2)] obtain x q3 where "dequeue_front q2 = Inr (x, q3)" "rw_shape g k q3 (n # fs') (es @ [f])"
      "rw_contents q2 = x # rw_contents q3" "\<not> rw_enqueuing q3" by auto
    with NextBlock q2 f fl show ?thesis by (auto simp: rw_try_dequeue_def dequeue_guard_def intro: rw_inv_shape)
  next
    case NoElement
    with place f fl show ?thesis by (auto simp: rw_try_dequeue_def dequeue_guard_def intro: rw_inv_shape)
  qed
qed

lemma rw_pop_try_dequeue: "rw_pop q = map_sum id (\<lambda>(r, q'). (r \<noteq> None, q')) (rw_try_dequeue q)"
  by (auto simp: rw_pop_def rw_try_dequeue_def dequeue_guard_def split: sum.splits prod.splits rw_place.splits)
    (auto simp: map_sum_def split: sum.splits)

lemma rw_peek_ok:
  assumes inv: "rw_inv g k q"
  shows "\<exists>r q'. rw_peek q = Inr (r, q') \<and> rw_inv g k q' \<and> rw_contents q' = rw_contents q \<and>
    (case r of None \<Rightarrow> rw_contents q = []
     | Some (a, i) \<Rightarrow> rw_contents q \<noteq> [] \<and> rw_deref q' (Some a) (\<lambda>_. bk_element i) = Inr (hd (rw_contents q)))"
proof -
  obtain f fs es place q1 where fl: "\<not> rw_dequeuing q" and f: "rw_find (q\<lparr>rw_dequeuing := True\<rparr>) = Inr (place, q1)" "rw_shape g k q1 (f # fs) es"
    "rw_contents q1 = rw_contents q" "\<not> rw_enqueuing q1" and place: "rw_found q1 (f # fs) place" using inv by (rule rw_find_inv)
  note d = rw_shapeD [OF f(2)]
  let ?q2 = "q1\<lparr>rw_dequeuing := False\<rparr>"
  have s2: "rw_shape g k ?q2 (f # fs) es" using f(2) by simp
  have el: "rw_deref ?q2 (Some a) (\<lambda>_. bk_element (bk_front (rw_blk q1 a))) = Inr (hd (bk_list (rw_blk q1 a)))" "bk_list (rw_blk q1 a) \<noteq> []"
    if a: "a \<in> set ((f # fs) @ es)" "bk_front (rw_blk q1 a) \<noteq> bk_tail (rw_blk q1 a)" for a
    using bk_element_front [OF d(8) [OF a(1)] a(2)] bk_list_Nil_iff [OF d(8) [OF a(1)]] a(2)
    by (simp_all add: rw_deref_shape [OF s2 a(1)])
  show ?thesis
  proof (cases place)
    case FrontBlock
    then have "bk_front (rw_blk q1 f) \<noteq> bk_tail (rw_blk q1 f)" using place bk_empty_cached [OF d(8), of f] by force
    from el [OF _ this] have "rw_deref ?q2 (Some f) (\<lambda>_. bk_element (bk_front (rw_blk q1 f))) = Inr (hd (rw_contents q))" "rw_contents q \<noteq> []"
      using rw_contents_Cons [OF f(2)] f(3) by auto
    with FrontBlock f fl d(5) show ?thesis
      by (auto simp: rw_peek_def dequeue_guard_def rw_deref_shape [OF f(2)] intro: rw_inv_shape)
  next
    case (NextBlock n)
    with place obtain fs' where n: "fs = n # fs'" "bk_list (rw_blk q1 f) = []" by auto
    have ne: "bk_front (rw_blk q1 n) \<noteq> bk_tail (rw_blk q1 n)" using d(11) [of n] bk_list_Nil_iff [OF d(8), of n] n by simp
    from el [OF _ ne] have "rw_deref ?q2 (Some n) (\<lambda>_. bk_element (bk_front (rw_blk q1 n))) = Inr (hd (rw_contents q))" "rw_contents q \<noteq> []"
      using rw_contents_Cons [OF f(2)] f(3) n by auto
    with NextBlock f fl ne n show ?thesis
      by (auto simp: rw_peek_def dequeue_guard_def rw_deref_shape [OF f(2), of n] intro: rw_inv_shape)
  next
    case NoElement
    with place f fl show ?thesis by (auto simp: rw_peek_def dequeue_guard_def intro: rw_inv_shape)
  qed
qed

end
