(* ===== verification/RWQ_Spec.thy ===== *)
theory RWQ_Spec
  imports ReaderWriterQueue
begin

text \<open>
  What \<open>ReaderWriterQueue\<close> promises its users: the constructor reserves the room asked for and establishes
  the invariant, every sequence of operations is first in, first out, the walks over the blocks end and
  count right, the destructor destroys exactly what is inside, and moving keeps the contents.
\<close>

section \<open>The constructor\<close>

text \<open>The state of the constructor's loop after \<open>n\<close> blocks of size \<open>L\<close>.\<close>

definition rw_built :: "size_t \<Rightarrow> nat \<Rightarrow> 'a rw_queue \<Rightarrow> bool" where
  "rw_built L n q \<longleftrightarrow> rw_allocated q = n \<and> rw_largestBlockSize q = L \<and> \<not> rw_enqueuing q \<and> \<not> rw_dequeuing q \<and>
     rw_heap q = (\<lambda>a. if a < n then Some ((rw_Block L (unat L))\<lparr>bk_next := Some (if Suc a = n then 0 else Suc a)\<rparr>) else None)"

lemma rw_ctor_loop_more:
  assumes ok: "rw_class_ok k" and L: "unat L \<le> rw_limit k"
  shows "rw_built L (Suc n) q \<Longrightarrow> rw_ctor_loop k i (Some 0) (Some n) q = Inl BadAlloc \<or>
    (\<exists>q'. rw_ctor_loop k i (Some 0) (Some n) q = Inr (Some 0, q') \<and> rw_built L (Suc n + i) q')"
proof (induction i arbitrary: n q)
  case 0
  then show ?case by simp
next
  case (Suc i)
  note b = Suc.prems [unfolded rw_built_def]
  show ?case
  proof (cases "rw_make_block k (rw_allocated q) (rw_largestBlockSize q) :: 'a rw_block option")
    case None
    then show ?thesis by simp
  next
    case (Some B)
    have B: "B = rw_Block L (unat L)" using rw_make_block_ok [OF ok _ Some] b L by simp
    let ?q = "rw_put (Suc n) (B\<lparr>bk_next := Some 0\<rparr>) (rw_put n ((rw_Block L (unat L))\<lparr>bk_next := Some (Suc n)\<rparr>) (rw_put (Suc n) B (q\<lparr>rw_allocated := Suc (Suc n)\<rparr>)))"
    have "rw_built L (Suc (Suc n)) ?q" using b B by (auto simp: rw_built_def fun_eq_iff)
    from Suc.IH [OF this] show ?thesis using b Some by (auto simp: rw_deref_def Let_def)
  qed
qed

lemma rw_ctor_loop_ok:
  assumes ok: "rw_class_ok k" and L: "unat L \<le> rw_limit k"
  shows "rw_ctor_loop k (Suc i) None None (rw_fresh L :: 'a rw_queue) = Inl BadAlloc \<or>
    (\<exists>q'. rw_ctor_loop k (Suc i) None None (rw_fresh L :: 'a rw_queue) = Inr (Some 0, q') \<and> rw_built L (Suc i) q')"
proof (cases "rw_make_block k 0 L :: 'a rw_block option")
  case None
  then show ?thesis by (simp add: rw_fresh_def)
next
  case (Some B)
  have B: "B = rw_Block L (unat L)" by (rule rw_make_block_ok [OF ok L Some])
  let ?q = "rw_put 0 (B\<lparr>bk_next := Some 0\<rparr>) (rw_put 0 B ((rw_fresh L)\<lparr>rw_allocated := Suc 0\<rparr>))"
  have "rw_built L (Suc 0) ?q" using B by (auto simp: rw_built_def rw_fresh_def fun_eq_iff)
  from rw_ctor_loop_more [OF ok L this, of i] show ?thesis
    using Some by (simp add: rw_fresh_def Let_def)
qed

lemma pairs_upt: "pairs [m..<n] = {(a, Suc a) | a. m \<le> a \<and> Suc a < n}"
proof (induction n)
  case (Suc n)
  show ?case
  proof (cases "m < n")
    case True
    then have "pairs [m..<Suc n] = insert (n - 1, n) (pairs [m..<n])" by simp
    also have "\<dots> = {(a, Suc a) | a. m \<le> a \<and> Suc a < Suc n}" using Suc True by (auto simp: less_Suc_eq)
    finally show ?thesis .
  next
    case False
    then show ?thesis by (cases "m = n") auto
  qed
qed simp

lemma rw_built_shape:
  fixes q :: "'a rw_queue"
  assumes b: "rw_built L n q" and n: "0 < n" and L: "unat L = 2 ^ e" "0 < e" "e < 64" "unat L \<le> rw_limit k"
    and g: "if n = 1 then g \<le> unat (L - 1) else g \<le> (n - 1) * unat (L - 1)"
  shows "rw_shape g k (q\<lparr>rw_frontBlock := 0, rw_tailBlock := 0\<rparr>) [0] [1..<n]"
proof -
  let ?q = "q\<lparr>rw_frontBlock := 0, rw_tailBlock := 0\<rparr>"
  note b' = b [unfolded rw_built_def]
  have ul: "[0] @ [1..<n] = [0..<n]" using n by (simp add: upt_conv_Cons)
  then have set: "set ([0] @ [1..<n]) = {..<n}" by (simp add: lessThan_atLeast0)
  have blk: "rw_blk q a = (rw_Block L (unat L))\<lparr>bk_next := Some (if Suc a = n then 0 else Suc a)\<rparr>" if "a < n" for a
    using b' that by (simp add: rw_blk_def)
  note B = rw_Block_ok [OF L(1,2,3), of "rw_Block L (unat L) :: 'a rw_block", OF refl]
  have dom: "dom (rw_heap ?q) = {..<n}" using b' by (auto simp: dom_def split: if_splits)
  have inv: "\<forall>a \<in> {..<n}. bk_inv (rw_blk ?q a) \<and> bk_n (rw_blk ?q a) \<le> unat (rw_largestBlockSize ?q)"
    using B b' blk by simp
  have m: "unat (bk_sizeMask (rw_blk ?q a)) = unat (L - 1)" if "a < n" for a
    using blk [OF that] by (simp add: rw_Block_def)
  have one: "{..<n} = {a} \<longleftrightarrow> n = 1" if "a < n" for a
  proof
    assume "{..<n} = {a}" then have "card {..<n} = card {a}" by simp
    then show "n = 1" by simp
  qed (use that in auto)
  have "(\<Sum>b \<in> {..<n} - {a}. unat (bk_sizeMask (rw_blk ?q b))) = (n - 1) * unat (L - 1)" if "a < n" for a
    using m that by (subst sum.cong [OF refl, of _ _ "\<lambda>_. unat (L - 1)"]) auto
  then have res: "rw_reserve g ?q {..<n}" using g m one by (auto simp: rw_reserve_def)
  have link: "bk_next (rw_blk ?q a) = Some c" if "(a, c) \<in> pairs ([0] @ [1..<n] @ [hd [0]])" for a c
  proof -
    have "pairs ([0] @ [1..<n] @ [hd [0]]) = insert (n - 1, 0) (pairs [0..<n])"
      using n ul pairs_snoc [of "[0..<n]" 0] by (simp add: append_assoc [symmetric] del: append_assoc)
    then show ?thesis using that n by (auto simp: pairs_upt blk)
  qed
  have "bk_list (rw_blk ?q a) = []" if "a \<in> set [1..<n]" for a using blk [of a] B(2) that by simp
  then show ?thesis
    unfolding rw_shape_def set
    using ul dom b' inv res L link by (auto simp: set [symmetric] simp del: set_upt)
qed

text \<open>How many blocks of which size the constructor builds, and that they reserve the room asked for.\<close>

lemma ceil_div: "0 < d \<Longrightarrow> s \<le> (s + d - 1) div d * (d :: nat)"
  using div_mult_mod_eq [of "s + d - 1" d] mod_less_divisor [of d "s + d - 1"] by linarith

lemma rw_ctor_count:
  fixes sz M :: size_t
  assumes M: "unat M = 2 ^ m" "0 < m" "m < 62" and s: "unat sz < 2 ^ 63" "0 < unat sz"
  defines "count \<equiv> (sz + M * 2 - 3) div (M - 1)"
  shows "2 \<le> unat count" "unat sz \<le> (unat count - 1) * unat (M - 1)"
proof -
  have m2: "2 \<le> (2 :: nat) ^ m" "(2 :: nat) ^ m \<le> 2 ^ 61" using M(2,3) power_increasing [of m 61 "2 :: nat"] self_le_power [of "2 :: nat" m] by simp_all
  let ?d = "2 ^ m - 1 :: nat"
  have d: "0 < ?d" "unat (M - 1) = ?d" using m2 M(1) unat_sub [of 1 M] by (auto simp: word_le_nat_alt)
  have M2: "unat (M * 2) = 2 * 2 ^ m" using M(1) m2 by (simp add: unat_word_ariths)
  have sum: "unat (sz + M * 2) = unat sz + 2 * 2 ^ m" using s m2 M2 by (subst unat_add_less) simp_all
  have "unat (sz + M * 2 - 3) = unat sz + 2 * 2 ^ m - 3"
    using sum m2 s unat_sub [of 3 "sz + M * 2"] by (simp add: word_le_nat_alt)
  also have "\<dots> = (unat sz + ?d - 1) + ?d" using m2 by simp
  finally have "unat count = ((unat sz + ?d - 1) + ?d) div ?d" using d by (simp add: count_def unat_div_distrib)
  then have c: "unat count = Suc ((unat sz + ?d - 1) div ?d)" using d(1) by (subst (asm) div_add_self2) simp_all
  have "1 \<le> (unat sz + ?d - 1) div ?d" using d(1) s(2) by (simp add: div_greater_zero_iff Suc_leI)
  then show "2 \<le> unat count" using c by simp
  show "unat sz \<le> (unat count - 1) * unat (M - 1)" using ceil_div [OF d(1), of "unat sz"] c d(2) by simp
qed

lemma rw_max_block:
  assumes "rw_class_ok k"
  shows "ceilToPow2 (rwc_MAX_BLOCK_SIZE k) = rwc_MAX_BLOCK_SIZE k" "2 \<le> rwc_MAX_BLOCK_SIZE k"
    "\<not> 1 > rwc_MAX_BLOCK_SIZE k * 2" "\<not> 1 \<ge> rwc_MAX_BLOCK_SIZE k"
proof -
  let ?M = "rwc_MAX_BLOCK_SIZE k"
  obtain m where m: "m < 63" "0 < m" "unat ?M = 2 ^ m" using assms by (auto simp: rw_class_ok_def)
  have m63: "(2 :: nat) ^ m \<le> 2 ^ 62" using m(1) by (intro power_increasing) auto
  have "least_pow2 (unat ?M) (unat (ceilToPow2 ?M))" using m m63 by (intro ceilToPow2) simp_all
  moreover have "least_pow2 (unat ?M) (unat ?M)" by (auto simp: least_pow2_def m(3) intro!: exI [of _ m])
  ultimately show "ceilToPow2 ?M = ?M" using least_pow2_unique unat_inject by metis
  show M2: "2 \<le> ?M" using m by (cases m) (auto simp: word_le_nat_alt)
  then have "2 \<le> unat ?M" by (simp add: word_le_nat_alt)
  then show "\<not> 1 \<ge> ?M" by (simp only: word_le_nat_alt) simp
  have "unat (?M * 2) = 2 ^ Suc m" using m(3) m63 by (simp add: unat_word_ariths)
  then show "\<not> 1 > ?M * 2" by (simp only: word_less_nat_alt) simp
qed

lemma rw_ctor_ok:
  assumes ok: "rw_class_ok k" and s: "0 < unat sz" "unat sz < 2 ^ 63"
  shows "(rw_ctor k sz :: 'a rw_queue result) = Inl BadAlloc \<or>
    (\<exists>q. (rw_ctor k sz :: 'a rw_queue result) = Inr q \<and> rw_inv (unat sz) k q \<and> rw_contents q = [])"
proof -
  let ?M = "rwc_MAX_BLOCK_SIZE k"
  obtain m where m: "m < 63" "0 < m" "unat ?M = 2 ^ m" using ok by (auto simp: rw_class_ok_def)
  have m63: "(2 :: nat) ^ m \<le> 2 ^ 62" using m(1) by (intro power_increasing) auto
  note M = rw_max_block(1) [OF ok, symmetric] and M2 = rw_max_block(2) [OF ok]
  let ?L = "ceilToPow2 (sz + 1)"
  have s1: "unat (sz + 1) = Suc (unat sz)" using s by (subst unat_add_less) auto
  obtain e where e: "unat ?L = 2 ^ e" "Suc (unat sz) \<le> 2 ^ e" "\<And>x. Suc (unat sz) \<le> 2 ^ x \<Longrightarrow> e \<le> x"
    using ceilToPow2 [of "sz + 1"] s s1 by (auto simp: least_pow2_def)
  have e63: "e \<le> 63" using e(3) [of 63] s(2) by simp
  have e0: "0 < e" using e(2) s(1) by (cases e) auto
  have M2u: "unat (?M * 2) = 2 ^ Suc m" using m(3) m63 by (simp add: unat_word_ariths)
  define L count where "L = (if ?L > ?M * 2 then ?M else ?L)" and "count = (if ?L > ?M * 2 then (sz + ?M * 2 - 3) div (?M - 1) else 1)"
  have L: "\<exists>x. unat L = 2 ^ x \<and> 0 < x \<and> x < 64" "unat L \<le> rw_limit k" "0 < unat count"
    "if unat count = 1 then unat sz \<le> unat (L - 1) else unat sz \<le> (unat count - 1) * unat (L - 1)"
  proof -
    have "(\<exists>x. unat L = 2 ^ x \<and> 0 < x \<and> x < 64) \<and> unat L \<le> rw_limit k \<and> 0 < unat count \<and>
      (if unat count = 1 then unat sz \<le> unat (L - 1) else unat sz \<le> (unat count - 1) * unat (L - 1))"
    proof (cases "?L > ?M * 2")
      case True
      then have "(2 :: nat) ^ Suc m < 2 ^ e" using e(1) M2u by (simp only: word_less_nat_alt)
      then have "Suc m < e" by (rule power_less_imp_less_exp [rotated]) simp
      with e63 have "m < 62" by simp
      note c = rw_ctor_count [OF m(3,2) this s(2,1)]
      have cc: "2 \<le> unat count" "unat sz \<le> (unat count - 1) * unat (L - 1)" "L = ?M" using c True by (simp_all add: count_def L_def)
      then have "unat count \<noteq> 1" "0 < unat count" by linarith+
      with cc m show ?thesis by (auto simp: rw_limit_def)
    next
      case False
      then have "unat ?L \<le> 2 * 2 ^ m" using M2u by (simp add: word_le_nat_alt not_less)
      moreover have "unat (?L - 1) = 2 ^ e - 1" using e(1) unat_sub [of 1 ?L] by (simp add: word_le_nat_alt)
      ultimately show ?thesis using False e e63 e0 m(3) by (auto simp: L_def count_def rw_limit_def intro!: exI [of _ e])
    qed
    then show "\<exists>x. unat L = 2 ^ x \<and> 0 < x \<and> x < 64" "unat L \<le> rw_limit k" "0 < unat count"
      "if unat count = 1 then unat sz \<le> unat (L - 1) else unat sz \<le> (unat count - 1) * unat (L - 1)" by blast+
  qed
  have ctor: "rw_ctor k sz = (case rw_ctor_loop k (unat count) None None (rw_fresh L) of
       Inl e \<Rightarrow> Inl e | Inr (None, q) \<Rightarrow> Inl (UndefinedBehaviour ''frontBlock is null'')
     | Inr (Some f, q) \<Rightarrow> Inr (q\<lparr>rw_frontBlock := f, rw_tailBlock := f\<rparr> :: 'a rw_queue))"
    using M M2 by (simp add: rw_ctor_def Let_def L_def count_def)
  obtain i where i: "unat count = Suc i" using L(3) by (cases "unat count") auto
  obtain x where x: "unat L = 2 ^ x" "0 < x" "x < 64" using L(1) by blast
  from rw_ctor_loop_ok [OF ok L(2), of i, where 'a = 'a] show ?thesis
  proof
    assume "\<exists>q'. rw_ctor_loop k (Suc i) None None (rw_fresh L :: 'a rw_queue) = Inr (Some 0, q') \<and> rw_built L (Suc i) q'"
    then obtain q' :: "'a rw_queue" where q': "rw_ctor_loop k (Suc i) None None (rw_fresh L) = Inr (Some 0, q')" "rw_built L (Suc i) q'" by blast
    let ?q = "q'\<lparr>rw_frontBlock := 0, rw_tailBlock := 0\<rparr>"
    have sh: "rw_shape (unat sz) k ?q [0] [1..<Suc i]"
      using L(4) unfolding i by (intro rw_built_shape [OF q'(2) _ x L(2)]) (auto split: if_splits)
    have "rw_contents ?q = []"
      using q'(2) rw_contents_shape [OF sh] rw_Block_ok(2) [OF x, of "rw_blk q' 0\<lparr>bk_next := None\<rparr>"]
      by (simp add: rw_built_def rw_blk_def rw_Block_def bk_list_def)
    moreover have "rw_inv (unat sz) k ?q" using sh q'(2) by (auto simp: rw_inv_def rw_built_def)
    ultimately show ?thesis using q'(1) by (simp add: ctor i)
  qed (simp add: ctor i)
qed

section \<open>First in, first out\<close>

interpretation rw: fifo_queue "\<lambda>q. rw_class_ok k \<and> rw_inv g k q" rw_contents "\<lambda>q. rw_room q \<or> c \<and> rw_can_grow k q"
    "\<lambda>x q. Some (rw_inner_enqueue k c x q)" "\<lambda>q. Some (rw_try_dequeue q)"
  for k :: rw_class and g :: nat and c :: bool
proof
  fix q :: "'a rw_queue" and x :: 'a
  assume i: "rw_class_ok k \<and> rw_inv g k q"
  note e = rw_inner_enqueue_ok [of k g q c x]
  show "rw_room q \<or> c \<and> rw_can_grow k q \<Longrightarrow> \<exists>q'. Some (rw_inner_enqueue k c x q) = Some (Inr (True, q')) \<and>
      (rw_class_ok k \<and> rw_inv g k q') \<and> rw_contents q' = rw_contents q @ [x]" using e i by auto
  show "\<not> (rw_room q \<or> c \<and> rw_can_grow k q) \<Longrightarrow> \<exists>q'. Some (rw_inner_enqueue k c x q) = Some (Inr (False, q')) \<and>
      (rw_class_ok k \<and> rw_inv g k q') \<and> rw_contents q' = rw_contents q" using e i by auto
next
  fix q :: "'a rw_queue" assume "rw_class_ok k \<and> rw_inv g k q" "rw_contents q = []"
  with rw_try_dequeue_ok [of g k q] show "\<exists>q'. Some (rw_try_dequeue q) = Some (Inr (None, q')) \<and>
      (rw_class_ok k \<and> rw_inv g k q') \<and> rw_contents q' = []" by fastforce
next
  fix q :: "'a rw_queue" and x xs assume "rw_class_ok k \<and> rw_inv g k q" "rw_contents q = x # xs"
  with rw_try_dequeue_ok [of g k q] show "\<exists>q'. Some (rw_try_dequeue q) = Some (Inr (Some x, q')) \<and>
      (rw_class_ok k \<and> rw_inv g k q') \<and> rw_contents q' = xs" by (fastforce split: option.splits)
qed

text \<open>A queue that refuses holds at least the reserve.\<close>

lemma length_concat_ge:
  "(\<And>a. a \<in> set fs \<Longrightarrow> m a \<le> length (f a)) \<Longrightarrow> distinct fs \<Longrightarrow> sum m (set fs) \<le> length (concat (map f fs))"
  by (induction fs) (auto simp: add_mono)

lemma rw_refuses_only_when:
  assumes inv: "rw_inv g k q" and full: "\<not> rw_room q" shows "g \<le> length (rw_contents q)"
proof -
  obtain f fs es where s: "rw_shape g k q (f # fs) es" using inv by (rule rw_invE)
  note d = rw_shapeD [OF s]
  have tl: "bk_full (rw_blk q (rw_tailBlock q))" and es: "es = []"
    using full rw_next_is_front [OF s] by (auto simp: rw_room_def)
  show ?thesis
  proof (cases fs)
    case Nil
    then have "rw_tailBlock q = f" using d(6) by simp
    then show ?thesis using d(15) tl es Nil by (simp add: rw_reserve_def rw_contents_shape [OF s] bk_full_def)
  next
    case (Cons n fs')
    have dist: "distinct fs" "f \<notin> set fs" using d(2) by auto
    have B: "set ((f # fs) @ es) - {f} = set fs" "(set ((f # fs) @ es) = {f}) = False" using dist Cons es by auto
    have "g \<le> (\<Sum>b \<in> set fs. unat (bk_sizeMask (rw_blk q b)))"
      using bspec [OF d(15) [unfolded rw_reserve_def], of f] unfolding B if_False by simp
    also have "\<dots> \<le> length (concat (map (\<lambda>a. bk_list (rw_blk q a)) fs))"
      using rw_full_tl [OF s tl] dist(1) by (intro length_concat_ge) (simp_all add: bk_full_def)
    also have "\<dots> \<le> length (rw_contents q)" by (simp add: rw_contents_shape [OF s])
    finally show ?thesis .
  qed
qed

text \<open>
  C16. For every size from 1 to \<open>2 ^ 63 - 1\<close>, every block size and every sequence of \<open>enqueue\<close> (\<open>c\<close>) or \<open>try_enqueue\<close>
  (not \<open>c\<close>) and \<open>try_dequeue\<close> calls by one thread on a fresh queue: every call returns normally, and the answers are those
  of a first-in first-out list. A \<open>try_dequeue\<close> finds nothing only when the queue is empty; a push is refused only
  when at least \<open>size\<close> elements are inside, as the comment on the constructor promises, and \<open>enqueue\<close> never refuses
  while \<open>malloc\<close> serves its requests.
\<close>

theorem rw_queue_fifo:
  fixes q :: "'a rw_queue"
  assumes "rw_class_ok k" "0 < unat sz" "unat sz < 2 ^ 63" "rw_ctor k sz = Inr q"
  shows "\<exists>as q'. run_ops (\<lambda>x q. Some (if c then rw_enqueue k x q else rw_try_enqueue k x q)) (\<lambda>q. Some (rw_try_dequeue q)) ops q =
      Some (Inr (as, q')) \<and>
    fifo_trace (\<lambda>xs. unat sz \<le> length xs \<and> \<not> (c \<and> (\<forall>n bytes. rwc_malloc k n bytes))) ops as [] (rw_contents q')"
proof -
  have i: "rw_class_ok k \<and> rw_inv (unat sz) k q" "rw_contents q = []"
    using rw_ctor_ok [OF assms(1-3), where 'a = 'a] assms(1,4) by auto
  have may: "unat sz \<le> length (rw_contents q) \<and> \<not> (c \<and> (\<forall>n bytes. rwc_malloc k n bytes))"
    if "rw_class_ok k \<and> rw_inv (unat sz) k q" "\<not> (rw_room q \<or> c \<and> rw_can_grow k q)" for q :: "'a rw_queue"
    using rw_refuses_only_when [of "unat sz" k q] that by (auto simp: rw_can_grow_def)
  have e: "(\<lambda>x q. Some (if c then rw_enqueue k x q else rw_try_enqueue k x q)) = (\<lambda>x q. Some (rw_inner_enqueue k c x q :: (bool \<times> 'a rw_queue) result))"
    by (cases c) (simp_all add: rw_enqueue_def rw_try_enqueue_def)
  from rw.run_fifo [where may = "\<lambda>xs. unat sz \<le> length xs \<and> \<not> (c \<and> (\<forall>n bytes. rwc_malloc k n bytes))" and ops = ops,
      OF may i(1)] show ?thesis unfolding e i(2) by blast
qed

text \<open>A class with blocks of up to 4 elements of 8 bytes, on a machine with enough memory.\<close>

definition rw_class4 :: rw_class where
  "rw_class4 = \<lparr>rwc_MAX_BLOCK_SIZE = 4, rwc_sizeofBlock = 160, rwc_alignofBlock = 8, rwc_sizeofT = 8, rwc_alignofT = 8,
     rwc_malloc = (\<lambda>_ _. True)\<rparr>"

lemma rw_class4_ok: "rw_class_ok rw_class4"
  by (auto simp: rw_class_ok_def rw_class4_def rw_limit_def intro!: exI [of _ 2])

section \<open>Walking the circle\<close>

lemma of_nat_length_concat: "(\<Sum>a\<leftarrow>xs. of_nat (length (f a)) :: size_t) = of_nat (length (concat (map f xs)))"
  by (induction xs) simp_all

lemma rw_walk_chain:
  assumes "bs \<noteq> []" "\<And>a. a \<in> set bs \<Longrightarrow> rw_heap q a = Some (rw_blk q a)"
    "\<And>a b. (a, b) \<in> pairs bs \<Longrightarrow> bk_next (rw_blk q a) = Some b"
    "bk_next (rw_blk q (last bs)) = Some (rw_frontBlock q)" "rw_frontBlock q \<notin> set (tl bs)"
  shows "rw_walk f q (Some (hd bs)) r = Some (Inr (r + (\<Sum>a\<leftarrow>bs. f (rw_blk q a))))"
  using assms
proof (induction bs arbitrary: r)
  case (Cons a bs)
  show ?case
  proof (cases bs)
    case Nil
    with Cons.prems show ?thesis by (subst rw_walk.simps) simp
  next
    case (Cons b bs')
    have "rw_walk f q (Some a) r = rw_walk f q (Some b) (r + f (rw_blk q a))"
      using Cons.prems(2) [of a] Cons.prems(3) [of a b] Cons.prems(5) Cons by (subst rw_walk.simps) (auto simp: Let_def)
    then show ?thesis using Cons.IH [of "r + f (rw_blk q a)"] Cons.prems Cons by (simp add: add.assoc)
  qed
qed simp

lemma rw_walk_shape:
  assumes s: "rw_shape g k q fs es"
  shows "rw_walk f q (Some (rw_frontBlock q)) 0 = Some (Inr (\<Sum>a\<leftarrow>fs @ es. f (rw_blk q a)))"
proof -
  note d = rw_shapeD [OF s]
  have pp: "pairs (fs @ es @ [hd fs]) = insert (last (fs @ es), hd fs) (pairs (fs @ es))"
    using d(1) pairs_snoc [of "fs @ es" "hd fs"] by simp
  have "rw_walk f q (Some (hd (fs @ es))) 0 = Some (Inr (0 + (\<Sum>a\<leftarrow>fs @ es. f (rw_blk q a))))"
  proof (rule rw_walk_chain)
    show "fs @ es \<noteq> []" using d(1) by simp
    show "rw_heap q a = Some (rw_blk q a)" if "a \<in> set (fs @ es)" for a by (rule rw_shape_heap [OF s that])
    show "bk_next (rw_blk q a) = Some b" if "(a, b) \<in> pairs (fs @ es)" for a b using that by (intro d(7)) (simp add: pp)
    show "bk_next (rw_blk q (last (fs @ es))) = Some (rw_frontBlock q)" using d(7) [of "last (fs @ es)" "hd fs"] d(5) pp by simp
    show "rw_frontBlock q \<notin> set (tl (fs @ es))" using d(1,2,5) by (cases fs) auto
  qed
  then show ?thesis using d(1,5) by simp
qed

lemma bk_approx:
  assumes "bk_inv b" shows "(bk_tail b - bk_front b) AND bk_sizeMask b = of_nat (length (bk_list b))"
proof -
  note d = bk_invD [OF assms]
  obtain e where e: "e < 64" "bk_sizeMask b = mask e" using d(1) by blast
  have n: "bk_n b = 2 ^ e" using e by (simp add: bk_n_def unat_mask_word)
  have lt: "(2 :: nat) ^ e < 2 ^ 64" using e(1) by (intro power_strict_increasing) auto
  have "unat ((bk_tail b - bk_front b) AND bk_sizeMask b) = unat (bk_tail b - bk_front b) mod 2 ^ e"
    by (simp add: e(2) take_bit_eq_mask [symmetric] unsigned_take_bit_eq) (simp add: take_bit_eq_mod)
  also have "\<dots> = ring_dist (bk_n b) (unat (bk_front b)) (unat (bk_tail b))"
  proof (cases "unat (bk_front b) \<le> unat (bk_tail b)")
    case True
    then show ?thesis using d(4) n by (simp add: unat_sub word_le_nat_alt ring_dist_def)
  next
    case False
    let ?X = "unat (bk_tail b) + 2 ^ e - unat (bk_front b)"
    have "(2 :: nat) ^ e dvd 2 ^ 64 - 2 ^ e" using e(1) by (intro dvd_diff_nat le_imp_power_dvd) simp_all
    then obtain c where c: "(2 :: nat) ^ 64 - 2 ^ e = c * 2 ^ e" by (metis dvdE mult.commute)
    have "unat (bk_tail b - bk_front b) = 2 ^ 64 + unat (bk_tail b) - unat (bk_front b)"
      using False by (simp add: unat_sub_if' not_le)
    also have "\<dots> = c * 2 ^ e + ?X" unfolding c [symmetric] using False d(3) n lt by linarith
    finally have "unat (bk_tail b - bk_front b) mod 2 ^ e = ?X mod 2 ^ e" by (simp only: mod_mult_self3)
    also have "\<dots> = unat (bk_tail b) + 2 ^ e - unat (bk_front b)" using False d(3,4) n by simp
    finally show ?thesis using False n by (simp add: ring_dist_def)
  qed
  finally have "length (bk_list b) = unat ((bk_tail b - bk_front b) AND bk_sizeMask b)" by (simp add: length_bk_list)
  then show ?thesis by simp
qed

section \<open>Destruction\<close>

lemma bk_destroy_all_ok:
  "bk_inv c \<Longrightarrow> bk_localTail c = bk_tail c \<Longrightarrow> bk_data b = bk_data c \<Longrightarrow> bk_tail b = bk_tail c \<Longrightarrow> bk_sizeMask b = bk_sizeMask c \<Longrightarrow>
    bk_destroy_all (bk_front c) b out = Some (Inr (out @ bk_list c))"
proof (induction "length (bk_list c)" arbitrary: b c out)
  case 0
  then have "bk_front c = bk_tail c" using bk_list_Nil_iff by auto
  with 0 show ?case by (subst bk_destroy_all.simps) simp
next
  case (Suc n)
  then have ne: "bk_front c \<noteq> bk_tail c" using bk_list_Nil_iff by fastforce
  have el: "bk_element (bk_front c) b = Inr (hd (bk_list c))"
    using bk_element_front [OF Suc.prems(1) ne] by (simp only: bk_element_def Suc.prems(3))
  have l: "bk_list (bk_drop c) = tl (bk_list c)" by (rule bk_drop_list [OF Suc.prems(1) ne])
  have "bk_destroy_all (bk_front (bk_drop c)) (bk_destroy (bk_front c) b) (out @ [hd (bk_list c)]) =
      Some (Inr ((out @ [hd (bk_list c)]) @ bk_list (bk_drop c)))"
    using Suc.hyps(2) Suc.prems ne bk_drop_inv [of c] l
    by (intro Suc.hyps(1)) (auto simp: bk_drop_def bk_destroy_def)
  moreover have "bk_front (bk_drop c) = (bk_front c + 1) AND bk_sizeMask b" using Suc.prems(5) by (simp add: bk_drop_def)
  moreover have "bk_list c = hd (bk_list c) # tl (bk_list c)" using Suc.hyps(2) by (cases "bk_list c") auto
  ultimately show ?case using ne el l Suc.prems(4) by (subst bk_destroy_all.simps) simp
qed

lemma bk_destroy_block: "bk_inv b \<Longrightarrow> bk_destroy_all (bk_front b) b out = Some (Inr (out @ bk_list b))"
  using bk_destroy_all_ok [of "b\<lparr>bk_localTail := bk_tail b\<rparr>" b out] by (simp add: bk_inv_localTail)

lemma rw_dtor_chain:
  assumes "bs \<noteq> []" "distinct bs" "\<And>a. a \<in> set bs \<Longrightarrow> h a = Some (blk a) \<and> bk_inv (blk a)"
    "\<And>a b. (a, b) \<in> pairs bs \<Longrightarrow> bk_next (blk a) = Some b" "bk_next (blk (last bs)) = Some front" "front \<notin> set (tl bs)"
  shows "rw_dtor_loop front h (Some (hd bs)) out =
    Some (Inr (out @ concat (map (\<lambda>a. bk_list (blk a)) bs), (\<lambda>a. if a \<in> set bs then None else h a)))"
  using assms
proof (induction bs arbitrary: h out)
  case (Cons a bs)
  have d: "bk_destroy_all (bk_front (blk a)) (blk a) out = Some (Inr (out @ bk_list (blk a)))"
    using Cons.prems(3) [of a] by (intro bk_destroy_block) simp
  show ?case
  proof (cases bs)
    case Nil
    with Cons.prems d show ?thesis by (subst rw_dtor_loop.simps) (auto simp: fun_eq_iff)
  next
    case (Cons b bs')
    have "rw_dtor_loop front h (Some a) out = rw_dtor_loop front (h(a := None)) (Some b) (out @ bk_list (blk a))"
      using Cons.prems(3) [of a] Cons.prems(4) [of a b] Cons.prems(6) Cons d by (subst rw_dtor_loop.simps) auto
    moreover have "rw_dtor_loop front (h(a := None)) (Some (hd bs)) (out @ bk_list (blk a)) =
      Some (Inr ((out @ bk_list (blk a)) @ concat (map (\<lambda>a. bk_list (blk a)) bs), (\<lambda>c. if c \<in> set bs then None else (h(a := None)) c)))"
      using Cons.prems Cons by (intro Cons.IH) auto
    ultimately show ?thesis using Cons by (auto simp: fun_eq_iff)
  qed
qed simp

lemma rw_dtor_shape:
  assumes s: "rw_shape g k q fs es"
  shows "rw_dtor q = Some (Inr (rw_contents q, Map.empty))"
proof -
  note d = rw_shapeD [OF s]
  have pp: "pairs (fs @ es @ [hd fs]) = insert (last (fs @ es), hd fs) (pairs (fs @ es))"
    using d(1) pairs_snoc [of "fs @ es" "hd fs"] by simp
  have "rw_dtor_loop (rw_frontBlock q) (rw_heap q) (Some (hd (fs @ es))) [] =
    Some (Inr ([] @ concat (map (\<lambda>a. bk_list (rw_blk q a)) (fs @ es)), (\<lambda>a. if a \<in> set (fs @ es) then None else rw_heap q a)))"
  proof (rule rw_dtor_chain)
    show "fs @ es \<noteq> []" "distinct (fs @ es)" using d(1,2) by simp_all
    show "rw_heap q a = Some (rw_blk q a) \<and> bk_inv (rw_blk q a)" if "a \<in> set (fs @ es)" for a
      using rw_shape_heap [OF s that] d(8) [OF that] by simp
    show "bk_next (rw_blk q a) = Some b" if "(a, b) \<in> pairs (fs @ es)" for a b using that by (intro d(7)) (simp add: pp)
    show "bk_next (rw_blk q (last (fs @ es))) = Some (rw_frontBlock q)" using d(7) [of "last (fs @ es)" "hd fs"] d(5) pp by simp
    show "rw_frontBlock q \<notin> set (tl (fs @ es))" using d(1,2,5) by (cases fs) auto
  qed
  moreover have "concat (map (\<lambda>a. bk_list (rw_blk q a)) es) = []" using d(10) by simp
  moreover have "(\<lambda>a. if a \<in> set (fs @ es) then None else rw_heap q a) = Map.empty" using d(3) by (auto simp: fun_eq_iff)
  ultimately show ?thesis using d(1,5) by (simp add: rw_dtor_def rw_contents_shape [OF s])
qed

text \<open>
  C29. \<open>size_approx\<close> ends and counts the elements, \<open>max_capacity\<close> ends and adds up the capacities of the blocks, each
  once, \<open>peek\<close> points to the oldest one (null exactly when the queue is
  empty), \<open>pop\<close> removes what \<open>try_dequeue\<close> would, and the destructor ends, destroys every element once, in
  order, and frees every block.
\<close>

theorem rw_observers:
  assumes "rw_inv g k q"
  shows "rw_size_approx q = Some (Inr (of_nat (length (rw_contents q)))) \<and>
    rw_max_capacity q = Some (Inr (\<Sum>a \<in> dom (rw_heap q). bk_sizeMask (rw_blk q a))) \<and>
    (\<exists>p q'. rw_peek q = Inr (p, q') \<and> rw_contents q' = rw_contents q \<and>
       (case p of None \<Rightarrow> rw_contents q = []
        | Some (a, i) \<Rightarrow> rw_contents q \<noteq> [] \<and> rw_deref q' (Some a) (\<lambda>_. bk_element i) = Inr (hd (rw_contents q)))) \<and>
    rw_pop q = map_sum id (\<lambda>(r, q'). (r \<noteq> None, q')) (rw_try_dequeue q) \<and>
    rw_dtor q = Some (Inr (rw_contents q, Map.empty))"
proof -
  obtain f fs es where s: "rw_shape g k q (f # fs) es" using assms by (rule rw_invE)
  note d = rw_shapeD [OF s]
  let ?bs = "(f # fs) @ es"
  have "(\<Sum>a\<leftarrow>?bs. (bk_tail (rw_blk q a) - bk_front (rw_blk q a)) AND bk_sizeMask (rw_blk q a)) =
      (\<Sum>a\<leftarrow>?bs. of_nat (length (bk_list (rw_blk q a))) :: size_t)"
    using d(8) by (intro arg_cong [where f = sum_list] map_cong refl bk_approx)
  also have "\<dots> = of_nat (length (concat (map (\<lambda>a. bk_list (rw_blk q a)) ?bs)))"
    by (rule of_nat_length_concat)
  also have "concat (map (\<lambda>a. bk_list (rw_blk q a)) ?bs) = rw_contents q"
    using d(10) by (simp add: rw_contents_shape [OF s])
  finally have "rw_size_approx q = Some (Inr (of_nat (length (rw_contents q))))"
    by (simp add: rw_size_approx_def rw_walk_shape [OF s])
  moreover have "rw_max_capacity q = Some (Inr (\<Sum>a \<in> dom (rw_heap q). bk_sizeMask (rw_blk q a)))"
    using rw_walk_shape [OF s, of bk_sizeMask] d(2,3) by (simp only: rw_max_capacity_def sum_list_distinct_conv_sum_set)
  ultimately show ?thesis using rw_peek_ok [OF assms] rw_pop_try_dequeue [of q] rw_dtor_shape [OF s] by auto
qed

section \<open>Moving\<close>

text \<open>
  Moving a queue: the new object has the invariant and the elements of the old one, the old one is an empty queue
  with room for 31 elements, and move assignment exchanges two queues.
\<close>

theorem rw_move_spec:
  fixes q p :: "'a rw_queue"
  assumes "rw_class_ok k" "rw_inv g k q" "rw_inv h k p" "rw_move k q = Inr (new, old)"
  shows "rw_inv g k new \<and> rw_contents new = rw_contents q \<and> rw_inv 31 k old \<and> rw_contents old = [] \<and>
    (\<exists>a b. rw_assign p q = (a, b) \<and> rw_inv g k a \<and> rw_contents a = rw_contents q \<and> rw_inv h k b \<and> rw_contents b = rw_contents p)"
proof -
  have fl: "\<not> rw_enqueuing q" "\<not> rw_dequeuing q" "\<not> rw_enqueuing p" "\<not> rw_dequeuing p" using assms(2,3) by (auto simp: rw_inv_def)
  have self: "q\<lparr>rw_enqueuing := False, rw_dequeuing := False\<rparr> = q" "p\<lparr>rw_enqueuing := False, rw_dequeuing := False\<rparr> = p"
    using fl by simp_all
  obtain B :: "'a rw_block" where B: "rw_make_block k 0 32 = Some B" using assms(4) by (auto simp: rw_move_def split: option.splits)
  have lim: "unat (32 :: size_t) \<le> rw_limit k" by (simp add: rw_limit_def)
  have Beq: "B = rw_Block 32 (unat (32 :: size_t))" by (rule rw_make_block_ok [OF assms(1) lim B])
  let ?old = "q\<lparr>rw_heap := [0 \<mapsto> B\<lparr>bk_next := Some 0\<rparr>], rw_allocated := 1, rw_frontBlock := 0, rw_tailBlock := 0, rw_largestBlockSize := 32\<rparr>"
  have new: "new = q" "old = ?old" using assms(4) B self by (auto simp: rw_move_def)
  have built: "rw_built 32 1 ?old" using fl Beq by (auto simp: rw_built_def fun_eq_iff)
  have eq: "?old\<lparr>rw_frontBlock := 0, rw_tailBlock := 0\<rparr> = ?old" by simp
  have sh: "rw_shape 31 k ?old [0] [1..<1]"
    using rw_built_shape [OF built, of 5 k 31] lim unfolding eq by simp
  then have "rw_inv 31 k old" using fl new by (auto simp: rw_inv_def)
  moreover have "rw_contents old = []"
    using rw_contents_shape [OF sh] Beq new by (simp add: rw_blk_def rw_Block_def bk_list_def)
  moreover have "rw_assign p q = (q, p)" using fl by (cases q; cases p) (simp add: rw_assign_def)
  ultimately show ?thesis using assms(2,3) new by simp
qed

section \<open>Sizes that are not served\<close>

text \<open>
  For a size of \<open>2 ^ 63\<close> or more the rounding wraps to 0: the constructor succeeds with one block that has no
  slots and the mask \<open>2 ^ 64 - 1\<close>, and the first \<open>enqueue\<close> constructs its element outside of the allocation.
\<close>

theorem rw_oversized_corrupts:
  fixes q :: "'a rw_queue"
  assumes "rw_class_ok k" "2 ^ 63 \<le> unat sz" "rw_ctor k sz = Inr q"
  shows "rw_try_enqueue k x q = Inl (UndefinedBehaviour ''data'') \<and> rw_enqueue k x q = Inl (UndefinedBehaviour ''data'')"
proof -
  have "sz + 1 = 0 \<or> 2 ^ 63 < unat (sz + 1)"
  proof (cases "unat sz = 2 ^ 64 - 1")
    case True
    then have "unat (sz + 1) = 0" by (simp add: unat_word_ariths)
    then show ?thesis by (simp add: unat_eq_zero)
  next
    case False
    then have "unat sz + 1 < 2 ^ 64" using unsigned_less [of sz, where 'a = nat] by simp
    then have "unat (sz + 1) = unat sz + 1" by (subst unat_add_less) simp_all
    then show ?thesis using assms(2) by simp
  qed
  then have L: "ceilToPow2 (sz + 1) = 0" by (rule round_64_wraps)
  let ?B = "(rw_Block 0 0)\<lparr>bk_next := Some 0\<rparr> :: 'a rw_block"
  have mk: "rw_make_block k 0 0 = Some B \<Longrightarrow> B = rw_Block 0 0" for B :: "'a rw_block"
    using rw_make_block_ok [OF assms(1), of 0 0 B] by simp
  have q: "rw_heap q = [0 \<mapsto> ?B]" "rw_tailBlock q = 0" "\<not> rw_enqueuing q"
    using assms(3) mk by (auto simp: rw_ctor_def L Let_def rw_fresh_def rw_put_def fun_eq_iff split: if_splits option.splits)
  then show ?thesis
    by (simp add: rw_try_enqueue_def rw_enqueue_def rw_inner_enqueue_def enqueue_guard_def rw_enqueue_body_def
        rw_deref_def rw_Block_def Let_def enqueue_here_def bk_construct_def)
qed

lemmas rw_steps = rw_enqueue_def rw_inner_enqueue_def enqueue_guard_def rw_enqueue_body_def rw_deref_def rw_Block_def Let_def
  enqueue_here_def enqueue_next_def enqueue_new_def bk_construct_def bk_element_def bk_destroy_def
  rw_try_dequeue_def dequeue_guard_def rw_find_def dequeue_front_def dequeue_advance_def rw_size_approx_def

lemmas rw_eval = rw_steps rw_put_def rw_make_block_def rw_block_bytes_def rw_class4_def rw_ctor_def rw_fresh_def

lemma ceilToPow2_values: "ceilToPow2 1 = 1" "ceilToPow2 3 = 4" "ceilToPow2 4 = 4"
  by code_simp+

text \<open>
  C36. A queue constructed for 0 elements, whatever the block size and the element type, gets a block of one slot, which is
  empty and full at once. When the producer comes back to it, the element it constructs there is not counted, and the
  consumer that reaches the block fails the assertion that there is one.
\<close>

theorem rw_zero_size_asserts:
  assumes ok: "rw_class_ok k" and malloc: "\<And>n bytes. rwc_malloc k n bytes"
  shows "\<exists>q q' :: 'a rw_queue. rw_ctor k 0 = Inr q \<and>
     run_ops (\<lambda>x q. Some (rw_enqueue k x q)) (\<lambda>q. Some (rw_try_dequeue q)) [Push x, Pop, Push y, Push z] q =
       Some (Inr ([Pushed True, Popped (Some x), Pushed True, Pushed True], q')) \<and>
     rw_size_approx q' = Some (Inr 1) \<and>
     run_ops (\<lambda>x q. Some (rw_enqueue k x q)) (\<lambda>q. Some (rw_try_dequeue q)) [Pop, Pop] q' =
       Some (Inl (AssertFailed ''nextBlockFront != nextBlockTail''))"
proof -
  have mk: "rw_make_block k n c = Some (rw_Block c (unat c) :: 'a rw_block)" if c: "unat c \<le> 32" for n c
  proof -
    obtain b where "rw_make_block k n c = Some (b :: 'a rw_block)" using malloc by (simp add: rw_make_block_def Let_def)
    moreover from this have "b = rw_Block c (unat c)" using c by (intro rw_make_block_ok [OF ok]) (simp_all add: rw_limit_def)
    ultimately show ?thesis by simp
  qed
  note M = rw_max_block [OF ok]
  note c = rw_steps rw_ctor_def rw_fresh_def rw_put_def rw_walk.simps
  show ?thesis using M(2-4) by (simp add: c M(1) mk ceilToPow2_values)
qed

theorem rw_zero_size_asserts_witness:
  "\<exists>q q' :: nat rw_queue. rw_ctor rw_class4 0 = Inr q \<and>
     run_ops (\<lambda>x q. Some (rw_enqueue rw_class4 x q)) (\<lambda>q. Some (rw_try_dequeue q)) [Push 1, Pop, Push 2, Push 3] q =
       Some (Inr ([Pushed True, Popped (Some 1), Pushed True, Pushed True], q')) \<and>
     run_ops (\<lambda>x q. Some (rw_enqueue rw_class4 x q)) (\<lambda>q. Some (rw_try_dequeue q)) [Pop, Pop] q' =
       Some (Inl (AssertFailed ''nextBlockFront != nextBlockTail''))"
  using rw_zero_size_asserts [OF rw_class4_ok, of 1 2 3] by (auto simp: rw_class4_def)

text \<open>The queue the constructor makes for two elements.\<close>

definition rw_demo :: "nat rw_queue" where
  "rw_demo = \<lparr>rw_heap = [0 \<mapsto> \<lparr>bk_front = 0, bk_localTail = 0, bk_tail = 0, bk_localFront = 0, bk_next = Some 0,
       bk_data = replicate 4 None, bk_sizeMask = 3\<rparr>],
     rw_allocated = 1, rw_frontBlock = 0, rw_tailBlock = 0, rw_largestBlockSize = 4, rw_enqueuing = False, rw_dequeuing = False\<rparr>"

lemma rw_demo_ctor: "rw_ctor rw_class4 2 = Inr rw_demo"
  by (simp add: rw_eval ceilToPow2_values rw_demo_def word_less_nat_alt word_le_nat_alt)

lemma rw_demo_inv: "rw_inv 2 rw_class4 rw_demo"
  using rw_ctor_ok [OF rw_class4_ok, of 2, where 'a = nat] rw_demo_ctor by auto

theorem rw_queue_fifo_witness:
  "\<exists>q'. run_ops (\<lambda>x q. Some (if False then rw_enqueue rw_class4 x q else rw_try_enqueue rw_class4 x q)) (\<lambda>q. Some (rw_try_dequeue q))
       [Pop, Push 5, Push 6, Push 7, Push 8, Pop] rw_demo =
     Some (Inr ([Popped None, Pushed True, Pushed True, Pushed True, Pushed False, Popped (Some 5)], q')) \<and> rw_contents q' = [6, 7]"
proof -
  let ?ops = "[Pop, Push 5, Push 6, Push 7, Push 8, Pop]"
  obtain as q' where r: "run_ops (\<lambda>x q. Some (if False then rw_enqueue rw_class4 x q else rw_try_enqueue rw_class4 x q))
      (\<lambda>q. Some (rw_try_dequeue q)) ?ops rw_demo = Some (Inr (as, q'))"
    and f: "fifo_trace (\<lambda>xs. unat (2 :: size_t) \<le> length xs \<and> \<not> (False \<and> (\<forall>n bytes. rwc_malloc rw_class4 n bytes))) ?ops as [] (rw_contents q')"
    using rw_queue_fifo [OF rw_class4_ok _ _ rw_demo_ctor, of False ?ops] by auto
  have "as = [Popped None, Pushed True, Pushed True, Pushed True, Pushed False, Popped (Some 5)]"
    using r by (simp add: rw_eval rw_try_enqueue_def rw_demo_def word_le_nat_alt)
  with r f show ?thesis by auto
qed

theorem rw_observers_witness:
  "\<exists>q. rw_enqueue rw_class4 5 rw_demo = Inr (True, q) \<and> rw_size_approx q = Some (Inr 1) \<and> rw_max_capacity q = Some (Inr 3) \<and>
     rw_dtor q = Some (Inr ([5], Map.empty))"
proof -
  obtain q where q: "rw_enqueue rw_class4 5 rw_demo = Inr (True, q)" "dom (rw_heap q) = {0}" "bk_sizeMask (rw_blk q 0) = 3"
    by (simp add: rw_eval rw_demo_def rw_blk_def)
  have "rw_contents rw_demo = []" using rw_ctor_ok [OF rw_class4_ok, of 2, where 'a = nat] rw_demo_ctor by simp
  then have i: "rw_inv 2 rw_class4 q" "rw_contents q = [5]"
    using rw_inner_enqueue_ok [OF rw_class4_ok rw_demo_inv, of True 5] q(1) by (auto simp: rw_enqueue_def split: if_splits)
  from rw_observers [OF i(1)] i(2) q show ?thesis by auto
qed

theorem rw_move_spec_witness: "\<exists>new old. rw_move rw_class4 rw_demo = Inr (new, old) \<and> rw_inv 2 rw_class4 new \<and> rw_inv 31 rw_class4 old"
proof -
  obtain new old where "rw_move rw_class4 rw_demo = Inr (new, old)" by (simp add: rw_move_def rw_eval)
  with rw_move_spec [OF rw_class4_ok rw_demo_inv rw_demo_inv this] show ?thesis by auto
qed

theorem rw_oversized_corrupts_witness:
  "\<exists>q :: nat rw_queue. rw_ctor rw_class4 (2 ^ 63) = Inr q \<and> rw_enqueue rw_class4 (7 :: nat) q = Inl (UndefinedBehaviour ''data'')"
proof -
  have "\<exists>q :: nat rw_queue. rw_ctor rw_class4 (2 ^ 63) = Inr q"
    by (simp add: rw_eval ceilToPow2_values round_64_wraps word_le_nat_alt)
  then obtain q :: "nat rw_queue" where q: "rw_ctor rw_class4 (2 ^ 63) = Inr q" by blast
  with rw_oversized_corrupts [OF rw_class4_ok _ q] show ?thesis by auto
qed

end
