(* ===== verification/Semaphore.thy ===== *)
theory Semaphore
  imports Prelude
begin

text \<open>
  The semaphores under the blocking queues: the wrapper of the POSIX semaphore and \<open>LightweightSemaphore\<close>, once
  for one signalling and one waiting thread (\<^verbatim>\<open>readerwriterqueue/atomicops.h\<close>, prefix \<open>sp_\<close>) and once for
  any number of them (\<^verbatim>\<open>concurrentqueue/lightweightsemaphore.h\<close>, prefix \<open>mp_\<close>). First the operations as
  one thread sees them, then both semaphores with their threads interleaved, an access at a time. The
  count is an \<open>int\<close>: \<open>ssize_t\<close> has 64 bits, and it moves by one for a wait and by the signalled number. The locale
  \<open>semaphore\<close> states what the queues rely on.
\<close>

section \<open>The kernel semaphore\<close>

definition EINTR :: int where "EINTR = 4"

text \<open>
  The loops of \<open>wait\<close>, \<open>try_wait\<close> and \<open>timed_wait\<close>: the call is repeated while it is interrupted. \<open>call i\<close> is
  the result and the \<open>errno\<close> of the \<open>i\<close>th system call.
\<close>

partial_function (option) sem_retry :: "(nat \<Rightarrow> int \<times> int) \<Rightarrow> nat \<Rightarrow> bool option" where
  "sem_retry call i =
     (let (rc, errno) = call i
      in if rc = - 1 \<and> errno = EINTR then sem_retry call (Suc i) else Some (rc = 0))"

text \<open>The absolute time \<open>timed_wait\<close> waits for, in seconds and nanoseconds.\<close>

definition timed_wait_deadline :: "int \<Rightarrow> int \<Rightarrow> int \<Rightarrow> int \<times> int" where
  "timed_wait_deadline tv_sec tv_nsec usecs =
     (let tv_sec = tv_sec + usecs div 1000000;
          tv_nsec = tv_nsec + (usecs mod 1000000) * 1000
      in if tv_nsec \<ge> 1000000000 then (tv_sec + 1, tv_nsec - 1000000000) else (tv_sec, tv_nsec))"

text \<open>\<open>signal()\<close> repeats \<open>sem_post\<close> until it succeeds; \<open>signal(count)\<close> does so \<open>count\<close> times.\<close>

partial_function (option) sem_post_retry :: "(nat \<Rightarrow> int) \<Rightarrow> nat \<Rightarrow> unit option" where
  "sem_post_retry post i = (if post i = - 1 then sem_post_retry post (Suc i) else Some ())"

function Semaphore_signal :: "int \<Rightarrow> nat \<Rightarrow> nat" where
  "Semaphore_signal count s = (if count > 0 then Semaphore_signal (count - 1) (Suc s) else s)"
  by auto
termination by (relation "measure (\<lambda>(count, s). nat count)") auto

declare Semaphore_signal.simps [simp del]

lemma Semaphore_signal_adds: "Semaphore_signal count s = s + nat count"
  by (induction count s rule: Semaphore_signal.induct) (subst Semaphore_signal.simps, auto)

lemma sem_retry_first:
  "(\<And>j. j < k \<Longrightarrow> call (i + j) = (- 1, EINTR)) \<Longrightarrow> call (i + k) = (rc, err) \<Longrightarrow> \<not> (rc = - 1 \<and> err = EINTR) \<Longrightarrow>
    sem_retry call i = Some (rc = 0)"
proof (induction k arbitrary: i)
  case 0
  then show ?case by (subst sem_retry.simps) auto
next
  case (Suc k)
  have "sem_retry call i = sem_retry call (Suc i)" using Suc.prems(1) [of 0] by (subst sem_retry.simps) simp
  also have "\<dots> = Some (rc = 0)"
    using Suc.prems(1) [of "Suc j" for j] Suc.prems(2,3) by (intro Suc.IH) auto
  finally show ?case .
qed

section \<open>Operations of one thread\<close>

record lw_sema =
  m_count :: int
  m_sema :: nat      \<comment> \<open>the value of the kernel semaphore\<close>

text \<open>\<open>assert\<close> in the constructors.\<close>

definition LightweightSemaphore :: "int \<Rightarrow> lw_sema result" where
  "LightweightSemaphore initialCount =
     (if initialCount \<ge> 0 then Inr \<lparr>m_count = initialCount, m_sema = 0\<rparr> else Inl (AssertFailed ''initialCount >= 0''))"

definition availableApprox :: "lw_sema \<Rightarrow> nat" where
  "availableApprox s = (if m_count s > 0 then nat (m_count s) else 0)"

text \<open>Taking from the kernel semaphore when it is positive.\<close>

definition Semaphore_try_wait :: "lw_sema \<Rightarrow> bool \<times> lw_sema" where
  "Semaphore_try_wait s = (if m_sema s > 0 then (True, s\<lparr>m_sema := m_sema s - 1\<rparr>) else (False, s))"

subsection \<open>One signaller, one waiter\<close>

definition sp_tryWait :: "lw_sema \<Rightarrow> bool \<times> lw_sema" where
  "sp_tryWait s = (if m_count s > 0 then (True, s\<lparr>m_count := m_count s - 1\<rparr>) else (False, s))"

fun sp_spin :: "nat \<Rightarrow> lw_sema \<Rightarrow> bool \<times> lw_sema" where
  "sp_spin 0 s = (False, s)"
| "sp_spin (Suc spin) s = (if m_count s > 0 then (True, s\<lparr>m_count := m_count s - 1\<rparr>) else sp_spin spin s)"

text \<open>The last loop: give the decrement back, or take the signal that came after all.\<close>

partial_function (option) sp_restore :: "lw_sema \<Rightarrow> (bool \<times> lw_sema) option" where
  "sp_restore s =
     (let oldCount = m_count s; s = s\<lparr>m_count := m_count s + 1\<rparr>
      in if oldCount < 0 then Some (False, s)
         else let oldCount = m_count s; s = s\<lparr>m_count := m_count s - 1\<rparr>
              in if oldCount > 0
                 then (case Semaphore_try_wait s of (taken, s) \<Rightarrow> if taken then Some (True, s) else sp_restore s)
                 else sp_restore s)"

text \<open>A negative timeout waits without limit: alone, a thread then never returns (\<open>None\<close>) unless a signal is there.\<close>

definition sp_waitWithPartialSpinning :: "nat \<Rightarrow> int \<Rightarrow> lw_sema \<Rightarrow> (bool \<times> lw_sema) option" where
  "sp_waitWithPartialSpinning spin timeout_usecs s =
     (case sp_spin spin s of
        (True, s) \<Rightarrow> Some (True, s)
      | (False, s) \<Rightarrow>
          let oldCount = m_count s; s = s\<lparr>m_count := m_count s - 1\<rparr>
          in if oldCount > 0 then Some (True, s)
             else if timeout_usecs < 0
                  then (case Semaphore_try_wait s of (True, s) \<Rightarrow> Some (True, s) | (False, _) \<Rightarrow> None)
             else if timeout_usecs > 0
                  then (case Semaphore_try_wait s of (True, s) \<Rightarrow> Some (True, s) | (False, s) \<Rightarrow> sp_restore s)
             else sp_restore s)"

definition sp_wait :: "int \<Rightarrow> lw_sema \<Rightarrow> (bool \<times> lw_sema) option" where
  "sp_wait timeout_usecs s =
     (case sp_tryWait s of (True, s) \<Rightarrow> Some (True, s) | (False, s) \<Rightarrow> sp_waitWithPartialSpinning 1024 timeout_usecs s)"

definition sp_signal :: "int \<Rightarrow> lw_sema \<Rightarrow> lw_sema result" where
  "sp_signal count s =
     (if \<not> count \<ge> 0 then Inl (AssertFailed ''count >= 0'')
      else let oldCount = m_count s; s = s\<lparr>m_count := m_count s + count\<rparr>
           in if \<not> oldCount \<ge> - 1 then Inl (AssertFailed ''oldCount >= -1'')
              else if oldCount < 0 then Inr (s\<lparr>m_sema := Semaphore_signal 1 (m_sema s)\<rparr>) else Inr s)"

subsection \<open>Any number of threads\<close>

text \<open>
  The loops around \<open>compare_exchange\<close> end at once when no other thread interferes: the count that was loaded
  is still there.
\<close>

definition mp_take :: "int \<Rightarrow> lw_sema \<Rightarrow> int \<times> lw_sema" where
  "mp_take max_count s =
     (let oldCount = m_count s
      in if oldCount > 0
         then let newCount = (if oldCount > max_count then oldCount - max_count else 0)
              in (oldCount - newCount, s\<lparr>m_count := newCount\<rparr>)
         else (0, s))"

definition mp_tryWait :: "lw_sema \<Rightarrow> bool \<times> lw_sema" where
  "mp_tryWait s = (let oldCount = m_count s in if oldCount > 0 then (True, s\<lparr>m_count := oldCount - 1\<rparr>) else (False, s))"

definition mp_tryWaitMany :: "int \<Rightarrow> lw_sema \<Rightarrow> (int \<times> lw_sema) result" where
  "mp_tryWaitMany max_count s = (if max_count \<ge> 0 then Inr (mp_take max_count s) else Inl (AssertFailed ''max >= 0''))"

fun mp_spin :: "nat \<Rightarrow> int \<Rightarrow> lw_sema \<Rightarrow> int \<times> lw_sema" where
  "mp_spin 0 max_count s = (0, s)"
| "mp_spin (Suc spin) max_count s = (if m_count s > 0 then mp_take max_count s else mp_spin spin max_count s)"

partial_function (option) mp_restore :: "lw_sema \<Rightarrow> (bool \<times> lw_sema) option" where
  "mp_restore s =
     (let oldCount = m_count s
      in if oldCount \<ge> 0 \<and> fst (Semaphore_try_wait s) then Some (True, snd (Semaphore_try_wait s))
         else if oldCount < 0 then Some (False, s\<lparr>m_count := oldCount + 1\<rparr>)
         else mp_restore s)"

text \<open>
  The part of \<open>waitWithPartialSpinning\<close> and \<open>waitManyWithPartialSpinning\<close> after the spinning: one unit is taken
  (\<open>True\<close>), or not (\<open>False\<close>).
\<close>

definition mp_block :: "int \<Rightarrow> lw_sema \<Rightarrow> (bool \<times> lw_sema) option" where
  "mp_block timeout_usecs s =
     (let oldCount = m_count s; s = s\<lparr>m_count := m_count s - 1\<rparr>
      in if oldCount > 0 then Some (True, s)
         else if timeout_usecs < 0
              then (case Semaphore_try_wait s of (True, s) \<Rightarrow> Some (True, s) | (False, _) \<Rightarrow> None)
         else if timeout_usecs > 0
              then (case Semaphore_try_wait s of (True, s) \<Rightarrow> Some (True, s) | (False, s) \<Rightarrow> mp_restore s)
         else mp_restore s)"

definition mp_wait :: "nat \<Rightarrow> int \<Rightarrow> lw_sema \<Rightarrow> (bool \<times> lw_sema) option" where
  "mp_wait maxSpins timeout_usecs s =
     (case mp_tryWait s of
        (True, s) \<Rightarrow> Some (True, s)
      | (False, s) \<Rightarrow>
          (case mp_spin maxSpins 1 s of
             (n, s) \<Rightarrow> if n > 0 then Some (True, s) else mp_block timeout_usecs s))"

definition mp_waitManyWithPartialSpinning :: "nat \<Rightarrow> int \<Rightarrow> int \<Rightarrow> lw_sema \<Rightarrow> (int \<times> lw_sema) result option" where
  "mp_waitManyWithPartialSpinning maxSpins max_count timeout_usecs s =
     (if \<not> max_count > 0 then Some (Inl (AssertFailed ''max > 0''))
      else case mp_spin maxSpins max_count s of
        (n, s) \<Rightarrow>
          if n > 0 then Some (Inr (n, s))
          else case mp_block timeout_usecs s of
            None \<Rightarrow> None
          | Some (False, s) \<Rightarrow> Some (Inr (0, s))
          | Some (True, s) \<Rightarrow>
              if max_count > 1 then Some (map_sum id (\<lambda>(n, s). (1 + n, s)) (mp_tryWaitMany (max_count - 1) s))
              else Some (Inr (1, s)))"

definition mp_waitMany :: "nat \<Rightarrow> int \<Rightarrow> int \<Rightarrow> lw_sema \<Rightarrow> (int \<times> lw_sema) result option" where
  "mp_waitMany maxSpins max_count timeout_usecs s =
     (if \<not> max_count \<ge> 0 then Some (Inl (AssertFailed ''max >= 0''))
      else case mp_tryWaitMany max_count s of
        Inl e \<Rightarrow> Some (Inl e)
      | Inr (result, s) \<Rightarrow>
          if result = 0 \<and> max_count > 0 then mp_waitManyWithPartialSpinning maxSpins max_count timeout_usecs s
          else Some (Inr (result, s)))"

text \<open>\<open>waitMany(max)\<close> without a time limit asserts that it has got something, which it has not when \<open>max\<close> is 0.\<close>

definition mp_waitMany_untimed :: "nat \<Rightarrow> int \<Rightarrow> lw_sema \<Rightarrow> (int \<times> lw_sema) result option" where
  "mp_waitMany_untimed maxSpins max_count s =
     (case mp_waitMany maxSpins max_count (- 1) s of
        None \<Rightarrow> None
      | Some (Inl e) \<Rightarrow> Some (Inl e)
      | Some (Inr (r, s)) \<Rightarrow> Some (if r > 0 then Inr (r, s) else Inl (AssertFailed ''result > 0'')))"

definition mp_signal :: "int \<Rightarrow> lw_sema \<Rightarrow> lw_sema result" where
  "mp_signal count s =
     (if \<not> count \<ge> 0 then Inl (AssertFailed ''count >= 0'')
      else let oldCount = m_count s; s = s\<lparr>m_count := m_count s + count\<rparr>;
               toRelease = (if - oldCount < count then - oldCount else count)
           in if toRelease > 0 then Inr (s\<lparr>m_sema := Semaphore_signal toRelease (m_sema s)\<rparr>) else Inr s)"

section \<open>What the queues rely on\<close>

text \<open>A semaphore at rest: taking succeeds exactly when units are left, giving adds one.\<close>

locale semaphore =
  fixes sinv :: "'s \<Rightarrow> bool" and avail :: "'s \<Rightarrow> nat" and tryWait :: "'s \<Rightarrow> (bool \<times> 's) result" and signal :: "'s \<Rightarrow> 's result"
  assumes tryWait_pos: "sinv s \<Longrightarrow> 0 < avail s \<Longrightarrow> \<exists>s'. tryWait s = Inr (True, s') \<and> sinv s' \<and> Suc (avail s') = avail s"
    and tryWait_zero: "sinv s \<Longrightarrow> avail s = 0 \<Longrightarrow> tryWait s = Inr (False, s)"
    and signal_ok: "sinv s \<Longrightarrow> \<exists>s'. signal s = Inr s' \<and> sinv s' \<and> avail s' = Suc (avail s)"
begin

lemma tryWait_cases:
  assumes "sinv s" shows "\<exists>s'. tryWait s = Inr (0 < avail s, s') \<and> sinv s' \<and> avail s = avail s' + (if 0 < avail s then 1 else 0)"
  using tryWait_pos [OF assms] tryWait_zero [OF assms] assms by (cases "avail s = 0") auto

lemma signal_then_wait:
  assumes "sinv s" "signal s = Inr s'" shows "\<exists>s''. tryWait s' = Inr (True, s'') \<and> sinv s'' \<and> avail s'' = avail s"
  using signal_ok [OF assms(1)] assms(2) tryWait_pos [of s'] by auto

end

text \<open>The queues hold a semaphore through a pointer, which is null in an object that was moved from.\<close>

definition ptr_tryWait :: "('s \<Rightarrow> (bool \<times> 's) result) \<Rightarrow> 's option \<Rightarrow> (bool \<times> 's option) result" where
  "ptr_tryWait tryWait p = (case p of None \<Rightarrow> Inl (UndefinedBehaviour ''sema'') | Some s \<Rightarrow> map_sum id (\<lambda>(b, s). (b, Some s)) (tryWait s))"

definition ptr_signal :: "('s \<Rightarrow> 's result) \<Rightarrow> 's option \<Rightarrow> 's option result" where
  "ptr_signal signal p = (case p of None \<Rightarrow> Inl (UndefinedBehaviour ''sema'') | Some s \<Rightarrow> map_sum id Some (signal s))"

definition ptr_avail :: "('s \<Rightarrow> nat) \<Rightarrow> 's option \<Rightarrow> nat" where
  "ptr_avail avail p = (case p of None \<Rightarrow> 0 | Some s \<Rightarrow> avail s)"

context semaphore
begin

lemma semaphore_ptr:
  "semaphore (\<lambda>p. \<exists>s. p = Some s \<and> sinv s) (ptr_avail avail) (ptr_tryWait tryWait) (ptr_signal signal)"
proof
  fix p :: "'s option" assume "\<exists>s. p = Some s \<and> sinv s"
  then obtain s where p: "p = Some s" "sinv s" by blast
  show "0 < ptr_avail avail p \<Longrightarrow> \<exists>p'. ptr_tryWait tryWait p = Inr (True, p') \<and> (\<exists>s. p' = Some s \<and> sinv s) \<and> Suc (ptr_avail avail p') = ptr_avail avail p"
    using p tryWait_pos [OF p(2)] by (auto simp: ptr_tryWait_def ptr_avail_def)
  show "ptr_avail avail p = 0 \<Longrightarrow> ptr_tryWait tryWait p = Inr (False, p)"
    using p tryWait_zero [OF p(2)] by (auto simp: ptr_tryWait_def ptr_avail_def)
  show "\<exists>p'. ptr_signal signal p = Inr p' \<and> (\<exists>s. p' = Some s \<and> sinv s) \<and> ptr_avail avail p' = Suc (ptr_avail avail p)"
    using p signal_ok [OF p(2)] by (auto simp: ptr_signal_def ptr_avail_def)
qed

end

definition lw_quiet :: "lw_sema \<Rightarrow> bool" where
  "lw_quiet s \<longleftrightarrow> 0 \<le> m_count s \<and> m_sema s = 0"

interpretation sp: semaphore lw_quiet availableApprox "\<lambda>s. Inr (sp_tryWait s)" "sp_signal 1"
  by unfold_locales (auto simp: lw_quiet_def availableApprox_def sp_tryWait_def sp_signal_def Let_def split: if_splits)

interpretation mp: semaphore lw_quiet availableApprox "\<lambda>s. Inr (mp_tryWait s)" "mp_signal 1"
  by unfold_locales (auto simp: lw_quiet_def availableApprox_def mp_tryWait_def mp_signal_def Let_def split: if_splits)

lemma sp_spin_zero: "m_count s \<le> 0 \<Longrightarrow> sp_spin n s = (False, s)"
  by (induction n) auto

lemma mp_spin_zero: "m_count s \<le> 0 \<Longrightarrow> mp_spin n k s = (0, s)"
  by (induction n) auto

lemma restore_at_once:
  assumes "m_count s = - 1" shows "sp_restore s = Some (False, s\<lparr>m_count := 0\<rparr>)" "mp_restore s = Some (False, s\<lparr>m_count := 0\<rparr>)"
  by (subst sp_restore.simps, simp add: assms) (subst mp_restore.simps, simp add: assms)

text \<open>
  A thread on its own: \<open>wait\<close> with units left takes one; with none left it waits for ever when no timeout is given
  and otherwise returns false and leaves the semaphore as it was. Both semaphores agree.
\<close>

lemma sp_wait_alone:
  assumes "lw_quiet s"
  shows "sp_wait t s = (if 0 < m_count s then Some (True, s\<lparr>m_count := m_count s - 1\<rparr>) else if t < 0 then None else Some (False, s))"
  using assms by (auto simp: sp_wait_def sp_tryWait_def sp_waitWithPartialSpinning_def sp_spin_zero Semaphore_try_wait_def lw_quiet_def
      restore_at_once Let_def)

lemma mp_wait_alone:
  assumes "lw_quiet s"
  shows "mp_wait n t s = (if 0 < m_count s then Some (True, s\<lparr>m_count := m_count s - 1\<rparr>) else if t < 0 then None else Some (False, s))"
  using assms by (auto simp: mp_wait_def mp_tryWait_def mp_block_def mp_spin_zero Semaphore_try_wait_def lw_quiet_def restore_at_once Let_def)

lemma mp_waitMany_alone:
  assumes "lw_quiet s" "0 < n"
  shows "mp_waitMany k n t s = (if 0 < m_count s then Some (Inr (min n (m_count s), s\<lparr>m_count := m_count s - min n (m_count s)\<rparr>))
    else if t < 0 then None else Some (Inr (0, s)))"
  using assms by (auto simp: mp_waitMany_def mp_tryWaitMany_def mp_take_def mp_waitManyWithPartialSpinning_def mp_block_def mp_spin_zero
      Semaphore_try_wait_def lw_quiet_def restore_at_once Let_def)

text \<open>
  C30. The semaphores as one thread sees them: \<open>wait\<close> takes a unit when there is one, and otherwise blocks (negative
  timeout) or returns false and leaves the semaphore as it was; \<open>waitMany\<close> takes as many as there are, up
  to its limit; and a signal is answered by exactly one \<open>tryWait\<close>. The semaphore of one signaller and one
  waiter and the general one agree.
\<close>

theorem semaphore_alone:
  assumes "lw_quiet s" "0 < n"
  shows "sp_wait t s = (if 0 < m_count s then Some (True, s\<lparr>m_count := m_count s - 1\<rparr>) else if t < 0 then None else Some (False, s)) \<and>
    mp_wait k t s = sp_wait t s \<and>
    mp_waitMany k n t s = (if 0 < m_count s then Some (Inr (min n (m_count s), s\<lparr>m_count := m_count s - min n (m_count s)\<rparr>))
      else if t < 0 then None else Some (Inr (0, s))) \<and>
    (\<exists>s'. sp_signal 1 s = Inr s' \<and> mp_signal 1 s = Inr s' \<and> sp_tryWait s' = (True, s) \<and> mp_tryWait s' = (True, s))"
proof -
  have "\<exists>s'. sp_signal 1 s = Inr s' \<and> mp_signal 1 s = Inr s' \<and> sp_tryWait s' = (True, s) \<and> mp_tryWait s' = (True, s)"
    using assms(1) by (cases s) (auto simp: sp_signal_def mp_signal_def sp_tryWait_def mp_tryWait_def lw_quiet_def Let_def)
  then show ?thesis
    unfolding sp_wait_alone [OF assms(1)] mp_wait_alone [OF assms(1)] mp_waitMany_alone [OF assms] by simp
qed

theorem semaphore_alone_witness:
  "sp_wait 5 \<lparr>m_count = 0, m_sema = 0\<rparr> = Some (False, \<lparr>m_count = 0, m_sema = 0\<rparr>) \<and>
   mp_waitMany 10 3 (- 1) \<lparr>m_count = 2, m_sema = 0\<rparr> = Some (Inr (2, \<lparr>m_count = 0, m_sema = 0\<rparr>))"
  using semaphore_alone [of "\<lparr>m_count = 0, m_sema = 0\<rparr>" 1 5] semaphore_alone [of "\<lparr>m_count = 2, m_sema = 0\<rparr>" 3 "- 1" 10]
  by (simp add: lw_quiet_def)

text \<open>
  The deadline \<open>timed_wait\<close> hands to the kernel is exactly \<open>usecs\<close> microseconds after the current time, with the
  nanoseconds below one second, as the kernel requires; and an interrupted call is repeated until one is not.
\<close>

theorem timed_wait_spec:
  assumes "0 \<le> nsec" "nsec < 1000000000" "0 \<le> usecs" "timed_wait_deadline sec nsec usecs = (sec', nsec')"
    "\<And>j. j < k \<Longrightarrow> call j = (- 1, EINTR)" "call k = (rc, err)" "\<not> (rc = - 1 \<and> err = EINTR)"
  shows "0 \<le> nsec' \<and> nsec' < 1000000000 \<and> sec' * 1000000000 + nsec' = (sec * 1000000000 + nsec) + usecs * 1000 \<and>
    sem_retry call 0 = Some (rc = 0)"
proof -
  define d r where "d = usecs div 1000000" and "r = usecs mod 1000000"
  have m: "0 \<le> r" "r < 1000000" "usecs = d * 1000000 + r" by (simp_all add: d_def r_def)
  from m assms(4) have "0 \<le> nsec' \<and> nsec' < 1000000000 \<and> sec' * 1000000000 + nsec' = (sec * 1000000000 + nsec) + usecs * 1000"
    using assms(1-3) unfolding timed_wait_deadline_def Let_def d_def [symmetric] r_def [symmetric] by (auto split: if_splits)
  then show ?thesis using sem_retry_first [of k call 0 rc err] assms(5-7) by simp
qed

theorem timed_wait_spec_witness: "timed_wait_deadline 7 999999999 1500000 = (9, 499999999) \<and> sem_retry (\<lambda>i. if i < 2 then (- 1, EINTR) else (0, 0)) 0 = Some True"
  using timed_wait_spec [of 999999999 1500000 7 9 499999999 2 "\<lambda>i. if i < 2 then (- 1, EINTR) else (0, 0)" 0 0]
  by (simp add: timed_wait_deadline_def)

end
