(* ===== verification/Sema_Concurrent.thy ===== *)
theory Sema_Concurrent
  imports Semaphore
begin

text \<open>
  The two semaphores with their threads interleaved, one access to shared memory at a time: the general one
  with any number of waiting and signalling threads, and the one for a single waiter, whose check and
  decrement are separate accesses. A timeout may come at any moment.
\<close>

lemma sum_fun_upd:
  fixes g :: "'b \<Rightarrow> int" and t N :: nat
  assumes "t < N" shows "(\<Sum>u < N. g ((f(t := x)) u)) = (\<Sum>u < N. g (f u)) - g (f t) + g x"
  using sum_upd [OF assms, of g f x] by simp

section \<open>Any number of threads\<close>

text \<open>
  Where a waiting thread is. \<open>tryWait\<close> and \<open>wait\<close> are \<open>tryWaitMany\<close> and \<open>waitMany\<close> with a maximum of 1. The mode
  says what a failed attempt leads to: \<open>Try\<close> returns, \<open>Wait\<close> goes on to spin, \<open>Extra\<close> (the attempt to get
  more after one unit) returns that unit.
\<close>

datatype mp_mode = Try | Wait | Extra

datatype mp_pc =
    MIdle
  | MLoad int mp_mode
  | MCas int int mp_mode        \<comment> \<open>the loaded count, the maximum\<close>
  | MSpin nat int               \<comment> \<open>rounds left\<close>
  | MSpinCas nat int int
  | MSub int
  | MBlock int                  \<comment> \<open>in \<open>m_sema.wait()\<close> or \<open>timed_wait()\<close>\<close>
  | MCheck int
  | MTry int
  | MUndo int int

record mp_sys =
  mp_count :: int
  mp_sema :: nat
  mp_pc :: "nat \<Rightarrow> mp_pc"
  mp_post :: "nat \<Rightarrow> nat"         \<comment> \<open>posts a signalling thread still has to make\<close>
  mp_acquired :: int
  mp_given :: int                  \<comment> \<open>the initial count and everything signalled\<close>

definition mp_new :: "int \<Rightarrow> int \<Rightarrow> int" where
  "mp_new old m = (if old > m then old - m else 0)"

text \<open>After a load of the count (also the one a failed \<open>compare_exchange\<close> makes).\<close>

definition mp_loaded :: "nat \<Rightarrow> int \<Rightarrow> int \<Rightarrow> mp_mode \<Rightarrow> mp_pc" where
  "mp_loaded spins c m mode = (if c > 0 then MCas c m mode else if mode = Wait then MSpin spins m else MIdle)"

definition mp_after :: "int \<Rightarrow> mp_pc" where
  "mp_after m = (if m > 1 then MLoad (m - 1) Extra else MIdle)"

inductive mp_wstep :: "nat \<Rightarrow> nat \<Rightarrow> mp_sys \<Rightarrow> mp_sys \<Rightarrow> bool" for N spins :: nat where
  w_call: "t < N \<Longrightarrow> mp_pc s t = MIdle \<Longrightarrow> 0 < m \<Longrightarrow> mode \<noteq> Extra \<Longrightarrow> mp_wstep N spins s (s\<lparr>mp_pc := (mp_pc s)(t := MLoad m mode)\<rparr>)"
| w_load: "t < N \<Longrightarrow> mp_pc s t = MLoad m mode \<Longrightarrow>
    mp_wstep N spins s (s\<lparr>mp_pc := (mp_pc s)(t := mp_loaded spins (mp_count s) m mode)\<rparr>)"
| w_cas: "t < N \<Longrightarrow> mp_pc s t = MCas old m mode \<Longrightarrow> mp_count s = old \<Longrightarrow>
    mp_wstep N spins s (s\<lparr>mp_count := mp_new old m, mp_pc := (mp_pc s)(t := MIdle), mp_acquired := mp_acquired s + (old - mp_new old m)\<rparr>)"
| w_cas_fail: "t < N \<Longrightarrow> mp_pc s t = MCas old m mode \<Longrightarrow>
    mp_wstep N spins s (s\<lparr>mp_pc := (mp_pc s)(t := mp_loaded spins (mp_count s) m mode)\<rparr>)"
| w_spin: "t < N \<Longrightarrow> mp_pc s t = MSpin (Suc n) m \<Longrightarrow>
    mp_wstep N spins s (s\<lparr>mp_pc := (mp_pc s)(t := if mp_count s > 0 then MSpinCas n (mp_count s) m else MSpin n m)\<rparr>)"
| w_spin_cas: "t < N \<Longrightarrow> mp_pc s t = MSpinCas n old m \<Longrightarrow> mp_count s = old \<Longrightarrow>
    mp_wstep N spins s (s\<lparr>mp_count := mp_new old m, mp_pc := (mp_pc s)(t := MIdle), mp_acquired := mp_acquired s + (old - mp_new old m)\<rparr>)"
| w_spin_fail: "t < N \<Longrightarrow> mp_pc s t = MSpinCas n old m \<Longrightarrow> mp_count s \<noteq> old \<Longrightarrow>
    mp_wstep N spins s (s\<lparr>mp_pc := (mp_pc s)(t := MSpin n m)\<rparr>)"
| w_spin_end: "t < N \<Longrightarrow> mp_pc s t = MSpin 0 m \<Longrightarrow> mp_wstep N spins s (s\<lparr>mp_pc := (mp_pc s)(t := MSub m)\<rparr>)"
| w_sub: "t < N \<Longrightarrow> mp_pc s t = MSub m \<Longrightarrow> 0 < mp_count s \<Longrightarrow>
    mp_wstep N spins s (s\<lparr>mp_count := mp_count s - 1, mp_pc := (mp_pc s)(t := mp_after m), mp_acquired := mp_acquired s + 1\<rparr>)"
| w_sub_block: "t < N \<Longrightarrow> mp_pc s t = MSub m \<Longrightarrow> mp_count s \<le> 0 \<Longrightarrow>
    mp_wstep N spins s (s\<lparr>mp_count := mp_count s - 1, mp_pc := (mp_pc s)(t := MBlock m)\<rparr>)"
| w_wake: "t < N \<Longrightarrow> mp_pc s t = MBlock m \<Longrightarrow> mp_sema s = Suc n \<Longrightarrow>
    mp_wstep N spins s (s\<lparr>mp_sema := n, mp_pc := (mp_pc s)(t := mp_after m), mp_acquired := mp_acquired s + 1\<rparr>)"
| w_timeout: "t < N \<Longrightarrow> mp_pc s t = MBlock m \<Longrightarrow> mp_wstep N spins s (s\<lparr>mp_pc := (mp_pc s)(t := MCheck m)\<rparr>)"
| w_check: "t < N \<Longrightarrow> mp_pc s t = MCheck m \<Longrightarrow>
    mp_wstep N spins s (s\<lparr>mp_pc := (mp_pc s)(t := if mp_count s \<ge> 0 then MTry m else MUndo (mp_count s) m)\<rparr>)"
| w_try: "t < N \<Longrightarrow> mp_pc s t = MTry m \<Longrightarrow> mp_sema s = Suc n \<Longrightarrow>
    mp_wstep N spins s (s\<lparr>mp_sema := n, mp_pc := (mp_pc s)(t := mp_after m), mp_acquired := mp_acquired s + 1\<rparr>)"
| w_try_fail: "t < N \<Longrightarrow> mp_pc s t = MTry m \<Longrightarrow> mp_sema s = 0 \<Longrightarrow> mp_wstep N spins s (s\<lparr>mp_pc := (mp_pc s)(t := MCheck m)\<rparr>)"
| w_undo: "t < N \<Longrightarrow> mp_pc s t = MUndo old m \<Longrightarrow> mp_count s = old \<Longrightarrow>
    mp_wstep N spins s (s\<lparr>mp_count := old + 1, mp_pc := (mp_pc s)(t := MIdle)\<rparr>)"
| w_undo_fail: "t < N \<Longrightarrow> mp_pc s t = MUndo old m \<Longrightarrow> mp_count s \<noteq> old \<Longrightarrow>
    mp_wstep N spins s (s\<lparr>mp_pc := (mp_pc s)(t := MCheck m)\<rparr>)"

text \<open>\<open>signal(count)\<close>: the addition, then one post after the other.\<close>

inductive mp_sstep :: "nat \<Rightarrow> mp_sys \<Rightarrow> mp_sys \<Rightarrow> bool" for N :: nat where
  s_add: "t < N \<Longrightarrow> mp_post s t = 0 \<Longrightarrow> 0 \<le> k \<Longrightarrow>
    mp_sstep N s (s\<lparr>mp_count := mp_count s + k,
      mp_post := (mp_post s)(t := nat (if - mp_count s < k then - mp_count s else k)), mp_given := mp_given s + k\<rparr>)"
| s_post: "t < N \<Longrightarrow> mp_post s t = Suc n \<Longrightarrow>
    mp_sstep N s (s\<lparr>mp_sema := Suc (mp_sema s), mp_post := (mp_post s)(t := n)\<rparr>)"

inductive mp_step :: "nat \<Rightarrow> nat \<Rightarrow> mp_sys \<Rightarrow> mp_sys \<Rightarrow> bool" for N spins :: nat where
  by_waiter: "mp_wstep N spins s s' \<Longrightarrow> mp_step N spins s s'"
| by_signaller: "mp_sstep N s s' \<Longrightarrow> mp_step N spins s s'"

definition mp_init :: "int \<Rightarrow> mp_sys \<Rightarrow> bool" where
  "mp_init c s \<longleftrightarrow> 0 \<le> c \<and> s = \<lparr>mp_count = c, mp_sema = 0, mp_pc = (\<lambda>_. MIdle), mp_post = (\<lambda>_. 0), mp_acquired = 0, mp_given = c\<rparr>"

text \<open>A thread that has taken a unit it does not have yet: from the failed decrement on.\<close>

fun mp_owes :: "mp_pc \<Rightarrow> int" where
  "mp_owes (MBlock m) = 1" | "mp_owes (MCheck m) = 1" | "mp_owes (MTry m) = 1" | "mp_owes (MUndo old m) = 1" | "mp_owes _ = 0"

fun mp_pc_ok :: "mp_pc \<Rightarrow> bool" where
  "mp_pc_ok (MCas old m mode) = (0 < old \<and> 0 < m)"
| "mp_pc_ok (MSpinCas n old m) = (0 < old \<and> 0 < m)"
| "mp_pc_ok (MUndo old m) = (old < 0)"
| "mp_pc_ok (MLoad m mode) = (0 < m)"
| "mp_pc_ok (MSpin n m) = (0 < m)"
| "mp_pc_ok (MSub m) = (0 < m)"
| "mp_pc_ok _ = True"

definition mp_waiting :: "nat \<Rightarrow> mp_sys \<Rightarrow> int" where
  "mp_waiting N s = (\<Sum>t < N. mp_owes (mp_pc s t))"

definition mp_posts :: "nat \<Rightarrow> mp_sys \<Rightarrow> int" where
  "mp_posts N s = (\<Sum>t < N. int (mp_post s t))"

definition mp_inv :: "nat \<Rightarrow> mp_sys \<Rightarrow> bool" where
  "mp_inv N s \<longleftrightarrow> mp_count s + mp_waiting N s = mp_given s - mp_acquired s \<and>
     int (mp_sema s) + mp_posts N s = mp_waiting N s - (if mp_count s < 0 then - mp_count s else 0) \<and>
     (\<forall>t < N. mp_pc_ok (mp_pc s t))"

lemma mp_waiting_upd: "t < N \<Longrightarrow> mp_waiting N (s\<lparr>mp_pc := (mp_pc s)(t := p)\<rparr>) = mp_waiting N s - mp_owes (mp_pc s t) + mp_owes p"
  using sum_fun_upd [of t N mp_owes "mp_pc s" p] by (simp add: mp_waiting_def)

lemma mp_posts_upd: "t < N \<Longrightarrow> mp_posts N (s\<lparr>mp_post := (mp_post s)(t := n)\<rparr>) = mp_posts N s - int (mp_post s t) + int n"
  using sum_fun_upd [of t N int "mp_post s" n] by (simp add: mp_posts_def)

lemma mp_sum_upd [simp]:
  "mp_waiting N (s\<lparr>mp_count := c\<rparr>) = mp_waiting N s" "mp_waiting N (s\<lparr>mp_sema := n\<rparr>) = mp_waiting N s"
  "mp_waiting N (s\<lparr>mp_post := p\<rparr>) = mp_waiting N s" "mp_waiting N (s\<lparr>mp_acquired := a\<rparr>) = mp_waiting N s" "mp_waiting N (s\<lparr>mp_given := a\<rparr>) = mp_waiting N s"
  "mp_posts N (s\<lparr>mp_count := c\<rparr>) = mp_posts N s" "mp_posts N (s\<lparr>mp_sema := n\<rparr>) = mp_posts N s"
  "mp_posts N (s\<lparr>mp_pc := q\<rparr>) = mp_posts N s" "mp_posts N (s\<lparr>mp_acquired := a\<rparr>) = mp_posts N s" "mp_posts N (s\<lparr>mp_given := a\<rparr>) = mp_posts N s"
  by (simp_all add: mp_waiting_def mp_posts_def)

text \<open>A step of a waiting thread in terms of the sums.\<close>

lemma mp_inv_pc:
  assumes "mp_inv N s" "t < N" "mp_pc_ok p"
    "c + mp_owes p - mp_owes (mp_pc s t) = mp_count s - a"
    "int n = int (mp_sema s) + mp_owes p - mp_owes (mp_pc s t) + (if mp_count s < 0 then - mp_count s else 0) - (if c < 0 then - c else 0)"
  shows "mp_inv N (s\<lparr>mp_count := c, mp_sema := n, mp_pc := (mp_pc s)(t := p), mp_acquired := mp_acquired s + a\<rparr>)"
proof -
  have "mp_waiting N (s\<lparr>mp_count := c, mp_sema := n, mp_pc := (mp_pc s)(t := p), mp_acquired := mp_acquired s + a\<rparr>) = mp_waiting N s - mp_owes (mp_pc s t) + mp_owes p"
    using mp_waiting_upd [OF assms(2), of "s\<lparr>mp_count := c, mp_sema := n\<rparr>" p] by (simp add: mp_waiting_def)
  then show ?thesis using assms by (auto simp: mp_inv_def mp_posts_def)
qed

lemma mp_loaded_ok: "0 < m \<Longrightarrow> mp_pc_ok (mp_loaded spins c m mode) \<and> mp_owes (mp_loaded spins c m mode) = 0"
  by (simp add: mp_loaded_def)

lemma mp_after_ok: "mp_pc_ok (mp_after m) \<and> mp_owes (mp_after m) = 0"
  by (simp add: mp_after_def)

lemma mp_pc_only:
  assumes "mp_inv N s" "t < N" "mp_pc_ok p" "mp_owes p = mp_owes (mp_pc s t)"
  shows "mp_inv N (s\<lparr>mp_pc := (mp_pc s)(t := p)\<rparr>)"
  using mp_inv_pc [OF assms(1-3), of "mp_count s" 0 "mp_sema s"] assms(4) by simp

lemma mp_took:
  assumes "mp_inv N s" "t < N" "0 < m" "0 < mp_count s" "mp_owes (mp_pc s t) = 0"
  shows "mp_inv N (s\<lparr>mp_count := mp_new (mp_count s) m, mp_pc := (mp_pc s)(t := MIdle), mp_acquired := mp_acquired s + (mp_count s - mp_new (mp_count s) m)\<rparr>)"
  using mp_inv_pc [OF assms(1,2), of MIdle "mp_new (mp_count s) m" "mp_count s - mp_new (mp_count s) m" "mp_sema s"] assms(3-5)
  by (simp add: mp_new_def split: if_splits)

lemma mp_granted:
  assumes "mp_inv N s" "t < N" "mp_sema s = Suc n" "mp_owes (mp_pc s t) = 1"
  shows "mp_inv N (s\<lparr>mp_sema := n, mp_pc := (mp_pc s)(t := mp_after m), mp_acquired := mp_acquired s + 1\<rparr>)"
  using mp_inv_pc [OF assms(1,2), of "mp_after m" "mp_count s" 1 n] assms(3,4) mp_after_ok [of m] by simp

lemma mp_inv_pcok: "t < N \<Longrightarrow> mp_inv N s \<Longrightarrow> mp_pc s t = p \<Longrightarrow> mp_pc_ok p"
  by (auto simp: mp_inv_def)

lemma mp_wstep_inv: "mp_wstep N spins s s' \<Longrightarrow> mp_inv N s \<Longrightarrow> mp_inv N s'"
proof (induction rule: mp_wstep.induct)
  case (w_load t s m mode)
  then have "0 < m" by (auto simp: mp_inv_def dest: spec [of _ t])
  with w_load show ?case using mp_loaded_ok [of m spins "mp_count s" mode] by (intro mp_pc_only) auto
next
  case (w_cas_fail t s old m mode)
  then have "0 < m" by (auto simp: mp_inv_def dest: spec [of _ t])
  with w_cas_fail show ?case using mp_loaded_ok [of m spins "mp_count s" mode] by (intro mp_pc_only) auto
next
  case (w_cas t s old m mode)
  then have "0 < m \<and> 0 < old" by (auto simp: mp_inv_def dest: spec [of _ t])
  with w_cas show ?case using mp_took [of N s t m] by auto
next
  case (w_spin_cas t s n old m)
  then have "0 < m \<and> 0 < old" by (auto simp: mp_inv_def dest: spec [of _ t])
  with w_spin_cas show ?case using mp_took [of N s t m] by auto
next
  case (w_sub t s m)
  then show ?case using mp_inv_pc [of N s t "mp_after m" "mp_count s - 1" 1 "mp_sema s"] mp_after_ok [of m] by simp
next
  case (w_sub_block t s m)
  then show ?case using mp_inv_pc [of N s t "MBlock m" "mp_count s - 1" 0 "mp_sema s"] by (simp split: if_splits)
next
  case (w_undo t s old m)
  then have "old < 0" by (auto simp: mp_inv_def dest: spec [of _ t])
  with w_undo show ?case using mp_inv_pc [of N s t MIdle "old + 1" 0 "mp_sema s"] by (simp split: if_splits)
next
  case (w_wake t s m n)
  then show ?case by (intro mp_granted) auto
next
  case (w_try t s m n)
  then show ?case by (intro mp_granted) auto
next
  case (w_check t s m)
  then show ?case by (intro mp_pc_only) auto
qed (auto intro!: mp_pc_only dest: mp_inv_pcok)

lemma mp_sstep_inv: "mp_sstep N s s' \<Longrightarrow> mp_inv N s \<Longrightarrow> mp_inv N s'"
proof (induction rule: mp_sstep.induct)
  case (s_add t s k)
  let ?p = "nat (if - mp_count s < k then - mp_count s else k)"
  have "mp_posts N (s\<lparr>mp_count := mp_count s + k, mp_post := (mp_post s)(t := ?p), mp_given := mp_given s + k\<rparr>) = mp_posts N s + int ?p"
    using mp_posts_upd [OF s_add(1), of s ?p] s_add(2) by (simp add: mp_posts_def)
  with s_add show ?case by (auto simp: mp_inv_def mp_waiting_def split: if_splits)
next
  case (s_post t s n)
  have "mp_posts N (s\<lparr>mp_sema := Suc (mp_sema s), mp_post := (mp_post s)(t := n)\<rparr>) = mp_posts N s - 1"
    using mp_posts_upd [OF s_post(1), of s n] s_post(2) by (simp add: mp_posts_def)
  with s_post show ?case by (auto simp: mp_inv_def mp_waiting_def)
qed

interpretation mp_safe: inductive_invariant "mp_init c" "mp_step N spins" "mp_inv N" for c N spins
proof
  show "mp_inv N s" if "mp_init c s" for s using that by (simp add: mp_init_def mp_inv_def mp_waiting_def mp_posts_def)
  show "mp_inv N s'" if "mp_inv N s" "mp_step N spins s s'" for s s'
    using that(2,1) by (cases rule: mp_step.cases) (auto intro: mp_wstep_inv mp_sstep_inv)
qed

lemma mp_owes_range: "0 \<le> mp_owes p" "mp_owes p \<le> 1"
  by (cases p; simp)+

lemma mp_waiting_pos: "t < N \<Longrightarrow> mp_owes (mp_pc s t) = 1 \<Longrightarrow> 1 \<le> mp_waiting N s"
  using member_le_sum [of t "{..<N}" "\<lambda>u. mp_owes (mp_pc s u)"] by (simp add: mp_waiting_def mp_owes_range)

lemma mp_posts_pos: "0 < mp_posts N s \<Longrightarrow> \<exists>t < N. 0 < mp_post s t"
proof (rule ccontr)
  assume p: "0 < mp_posts N s" and "\<not> (\<exists>t < N. 0 < mp_post s t)"
  then have "mp_posts N s = 0" by (auto simp: mp_posts_def)
  with p show False by simp
qed

text \<open>
  C17. The general semaphore with any number of waiting and signalling threads, every interleaving, timeouts and spurious
  failures of \<open>compare_exchange\<close> included: never more units are acquired than there were or were signalled;
  when units are unclaimed while a thread waits in the kernel, the kernel semaphore is positive or a signaller
  is about to post to it, so no wake-up is lost; and when all threads are at rest, the count is what is left.
\<close>

theorem mp_semaphore_safe:
  assumes "reach (mp_init c) (mp_step N spins) s"
  shows "0 \<le> mp_given s - mp_acquired s \<and>
    (mp_acquired s < mp_given s \<and> (\<exists>t < N. \<exists>m. mp_pc s t = MBlock m) \<longrightarrow> 0 < mp_sema s \<or> (\<exists>t < N. 0 < mp_post s t)) \<and>
    ((\<forall>t < N. mp_pc s t = MIdle \<and> mp_post s t = 0) \<longrightarrow> mp_count s = mp_given s - mp_acquired s \<and> mp_sema s = 0)"
proof -
  have i: "mp_count s + mp_waiting N s = mp_given s - mp_acquired s"
    "int (mp_sema s) + mp_posts N s = mp_waiting N s - (if mp_count s < 0 then - mp_count s else 0)"
    using mp_safe.inv_reach [OF assms] by (auto simp: mp_inv_def)
  have w: "0 \<le> mp_waiting N s" by (simp add: mp_waiting_def sum_nonneg mp_owes_range)
  have p: "0 \<le> mp_posts N s" by (simp add: mp_posts_def sum_nonneg)
  have "0 < mp_sema s \<or> (\<exists>t < N. 0 < mp_post s t)" if "mp_acquired s < mp_given s" "t < N" "mp_pc s t = MBlock m" for t m
  proof -
    have "1 \<le> mp_waiting N s" using mp_waiting_pos [of t N s] that by simp
    then have "0 < int (mp_sema s) + mp_posts N s" using i that(1) by (auto split: if_splits)
    then show ?thesis using mp_posts_pos [of N s] by (cases "mp_sema s") auto
  qed
  moreover have "mp_count s = mp_given s - mp_acquired s \<and> mp_sema s = 0" if "\<forall>t < N. mp_pc s t = MIdle \<and> mp_post s t = 0"
  proof -
    have "mp_waiting N s = 0" "mp_posts N s = 0" using that by (simp_all add: mp_waiting_def mp_posts_def)
    then show ?thesis using i by (auto split: if_splits)
  qed
  moreover have "0 \<le> mp_given s - mp_acquired s" using i w p by (auto split: if_splits)
  ultimately show ?thesis by blast
qed

text \<open>One thread blocks, a signal comes, the post is still to be made.\<close>

definition mp_demo :: mp_sys where
  "mp_demo = \<lparr>mp_count = 0, mp_sema = 0, mp_pc = (\<lambda>_. MIdle)(0 := MBlock 1), mp_post = (\<lambda>_. 0)(1 := 1), mp_acquired = 0, mp_given = 1\<rparr>"

lemma mp_demo_reach: "reach (mp_init 0) (mp_step 2 0) mp_demo"
proof -
  let ?s = "\<lambda>c p g q. \<lparr>mp_count = c, mp_sema = 0, mp_pc = (\<lambda>_. MIdle)(0 := p), mp_post = (\<lambda>_. 0)(1 := q), mp_acquired = 0, mp_given = g\<rparr>"
  have 0: "reach (mp_init 0) (mp_step 2 0) (?s 0 MIdle 0 0)" by (rule reach_init) (simp add: mp_init_def fun_eq_iff)
  have w: "mp_wstep 2 0 s s' \<Longrightarrow> mp_step 2 0 s s'" for s s' by (rule by_waiter)
  have 1: "mp_step 2 0 (?s 0 MIdle 0 0) (?s 0 (MLoad 1 Wait) 0 0)"
    using w [OF w_call [of 0 2 "?s 0 MIdle 0 0" 1 Wait 0]] by simp
  have 2: "mp_step 2 0 (?s 0 (MLoad 1 Wait) 0 0) (?s 0 (MSpin 0 1) 0 0)"
    using w [OF w_load [of 0 2 "?s 0 (MLoad 1 Wait) 0 0" 1 Wait 0]] by (simp add: mp_loaded_def)
  have 3: "mp_step 2 0 (?s 0 (MSpin 0 1) 0 0) (?s 0 (MSub 1) 0 0)"
    using w [OF w_spin_end [of 0 2 "?s 0 (MSpin 0 1) 0 0" 1 0]] by simp
  have 4: "mp_step 2 0 (?s 0 (MSub 1) 0 0) (?s (- 1) (MBlock 1) 0 0)"
    using w [OF w_sub_block [of 0 2 "?s 0 (MSub 1) 0 0" 1 0]] by simp
  have 5: "mp_step 2 0 (?s (- 1) (MBlock 1) 0 0) (?s 0 (MBlock 1) 1 1)"
    using by_signaller [OF s_add [of 1 2 "?s (- 1) (MBlock 1) 0 0" 1]] by simp
  have r1: "reach (mp_init 0) (mp_step 2 0) (?s 0 (MLoad 1 Wait) 0 0)" using 0 1 by (rule reach_step)
  have r2: "reach (mp_init 0) (mp_step 2 0) (?s 0 (MSpin 0 1) 0 0)" using r1 2 by (rule reach_step)
  have r3: "reach (mp_init 0) (mp_step 2 0) (?s 0 (MSub 1) 0 0)" using r2 3 by (rule reach_step)
  have r4: "reach (mp_init 0) (mp_step 2 0) (?s (- 1) (MBlock 1) 0 0)" using r3 4 by (rule reach_step)
  have r5: "reach (mp_init 0) (mp_step 2 0) (?s 0 (MBlock 1) 1 1)" using r4 5 by (rule reach_step)
  then show ?thesis by (simp add: mp_demo_def)
qed

theorem mp_semaphore_safe_witness: "mp_acquired mp_demo < mp_given mp_demo \<and> (0 < mp_sema mp_demo \<or> (\<exists>t < 2. 0 < mp_post mp_demo t))"
proof -
  have "mp_acquired mp_demo < mp_given mp_demo" "mp_pc mp_demo 0 = MBlock 1" by (simp_all add: mp_demo_def)
  then show ?thesis using mp_semaphore_safe [OF mp_demo_reach] by auto
qed

section \<open>One signaller, one waiter\<close>

datatype sp_pc =
    QIdle
  | QLoad bool        \<comment> \<open>\<open>tryWait\<close>; does \<open>waitWithPartialSpinning\<close> follow?\<close>
  | QDec              \<comment> \<open>a positive count was seen\<close>
  | QSpin nat
  | QSub
  | QBlock
  | QPlus
  | QMinus
  | QTake

record sp_sys =
  sp_count :: int
  sp_sema :: nat
  sp_pc :: sp_pc
  sp_post :: bool      \<comment> \<open>the signaller is between the addition and the post\<close>
  sp_acquired :: int
  sp_given :: int
  sp_failed :: bool    \<comment> \<open>the assertion \<open>oldCount >= -1\<close> has failed\<close>
  sp_zero :: bool      \<comment> \<open>history: a \<open>signal(0)\<close> has found a negative count\<close>

inductive sp_wstep :: "sp_sys \<Rightarrow> sp_sys \<Rightarrow> bool" where
  q_call: "sp_pc s = QIdle \<Longrightarrow> sp_wstep s (s\<lparr>sp_pc := QLoad w\<rparr>)"
| q_load: "sp_pc s = QLoad w \<Longrightarrow>
    sp_wstep s (s\<lparr>sp_pc := if sp_count s > 0 then QDec else if w then QSpin 1024 else QIdle\<rparr>)"
| q_dec: "sp_pc s = QDec \<Longrightarrow> sp_wstep s (s\<lparr>sp_count := sp_count s - 1, sp_pc := QIdle, sp_acquired := sp_acquired s + 1\<rparr>)"
| q_spin: "sp_pc s = QSpin (Suc n) \<Longrightarrow> sp_wstep s (s\<lparr>sp_pc := if sp_count s > 0 then QDec else QSpin n\<rparr>)"
| q_spin_end: "sp_pc s = QSpin 0 \<Longrightarrow> sp_wstep s (s\<lparr>sp_pc := QSub\<rparr>)"
| q_sub: "sp_pc s = QSub \<Longrightarrow> 0 < sp_count s \<Longrightarrow>
    sp_wstep s (s\<lparr>sp_count := sp_count s - 1, sp_pc := QIdle, sp_acquired := sp_acquired s + 1\<rparr>)"
| q_sub_block: "sp_pc s = QSub \<Longrightarrow> sp_count s \<le> 0 \<Longrightarrow> sp_wstep s (s\<lparr>sp_count := sp_count s - 1, sp_pc := QBlock\<rparr>)"
| q_wake: "sp_pc s = QBlock \<Longrightarrow> sp_sema s = Suc n \<Longrightarrow>
    sp_wstep s (s\<lparr>sp_sema := n, sp_pc := QIdle, sp_acquired := sp_acquired s + 1\<rparr>)"
| q_timeout: "sp_pc s = QBlock \<Longrightarrow> sp_wstep s (s\<lparr>sp_pc := QPlus\<rparr>)"
| q_plus: "sp_pc s = QPlus \<Longrightarrow> sp_wstep s (s\<lparr>sp_count := sp_count s + 1, sp_pc := if sp_count s < 0 then QIdle else QMinus\<rparr>)"
| q_minus: "sp_pc s = QMinus \<Longrightarrow> sp_wstep s (s\<lparr>sp_count := sp_count s - 1, sp_pc := if sp_count s > 0 then QTake else QPlus\<rparr>)"
| q_take: "sp_pc s = QTake \<Longrightarrow> sp_sema s = Suc n \<Longrightarrow>
    sp_wstep s (s\<lparr>sp_sema := n, sp_pc := QIdle, sp_acquired := sp_acquired s + 1\<rparr>)"
| q_take_fail: "sp_pc s = QTake \<Longrightarrow> sp_sema s = 0 \<Longrightarrow> sp_wstep s (s\<lparr>sp_pc := QPlus\<rparr>)"

text \<open>\<open>signal(count)\<close> for every \<open>count\<close> its assertion \<open>count >= 0\<close> admits.\<close>

inductive sp_sstep :: "sp_sys \<Rightarrow> sp_sys \<Rightarrow> bool" where
  q_add: "\<not> sp_post s \<Longrightarrow> 0 \<le> k \<Longrightarrow>
    sp_sstep s (s\<lparr>sp_count := sp_count s + k, sp_post := sp_count s < 0, sp_given := sp_given s + k,
      sp_failed := sp_failed s \<or> \<not> sp_count s \<ge> - 1, sp_zero := sp_zero s \<or> k = 0 \<and> sp_count s < 0\<rparr>)"
| q_post: "sp_post s \<Longrightarrow> sp_sstep s (s\<lparr>sp_sema := Suc (sp_sema s), sp_post := False\<rparr>)"

inductive sp_step :: "sp_sys \<Rightarrow> sp_sys \<Rightarrow> bool" where
  by_waiter1: "sp_wstep s s' \<Longrightarrow> sp_step s s'"
| by_signaller1: "sp_sstep s s' \<Longrightarrow> sp_step s s'"

definition sp_init :: "int \<Rightarrow> sp_sys \<Rightarrow> bool" where
  "sp_init c s \<longleftrightarrow> 0 \<le> c \<and>
     s = \<lparr>sp_count = c, sp_sema = 0, sp_pc = QIdle, sp_post = False, sp_acquired = 0, sp_given = c, sp_failed = False, sp_zero = False\<rparr>"

text \<open>The count without the unit the waiter has added for a moment, and the unit it owes.\<close>

definition sp_net :: "sp_sys \<Rightarrow> int" where
  "sp_net s = sp_count s - (if sp_pc s = QMinus then 1 else 0)"

definition sp_owes :: "sp_sys \<Rightarrow> int" where
  "sp_owes s = (if sp_pc s \<in> {QBlock, QPlus, QMinus, QTake} then 1 else 0)"

definition sp_inv :: "sp_sys \<Rightarrow> bool" where
  "sp_inv s \<longleftrightarrow> sp_zero s \<or> sp_net s + sp_owes s = sp_given s - sp_acquired s \<and>
     int (sp_sema s) + (if sp_post s then 1 else 0) = sp_owes s - (if sp_net s < 0 then - sp_net s else 0) \<and>
     (sp_pc s = QDec \<longrightarrow> 0 < sp_count s) \<and> (sp_pc s = QMinus \<longrightarrow> 0 \<le> sp_net s) \<and> \<not> sp_failed s"

lemmas sp_inv_defs = sp_inv_def sp_net_def sp_owes_def

lemma sp_wstep_inv: "sp_wstep s s' \<Longrightarrow> sp_inv s \<Longrightarrow> sp_inv s'"
  by (induction rule: sp_wstep.induct) (auto simp: sp_inv_defs split: if_splits)

lemma sp_sstep_inv: "sp_sstep s s' \<Longrightarrow> sp_inv s \<Longrightarrow> sp_inv s'"
  by (induction rule: sp_sstep.induct) (auto simp: sp_inv_defs split: if_splits)

interpretation sp_safe: inductive_invariant "sp_init c" sp_step sp_inv for c
proof
  show "sp_inv s" if "sp_init c s" for s using that by (simp add: sp_init_def sp_inv_defs)
  show "sp_inv s'" if "sp_inv s" "sp_step s s'" for s s'
    using that(2,1) by (cases rule: sp_step.cases) (auto intro: sp_wstep_inv sp_sstep_inv)
qed

text \<open>
  C18. The semaphore of the blocking reader-writer queues, one waiter and one signaller, every interleaving and every
  \<open>signal(count)\<close> with \<open>count >= 0\<close>, as long as no \<open>signal(0)\<close> has found a negative count (a waiting thread): although the
  waiter checks and decrements in two accesses, never more units are acquired than were signalled; the
  assertion \<open>oldCount >= -1\<close> in \<open>signal\<close> never fails; and a waiter in the kernel with a unit unclaimed finds the kernel
  semaphore positive or the signaller about to post. \<open>sp_signal_zero_overdraws\<close> shows that the condition is needed.
\<close>

theorem sp_semaphore_safe:
  assumes "reach (sp_init c) sp_step s" and "\<not> sp_zero s"
  shows "0 \<le> sp_given s - sp_acquired s \<and> \<not> sp_failed s \<and> - 1 \<le> sp_count s \<and>
    (sp_acquired s < sp_given s \<and> sp_pc s = QBlock \<longrightarrow> 0 < sp_sema s \<or> sp_post s) \<and>
    (sp_pc s = QIdle \<and> \<not> sp_post s \<longrightarrow> sp_count s = sp_given s - sp_acquired s \<and> sp_sema s = 0)"
  using sp_safe.inv_reach [OF assms(1)] assms(2) by (auto simp: sp_inv_defs split: if_splits)

text \<open>A unit is there, a waiter has seen it, and a signal comes in between.\<close>

definition sp_demo :: sp_sys where
  "sp_demo = \<lparr>sp_count = 3, sp_sema = 0, sp_pc = QDec, sp_post = False, sp_acquired = 0, sp_given = 3, sp_failed = False, sp_zero = False\<rparr>"

lemma sp_demo_reach: "reach (sp_init 1) sp_step sp_demo"
proof -
  let ?s = "\<lambda>c p. \<lparr>sp_count = c, sp_sema = 0, sp_pc = p, sp_post = False, sp_acquired = 0, sp_given = c, sp_failed = False, sp_zero = False\<rparr>"
  have r0: "reach (sp_init 1) sp_step (?s 1 QIdle)" by (rule reach_init) (simp add: sp_init_def)
  have "sp_step (?s 1 QIdle) (?s 1 (QLoad True))" using by_waiter1 [OF q_call [of "?s 1 QIdle" True]] by simp
  with r0 have r1: "reach (sp_init 1) sp_step (?s 1 (QLoad True))" by (rule reach_step)
  have "sp_step (?s 1 (QLoad True)) (?s 1 QDec)" using by_waiter1 [OF q_load [of "?s 1 (QLoad True)" True]] by simp
  with r1 have r2: "reach (sp_init 1) sp_step (?s 1 QDec)" by (rule reach_step)
  have "sp_step (?s 1 QDec) (?s 3 QDec)" using by_signaller1 [OF q_add [of "?s 1 QDec" 2]] by simp
  with r2 have "reach (sp_init 1) sp_step (?s 3 QDec)" by (rule reach_step)
  then show ?thesis by (simp add: sp_demo_def)
qed

theorem sp_semaphore_safe_witness: "0 \<le> sp_given sp_demo - sp_acquired sp_demo \<and> \<not> sp_failed sp_demo"
  using sp_semaphore_safe [OF sp_demo_reach] by (simp add: sp_demo_def)

text \<open>
  \<open>signal(0)\<close>, which the assertion allows: the general semaphore does nothing, but the one for a single waiter posts to the
  kernel semaphore when a thread waits, and the waiter goes on with a unit that nobody gave. Its debt stays in the count: when
  the same thread waits again, the next \<open>signal\<close>, of any number of units, fails its assertion.
\<close>

lemma sp_signal_zero_wakes:
  "sp_signal 0 \<lparr>m_count = - 1, m_sema = 0\<rparr> = Inr \<lparr>m_count = - 1, m_sema = 1\<rparr> \<and>
   mp_signal 0 \<lparr>m_count = - 1, m_sema = 0\<rparr> = Inr \<lparr>m_count = - 1, m_sema = 0\<rparr>"
  by (simp add: sp_signal_def mp_signal_def Semaphore_signal_adds)

abbreviation sp_state :: "int \<Rightarrow> nat \<Rightarrow> sp_pc \<Rightarrow> bool \<Rightarrow> int \<Rightarrow> bool \<Rightarrow> sp_sys" where
  "sp_state c k p b a z \<equiv> \<lparr>sp_count = c, sp_sema = k, sp_pc = p, sp_post = b, sp_acquired = a, sp_given = 0, sp_failed = False, sp_zero = z\<rparr>"

lemma reach_star: "step\<^sup>*\<^sup>* s t \<Longrightarrow> reach init step s \<Longrightarrow> reach init step t"
  by (erule rtranclp_induct) (auto intro: reach_step)

text \<open>A call of \<open>wait\<close> on a count that is not positive gets to the kernel semaphore.\<close>

lemma sp_waits:
  assumes c: "c \<le> 0"
  shows "sp_step\<^sup>*\<^sup>* (sp_state c 0 QIdle False a z) (sp_state (c - 1) 0 QBlock False a z)"
proof -
  have w: "sp_step\<^sup>*\<^sup>* r s \<Longrightarrow> sp_wstep s t \<Longrightarrow> sp_step\<^sup>*\<^sup>* r t" for r s t
    by (rule rtranclp.rtrancl_into_rtrancl) (auto intro: by_waiter1)
  have 1: "sp_step\<^sup>*\<^sup>* (sp_state c 0 QIdle False a z) (sp_state c 0 (QLoad True) False a z)"
    using w [OF rtranclp.rtrancl_refl q_call [of "sp_state c 0 QIdle False a z" True]] by simp
  have 2: "sp_step\<^sup>*\<^sup>* (sp_state c 0 QIdle False a z) (sp_state c 0 (QSpin 1024) False a z)"
    using w [OF 1 q_load [of _ True]] c by simp
  have "sp_step\<^sup>*\<^sup>* (sp_state c 0 QIdle False a z) (sp_state c 0 (QSpin (1024 - n)) False a z)" if "n \<le> 1024" for n
    using that
  proof (induction n)
    case (Suc n)
    then have n: "1024 - n = Suc (1024 - Suc n)" by simp
    from Suc have "sp_step\<^sup>*\<^sup>* (sp_state c 0 QIdle False a z) (sp_state c 0 (QSpin (Suc (1024 - Suc n))) False a z)" by (simp add: n)
    from w [OF this q_spin [of _ "1024 - Suc n"]] c show ?case by simp
  qed (use 2 in simp)
  from this [of 1024] have 3: "sp_step\<^sup>*\<^sup>* (sp_state c 0 QIdle False a z) (sp_state c 0 (QSpin 0) False a z)" by simp
  have 4: "sp_step\<^sup>*\<^sup>* (sp_state c 0 QIdle False a z) (sp_state c 0 QSub False a z)" using w [OF 3 q_spin_end] by simp
  show ?thesis using w [OF 4 q_sub_block] c by simp
qed

lemma sp_signal_zero_overdraws:
  "\<exists>s t. reach (sp_init 0) sp_step s \<and> sp_given s = 0 \<and> sp_acquired s = 1 \<and> sp_pc s = QIdle \<and> \<not> sp_failed s \<and>
     sp_step\<^sup>*\<^sup>* s t \<and> sp_pc t = QBlock \<and> \<not> sp_failed t \<and> \<not> sp_post t \<and>
     (\<forall>k \<ge> 0. \<exists>u. sp_sstep t u \<and> sp_given u = k \<and> sp_failed u)"
proof -
  let ?s = "sp_state (- 1) 0 QIdle False 1 True" and ?t = "sp_state (- 2) 0 QBlock False 1 True"
  have "reach (sp_init 0) sp_step (sp_state 0 0 QIdle False 0 False)" by (rule reach_init) (simp add: sp_init_def)
  from reach_star [OF sp_waits [of 0 0 False]] this have r: "reach (sp_init 0) sp_step (sp_state (- 1) 0 QBlock False 0 False)" by simp
  have "sp_step (sp_state (- 1) 0 QBlock False 0 False) (sp_state (- 1) 0 QBlock True 0 True)"
    using by_signaller1 [OF q_add [of "sp_state (- 1) 0 QBlock False 0 False" 0]] by simp
  with r have r: "reach (sp_init 0) sp_step (sp_state (- 1) 0 QBlock True 0 True)" by (rule reach_step)
  have "sp_step (sp_state (- 1) 0 QBlock True 0 True) (sp_state (- 1) 1 QBlock False 0 True)"
    using by_signaller1 [OF q_post [of "sp_state (- 1) 0 QBlock True 0 True"]] by simp
  with r have r: "reach (sp_init 0) sp_step (sp_state (- 1) 1 QBlock False 0 True)" by (rule reach_step)
  have "sp_step (sp_state (- 1) 1 QBlock False 0 True) ?s"
    using by_waiter1 [OF q_wake [of "sp_state (- 1) 1 QBlock False 0 True" 0]] by simp
  with r have r: "reach (sp_init 0) sp_step ?s" by (rule reach_step)
  have "sp_step\<^sup>*\<^sup>* ?s ?t" using sp_waits [of "- 1" 1 True] by simp
  moreover have "\<exists>u. sp_sstep ?t u \<and> sp_given u = k \<and> sp_failed u" if "0 \<le> k" for k
    using q_add [of ?t k] that by (intro exI conjI) (assumption | simp)+
  ultimately show ?thesis using r by (intro exI [of _ ?s] exI [of _ ?t]) simp
qed

end
