(* ===== verification/Blocking.thy ===== *)
theory Blocking
  imports RWQ_Spec Semaphore
begin

text \<open>
  Blocking queues: a queue and a semaphore that counts its elements. The pattern is stated once
  (\<open>blk_put\<close>, \<open>blk_take\<close>, \<open>blk_wait\<close>) with a locale for what it needs of the two parts, and instantiated with
  \<open>BlockingReaderWriterQueue\<close> (\<^verbatim>\<open>readerwriterqueue/readerwriterqueue.h\<close>).
\<close>

section \<open>The pattern\<close>

record ('q, 's) blocking =
  inner :: 'q
  sema :: 's

text \<open>\<open>if (inner.enqueue(...)) { sema->signal(); return true; } return false;\<close>\<close>

definition blk_put :: "('s \<Rightarrow> 's result) \<Rightarrow> ('q \<Rightarrow> (bool \<times> 'q) result) \<Rightarrow> ('q, 's) blocking \<Rightarrow> (bool \<times> ('q, 's) blocking) result" where
  "blk_put signal enqueue b =
     (case enqueue (inner b) of
        Inl e \<Rightarrow> Inl e
      | Inr (accepted, q) \<Rightarrow>
          let b = b\<lparr>inner := q\<rparr>
          in if accepted then (case signal (sema b) of Inl e \<Rightarrow> Inl e | Inr s \<Rightarrow> Inr (True, b\<lparr>sema := s\<rparr>)) else Inr (False, b))"

text \<open>After a unit was taken: \<open>bool success = inner.try_dequeue(result); assert(success);\<close>\<close>

definition blk_get :: "('q \<Rightarrow> ('r option \<times> 'q) result) \<Rightarrow> ('q, 's) blocking \<Rightarrow> ('r option \<times> ('q, 's) blocking) result" where
  "blk_get dequeue b =
     (case dequeue (inner b) of
        Inl e \<Rightarrow> Inl e
      | Inr (None, q) \<Rightarrow> Inl (AssertFailed ''success'')
      | Inr (Some x, q) \<Rightarrow> Inr (Some x, b\<lparr>inner := q\<rparr>))"

definition blk_take :: "('s \<Rightarrow> (bool \<times> 's) result) \<Rightarrow> ('q \<Rightarrow> ('r option \<times> 'q) result) \<Rightarrow> ('q, 's) blocking
    \<Rightarrow> ('r option \<times> ('q, 's) blocking) result" where
  "blk_take tryWait dequeue b =
     (case tryWait (sema b) of
        Inl e \<Rightarrow> Inl e
      | Inr (taken, s) \<Rightarrow> let b = b\<lparr>sema := s\<rparr> in if taken then blk_get dequeue b else Inr (None, b))"

text \<open>The same with a wait that may never return.\<close>

definition blk_wait :: "('s \<Rightarrow> (bool \<times> 's) result option) \<Rightarrow> ('q \<Rightarrow> ('r option \<times> 'q) result) \<Rightarrow> ('q, 's) blocking
    \<Rightarrow> ('r option \<times> ('q, 's) blocking) result option" where
  "blk_wait wait dequeue b =
     (case wait (sema b) of
        None \<Rightarrow> None
      | Some (Inl e) \<Rightarrow> Some (Inl e)
      | Some (Inr (taken, s)) \<Rightarrow> let b = b\<lparr>sema := s\<rparr> in Some (if taken then blk_get dequeue b else Inr (None, b)))"

text \<open>\<open>while (!sema->wait());\<close>\<close>

partial_function (option) wait_loop :: "('s \<Rightarrow> (bool \<times> 's) result option) \<Rightarrow> 's \<Rightarrow> (bool \<times> 's) result option" where
  "wait_loop wait s =
     (case wait s of
        None \<Rightarrow> None
      | Some (Inl e) \<Rightarrow> Some (Inl e)
      | Some (Inr (taken, s)) \<Rightarrow> if taken then Some (Inr (True, s)) else wait_loop wait s)"

locale blocking_queue = semaphore sinv avail tryWait signal
  for sinv :: "'s \<Rightarrow> bool" and avail :: "'s \<Rightarrow> nat" and tryWait :: "'s \<Rightarrow> (bool \<times> 's) result" and signal :: "'s \<Rightarrow> 's result" +
  fixes qinv :: "'q \<Rightarrow> bool" and contents :: "'q \<Rightarrow> 'a list" and room :: "'q \<Rightarrow> bool"
    and enqueue :: "'a \<Rightarrow> 'q \<Rightarrow> (bool \<times> 'q) result" and dequeue :: "'q \<Rightarrow> ('a option \<times> 'q) result"
    and wait :: "int \<Rightarrow> 's \<Rightarrow> (bool \<times> 's) result option"
  assumes enqueue_ok: "qinv q \<Longrightarrow> \<exists>q'. enqueue x q = Inr (room q, q') \<and> qinv q' \<and> contents q' = contents q @ (if room q then [x] else [])"
    and dequeue_ok: "qinv q \<Longrightarrow> \<exists>r q'. dequeue q = Inr (r, q') \<and> qinv q' \<and> (r = None \<longleftrightarrow> contents q = []) \<and>
      contents q = (case r of None \<Rightarrow> [] | Some x \<Rightarrow> [x]) @ contents q'"
    and wait_ok: "sinv s \<Longrightarrow> wait t s = (if 0 < avail s \<or> 0 \<le> t then Some (tryWait s) else None)"
begin

text \<open>The invariant that makes the pattern work: the semaphore counts the elements.\<close>

definition binv :: "('q, 's) blocking \<Rightarrow> bool" where
  "binv b \<longleftrightarrow> qinv (inner b) \<and> sinv (sema b) \<and> avail (sema b) = length (contents (inner b))"

lemma put_ok:
  assumes "binv b"
  shows "\<exists>b'. blk_put signal (enqueue x) b = Inr (room (inner b), b') \<and> binv b' \<and>
    contents (inner b') = contents (inner b) @ (if room (inner b) then [x] else [])"
proof -
  have b: "qinv (inner b)" "sinv (sema b)" "avail (sema b) = length (contents (inner b))" using assms by (auto simp: binv_def)
  obtain q' where q: "enqueue x (inner b) = Inr (room (inner b), q')" "qinv q'" "contents q' = contents (inner b) @ (if room (inner b) then [x] else [])"
    using enqueue_ok [OF b(1)] by blast
  obtain s' where "signal (sema b) = Inr s'" "sinv s'" "avail s' = Suc (avail (sema b))" using signal_ok [OF b(2)] by blast
  with q b show ?thesis by (cases "room (inner b)") (auto simp: blk_put_def binv_def)
qed

lemma get_ok:
  assumes "qinv (inner b)" "contents (inner b) = x # xs"
  shows "\<exists>b'. blk_get dequeue b = Inr (Some x, b') \<and> qinv (inner b') \<and> contents (inner b') = xs \<and> sema b' = sema b"
  using dequeue_ok [OF assms(1)] assms(2) by (auto simp: blk_get_def split: option.splits)

lemma take_ok:
  assumes "binv b"
  shows "\<exists>r b'. blk_take tryWait dequeue b = Inr (r, b') \<and> binv b' \<and> (r = None \<longleftrightarrow> contents (inner b) = []) \<and>
    contents (inner b) = (case r of None \<Rightarrow> [] | Some x \<Rightarrow> [x]) @ contents (inner b')"
proof -
  have b: "qinv (inner b)" "sinv (sema b)" "avail (sema b) = length (contents (inner b))" using assms by (auto simp: binv_def)
  obtain s' where w: "tryWait (sema b) = Inr (0 < avail (sema b), s')" "sinv s'" "avail (sema b) = avail s' + (if 0 < avail (sema b) then 1 else 0)"
    using tryWait_cases [OF b(2)] by blast
  show ?thesis
  proof (cases "contents (inner b)")
    case Nil
    with b w show ?thesis by (auto simp: blk_take_def binv_def)
  next
    case (Cons x xs)
    with get_ok [of "b\<lparr>sema := s'\<rparr>" x xs] b w show ?thesis by (auto simp: blk_take_def binv_def)
  qed
qed

text \<open>Waiting is taking, but on an empty queue it blocks when no timeout is given.\<close>

lemma wait_take:
  assumes "binv b"
  shows "blk_wait (wait t) dequeue b = (if contents (inner b) = [] \<and> t < 0 then None else Some (blk_take tryWait dequeue b))"
proof -
  have b: "sinv (sema b)" "avail (sema b) = length (contents (inner b))" using assms by (auto simp: binv_def)
  show ?thesis using tryWait_cases [OF b(1)] b(2)
    by (auto simp: blk_wait_def blk_take_def wait_ok [OF b(1)] Let_def)
qed

lemma wait_loop_once:
  assumes "sinv s" "0 < avail s" shows "wait_loop (wait t) s = Some (tryWait s)"
  using tryWait_cases [OF assms(1)] assms(2) by (subst wait_loop.simps) (auto simp: wait_ok [OF assms(1)])

lemma wait_loop_take:
  assumes "binv b"
  shows "blk_wait (wait_loop (wait t)) dequeue b =
    (if contents (inner b) \<noteq> [] then Some (blk_take tryWait dequeue b) else blk_wait (wait_loop (wait t)) dequeue b)"
proof -
  have b: "sinv (sema b)" "avail (sema b) = length (contents (inner b))" using assms by (auto simp: binv_def)
  show ?thesis using wait_loop_once [OF b(1)] tryWait_cases [OF b(1)] b(2)
    by (cases "contents (inner b)") (auto simp: blk_wait_def blk_take_def Let_def)
qed

lemma wait_loop_blocks:
  assumes "sinv s" "avail s = 0" "t < 0" shows "wait_loop (wait t) s = None"
  using wait_ok [OF assms(1), of t] assms(2,3) by (subst wait_loop.simps) simp

lemma wait_loop_spec:
  assumes "binv b" "t < 0"
  shows "blk_wait (wait_loop (wait t)) dequeue b = (if contents (inner b) = [] then None else Some (blk_take tryWait dequeue b))"
proof -
  have b: "sinv (sema b)" "avail (sema b) = length (contents (inner b))" using assms by (auto simp: binv_def)
  show ?thesis
  proof (cases "contents (inner b)")
    case Nil
    with wait_loop_blocks [OF b(1) _ assms(2)] b(2) show ?thesis by (simp add: blk_wait_def)
  next
    case Cons
    with wait_loop_take [OF assms(1), of t] show ?thesis by simp
  qed
qed

end

text \<open>A blocking queue is a first-in, first-out queue again.\<close>

sublocale blocking_queue \<subseteq> fifo: fifo_queue binv "\<lambda>b. contents (inner b)" "\<lambda>b. room (inner b)"
  "\<lambda>x b. Some (blk_put signal (enqueue x) b)" "\<lambda>b. Some (blk_take tryWait dequeue b)"
proof
  fix b :: "('q, 's) blocking" and x :: 'a
  assume i: "binv b"
  from put_ok [OF i, of x] show "room (inner b) \<Longrightarrow> \<exists>b'. Some (blk_put signal (enqueue x) b) = Some (Inr (True, b')) \<and> binv b' \<and>
      contents (inner b') = contents (inner b) @ [x]" by auto
  from put_ok [OF i, of x] show "\<not> room (inner b) \<Longrightarrow> \<exists>b'. Some (blk_put signal (enqueue x) b) = Some (Inr (False, b')) \<and> binv b' \<and>
      contents (inner b') = contents (inner b)" by auto
next
  fix b :: "('q, 's) blocking"
  assume "binv b" "contents (inner b) = []"
  with take_ok [of b] show "\<exists>b'. Some (blk_take tryWait dequeue b) = Some (Inr (None, b')) \<and> binv b' \<and> contents (inner b') = []"
    by fastforce
next
  fix b :: "('q, 's) blocking" and x xs
  assume "binv b" "contents (inner b) = x # xs"
  with take_ok [of b] show "\<exists>b'. Some (blk_take tryWait dequeue b) = Some (Inr (Some x, b')) \<and> binv b' \<and> contents (inner b') = xs"
    by (fastforce split: option.splits)
qed

section \<open>\<open>BlockingReaderWriterQueue\<close>\<close>

type_synonym 'a brw_queue = "('a rw_queue, lw_sema option) blocking"

definition brw_ctor :: "rw_class \<Rightarrow> size_t \<Rightarrow> 'a brw_queue result" where
  "brw_ctor k sz =
     (case rw_ctor k sz of
        Inl e \<Rightarrow> Inl e
      | Inr q \<Rightarrow> (case LightweightSemaphore 0 of Inl e \<Rightarrow> Inl e | Inr s \<Rightarrow> Inr \<lparr>inner = q, sema = Some s\<rparr>))"

definition brw_signal :: "lw_sema option \<Rightarrow> lw_sema option result" where
  "brw_signal = ptr_signal (sp_signal 1)"

definition brw_tryWait :: "lw_sema option \<Rightarrow> (bool \<times> lw_sema option) result" where
  "brw_tryWait = ptr_tryWait (\<lambda>s. Inr (sp_tryWait s))"

definition brw_sema_wait :: "int \<Rightarrow> lw_sema option \<Rightarrow> (bool \<times> lw_sema option) result option" where
  "brw_sema_wait t p =
     (case p of
        None \<Rightarrow> Some (Inl (UndefinedBehaviour ''sema''))
      | Some s \<Rightarrow> map_option (\<lambda>(b, s). Inr (b, Some s)) (sp_wait t s))"

definition brw_try_enqueue :: "rw_class \<Rightarrow> 'a \<Rightarrow> 'a brw_queue \<Rightarrow> (bool \<times> 'a brw_queue) result" where
  "brw_try_enqueue k x = blk_put brw_signal (rw_try_enqueue k x)"

definition brw_enqueue :: "rw_class \<Rightarrow> 'a \<Rightarrow> 'a brw_queue \<Rightarrow> (bool \<times> 'a brw_queue) result" where
  "brw_enqueue k x = blk_put brw_signal (rw_enqueue k x)"

definition brw_try_dequeue :: "'a brw_queue \<Rightarrow> ('a option \<times> 'a brw_queue) result" where
  "brw_try_dequeue = blk_take brw_tryWait rw_try_dequeue"

definition brw_wait_dequeue :: "'a brw_queue \<Rightarrow> ('a option \<times> 'a brw_queue) result option" where
  "brw_wait_dequeue = blk_wait (wait_loop (brw_sema_wait (- 1))) rw_try_dequeue"

definition brw_wait_dequeue_timed :: "int \<Rightarrow> 'a brw_queue \<Rightarrow> ('a option \<times> 'a brw_queue) result option" where
  "brw_wait_dequeue_timed timeout_usecs = blk_wait (brw_sema_wait timeout_usecs) rw_try_dequeue"

definition brw_peek :: "'a brw_queue \<Rightarrow> ((nat \<times> size_t) option \<times> 'a brw_queue) result" where
  "brw_peek b = map_sum id (\<lambda>(p, q). (p, b\<lparr>inner := q\<rparr>)) (rw_peek (inner b))"

definition brw_pop :: "'a brw_queue \<Rightarrow> (bool \<times> 'a brw_queue) result" where
  "brw_pop b = map_sum id (\<lambda>(r, b). (r \<noteq> None, b))
     (blk_take brw_tryWait (\<lambda>q. map_sum id (\<lambda>(ok, q). (if ok then Some () else None, q)) (rw_pop q)) b)"

definition brw_size_approx :: "'a brw_queue \<Rightarrow> nat result" where
  "brw_size_approx b = (case sema b of None \<Rightarrow> Inl (UndefinedBehaviour ''sema'') | Some s \<Rightarrow> Inr (availableApprox s))"

definition brw_max_capacity :: "'a brw_queue \<Rightarrow> size_t result option" where
  "brw_max_capacity b = rw_max_capacity (inner b)"

definition brw_move :: "rw_class \<Rightarrow> 'a brw_queue \<Rightarrow> ('a brw_queue \<times> 'a brw_queue) result" where
  "brw_move k other =
     map_sum id (\<lambda>(new, old). (\<lparr>inner = new, sema = sema other\<rparr>, \<lparr>inner = old, sema = None\<rparr>)) (rw_move k (inner other))"

text \<open>\<open>std::swap(inner, other.inner)\<close> is a move construction and two move assignments.\<close>

definition rw_swap :: "rw_class \<Rightarrow> 'a rw_queue \<Rightarrow> 'a rw_queue \<Rightarrow> ('a rw_queue \<times> 'a rw_queue) result" where
  "rw_swap k a b =
     (case rw_move k a of
        Inl e \<Rightarrow> Inl e
      | Inr (tmp, a) \<Rightarrow> (let (a, b) = rw_assign a b; (b, tmp) = rw_assign b tmp in Inr (a, b)))"

definition brw_assign :: "rw_class \<Rightarrow> 'a brw_queue \<Rightarrow> 'a brw_queue \<Rightarrow> ('a brw_queue \<times> 'a brw_queue) result" where
  "brw_assign k this other =
     map_sum id (\<lambda>(a, b). (\<lparr>inner = a, sema = sema other\<rparr>, \<lparr>inner = b, sema = sema this\<rparr>)) (rw_swap k (inner this) (inner other))"

interpretation brw_sema: semaphore "\<lambda>p. \<exists>s. p = Some s \<and> lw_quiet s" "ptr_avail availableApprox" brw_tryWait brw_signal
  unfolding brw_tryWait_def brw_signal_def by (rule sp.semaphore_ptr)

interpretation brw: blocking_queue "\<lambda>p. \<exists>s. p = Some s \<and> lw_quiet s" "ptr_avail availableApprox" brw_tryWait brw_signal
    "\<lambda>q. rw_class_ok k \<and> rw_inv g k q" rw_contents "\<lambda>q. rw_room q \<or> c \<and> rw_can_grow k q" "rw_inner_enqueue k c" rw_try_dequeue brw_sema_wait
  for k :: rw_class and g :: nat and c :: bool
proof unfold_locales
  fix q :: "'a rw_queue" and x assume i: "rw_class_ok k \<and> rw_inv g k q"
  from rw_inner_enqueue_ok [of k g q c x] i
  show "\<exists>q'. rw_inner_enqueue k c x q = Inr (rw_room q \<or> c \<and> rw_can_grow k q, q') \<and> (rw_class_ok k \<and> rw_inv g k q') \<and>
      rw_contents q' = rw_contents q @ (if rw_room q \<or> c \<and> rw_can_grow k q then [x] else [])" by blast
  from rw_try_dequeue_ok [of g k q] i
  show "\<exists>r q'. rw_try_dequeue q = Inr (r, q') \<and> (rw_class_ok k \<and> rw_inv g k q') \<and> (r = None \<longleftrightarrow> rw_contents q = []) \<and>
      rw_contents q = (case r of None \<Rightarrow> [] | Some x \<Rightarrow> [x]) @ rw_contents q'" by blast
next
  fix p t assume "\<exists>s. p = Some s \<and> lw_quiet s"
  then obtain s where "p = Some s" "lw_quiet s" by blast
  then show "brw_sema_wait t p = (if 0 < ptr_avail availableApprox p \<or> 0 \<le> t then Some (brw_tryWait p) else None)"
    by (cases "0 < m_count s"; cases "t < 0")
      (simp_all add: brw_sema_wait_def sp_wait_alone brw_tryWait_def ptr_tryWait_def ptr_avail_def availableApprox_def sp_tryWait_def)
qed

lemma brw_ctor_ok:
  assumes "rw_class_ok k" "0 < unat sz" "unat sz < 2 ^ 63" "brw_ctor k sz = Inr b"
  shows "brw.binv k (unat sz) b \<and> rw_contents (inner b) = []"
proof -
  obtain q where q: "rw_ctor k sz = Inr q" "b = \<lparr>inner = q, sema = Some \<lparr>m_count = 0, m_sema = 0\<rparr>\<rparr>"
    using assms(4) by (auto simp: brw_ctor_def LightweightSemaphore_def split: sum.splits if_splits)
  show ?thesis unfolding brw.binv_def using rw_ctor_ok [OF assms(1-3), where 'a = 'a] q assms(1)
    by (auto simp: ptr_avail_def availableApprox_def lw_quiet_def)
qed

lemma brw_try_enqueue_put: "brw_try_enqueue k x = blk_put brw_signal (rw_inner_enqueue k False x)"
  by (rule ext) (simp add: brw_try_enqueue_def blk_put_def rw_try_enqueue_def)

lemma brw_enqueue_put: "brw_enqueue k x = blk_put brw_signal (rw_inner_enqueue k True x)"
  by (rule ext) (simp add: brw_enqueue_def blk_put_def rw_enqueue_def)

lemma brw_size: "brw.binv k g b \<Longrightarrow> brw_size_approx b = Inr (length (rw_contents (inner b)))"
  by (auto simp: brw.binv_def brw_size_approx_def ptr_avail_def)

lemma brw_fresh_run:
  assumes "rw_class_ok k" "0 < unat sz" "unat sz < 2 ^ 63" "brw_ctor k sz = Inr b"
  shows "\<exists>as b'. run_ops (\<lambda>x b. Some (brw_enqueue k x b)) (\<lambda>b. Some (brw_try_dequeue b)) ops b = Some (Inr (as, b')) \<and>
    brw.binv k (unat sz) b' \<and> fifo_trace (\<lambda>xs. unat sz \<le> length xs) ops as [] (rw_contents (inner b'))"
proof -
  have i: "brw.binv k (unat sz) b" "rw_contents (inner b) = []" using brw_ctor_ok [OF assms] by auto
  have "unat sz \<le> length (rw_contents (inner b))"
    if "brw.binv k (unat sz) b" "\<not> (rw_room (inner b) \<or> True \<and> rw_can_grow k (inner b))" for b :: "'a brw_queue"
    using rw_refuses_only_when [of "unat sz" k "inner b"] that by (auto simp: brw.binv_def)
  from brw.fifo.run_fifo [of k "unat sz" True "\<lambda>xs. unat sz \<le> length xs" b ops, OF this i(1)] show ?thesis
    using i(2) by (simp add: brw_enqueue_put brw_try_dequeue_def)
qed


text \<open>
  The move constructor hands over the semaphore with \<open>std::move\<close> and gives the old queue no new one: every
  operation of the moved-from queue then goes through a null pointer, although its inner queue is a working
  empty queue.
\<close>
theorem brw_moved_from_null:
  assumes "rw_class_ok k" "brw.binv k g b" "brw_move k b = Inr (new, old)"
  shows "brw.binv k g new \<and> rw_contents (inner new) = rw_contents (inner b) \<and>
    rw_contents (inner old) = [] \<and> rw_room (inner old) \<and>
    brw_try_enqueue k x old = Inl (UndefinedBehaviour ''sema'') \<and>
    brw_try_dequeue old = Inl (UndefinedBehaviour ''sema'') \<and>
    brw_size_approx old = Inl (UndefinedBehaviour ''sema'')"
proof -
  obtain p q where m: "rw_move k (inner b) = Inr (p, q)" "new = \<lparr>inner = p, sema = sema b\<rparr>" "old = \<lparr>inner = q, sema = None\<rparr>"
    using assms(3) by (auto simp: brw_move_def map_sum_def split: sum.splits)
  have b: "rw_inv g k (inner b)" "\<exists>s. sema b = Some s \<and> lw_quiet s" "ptr_avail availableApprox (sema b) = length (rw_contents (inner b))"
    using assms(2) by (auto simp: brw.binv_def)
  have pq: "rw_inv g k p" "rw_contents p = rw_contents (inner b)" "rw_inv 31 k q" "rw_contents q = []"
    using rw_move_spec [OF assms(1) b(1) b(1) m(1)] by auto
  have room: "rw_room q" using rw_refuses_only_when [OF pq(3)] pq(4) by fastforce
  show ?thesis
    using b pq m(2,3) room assms(1) rw_inner_enqueue_ok [OF assms(1) pq(3), of False x] unfolding brw.binv_def
    by (auto simp: brw_try_enqueue_put blk_put_def brw_signal_def ptr_signal_def brw_try_dequeue_def blk_take_def brw_tryWait_def
        ptr_tryWait_def brw_size_approx_def)
qed

text \<open>The blocking queue the constructor makes for two elements.\<close>

definition brw_demo :: "nat brw_queue" where
  "brw_demo = \<lparr>inner = rw_demo, sema = Some \<lparr>m_count = 0, m_sema = 0\<rparr>\<rparr>"

lemma brw_demo_ctor: "brw_ctor rw_class4 2 = Inr brw_demo"
  by (simp add: brw_ctor_def rw_demo_ctor LightweightSemaphore_def brw_demo_def)


theorem brw_moved_from_null_witness:
  "\<exists>new old. brw_move rw_class4 brw_demo = Inr (new, old) \<and> brw_try_enqueue rw_class4 7 old = Inl (UndefinedBehaviour ''sema'')"
proof -
  have "brw.binv rw_class4 2 brw_demo" using brw_ctor_ok [OF rw_class4_ok _ _ brw_demo_ctor] by simp
  moreover obtain new old where "brw_move rw_class4 brw_demo = Inr (new, old)" by (simp add: brw_move_def brw_demo_def rw_move_def rw_eval)
  ultimately show ?thesis using brw_moved_from_null [OF rw_class4_ok, of 2 brw_demo new old 7] by auto
qed

end
