(* ===== verification/CircularBuffer.thy ===== *)
theory CircularBuffer
  imports Blocking
begin

text \<open>
  \<open>BlockingReaderWriterCircularBuffer\<close> (\<^verbatim>\<open>readerwriterqueue/readerwritercircularbuffer.h\<close>): a ring of slots
  between two semaphores, one that counts the free slots and one that counts the elements. First all operations
  as one thread sees them, then the producer beside the consumer.
\<close>

section \<open>State\<close>

record cb_class =
  cbc_sizeofT :: size_t
  cbc_alignofT :: size_t
  cbc_malloc :: "size_t \<Rightarrow> bool"    \<comment> \<open>does an allocation of so many bytes succeed\<close>

record 'a circ_buf =
  cb_maxcap :: size_t
  cb_mask :: size_t
  cb_data :: "'a option list option"    \<comment> \<open>\<open>None\<close>: the null pointer\<close>
  cb_slots :: lw_sema
  cb_items :: lw_sema
  cb_nextSlot :: size_t
  cb_nextItem :: size_t

section \<open>Construction, moving and destruction\<close>

text \<open>
  The mask is computed as in \<open>ceilToPow2\<close>. The result of \<open>malloc\<close> is not checked; aligning the null pointer
  gives the null pointer.
\<close>

definition cb_ctor :: "cb_class \<Rightarrow> size_t \<Rightarrow> 'a circ_buf result" where
  "cb_ctor k capacity =
     (case LightweightSemaphore (sint capacity) of
        Inl e \<Rightarrow> Inl e
      | Inr slots \<Rightarrow>
          (case LightweightSemaphore 0 of
             Inl e \<Rightarrow> Inl e
           | Inr items \<Rightarrow>
               let msk = smear 8 (capacity - 1);
                   bytes = (msk + 1) * cbc_sizeofT k + cbc_alignofT k - 1
               in Inr \<lparr>cb_maxcap = capacity, cb_mask = msk,
                    cb_data = (if cbc_malloc k bytes
                      then Some (replicate ((unat bytes - (unat (cbc_alignofT k) - 1)) div unat (cbc_sizeofT k)) None) else None),
                    cb_slots = slots, cb_items = items, cb_nextSlot = 0, cb_nextItem = 0\<rparr>))"

definition cb_swap :: "'a circ_buf \<Rightarrow> 'a circ_buf \<Rightarrow> 'a circ_buf \<times> 'a circ_buf" where
  "cb_swap this other =
     (this\<lparr>cb_maxcap := cb_maxcap other, cb_mask := cb_mask other, cb_data := cb_data other, cb_slots := cb_slots other,
        cb_items := cb_items other, cb_nextSlot := cb_nextSlot other, cb_nextItem := cb_nextItem other\<rparr>,
      other\<lparr>cb_maxcap := cb_maxcap this, cb_mask := cb_mask this, cb_data := cb_data this, cb_slots := cb_slots this,
        cb_items := cb_items this, cb_nextSlot := cb_nextSlot this, cb_nextItem := cb_nextItem this\<rparr>)"

definition cb_move :: "'a circ_buf \<Rightarrow> ('a circ_buf \<times> 'a circ_buf) result" where
  "cb_move other =
     (case LightweightSemaphore 0 of
        Inl e \<Rightarrow> Inl e
      | Inr s \<Rightarrow> Inr (cb_swap \<lparr>cb_maxcap = 0, cb_mask = 0, cb_data = None, cb_slots = s, cb_items = s, cb_nextSlot = 0, cb_nextItem = 0\<rparr> other))"

definition cb_assign :: "'a circ_buf \<Rightarrow> 'a circ_buf \<Rightarrow> 'a circ_buf \<times> 'a circ_buf" where
  "cb_assign this other = cb_swap this other"

text \<open>Placement new, reading and destroying at \<open>data[i & mask]\<close>.\<close>

definition cb_construct :: "'a \<Rightarrow> size_t \<Rightarrow> 'a circ_buf \<Rightarrow> 'a circ_buf result" where
  "cb_construct x i b =
     (case cb_data b of
        None \<Rightarrow> Inl (UndefinedBehaviour ''nullptr'')
      | Some d \<Rightarrow>
          let j = unat (i AND cb_mask b)
          in if j < length d then Inr (b\<lparr>cb_data := Some (d[j := Some x])\<rparr>) else Inl (UndefinedBehaviour ''data''))"

definition cb_element :: "size_t \<Rightarrow> 'a circ_buf \<Rightarrow> 'a result" where
  "cb_element i b =
     (case cb_data b of
        None \<Rightarrow> Inl (UndefinedBehaviour ''nullptr'')
      | Some d \<Rightarrow>
          let j = unat (i AND cb_mask b)
          in if j < length d then (case d ! j of Some x \<Rightarrow> Inr x | None \<Rightarrow> Inl (UndefinedBehaviour ''raw storage''))
             else Inl (UndefinedBehaviour ''data''))"

definition cb_destroy :: "size_t \<Rightarrow> 'a circ_buf \<Rightarrow> 'a circ_buf" where
  "cb_destroy i b = b\<lparr>cb_data := map_option (\<lambda>d. d[unat (i AND cb_mask b) := None]) (cb_data b)\<rparr>"

text \<open>The destructor: the elements it destroys, in order.\<close>

fun cb_dtor_loop :: "nat \<Rightarrow> size_t \<Rightarrow> 'a circ_buf \<Rightarrow> ('a list \<times> 'a circ_buf) result" where
  "cb_dtor_loop 0 i b = Inr ([], b)"
| "cb_dtor_loop (Suc n) i b =
     (case cb_element (cb_nextItem b + i) b of
        Inl e \<Rightarrow> Inl e
      | Inr x \<Rightarrow> map_sum id (\<lambda>(xs, b). (x # xs, b)) (cb_dtor_loop n (i + 1) (cb_destroy (cb_nextItem b + i) b)))"

definition cb_dtor :: "'a circ_buf \<Rightarrow> 'a list result" where
  "cb_dtor b = map_sum id fst (cb_dtor_loop (availableApprox (cb_items b)) 0 b)"

section \<open>Operations\<close>

text \<open>The parts of \<open>inner_enqueue\<close> and \<open>inner_dequeue\<close> before the signal.\<close>

definition cb_put :: "'a \<Rightarrow> 'a circ_buf \<Rightarrow> 'a circ_buf result" where
  "cb_put x b = (let i = cb_nextSlot b in cb_construct x i (b\<lparr>cb_nextSlot := i + 1\<rparr>))"

definition cb_get :: "'a circ_buf \<Rightarrow> ('a \<times> 'a circ_buf) result" where
  "cb_get b =
     (let i = cb_nextItem b; b = b\<lparr>cb_nextItem := i + 1\<rparr>
      in case cb_element i b of Inl e \<Rightarrow> Inl e | Inr x \<Rightarrow> Inr (x, cb_destroy i b))"

definition cb_signal_items :: "'a circ_buf \<Rightarrow> 'a circ_buf result" where
  "cb_signal_items b = map_sum id (\<lambda>s. b\<lparr>cb_items := s\<rparr>) (sp_signal 1 (cb_items b))"

definition cb_signal_slots :: "'a circ_buf \<Rightarrow> 'a circ_buf result" where
  "cb_signal_slots b = map_sum id (\<lambda>s. b\<lparr>cb_slots := s\<rparr>) (sp_signal 1 (cb_slots b))"

definition inner_enqueue :: "'a \<Rightarrow> 'a circ_buf \<Rightarrow> 'a circ_buf result" where
  "inner_enqueue x b = (case cb_put x b of Inl e \<Rightarrow> Inl e | Inr b \<Rightarrow> cb_signal_items b)"

definition inner_dequeue :: "'a circ_buf \<Rightarrow> ('a \<times> 'a circ_buf) result" where
  "inner_dequeue b = (case cb_get b of Inl e \<Rightarrow> Inl e | Inr (x, b) \<Rightarrow> map_sum id (Pair x) (cb_signal_slots b))"

definition inner_pop :: "'a circ_buf \<Rightarrow> 'a circ_buf result" where
  "inner_pop b =
     (let i = cb_nextItem b; b = b\<lparr>cb_nextItem := i + 1\<rparr>
      in case cb_element i b of Inl e \<Rightarrow> Inl e | Inr _ \<Rightarrow> cb_signal_slots (cb_destroy i b))"

definition inner_peek :: "'a circ_buf \<Rightarrow> size_t" where
  "inner_peek b = cb_nextItem b AND cb_mask b"

definition cb_try_enqueue :: "'a \<Rightarrow> 'a circ_buf \<Rightarrow> (bool \<times> 'a circ_buf) result" where
  "cb_try_enqueue x b =
     (case sp_tryWait (cb_slots b) of
        (False, s) \<Rightarrow> Inr (False, b\<lparr>cb_slots := s\<rparr>)
      | (True, s) \<Rightarrow> map_sum id (Pair True) (inner_enqueue x (b\<lparr>cb_slots := s\<rparr>)))"

definition cb_sema_wait :: "int \<Rightarrow> lw_sema \<Rightarrow> (bool \<times> lw_sema) result option" where
  "cb_sema_wait t s = map_option Inr (sp_wait t s)"

definition cb_wait_enqueue :: "'a \<Rightarrow> 'a circ_buf \<Rightarrow> 'a circ_buf result option" where
  "cb_wait_enqueue x b =
     (case wait_loop (cb_sema_wait (- 1)) (cb_slots b) of
        None \<Rightarrow> None
      | Some (Inl e) \<Rightarrow> Some (Inl e)
      | Some (Inr (_, s)) \<Rightarrow> Some (inner_enqueue x (b\<lparr>cb_slots := s\<rparr>)))"

definition cb_wait_enqueue_timed :: "'a \<Rightarrow> int \<Rightarrow> 'a circ_buf \<Rightarrow> (bool \<times> 'a circ_buf) result option" where
  "cb_wait_enqueue_timed x timeout_usecs b =
     (case sp_wait timeout_usecs (cb_slots b) of
        None \<Rightarrow> None
      | Some (False, s) \<Rightarrow> Some (Inr (False, b\<lparr>cb_slots := s\<rparr>))
      | Some (True, s) \<Rightarrow> Some (map_sum id (Pair True) (inner_enqueue x (b\<lparr>cb_slots := s\<rparr>))))"

definition cb_try_dequeue :: "'a circ_buf \<Rightarrow> ('a option \<times> 'a circ_buf) result" where
  "cb_try_dequeue b =
     (case sp_tryWait (cb_items b) of
        (False, s) \<Rightarrow> Inr (None, b\<lparr>cb_items := s\<rparr>)
      | (True, s) \<Rightarrow> map_sum id (\<lambda>(x, b). (Some x, b)) (inner_dequeue (b\<lparr>cb_items := s\<rparr>)))"

definition cb_wait_dequeue :: "'a circ_buf \<Rightarrow> ('a \<times> 'a circ_buf) result option" where
  "cb_wait_dequeue b =
     (case wait_loop (cb_sema_wait (- 1)) (cb_items b) of
        None \<Rightarrow> None
      | Some (Inl e) \<Rightarrow> Some (Inl e)
      | Some (Inr (_, s)) \<Rightarrow> Some (inner_dequeue (b\<lparr>cb_items := s\<rparr>)))"

definition cb_wait_dequeue_timed :: "int \<Rightarrow> 'a circ_buf \<Rightarrow> ('a option \<times> 'a circ_buf) result option" where
  "cb_wait_dequeue_timed timeout_usecs b =
     (case sp_wait timeout_usecs (cb_items b) of
        None \<Rightarrow> None
      | Some (False, s) \<Rightarrow> Some (Inr (None, b\<lparr>cb_items := s\<rparr>))
      | Some (True, s) \<Rightarrow> Some (map_sum id (\<lambda>(x, b). (Some x, b)) (inner_dequeue (b\<lparr>cb_items := s\<rparr>))))"

definition cb_peek :: "'a circ_buf \<Rightarrow> size_t option" where
  "cb_peek b = (if availableApprox (cb_items b) = 0 then None else Some (inner_peek b))"

definition cb_try_pop :: "'a circ_buf \<Rightarrow> (bool \<times> 'a circ_buf) result" where
  "cb_try_pop b =
     (case sp_tryWait (cb_items b) of
        (False, s) \<Rightarrow> Inr (False, b\<lparr>cb_items := s\<rparr>)
      | (True, s) \<Rightarrow> map_sum id (Pair True) (inner_pop (b\<lparr>cb_items := s\<rparr>)))"

definition cb_size_approx :: "'a circ_buf \<Rightarrow> nat" where
  "cb_size_approx b = availableApprox (cb_items b)"

definition cb_max_capacity :: "'a circ_buf \<Rightarrow> size_t" where
  "cb_max_capacity b = cb_maxcap b"

section \<open>The ring\<close>

definition cb_len :: "'a circ_buf \<Rightarrow> nat" where
  "cb_len b = unat (cb_nextSlot b - cb_nextItem b)"

definition cb_idx :: "'a circ_buf \<Rightarrow> nat \<Rightarrow> nat" where
  "cb_idx b i = unat ((cb_nextItem b + of_nat i) AND cb_mask b)"

definition cb_at :: "'a circ_buf \<Rightarrow> nat \<Rightarrow> 'a option" where
  "cb_at b i = the (cb_data b) ! cb_idx b i"

text \<open>The elements from \<open>nextItem\<close> up to \<open>nextSlot\<close>.\<close>

definition cb_contents :: "'a circ_buf \<Rightarrow> 'a list" where
  "cb_contents b = map (\<lambda>i. the (cb_at b i)) [0..<cb_len b]"

text \<open>\<open>2 ^ m\<close> slots, of which exactly those between the two counters are live.\<close>

definition cb_ring :: "nat \<Rightarrow> 'a circ_buf \<Rightarrow> bool" where
  "cb_ring m b \<longleftrightarrow> m < 64 \<and> cb_mask b = mask m \<and> (\<exists>d. cb_data b = Some d \<and> length d = 2 ^ m) \<and> cb_len b \<le> 2 ^ m \<and>
     (\<forall>i < 2 ^ m. cb_at b i \<noteq> None \<longleftrightarrow> i < cb_len b)"

lemma length_cb_contents [simp]: "length (cb_contents b) = cb_len b"
  by (simp add: cb_contents_def)

lemma unat_and_mask:
  assumes "m < 64" shows "unat ((x + of_nat i :: size_t) AND mask m) = (unat x + i) mod 2 ^ m"
proof -
  have "(2 :: nat) ^ m dvd 2 ^ 64" using assms by (intro le_imp_power_dvd) simp
  then have "(unat x + i) mod 2 ^ 64 mod 2 ^ m = (unat x + i) mod 2 ^ m" by (rule mod_mod_cancel)
  moreover have "unat (x + of_nat i) = (unat x + i) mod 2 ^ 64" by (simp add: unat_word_ariths unat_of_nat mod_add_right_eq)
  ultimately show ?thesis by (simp add: unat_drop_bit_eq flip: take_bit_eq_mask) (simp add: unsigned_take_bit_eq take_bit_nat_def)
qed

lemma cb_idx_ring: "cb_ring m b \<Longrightarrow> cb_idx b i = (unat (cb_nextItem b) + i) mod 2 ^ m"
  by (simp add: cb_idx_def cb_ring_def unat_and_mask)

lemma cb_idx_inj: "cb_ring m b \<Longrightarrow> i < 2 ^ m \<Longrightarrow> j < 2 ^ m \<Longrightarrow> cb_idx b i = cb_idx b j \<longleftrightarrow> i = j"
  by (simp add: cb_idx_ring mod_add_inj)

lemma cb_slot_idx: "unat (cb_nextSlot b AND cb_mask b) = cb_idx b (cb_len b)"
  by (simp add: cb_idx_def cb_len_def)

lemma cb_put_ok:
  assumes r: "cb_ring m b" and room: "cb_len b < 2 ^ m"
  shows "\<exists>b'. cb_put x b = Inr b' \<and> cb_ring m b' \<and> cb_contents b' = cb_contents b @ [x] \<and> cb_len b' = Suc (cb_len b) \<and>
    cb_slots b' = cb_slots b \<and> cb_items b' = cb_items b \<and> cb_maxcap b' = cb_maxcap b"
proof -
  let ?k = "cb_len b"
  obtain d where d: "cb_data b = Some d" "length d = 2 ^ m" using r by (auto simp: cb_ring_def)
  have m: "m < 64" "cb_mask b = mask m" using r by (auto simp: cb_ring_def)
  define b' where "b' = b\<lparr>cb_nextSlot := cb_nextSlot b + 1, cb_data := Some (d[cb_idx b ?k := Some x])\<rparr>"
  have lt: "cb_idx b i < 2 ^ m" for i by (simp add: cb_idx_ring [OF r])
  have put: "cb_put x b = Inr b'" using d lt by (simp add: cb_put_def cb_construct_def cb_slot_idx b'_def)
  have "unat (cb_nextSlot b - cb_nextItem b) + unat (1 :: size_t) < 2 ^ 64"
    using room m(1) power_strict_increasing [of m 64 "2 :: nat"] by (simp add: cb_len_def)
  then have "unat (cb_nextSlot b - cb_nextItem b + 1) = ?k + 1" by (subst unat_add_less) (simp_all add: cb_len_def)
  then have len: "cb_len b' = Suc ?k" by (simp add: cb_len_def b'_def algebra_simps)
  have idx: "cb_idx b' i = cb_idx b i" for i by (simp add: cb_idx_def b'_def)
  have at: "cb_at b' i = (if i = ?k then Some x else cb_at b i)" if "i < 2 ^ m" for i
    using cb_idx_inj [OF r that room] d lt [of ?k] by (auto simp: cb_at_def idx) (auto simp: b'_def)
  have c: "cb_contents b' = cb_contents b @ [x]"
    using room by (simp add: cb_contents_def len at)
  have "cb_ring m b'" unfolding cb_ring_def
  proof (intro conjI allI impI)
    show "\<exists>d. cb_data b' = Some d \<and> length d = 2 ^ m" using d by (simp add: b'_def)
    show "cb_len b' \<le> 2 ^ m" using room len by simp
    show "cb_at b' i \<noteq> None \<longleftrightarrow> i < cb_len b'" if "i < 2 ^ m" for i
      using r that at [OF that] len by (auto simp: cb_ring_def)
  qed (use m in \<open>simp_all add: b'_def\<close>)
  with put c len show ?thesis by (auto simp: b'_def)
qed

lemma cb_element_front:
  assumes r: "cb_ring m b" and c: "cb_contents b = x # xs"
  shows "cb_element (cb_nextItem b) b = Inr x"
proof -
  have k: "0 < cb_len b" using length_cb_contents [of b] c by simp
  obtain d where d: "cb_data b = Some d" "length d = 2 ^ m" using r by (auto simp: cb_ring_def)
  have "cb_at b 0 \<noteq> None" using r k by (auto simp: cb_ring_def)
  moreover have "the (cb_at b 0) = x" using c k by (simp add: cb_contents_def upt_conv_Cons)
  ultimately have "cb_at b 0 = Some x" by auto
  moreover have "cb_idx b 0 < 2 ^ m" by (simp add: cb_idx_ring [OF r])
  ultimately show ?thesis using d by (simp add: cb_element_def cb_at_def cb_idx_def)
qed

lemma cb_drop_ok:
  assumes r: "cb_ring m b" and c: "cb_contents b = x # xs"
  defines "b' \<equiv> cb_destroy (cb_nextItem b) (b\<lparr>cb_nextItem := cb_nextItem b + 1\<rparr>)"
  shows "cb_ring m b' \<and> cb_contents b' = xs \<and> Suc (cb_len b') = cb_len b \<and>
    cb_slots b' = cb_slots b \<and> cb_items b' = cb_items b \<and> cb_maxcap b' = cb_maxcap b"
proof -
  obtain k where k: "cb_len b = Suc k" using length_cb_contents [of b] c by (cases "cb_len b") auto
  obtain d where d: "cb_data b = Some d" "length d = 2 ^ m" using r by (auto simp: cb_ring_def)
  have m: "m < 64" "cb_mask b = mask m" "cb_len b \<le> 2 ^ m" using r by (auto simp: cb_ring_def)
  have d': "cb_data b' = Some (d[cb_idx b 0 := None])" using d by (simp add: b'_def cb_destroy_def cb_idx_def)
  have idx: "cb_idx b' i = cb_idx b (Suc i)" for i by (simp add: cb_idx_def b'_def cb_destroy_def algebra_simps)
  have lt: "cb_idx b i < 2 ^ m" for i by (simp add: cb_idx_ring [OF r])
  have wrap: "cb_idx b (2 ^ m) = cb_idx b 0" by (simp add: cb_idx_ring [OF r])
  have "unat (cb_nextSlot b - (cb_nextItem b + 1)) = unat (cb_nextSlot b - cb_nextItem b - 1)" by (simp add: algebra_simps)
  also have "\<dots> = k" using k unat_sub [of 1 "cb_nextSlot b - cb_nextItem b"] by (simp add: cb_len_def word_le_nat_alt)
  finally have len: "cb_len b' = k" by (simp add: cb_len_def b'_def cb_destroy_def)
  have at: "cb_at b' i = (if Suc i = 2 ^ m then None else cb_at b (Suc i))" if "i < 2 ^ m" for i
  proof (cases "Suc i = 2 ^ m")
    case True
    then show ?thesis using d' d lt wrap by (simp add: cb_at_def idx)
  next
    case False
    then have "cb_idx b (Suc i) \<noteq> cb_idx b 0" using cb_idx_inj [OF r, of "Suc i" 0] that by simp
    then show ?thesis using d' d False by (simp add: cb_at_def idx)
  qed
  have "cb_contents b = the (cb_at b 0) # map (\<lambda>i. the (cb_at b (Suc i))) [0..<k]"
    unfolding cb_contents_def k by (simp add: upt_conv_Cons map_Suc_upt [symmetric] del: upt_Suc)
  moreover have "map (\<lambda>i. the (cb_at b (Suc i))) [0..<k] = cb_contents b'"
    unfolding cb_contents_def len using at m(3) k by (intro map_cong) auto
  ultimately have cc: "cb_contents b' = xs" using c by simp
  have "cb_ring m b'" unfolding cb_ring_def
  proof (intro conjI allI impI)
    show "cb_mask b' = mask m" using m by (simp add: b'_def cb_destroy_def)
    show "\<exists>d. cb_data b' = Some d \<and> length d = 2 ^ m" using d d' by simp
    show "cb_len b' \<le> 2 ^ m" using m(3) len k by simp
    show "cb_at b' i \<noteq> None \<longleftrightarrow> i < cb_len b'" if "i < 2 ^ m" for i
      using r that at [OF that] len k m(3) by (auto simp: cb_ring_def)
  qed (use m in simp)
  with cc len k show ?thesis by (simp add: b'_def cb_destroy_def)
qed

lemma cb_element_nextItem [simp]: "cb_element i (b\<lparr>cb_nextItem := j\<rparr>) = cb_element i b"
  by (simp add: cb_element_def split: option.split)

lemma cb_get_ok:
  assumes r: "cb_ring m b" and c: "cb_contents b = x # xs"
  shows "\<exists>b'. cb_get b = Inr (x, b') \<and> cb_ring m b' \<and> cb_contents b' = xs \<and> Suc (cb_len b') = cb_len b \<and>
    cb_slots b' = cb_slots b \<and> cb_items b' = cb_items b \<and> cb_maxcap b' = cb_maxcap b"
proof -
  show ?thesis using cb_element_front [OF r c] cb_drop_ok [OF r c] by (simp add: cb_get_def Let_def)
qed

section \<open>One thread\<close>

text \<open>The semaphores count the elements and the free slots; a capacity of 0 needs no slots.\<close>

definition cb_cap :: "'a circ_buf \<Rightarrow> nat" where
  "cb_cap b = unat (cb_maxcap b)"

lemma cb_cap_eq: "cb_maxcap b' = cb_maxcap b \<Longrightarrow> cb_cap b' = cb_cap b"
  by (simp add: cb_cap_def)

definition cb_inv :: "'a circ_buf \<Rightarrow> bool" where
  "cb_inv b \<longleftrightarrow> cb_items b = \<lparr>m_count = int (cb_len b), m_sema = 0\<rparr> \<and>
     cb_slots b = \<lparr>m_count = int (cb_cap b) - int (cb_len b), m_sema = 0\<rparr> \<and> cb_len b \<le> cb_cap b \<and>
     (cb_cap b = 0 \<or> (\<exists>m. cb_ring m b \<and> cb_cap b \<le> 2 ^ m))"

lemma cb_sema_fields [simp]:
  "cb_put x (b\<lparr>cb_slots := s\<rparr>) = map_sum id (\<lambda>b. b\<lparr>cb_slots := s\<rparr>) (cb_put x b)"
  "cb_get (b\<lparr>cb_items := s\<rparr>) = map_sum id (map_prod id (\<lambda>b. b\<lparr>cb_items := s\<rparr>)) (cb_get b)"
  "cb_ring m (b\<lparr>cb_slots := s\<rparr>) = cb_ring m b" "cb_ring m (b\<lparr>cb_items := s\<rparr>) = cb_ring m b"
  "cb_len (b\<lparr>cb_slots := s\<rparr>) = cb_len b" "cb_len (b\<lparr>cb_items := s\<rparr>) = cb_len b"
  "cb_cap (b\<lparr>cb_slots := s\<rparr>) = cb_cap b" "cb_cap (b\<lparr>cb_items := s\<rparr>) = cb_cap b"
  "cb_contents (b\<lparr>cb_slots := s\<rparr>) = cb_contents b" "cb_contents (b\<lparr>cb_items := s\<rparr>) = cb_contents b"
  by (simp_all add: cb_put_def cb_construct_def cb_get_def cb_element_def cb_destroy_def cb_ring_def cb_len_def cb_cap_def cb_contents_def cb_at_def
      cb_idx_def Let_def split: option.split)

lemma sp_signal_quiet: "0 \<le> m_count s \<Longrightarrow> sp_signal 1 s = Inr (s\<lparr>m_count := m_count s + 1\<rparr>)"
  by (simp add: sp_signal_def Let_def)

lemma cb_try_enqueue_ok:
  assumes i: "cb_inv b"
  shows "\<exists>b'. cb_try_enqueue x b = Inr (cb_len b < cb_cap b, b') \<and> cb_inv b' \<and> cb_cap b' = cb_cap b \<and>
    cb_contents b' = cb_contents b @ (if cb_len b < cb_cap b then [x] else [])"
proof (cases "cb_len b < cb_cap b")
  case False
  then show ?thesis using i by (auto simp: cb_inv_def cb_try_enqueue_def sp_tryWait_def)
next
  case True
  then obtain m where m: "cb_ring m b" "cb_cap b \<le> 2 ^ m" using i by (auto simp: cb_inv_def)
  then obtain b' where "cb_put x b = Inr b'" "cb_ring m b'" "cb_contents b' = cb_contents b @ [x]" "cb_len b' = Suc (cb_len b)"
    "cb_slots b' = cb_slots b" "cb_items b' = cb_items b" "cb_cap b' = cb_cap b"
    using cb_put_ok [OF m(1), of x] True cb_cap_eq by fastforce
  then show ?thesis using True i m
    by (auto simp: cb_inv_def cb_try_enqueue_def sp_tryWait_def inner_enqueue_def cb_signal_items_def sp_signal_quiet)
qed

lemma cb_try_dequeue_ok:
  assumes i: "cb_inv b"
  shows "\<exists>r b'. cb_try_dequeue b = Inr (r, b') \<and> cb_inv b' \<and> cb_cap b' = cb_cap b \<and> (r = None \<longleftrightarrow> cb_contents b = []) \<and>
    cb_contents b = (case r of None \<Rightarrow> [] | Some x \<Rightarrow> [x]) @ cb_contents b'"
proof (cases "cb_contents b")
  case Nil
  then have "cb_len b = 0" using length_cb_contents [of b] by simp
  then show ?thesis using i Nil by (auto simp: cb_inv_def cb_try_dequeue_def sp_tryWait_def)
next
  case (Cons x xs)
  then have k: "0 < cb_len b" using length_cb_contents [of b] by simp
  then obtain m where m: "cb_ring m b" "cb_cap b \<le> 2 ^ m" using i by (auto simp: cb_inv_def)
  then obtain b' where b': "cb_get b = Inr (x, b')" "cb_ring m b'" "cb_contents b' = xs" "Suc (cb_len b') = cb_len b"
    "cb_slots b' = cb_slots b" "cb_items b' = cb_items b" "cb_cap b' = cb_cap b"
    using cb_get_ok [OF m(1) Cons] cb_cap_eq by fastforce
  then have "int (cb_len b') = int (cb_len b) - 1" by simp
  then show ?thesis using b' k i m Cons
    by (auto simp: cb_inv_def cb_try_dequeue_def sp_tryWait_def inner_dequeue_def cb_signal_slots_def sp_signal_quiet)
qed

interpretation cb: bounded_fifo cb_inv cb_contents "\<lambda>b. cb_len b < cb_cap b" "\<lambda>x b. Some (cb_try_enqueue x b)"
    "\<lambda>b. Some (cb_try_dequeue b)" cb_cap
proof
  fix b :: "'a circ_buf" and x
  assume i: "cb_inv b"
  note e = cb_try_enqueue_ok [OF i, of x]
  show "cb_len b < cb_cap b \<Longrightarrow> \<exists>b'. Some (cb_try_enqueue x b) = Some (Inr (True, b')) \<and> cb_inv b' \<and> cb_contents b' = cb_contents b @ [x]"
    using e by auto
  show "\<not> cb_len b < cb_cap b \<Longrightarrow> \<exists>b'. Some (cb_try_enqueue x b) = Some (Inr (False, b')) \<and> cb_inv b' \<and> cb_contents b' = cb_contents b"
    using e by auto
  show "cb_cap b' = cb_cap b" if "Some (cb_try_enqueue x b) = Some (Inr (ok, b'))" for ok b' using e that by auto
  note d = cb_try_dequeue_ok [OF i]
  show "cb_contents b = [] \<Longrightarrow> \<exists>b'. Some (cb_try_dequeue b) = Some (Inr (None, b')) \<and> cb_inv b' \<and> cb_contents b' = []"
    using d by fastforce
  show "cb_contents b = y # ys \<Longrightarrow> \<exists>b'. Some (cb_try_dequeue b) = Some (Inr (Some y, b')) \<and> cb_inv b' \<and> cb_contents b' = ys" for y ys
    using d by (fastforce split: option.splits)
  show "cb_cap b' = cb_cap b" if "Some (cb_try_dequeue b) = Some (Inr (r, b'))" for r b' using d that by auto
qed simp

text \<open>The bytes of the allocation do not overflow: twice the capacity is an upper bound of the rounded one.\<close>

definition cb_class_ok :: "cb_class \<Rightarrow> size_t \<Rightarrow> bool" where
  "cb_class_ok k capacity \<longleftrightarrow> 0 < unat (cbc_sizeofT k) \<and> 0 < unat (cbc_alignofT k) \<and>
     2 * unat capacity * unat (cbc_sizeofT k) + unat (cbc_alignofT k) < 2 ^ 64 \<and> (\<forall>bytes. cbc_malloc k bytes)"

lemma ceilToPow2_bounds:
  assumes "0 < unat c" "unat c < 2 ^ 63"
  shows "\<exists>m < 64. ceilToPow2 c = 2 ^ m \<and> unat c \<le> 2 ^ m \<and> 2 ^ m \<le> 2 * unat c"
proof -
  obtain m where m: "unat (ceilToPow2 c) = 2 ^ m" "unat c \<le> 2 ^ m" "\<forall>n. unat c \<le> 2 ^ n \<longrightarrow> m \<le> n"
    using ceilToPow2 [of c] assms by (auto simp: least_pow2_def)
  have "m \<le> 63" using m(3) assms(2) by (meson less_imp_le)
  moreover have "ceilToPow2 c = 2 ^ m" using m(1) calculation unat_pow2 [of m, where 'a = 64] by (subst unat_inject [symmetric]) simp
  moreover have "2 ^ m \<le> 2 * unat c"
  proof (cases m)
    case (Suc n)
    then have "\<not> unat c \<le> 2 ^ n" using m(3) by (meson Suc_n_not_le_n)
    then show ?thesis using Suc by simp
  qed (use assms in simp)
  ultimately show ?thesis using m(2) by (intro exI [of _ m]) simp
qed

lemma cb_ctor_ok:
  assumes k: "cb_class_ok k c" and c: "0 < unat c" "unat c < 2 ^ 63"
  shows "\<exists>b. (cb_ctor k c :: 'a circ_buf result) = Inr b \<and> cb_inv b \<and> cb_contents b = [] \<and> cb_maxcap b = c"
proof -
  let ?T = "unat (cbc_sizeofT k)" and ?a = "unat (cbc_alignofT k)"
  obtain m where m: "m < 64" "ceilToPow2 c = 2 ^ m" "unat c \<le> 2 ^ m" "2 ^ m \<le> 2 * unat c" using ceilToPow2_bounds [OF c] by auto
  then have msk: "smear 8 (c - 1) + 1 = 2 ^ m" "smear 8 (c - 1) = mask m" by (simp_all add: ceilToPow2_def mask_eq_exp_minus_1 eq_diff_eq)
  have o: "0 < ?T" "0 < ?a" "2 * unat c * ?T + ?a < 2 ^ 64" "\<And>n. cbc_malloc k n" using k by (auto simp: cb_class_ok_def)
  have u: "unat (2 ^ m :: size_t) = 2 ^ m" using m(1) by (simp add: unat_pow2)
  have l: "2 ^ m * ?T + ?a < 2 ^ 64" using o(3) mult_le_mono1 [OF m(4), of ?T] by linarith
  have p: "unat (2 ^ m * cbc_sizeofT k) = 2 ^ m * ?T" using l u by (simp add: unat_word_ariths)
  have q: "unat (2 ^ m * cbc_sizeofT k + cbc_alignofT k) = 2 ^ m * ?T + ?a" using l p by (subst unat_add_less) simp_all
  have "unat (2 ^ m * cbc_sizeofT k + cbc_alignofT k - 1) = 2 ^ m * ?T + ?a - 1"
    using q o(2) by (subst unat_sub) (simp_all add: word_le_nat_alt)
  then have n: "(unat (2 ^ m * cbc_sizeofT k + cbc_alignofT k - 1) - (?a - 1)) div ?T = 2 ^ m" using o by simp
  have s: "sint c = int (unat c)" using c(2) by (subst sint_unat) simp
  let ?b = "\<lparr>cb_maxcap = c, cb_mask = mask m, cb_data = Some (replicate (2 ^ m) None), cb_slots = \<lparr>m_count = int (unat c), m_sema = 0\<rparr>,
      cb_items = \<lparr>m_count = 0, m_sema = 0\<rparr>, cb_nextSlot = 0, cb_nextItem = 0\<rparr> :: 'a circ_buf"
  have "mask m + 1 = (2 ^ m :: size_t)" using msk by simp
  then have ctor: "cb_ctor k c = Inr ?b" unfolding cb_ctor_def s msk(2) Let_def using o(4) n by (simp add: LightweightSemaphore_def)
  have len: "cb_len ?b = 0" by (simp add: cb_len_def)
  have "cb_ring m ?b" using m(1) len
    by (auto simp: cb_ring_def cb_at_def cb_idx_def unat_and_mask [where x = 0, simplified])
  then have "cb_inv ?b" using m(3) len by (auto simp: cb_inv_def cb_cap_def)
  moreover have "cb_contents ?b = []" using len by (simp add: cb_contents_def)
  ultimately show ?thesis using ctor by simp
qed

subsection \<open>Waiting, peeking and destroying\<close>

lemma cb_sema_quiet: "cb_inv b \<Longrightarrow> lw_quiet (cb_items b)" "cb_inv b \<Longrightarrow> lw_quiet (cb_slots b)"
  by (auto simp: cb_inv_def lw_quiet_def)

lemma cb_wait_loop:
  assumes "lw_quiet s"
  shows "wait_loop (cb_sema_wait (- 1)) s = (if 0 < m_count s then Some (Inr (sp_tryWait s)) else None)"
  using sp_wait_alone [OF assms, of "- 1"] by (subst wait_loop.simps) (auto simp: cb_sema_wait_def sp_tryWait_def)

lemma cb_wait_enqueue_ok:
  assumes i: "cb_inv b"
  shows "cb_wait_enqueue x b = (if cb_len b < cb_cap b then Some (map_sum id snd (cb_try_enqueue x b)) else None)"
proof -
  have "0 < m_count (cb_slots b) \<longleftrightarrow> cb_len b < cb_cap b" using i by (auto simp: cb_inv_def)
  then show ?thesis
    by (auto simp: cb_wait_enqueue_def cb_wait_loop [OF cb_sema_quiet(2) [OF i]] cb_try_enqueue_def sp_tryWait_def sum.map_comp comp_def sum.map_id0
        map_sum_def split: sum.splits)
qed

lemma cb_wait_enqueue_timed_ok:
  assumes i: "cb_inv b"
  shows "cb_wait_enqueue_timed x t b = (if cb_len b < cb_cap b \<or> 0 \<le> t then Some (cb_try_enqueue x b) else None)"
proof -
  have "0 < m_count (cb_slots b) \<longleftrightarrow> cb_len b < cb_cap b" using i by (auto simp: cb_inv_def)
  then show ?thesis
    by (auto simp: cb_wait_enqueue_timed_def sp_wait_alone [OF cb_sema_quiet(2) [OF i]] cb_try_enqueue_def sp_tryWait_def)
qed

lemma cb_items_pos: "cb_inv b \<Longrightarrow> 0 < m_count (cb_items b) \<longleftrightarrow> cb_contents b \<noteq> []"
  using length_greater_0_conv [of "cb_contents b"] by (simp add: cb_inv_def)

lemma cb_wait_dequeue_ok:
  assumes i: "cb_inv b"
  shows "cb_wait_dequeue b = (if cb_contents b = [] then None else Some (map_sum id (\<lambda>(r, b). (the r, b)) (cb_try_dequeue b)))"
  using cb_items_pos [OF i]
  by (auto simp: cb_wait_dequeue_def cb_wait_loop [OF cb_sema_quiet(1) [OF i]] cb_try_dequeue_def sp_tryWait_def map_sum_def split: sum.splits)

lemma cb_wait_dequeue_timed_ok:
  assumes i: "cb_inv b"
  shows "cb_wait_dequeue_timed t b = (if cb_contents b \<noteq> [] \<or> 0 \<le> t then Some (cb_try_dequeue b) else None)"
  using cb_items_pos [OF i]
  by (auto simp: cb_wait_dequeue_timed_def sp_wait_alone [OF cb_sema_quiet(1) [OF i]] cb_try_dequeue_def sp_tryWait_def)

lemma cb_try_pop_ok: "cb_try_pop b = map_sum id (\<lambda>(r, b). (r \<noteq> None, b)) (cb_try_dequeue b)"
  by (auto simp: cb_try_pop_def cb_try_dequeue_def sp_tryWait_def inner_pop_def inner_dequeue_def cb_get_def Let_def map_sum_def
      split: sum.splits)

lemma cb_size_ok: "cb_inv b \<Longrightarrow> cb_size_approx b = length (cb_contents b)"
  by (auto simp: cb_size_approx_def availableApprox_def cb_inv_def)

lemma cb_peek_ok:
  assumes i: "cb_inv b"
  shows "cb_peek b = (if cb_contents b = [] then None else Some (cb_nextItem b AND cb_mask b)) \<and>
    (cb_contents b \<noteq> [] \<longrightarrow> cb_element (cb_nextItem b) b = Inr (hd (cb_contents b)))"
proof (cases "cb_contents b")
  case Nil
  then show ?thesis using cb_size_ok [OF i] by (simp add: cb_peek_def cb_size_approx_def)
next
  case (Cons x xs)
  then have "0 < cb_len b" using length_cb_contents [of b] by simp
  then obtain m where "cb_ring m b" using i by (auto simp: cb_inv_def)
  then show ?thesis using cb_element_front [OF _ Cons] cb_size_ok [OF i] Cons by (simp add: cb_peek_def inner_peek_def cb_size_approx_def)
qed

text \<open>The loop of the destructor reads \<open>nextItem + i\<close> where \<open>inner_pop\<close> moves \<open>nextItem\<close>.\<close>

lemma cb_dtor_loop_shift:
  "map_sum id fst (cb_dtor_loop n (i + j) b) = map_sum id fst (cb_dtor_loop n j (b\<lparr>cb_nextItem := cb_nextItem b + i\<rparr>))"
proof (induction n arbitrary: j b)
  case (Suc n)
  have "cb_destroy y (b\<lparr>cb_nextItem := cb_nextItem b + i\<rparr>) = (cb_destroy y b)\<lparr>cb_nextItem := cb_nextItem (cb_destroy y b) + i\<rparr>" for y
    by (simp add: cb_destroy_def)
  then show ?case using Suc [of "j + 1" "cb_destroy (cb_nextItem b + (i + j)) b"]
    by (auto simp: map_sum_def add.assoc split: sum.splits prod.splits)
qed simp

lemma cb_dtor_loop_ok:
  "cb_ring m b \<Longrightarrow> map_sum id fst (cb_dtor_loop (cb_len b) 0 b) = Inr (cb_contents b)"
proof (induction "cb_contents b" arbitrary: b)
  case Nil
  then show ?case using length_cb_contents [of b] by simp
next
  case (Cons x xs)
  let ?b = "cb_destroy (cb_nextItem b) (b\<lparr>cb_nextItem := cb_nextItem b + 1\<rparr>)"
  have d: "cb_ring m ?b" "cb_contents ?b = xs" "cb_len b = Suc (cb_len ?b)" using cb_drop_ok [OF Cons.prems Cons.hyps(2) [symmetric]] by auto
  have e: "cb_element (cb_nextItem b) b = Inr x" by (rule cb_element_front [OF Cons.prems Cons.hyps(2) [symmetric]])
  have eq: "(cb_destroy (cb_nextItem b) b)\<lparr>cb_nextItem := cb_nextItem (cb_destroy (cb_nextItem b) b) + 1\<rparr> = ?b" by (simp add: cb_destroy_def)
  have "map_sum id fst (cb_dtor_loop (cb_len ?b) (1 + 0) (cb_destroy (cb_nextItem b) b)) = Inr xs"
    unfolding cb_dtor_loop_shift eq using Cons.hyps(1) [OF d(2) [symmetric] d(1)] d(2) by simp
  then show ?case using e Cons.hyps(2) unfolding d(3) by (auto simp: map_sum_def split: sum.splits)
qed

lemma cb_dtor_ok:
  assumes i: "cb_inv b" shows "cb_dtor b = Inr (cb_contents b)"
proof (cases "cb_cap b = 0")
  case True
  then have "cb_len b = 0" using i by (simp add: cb_inv_def)
  then show ?thesis using cb_size_ok [OF i] by (simp add: cb_dtor_def cb_size_approx_def cb_contents_def)
next
  case False
  then obtain m where "cb_ring m b" using i by (auto simp: cb_inv_def)
  then show ?thesis using cb_dtor_loop_ok cb_size_ok [OF i] by (simp add: cb_dtor_def cb_size_approx_def)
qed

text \<open>
  C15. The circular buffer in one thread, for every capacity from 1 to \<open>2 ^ 63 - 1\<close> whose allocation does not overflow
  \<open>size_t\<close> and is served (\<open>cb_class_ok\<close>), across the wrap of its 64-bit counters: every sequence of \<open>try_enqueue\<close> and
  \<open>try_dequeue\<close> on a fresh buffer returns normally with exactly the answers of a list bounded by the capacity asked for,
  although the ring itself is larger. Afterwards \<open>wait_enqueue\<close> blocks exactly at that capacity, \<open>wait_dequeue\<close> blocks
  exactly on an empty buffer, both do what the non-blocking forms do where they return, \<open>size_approx\<close> is exact, and the
  destructor destroys each element once, in order.
\<close>
theorem cb_buffer_fifo:
  assumes "cb_class_ok k c" "0 < unat c" "unat c < 2 ^ 63" "cb_ctor k c = Inr b"
    and l: "l = snd (bounded_answers (unat c) ops [])"
  shows "\<exists>b'. run_ops (\<lambda>x b. Some (cb_try_enqueue x b)) (\<lambda>b. Some (cb_try_dequeue b)) ops b =
      Some (Inr (fst (bounded_answers (unat c) ops []), b')) \<and> cb_contents b' = l \<and>
    cb_size_approx b' = length l \<and>
    (\<exists>b''. cb_try_enqueue x b' = Inr (length l < unat c, b'')) \<and>
    cb_wait_enqueue x b' = (if length l < unat c then Some (map_sum id snd (cb_try_enqueue x b')) else None) \<and>
    cb_wait_dequeue b' = (if l = [] then None else Some (map_sum id (\<lambda>(r, b). (the r, b)) (cb_try_dequeue b'))) \<and>
    cb_dtor b' = Inr l"
proof -
  have b: "cb_inv b" "cb_contents b = []" "cb_cap b = unat c"
    using cb_ctor_ok [OF assms(1-3), where 'a = 'a] assms(4) by (auto simp: cb_cap_def)
  from cb.run_bounded [OF b(1), of ops] b(2,3) obtain b' where
    r: "run_ops (\<lambda>x b. Some (cb_try_enqueue x b)) (\<lambda>b. Some (cb_try_dequeue b)) ops b =
      Some (Inr (fst (bounded_answers (unat c) ops []), b'))"
    and f: "cb_inv b'" "cb_cap b' = unat c" "cb_contents b' = l" by (auto simp: l)
  have n: "cb_len b' = length l" using length_cb_contents [of b'] f(3) by simp
  show ?thesis
    using r f n cb_size_ok [OF f(1)] cb_try_enqueue_ok [OF f(1), of x] cb_wait_enqueue_ok [OF f(1), of x] cb_wait_dequeue_ok [OF f(1)]
      cb_dtor_ok [OF f(1)] by auto
qed

text \<open>
  Swapping twice gives the two buffers back; moving hands everything over and leaves a buffer of capacity 0, which
  refuses every element, is empty and may be destroyed.
\<close>
theorem cb_swap_move:
  fixes a b c :: "'a circ_buf"
  assumes "cb_swap a b = (a', b')" "cb_move c = Inr (new, old)"
  shows "cb_swap a' b' = (a, b) \<and> cb_assign a b = (b, a) \<and> new = c \<and> cb_inv old \<and> cb_contents old = [] \<and>
    cb_try_enqueue x old = Inr (False, old) \<and> cb_try_dequeue old = Inr (None, old) \<and> cb_dtor old = Inr []"
proof -
  have swap: "cb_swap p q = (q, p)" for p q :: "'a circ_buf" by (simp add: cb_swap_def)
  have o: "new = c" "old = \<lparr>cb_maxcap = 0, cb_mask = 0, cb_data = None, cb_slots = \<lparr>m_count = 0, m_sema = 0\<rparr>,
      cb_items = \<lparr>m_count = 0, m_sema = 0\<rparr>, cb_nextSlot = 0, cb_nextItem = 0\<rparr>"
    using assms(2) by (auto simp: cb_move_def swap LightweightSemaphore_def)
  then have i: "cb_inv old" "cb_contents old = []" by (simp_all add: cb_inv_def cb_len_def cb_cap_def cb_contents_def)
  then show ?thesis using assms(1) o cb_dtor_ok [OF i(1)]
    by (simp add: swap cb_assign_def cb_try_enqueue_def cb_try_dequeue_def sp_tryWait_def)
qed

text \<open>The result of \<open>malloc\<close> is not checked: the constructor succeeds, and the first element is written through null.\<close>

theorem cb_malloc_unchecked:
  assumes "\<And>bytes. \<not> cbc_malloc k bytes" "0 < unat c" "unat c < 2 ^ 63"
  shows "\<exists>b. cb_ctor k c = Inr b \<and> cb_try_enqueue x b = Inl (UndefinedBehaviour ''nullptr'')"
proof -
  have "sint c = int (unat c)" using assms(3) by (subst sint_unat) simp
  moreover have "0 < int (unat c)" using assms(2) by linarith
  ultimately have "0 < sint c" by simp
  then show ?thesis using assms(1)
    by (simp add: cb_ctor_def LightweightSemaphore_def cb_try_enqueue_def sp_tryWait_def inner_enqueue_def cb_put_def cb_construct_def Let_def)
qed

definition cb_class4 :: cb_class where
  "cb_class4 = \<lparr>cbc_sizeofT = 4, cbc_alignofT = 4, cbc_malloc = (\<lambda>_. True)\<rparr>"

theorem cb_buffer_fifo_witness:
  "\<exists>b b'. cb_ctor cb_class4 2 = Inr b \<and>
     run_ops (\<lambda>x b. Some (cb_try_enqueue x b)) (\<lambda>b. Some (cb_try_dequeue b)) [Pop, Push (1 :: nat), Push 2, Push 3, Pop, Push 4] b =
       Some (Inr ([Popped None, Pushed True, Pushed True, Pushed False, Popped (Some 1), Pushed True], b')) \<and>
     cb_dtor b' = Inr [2, 4] \<and> cb_wait_enqueue 5 b' = None"
proof -
  have k: "cb_class_ok cb_class4 2" by (simp add: cb_class_ok_def cb_class4_def)
  obtain b :: "nat circ_buf" where b: "cb_ctor cb_class4 2 = Inr b" using cb_ctor_ok [OF k] by auto
  have "snd (bounded_answers (unat (2 :: size_t)) [Pop, Push (1 :: nat), Push 2, Push 3, Pop, Push 4] []) = [2, 4]" by simp
  from cb_buffer_fifo [OF k _ _ b this [symmetric], of 5] b show ?thesis by auto
qed

theorem cb_swap_move_witness:
  "\<exists>b new old. cb_ctor cb_class4 2 = Inr b \<and> cb_move b = Inr (new, old) \<and> cb_try_enqueue (1 :: nat) old = Inr (False, old)"
proof -
  obtain b :: "nat circ_buf" where b: "cb_ctor cb_class4 2 = Inr b" by (simp add: cb_ctor_def LightweightSemaphore_def Let_def)
  obtain new old where m: "cb_move b = Inr (new, old)" by (simp add: cb_move_def LightweightSemaphore_def cb_swap_def)
  obtain p q where "cb_swap b b = (p, q)" by (simp add: cb_swap_def)
  from cb_swap_move [OF this m, of 1] b m show ?thesis by auto
qed

theorem cb_malloc_unchecked_witness:
  "\<exists>b. cb_ctor (cb_class4\<lparr>cbc_malloc := \<lambda>_. False\<rparr>) 2 = Inr b \<and> cb_try_enqueue (7 :: nat) b = Inl (UndefinedBehaviour ''nullptr'')"
  using cb_malloc_unchecked [of "cb_class4\<lparr>cbc_malloc := \<lambda>_. False\<rparr>" 2 7] by simp

section \<open>Producer and consumer side by side\<close>

text \<open>
  One step is one operation on a semaphore or one access to the ring. That a semaphore hands out no more units than it
  was given, whatever the interleaving inside its operations, is shown in \<open>Sema_Concurrent\<close>; a failed attempt to take
  a unit changes nothing here and is no step.
\<close>

datatype cb_ppc = PReady | PSlot | PBuilt
datatype cb_cpc = CReady | CItem | CTaken

record 'a cb_sys =
  cbs_buf :: "'a circ_buf"
  cbs_p :: cb_ppc
  cbs_c :: cb_cpc
  cbs_in :: "'a list"
  cbs_out :: "'a list"
  cbs_failed :: bool

inductive cb_pstep :: "'a cb_sys \<Rightarrow> 'a cb_sys \<Rightarrow> bool" where
  p_wait: "cbs_p s = PReady \<Longrightarrow> sp_tryWait (cb_slots (cbs_buf s)) = (True, w) \<Longrightarrow>
    cb_pstep s (s\<lparr>cbs_buf := (cbs_buf s)\<lparr>cb_slots := w\<rparr>, cbs_p := PSlot\<rparr>)"
| p_put: "cbs_p s = PSlot \<Longrightarrow> cb_put x (cbs_buf s) = Inr b \<Longrightarrow>
    cb_pstep s (s\<lparr>cbs_buf := b, cbs_p := PBuilt, cbs_in := cbs_in s @ [x]\<rparr>)"
| p_put_fail: "cbs_p s = PSlot \<Longrightarrow> cb_put x (cbs_buf s) = Inl e \<Longrightarrow> cb_pstep s (s\<lparr>cbs_failed := True\<rparr>)"
| p_signal: "cbs_p s = PBuilt \<Longrightarrow> cb_signal_items (cbs_buf s) = Inr b \<Longrightarrow> cb_pstep s (s\<lparr>cbs_buf := b, cbs_p := PReady\<rparr>)"
| p_signal_fail: "cbs_p s = PBuilt \<Longrightarrow> cb_signal_items (cbs_buf s) = Inl e \<Longrightarrow> cb_pstep s (s\<lparr>cbs_failed := True\<rparr>)"

inductive cb_cstep :: "'a cb_sys \<Rightarrow> 'a cb_sys \<Rightarrow> bool" where
  c_wait: "cbs_c s = CReady \<Longrightarrow> sp_tryWait (cb_items (cbs_buf s)) = (True, w) \<Longrightarrow>
    cb_cstep s (s\<lparr>cbs_buf := (cbs_buf s)\<lparr>cb_items := w\<rparr>, cbs_c := CItem\<rparr>)"
| c_get: "cbs_c s = CItem \<Longrightarrow> cb_get (cbs_buf s) = Inr (x, b) \<Longrightarrow>
    cb_cstep s (s\<lparr>cbs_buf := b, cbs_c := CTaken, cbs_out := cbs_out s @ [x]\<rparr>)"
| c_get_fail: "cbs_c s = CItem \<Longrightarrow> cb_get (cbs_buf s) = Inl e \<Longrightarrow> cb_cstep s (s\<lparr>cbs_failed := True\<rparr>)"
| c_signal: "cbs_c s = CTaken \<Longrightarrow> cb_signal_slots (cbs_buf s) = Inr b \<Longrightarrow> cb_cstep s (s\<lparr>cbs_buf := b, cbs_c := CReady\<rparr>)"
| c_signal_fail: "cbs_c s = CTaken \<Longrightarrow> cb_signal_slots (cbs_buf s) = Inl e \<Longrightarrow> cb_cstep s (s\<lparr>cbs_failed := True\<rparr>)"

inductive cb_step :: "'a cb_sys \<Rightarrow> 'a cb_sys \<Rightarrow> bool" where
  cb_producer: "cb_pstep s s' \<Longrightarrow> cb_step s s'"
| cb_consumer: "cb_cstep s s' \<Longrightarrow> cb_step s s'"

definition cb_init :: "cb_class \<Rightarrow> size_t \<Rightarrow> 'a cb_sys \<Rightarrow> bool" where
  "cb_init k c s \<longleftrightarrow> cb_class_ok k c \<and> 0 < unat c \<and> unat c < 2 ^ 63 \<and> cb_ctor k c = Inr (cbs_buf s) \<and>
     cbs_p s = PReady \<and> cbs_c s = CReady \<and> cbs_in s = [] \<and> cbs_out s = [] \<and> \<not> cbs_failed s"

text \<open>A unit that neither semaphore holds is with one of the two threads.\<close>

definition cb_sys_inv :: "size_t \<Rightarrow> 'a cb_sys \<Rightarrow> bool" where
  "cb_sys_inv c s \<longleftrightarrow> (let b = cbs_buf s in
     \<not> cbs_failed s \<and> cbs_in s = cbs_out s @ cb_contents b \<and> cb_cap b = unat c \<and> (\<exists>m. cb_ring m b \<and> unat c \<le> 2 ^ m) \<and>
     m_sema (cb_items b) = 0 \<and> m_sema (cb_slots b) = 0 \<and> 0 \<le> m_count (cb_items b) \<and> 0 \<le> m_count (cb_slots b) \<and>
     int (cb_len b) = m_count (cb_items b) + (if cbs_p s = PBuilt then 1 else 0) + (if cbs_c s = CItem then 1 else 0) \<and>
     int (cb_cap b) = int (cb_len b) + m_count (cb_slots b) + (if cbs_p s = PSlot then 1 else 0) + (if cbs_c s = CTaken then 1 else 0))"

lemma cb_put_maxcap: "cb_put x b = Inr b' \<Longrightarrow> cb_maxcap b' = cb_maxcap b \<and> cb_slots b' = cb_slots b \<and> cb_items b' = cb_items b"
  by (auto simp: cb_put_def cb_construct_def Let_def split: option.splits if_splits)

lemma cb_get_maxcap: "cb_get b = Inr (x, b') \<Longrightarrow> cb_maxcap b' = cb_maxcap b \<and> cb_slots b' = cb_slots b \<and> cb_items b' = cb_items b"
  by (auto simp: cb_get_def cb_destroy_def Let_def split: sum.splits)

lemma cb_sys_lens:
  assumes "cb_sys_inv c s"
  shows "cb_len (cbs_buf s) \<le> unat c" "cbs_p s = PSlot \<Longrightarrow> cb_len (cbs_buf s) < unat c" "cbs_c s = CItem \<Longrightarrow> 0 < cb_len (cbs_buf s)"
proof -
  have *: "0 \<le> m_count (cb_items (cbs_buf s))" "0 \<le> m_count (cb_slots (cbs_buf s))" "cb_cap (cbs_buf s) = unat c"
    "int (cb_len (cbs_buf s)) = m_count (cb_items (cbs_buf s)) + (if cbs_p s = PBuilt then 1 else 0) + (if cbs_c s = CItem then 1 else 0)"
    "int (cb_cap (cbs_buf s)) = int (cb_len (cbs_buf s)) + m_count (cb_slots (cbs_buf s)) + (if cbs_p s = PSlot then 1 else 0) + (if cbs_c s = CTaken then 1 else 0)"
    using assms by (auto simp: cb_sys_inv_def Let_def)
  show "cb_len (cbs_buf s) \<le> unat c" unfolding *(3) [symmetric] using *(1,2,4,5) by (auto split: if_splits)
  show "cb_len (cbs_buf s) < unat c" if "cbs_p s = PSlot" unfolding *(3) [symmetric] using *(1,2,4,5) that by (auto split: if_splits)
  show "0 < cb_len (cbs_buf s)" if "cbs_c s = CItem" using *(1,4) that by (auto split: if_splits)
qed

lemma cb_put_safe:
  assumes "cb_sys_inv c s" "cbs_p s = PSlot"
  shows "\<exists>b. cb_put x (cbs_buf s) = Inr b \<and> cb_sys_inv c (s\<lparr>cbs_buf := b, cbs_p := PBuilt, cbs_in := cbs_in s @ [x]\<rparr>)"
proof -
  obtain m where m: "cb_ring m (cbs_buf s)" "unat c \<le> 2 ^ m" using assms by (auto simp: cb_sys_inv_def Let_def)
  have "cb_len (cbs_buf s) < 2 ^ m" using cb_sys_lens(2) [OF assms] m(2) by simp
  from cb_put_ok [OF m(1) this, of x] obtain b where b: "cb_put x (cbs_buf s) = Inr b" "cb_ring m b"
    "cb_contents b = cb_contents (cbs_buf s) @ [x]" "cb_len b = Suc (cb_len (cbs_buf s))" by auto
  then show ?thesis using assms m cb_put_maxcap [OF b(1)] cb_cap_eq [of b "cbs_buf s"] by (auto simp: cb_sys_inv_def Let_def)
qed

lemma cb_get_safe:
  assumes "cb_sys_inv c s" "cbs_c s = CItem"
  shows "\<exists>x b. cb_get (cbs_buf s) = Inr (x, b) \<and> cb_sys_inv c (s\<lparr>cbs_buf := b, cbs_c := CTaken, cbs_out := cbs_out s @ [x]\<rparr>)"
proof -
  obtain m where m: "cb_ring m (cbs_buf s)" "unat c \<le> 2 ^ m" using assms by (auto simp: cb_sys_inv_def Let_def)
  have "0 < cb_len (cbs_buf s)" by (rule cb_sys_lens(3) [OF assms])
  then obtain x xs where xs: "cb_contents (cbs_buf s) = x # xs" using length_cb_contents [of "cbs_buf s"] by (cases "cb_contents (cbs_buf s)") auto
  from cb_get_ok [OF m(1) xs] obtain b where b: "cb_get (cbs_buf s) = Inr (x, b)" "cb_ring m b"
    "cb_contents b = xs" "Suc (cb_len b) = cb_len (cbs_buf s)" by auto
  then have "int (cb_len (cbs_buf s)) = int (cb_len b) + 1" by simp
  then show ?thesis using assms m xs b cb_get_maxcap [OF b(1)] cb_cap_eq [of b "cbs_buf s"] by (auto simp: cb_sys_inv_def Let_def)
qed

lemma cb_signals_safe:
  assumes "cb_sys_inv c s"
  shows "cbs_p s = PBuilt \<Longrightarrow> \<exists>b. cb_signal_items (cbs_buf s) = Inr b \<and> cb_sys_inv c (s\<lparr>cbs_buf := b, cbs_p := PReady\<rparr>)"
    and "cbs_c s = CTaken \<Longrightarrow> \<exists>b. cb_signal_slots (cbs_buf s) = Inr b \<and> cb_sys_inv c (s\<lparr>cbs_buf := b, cbs_c := CReady\<rparr>)"
  using assms by (auto simp: cb_sys_inv_def Let_def cb_signal_items_def cb_signal_slots_def sp_signal_quiet)

lemma cb_waits_safe:
  assumes i: "cb_sys_inv c s"
  shows "cbs_p s = PReady \<Longrightarrow> sp_tryWait (cb_slots (cbs_buf s)) = (True, w) \<Longrightarrow>
      cb_sys_inv c (s\<lparr>cbs_buf := (cbs_buf s)\<lparr>cb_slots := w\<rparr>, cbs_p := PSlot\<rparr>)"
    and "cbs_c s = CReady \<Longrightarrow> sp_tryWait (cb_items (cbs_buf s)) = (True, w) \<Longrightarrow>
      cb_sys_inv c (s\<lparr>cbs_buf := (cbs_buf s)\<lparr>cb_items := w\<rparr>, cbs_c := CItem\<rparr>)"
  using i by (auto simp: sp_tryWait_def cb_sys_inv_def Let_def split: if_splits)

interpretation cb_sys: inductive_invariant "cb_init k c" cb_step "cb_sys_inv c" for k :: cb_class and c :: size_t
proof
  fix s :: "'a cb_sys" assume i: "cb_init k c s"
  then have "cb_inv (cbs_buf s)" "cb_contents (cbs_buf s) = []" "cb_maxcap (cbs_buf s) = c"
    using cb_ctor_ok [of k c, where 'a = 'a] by (auto simp: cb_init_def)
  moreover from this have "cb_cap (cbs_buf s) = unat c" "cb_len (cbs_buf s) = 0"
    using length_cb_contents [of "cbs_buf s"] by (simp_all add: cb_cap_def)
  ultimately show "cb_sys_inv c s" using i by (auto simp: cb_sys_inv_def cb_init_def cb_inv_def Let_def)
next
  fix s t :: "'a cb_sys" assume i: "cb_sys_inv c s" and st: "cb_step s t"
  from st show "cb_sys_inv c t"
  proof cases
    case cb_producer
    then show ?thesis
    proof cases
      case (p_wait w)
      with cb_waits_safe(1) [OF i] show ?thesis by simp
    next
      case (p_put x b)
      with cb_put_safe [OF i, of x] show ?thesis by auto
    next
      case (p_put_fail x e)
      with cb_put_safe [OF i, of x] show ?thesis by auto
    qed (use cb_signals_safe(1) [OF i] in auto)
  next
    case cb_consumer
    then show ?thesis
    proof cases
      case (c_wait w)
      with cb_waits_safe(2) [OF i] show ?thesis by simp
    next
      case (c_get x b)
      with cb_get_safe [OF i] show ?thesis by auto
    next
      case (c_get_fail e)
      with cb_get_safe [OF i] show ?thesis by auto
    qed (use cb_signals_safe(2) [OF i] in auto)
  qed
qed

text \<open>
  C14. The circular buffer with its producer beside its consumer, in every interleaving: no access through null, out of the
  ring, to a dead slot or over a live one; what was taken followed by what is in the ring is what was put, in order;
  the ring never holds more than the capacity; and when both threads are inside, they are at different slots.
\<close>
theorem cb_concurrent_safe:
  assumes "reach (cb_init k c) cb_step s"
  shows "\<not> cbs_failed s \<and> cbs_in s = cbs_out s @ cb_contents (cbs_buf s) \<and> length (cb_contents (cbs_buf s)) \<le> unat c \<and>
    (cbs_p s = PSlot \<longrightarrow> the (cb_data (cbs_buf s)) ! unat (cb_nextSlot (cbs_buf s) AND cb_mask (cbs_buf s)) = None \<and>
      (\<exists>b. cb_put x (cbs_buf s) = Inr b)) \<and>
    (cbs_c s = CItem \<longrightarrow> (\<exists>y b. cb_get (cbs_buf s) = Inr (y, b))) \<and>
    (cbs_p s = PSlot \<and> cbs_c s = CItem \<longrightarrow>
      cb_nextSlot (cbs_buf s) AND cb_mask (cbs_buf s) \<noteq> cb_nextItem (cbs_buf s) AND cb_mask (cbs_buf s))"
proof -
  let ?b = "cbs_buf s"
  have i: "cb_sys_inv c s" by (rule cb_sys.inv_reach [OF assms])
  then obtain m where m: "cb_ring m ?b" "unat c \<le> 2 ^ m" by (auto simp: cb_sys_inv_def Let_def)
  have len: "cb_len ?b \<le> unat c" "cbs_p s = PSlot \<Longrightarrow> cb_len ?b < 2 ^ m" "cbs_c s = CItem \<Longrightarrow> 0 < cb_len ?b"
    using cb_sys_lens [OF i] m(2) by auto
  have dead: "the (cb_data ?b) ! unat (cb_nextSlot ?b AND cb_mask ?b) = None" if "cbs_p s = PSlot"
    unfolding cb_slot_idx using m(1) len(2) [OF that] by (auto simp: cb_ring_def cb_at_def)
  have "unat (cb_nextSlot ?b AND cb_mask ?b) \<noteq> unat (cb_nextItem ?b AND cb_mask ?b)" if "cbs_p s = PSlot" "cbs_c s = CItem"
    using cb_idx_inj [OF m(1) len(2) [OF that(1)], of 0] len(3) [OF that(2)] by (simp add: cb_slot_idx) (simp add: cb_idx_def)
  then show ?thesis using i len(1) dead cb_put_safe [OF i, of x] cb_get_safe [OF i] by (auto simp: cb_sys_inv_def Let_def)
qed

theorem cb_concurrent_safe_witness:
  "\<exists>w :: nat cb_sys. reach (cb_init cb_class4 2) cb_step w \<and> cbs_p w = PSlot \<and> \<not> cbs_failed w \<and>
     (\<exists>v. cb_put 5 (cbs_buf w) = Inr v)"
proof -
  have k: "cb_class_ok cb_class4 2" by (simp add: cb_class_ok_def cb_class4_def)
  obtain b :: "nat circ_buf" where b: "cb_ctor cb_class4 2 = Inr b" "m_count (cb_slots b) = 2"
    by (simp add: cb_ctor_def LightweightSemaphore_def Let_def)
  let ?s = "\<lparr>cbs_buf = b, cbs_p = PReady, cbs_c = CReady, cbs_in = [], cbs_out = [], cbs_failed = False\<rparr>"
  let ?w = "?s\<lparr>cbs_buf := (cbs_buf ?s)\<lparr>cb_slots := (cb_slots b)\<lparr>m_count := 1\<rparr>\<rparr>, cbs_p := PSlot\<rparr>"
  have "reach (cb_init cb_class4 2) cb_step ?s" using k b by (intro reach_init) (simp add: cb_init_def)
  moreover have "cb_step ?s ?w" using b by (intro cb_producer p_wait) (simp_all add: sp_tryWait_def)
  ultimately have r: "reach (cb_init cb_class4 2) cb_step ?w" by (rule reach_step)
  have "\<not> cbs_failed ?w" "\<exists>v. cb_put 5 (cbs_buf ?w) = Inr v" using cb_concurrent_safe [OF r, of 5] by auto
  then show ?thesis using r by (intro exI [of _ ?w]) simp
qed

end
