(* ===== verification/CQ_Claim.thy ===== *)
theory CQ_Claim
  imports Index_Bits
begin

text \<open>
  How the consumers of a producer's sub-queue in \<^verbatim>\<open>concurrentqueue/concurrentqueue.h\<close> divide its elements
  among themselves (\<open>dequeue\<close> and \<open>dequeue_bulk\<close> of \<open>ExplicitProducer\<close> and \<open>ImplicitProducer\<close> up to the
  increment of \<open>headIndex\<close>): a consumer first adds what it wants to \<open>dequeueOptimisticCount\<close>, then compares the value it
  got, less \<open>dequeueOvercommit\<close>, with \<open>tailIndex\<close>, gives back what is too much by adding it to \<open>dequeueOvercommit\<close>, and
  only then takes indices from \<open>headIndex\<close>. Any number of consumers run beside the producer, one access at a time.
\<close>

section \<open>The protocol\<close>

datatype claim_pc =
    CkIdle
  | CkOver size_t nat           \<comment> \<open>the maximum, the tail that was loaded\<close>
  | CkOpt size_t nat nat        \<comment> \<open>and the overcommit that was loaded\<close>
  | CkAdd nat nat               \<comment> \<open>the desired count, the overcommit\<close>
  | CkTail nat nat nat          \<comment> \<open>the desired count, \<open>myDequeueCount\<close>, the overcommit\<close>
  | CkRefund nat nat nat        \<comment> \<open>the desired count, the actual count, \<open>myDequeueCount\<close>\<close>
  | CkFail nat nat
  | CkHead nat                  \<comment> \<open>the actual count\<close>
  | CkWork nat nat              \<comment> \<open>the first index, the actual count\<close>

text \<open>
  The counters as they would be without wrapping; the code sees them modulo \<open>2 ^ 64\<close>. For the proof every
  unit of \<open>dequeueOptimisticCount\<close> is a slot, which a consumer holds until it has won or lost it, and \<open>cl_seen\<close>
  remembers the optimistic count and the tail from when a consumer loaded the overcommit.
\<close>

datatype claim_slot = Won | Lost | Held nat

record claim_sys =
  cl_tail :: nat
  cl_head :: nat
  cl_opt :: nat
  cl_over :: nat
  cl_pc :: "nat \<Rightarrow> claim_pc"
  cl_slot :: "nat \<Rightarrow> claim_slot"
  cl_seen :: "nat \<Rightarrow> nat \<times> nat"

text \<open>\<open>tail - (count - overcommit)\<close> in \<open>index_t\<close>: how many elements are there for this count.\<close>

definition claim_diff :: "nat \<Rightarrow> nat \<Rightarrow> nat \<Rightarrow> index_t" where
  "claim_diff tail count overcommit = of_nat tail - (of_nat count - of_nat overcommit)"

definition set_slots :: "nat \<Rightarrow> nat \<Rightarrow> claim_slot \<Rightarrow> (nat \<Rightarrow> claim_slot) \<Rightarrow> nat \<Rightarrow> claim_slot" where
  "set_slots lo hi v f = (\<lambda>i. if lo \<le> i \<and> i < hi then v else f i)"

inductive claim_step :: "nat \<Rightarrow> claim_sys \<Rightarrow> claim_sys \<Rightarrow> bool" for N :: nat where
  k_enqueue: "claim_step N s (s\<lparr>cl_tail := cl_tail s + n\<rparr>)"
| k_call: "t < N \<Longrightarrow> cl_pc s t = CkIdle \<Longrightarrow> 0 < unat m \<Longrightarrow>
    claim_step N s (s\<lparr>cl_pc := (cl_pc s)(t := CkOver m (cl_tail s))\<rparr>)"
| k_over: "t < N \<Longrightarrow> cl_pc s t = CkOver m tail \<Longrightarrow>
    claim_step N s (s\<lparr>cl_pc := (cl_pc s)(t := CkOpt m tail (cl_over s)), cl_seen := (cl_seen s)(t := (cl_opt s, cl_tail s))\<rparr>)"
| k_opt: "t < N \<Longrightarrow> cl_pc s t = CkOpt m tail overcommit \<Longrightarrow>
    claim_step N s (s\<lparr>cl_pc := (cl_pc s)(t :=
      let desiredCount = claim_diff tail (cl_opt s) overcommit
      in if circular_less_than 0 desiredCount then CkAdd (unat (if desiredCount < m then desiredCount else m)) overcommit else CkIdle)\<rparr>)"
| k_add: "t < N \<Longrightarrow> cl_pc s t = CkAdd d overcommit \<Longrightarrow>
    claim_step N s (s\<lparr>cl_opt := cl_opt s + d, cl_pc := (cl_pc s)(t := CkTail d (cl_opt s) overcommit),
      cl_slot := set_slots (cl_opt s) (cl_opt s + d) (Held t) (cl_slot s)\<rparr>)"
| k_tail: "t < N \<Longrightarrow> cl_pc s t = CkTail d my overcommit \<Longrightarrow>
    actualCount = claim_diff (cl_tail s) my overcommit \<Longrightarrow> circular_less_than 0 actualCount \<Longrightarrow>
    a = (if of_nat d < actualCount then d else unat actualCount) \<Longrightarrow>
    claim_step N s (s\<lparr>cl_pc := (cl_pc s)(t := if a < d then CkRefund d a my else CkHead a),
      cl_slot := set_slots my (my + a) Won (cl_slot s)\<rparr>)"
| k_tail_none: "t < N \<Longrightarrow> cl_pc s t = CkTail d my overcommit \<Longrightarrow>
    \<not> circular_less_than 0 (claim_diff (cl_tail s) my overcommit) \<Longrightarrow>
    claim_step N s (s\<lparr>cl_pc := (cl_pc s)(t := CkFail d my)\<rparr>)"
| k_refund: "t < N \<Longrightarrow> cl_pc s t = CkRefund d a my \<Longrightarrow>
    claim_step N s (s\<lparr>cl_over := cl_over s + (d - a), cl_pc := (cl_pc s)(t := CkHead a),
      cl_slot := set_slots (my + a) (my + d) Lost (cl_slot s)\<rparr>)"
| k_fail: "t < N \<Longrightarrow> cl_pc s t = CkFail d my \<Longrightarrow>
    claim_step N s (s\<lparr>cl_over := cl_over s + d, cl_pc := (cl_pc s)(t := CkIdle),
      cl_slot := set_slots my (my + d) Lost (cl_slot s)\<rparr>)"
| k_head: "t < N \<Longrightarrow> cl_pc s t = CkHead a \<Longrightarrow>
    claim_step N s (s\<lparr>cl_head := cl_head s + a, cl_pc := (cl_pc s)(t := CkWork (cl_head s) a)\<rparr>)"
| k_done: "t < N \<Longrightarrow> cl_pc s t = CkWork index a \<Longrightarrow> claim_step N s (s\<lparr>cl_pc := (cl_pc s)(t := CkIdle)\<rparr>)"

text \<open>
  The single \<open>dequeue\<close> tests \<open>circular_less_than(count - overcommit, tail)\<close> where the bulk form tests that the difference
  is positive; the two tests are the same, so \<open>dequeue\<close> is \<open>dequeue_bulk\<close> with a maximum of 1.
\<close>

lemma claim_test_single:
  "circular_less_than (of_nat count - of_nat overcommit :: index_t) (of_nat tail) \<longleftrightarrow> circular_less_than 0 (claim_diff tail count overcommit)"
  by (simp add: circular_less_than_def claim_diff_def)

text \<open>
  Counters that wrap compare correctly only while they are less than half of the range apart. \<open>claim_timely\<close> says that
  they are: the queue holds fewer than \<open>2 ^ 62\<close> elements, fewer than \<open>2 ^ 62\<close> units are asked for in vain at one time,
  and no consumer sleeps inside a call while the counters move by \<open>2 ^ 62\<close>.
\<close>

definition claim_inside :: "claim_pc \<Rightarrow> bool" where
  "claim_inside p \<longleftrightarrow> (case p of CkOpt m tail v \<Rightarrow> True | CkAdd d v \<Rightarrow> True | CkTail d my v \<Rightarrow> True | _ \<Rightarrow> False)"

definition claim_timely :: "nat \<Rightarrow> claim_sys \<Rightarrow> bool" where
  "claim_timely N s \<longleftrightarrow> cl_tail s < cl_head s + 2 ^ 62 \<and> cl_opt s < cl_over s + cl_tail s + 2 ^ 62 \<and>
     (\<forall>t < N. claim_inside (cl_pc s t) \<longrightarrow> cl_opt s < fst (cl_seen s t) + 2 ^ 62 \<and> cl_tail s < snd (cl_seen s t) + 2 ^ 62)"

definition claim_run :: "nat \<Rightarrow> claim_sys \<Rightarrow> claim_sys \<Rightarrow> bool" where
  "claim_run N s s' \<longleftrightarrow> claim_step N s s' \<and> claim_timely N s'"

definition claim_init :: "claim_sys \<Rightarrow> bool" where
  "claim_init s \<longleftrightarrow> cl_tail s = 0 \<and> cl_head s = 0 \<and> cl_opt s = 0 \<and> cl_over s = 0 \<and> cl_pc s = (\<lambda>_. CkIdle)"

section \<open>The invariant\<close>

fun claim_held :: "claim_pc \<Rightarrow> nat set" where
  "claim_held (CkTail d my v) = {my..<my + d}"
| "claim_held (CkRefund d a my) = {my + a..<my + d}"
| "claim_held (CkFail d my) = {my..<my + d}"
| "claim_held _ = {}"

fun claim_owed :: "claim_pc \<Rightarrow> nat" where
  "claim_owed (CkRefund d a my) = a"
| "claim_owed (CkHead a) = a"
| "claim_owed _ = 0"

definition slots_of :: "claim_sys \<Rightarrow> claim_slot \<Rightarrow> nat set" where
  "slots_of s v = {m. m < cl_opt s \<and> cl_slot s m = v}"

definition lost_below :: "claim_sys \<Rightarrow> nat \<Rightarrow> nat" where
  "lost_below s m = card (slots_of s Lost \<inter> {..<m})"

text \<open>Every slot is held, won or lost, and the counters count them.\<close>

definition claim_count :: "nat \<Rightarrow> claim_sys \<Rightarrow> bool" where
  "claim_count N s \<longleftrightarrow> (\<forall>t < N. slots_of s (Held t) = claim_held (cl_pc s t)) \<and> (\<forall>m < cl_opt s. \<forall>t. cl_slot s m = Held t \<longrightarrow> t < N) \<and>
     card (slots_of s Lost) = cl_over s \<and> card (slots_of s Won) = cl_head s + (\<Sum>t < N. claim_owed (cl_pc s t))"

text \<open>What a consumer has loaded is still a lower bound of what was lost before its own slots.\<close>

fun claim_loaded :: "claim_sys \<Rightarrow> nat \<times> nat \<Rightarrow> claim_pc \<Rightarrow> bool" where
  "claim_loaded s (so, st) (CkOpt m tail v) \<longleftrightarrow> 0 < unat m \<and> v \<le> cl_over s \<and> st \<le> cl_tail s \<and>
     st + v < cl_opt s + 2 ^ 62 \<and> so < v + st + 2 ^ 62 \<and> so \<le> cl_opt s"
| "claim_loaded s (so, st) (CkAdd d v) \<longleftrightarrow> 0 < d \<and> v \<le> cl_over s \<and> st \<le> cl_tail s \<and> st + v < cl_opt s + 2 ^ 62 \<and> so < v + st + 2 ^ 62 \<and>
     so \<le> cl_opt s"
| "claim_loaded s (so, st) (CkTail d my v) \<longleftrightarrow> 0 < d \<and> v \<le> lost_below s my \<and> st \<le> cl_tail s \<and> st + v < my + 2 ^ 62 \<and> so < v + st + 2 ^ 62 \<and>
     so \<le> my"
| "claim_loaded s _ (CkOver m tail) \<longleftrightarrow> 0 < unat m"
| "claim_loaded s _ (CkRefund d a my) \<longleftrightarrow> 0 < a \<and> a < d"
| "claim_loaded s _ (CkHead a) \<longleftrightarrow> 0 < a"
| "claim_loaded s _ _ \<longleftrightarrow> True"

text \<open>A slot that was won lies below the tail, the lost ones before it not counted.\<close>

definition claim_won :: "claim_sys \<Rightarrow> bool" where
  "claim_won s \<longleftrightarrow> (\<forall>m \<in> slots_of s Won. m < cl_tail s + lost_below s m)"

definition claim_work :: "nat \<Rightarrow> claim_sys \<Rightarrow> bool" where
  "claim_work N s \<longleftrightarrow> (\<forall>t < N. \<forall>i a. cl_pc s t = CkWork i a \<longrightarrow> i + a \<le> cl_head s \<and> 0 < a \<and>
     (\<forall>u < N. \<forall>j b. u \<noteq> t \<longrightarrow> cl_pc s u = CkWork j b \<longrightarrow> i + a \<le> j \<or> j + b \<le> i))"

definition claim_inv :: "nat \<Rightarrow> claim_sys \<Rightarrow> bool" where
  "claim_inv N s \<longleftrightarrow> claim_timely N s \<and> claim_count N s \<and> (\<forall>t < N. claim_loaded s (cl_seen s t) (cl_pc s t)) \<and> claim_won s \<and> claim_work N s"

lemma finite_slots_of [simp]: "finite (slots_of s v)"
  by (simp add: slots_of_def)

text \<open>No more slots are won than there are elements.\<close>

lemma won_le_tail:
  assumes "claim_won s" shows "card (slots_of s Won) \<le> cl_tail s"
proof (cases "slots_of s Won = {}")
  case False
  define m where "m = Max (slots_of s Won)"
  have m: "m \<in> slots_of s Won" "\<And>i. i \<in> slots_of s Won \<Longrightarrow> i \<le> m" using False by (simp_all add: m_def)
  have "slots_of s Won \<union> (slots_of s Lost \<inter> {..<m}) \<subseteq> {..m}" using m(2) by auto
  then have "card (slots_of s Won \<union> (slots_of s Lost \<inter> {..<m})) \<le> Suc m" by (metis card_atMost card_mono finite_atMost)
  moreover have "slots_of s Won \<inter> (slots_of s Lost \<inter> {..<m}) = {}" by (auto simp: slots_of_def)
  ultimately have "card (slots_of s Won) + lost_below s m \<le> Suc m" by (simp add: card_Un_disjoint lost_below_def)
  moreover have "m < cl_tail s + lost_below s m" using assms m(1) by (auto simp: claim_won_def)
  ultimately show ?thesis by linarith
qed simp

text \<open>The difference in \<open>index_t\<close> against the true one.\<close>

lemma claim_diff_int: "claim_diff tail count v = word_of_int (int tail + int v - int count)"
  by (simp add: claim_diff_def algebra_simps)

lemma claim_diff_value:
  assumes "tail + v < count + 2 ^ 63" "count < tail + v + 2 ^ 63"
  shows "circular_less_than 0 (claim_diff tail count v) \<longleftrightarrow> count < tail + v"
    and "count < tail + v \<Longrightarrow> unat (claim_diff tail count v) = tail + v - count"
proof -
  let ?x = "int tail + int v - int count"
  have "int (tail + v) < int (count + 2 ^ 63)" "int count < int (tail + v + 2 ^ 63)" using assms by (simp_all only: of_nat_less_iff)
  then have b1: "?x < 2 ^ 63" and b2: "- ?x < 2 ^ 63" by simp_all
  note b = b1 b2
  have neg: "0 - claim_diff tail count v = word_of_int (- ?x)" by (simp add: claim_diff_int)
  have half: "push_bit (LENGTH(64) - 1) (1 :: index_t) = word_of_int (2 ^ 63)" by (simp add: push_bit_eq_mult)
  have u: "uint (word_of_int y :: index_t) = y mod 2 ^ 64" for y by (simp add: uint_word_of_int)
  have "(- ?x) mod 2 ^ 64 = (if ?x > 0 then 2 ^ 64 - ?x else - ?x)"
  proof (cases "?x > 0")
    case True
    have "(- ?x) mod 2 ^ 64 = (- ?x + 2 ^ 64) mod 2 ^ 64" by (rule mod_add_self2 [symmetric])
    also have "\<dots> = - ?x + 2 ^ 64" using True b by (intro mod_pos_pos_trivial) auto
    finally show ?thesis using True by simp
  qed (use b in \<open>auto intro: mod_pos_pos_trivial\<close>)
  then show c: "circular_less_than 0 (claim_diff tail count v) \<longleftrightarrow> count < tail + v"
    unfolding circular_less_than_def neg half word_less_def u using b by auto
  show "unat (claim_diff tail count v) = tail + v - count" if "count < tail + v"
  proof -
    have "?x mod 2 ^ 64 = ?x" using b that by (intro mod_pos_pos_trivial) auto
    then have "uint (claim_diff tail count v) = ?x" unfolding claim_diff_int u .
    then show ?thesis using that by (simp add: unat_eq_nat_uint)
  qed
qed

section \<open>Preservation\<close>

lemma slots_of_frame [simp]:
  "slots_of (s\<lparr>cl_pc := p\<rparr>) v = slots_of s v" "slots_of (s\<lparr>cl_tail := i\<rparr>) v = slots_of s v" "slots_of (s\<lparr>cl_head := i\<rparr>) v = slots_of s v"
  "slots_of (s\<lparr>cl_over := i\<rparr>) v = slots_of s v" "slots_of (s\<lparr>cl_seen := q\<rparr>) v = slots_of s v"
  by (simp_all add: slots_of_def)

lemma lost_below_frame [simp]:
  "lost_below (s\<lparr>cl_pc := p\<rparr>) m = lost_below s m" "lost_below (s\<lparr>cl_tail := i\<rparr>) m = lost_below s m" "lost_below (s\<lparr>cl_head := i\<rparr>) m = lost_below s m"
  "lost_below (s\<lparr>cl_over := i\<rparr>) m = lost_below s m" "lost_below (s\<lparr>cl_seen := q\<rparr>) m = lost_below s m"
  by (simp_all add: lost_below_def)

text \<open>A thread decides over slots it holds.\<close>

lemma slots_of_set:
  assumes "{lo..<hi} \<subseteq> slots_of s (Held t)" "v \<noteq> Held t"
  shows "slots_of (s\<lparr>cl_slot := set_slots lo hi v (cl_slot s)\<rparr>) w =
    (if w = v then slots_of s w \<union> {lo..<hi} else if w = Held t then slots_of s w - {lo..<hi} else slots_of s w)"
  using assms by (auto simp: slots_of_def set_slots_def)

lemma card_won_set:
  assumes "{lo..<hi} \<subseteq> slots_of s (Held t)" "v \<noteq> Held t" shows "card (slots_of s v \<union> {lo..<hi}) = card (slots_of s v) + (hi - lo)"
proof -
  have "slots_of s v \<inter> {lo..<hi} = {}" using assms by (auto simp: slots_of_def)
  then show ?thesis by (simp add: card_Un_disjoint)
qed

lemma lost_below_mono: "slots_of s Lost \<subseteq> slots_of s' Lost \<Longrightarrow> lost_below s m \<le> lost_below s' m"
  unfolding lost_below_def by (intro card_mono) auto

lemma lost_below_le: "m \<le> n \<Longrightarrow> lost_below s m \<le> lost_below s n"
  unfolding lost_below_def by (intro card_mono) auto

lemma lost_below_all: "cl_opt s \<le> m \<Longrightarrow> lost_below s m = card (slots_of s Lost)"
  unfolding lost_below_def by (rule arg_cong [where f = card]) (auto simp: slots_of_def)

lemma claim_loaded_mono:
  assumes "claim_loaded s q p" "cl_tail s \<le> cl_tail s'" "cl_over s \<le> cl_over s'" "cl_opt s \<le> cl_opt s'" "slots_of s Lost \<subseteq> slots_of s' Lost"
  shows "claim_loaded s' q p"
  using assms lost_below_mono [OF assms(5)] by (cases q; cases p) (auto intro: order.trans le_less_trans less_le_trans)

lemma claim_won_mono:
  assumes "claim_won s" "cl_tail s \<le> cl_tail s'" "slots_of s Lost \<subseteq> slots_of s' Lost" "slots_of s' Won = slots_of s Won"
  shows "claim_won s'"
  using assms lost_below_mono [OF assms(3)] unfolding claim_won_def by (metis add_mono less_le_trans)

lemma head_over_le_opt:
  assumes "claim_count N s" shows "cl_head s + cl_over s \<le> cl_opt s"
proof -
  have "card (slots_of s Won \<union> slots_of s Lost) \<le> card {..<cl_opt s}" by (intro card_mono) (auto simp: slots_of_def)
  moreover have "slots_of s Won \<inter> slots_of s Lost = {}" by (auto simp: slots_of_def)
  ultimately show ?thesis using assms by (simp add: card_Un_disjoint claim_count_def)
qed

lemma claim_invD:
  assumes "claim_inv N s"
  shows "claim_timely N s" "claim_count N s" "t < N \<Longrightarrow> claim_loaded s (cl_seen s t) (cl_pc s t)" "claim_won s" "claim_work N s"
  using assms by (auto simp: claim_inv_def)

lemma claim_work_upd:
  assumes "claim_work N s" "\<And>i a. p \<noteq> CkWork i a" "cl_head s' = cl_head s" "cl_pc s' = (cl_pc s)(t := p)"
  shows "claim_work N s'"
  using assms by (auto simp: claim_work_def)

text \<open>Steps that change no slot.\<close>

lemma claim_inv_pc:
  assumes inv: "claim_inv N s" and t: "t < N" and tm: "claim_timely N s'"
    and s': "s' = s\<lparr>cl_pc := (cl_pc s)(t := p), cl_seen := (cl_seen s)(t := q)\<rparr>"
    and p: "claim_held p = claim_held (cl_pc s t)" "claim_owed p = claim_owed (cl_pc s t)" "claim_loaded s' q p" "\<And>i a. p \<noteq> CkWork i a"
  shows "claim_inv N s'"
  unfolding claim_inv_def
proof (intro conjI allI impI)
  note i = claim_invD [OF inv]
  show "claim_count N s'"
    using i(2) p(1,2) t sum_upd [OF t, of claim_owed "cl_pc s" p] by (auto simp: claim_count_def s')
  show "claim_loaded s' (cl_seen s' u) (cl_pc s' u)" if "u < N" for u
    using p(3) claim_loaded_mono [OF i(3) [OF that], of s'] by (auto simp: s')
  show "claim_won s'" using i(4) by (rule claim_won_mono) (auto simp: s')
  show "claim_work N s'" by (rule claim_work_upd [OF i(5) p(4)]) (auto simp: s')
qed (rule tm)

text \<open>Steps that decide slots: won with \<open>k_tail\<close>, lost with \<open>k_refund\<close> and \<open>k_fail\<close>.\<close>

lemma claim_inv_decide:
  assumes inv: "claim_inv N s" and t: "t < N" and tm: "claim_timely N s'"
    and s': "s' = s\<lparr>cl_over := cl_over s + (if v = Lost then hi - lo else 0), cl_pc := (cl_pc s)(t := p), cl_slot := set_slots lo hi v (cl_slot s)\<rparr>"
    and v: "v = Won \<or> v = Lost" and held: "{lo..<hi} \<subseteq> claim_held (cl_pc s t)" "claim_held p = claim_held (cl_pc s t) - {lo..<hi}"
    and owed: "claim_owed p = claim_owed (cl_pc s t) + (if v = Won then hi - lo else 0)"
    and p: "claim_loaded s' (cl_seen s t) p" "\<And>i a. p \<noteq> CkWork i a" and won: "v = Won \<Longrightarrow> \<forall>m \<in> {lo..<hi}. m < cl_tail s + lost_below s m"
  shows "claim_inv N s'"
  unfolding claim_inv_def
proof (intro conjI allI impI)
  note i = claim_invD [OF inv]
  have h: "{lo..<hi} \<subseteq> slots_of s (Held t)" using held(1) i(2) t by (auto simp: claim_count_def)
  have vt: "v \<noteq> Held t" using v by auto
  have sl: "slots_of s' w = (if w = v then slots_of s w \<union> {lo..<hi} else if w = Held t then slots_of s w - {lo..<hi} else slots_of s w)" for w
    unfolding slots_of_set [OF h vt, symmetric] by (simp add: s' slots_of_def)
  have f: "cl_pc s' = (cl_pc s)(t := p)" "cl_over s' = cl_over s + (if v = Lost then hi - lo else 0)" "cl_head s' = cl_head s"
    "cl_tail s' = cl_tail s" "cl_opt s' = cl_opt s" "cl_seen s' = cl_seen s" "cl_slot s' = set_slots lo hi v (cl_slot s)" by (simp_all add: s')
  have lost: "slots_of s Lost \<subseteq> slots_of s' Lost" by (auto simp: sl)
  show "claim_count N s'"
    unfolding claim_count_def
  proof (intro conjI allI impI)
    show "slots_of s' (Held u) = claim_held (cl_pc s' u)" if "u < N" for u
      using i(2) that held(2) v by (auto simp: claim_count_def sl f)
    show "u < N" if "m < cl_opt s'" "cl_slot s' m = Held u" for m u
      using i(2) that v by (auto simp: claim_count_def f set_slots_def split: if_splits)
    show "card (slots_of s' Lost) = cl_over s'"
      using i(2) v card_won_set [OF h vt] by (auto simp: claim_count_def sl f)
    show "card (slots_of s' Won) = cl_head s' + (\<Sum>u < N. claim_owed (cl_pc s' u))"
      using i(2) v card_won_set [OF h vt] owed sum_upd [OF t, of claim_owed "cl_pc s" p] by (auto simp: claim_count_def sl f)
  qed
  show "claim_loaded s' (cl_seen s' u) (cl_pc s' u)" if "u < N" for u
    using p(1) claim_loaded_mono [OF i(3) [OF that], of s'] lost by (auto simp: f)
  show "claim_won s'"
    unfolding claim_won_def
  proof
    fix m assume m: "m \<in> slots_of s' Won"
    have "m < cl_tail s + lost_below s m"
      using m won i(4) v by (auto simp: sl claim_won_def split: if_splits)
    then show "m < cl_tail s' + lost_below s' m" using lost_below_mono [OF lost, of m] by (simp add: f)
  qed
  show "claim_work N s'" by (rule claim_work_upd [OF i(5) p(2)]) (auto simp: f)
qed (rule tm)

lemma claim_inv_tail:
  assumes inv: "claim_inv N s" and t: "t < N" and pc: "cl_pc s t = CkTail d my v"
  shows "my + d \<le> cl_opt s" "d < 2 ^ 62" "0 < d" "v \<le> lost_below s my"
    "circular_less_than 0 (claim_diff (cl_tail s) my v) \<longleftrightarrow> my < cl_tail s + v"
    "my < cl_tail s + v \<Longrightarrow> unat (claim_diff (cl_tail s) my v) = cl_tail s + v - my"
proof -
  note i = claim_invD [OF inv]
  obtain so st where q: "cl_seen s t = (so, st)" by (cases "cl_seen s t")
  have l: "0 < d" "v \<le> lost_below s my" "st \<le> cl_tail s" "st + v < my + 2 ^ 62" "so < v + st + 2 ^ 62" "so \<le> my"
    using i(3) [OF t] pc q by auto
  have tm: "cl_opt s < so + 2 ^ 62" "cl_tail s < st + 2 ^ 62" using i(1) t pc q by (auto simp: claim_timely_def claim_inside_def)
  have "slots_of s (Held t) = {my..<my + d}" using i(2) t pc by (simp add: claim_count_def)
  then have "{my..<my + d} \<subseteq> {..<cl_opt s}" by (auto simp: slots_of_def)
  then show o: "my + d \<le> cl_opt s" using l(1) by (simp add: lessThan_atLeast0 atLeastLessThan_subset_iff) 
  show "d < 2 ^ 62" "0 < d" "v \<le> lost_below s my" using o tm(1) l by auto
  have b: "cl_tail s + v < my + 2 ^ 63" "my < cl_tail s + v + 2 ^ 63" using l tm o by auto
  show "circular_less_than 0 (claim_diff (cl_tail s) my v) \<longleftrightarrow> my < cl_tail s + v"
    "my < cl_tail s + v \<Longrightarrow> unat (claim_diff (cl_tail s) my v) = cl_tail s + v - my"
    using claim_diff_value [OF b] by auto
qed

lemma claim_inv_enqueue:
  assumes inv: "claim_inv N s" and tm: "claim_timely N s'" and s': "s' = s\<lparr>cl_tail := cl_tail s + n\<rparr>"
  shows "claim_inv N s'"
  unfolding claim_inv_def
proof (intro conjI allI impI)
  note i = claim_invD [OF inv]
  show "claim_count N s'" using i(2) by (auto simp: claim_count_def s')
  show "claim_loaded s' (cl_seen s' u) (cl_pc s' u)" if "u < N" for u
    using claim_loaded_mono [OF i(3) [OF that], of s'] by (auto simp: s')
  show "claim_won s'" using i(4) by (rule claim_won_mono) (auto simp: s')
  show "claim_work N s'" using i(5) by (auto simp: claim_work_def s')
qed (rule tm)

lemma claim_inv_head:
  assumes inv: "claim_inv N s" and t: "t < N" and tm: "claim_timely N s'" and pc: "cl_pc s t = CkHead a"
    and s': "s' = s\<lparr>cl_head := cl_head s + a, cl_pc := (cl_pc s)(t := CkWork (cl_head s) a)\<rparr>"
  shows "claim_inv N s'"
  unfolding claim_inv_def
proof (intro conjI allI impI)
  note i = claim_invD [OF inv]
  show "claim_count N s'"
    using i(2) t pc sum_upd [OF t, of claim_owed "cl_pc s" "CkWork (cl_head s) a"] by (auto simp: claim_count_def s')
  show "claim_loaded s' (cl_seen s' u) (cl_pc s' u)" if "u < N" for u
    using claim_loaded_mono [OF i(3) [OF that], of s'] by (cases "cl_seen s u") (auto simp: s')
  show "claim_won s'" using i(4) by (rule claim_won_mono) (auto simp: s')
  have "0 < a" using i(3) [OF t] pc by simp
  then show "claim_work N s'" using i(5) by (fastforce simp: claim_work_def s')
qed (rule tm)

lemma claim_inv_add:
  assumes inv: "claim_inv N s" and t: "t < N" and tm: "claim_timely N s'" and pc: "cl_pc s t = CkAdd d v"
    and s': "s' = s\<lparr>cl_opt := cl_opt s + d, cl_pc := (cl_pc s)(t := CkTail d (cl_opt s) v),
      cl_slot := set_slots (cl_opt s) (cl_opt s + d) (Held t) (cl_slot s)\<rparr>"
  shows "claim_inv N s'"
  unfolding claim_inv_def
proof (intro conjI allI impI)
  note i = claim_invD [OF inv]
  have sl: "slots_of s' w = (if w = Held t then slots_of s w \<union> {cl_opt s..<cl_opt s + d} else slots_of s w)" for w
    by (auto simp: slots_of_def s' set_slots_def)
  have f: "cl_pc s' = (cl_pc s)(t := CkTail d (cl_opt s) v)" "cl_over s' = cl_over s" "cl_head s' = cl_head s" "cl_tail s' = cl_tail s"
    "cl_opt s' = cl_opt s + d" "cl_seen s' = cl_seen s" "cl_slot s' = set_slots (cl_opt s) (cl_opt s + d) (Held t) (cl_slot s)" by (simp_all add: s')
  show "claim_count N s'"
    unfolding claim_count_def
  proof (intro conjI allI impI)
    show "slots_of s' (Held u) = claim_held (cl_pc s' u)" if "u < N" for u
      using i(2) that t pc by (auto simp: claim_count_def sl f)
    show "u < N" if "m < cl_opt s'" "cl_slot s' m = Held u" for m u
      using i(2) that t by (auto simp: claim_count_def f set_slots_def not_le split: if_splits)
    show "card (slots_of s' Lost) = cl_over s'" using i(2) unfolding sl by (simp add: claim_count_def f)
    show "card (slots_of s' Won) = cl_head s' + (\<Sum>u < N. claim_owed (cl_pc s' u))"
      using i(2) t pc sum_upd [OF t, of claim_owed "cl_pc s" "CkTail d (cl_opt s) v"] unfolding sl by (simp add: claim_count_def f)
  qed
  have lb: "lost_below s' m = lost_below s m" for m by (simp add: lost_below_def sl)
  show "claim_loaded s' (cl_seen s' u) (cl_pc s' u)" if "u < N" for u
  proof (cases "u = t")
    case True
    have "v \<le> lost_below s (cl_opt s)" using i(2) i(3) [OF t] pc by (cases "cl_seen s t") (auto simp: lost_below_all claim_count_def)
    then show ?thesis using i(3) [OF t] pc True lb by (cases "cl_seen s t") (simp add: f)
  next
    case False
    then show ?thesis using claim_loaded_mono [OF i(3) [OF that], of s'] by (simp add: sl f)
  qed
  show "claim_won s'" using i(4) by (simp add: claim_won_def sl lb f)
  show "claim_work N s'" by (rule claim_work_upd [OF i(5), of "CkTail d (cl_opt s) v"]) (auto simp: f)
qed (rule tm)

lemma claim_inv_over:
  assumes inv: "claim_inv N s" and t: "t < N" and tm: "claim_timely N s'" and pc: "cl_pc s t = CkOver m tail" "0 < unat m"
    and s': "s' = s\<lparr>cl_pc := (cl_pc s)(t := CkOpt m tail (cl_over s)), cl_seen := (cl_seen s)(t := (cl_opt s, cl_tail s))\<rparr>"
  shows "claim_inv N s'"
proof (rule claim_inv_pc [OF inv t tm s'])
  have "cl_tail s < cl_head s + 2 ^ 62" "cl_opt s < cl_over s + cl_tail s + 2 ^ 62" using claim_invD(1) [OF inv] by (auto simp: claim_timely_def)
  then show "claim_loaded s' (cl_opt s, cl_tail s) (CkOpt m tail (cl_over s))"
    using head_over_le_opt [OF claim_invD(2) [OF inv]] pc(2) by (simp add: s')
qed (use pc in auto)

lemma claim_desired_pos: "circular_less_than 0 w \<Longrightarrow> 0 < unat (m :: index_t) \<Longrightarrow> 0 < unat (if w < m then w else m)"
  by (auto simp: circular_less_than_def unat_gt_0)

lemma claim_inv_opt:
  assumes inv: "claim_inv N s" and t: "t < N" and tm: "claim_timely N s'" and pc: "cl_pc s t = CkOpt m tail v"
    and s': "s' = s\<lparr>cl_pc := (cl_pc s)(t :=
      let w = claim_diff tail (cl_opt s) v in if circular_less_than 0 w then CkAdd (unat (if w < m then w else m)) v else CkIdle)\<rparr>"
  shows "claim_inv N s'"
proof -
  obtain so st where q: "cl_seen s t = (so, st)" by (cases "cl_seen s t")
  have l: "claim_loaded s (so, st) (CkOpt m tail v)" using claim_invD(3) [OF inv t] pc q by simp
  define w where "w = claim_diff tail (cl_opt s) v"
  show ?thesis
  proof (cases "circular_less_than 0 w")
    case True
    let ?d = "unat (if w < m then w else m)"
    have d: "0 < ?d" using claim_desired_pos [OF True] l by simp
    have s2: "s' = s\<lparr>cl_pc := (cl_pc s)(t := CkAdd ?d v), cl_seen := (cl_seen s)(t := (so, st))\<rparr>"
      using True q by (simp add: s' w_def [symmetric] Let_def fun_upd_idem)
    show ?thesis by (rule claim_inv_pc [OF inv t tm s2]) (use pc l d in \<open>auto simp: s2\<close>)
  next
    case False
    have s2: "s' = s\<lparr>cl_pc := (cl_pc s)(t := CkIdle), cl_seen := (cl_seen s)(t := (so, st))\<rparr>"
      using False q by (simp add: s' w_def [symmetric] Let_def fun_upd_idem)
    show ?thesis by (rule claim_inv_pc [OF inv t tm s2]) (use pc in auto)
  qed
qed

lemma claim_inv_won:
  assumes inv: "claim_inv N s" and t: "t < N" and tm: "claim_timely N s'" and pc: "cl_pc s t = CkTail d my v"
    and w: "w = claim_diff (cl_tail s) my v" "circular_less_than 0 w" "a = (if of_nat d < w then d else unat w)"
    and s': "s' = s\<lparr>cl_pc := (cl_pc s)(t := if a < d then CkRefund d a my else CkHead a), cl_slot := set_slots my (my + a) Won (cl_slot s)\<rparr>"
  shows "claim_inv N s'"
proof -
  note T = claim_inv_tail [OF inv t pc]
  have my: "my < cl_tail s + v" using T(5) w by simp
  have "unat (of_nat d :: index_t) = d" using T(2) by (simp add: unat_of_nat)
  then have a: "a = min d (cl_tail s + v - my)" using T(6) [OF my] w by (auto simp: word_less_nat_alt)
  have a0: "0 < a" "a \<le> d" using a my T(3) by auto
  have won: "m < cl_tail s + lost_below s m" if "m \<in> {my..<my + a}" for m
    using that a T(4) lost_below_le [of my m s] by auto
  show ?thesis
    by (rule claim_inv_decide [OF inv t tm, where v = Won and hi = "my + a" and lo = my and p = "if a < d then CkRefund d a my else CkHead a"])
      (use won a0 pc in \<open>auto simp: s'\<close>)
qed

interpretation claim: inductive_invariant claim_init "claim_run N" "claim_inv N" for N :: nat
proof
  fix s assume "claim_init s"
  then show "claim_inv N s"
    by (auto simp: claim_init_def claim_inv_def claim_timely_def claim_inside_def claim_count_def slots_of_def claim_won_def claim_work_def)
next
  fix s s' assume inv: "claim_inv N s" and "claim_run N s s'"
  then have st: "claim_step N s s'" and tm: "claim_timely N s'" by (auto simp: claim_run_def)
  note i = claim_invD [OF inv]
  from st show "claim_inv N s'"
  proof cases
    case (k_enqueue n)
    with claim_inv_enqueue [OF inv tm] show ?thesis by simp
  next
    case (k_call t m)
    then show ?thesis using claim_inv_pc [OF inv _ tm, where t = t and p = "CkOver m (cl_tail s)" and q = "cl_seen s t"] by simp
  next
    case (k_over t m tail)
    then show ?thesis using claim_inv_over [OF inv _ tm] i(3) [of t] by simp
  next
    case (k_opt t m tail v)
    with claim_inv_opt [OF inv _ tm] show ?thesis by simp
  next
    case (k_add t d v)
    with claim_inv_add [OF inv _ tm] show ?thesis by simp
  next
    case (k_tail t d my v w a)
    with claim_inv_won [OF inv _ tm] show ?thesis by blast
  next
    case (k_tail_none t d my v)
    then show ?thesis using claim_inv_pc [OF inv _ tm, where t = t and p = "CkFail d my" and q = "cl_seen s t"] by simp
  next
    case (k_refund t d a my)
    have "0 < a" "a < d" using i(3) [of t] k_refund by auto
    then show ?thesis using k_refund by (intro claim_inv_decide [OF inv _ tm, where t = t and v = Lost and hi = "my + d" and lo = "my + a" and p = "CkHead a"]) auto
  next
    case (k_fail t d my)
    then show ?thesis by (intro claim_inv_decide [OF inv _ tm, where t = t and v = Lost and hi = "my + d" and lo = my and p = CkIdle]) auto
  next
    case (k_head t a)
    with claim_inv_head [OF inv _ tm] show ?thesis by simp
  next
    case (k_done t index a)
    then show ?thesis using claim_inv_pc [OF inv _ tm, where t = t and p = CkIdle and q = "cl_seen s t"] by simp
  qed
qed

section \<open>What the consumers get\<close>

lemma claim_idle_counts:
  assumes "claim_count N s" "\<forall>t < N. cl_pc s t = CkIdle" shows "cl_opt s = cl_over s + cl_head s"
proof -
  have "slots_of s (Held t) = {}" for t
    using assms by (cases "t < N") (auto simp: claim_count_def slots_of_def)
  then have "cl_slot s m = Won \<or> cl_slot s m = Lost" if "m < cl_opt s" for m
    using that by (cases "cl_slot s m") (auto simp: slots_of_def)
  then have "slots_of s Lost \<union> slots_of s Won = {..<cl_opt s}" by (auto simp: slots_of_def)
  moreover have "slots_of s Lost \<inter> slots_of s Won = {}" by (auto simp: slots_of_def)
  ultimately have "cl_opt s = card (slots_of s Lost) + card (slots_of s Won)" by (metis card_Un_disjoint card_lessThan finite_slots_of)
  then show ?thesis using assms by (simp add: claim_count_def)
qed

text \<open>
  C6. Any number of consumers beside the producer, in any interleaving, with counters that wrap: a consumer that goes on to
  take indices from \<open>headIndex\<close> finds that many elements below \<open>tailIndex\<close> (the comment "this will never exceed
  tail"); the ranges that consumers work on lie below the head and do not overlap; and when nobody is inside, the
  optimistic count less the overcommit is the head again, so nothing was lost to failed attempts.
\<close>
theorem claim_safe:
  assumes "reach claim_init (claim_run N) s"
  shows "cl_head s \<le> cl_tail s \<and>
    (\<forall>t < N. \<forall>a. cl_pc s t = CkHead a \<longrightarrow> 0 < a \<and> cl_head s + a \<le> cl_tail s) \<and>
    (\<forall>t < N. \<forall>i a. cl_pc s t = CkWork i a \<longrightarrow> 0 < a \<and> i + a \<le> cl_tail s \<and>
      (\<forall>u < N. \<forall>j b. u \<noteq> t \<longrightarrow> cl_pc s u = CkWork j b \<longrightarrow> {i..<i + a} \<inter> {j..<j + b} = {})) \<and>
    ((\<forall>t < N. cl_pc s t = CkIdle) \<longrightarrow> cl_opt s = cl_over s + cl_head s)"
proof -
  have inv: "claim_inv N s" by (rule claim.inv_reach [OF assms])
  note i = claim_invD [OF inv]
  have sum: "cl_head s + (\<Sum>t < N. claim_owed (cl_pc s t)) \<le> cl_tail s" using i(2) won_le_tail [OF i(4)] by (simp add: claim_count_def)
  then have ht: "cl_head s \<le> cl_tail s" by simp
  have "0 < a \<and> cl_head s + a \<le> cl_tail s" if "t < N" "cl_pc s t = CkHead a" for t a
  proof -
    have "claim_owed (cl_pc s t) \<le> (\<Sum>t < N. claim_owed (cl_pc s t))" using that(1) by (intro member_le_sum) auto
    then show ?thesis using sum that i(3) [OF that(1)] by simp
  qed
  moreover have "0 < a \<and> i + a \<le> cl_tail s \<and> (\<forall>u < N. \<forall>j b. u \<noteq> t \<longrightarrow> cl_pc s u = CkWork j b \<longrightarrow> {i..<i + a} \<inter> {j..<j + b} = {})"
    if "t < N" "cl_pc s t = CkWork i a" for t i a
    using i(5) that ht unfolding claim_work_def by fastforce
  ultimately show ?thesis using ht claim_idle_counts [OF i(2)] by blast
qed

definition claim_demo :: claim_sys where
  "claim_demo = \<lparr>cl_tail = 0, cl_head = 0, cl_opt = 0, cl_over = 0, cl_pc = (\<lambda>_. CkIdle), cl_slot = (\<lambda>_. Won), cl_seen = (\<lambda>_. (0, 0))\<rparr>"

lemma claim_run_step: "reach claim_init (claim_run N) s \<Longrightarrow> claim_step N s s' \<Longrightarrow> claim_timely N s' \<Longrightarrow> reach claim_init (claim_run N) s'"
  by (rule reach_step) (simp_all add: claim_run_def)

theorem claim_safe_witness:
  "\<exists>s. reach claim_init (claim_run 2) s \<and> cl_pc s 0 = CkHead 3 \<and> cl_head s + 3 \<le> cl_tail s"
proof -
  note tm = claim_timely_def claim_inside_def claim_demo_def
  let ?p = "\<lambda>s p. s\<lparr>cl_pc := (cl_pc s)(0 := p)\<rparr>"
  define s1 where "s1 = claim_demo\<lparr>cl_tail := cl_tail claim_demo + 3\<rparr>"
  define s2 where "s2 = ?p s1 (CkOver 3 3)"
  define s3 where "s3 = s2\<lparr>cl_pc := (cl_pc s2)(0 := CkOpt 3 3 0), cl_seen := (cl_seen s2)(0 := (0, 3))\<rparr>"
  define s4 where "s4 = ?p s3 (CkAdd 3 0)"
  define s5 where "s5 = s4\<lparr>cl_opt := 3, cl_pc := (cl_pc s4)(0 := CkTail 3 0 0), cl_slot := set_slots 0 3 (Held 0) (cl_slot s4)\<rparr>"
  define s6 where "s6 = s5\<lparr>cl_pc := (cl_pc s5)(0 := CkHead 3), cl_slot := set_slots 0 3 Won (cl_slot s5)\<rparr>"
  note d = s1_def s2_def s3_def s4_def s5_def s6_def
  have w: "claim_diff 3 0 0 = 3" "circular_less_than 0 (3 :: index_t)" by (simp_all add: claim_diff_def circular_less_than_def)
  have "reach claim_init (claim_run 2) claim_demo" by (rule reach_init) (simp add: claim_init_def claim_demo_def)
  then have "reach claim_init (claim_run 2) s1" by (rule claim_run_step) (use k_enqueue [of 2 claim_demo 3] in \<open>auto simp: d tm\<close>)
  then have "reach claim_init (claim_run 2) s2"
    by (rule claim_run_step) (use k_call [of 0 2 s1 3] in \<open>auto simp: d tm\<close>)
  then have "reach claim_init (claim_run 2) s3"
    by (rule claim_run_step) (use k_over [of 0 2 s2 3 3] in \<open>auto simp: d tm\<close>)
  then have "reach claim_init (claim_run 2) s4"
    by (rule claim_run_step) (use k_opt [of 0 2 s3 3 3 0] w in \<open>auto simp: d tm\<close>)
  then have "reach claim_init (claim_run 2) s5"
    by (rule claim_run_step) (use k_add [of 0 2 s4 3 0] in \<open>auto simp: d tm\<close>)
  moreover have "cl_pc s5 0 = CkTail 3 0 0" "cl_tail s5 = 3" by (simp_all add: d claim_demo_def)
  then have "claim_step 2 s5 s6" using k_tail [of 0 2 s5 3 0 0 3 3] w by (simp add: s6_def)
  ultimately have r: "reach claim_init (claim_run 2) s6" by (rule claim_run_step) (auto simp: d tm)
  have pc: "cl_pc s6 0 = CkHead 3" by (simp add: s6_def)
  have "\<forall>t < 2. \<forall>a. cl_pc s6 t = CkHead a \<longrightarrow> 0 < a \<and> cl_head s6 + a \<le> cl_tail s6" using claim_safe [OF r] by blast
  then have "cl_head s6 + 3 \<le> cl_tail s6" using pc by (metis zero_less_numeral)
  then show ?thesis using r pc by blast
qed

end
