(* ===== verification/CQ_FreeList.thy ===== *)
theory CQ_FreeList
  imports Prelude
begin

text \<open>
  The free list of \<^verbatim>\<open>concurrentqueue/concurrentqueue.h\<close> (\<open>FreeList\<close>): a stack of nodes through \<open>freeListNext\<close>,
  where every node has a count of the threads that look at it. A thread that finds the count positive may read \<open>next\<close>
  and exchange the head without the node being reused in between; a node that is given back while others still
  look at it is only marked, and the last of them puts it on the list. Any number of threads, one access at a time.
\<close>

section \<open>The steps\<close>

definition REFS_MASK :: u32 where "REFS_MASK = 0x7FFFFFFF"
definition SHOULD_BE_ON_FREELIST :: u32 where "SHOULD_BE_ON_FREELIST = 0x80000000"

text \<open>
  Where a thread is. \<open>add_knowing_refcount_is_zero\<close> is called from \<open>add\<close> (\<open>None\<close>) and from the loop of \<open>try_get\<close>,
  which goes on with the head the failed exchange has read.
\<close>

datatype fl_pc =
    FIdle
  | AkLoad nat "nat option option"
  | AkNext nat "nat option" "nat option option"
  | AkRefs nat "nat option" "nat option option"
  | AkCas nat "nat option" "nat option option"
  | AkBack nat "nat option" "nat option option"
  | GLoad
  | GRefs nat
  | GInc nat u32
  | GNext nat
  | GCas nat "nat option"
  | GGot nat
  | GSub nat
  | GDec nat "nat option"

text \<open>
  What a node is, seen from outside: a thread's own (it was returned by \<open>try_get\<close> or not added yet), on the list, being
  added by a thread before and after its count is set to 1, being taken by a thread, or marked and waiting for
  the last thread that looks at it.
\<close>

datatype fl_state = Mine nat | Listed | Adding nat | Published nat | Taken nat | Limbo

record fl_sys =
  fl_head :: "nat option"
  fl_next :: "nat \<Rightarrow> nat option"
  fl_refs :: "nat \<Rightarrow> u32"
  fl_pc :: "nat \<Rightarrow> fl_pc"
  fl_failed :: bool             \<comment> \<open>the assertion of \<open>try_get\<close> has failed\<close>
  fl_st :: "nat \<Rightarrow> fl_state"

definition fl_loop :: "nat option \<Rightarrow> fl_pc" where
  "fl_loop h = (case h of None \<Rightarrow> FIdle | Some n \<Rightarrow> GRefs n)"

definition fl_resume :: "nat option option \<Rightarrow> fl_pc" where
  "fl_resume k = (case k of None \<Rightarrow> FIdle | Some h \<Rightarrow> fl_loop h)"

definition fl_goto :: "nat \<Rightarrow> fl_pc \<Rightarrow> fl_sys \<Rightarrow> fl_sys" where
  "fl_goto t p s = s\<lparr>fl_pc := (fl_pc s)(t := p)\<rparr>"

definition fl_node :: "nat \<Rightarrow> fl_state \<Rightarrow> u32 \<Rightarrow> fl_sys \<Rightarrow> fl_sys" where
  "fl_node n v r s = s\<lparr>fl_st := (fl_st s)(n := v), fl_refs := (fl_refs s)(n := r)\<rparr>"

inductive fl_add_step :: "nat \<Rightarrow> fl_sys \<Rightarrow> fl_sys \<Rightarrow> bool" for t :: nat where
  f_add: "fl_pc s t = FIdle \<Longrightarrow> fl_st s n = Mine t \<Longrightarrow> old = fl_refs s n \<Longrightarrow>
    fl_add_step t s (if old = 0 then fl_goto t (AkLoad n None) (fl_node n (Adding t) (old + SHOULD_BE_ON_FREELIST) s)
      else fl_node n Limbo (old + SHOULD_BE_ON_FREELIST) s)"
| a_load: "fl_pc s t = AkLoad n k \<Longrightarrow> fl_add_step t s (fl_goto t (AkNext n (fl_head s) k) s)"
| a_next: "fl_pc s t = AkNext n h k \<Longrightarrow> fl_add_step t s (fl_goto t (AkRefs n h k) (s\<lparr>fl_next := (fl_next s)(n := h)\<rparr>))"
| a_refs: "fl_pc s t = AkRefs n h k \<Longrightarrow> fl_add_step t s (fl_goto t (AkCas n h k) (fl_node n (Published t) 1 s))"
| a_cas: "fl_pc s t = AkCas n h k \<Longrightarrow> fl_head s = h \<Longrightarrow>
    fl_add_step t s (fl_goto t (fl_resume k) (s\<lparr>fl_head := Some n, fl_st := (fl_st s)(n := Listed)\<rparr>))"
| a_cas_fail: "fl_pc s t = AkCas n h k \<Longrightarrow> fl_head s \<noteq> h \<Longrightarrow> fl_add_step t s (fl_goto t (AkBack n (fl_head s) k) s)"
| a_back: "fl_pc s t = AkBack n h k \<Longrightarrow> old = fl_refs s n \<Longrightarrow>
    fl_add_step t s (if old = 1 then fl_goto t (AkNext n h k) (fl_node n (Adding t) (old + (SHOULD_BE_ON_FREELIST - 1)) s)
      else fl_goto t (fl_resume k) (fl_node n Limbo (old + (SHOULD_BE_ON_FREELIST - 1)) s))"

inductive fl_get_step :: "nat \<Rightarrow> fl_sys \<Rightarrow> fl_sys \<Rightarrow> bool" for t :: nat where
  g_call: "fl_pc s t = FIdle \<Longrightarrow> fl_get_step t s (fl_goto t GLoad s)"
| g_load: "fl_pc s t = GLoad \<Longrightarrow> fl_get_step t s (fl_goto t (fl_loop (fl_head s)) s)"
| g_refs: "fl_pc s t = GRefs h \<Longrightarrow>
    fl_get_step t s (fl_goto t (if fl_refs s h AND REFS_MASK = 0 then GLoad else GInc h (fl_refs s h)) s)"
| g_inc: "fl_pc s t = GInc h refs \<Longrightarrow> fl_refs s h = refs \<Longrightarrow>
    fl_get_step t s (fl_goto t (GNext h) (fl_node h (fl_st s h) (refs + 1) s))"
| g_inc_fail: "fl_pc s t = GInc h refs \<Longrightarrow> fl_refs s h \<noteq> refs \<Longrightarrow> fl_get_step t s (fl_goto t GLoad s)"
| g_next: "fl_pc s t = GNext h \<Longrightarrow> fl_get_step t s (fl_goto t (GCas h (fl_next s h)) s)"
| g_cas: "fl_pc s t = GCas h nx \<Longrightarrow> fl_head s = Some h \<Longrightarrow>
    fl_get_step t s (fl_goto t (GGot h) (s\<lparr>fl_head := nx, fl_st := (fl_st s)(h := Taken t)\<rparr>))"
| g_cas_fail: "fl_pc s t = GCas h nx \<Longrightarrow> fl_head s \<noteq> Some h \<Longrightarrow> fl_get_step t s (fl_goto t (GDec h (fl_head s)) s)"
| g_got: "fl_pc s t = GGot h \<Longrightarrow>
    fl_get_step t s (fl_goto t (GSub h) (s\<lparr>fl_failed := fl_failed s \<or> fl_refs s h AND SHOULD_BE_ON_FREELIST \<noteq> 0\<rparr>))"
| g_sub: "fl_pc s t = GSub h \<Longrightarrow> fl_get_step t s (fl_goto t FIdle (fl_node h (Mine t) (fl_refs s h - 2) s))"
| g_dec: "fl_pc s t = GDec h cur \<Longrightarrow> old = fl_refs s h \<Longrightarrow>
    fl_get_step t s (if old = SHOULD_BE_ON_FREELIST + 1 then fl_goto t (AkLoad h (Some cur)) (fl_node h (Adding t) (old - 1) s)
      else fl_goto t (fl_loop cur) (fl_node h (fl_st s h) (old - 1) s))"

inductive fl_step :: "nat \<Rightarrow> fl_sys \<Rightarrow> fl_sys \<Rightarrow> bool" for N :: nat where
  fl_by_add: "t < N \<Longrightarrow> fl_add_step t s s' \<Longrightarrow> fl_step N s s'"
| fl_by_get: "t < N \<Longrightarrow> fl_get_step t s s' \<Longrightarrow> fl_step N s s'"

text \<open>At first the list is empty and every node belongs to a thread. The count has 31 bits.\<close>

definition fl_init :: "nat \<Rightarrow> fl_sys \<Rightarrow> bool" where
  "fl_init N s \<longleftrightarrow> N + 2 < 2 ^ 31 \<and> fl_head s = None \<and> fl_refs s = (\<lambda>_. 0) \<and> fl_pc s = (\<lambda>_. FIdle) \<and> \<not> fl_failed s \<and>
     (\<forall>n. \<exists>t. fl_st s n = Mine t)"

section \<open>The invariant\<close>

fun fl_holds :: "fl_pc \<Rightarrow> nat \<Rightarrow> bool" where
  "fl_holds (GNext h) n = (h = n)"
| "fl_holds (GCas h nx) n = (h = n)"
| "fl_holds (GDec h cur) n = (h = n)"
| "fl_holds _ n = False"

definition fl_holders :: "nat \<Rightarrow> fl_sys \<Rightarrow> nat \<Rightarrow> nat" where
  "fl_holders N s n = (\<Sum>t < N. of_bool (fl_holds (fl_pc s t) n))"

text \<open>The node a thread works on, with the state it must be in.\<close>

fun fl_works :: "nat \<Rightarrow> fl_pc \<Rightarrow> (nat \<times> fl_state) option" where
  "fl_works t (AkLoad n k) = Some (n, Adding t)"
| "fl_works t (AkNext n h k) = Some (n, Adding t)"
| "fl_works t (AkRefs n h k) = Some (n, Adding t)"
| "fl_works t (AkCas n h k) = Some (n, Published t)"
| "fl_works t (AkBack n h k) = Some (n, Published t)"
| "fl_works t (GGot h) = Some (h, Taken t)"
| "fl_works t (GSub h) = Some (h, Taken t)"
| "fl_works t _ = None"

fun fl_worker :: "fl_state \<Rightarrow> nat option" where
  "fl_worker (Adding t) = Some t"
| "fl_worker (Published t) = Some t"
| "fl_worker (Taken t) = Some t"
| "fl_worker _ = None"

text \<open>What a node's state adds to the number of its holders in \<open>freeListRefs\<close>.\<close>

fun fl_weight :: "fl_state \<Rightarrow> nat" where
  "fl_weight Listed = 1"
| "fl_weight (Published t) = 1"
| "fl_weight (Taken t) = 2"
| "fl_weight Limbo = 2 ^ 31"
| "fl_weight (Adding t) = 2 ^ 31"
| "fl_weight (Mine t) = 0"

fun fl_chain :: "(nat \<Rightarrow> nat option) \<Rightarrow> nat option \<Rightarrow> nat list \<Rightarrow> bool" where
  "fl_chain nx h [] \<longleftrightarrow> h = None"
| "fl_chain nx h (n # ns) \<longleftrightarrow> h = Some n \<and> fl_chain nx (nx n) ns"

definition fl_list_ok :: "fl_sys \<Rightarrow> bool" where
  "fl_list_ok s \<longleftrightarrow> (\<exists>ns. distinct ns \<and> fl_chain (fl_next s) (fl_head s) ns \<and> set ns = {n. fl_st s n = Listed})"

text \<open>The \<open>next\<close> a thread has stored or read is the node's, and a count it is about to increment was positive.\<close>

fun fl_next_ok :: "fl_sys \<Rightarrow> fl_pc \<Rightarrow> bool" where
  "fl_next_ok s (AkRefs n h k) \<longleftrightarrow> fl_next s n = h"
| "fl_next_ok s (AkCas n h k) \<longleftrightarrow> fl_next s n = h"
| "fl_next_ok s (GCas h nx) \<longleftrightarrow> fl_next s h = nx"
| "fl_next_ok s (GInc h refs) \<longleftrightarrow> refs AND REFS_MASK \<noteq> 0"
| "fl_next_ok s _ \<longleftrightarrow> True"

definition fl_node_ok :: "nat \<Rightarrow> fl_sys \<Rightarrow> nat \<Rightarrow> bool" where
  "fl_node_ok N s n \<longleftrightarrow> fl_refs s n = of_nat (fl_weight (fl_st s n) + fl_holders N s n) \<and>
     (\<forall>t. fl_st s n = Adding t \<longrightarrow> fl_holders N s n = 0) \<and> (fl_st s n = Limbo \<longrightarrow> 0 < fl_holders N s n) \<and>
     (\<forall>t. fl_worker (fl_st s n) = Some t \<longrightarrow> t < N \<and> fl_works t (fl_pc s t) = Some (n, fl_st s n))"

definition fl_inv :: "nat \<Rightarrow> fl_sys \<Rightarrow> bool" where
  "fl_inv N s \<longleftrightarrow> N + 2 < 2 ^ 31 \<and> \<not> fl_failed s \<and> fl_list_ok s \<and> (\<forall>n. fl_node_ok N s n) \<and>
     (\<forall>t < N. fl_next_ok s (fl_pc s t) \<and> (\<forall>n v. fl_works t (fl_pc s t) = Some (n, v) \<longrightarrow> fl_st s n = v))"

lemma fl_holders_le: "fl_holders N s n \<le> N"
  unfolding fl_holders_def using sum_bounded_above [of "{..<N}" "\<lambda>t. of_bool (fl_holds (fl_pc s t) n)" "1 :: nat"] by simp

lemma fl_holders_pos: "t < N \<Longrightarrow> fl_holds (fl_pc s t) n \<Longrightarrow> 0 < fl_holders N s n"
  unfolding fl_holders_def by (rule sum_pos2 [of _ t]) auto

lemma fl_holders_upd:
  assumes "t < N" "fl_pc s' = (fl_pc s)(t := p)"
  shows "fl_holders N s' n + of_bool (fl_holds (fl_pc s t) n) = fl_holders N s n + of_bool (fl_holds p n)"
  unfolding fl_holders_def assms(2) by (rule sum_upd [OF assms(1), of "\<lambda>p. of_bool (fl_holds p n)"])

lemma fl_works_worker: "fl_works t p = Some (n, v) \<Longrightarrow> fl_worker v = Some t"
  by (cases p) auto

lemma fl_chain_cong: "\<forall>m \<in> set ns. nx m = nx' m \<Longrightarrow> fl_chain nx h ns = fl_chain nx' h ns"
  by (induction ns arbitrary: h) auto

lemma fl_list_frame:
  assumes "fl_list_ok s" "fl_head s' = fl_head s" "\<And>m. fl_st s' m = Listed \<longleftrightarrow> fl_st s m = Listed" "\<And>m. fl_st s m = Listed \<Longrightarrow> fl_next s' m = fl_next s m"
  shows "fl_list_ok s'"
proof -
  obtain ns where ns: "distinct ns" "fl_chain (fl_next s) (fl_head s) ns" "set ns = {n. fl_st s n = Listed}" using assms(1) by (auto simp: fl_list_ok_def)
  have "fl_chain (fl_next s') (fl_head s') ns" using ns(2,3) assms(2,4) fl_chain_cong [of ns "fl_next s'" "fl_next s"] by simp
  then show ?thesis using ns(1,3) assms(3) by (auto simp: fl_list_ok_def)
qed

lemma fl_invD:
  assumes "fl_inv N s"
  shows "N + 2 < 2 ^ 31" "\<not> fl_failed s" "fl_list_ok s" "fl_node_ok N s n"
    "t < N \<Longrightarrow> fl_next_ok s (fl_pc s t)" "t < N \<Longrightarrow> fl_works t (fl_pc s t) = Some (n, v) \<Longrightarrow> fl_st s n = v"
  using assms by (auto simp: fl_inv_def)

text \<open>A thread moves on without touching a node.\<close>

lemma fl_inv_goto:
  assumes inv: "fl_inv N s" and t: "t < N" and p: "fl_holds p = fl_holds (fl_pc s t)" "fl_works t p = fl_works t (fl_pc s t)" "fl_next_ok s p"
  shows "fl_inv N (fl_goto t p s)"
  unfolding fl_inv_def
proof (intro conjI allI impI)
  let ?s = "fl_goto t p s"
  note i = fl_invD [OF inv]
  have h: "fl_holders N ?s n = fl_holders N s n" for n
    using fl_holders_upd [OF t, of ?s s p n] p(1) by (simp add: fl_goto_def)
  show "N + 2 < 2 ^ 31" "\<not> fl_failed ?s" using i(1,2) by (simp_all add: fl_goto_def)
  show "fl_list_ok ?s" by (rule fl_list_frame [OF i(3)]) (auto simp: fl_goto_def)
  show "fl_node_ok N ?s n" for n using i(4) [of n] p(2) unfolding fl_node_ok_def h by (auto simp: fl_goto_def)
  have nx: "fl_next_ok ?s q = fl_next_ok s q" for q by (cases q) (auto simp: fl_goto_def)
  show "fl_next_ok ?s (fl_pc ?s u)" if "u < N" for u unfolding nx using i(5) [OF that] p(3) by (simp add: fl_goto_def)
  show "fl_st ?s n = v" if "u < N" "fl_works u (fl_pc ?s u) = Some (n, v)" for u n v
    using i(6) [of u n v] that p(2) by (auto simp: fl_goto_def split: if_splits)
qed

text \<open>A thread moves on and changes one node.\<close>

lemma fl_inv_move:
  assumes inv: "fl_inv N s" and t: "t < N"
    and s': "fl_pc s' = (fl_pc s)(t := p)" "fl_st s' = (fl_st s)(n := v)" "fl_refs s' = (fl_refs s)(n := r)" "fl_next s' = (fl_next s)(n := nx)" "\<not> fl_failed s'" "fl_list_ok s'"
    and p: "\<And>m. m \<noteq> n \<Longrightarrow> fl_holds p m = fl_holds (fl_pc s t) m" "fl_next_ok s' p"
    and w: "\<And>m x. fl_works t (fl_pc s t) = Some (m, x) \<Longrightarrow> m = n" "fl_works t p = (if fl_worker v = None then None else Some (n, v))"
      "\<And>u. fl_worker v = Some u \<Longrightarrow> u = t" "\<And>u. fl_worker (fl_st s n) = Some u \<Longrightarrow> u = t"
    and r: "r = of_nat (fl_weight v + fl_holders N s' n)" "v = Adding t \<Longrightarrow> fl_holders N s' n = 0" "v = Limbo \<Longrightarrow> 0 < fl_holders N s' n"
    and nx: "nx = fl_next s n \<or> fl_holders N s n = 0"
  shows "fl_inv N s'"
  unfolding fl_inv_def
proof (intro conjI allI impI)
  note i = fl_invD [OF inv]
  show "N + 2 < 2 ^ 31" using i(1) .
  have h: "fl_holders N s' m = fl_holders N s m" if "m \<noteq> n" for m
    using fl_holders_upd [OF t s'(1), of m] p(1) [OF that] by simp
  show "fl_node_ok N s' m" for m
  proof (cases "m = n")
    case True
    show ?thesis unfolding True fl_node_ok_def using r w(2,3) t by (auto simp: s')
  next
    case False
    then show ?thesis using i(4) [of m] w(1) h [OF False] unfolding fl_node_ok_def by (auto simp: s')
  qed
  have other: "m \<noteq> n" if "u < N" "u \<noteq> t" "fl_works u (fl_pc s u) = Some (m, x)" for u m x
    using i(6) [OF that(1,3)] fl_works_worker [OF that(3)] w(4) that(2) by auto
  show "fl_next_ok s' (fl_pc s' u)" if u: "u < N" for u
  proof (cases "u = t")
    case False
    have "fl_next_ok s (fl_pc s u)" by (rule i(5) [OF u])
    then show ?thesis using False other [OF u False] fl_holders_pos [OF u, of s n] nx
      by (cases "fl_pc s u") (auto simp: s')
  qed (use p(2) in \<open>simp add: s'\<close>)
  show "fl_st s' m = x" if "u < N" "fl_works u (fl_pc s' u) = Some (m, x)" for u m x
    using that i(6) [of u m x] w(2) other [of u m x] by (cases "u = t") (auto simp: s' split: if_splits)
qed (use s' in auto)

section \<open>Preservation\<close>

text \<open>The count and the mark in one 32-bit word.\<close>

lemma of_nat_u32_eq: "x < 2 ^ 32 \<Longrightarrow> y < 2 ^ 32 \<Longrightarrow> (of_nat x :: u32) = of_nat y \<longleftrightarrow> x = y"
  by (simp add: unat_inject [symmetric] unat_of_nat)

lemma SHOULD_nat: "SHOULD_BE_ON_FREELIST = of_nat (2 ^ 31)" "SHOULD_BE_ON_FREELIST - 1 = of_nat (2 ^ 31 - 1)"
  by (simp_all add: SHOULD_BE_ON_FREELIST_def)

lemma refs_mask_zero:
  assumes "c < 2 ^ 31" "f = 0 \<or> f = 2 ^ 31"
  shows "(of_nat (f + c) :: u32) AND REFS_MASK = 0 \<longleftrightarrow> c = 0"
proof -
  have "REFS_MASK = mask 31" by (simp add: REFS_MASK_def mask_eq_exp_minus_1)
  moreover have "unat (x AND mask 31) = unat x mod 2 ^ 31" for x :: u32
    by (simp add: unsigned_take_bit_eq take_bit_nat_def flip: take_bit_eq_mask)
  ultimately have "unat ((of_nat (f + c) :: u32) AND REFS_MASK) = unat (of_nat (f + c) :: u32) mod 2 ^ 31" by metis
  also have "unat (of_nat (f + c) :: u32) = f + c" using assms by (subst unat_of_nat) auto
  also have "(f + c) mod 2 ^ 31 = c" using assms by auto
  finally show ?thesis by (metis unat_0 unsigned_word_eqI)
qed

lemma should_bit_zero: "c < 2 ^ 31 \<Longrightarrow> (of_nat c :: u32) AND SHOULD_BE_ON_FREELIST = 0"
proof -
  assume c: "c < 2 ^ 31"
  have sh: "SHOULD_BE_ON_FREELIST = (2 ^ 31 :: u32)" by (simp add: SHOULD_BE_ON_FREELIST_def)
  have "\<not> bit (of_nat c :: u32) 31"
  proof -
    have "unat (of_nat c :: u32) = c" using c by (simp add: unat_of_nat)
    then have "bit (of_nat c :: u32) 31 \<longleftrightarrow> bit c 31" by (metis bit_unsigned_iff possible_bit_nat)
    then show ?thesis using c by (simp add: bit_iff_odd)
  qed
  then show ?thesis unfolding sh and_exp_eq_0_iff_not_bit .
qed

lemma fl_inv_refs:
  assumes "fl_inv N s"
  shows "fl_refs s n = of_nat (fl_weight (fl_st s n) + fl_holders N s n)" "fl_holders N s n + 2 < 2 ^ 31"
    "fl_st s n = Adding t \<Longrightarrow> fl_holders N s n = 0" "fl_st s n = Limbo \<Longrightarrow> 0 < fl_holders N s n"
  using fl_invD(4) [OF assms, of n] fl_invD(1) [OF assms] fl_holders_le [of N s n] by (auto simp: fl_node_ok_def)

lemma fl_inv_f_add:
  assumes inv: "fl_inv N s" and t: "t < N" and pc: "fl_pc s t = FIdle" "fl_st s n = Mine t" and old: "old = fl_refs s n"
    and s': "s' = (if old = 0 then fl_goto t (AkLoad n None) (fl_node n (Adding t) (old + SHOULD_BE_ON_FREELIST) s)
      else fl_node n Limbo (old + SHOULD_BE_ON_FREELIST) s)"
  shows "fl_inv N s'"
proof -
  let ?h = "fl_holders N s n" and ?v = "if old = 0 then Adding t else Limbo" and ?p = "if old = 0 then AkLoad n None else FIdle"
  have o: "old = of_nat ?h" using fl_inv_refs(1) [OF inv, of n] pc old by simp
  have z: "old = 0 \<longleftrightarrow> ?h = 0" using o of_nat_u32_eq [of ?h 0] fl_inv_refs(2) [OF inv, of n] by simp
  have f: "fl_pc s' = (fl_pc s)(t := ?p)" "fl_st s' = (fl_st s)(n := ?v)" "fl_refs s' = (fl_refs s)(n := old + SHOULD_BE_ON_FREELIST)"
    "fl_next s' = (fl_next s)(n := fl_next s n)" "\<not> fl_failed s'" "fl_head s' = fl_head s"
    using fl_invD(2) [OF inv] pc(1) by (auto simp: s' fl_goto_def fl_node_def)
  have h: "fl_holders N s' n = ?h" using fl_holders_upd [OF t f(1), of n] pc by (simp split: if_splits)
  show ?thesis
  proof (rule fl_inv_move [OF inv t f(1-5)])
    show "fl_list_ok s'" by (rule fl_list_frame [OF fl_invD(3) [OF inv]]) (use f pc in auto)
    show "old + SHOULD_BE_ON_FREELIST = of_nat (fl_weight ?v + fl_holders N s' n)" using o h by (simp add: SHOULD_nat(1))
  qed (use pc z h in \<open>auto split: if_splits\<close>)
qed

lemma fl_inv_a_next:
  assumes inv: "fl_inv N s" and t: "t < N" and pc: "fl_pc s t = AkNext n h k"
  shows "fl_inv N (fl_goto t (AkRefs n h k) (s\<lparr>fl_next := (fl_next s)(n := h)\<rparr>))" (is "fl_inv N ?s")
proof -
  have st: "fl_st s n = Adding t" using fl_invD(6) [OF inv t, of n "Adding t"] pc by simp
  have f: "fl_pc ?s = (fl_pc s)(t := AkRefs n h k)" "fl_st ?s = (fl_st s)(n := Adding t)" "fl_refs ?s = (fl_refs s)(n := fl_refs s n)"
    "fl_next ?s = (fl_next s)(n := h)" "\<not> fl_failed ?s" "fl_head ?s = fl_head s"
    using fl_invD(2) [OF inv] st by (auto simp: fl_goto_def)
  have hh: "fl_holders N ?s n = fl_holders N s n" using fl_holders_upd [OF t f(1), of n] pc by simp
  show ?thesis
  proof (rule fl_inv_move [OF inv t f(1-5)])
    show "fl_list_ok ?s" by (rule fl_list_frame [OF fl_invD(3) [OF inv]]) (use f st in auto)
  qed (use pc st f hh fl_inv_refs(1,3) [OF inv, of n] in auto)
qed

lemma fl_inv_a_refs:
  assumes inv: "fl_inv N s" and t: "t < N" and pc: "fl_pc s t = AkRefs n h k"
  shows "fl_inv N (fl_goto t (AkCas n h k) (fl_node n (Published t) 1 s))" (is "fl_inv N ?s")
proof -
  have st: "fl_st s n = Adding t" using fl_invD(6) [OF inv t, of n "Adding t"] pc by simp
  have f: "fl_pc ?s = (fl_pc s)(t := AkCas n h k)" "fl_st ?s = (fl_st s)(n := Published t)" "fl_refs ?s = (fl_refs s)(n := 1)"
    "fl_next ?s = (fl_next s)(n := fl_next s n)" "\<not> fl_failed ?s" "fl_head ?s = fl_head s"
    using fl_invD(2) [OF inv] by (auto simp: fl_goto_def fl_node_def)
  have hh: "fl_holders N ?s n = 0" using fl_holders_upd [OF t f(1), of n] pc fl_inv_refs(3) [OF inv st] by simp
  show ?thesis
  proof (rule fl_inv_move [OF inv t f(1-5)])
    show "fl_list_ok ?s" by (rule fl_list_frame [OF fl_invD(3) [OF inv]]) (use f st in auto)
  qed (use pc st f hh fl_invD(5) [OF inv t] in auto)
qed

lemma fl_inv_a_back:
  assumes inv: "fl_inv N s" and t: "t < N" and pc: "fl_pc s t = AkBack n h k" and old: "old = fl_refs s n"
    and s': "s' = (if old = 1 then fl_goto t (AkNext n h k) (fl_node n (Adding t) (old + (SHOULD_BE_ON_FREELIST - 1)) s)
      else fl_goto t (fl_resume k) (fl_node n Limbo (old + (SHOULD_BE_ON_FREELIST - 1)) s))"
  shows "fl_inv N s'"
proof -
  let ?h = "fl_holders N s n" and ?v = "if old = 1 then Adding t else Limbo" and ?p = "if old = 1 then AkNext n h k else fl_resume k"
  have st: "fl_st s n = Published t" using fl_invD(6) [OF inv t, of n "Published t"] pc by simp
  have o: "old = of_nat (1 + ?h)" using fl_inv_refs(1) [OF inv, of n] st old by simp
  have z: "old = 1 \<longleftrightarrow> ?h = 0" using o of_nat_u32_eq [of "1 + ?h" 1] fl_inv_refs(2) [OF inv, of n] by simp
  have f: "fl_pc s' = (fl_pc s)(t := ?p)" "fl_st s' = (fl_st s)(n := ?v)" "fl_refs s' = (fl_refs s)(n := old + (SHOULD_BE_ON_FREELIST - 1))"
    "fl_next s' = (fl_next s)(n := fl_next s n)" "\<not> fl_failed s'" "fl_head s' = fl_head s"
    using fl_invD(2) [OF inv] by (auto simp: s' fl_goto_def fl_node_def)
  have np: "fl_holds ?p m = False" "fl_works t ?p = (if old = 1 then Some (n, Adding t) else None)" "fl_next_ok s' ?p" for m
    by (auto simp: fl_resume_def fl_loop_def split: option.splits)
  have h: "fl_holders N s' n = ?h" using fl_holders_upd [OF t f(1), of n] pc np(1) [of n] by simp
  show ?thesis
  proof (rule fl_inv_move [OF inv t f(1-5)])
    show "fl_list_ok s'" by (rule fl_list_frame [OF fl_invD(3) [OF inv]]) (use f st in auto)
    have "old + (SHOULD_BE_ON_FREELIST - 1) = of_nat ((1 + ?h) + (2 ^ 31 - 1))" unfolding o SHOULD_nat(2) by (simp only: of_nat_add)
    moreover have "(1 + ?h) + (2 ^ 31 - 1) = fl_weight ?v + fl_holders N s' n" using h by simp
    ultimately show "old + (SHOULD_BE_ON_FREELIST - 1) = of_nat (fl_weight ?v + fl_holders N s' n)" by (simp only:)
  qed (use pc st z h np in \<open>auto split: if_splits\<close>)
qed

text \<open>A thread begins or ends to look at a node, whatever the node is.\<close>

lemma fl_inv_count:
  assumes inv: "fl_inv N s" and t: "t < N"
    and s': "s' = fl_goto t p (fl_node n (fl_st s n) r s)"
    and p: "\<And>m. m \<noteq> n \<Longrightarrow> fl_holds p m = fl_holds (fl_pc s t) m" "fl_works t p = None" "fl_works t (fl_pc s t) = None" "fl_next_ok s p"
    and r: "r = of_nat (fl_weight (fl_st s n) + fl_holders N s' n)" "\<And>u. fl_st s n \<noteq> Adding u" "fl_st s n = Limbo \<Longrightarrow> 0 < fl_holders N s' n"
  shows "fl_inv N s'"
  unfolding fl_inv_def
proof (intro conjI allI impI)
  note i = fl_invD [OF inv]
  have f: "fl_pc s' = (fl_pc s)(t := p)" "fl_st s' = fl_st s" "fl_refs s' = (fl_refs s)(n := r)" "fl_next s' = fl_next s"
    "fl_failed s' = fl_failed s" "fl_head s' = fl_head s" by (auto simp: s' fl_goto_def fl_node_def)
  have h: "fl_holders N s' m = fl_holders N s m" if "m \<noteq> n" for m using fl_holders_upd [OF t f(1), of m] p(1) [OF that] by simp
  show "N + 2 < 2 ^ 31" "\<not> fl_failed s'" using i(1,2) f by simp_all
  show "fl_list_ok s'" by (rule fl_list_frame [OF i(3)]) (auto simp: f)
  show "fl_node_ok N s' m" for m
    using i(4) [of m] p(2,3) r h [of m] by (cases "m = n") (auto simp: fl_node_ok_def f)
  have nx: "fl_next_ok s' q = fl_next_ok s q" for q by (cases q) (auto simp: f)
  show "fl_next_ok s' (fl_pc s' u)" if "u < N" for u unfolding nx using i(5) [OF that] p(4) by (simp add: f)
  show "fl_st s' m = x" if "u < N" "fl_works u (fl_pc s' u) = Some (m, x)" for u m x
    using i(6) [of u m x] that p(2) by (auto simp: f split: if_splits)
qed

text \<open>The loop of \<open>try_get\<close> has seen a positive count.\<close>

lemma fl_inv_g_inc:
  assumes inv: "fl_inv N s" and t: "t < N" and pc: "fl_pc s t = GInc h refs" and refs: "fl_refs s h = refs" "refs AND REFS_MASK \<noteq> 0"
  shows "fl_inv N (fl_goto t (GNext h) (fl_node h (fl_st s h) (refs + 1) s))" (is "fl_inv N ?s")
proof (rule fl_inv_count [OF inv t refl])
  have "fl_pc ?s = (fl_pc s)(t := GNext h)" by (simp add: fl_goto_def fl_node_def)
  from fl_holders_upd [OF t this, of h] have hh: "fl_holders N ?s h = Suc (fl_holders N s h)" using pc by simp
  have w: "refs = of_nat (fl_weight (fl_st s h) + fl_holders N s h)" using fl_inv_refs(1) [OF inv, of h] refs by simp
  then show "refs + 1 = of_nat (fl_weight (fl_st s h) + fl_holders N ?s h)" unfolding hh by simp
  show "fl_st s h \<noteq> Adding u" for u
  proof
    assume a: "fl_st s h = Adding u"
    then have "refs = of_nat (2 ^ 31 + 0)" using w fl_inv_refs(3) [OF inv a] by simp
    then show False using refs(2) refs_mask_zero [of 0 "2 ^ 31"] by simp
  qed
  show "0 < fl_holders N ?s h" using hh by simp
qed (use pc in auto)

lemma fl_inv_g_dec:
  assumes inv: "fl_inv N s" and t: "t < N" and pc: "fl_pc s t = GDec h cur" and old: "old = fl_refs s h"
    and s': "s' = (if old = SHOULD_BE_ON_FREELIST + 1 then fl_goto t (AkLoad h (Some cur)) (fl_node h (Adding t) (old - 1) s)
      else fl_goto t (fl_loop cur) (fl_node h (fl_st s h) (old - 1) s))"
  shows "fl_inv N s'"
proof -
  let ?k = "fl_holders N s h" and ?w = "fl_weight (fl_st s h)"
  obtain k where k: "?k = Suc k" using fl_holders_pos [OF t, of s h] pc by (cases ?k) auto
  have o: "old = of_nat (?w + ?k)" using fl_inv_refs(1) [OF inv, of h] old by simp
  have na: "fl_st s h \<noteq> Adding u" for u using fl_inv_refs(3) [OF inv, of h u] k by auto
  have lt: "?k + 2 < 2 ^ 31" by (rule fl_inv_refs(2) [OF inv])
  have w: "?w \<le> 2 \<or> ?w = 2 ^ 31 \<and> fl_st s h = Limbo" using na by (cases "fl_st s h") auto
  have "SHOULD_BE_ON_FREELIST + 1 = of_nat (2 ^ 31 + 1)" by (simp add: SHOULD_nat(1))
  then have z: "old = SHOULD_BE_ON_FREELIST + 1 \<longleftrightarrow> ?w + ?k = 2 ^ 31 + 1"
    unfolding o using of_nat_u32_eq [of "?w + ?k" "2 ^ 31 + 1"] w lt by auto
  have dec: "old - 1 = of_nat (?w + k)" unfolding o k by simp
  have pc': "fl_pc s' = (fl_pc s)(t := if old = SHOULD_BE_ON_FREELIST + 1 then AkLoad h (Some cur) else fl_loop cur)"
    by (simp add: s' fl_goto_def fl_node_def)
  have np: "fl_holds (fl_loop cur) m = False" "fl_works t (fl_loop cur) = None" "fl_next_ok s (fl_loop cur)" for m
    by (auto simp: fl_loop_def split: option.splits)
  have hh: "fl_holders N s' h = k" using fl_holders_upd [OF t pc', of h] pc k np(1) by (simp split: if_splits)
  show ?thesis
  proof (cases "old = SHOULD_BE_ON_FREELIST + 1")
    case True
    then have l: "fl_st s h = Limbo" "k = 0" using z w lt k by auto
    have f: "fl_pc s' = (fl_pc s)(t := AkLoad h (Some cur))" "fl_st s' = (fl_st s)(h := Adding t)" "fl_refs s' = (fl_refs s)(h := old - 1)"
      "fl_next s' = (fl_next s)(h := fl_next s h)" "\<not> fl_failed s'" "fl_head s' = fl_head s"
      using fl_invD(2) [OF inv] True by (auto simp: s' fl_goto_def fl_node_def)
    show ?thesis
    proof (rule fl_inv_move [OF inv t f(1-5)])
      show "fl_list_ok s'" by (rule fl_list_frame [OF fl_invD(3) [OF inv]]) (use f l in auto)
      show "old - 1 = of_nat (fl_weight (Adding t) + fl_holders N s' h)" using dec hh l by simp
    qed (use pc l hh in auto)
  next
    case False
    then have s2: "s' = fl_goto t (fl_loop cur) (fl_node h (fl_st s h) (old - 1) s)" by (simp add: s')
    show ?thesis
    proof (rule fl_inv_count [OF inv t s2])
      show "old - 1 = of_nat (fl_weight (fl_st s h) + fl_holders N s' h)" using dec hh by simp
      show "0 < fl_holders N s' h" if "fl_st s h = Limbo" using False z k hh that by auto
    qed (use pc np na in auto)
  qed
qed

lemma fl_inv_g_sub:
  assumes inv: "fl_inv N s" and t: "t < N" and pc: "fl_pc s t = GSub h"
  shows "fl_inv N (fl_goto t FIdle (fl_node h (Mine t) (fl_refs s h - 2) s))" (is "fl_inv N ?s")
proof -
  have st: "fl_st s h = Taken t" using fl_invD(6) [OF inv t, of h "Taken t"] pc by simp
  have f: "fl_pc ?s = (fl_pc s)(t := FIdle)" "fl_st ?s = (fl_st s)(h := Mine t)" "fl_refs ?s = (fl_refs s)(h := fl_refs s h - 2)"
    "fl_next ?s = (fl_next s)(h := fl_next s h)" "\<not> fl_failed ?s" "fl_head ?s = fl_head s"
    using fl_invD(2) [OF inv] by (auto simp: fl_goto_def fl_node_def)
  have hh: "fl_holders N ?s h = fl_holders N s h" using fl_holders_upd [OF t f(1), of h] pc by simp
  show ?thesis
  proof (rule fl_inv_move [OF inv t f(1-5)])
    show "fl_list_ok ?s" by (rule fl_list_frame [OF fl_invD(3) [OF inv]]) (use f st in auto)
    show "fl_refs s h - 2 = of_nat (fl_weight (Mine t) + fl_holders N ?s h)" 
      using fl_inv_refs(1) [OF inv, of h] st unfolding hh by simp
  qed (use pc st in auto)
qed

text \<open>The two exchanges of the head.\<close>

lemma fl_inv_a_cas:
  assumes inv: "fl_inv N s" and t: "t < N" and pc: "fl_pc s t = AkCas n h k" and hd: "fl_head s = h"
  shows "fl_inv N (fl_goto t (fl_resume k) (s\<lparr>fl_head := Some n, fl_st := (fl_st s)(n := Listed)\<rparr>))" (is "fl_inv N ?s")
proof -
  have st: "fl_st s n = Published t" using fl_invD(6) [OF inv t, of n "Published t"] pc by simp
  have nx: "fl_next s n = h" using fl_invD(5) [OF inv t] pc by simp
  have f: "fl_pc ?s = (fl_pc s)(t := fl_resume k)" "fl_st ?s = (fl_st s)(n := Listed)" "fl_refs ?s = (fl_refs s)(n := fl_refs s n)"
    "fl_next ?s = (fl_next s)(n := fl_next s n)" "\<not> fl_failed ?s" "fl_head ?s = Some n"
    using fl_invD(2) [OF inv] by (auto simp: fl_goto_def)
  have np: "fl_holds (fl_resume k) m = False" "fl_works t (fl_resume k) = None" "fl_next_ok ?s (fl_resume k)" for m
    by (auto simp: fl_resume_def fl_loop_def split: option.splits)
  have hh: "fl_holders N ?s n = fl_holders N s n" using fl_holders_upd [OF t f(1), of n] pc np(1) by simp
  obtain ns where ns: "distinct ns" "fl_chain (fl_next s) (fl_head s) ns" "set ns = {m. fl_st s m = Listed}"
    using fl_invD(3) [OF inv] by (auto simp: fl_list_ok_def)
  have "fl_list_ok ?s" unfolding fl_list_ok_def
    by (rule exI [of _ "n # ns"]) (use ns st nx hd f in auto)
  then show ?thesis
    by (rule fl_inv_move [OF inv t f(1-5)]) (use pc st hh np fl_inv_refs(1) [OF inv, of n] in auto)
qed

lemma fl_inv_g_cas:
  assumes inv: "fl_inv N s" and t: "t < N" and pc: "fl_pc s t = GCas h nx" and hd: "fl_head s = Some h"
  shows "fl_inv N (fl_goto t (GGot h) (s\<lparr>fl_head := nx, fl_st := (fl_st s)(h := Taken t)\<rparr>))" (is "fl_inv N ?s")
proof -
  have nx: "fl_next s h = nx" using fl_invD(5) [OF inv t] pc by simp
  obtain ns where ns: "distinct ns" "fl_chain (fl_next s) (fl_head s) ns" "set ns = {m. fl_st s m = Listed}"
    using fl_invD(3) [OF inv] by (auto simp: fl_list_ok_def)
  then obtain ms where ms: "ns = h # ms" using hd by (cases ns) auto
  have st: "fl_st s h = Listed" using ns(3) ms by auto
  have f: "fl_pc ?s = (fl_pc s)(t := GGot h)" "fl_st ?s = (fl_st s)(h := Taken t)" "fl_refs ?s = (fl_refs s)(h := fl_refs s h)"
    "fl_next ?s = (fl_next s)(h := fl_next s h)" "\<not> fl_failed ?s" "fl_head ?s = nx"
    using fl_invD(2) [OF inv] by (auto simp: fl_goto_def)
  have hh: "Suc (fl_holders N ?s h) = fl_holders N s h" using fl_holders_upd [OF t f(1), of h] pc by simp
  have "fl_list_ok ?s" unfolding fl_list_ok_def
    by (rule exI [of _ ms]) (use ns ms nx f in auto)
  moreover have "fl_refs s h = of_nat (fl_weight (Taken t) + fl_holders N ?s h)" unfolding fl_inv_refs(1) [OF inv, of h] st hh [symmetric] by simp
  ultimately show ?thesis
    by (intro fl_inv_move [OF inv t f(1-5)]) (use pc st in auto)
qed

lemma fl_inv_g_got:
  assumes inv: "fl_inv N s" and t: "t < N" and pc: "fl_pc s t = GGot h"
  shows "fl_inv N (fl_goto t (GSub h) (s\<lparr>fl_failed := fl_failed s \<or> fl_refs s h AND SHOULD_BE_ON_FREELIST \<noteq> 0\<rparr>))"
proof -
  have st: "fl_st s h = Taken t" using fl_invD(6) [OF inv t, of h "Taken t"] pc by simp
  have "2 + fl_holders N s h < 2 ^ 31" using fl_inv_refs(2) [OF inv, of h] by simp
  moreover have "fl_refs s h = of_nat (2 + fl_holders N s h)" using fl_inv_refs(1) [OF inv, of h] st by simp
  ultimately have "fl_refs s h AND SHOULD_BE_ON_FREELIST = 0" by (simp only: should_bit_zero)
  then have "s\<lparr>fl_failed := fl_failed s \<or> fl_refs s h AND SHOULD_BE_ON_FREELIST \<noteq> 0\<rparr> = s" by simp
  then show ?thesis using fl_inv_goto [OF inv t, of "GSub h"] pc by (simp add: fun_eq_iff)
qed

lemma fl_loop_simps [simp]: "fl_holds (fl_loop h) = (\<lambda>_. False)" "fl_works t (fl_loop h) = None" "fl_next_ok s (fl_loop h)"
  by (auto simp: fl_loop_def fun_eq_iff split: option.splits)

interpretation free_list: inductive_invariant "fl_init N" "fl_step N" "fl_inv N" for N :: nat
proof
  fix s assume i: "fl_init N s"
  have "fl_node_ok N s n" for n
  proof -
    obtain t where "fl_st s n = Mine t" using i by (auto simp: fl_init_def)
    then show ?thesis using i by (simp add: fl_node_ok_def fl_init_def fl_holders_def)
  qed
  moreover have "fl_list_ok s" unfolding fl_list_ok_def
    by (rule exI [of _ "[]"]) (use i in \<open>auto simp: fl_init_def, metis fl_state.distinct(1)\<close>)
  ultimately show "fl_inv N s" using i by (auto simp: fl_inv_def fl_init_def)
next
  fix s s' assume inv: "fl_inv N s" and st: "fl_step N s s'"
  from st show "fl_inv N s'"
  proof cases
    case (fl_by_add t)
    note t = fl_by_add(1)
    from fl_by_add(2) show ?thesis
    proof cases
      case (f_add n old)
      then show ?thesis by (intro fl_inv_f_add [OF inv t])
    next
      case (a_load n k)
      then show ?thesis using fl_inv_goto [OF inv t, of "AkNext n (fl_head s) k"] by (simp add: fun_eq_iff)
    next
      case (a_next n h k)
      then show ?thesis using fl_inv_a_next [OF inv t] by simp
    next
      case (a_refs n h k)
      then show ?thesis using fl_inv_a_refs [OF inv t] by simp
    next
      case (a_cas n h k)
      then show ?thesis using fl_inv_a_cas [OF inv t] by simp
    next
      case (a_cas_fail n h k)
      then show ?thesis using fl_inv_goto [OF inv t, of "AkBack n (fl_head s) k"] by (simp add: fun_eq_iff)
    next
      case (a_back n h k old)
      then show ?thesis by (intro fl_inv_a_back [OF inv t])
    qed
  next
    case (fl_by_get t)
    note t = fl_by_get(1)
    from fl_by_get(2) show ?thesis
    proof cases
      case (g_inc h refs)
      then show ?thesis using fl_inv_g_inc [OF inv t] fl_invD(5) [OF inv t] by simp
    next
      case (g_cas h nx)
      then show ?thesis using fl_inv_g_cas [OF inv t] by simp
    next
      case (g_got h)
      then show ?thesis using fl_inv_g_got [OF inv t] by simp
    next
      case (g_sub h)
      then show ?thesis using fl_inv_g_sub [OF inv t] by simp
    next
      case (g_dec h cur old)
      then show ?thesis by (intro fl_inv_g_dec [OF inv t])
    qed (auto intro!: fl_inv_goto [OF inv t] simp: fun_eq_iff)
  qed
qed

text \<open>
  C13. The free list with any number of threads that add and take nodes, in any interleaving: the assertion of \<open>try_get\<close>
  never fails; the list is a chain of different nodes without a node that belongs to a thread; a node that
  \<open>try_get\<close> is about to return belongs to no thread, is not on the list and is returned to no other thread; and
  once no thread is inside, every node belongs to a thread or is on the list, so none is lost.
\<close>
theorem free_list_safe:
  assumes "reach (fl_init N) (fl_step N) s"
  shows "\<not> fl_failed s \<and>
    (\<exists>ns. distinct ns \<and> fl_chain (fl_next s) (fl_head s) ns \<and> (\<forall>n \<in> set ns. \<forall>t. fl_st s n \<noteq> Mine t) \<and>
      (\<forall>t < N. \<forall>n. fl_pc s t = GSub n \<longrightarrow> (\<forall>u. fl_st s n \<noteq> Mine u) \<and> n \<notin> set ns \<and> (\<forall>u < N. u \<noteq> t \<longrightarrow> fl_pc s u \<noteq> GSub n)) \<and>
      ((\<forall>t < N. fl_pc s t = FIdle) \<longrightarrow> (\<forall>n. n \<in> set ns \<or> (\<exists>t. fl_st s n = Mine t))))"
proof -
  have inv: "fl_inv N s" by (rule free_list.inv_reach [OF assms])
  obtain ns where ns: "distinct ns" "fl_chain (fl_next s) (fl_head s) ns" "set ns = {n. fl_st s n = Listed}"
    using fl_invD(3) [OF inv] by (auto simp: fl_list_ok_def)
  have got: "fl_st s n = Taken t" if "t < N" "fl_pc s t = GSub n" for t n using fl_invD(6) [OF inv that(1), of n "Taken t"] that(2) by simp
  have "n \<in> set ns \<or> (\<exists>t. fl_st s n = Mine t)" if "\<forall>t < N. fl_pc s t = FIdle" for n
  proof -
    have "fl_holders N s n = 0" using that by (simp add: fl_holders_def)
    then show ?thesis using fl_invD(4) [OF inv, of n] that ns(3) by (cases "fl_st s n") (auto simp: fl_node_ok_def)
  qed
  moreover have "(\<forall>u. fl_st s n \<noteq> Mine u) \<and> n \<notin> set ns \<and> (\<forall>u < N. u \<noteq> t \<longrightarrow> fl_pc s u \<noteq> GSub n)" if "t < N" "fl_pc s t = GSub n" for t n
    using got [OF that] got [of _ n] ns(3) by auto
  ultimately show ?thesis using ns fl_invD(2) [OF inv] by (intro conjI exI [of _ ns]) auto
qed

text \<open>One thread that has added node 0.\<close>

definition fl_demo :: fl_sys where
  "fl_demo = \<lparr>fl_head = None, fl_next = (\<lambda>_. None), fl_refs = (\<lambda>_. 0), fl_pc = (\<lambda>_. FIdle), fl_failed = False, fl_st = (\<lambda>_. Mine 0)\<rparr>"

definition fl_demo_added :: fl_sys where
  "fl_demo_added = fl_demo\<lparr>fl_head := Some 0, fl_next := (\<lambda>_. None)(0 := None), fl_refs := (\<lambda>_. 0)(0 := 1), fl_st := (\<lambda>_. Mine 0)(0 := Listed)\<rparr>"

lemma fl_demo_reach: "reach (fl_init 1) (fl_step 1) fl_demo_added"
proof -
  let ?R = "reach (fl_init 1) (fl_step 1)"
  have add: "?R s \<Longrightarrow> fl_add_step 0 s s' \<Longrightarrow> ?R s'" for s s' by (rule reach_step) (auto intro: fl_by_add)
  note d = fl_goto_def fl_node_def fl_demo_def
  define s1 where "s1 = fl_goto 0 (AkLoad 0 None) (fl_node 0 (Adding 0) SHOULD_BE_ON_FREELIST fl_demo)"
  define s2 where "s2 = fl_goto 0 (AkNext 0 None None) s1"
  define s3 where "s3 = fl_goto 0 (AkRefs 0 None None) (s2\<lparr>fl_next := (fl_next s2)(0 := None)\<rparr>)"
  define s4 where "s4 = fl_goto 0 (AkCas 0 None None) (fl_node 0 (Published 0) 1 s3)"
  have "?R fl_demo" by (rule reach_init) (simp add: fl_init_def fl_demo_def)
  then have "?R s1" by (rule add) (use f_add [of fl_demo 0 0 0] in \<open>simp add: s1_def d\<close>)
  then have "?R s2" by (rule add) (use a_load [of s1 0 0 None] in \<open>simp add: s2_def s1_def d\<close>)
  then have "?R s3" by (rule add) (use a_next [of s2 0 0 None None] in \<open>simp add: s3_def s2_def d\<close>)
  then have "?R s4" by (rule add) (use a_refs [of s3 0 0 None None] in \<open>simp add: s4_def s3_def d\<close>)
  moreover have "fl_add_step 0 s4 (fl_goto 0 (fl_resume None) (s4\<lparr>fl_head := Some 0, fl_st := (fl_st s4)(0 := Listed)\<rparr>))"
    by (rule a_cas [of _ _ _ None]) (simp_all add: s4_def s3_def s2_def s1_def d)
  moreover have "fl_goto 0 (fl_resume None) (s4\<lparr>fl_head := Some 0, fl_st := (fl_st s4)(0 := Listed)\<rparr>) = fl_demo_added"
    by (simp add: fl_demo_added_def s4_def s3_def s2_def s1_def d fl_resume_def fun_eq_iff)
  ultimately show ?thesis using add by metis
qed

theorem free_list_safe_witness:
  "\<not> fl_failed fl_demo_added \<and> (\<exists>ns. distinct ns \<and> fl_chain (fl_next fl_demo_added) (fl_head fl_demo_added) ns \<and> 0 \<in> set ns)"
proof -
  have "\<forall>t < 1. fl_pc fl_demo_added t = FIdle" "\<forall>t. fl_st fl_demo_added 0 \<noteq> Mine t" by (simp_all add: fl_demo_added_def fl_demo_def)
  with free_list_safe [OF fl_demo_reach] show ?thesis by blast
qed

end
