(* ===== verification/CQ_Block.thy ===== *)
theory CQ_Block
  imports Index_Bits
begin

text \<open>
  The blocks of \<^verbatim>\<open>concurrentqueue/concurrentqueue.h\<close> (\<open>Block\<close>): slots for elements, and the record of which
  of them have been dequeued. Explicit producers keep a flag per slot when the block is small, in reverse order;
  otherwise a counter is kept. A locale states what the producers rely on, and both representations satisfy it.
\<close>

section \<open>Data\<close>

datatype InnerQueueContext = implicit_context | explicit_context

text \<open>The constants of \<open>Traits\<close> that blocks and explicit producers use, and the allocator.\<close>

record cq_traits =
  tr_BLOCK_SIZE :: size_t
  tr_EXPLICIT_BLOCK_EMPTY_COUNTER_THRESHOLD :: size_t
  tr_EXPLICIT_INITIAL_INDEX_SIZE :: size_t
  tr_MAX_SUBQUEUE_SIZE :: size_t
  tr_RECYCLE_ALLOCATED_BLOCKS :: bool
  tr_malloc_block :: "nat \<Rightarrow> bool"       \<comment> \<open>does the allocation of a block at this address succeed\<close>
  tr_malloc_index :: "size_t \<Rightarrow> bool"    \<comment> \<open>does the allocation of an index with so many entries succeed\<close>

record 'a cq_block =
  cqb_elements :: "'a option list"
  cqb_next :: "nat option"
  cqb_elementsCompletelyDequeued :: size_t
  cqb_emptyFlags :: "bool list"
  cqb_dynamicallyAllocated :: bool

definition cq_Block :: "cq_traits \<Rightarrow> 'a cq_block" where
  "cq_Block k = \<lparr>cqb_elements = replicate (unat (tr_BLOCK_SIZE k)) None, cqb_next = None, cqb_elementsCompletelyDequeued = 0,
     cqb_emptyFlags = replicate (if tr_BLOCK_SIZE k \<le> tr_EXPLICIT_BLOCK_EMPTY_COUNTER_THRESHOLD k then unat (tr_BLOCK_SIZE k) else 1) False,
     cqb_dynamicallyAllocated = True\<rparr>"

section \<open>Operations\<close>

definition uses_flags :: "cq_traits \<Rightarrow> InnerQueueContext \<Rightarrow> bool" where
  "uses_flags k c \<longleftrightarrow> c = explicit_context \<and> tr_BLOCK_SIZE k \<le> tr_EXPLICIT_BLOCK_EMPTY_COUNTER_THRESHOLD k"

definition is_empty :: "cq_traits \<Rightarrow> InnerQueueContext \<Rightarrow> 'a cq_block \<Rightarrow> bool result" where
  "is_empty k c b =
     (if uses_flags k c then Inr (\<forall>i < unat (tr_BLOCK_SIZE k). cqb_emptyFlags b ! i)
      else if cqb_elementsCompletelyDequeued b = tr_BLOCK_SIZE k then Inr True
      else if cqb_elementsCompletelyDequeued b \<le> tr_BLOCK_SIZE k then Inr False
      else Inl (AssertFailed ''elementsCompletelyDequeued <= BLOCK_SIZE''))"

definition flag_of :: "cq_traits \<Rightarrow> index_t \<Rightarrow> nat" where
  "flag_of k i = unat (tr_BLOCK_SIZE k - 1 - (i AND (tr_BLOCK_SIZE k - 1)))"

definition set_empty :: "cq_traits \<Rightarrow> InnerQueueContext \<Rightarrow> index_t \<Rightarrow> 'a cq_block \<Rightarrow> (bool \<times> 'a cq_block) result" where
  "set_empty k c i b =
     (if uses_flags k c
      then if cqb_emptyFlags b ! flag_of k i then Inl (AssertFailed ''!emptyFlags'')
           else Inr (False, b\<lparr>cqb_emptyFlags := (cqb_emptyFlags b)[flag_of k i := True]\<rparr>)
      else let prevVal = cqb_elementsCompletelyDequeued b; b = b\<lparr>cqb_elementsCompletelyDequeued := prevVal + 1\<rparr>
           in if prevVal < tr_BLOCK_SIZE k then Inr (prevVal = tr_BLOCK_SIZE k - 1, b) else Inl (AssertFailed ''prevVal < BLOCK_SIZE''))"

text \<open>The loop that sets \<open>count\<close> flags from \<open>i\<close> on.\<close>

fun set_flags :: "nat \<Rightarrow> nat \<Rightarrow> bool list \<Rightarrow> bool list result" where
  "set_flags 0 i fs = Inr fs"
| "set_flags (Suc count) i fs = (if fs ! i then Inl (AssertFailed ''!emptyFlags'') else set_flags count (Suc i) (fs[i := True]))"

definition set_many_empty :: "cq_traits \<Rightarrow> InnerQueueContext \<Rightarrow> index_t \<Rightarrow> size_t \<Rightarrow> 'a cq_block \<Rightarrow> (bool \<times> 'a cq_block) result" where
  "set_many_empty k c i count b =
     (if uses_flags k c
      then let i = tr_BLOCK_SIZE k - 1 - (i AND (tr_BLOCK_SIZE k - 1)) - count + 1
           in map_sum id (\<lambda>fs. (False, b\<lparr>cqb_emptyFlags := fs\<rparr>)) (set_flags (unat count) (unat i) (cqb_emptyFlags b))
      else let prevVal = cqb_elementsCompletelyDequeued b; b = b\<lparr>cqb_elementsCompletelyDequeued := prevVal + count\<rparr>
           in if prevVal + count \<le> tr_BLOCK_SIZE k then Inr (prevVal + count = tr_BLOCK_SIZE k, b)
              else Inl (AssertFailed ''prevVal + count <= BLOCK_SIZE''))"

definition set_all_empty :: "cq_traits \<Rightarrow> InnerQueueContext \<Rightarrow> 'a cq_block \<Rightarrow> 'a cq_block" where
  "set_all_empty k c b =
     (if uses_flags k c then b\<lparr>cqb_emptyFlags := replicate (unat (tr_BLOCK_SIZE k)) True\<rparr>
      else b\<lparr>cqb_elementsCompletelyDequeued := tr_BLOCK_SIZE k\<rparr>)"

definition reset_empty :: "cq_traits \<Rightarrow> InnerQueueContext \<Rightarrow> 'a cq_block \<Rightarrow> 'a cq_block" where
  "reset_empty k c b =
     (if uses_flags k c then b\<lparr>cqb_emptyFlags := replicate (unat (tr_BLOCK_SIZE k)) False\<rparr>
      else b\<lparr>cqb_elementsCompletelyDequeued := 0\<rparr>)"

text \<open>\<open>operator[]\<close>: the slot of an index.\<close>

definition slot_of :: "cq_traits \<Rightarrow> index_t \<Rightarrow> nat" where
  "slot_of k idx = unat (idx AND (tr_BLOCK_SIZE k - 1))"

definition cqb_construct :: "cq_traits \<Rightarrow> 'a \<Rightarrow> index_t \<Rightarrow> 'a cq_block \<Rightarrow> 'a cq_block" where
  "cqb_construct k x idx b = b\<lparr>cqb_elements := (cqb_elements b)[slot_of k idx := Some x]\<rparr>"

definition cqb_element :: "cq_traits \<Rightarrow> index_t \<Rightarrow> 'a cq_block \<Rightarrow> 'a result" where
  "cqb_element k idx b = (case cqb_elements b ! slot_of k idx of Some x \<Rightarrow> Inr x | None \<Rightarrow> Inl (UndefinedBehaviour ''raw storage''))"

definition cqb_destroy :: "cq_traits \<Rightarrow> index_t \<Rightarrow> 'a cq_block \<Rightarrow> 'a cq_block" where
  "cqb_destroy k idx b = b\<lparr>cqb_elements := (cqb_elements b)[slot_of k idx := None]\<rparr>"

section \<open>What the producers rely on\<close>

text \<open>\<open>D\<close> is the set of slots that have been emptied since the last reset.\<close>

locale empty_tracker =
  fixes size :: nat and rep :: "'b \<Rightarrow> nat set \<Rightarrow> bool" and slot :: "index_t \<Rightarrow> nat"
    and empty :: "'b \<Rightarrow> bool result" and set1 :: "index_t \<Rightarrow> 'b \<Rightarrow> (bool \<times> 'b) result" and reset :: "'b \<Rightarrow> 'b"
  assumes rep_bound: "rep b D \<Longrightarrow> D \<subseteq> {..<size}"
    and empty_iff: "rep b D \<Longrightarrow> empty b = Inr (D = {..<size})"
    and set1_ok: "rep b D \<Longrightarrow> slot i \<notin> D \<Longrightarrow> \<exists>r b'. set1 i b = Inr (r, b') \<and> rep b' (insert (slot i) D)"
begin

fun set_each :: "index_t list \<Rightarrow> 'b \<Rightarrow> 'b result" where
  "set_each [] b = Inr b"
| "set_each (i # is) b = (case set1 i b of Inl e \<Rightarrow> Inl e | Inr (r, b) \<Rightarrow> set_each is b)"

text \<open>Emptying different slots, in any order, never fails an assertion, and the block is empty when all are.\<close>

lemma set_each_ok:
  "rep b D \<Longrightarrow> distinct (map slot is) \<Longrightarrow> slot ` set is \<inter> D = {} \<Longrightarrow> \<exists>b'. set_each is b = Inr b' \<and> rep b' (D \<union> slot ` set is)"
proof (induction "is" arbitrary: b D)
  case (Cons i "is")
  obtain r b1 where 1: "set1 i b = Inr (r, b1)" "rep b1 (insert (slot i) D)" using set1_ok [OF Cons.prems(1), of i] Cons.prems(3) by auto
  have "slot ` set is \<inter> insert (slot i) D = {}" using Cons.prems(2,3) by auto
  from Cons.IH [OF 1(2) _ this] Cons.prems(2) 1(1) show ?case by auto
qed simp

end

section \<open>Both representations\<close>

definition traits_ok :: "cq_traits \<Rightarrow> bool" where
  "traits_ok k \<longleftrightarrow> (\<exists>e. 0 < e \<and> e < 32 \<and> tr_BLOCK_SIZE k = 2 ^ e)"

abbreviation block_size :: "cq_traits \<Rightarrow> nat" where
  "block_size k \<equiv> unat (tr_BLOCK_SIZE k)"

definition cqb_rep :: "cq_traits \<Rightarrow> InnerQueueContext \<Rightarrow> 'a cq_block \<Rightarrow> nat set \<Rightarrow> bool" where
  "cqb_rep k c b D \<longleftrightarrow> D \<subseteq> {..<block_size k} \<and>
     (if uses_flags k c then length (cqb_emptyFlags b) = block_size k \<and> (\<forall>j < block_size k. cqb_emptyFlags b ! (block_size k - 1 - j) \<longleftrightarrow> j \<in> D)
      else unat (cqb_elementsCompletelyDequeued b) = card D)"

lemma traits_size:
  assumes "traits_ok k"
  obtains e where "0 < e" "e < 32" "block_size k = 2 ^ e" "tr_BLOCK_SIZE k - 1 = mask e" "2 \<le> block_size k" "block_size k < 2 ^ 32"
proof -
  obtain e where e: "0 < e" "e < 32" "tr_BLOCK_SIZE k = 2 ^ e" using assms by (auto simp: traits_ok_def)
  then have "block_size k = 2 ^ e" by (simp add: unat_pow2)
  moreover have "(2 :: nat) ^ 1 \<le> 2 ^ e" using e by (intro power_increasing) auto
  moreover have "(2 :: nat) ^ e < 2 ^ 32" using e by (intro power_strict_increasing) auto
  ultimately show ?thesis using e by (intro that [of e]) (auto simp: mask_eq_exp_minus_1)
qed

lemma slot_of_mod: "traits_ok k \<Longrightarrow> slot_of k i = unat i mod block_size k"
  by (erule traits_size) (simp add: slot_of_def unsigned_take_bit_eq take_bit_nat_def flip: take_bit_eq_mask)

lemma slot_of_less: "traits_ok k \<Longrightarrow> slot_of k i < block_size k"
  by (auto simp: slot_of_mod elim!: traits_size)

lemma flag_of_slot: "traits_ok k \<Longrightarrow> flag_of k i = block_size k - 1 - slot_of k i"
proof -
  assume k: "traits_ok k"
  have "1 \<le> tr_BLOCK_SIZE k" using k by (elim traits_size) (simp add: word_le_nat_alt)
  then have one: "unat (tr_BLOCK_SIZE k - 1) = block_size k - 1" by (simp add: unat_sub)
  have "i AND (tr_BLOCK_SIZE k - 1) \<le> tr_BLOCK_SIZE k - 1"
    using slot_of_less [OF k, of i] one unfolding word_le_nat_alt slot_of_def by linarith
  then show ?thesis unfolding flag_of_def slot_of_def by (simp only: unat_sub one)
qed

lemma cqb_rep_reset: "cqb_rep k c (reset_empty k c b) {}"
  by (auto simp: cqb_rep_def reset_empty_def)

lemma full_card: "D \<subseteq> {..<n} \<Longrightarrow> card D = n \<longleftrightarrow> D = {..<n :: nat}"
  by (metis card_lessThan card_subset_eq finite_lessThan)

lemma cqb_empty_iff:
  assumes "cqb_rep k c b D" shows "is_empty k c b = Inr (D = {..<block_size k})"
proof (cases "uses_flags k c")
  case True
  let ?n = "block_size k"
  have f: "cqb_emptyFlags b ! (?n - 1 - j) \<longleftrightarrow> j \<in> D" if "j < ?n" for j using assms True that by (auto simp: cqb_rep_def)
  have sub: "D \<subseteq> {..<?n}" using assms by (simp add: cqb_rep_def)
  have "(\<forall>i < ?n. cqb_emptyFlags b ! i) \<longleftrightarrow> D = {..<?n}"
  proof
    assume a: "\<forall>i < ?n. cqb_emptyFlags b ! i"
    have "j \<in> D" if "j < ?n" for j using f [OF that] a that by simp
    then show "D = {..<?n}" using sub by auto
  next
    assume a: "D = {..<?n}"
    show "\<forall>i < ?n. cqb_emptyFlags b ! i"
    proof (intro allI impI)
      fix i assume i: "i < ?n"
      then show "cqb_emptyFlags b ! i" using f [of "?n - 1 - i"] a by simp
    qed
  qed
  then show ?thesis using True by (simp add: is_empty_def)
next
  case False
  have c: "unat (cqb_elementsCompletelyDequeued b) = card D" "D \<subseteq> {..<block_size k}" using assms False by (auto simp: cqb_rep_def)
  have "card D \<le> block_size k" using c(2) by (metis card_lessThan card_mono finite_lessThan)
  then show ?thesis using False c full_card [OF c(2)] by (auto simp: is_empty_def word_le_nat_alt unat_inject [symmetric])
qed

lemma cqb_set_ok:
  assumes k: "traits_ok k" and r: "cqb_rep k c b D" and i: "slot_of k i \<notin> D"
  shows "\<exists>x b'. set_empty k c i b = Inr (x, b') \<and> cqb_rep k c b' (insert (slot_of k i) D) \<and>
    cqb_elements b' = cqb_elements b \<and> cqb_next b' = cqb_next b \<and> cqb_dynamicallyAllocated b' = cqb_dynamicallyAllocated b \<and>
    (\<not> uses_flags k c \<longrightarrow> x = (insert (slot_of k i) D = {..<block_size k}))"
proof (cases "uses_flags k c")
  case True
  have s: "slot_of k i < block_size k" by (rule slot_of_less [OF k])
  then show ?thesis using True r i by (auto simp: set_empty_def cqb_rep_def flag_of_slot [OF k] nth_list_update)
next
  case False
  have c: "unat (cqb_elementsCompletelyDequeued b) = card D" "D \<subseteq> {..<block_size k}" using r False by (auto simp: cqb_rep_def)
  have fin: "finite D" using c(2) finite_subset by auto
  have sub: "insert (slot_of k i) D \<subseteq> {..<block_size k}" using c(2) slot_of_less [OF k, of i] by auto
  then have le: "Suc (card D) \<le> block_size k" using i fin by (metis card_insert_disjoint card_lessThan card_mono finite_lessThan)
  then have lt: "cqb_elementsCompletelyDequeued b < tr_BLOCK_SIZE k" using c(1) by (simp add: word_less_nat_alt)
  have "cqb_elementsCompletelyDequeued b = tr_BLOCK_SIZE k - 1 \<longleftrightarrow> cqb_elementsCompletelyDequeued b + 1 = tr_BLOCK_SIZE k" by (metis add_diff_cancel diff_add_cancel)
  also have "\<dots> \<longleftrightarrow> Suc (card D) = block_size k" using plus_one_eq_iff [OF lt] c(1) by simp
  also have "\<dots> \<longleftrightarrow> insert (slot_of k i) D = {..<block_size k}" using full_card [OF sub] i fin by simp
  finally show ?thesis using False lt unat_plus_one [OF lt] c(1) sub i fin
    by (simp add: set_empty_def Let_def cqb_rep_def)
qed

interpretation cqb: empty_tracker "block_size k" "\<lambda>b D. traits_ok k \<and> cqb_rep k c b D" "slot_of k" "is_empty k c" "set_empty k c" "reset_empty k c"
  for k :: cq_traits and c
proof
  fix b :: "'a cq_block" and D i
  assume r: "traits_ok k \<and> cqb_rep k c b D"
  show "D \<subseteq> {..<block_size k}" using r by (simp add: cqb_rep_def)
  show "is_empty k c b = Inr (D = {..<block_size k})" using r cqb_empty_iff by blast
  show "\<exists>x b'. set_empty k c i b = Inr (x, b') \<and> traits_ok k \<and> cqb_rep k c b' (insert (slot_of k i) D)" if "slot_of k i \<notin> D"
    using r that cqb_set_ok by blast
qed

text \<open>\<open>set_many_empty\<close> is \<open>set_empty\<close> for each of the indices, when they lie in one block.\<close>

fun set_empties :: "cq_traits \<Rightarrow> InnerQueueContext \<Rightarrow> nat \<Rightarrow> index_t \<Rightarrow> 'a cq_block \<Rightarrow> (bool \<times> 'a cq_block) result" where
  "set_empties k c 0 i b = Inr (False, b)"
| "set_empties k c (Suc n) i b =
     (case set_empty k c i b of
        Inl e \<Rightarrow> Inl e
      | Inr (r, b) \<Rightarrow> if n = 0 then Inr (r, b) else set_empties k c n (i + 1) b)"

lemma slot_of_plus:
  assumes k: "traits_ok k" and s: "slot_of k i + n < block_size k" shows "slot_of k (i + of_nat n) = slot_of k i + n"
proof -
  obtain e where e: "e < 32" "block_size k = 2 ^ e" using k by (rule traits_size)
  have "(2 :: nat) ^ e dvd 2 ^ 64" using e by (intro le_imp_power_dvd) simp
  then have "unat (i + of_nat n) mod 2 ^ e = (unat i + n) mod 2 ^ e"
    by (simp add: unat_word_ariths unat_of_nat mod_add_right_eq mod_mod_cancel)
  also have "\<dots> = (unat i mod 2 ^ e + n) mod 2 ^ e" by (simp add: mod_add_left_eq)
  finally show ?thesis using s e by (simp add: slot_of_mod [OF k])
qed

definition same_block :: "'a cq_block \<Rightarrow> 'a cq_block \<Rightarrow> bool" where
  "same_block b b' \<longleftrightarrow> cqb_elements b' = cqb_elements b \<and> cqb_next b' = cqb_next b \<and> cqb_dynamicallyAllocated b' = cqb_dynamicallyAllocated b"

lemma set_empty_frame:
  "set_empty k c i b = Inr (x, b') \<Longrightarrow> same_block b b' \<and>
    (if uses_flags k c then \<not> x \<and> cqb_elementsCompletelyDequeued b' = cqb_elementsCompletelyDequeued b else cqb_emptyFlags b' = cqb_emptyFlags b)"
  by (auto simp: set_empty_def Let_def same_block_def split: if_splits)

lemma set_empties_ok:
  "traits_ok k \<Longrightarrow> cqb_rep k c b D \<Longrightarrow> 0 < n \<Longrightarrow> slot_of k i + n \<le> block_size k \<Longrightarrow> {slot_of k i..<slot_of k i + n} \<inter> D = {} \<Longrightarrow>
    \<exists>x b'. set_empties k c n i b = Inr (x, b') \<and> cqb_rep k c b' (D \<union> {slot_of k i..<slot_of k i + n}) \<and> same_block b b' \<and>
      (if uses_flags k c then \<not> x \<and> cqb_elementsCompletelyDequeued b' = cqb_elementsCompletelyDequeued b
       else cqb_emptyFlags b' = cqb_emptyFlags b \<and> x = (D \<union> {slot_of k i..<slot_of k i + n} = {..<block_size k}))"
proof (induction n arbitrary: b D i)
  case (Suc n)
  let ?s = "slot_of k i"
  have "?s \<in> {?s..<?s + Suc n}" by simp
  then have i: "?s \<notin> D" using Suc.prems(5) by blast
  obtain x b1 where 1: "set_empty k c i b = Inr (x, b1)" "cqb_rep k c b1 (insert ?s D)"
    "\<not> uses_flags k c \<Longrightarrow> x = (insert ?s D = {..<block_size k})" using cqb_set_ok [OF Suc.prems(1,2) i] by auto
  note f = set_empty_frame [OF 1(1)]
  show ?case
  proof (cases "n = 0")
    case True
    then show ?thesis using 1 f by auto
  next
    case False
    have s: "slot_of k (i + 1) = Suc ?s" using slot_of_plus [OF Suc.prems(1), of i 1] Suc.prems(4) False by simp
    have "{Suc ?s..<Suc ?s + n} \<inter> insert ?s D = {}" using Suc.prems(5) by (auto simp: disjoint_iff)
    then have "\<exists>x b'. set_empties k c n (i + 1) b1 = Inr (x, b') \<and> cqb_rep k c b' (insert ?s D \<union> {Suc ?s..<Suc ?s + n}) \<and> same_block b1 b' \<and>
      (if uses_flags k c then \<not> x \<and> cqb_elementsCompletelyDequeued b' = cqb_elementsCompletelyDequeued b1
       else cqb_emptyFlags b' = cqb_emptyFlags b1 \<and> x = (insert ?s D \<union> {Suc ?s..<Suc ?s + n} = {..<block_size k}))"
      using Suc.IH [OF Suc.prems(1) 1(2), of "i + 1"] False Suc.prems(4) unfolding s by simp
    moreover have "insert ?s D \<union> {Suc ?s..<Suc ?s + n} = D \<union> {?s..<?s + Suc n}" by auto
    ultimately show ?thesis using 1(1) f False by (auto simp: same_block_def split: if_splits)
  qed
qed simp

lemma set_flags_ok:
  "i + n \<le> length fs \<Longrightarrow> \<forall>j \<in> {i..<i + n}. \<not> fs ! j \<Longrightarrow>
    \<exists>fs'. set_flags n i fs = Inr fs' \<and> length fs' = length fs \<and> (\<forall>j < length fs. fs' ! j \<longleftrightarrow> fs ! j \<or> j \<in> {i..<i + n})"
proof (induction n arbitrary: i fs)
  case (Suc n)
  have "\<forall>j \<in> {Suc i..<Suc i + n}. \<not> fs[i := True] ! j" using Suc.prems(2) by (auto simp: nth_list_update)
  from Suc.IH [OF _ this] Suc.prems obtain fs' where f: "set_flags n (Suc i) (fs[i := True]) = Inr fs'" "length fs' = length fs"
    "\<forall>j < length fs. fs' ! j \<longleftrightarrow> fs[i := True] ! j \<or> j \<in> {Suc i..<Suc i + n}" by auto
  moreover have "fs[i := True] ! j \<or> j \<in> {Suc i..<Suc i + n} \<longleftrightarrow> fs ! j \<or> j \<in> {i..<i + Suc n}" if "j < length fs" for j
    using that Suc.prems(1) by (auto simp: nth_list_update)
  ultimately show ?case using Suc.prems by auto
qed simp

lemma set_many_ok:
  assumes k: "traits_ok k" and r: "cqb_rep k c b D" and n: "0 < unat n" "slot_of k i + unat n \<le> block_size k"
    and d: "{slot_of k i..<slot_of k i + unat n} \<inter> D = {}"
  shows "\<exists>x b'. set_many_empty k c i n b = Inr (x, b') \<and> cqb_rep k c b' (D \<union> {slot_of k i..<slot_of k i + unat n}) \<and> same_block b b' \<and>
      (if uses_flags k c then \<not> x \<and> cqb_elementsCompletelyDequeued b' = cqb_elementsCompletelyDequeued b
       else cqb_emptyFlags b' = cqb_emptyFlags b \<and> x = (D \<union> {slot_of k i..<slot_of k i + unat n} = {..<block_size k}))"
proof (cases "uses_flags k c")
  case True
  let ?N = "block_size k" and ?s = "slot_of k i" and ?n = "unat n"
  have len: "length (cqb_emptyFlags b) = ?N" and fl: "\<And>j. j < ?N \<Longrightarrow> cqb_emptyFlags b ! (?N - 1 - j) \<longleftrightarrow> j \<in> D" and sub: "D \<subseteq> {..<?N}"
    using r True by (auto simp: cqb_rep_def)
  let ?w = "tr_BLOCK_SIZE k - 1 - (i AND (tr_BLOCK_SIZE k - 1))"
  have w: "unat ?w = ?N - 1 - ?s" using flag_of_slot [OF k, of i] by (simp add: flag_of_def)
  have "?w - n + 1 = ?w + 1 - n" by (simp add: algebra_simps)
  moreover have w1: "unat (?w + 1) = ?N - ?s"
  proof -
    have "unat ?w + unat (1 :: size_t) < 2 ^ LENGTH(64)" using w unsigned_less [of "tr_BLOCK_SIZE k", where 'a = nat] n by simp
    then show ?thesis using w n unat_add_less [of ?w 1] by simp
  qed
  moreover have "unat (?w + 1 - n) = unat (?w + 1) - ?n" using n w1 by (intro unat_sub) (simp add: word_le_nat_alt)
  ultimately have st: "unat (?w - n + 1) = ?N - ?s - ?n" by (simp only: w1)
  have free: "\<forall>j \<in> {?N - ?s - ?n..<?N - ?s - ?n + ?n}. \<not> cqb_emptyFlags b ! j"
  proof
    fix j assume "j \<in> {?N - ?s - ?n..<?N - ?s - ?n + ?n}"
    then have "?N - 1 - j \<in> {?s..<?s + ?n}" "j < ?N" using n by auto
    then show "\<not> cqb_emptyFlags b ! j" using fl [of "?N - 1 - j"] d by auto
  qed
  obtain fs where fs: "set_flags ?n (?N - ?s - ?n) (cqb_emptyFlags b) = Inr fs" "length fs = ?N"
    "\<forall>j < ?N. fs ! j \<longleftrightarrow> cqb_emptyFlags b ! j \<or> j \<in> {?N - ?s - ?n..<?N - ?s - ?n + ?n}"
    using set_flags_ok [OF _ free] n len by auto
  have "fs ! (?N - 1 - j) \<longleftrightarrow> j \<in> D \<union> {?s..<?s + ?n}" if "j < ?N" for j
    using fs(3) that fl [OF that] n by auto
  moreover have "D \<union> {?s..<?s + ?n} \<subseteq> {..<?N}" using sub n by auto
  ultimately show ?thesis using True st fs by (auto simp: set_many_empty_def cqb_rep_def same_block_def Let_def)
next
  case False
  let ?N = "block_size k" and ?s = "slot_of k i" and ?n = "unat n"
  have c: "unat (cqb_elementsCompletelyDequeued b) = card D" "D \<subseteq> {..<?N}" using r False by (auto simp: cqb_rep_def)
  have fin: "finite D" using c(2) finite_subset by auto
  have sub: "D \<union> {?s..<?s + ?n} \<subseteq> {..<?N}" using c(2) n by auto
  have card: "card (D \<union> {?s..<?s + ?n}) = card D + ?n" using d fin by (subst card_Un_disjoint) auto
  then have le: "card D + ?n \<le> ?N" using card_mono [OF _ sub] by simp
  then have "unat (cqb_elementsCompletelyDequeued b + n) = card D + ?n"
    using c(1) unsigned_less [of "tr_BLOCK_SIZE k", where 'a = nat] unat_add_less [of "cqb_elementsCompletelyDequeued b" n] by simp
  then show ?thesis using False le sub card full_card [OF sub]
    by (auto simp: set_many_empty_def cqb_rep_def same_block_def Let_def word_le_nat_alt unat_inject [symmetric])
qed

lemma cqb_rep_unique:
  assumes "cqb_rep k c b D" "cqb_rep k c b' D" "same_block b b'"
    and "if uses_flags k c then cqb_elementsCompletelyDequeued b' = cqb_elementsCompletelyDequeued b else cqb_emptyFlags b' = cqb_emptyFlags b"
  shows "b = b'"
proof -
  have "cqb_emptyFlags b = cqb_emptyFlags b'" if u: "uses_flags k c"
  proof (rule nth_equalityI)
    show "length (cqb_emptyFlags b) = length (cqb_emptyFlags b')" using assms(1,2) u by (simp add: cqb_rep_def)
    fix j assume "j < length (cqb_emptyFlags b)"
    then have "j < block_size k" using assms(1) u by (simp add: cqb_rep_def)
    moreover have "\<forall>j < block_size k. cqb_emptyFlags b ! (block_size k - 1 - j) = cqb_emptyFlags b' ! (block_size k - 1 - j)"
      using assms(1,2) u by (simp add: cqb_rep_def)
    ultimately show "cqb_emptyFlags b ! j = cqb_emptyFlags b' ! j"
      by (metis (no_types) One_nat_def diff_diff_cancel Suc_pred diff_Suc_less gr_implies_not_zero less_Suc_eq_le not_gr_zero diff_Suc_1 less_imp_le diff_less_Suc)
  qed
  moreover have "cqb_elementsCompletelyDequeued b = cqb_elementsCompletelyDequeued b'" if "\<not> uses_flags k c"
    using assms(1,2) that by (simp add: cqb_rep_def unat_inject [symmetric])
  ultimately show ?thesis using assms(3,4) by (cases "uses_flags k c") (auto simp: same_block_def intro!: cq_block.equality)
qed

text \<open>
  C31. The bookkeeping of a block, in flag and in counter mode alike: starting from a reset block, emptying different
  slots one by one never fails an assertion and the block reports itself empty exactly when all are emptied; and
  \<open>set_many_empty\<close> of a range that stays inside the block does and answers what \<open>set_empty\<close> for each index in turn does.
\<close>
theorem block_emptying:
  assumes k: "traits_ok k" and d: "distinct (map (slot_of k) is)"
    and n: "0 < unat n" "slot_of k i + unat n \<le> block_size k" "{slot_of k i..<slot_of k i + unat n} \<inter> slot_of k ` set is = {}"
  shows "\<exists>b'. cqb.set_each k c is (reset_empty k c b) = Inr b' \<and> is_empty k c b' = Inr (slot_of k ` set is = {..<block_size k}) \<and>
    (\<exists>x b''. set_many_empty k c i n b' = Inr (x, b'') \<and> set_empties k c (unat n) i b' = Inr (x, b''))"
proof -
  let ?D = "slot_of k ` set is"
  obtain b' where b': "cqb.set_each k c is (reset_empty k c b) = Inr b'" "cqb_rep k c b' ?D"
    using cqb.set_each_ok [of k c "reset_empty k c b" "{}" "is"] k d cqb_rep_reset by auto
  obtain x b1 where 1: "set_many_empty k c i n b' = Inr (x, b1)" "cqb_rep k c b1 (?D \<union> {slot_of k i..<slot_of k i + unat n})" "same_block b' b1"
    "if uses_flags k c then \<not> x \<and> cqb_elementsCompletelyDequeued b1 = cqb_elementsCompletelyDequeued b'
     else cqb_emptyFlags b1 = cqb_emptyFlags b' \<and> x = (?D \<union> {slot_of k i..<slot_of k i + unat n} = {..<block_size k})"
    using set_many_ok [OF k b'(2) n] by auto
  obtain y b2 where 2: "set_empties k c (unat n) i b' = Inr (y, b2)" "cqb_rep k c b2 (?D \<union> {slot_of k i..<slot_of k i + unat n})" "same_block b' b2"
    "if uses_flags k c then \<not> y \<and> cqb_elementsCompletelyDequeued b2 = cqb_elementsCompletelyDequeued b'
     else cqb_emptyFlags b2 = cqb_emptyFlags b' \<and> y = (?D \<union> {slot_of k i..<slot_of k i + unat n} = {..<block_size k})"
    using set_empties_ok [OF k b'(2) n] by auto
  have "b1 = b2" by (rule cqb_rep_unique [OF 1(2) 2(2)]) (use 1(3,4) 2(3,4) in \<open>auto simp: same_block_def split: if_splits\<close>)
  moreover have "x = y" using 1(4) 2(4) by (auto split: if_splits)
  ultimately show ?thesis using b' 1(1) 2(1) cqb_empty_iff [OF b'(2)] by auto
qed

definition traits4 :: cq_traits where
  "traits4 = \<lparr>tr_BLOCK_SIZE = 4, tr_EXPLICIT_BLOCK_EMPTY_COUNTER_THRESHOLD = 32, tr_EXPLICIT_INITIAL_INDEX_SIZE = 2,
     tr_MAX_SUBQUEUE_SIZE = - 1, tr_RECYCLE_ALLOCATED_BLOCKS = False, tr_malloc_block = (\<lambda>_. True), tr_malloc_index = (\<lambda>n. n < 2 ^ 58)\<rparr>"

lemma traits4_ok: "traits_ok traits4"
  by (auto simp: traits_ok_def traits4_def intro!: exI [of _ 2])

theorem block_emptying_witness:
  "\<exists>b'. cqb.set_each traits4 explicit_context [7, 4] (reset_empty traits4 explicit_context (cq_Block traits4 :: nat cq_block)) = Inr b' \<and>
     (\<exists>x b''. set_many_empty traits4 explicit_context 5 2 b' = Inr (x, b'') \<and> set_empties traits4 explicit_context 2 5 b' = Inr (x, b''))"
  using block_emptying [OF traits4_ok, of "[7, 4]" 2 5 explicit_context "cq_Block traits4 :: nat cq_block"]
  by (auto simp: slot_of_def traits4_def)

end
