(* ===== verification/CQ_Explicit.thy ===== *)
theory CQ_Explicit
  imports CQ_Block Queue_Interface "HOL-Library.Signed_Division"
begin

text \<open>
  Explicit producers of \<^verbatim>\<open>concurrentqueue/concurrentqueue.h\<close> (\<open>ExplicitProducer\<close>) with the pool their blocks come
  from, as one thread sees them: a ring of blocks that is refilled in order, and a circular index from which a
  consumer finds the block of an element. The definitions follow the code; the proofs are in \<open>CQ_Explicit_Spec\<close>.
\<close>

section \<open>The pool of blocks\<close>

text \<open>The blocks of \<open>initialBlockPool\<close> have the addresses below \<open>initialBlockPoolSize\<close>; the free list is a stack.\<close>

record 'a cq_pool =
  po_heap :: "nat \<rightharpoonup> 'a cq_block"
  po_fresh :: nat
  po_initialBlockPoolIndex :: size_t
  po_initialBlockPoolSize :: size_t
  po_freeList :: "nat list"

definition cq_deref :: "'a cq_pool \<Rightarrow> nat option \<Rightarrow> (nat \<Rightarrow> 'a cq_block \<Rightarrow> 'b result) \<Rightarrow> 'b result" where
  "cq_deref p a f =
     (case a of
        None \<Rightarrow> Inl (UndefinedBehaviour ''nullptr'')
      | Some a \<Rightarrow> (case po_heap p a of None \<Rightarrow> Inl (UndefinedBehaviour ''block'') | Some b \<Rightarrow> f a b))"

definition cq_write :: "nat \<Rightarrow> 'a cq_block \<Rightarrow> 'a cq_pool \<Rightarrow> 'a cq_pool" where
  "cq_write a b p = p\<lparr>po_heap := (po_heap p)(a \<mapsto> b)\<rparr>"

definition populate_initial_block_list :: "cq_traits \<Rightarrow> bool \<Rightarrow> size_t \<Rightarrow> 'a cq_pool" where
  "populate_initial_block_list k arrayAllocated blockCount =
     (let n = (if blockCount = 0 \<or> \<not> arrayAllocated then 0 else blockCount)
      in \<lparr>po_heap = (\<lambda>a. if a < unat n then Some (cq_Block k\<lparr>cqb_dynamicallyAllocated := False\<rparr>) else None), po_fresh = unat n,
          po_initialBlockPoolIndex = 0, po_initialBlockPoolSize = n, po_freeList = []\<rparr>)"

definition try_get_block_from_initial_pool :: "'a cq_pool \<Rightarrow> nat option \<times> 'a cq_pool" where
  "try_get_block_from_initial_pool p =
     (if po_initialBlockPoolIndex p \<ge> po_initialBlockPoolSize p then (None, p)
      else let index = po_initialBlockPoolIndex p; p = p\<lparr>po_initialBlockPoolIndex := index + 1\<rparr>
           in (if index < po_initialBlockPoolSize p then Some (unat index) else None, p))"

definition try_get_block_from_free_list :: "'a cq_pool \<Rightarrow> nat option \<times> 'a cq_pool" where
  "try_get_block_from_free_list p = (case po_freeList p of [] \<Rightarrow> (None, p) | a # as \<Rightarrow> (Some a, p\<lparr>po_freeList := as\<rparr>))"

definition create_block :: "cq_traits \<Rightarrow> 'a cq_pool \<Rightarrow> nat option \<times> 'a cq_pool" where
  "create_block k p =
     (let a = po_fresh p
      in if tr_malloc_block k a then (Some a, cq_write a (cq_Block k) (p\<lparr>po_fresh := Suc a\<rparr>)) else (None, p))"

definition requisition_block :: "cq_traits \<Rightarrow> bool \<Rightarrow> 'a cq_pool \<Rightarrow> nat option \<times> 'a cq_pool" where
  "requisition_block k canAlloc p =
     (case try_get_block_from_initial_pool p of
        (Some a, p) \<Rightarrow> (Some a, p)
      | (None, p) \<Rightarrow>
          (case try_get_block_from_free_list p of
             (Some a, p) \<Rightarrow> (Some a, p)
           | (None, p) \<Rightarrow> if canAlloc then create_block k p else (None, p)))"

definition add_block_to_free_list :: "cq_traits \<Rightarrow> nat \<Rightarrow> 'a cq_pool \<Rightarrow> 'a cq_pool result" where
  "add_block_to_free_list k a p =
     cq_deref p (Some a) (\<lambda>a b.
       if \<not> tr_RECYCLE_ALLOCATED_BLOCKS k \<and> cqb_dynamicallyAllocated b then Inr (p\<lparr>po_heap := (po_heap p)(a := None)\<rparr>)
       else Inr (p\<lparr>po_freeList := a # po_freeList p\<rparr>))"

section \<open>Explicit producers\<close>

text \<open>An index: its entries are the base index and the address of a block.\<close>

record block_index =
  bi_size :: size_t
  bi_front :: size_t
  bi_entries :: "(index_t \<times> nat) option list"

record explicit_producer =
  ep_tailIndex :: index_t
  ep_headIndex :: index_t
  ep_dequeueOptimisticCount :: index_t
  ep_dequeueOvercommit :: index_t
  ep_tailBlock :: "nat option"
  ep_blockIndex :: "block_index option"
  ep_blockIndexSlotsUsed :: size_t
  ep_blockIndexSize :: size_t
  ep_blockIndexFront :: size_t

text \<open>The loop of \<open>new_block_index\<close> that copies the entries in use.\<close>

partial_function (option) copy_index ::
    "size_t \<Rightarrow> size_t \<Rightarrow> (index_t \<times> nat) option list \<Rightarrow> size_t \<Rightarrow> nat \<Rightarrow> (index_t \<times> nat) option list
      \<Rightarrow> (nat \<times> (index_t \<times> nat) option list) option" where
  "copy_index prevMask front old i j new =
     (let new = new[j := old ! unat i]; i = (i + 1) AND prevMask
      in if i = front then Some (Suc j, new) else copy_index prevMask front old i (Suc j) new)"

definition new_block_index :: "cq_traits \<Rightarrow> size_t \<Rightarrow> explicit_producer \<Rightarrow> (bool \<times> explicit_producer) option" where
  "new_block_index k numberOfFilledSlotsToExpose e =
     (let prevMask = ep_blockIndexSize e - 1; newSize = push_bit 1 (ep_blockIndexSize e)
      in if \<not> tr_malloc_index k newSize then Some (False, e\<lparr>ep_blockIndexSize := drop_bit 1 newSize\<rparr>)
         else case (if ep_blockIndexSlotsUsed e \<noteq> 0
                    then copy_index prevMask (ep_blockIndexFront e) (case ep_blockIndex e of None \<Rightarrow> [] | Some bi \<Rightarrow> bi_entries bi)
                           ((ep_blockIndexFront e - ep_blockIndexSlotsUsed e) AND prevMask) 0 (replicate (unat newSize) None)
                    else Some (0, replicate (unat newSize) None)) of
                None \<Rightarrow> None
              | Some (j, entries) \<Rightarrow>
                  Some (True, e\<lparr>ep_blockIndexSize := newSize, ep_blockIndexFront := of_nat j,
                    ep_blockIndex := Some \<lparr>bi_size = newSize, bi_front = numberOfFilledSlotsToExpose - 1, bi_entries = entries\<rparr>\<rparr>))"

definition ExplicitProducer :: "cq_traits \<Rightarrow> 'a cq_pool \<Rightarrow> explicit_producer option" where
  "ExplicitProducer k p =
     (let sz = drop_bit 1 (tr_EXPLICIT_INITIAL_INDEX_SIZE k); poolBasedIndexSize = drop_bit 1 (ceil_to_pow_2 (po_initialBlockPoolSize p));
          e = \<lparr>ep_tailIndex = 0, ep_headIndex = 0, ep_dequeueOptimisticCount = 0, ep_dequeueOvercommit = 0, ep_tailBlock = None,
            ep_blockIndex = None, ep_blockIndexSlotsUsed = 0,
            ep_blockIndexSize = (if poolBasedIndexSize > sz then poolBasedIndexSize else sz), ep_blockIndexFront = 0\<rparr>
      in map_option snd (new_block_index k 0 e))"

subsection \<open>Enqueueing\<close>

type_synonym 'a ep_state = "'a cq_pool \<times> explicit_producer"

text \<open>A new block goes into the ring behind the tail block.\<close>

definition link_block :: "cq_traits \<Rightarrow> nat \<Rightarrow> 'a ep_state \<Rightarrow> 'a ep_state result" where
  "link_block k a = (\<lambda>(p, e).
     cq_deref p (Some a) (\<lambda>a newBlock.
       let newBlock = reset_empty k explicit_context newBlock; e' = e\<lparr>ep_tailBlock := Some a, ep_blockIndexSlotsUsed := ep_blockIndexSlotsUsed e + 1\<rparr>
       in case ep_tailBlock e of
            None \<Rightarrow> Inr (cq_write a (newBlock\<lparr>cqb_next := Some a\<rparr>) p, e')
          | Some t \<Rightarrow>
              cq_deref (cq_write a newBlock p) (Some t) (\<lambda>t tailBlock.
                Inr (cq_write t (tailBlock\<lparr>cqb_next := Some a\<rparr>) (cq_write a (newBlock\<lparr>cqb_next := cqb_next tailBlock\<rparr>) p), e'))))"

definition ep_new_block :: "cq_traits \<Rightarrow> bool \<Rightarrow> 'a ep_state \<Rightarrow> (bool \<times> 'a ep_state) result option" where
  "ep_new_block k canAlloc = (\<lambda>(p, e).
     let head = ep_headIndex e; currentTailIndex = ep_tailIndex e; BS = tr_BLOCK_SIZE k; maxSize = tr_MAX_SUBQUEUE_SIZE k
     in if circular_less_than currentTailIndex head then Some (Inl (AssertFailed ''!circular_less_than(currentTailIndex, head)''))
        else if \<not> circular_less_than head (currentTailIndex + BS) \<or> maxSize \<noteq> - 1 \<and> (maxSize = 0 \<or> maxSize - BS < currentTailIndex - head)
        then Some (Inr (False, p, e))
        else case (if ep_blockIndex e = None \<or> ep_blockIndexSlotsUsed e = ep_blockIndexSize e
                   then if \<not> canAlloc then Some (False, e) else new_block_index k (ep_blockIndexSlotsUsed e) e
                   else Some (True, e)) of
               None \<Rightarrow> None
             | Some (False, e) \<Rightarrow> Some (Inr (False, p, e))
             | Some (True, e) \<Rightarrow>
                 (case requisition_block k canAlloc p of
                    (None, p) \<Rightarrow> Some (Inr (False, p, e))
                  | (Some a, p) \<Rightarrow> Some (map_sum id (Pair True) (link_block k a (p, e)))))"

text \<open>At the end of a block: the next block of the ring when it is empty, otherwise a new one.\<close>

definition ep_next_block :: "cq_traits \<Rightarrow> bool \<Rightarrow> 'a ep_state \<Rightarrow> (bool \<times> 'a ep_state) result option" where
  "ep_next_block k canAlloc = (\<lambda>(p, e).
     case ep_tailBlock e of
       None \<Rightarrow> ep_new_block k canAlloc (p, e)
     | Some t \<Rightarrow>
         (case cq_deref p (Some t) (\<lambda>t tailBlock. cq_deref p (cqb_next tailBlock) (\<lambda>n b. map_sum id (\<lambda>r. (r, n, b)) (is_empty k explicit_context b))) of
            Inl err \<Rightarrow> Some (Inl err)
          | Inr (True, n, b) \<Rightarrow> Some (Inr (True, cq_write n (reset_empty k explicit_context b) p, e\<lparr>ep_tailBlock := Some n\<rparr>))
          | Inr (False, n, b) \<Rightarrow> ep_new_block k canAlloc (p, e)))"

text \<open>The block goes into the index.\<close>

definition ep_index_block :: "explicit_producer \<Rightarrow> explicit_producer result" where
  "ep_index_block e =
     (case (ep_blockIndex e, ep_tailBlock e) of
        (Some bi, Some t) \<Rightarrow>
          if unat (ep_blockIndexFront e) < length (bi_entries bi)
          then Inr (e\<lparr>ep_blockIndex := Some (bi\<lparr>bi_entries := (bi_entries bi)[unat (ep_blockIndexFront e) := Some (ep_tailIndex e, t)],
                 bi_front := ep_blockIndexFront e\<rparr>),
               ep_blockIndexFront := (ep_blockIndexFront e + 1) AND (ep_blockIndexSize e - 1)\<rparr>)
          else Inl (UndefinedBehaviour ''entries'')
      | _ \<Rightarrow> Inl (UndefinedBehaviour ''nullptr''))"

definition ep_place :: "cq_traits \<Rightarrow> 'a \<Rightarrow> 'a ep_state \<Rightarrow> 'a cq_pool result" where
  "ep_place k x = (\<lambda>(p, e). cq_deref p (ep_tailBlock e) (\<lambda>t b. Inr (cq_write t (cqb_construct k x (ep_tailIndex e) b) p)))"

text \<open>
  The element is \<open>None\<close> when its constructor throws, and so is the answer then: the exception goes on to the caller. The
  order of the steps is that of types whose constructor may throw; for the others the index is written before the element.
\<close>

definition ep_enqueue :: "cq_traits \<Rightarrow> bool \<Rightarrow> 'a option \<Rightarrow> 'a ep_state \<Rightarrow> (bool option \<times> 'a ep_state) result option" where
  "ep_enqueue k canAlloc x = (\<lambda>(p, e).
     let newTailIndex = 1 + ep_tailIndex e
     in if ep_tailIndex e AND (tr_BLOCK_SIZE k - 1) = 0
        then let startBlock = ep_tailBlock e; originalBlockIndexSlotsUsed = ep_blockIndexSlotsUsed e
             in case ep_next_block k canAlloc (p, e) of
                  None \<Rightarrow> None
                | Some (Inl err) \<Rightarrow> Some (Inl err)
                | Some (Inr (False, st)) \<Rightarrow> Some (Inr (Some False, st))
                | Some (Inr (True, p, e)) \<Rightarrow> Some
                    (case x of
                       None \<Rightarrow> Inr (None, p, e\<lparr>ep_blockIndexSlotsUsed := originalBlockIndexSlotsUsed,
                                 ep_tailBlock := (if startBlock = None then ep_tailBlock e else startBlock)\<rparr>)
                     | Some v \<Rightarrow>
                         (case ep_place k v (p, e) of
                            Inl err \<Rightarrow> Inl err
                          | Inr p \<Rightarrow> map_sum id (\<lambda>e. (Some True, p, e\<lparr>ep_tailIndex := newTailIndex\<rparr>)) (ep_index_block e)))
        else Some (case x of
               None \<Rightarrow> Inr (None, p, e)
             | Some v \<Rightarrow> map_sum id (\<lambda>p. (Some True, p, e\<lparr>ep_tailIndex := newTailIndex\<rparr>)) (ep_place k v (p, e))))"

subsection \<open>Dequeueing\<close>

text \<open>The block an index lies in, by its distance from the newest block in the index.\<close>

definition find_block :: "cq_traits \<Rightarrow> index_t \<Rightarrow> explicit_producer \<Rightarrow> nat result" where
  "find_block k index e =
     (case ep_blockIndex e of
        None \<Rightarrow> Inl (UndefinedBehaviour ''nullptr'')
      | Some bi \<Rightarrow>
          (case bi_entries bi ! unat (bi_front bi) of
             None \<Rightarrow> Inl (UndefinedBehaviour ''entry'')
           | Some (headBase, _) \<Rightarrow>
               let blockBaseIndex = index AND NOT (tr_BLOCK_SIZE k - 1);
                   offset = word_of_int (sint (blockBaseIndex - headBase) sdiv sint (tr_BLOCK_SIZE k))
               in case bi_entries bi ! unat ((bi_front bi + offset) AND (bi_size bi - 1)) of
                    None \<Rightarrow> Inl (UndefinedBehaviour ''entry'')
                  | Some (_, block) \<Rightarrow> Inr block))"

definition ep_dequeue :: "cq_traits \<Rightarrow> 'a ep_state \<Rightarrow> ('a option \<times> 'a ep_state) result" where
  "ep_dequeue k = (\<lambda>(p, e).
     let tail = ep_tailIndex e; overcommit = ep_dequeueOvercommit e
     in if circular_less_than (ep_dequeueOptimisticCount e - overcommit) tail
        then let myDequeueCount = ep_dequeueOptimisticCount e; e = e\<lparr>ep_dequeueOptimisticCount := myDequeueCount + 1\<rparr>; tail = ep_tailIndex e
             in if circular_less_than (myDequeueCount - overcommit) tail
                then let index = ep_headIndex e; e = e\<lparr>ep_headIndex := index + 1\<rparr>
                     in case find_block k index e of
                          Inl err \<Rightarrow> Inl err
                        | Inr block \<Rightarrow>
                            cq_deref p (Some block) (\<lambda>a b.
                              case cqb_element k index b of
                                Inl err \<Rightarrow> Inl err
                              | Inr el \<Rightarrow>
                                  (case set_empty k explicit_context index (cqb_destroy k index b) of
                                     Inl err \<Rightarrow> Inl err
                                   | Inr (_, b) \<Rightarrow> Inr (Some el, cq_write a b p, e)))
                else Inr (None, p, e\<lparr>ep_dequeueOvercommit := ep_dequeueOvercommit e + 1\<rparr>)
        else Inr (None, p, e))"

definition ep_size_approx :: "explicit_producer \<Rightarrow> size_t" where
  "ep_size_approx e = (if circular_less_than (ep_headIndex e) (ep_tailIndex e) then ep_tailIndex e - ep_headIndex e else 0)"

subsection \<open>Destruction\<close>

text \<open>The search for the block the head lies in.\<close>

partial_function (option) half_dequeued ::
    "cq_traits \<Rightarrow> size_t \<Rightarrow> index_t \<Rightarrow> (index_t \<times> nat) option list \<Rightarrow> size_t \<Rightarrow> (index_t \<times> nat) result option" where
  "half_dequeued k sizeMask head entries i =
     (if unat i < length entries
      then case entries ! unat i of
             None \<Rightarrow> Some (Inl (UndefinedBehaviour ''entry''))
           | Some (base, block) \<Rightarrow>
               if circular_less_than (base + tr_BLOCK_SIZE k) head then half_dequeued k sizeMask head entries ((i + 1) AND sizeMask)
               else Some (Inr (base, block))
      else Some (Inl (UndefinedBehaviour ''entries'')))"

text \<open>The elements of a block from \<open>i\<close> on, up to its end or to the tail index.\<close>

partial_function (option) destroy_items :: "cq_traits \<Rightarrow> size_t option \<Rightarrow> size_t \<Rightarrow> 'a cq_block \<Rightarrow> 'a cq_block result option" where
  "destroy_items k lastValidIndex i b =
     (if i \<noteq> tr_BLOCK_SIZE k \<and> lastValidIndex \<noteq> Some i
      then case cqb_element k i b of
             Inl err \<Rightarrow> Some (Inl err)
           | Inr _ \<Rightarrow> destroy_items k lastValidIndex (i + 1) (cqb_destroy k i b)
      else Some (Inr b))"

definition destroy_block :: "cq_traits \<Rightarrow> explicit_producer \<Rightarrow> nat option \<Rightarrow> nat \<Rightarrow> 'a cq_block \<Rightarrow> 'a cq_block result option" where
  "destroy_block k e halfDequeuedBlock a b =
     (case is_empty k explicit_context b of
        Inl err \<Rightarrow> Some (Inl err)
      | Inr True \<Rightarrow> Some (Inr b)
      | Inr False \<Rightarrow>
          let m = tr_BLOCK_SIZE k - 1;
              i = (if halfDequeuedBlock = Some a then ep_headIndex e AND m else 0);
              lastValidIndex = (if ep_tailIndex e AND m = 0 then tr_BLOCK_SIZE k else ep_tailIndex e AND m)
          in destroy_items k (if ep_tailBlock e = Some a then Some lastValidIndex else None) i b)"

partial_function (option) destroy_ring ::
    "cq_traits \<Rightarrow> explicit_producer \<Rightarrow> nat option \<Rightarrow> nat option \<Rightarrow> 'a cq_pool \<Rightarrow> 'a cq_pool result option" where
  "destroy_ring k e halfDequeuedBlock block p =
     (case cq_deref p block (\<lambda>_ b. cq_deref p (cqb_next b) (\<lambda>a b. Inr (a, b))) of
        Inl err \<Rightarrow> Some (Inl err)
      | Inr (a, b) \<Rightarrow>
          (case destroy_block k e halfDequeuedBlock a b of
             None \<Rightarrow> None
           | Some (Inl err) \<Rightarrow> Some (Inl err)
           | Some (Inr b) \<Rightarrow>
               let p = cq_write a b p
               in if Some a \<noteq> ep_tailBlock e then destroy_ring k e halfDequeuedBlock (Some a) p else Some (Inr p)))"

partial_function (option) free_ring :: "cq_traits \<Rightarrow> nat option \<Rightarrow> nat option \<Rightarrow> 'a cq_pool \<Rightarrow> 'a cq_pool result option" where
  "free_ring k tailBlock block p =
     (case cq_deref p block (\<lambda>a b. map_sum id (Pair (cqb_next b)) (add_block_to_free_list k a p)) of
        Inl err \<Rightarrow> Some (Inl err)
      | Inr (nextBlock, p) \<Rightarrow> if nextBlock \<noteq> tailBlock then free_ring k tailBlock nextBlock p else Some (Inr p))"

definition ep_half :: "cq_traits \<Rightarrow> explicit_producer \<Rightarrow> nat option result option" where
  "ep_half k e =
     (if ep_headIndex e AND (tr_BLOCK_SIZE k - 1) \<noteq> 0
      then case ep_blockIndex e of
             None \<Rightarrow> Some (Inl (UndefinedBehaviour ''nullptr''))
           | Some bi \<Rightarrow>
               (case half_dequeued k (ep_blockIndexSize e - 1) (ep_headIndex e) (bi_entries bi)
                       ((ep_blockIndexFront e - ep_blockIndexSlotsUsed e) AND (ep_blockIndexSize e - 1)) of
                  None \<Rightarrow> None
                | Some (Inl err) \<Rightarrow> Some (Inl err)
                | Some (Inr (base, block)) \<Rightarrow>
                    if circular_less_than base (ep_headIndex e) then Some (Inr (Some block))
                    else Some (Inl (AssertFailed ''circular_less_than(base, headIndex)'')))
      else Some (Inr None))"

definition ep_dtor :: "cq_traits \<Rightarrow> 'a ep_state \<Rightarrow> 'a cq_pool result option" where
  "ep_dtor k = (\<lambda>(p, e).
     if ep_tailBlock e = None then Some (Inr p)
     else case ep_half k e of
            None \<Rightarrow> None
          | Some (Inl err) \<Rightarrow> Some (Inl err)
          | Some (Inr halfDequeuedBlock) \<Rightarrow>
              (case destroy_ring k e halfDequeuedBlock (ep_tailBlock e) p of
                 None \<Rightarrow> None
               | Some (Inl err) \<Rightarrow> Some (Inl err)
               | Some (Inr p) \<Rightarrow> free_ring k (ep_tailBlock e) (ep_tailBlock e) p))"

end
