(* ===== verification/CQ_Bulk.thy ===== *)
theory CQ_Bulk
  imports CQ_Explicit
begin

text \<open>
  The bulk operations of explicit producers (\<open>ExplicitProducer::enqueue_bulk\<close> and \<open>dequeue_bulk\<close> of
  \<^verbatim>\<open>concurrentqueue/concurrentqueue.h\<close>), as one thread sees them.
\<close>

section \<open>Enqueueing many elements\<close>

text \<open>An entry of the index for the tail block; it is published later.\<close>

definition ep_index_entry :: "index_t \<Rightarrow> explicit_producer \<Rightarrow> explicit_producer result" where
  "ep_index_entry base e =
     (case (ep_blockIndex e, ep_tailBlock e) of
        (Some bi, Some t) \<Rightarrow>
          if unat (ep_blockIndexFront e) < length (bi_entries bi)
          then Inr (e\<lparr>ep_blockIndex := Some (bi\<lparr>bi_entries := (bi_entries bi)[unat (ep_blockIndexFront e) := Some (base, t)]\<rparr>),
                 ep_blockIndexFront := (ep_blockIndexFront e + 1) AND (ep_blockIndexSize e - 1)\<rparr>)
          else Inl (UndefinedBehaviour ''entries'')
      | _ \<Rightarrow> Inl (UndefinedBehaviour ''nullptr''))"

definition first_block :: "nat option \<Rightarrow> nat \<Rightarrow> nat option" where
  "first_block firstAllocatedBlock a = (if firstAllocatedBlock = None then Some a else firstAllocatedBlock)"

text \<open>The empty blocks ahead in the ring are taken first.\<close>

definition block_ahead :: "cq_traits \<Rightarrow> nat option \<Rightarrow> 'a ep_state \<Rightarrow> nat option result" where
  "block_ahead k firstAllocatedBlock = (\<lambda>(p, e).
     case ep_tailBlock e of
       None \<Rightarrow> Inr None
     | Some t \<Rightarrow>
         cq_deref p (Some t) (\<lambda>t tailBlock.
           if cqb_next tailBlock = firstAllocatedBlock then Inr None
           else cq_deref p (cqb_next tailBlock) (\<lambda>a b. map_sum id (\<lambda>r. if r then Some a else None) (is_empty k explicit_context b))))"

partial_function (option) bulk_ahead ::
    "cq_traits \<Rightarrow> size_t \<Rightarrow> index_t \<Rightarrow> nat option \<Rightarrow> 'a ep_state \<Rightarrow> (size_t \<times> index_t \<times> nat option \<times> 'a ep_state) result option" where
  "bulk_ahead k blockBaseDiff currentTailIndex firstAllocatedBlock st =
     (if blockBaseDiff > 0
      then case block_ahead k firstAllocatedBlock st of
             Inl err \<Rightarrow> Some (Inl err)
           | Inr None \<Rightarrow> Some (Inr (blockBaseDiff, currentTailIndex, firstAllocatedBlock, st))
           | Inr (Some a) \<Rightarrow>
               (case ep_index_entry (currentTailIndex + tr_BLOCK_SIZE k) (snd st\<lparr>ep_tailBlock := Some a\<rparr>) of
                  Inl err \<Rightarrow> Some (Inl err)
                | Inr e \<Rightarrow> bulk_ahead k (blockBaseDiff - tr_BLOCK_SIZE k) (currentTailIndex + tr_BLOCK_SIZE k) (first_block firstAllocatedBlock a) (fst st, e))
      else Some (Inr (blockBaseDiff, currentTailIndex, firstAllocatedBlock, st)))"

text \<open>A new block behind the tail block, marked as empty.\<close>

definition bulk_link :: "cq_traits \<Rightarrow> nat \<Rightarrow> 'a ep_state \<Rightarrow> 'a ep_state result" where
  "bulk_link k a = (\<lambda>(p, e).
     cq_deref p (Some a) (\<lambda>a newBlock.
       let newBlock = set_all_empty k explicit_context newBlock; e' = e\<lparr>ep_tailBlock := Some a, ep_blockIndexSlotsUsed := ep_blockIndexSlotsUsed e + 1\<rparr>
       in case ep_tailBlock e of
            None \<Rightarrow> Inr (cq_write a (newBlock\<lparr>cqb_next := Some a\<rparr>) p, e')
          | Some t \<Rightarrow>
              cq_deref (cq_write a newBlock p) (Some t) (\<lambda>t tailBlock.
                Inr (cq_write t (tailBlock\<lparr>cqb_next := Some a\<rparr>) (cq_write a (newBlock\<lparr>cqb_next := cqb_next tailBlock\<rparr>) p), e'))))"

text \<open>What is undone when the blocks do not suffice: the blocks stay in the ring.\<close>

record bulk_start =
  bs_startBlock :: "nat option"
  bs_originalBlockIndexFront :: size_t
  bs_originalBlockIndexSlotsUsed :: size_t

definition bulk_undo :: "bulk_start \<Rightarrow> nat option \<Rightarrow> explicit_producer \<Rightarrow> explicit_producer" where
  "bulk_undo s firstAllocatedBlock e =
     e\<lparr>ep_blockIndexFront := bs_originalBlockIndexFront s, ep_blockIndexSlotsUsed := bs_originalBlockIndexSlotsUsed s,
       ep_tailBlock := (if bs_startBlock s = None then firstAllocatedBlock else bs_startBlock s)\<rparr>"

definition bulk_full :: "cq_traits \<Rightarrow> index_t \<Rightarrow> explicit_producer \<Rightarrow> bool" where
  "bulk_full k currentTailIndex e =
     (let head = ep_headIndex e; BS = tr_BLOCK_SIZE k; maxSize = tr_MAX_SUBQUEUE_SIZE k
      in \<not> circular_less_than head (currentTailIndex + BS) \<or> maxSize \<noteq> - 1 \<and> (maxSize = 0 \<or> maxSize - BS < currentTailIndex - head))"

text \<open>Room in the index for one more block: whether there is, the index and what to go back to.\<close>

definition bulk_index_room :: "cq_traits \<Rightarrow> bool \<Rightarrow> index_t \<Rightarrow> bulk_start \<Rightarrow> explicit_producer \<Rightarrow> (bool \<times> bulk_start \<times> explicit_producer) option" where
  "bulk_index_room k canAlloc currentTailIndex s e =
     (let full = bulk_full k currentTailIndex e
      in if ep_blockIndex e = None \<or> ep_blockIndexSlotsUsed e = ep_blockIndexSize e \<or> full
         then if \<not> canAlloc then Some (False, s, e)
              else if full then Some (False, s, e)
              else case new_block_index k (bs_originalBlockIndexSlotsUsed s) e of
                     None \<Rightarrow> None
                   | Some (False, e) \<Rightarrow> Some (False, s, e)
                   | Some (True, e) \<Rightarrow> Some (True, s\<lparr>bs_originalBlockIndexFront := bs_originalBlockIndexSlotsUsed s\<rparr>, e)
         else Some (True, s, e))"

partial_function (option) bulk_new ::
    "cq_traits \<Rightarrow> bool \<Rightarrow> size_t \<Rightarrow> index_t \<Rightarrow> nat option \<Rightarrow> bulk_start \<Rightarrow> 'a ep_state \<Rightarrow> (bool \<times> nat option \<times> bulk_start \<times> 'a ep_state) result option" where
  "bulk_new k canAlloc blockBaseDiff currentTailIndex firstAllocatedBlock s st =
     (if blockBaseDiff > 0
      then let blockBaseDiff = blockBaseDiff - tr_BLOCK_SIZE k; currentTailIndex = currentTailIndex + tr_BLOCK_SIZE k
           in if circular_less_than currentTailIndex (ep_headIndex (snd st)) then Some (Inl (AssertFailed ''!circular_less_than(currentTailIndex, head)''))
              else case bulk_index_room k canAlloc currentTailIndex s (snd st) of
                     None \<Rightarrow> None
                   | Some (room, s, e) \<Rightarrow>
                       if \<not> room then Some (Inr (False, firstAllocatedBlock, s, fst st, bulk_undo s firstAllocatedBlock e))
                       else (case requisition_block k canAlloc (fst st) of
                          (None, p) \<Rightarrow> Some (Inr (False, firstAllocatedBlock, s, p, bulk_undo s firstAllocatedBlock e))
                        | (Some a, p) \<Rightarrow>
                            (case bulk_link k a (p, e) of
                               Inl err \<Rightarrow> Some (Inl err)
                             | Inr (p, e) \<Rightarrow>
                                 (case ep_index_entry currentTailIndex e of
                                    Inl err \<Rightarrow> Some (Inl err)
                                  | Inr e \<Rightarrow> bulk_new k canAlloc blockBaseDiff currentTailIndex (first_block firstAllocatedBlock a) s (p, e))))
      else Some (Inr (True, firstAllocatedBlock, s, st)))"

text \<open>All blocks are there: they are no longer empty.\<close>

partial_function (option) bulk_reset :: "cq_traits \<Rightarrow> nat option \<Rightarrow> nat option \<Rightarrow> 'a cq_pool \<Rightarrow> 'a cq_pool result option" where
  "bulk_reset k tailBlock block p =
     (case cq_deref p block (\<lambda>a b. Inr (a, cqb_next b, cq_write a (reset_empty k explicit_context b) p)) of
        Inl err \<Rightarrow> Some (Inl err)
      | Inr (a, nextBlock, p) \<Rightarrow> if Some a = tailBlock then Some (Inr p) else bulk_reset k tailBlock nextBlock p)"

definition bulk_publish :: "explicit_producer \<Rightarrow> explicit_producer result" where
  "bulk_publish e =
     (case ep_blockIndex e of
        None \<Rightarrow> Inl (UndefinedBehaviour ''nullptr'')
      | Some bi \<Rightarrow> Inr (e\<lparr>ep_blockIndex := Some (bi\<lparr>bi_front := (ep_blockIndexFront e - 1) AND (ep_blockIndexSize e - 1)\<rparr>)\<rparr>))"

text \<open>The allocation of all blocks: whether it succeeded, and the first of them.\<close>

definition bulk_allocate :: "cq_traits \<Rightarrow> bool \<Rightarrow> size_t \<Rightarrow> 'a ep_state \<Rightarrow> (bool \<times> nat option \<times> bulk_start \<times> 'a ep_state) result option" where
  "bulk_allocate k canAlloc count = (\<lambda>(p, e).
     let startTailIndex = ep_tailIndex e; m = NOT (tr_BLOCK_SIZE k - 1);
         s = \<lparr>bs_startBlock = ep_tailBlock e, bs_originalBlockIndexFront = ep_blockIndexFront e, bs_originalBlockIndexSlotsUsed = ep_blockIndexSlotsUsed e\<rparr>;
         blockBaseDiff = ((startTailIndex + count - 1) AND m) - ((startTailIndex - 1) AND m);
         currentTailIndex = (startTailIndex - 1) AND m
     in if blockBaseDiff > 0
        then case bulk_ahead k blockBaseDiff currentTailIndex None (p, e) of
               None \<Rightarrow> None
             | Some (Inl err) \<Rightarrow> Some (Inl err)
             | Some (Inr (blockBaseDiff, currentTailIndex, firstAllocatedBlock, st)) \<Rightarrow>
                 (case bulk_new k canAlloc blockBaseDiff currentTailIndex firstAllocatedBlock s st of
                    None \<Rightarrow> None
                  | Some (Inl err) \<Rightarrow> Some (Inl err)
                  | Some (Inr (False, firstAllocatedBlock, s, st)) \<Rightarrow> Some (Inr (False, firstAllocatedBlock, s, st))
                  | Some (Inr (True, firstAllocatedBlock, s, p, e)) \<Rightarrow>
                      map_option (map_sum id (\<lambda>p. (True, firstAllocatedBlock, s, p, e))) (bulk_reset k (ep_tailBlock e) firstAllocatedBlock p))
        else Some (Inr (True, None, s, p, e)))"

text \<open>The elements up to the end of a block; an element is \<open>None\<close> when its constructor throws, which is the first component of the result.\<close>

fun fill_block :: "cq_traits \<Rightarrow> index_t \<Rightarrow> index_t \<Rightarrow> 'a option list \<Rightarrow> 'a cq_block \<Rightarrow> (bool \<times> index_t \<times> 'a option list \<times> 'a cq_block) result" where
  "fill_block k stopIndex currentTailIndex [] b =
     (if currentTailIndex = stopIndex then Inr (False, currentTailIndex, [], b) else Inl (UndefinedBehaviour ''itemFirst''))"
| "fill_block k stopIndex currentTailIndex (x # items) b =
     (if currentTailIndex = stopIndex then Inr (False, currentTailIndex, x # items, b)
      else case x of
             None \<Rightarrow> Inr (True, currentTailIndex, x # items, b)
           | Some v \<Rightarrow> fill_block k stopIndex (currentTailIndex + 1) items (cqb_construct k v currentTailIndex b))"

definition stop_index :: "cq_traits \<Rightarrow> index_t \<Rightarrow> index_t \<Rightarrow> index_t" where
  "stop_index k currentTailIndex newTailIndex =
     (let stopIndex = (currentTailIndex AND NOT (tr_BLOCK_SIZE k - 1)) + tr_BLOCK_SIZE k
      in if circular_less_than newTailIndex stopIndex then newTailIndex else stopIndex)"

partial_function (option) bulk_fill ::
    "cq_traits \<Rightarrow> nat option \<Rightarrow> index_t \<Rightarrow> index_t \<Rightarrow> 'a option list \<Rightarrow> nat option \<Rightarrow> 'a cq_pool \<Rightarrow> (bool \<times> index_t \<times> nat option \<times> 'a cq_pool) result option" where
  "bulk_fill k endBlock newTailIndex currentTailIndex items tailBlock p =
     (let stopIndex = stop_index k currentTailIndex newTailIndex
      in case (if currentTailIndex = stopIndex then Inr (False, currentTailIndex, items, p)
               else cq_deref p tailBlock (\<lambda>a b. map_sum id (\<lambda>(thrown, cur, items, b). (thrown, cur, items, cq_write a b p)) (fill_block k stopIndex currentTailIndex items b))) of
           Inl err \<Rightarrow> Some (Inl err)
         | Inr (thrown, cur, items, p) \<Rightarrow>
             if thrown then Some (Inr (True, cur, tailBlock, p))
             else if tailBlock = endBlock
             then Some (if cur = newTailIndex then Inr (False, cur, tailBlock, p) else Inl (AssertFailed ''currentTailIndex == newTailIndex''))
             else case cq_deref p tailBlock (\<lambda>_ b. Inr (cqb_next b)) of
                    Inl err \<Rightarrow> Some (Inl err)
                  | Inr next \<Rightarrow> bulk_fill k endBlock newTailIndex cur items next p)"

text \<open>After an exception: the elements constructed so far are destroyed.\<close>

partial_function (option) destroy_range :: "cq_traits \<Rightarrow> index_t \<Rightarrow> index_t \<Rightarrow> 'a cq_block \<Rightarrow> 'a cq_block result option" where
  "destroy_range k stopIndex i b =
     (if i = stopIndex then Some (Inr b)
      else case cqb_element k i b of
             Inl err \<Rightarrow> Some (Inl err)
           | Inr _ \<Rightarrow> destroy_range k stopIndex (i + 1) (cqb_destroy k i b))"

partial_function (option) bulk_destroy ::
    "cq_traits \<Rightarrow> nat option \<Rightarrow> index_t \<Rightarrow> index_t \<Rightarrow> nat option \<Rightarrow> 'a cq_pool \<Rightarrow> 'a cq_pool result option" where
  "bulk_destroy k lastBlockEnqueued constructedStopIndex currentTailIndex block p =
     (let stopIndex = stop_index k currentTailIndex constructedStopIndex
      in case cq_deref p block (\<lambda>a b. Inr (a, b)) of
           Inl err \<Rightarrow> Some (Inl err)
         | Inr (a, b) \<Rightarrow>
             (case destroy_range k stopIndex currentTailIndex b of
                None \<Rightarrow> None
              | Some (Inl err) \<Rightarrow> Some (Inl err)
              | Some (Inr b) \<Rightarrow>
                  let p = cq_write a b p
                  in if Some a = lastBlockEnqueued then Some (Inr p) else bulk_destroy k lastBlockEnqueued constructedStopIndex stopIndex (cqb_next b) p))"

definition ep_enqueue_bulk :: "cq_traits \<Rightarrow> bool \<Rightarrow> 'a option list \<Rightarrow> 'a ep_state \<Rightarrow> (bool option \<times> 'a ep_state) result option" where
  "ep_enqueue_bulk k canAlloc items = (\<lambda>(p, e).
     let startTailIndex = ep_tailIndex e; count = of_nat (length items)
     in case bulk_allocate k canAlloc count (p, e) of
          None \<Rightarrow> None
        | Some (Inl err) \<Rightarrow> Some (Inl err)
        | Some (Inr (False, _, _, st)) \<Rightarrow> Some (Inr (Some False, st))
        | Some (Inr (True, firstAllocatedBlock, s, p, e)) \<Rightarrow>
            let newTailIndex = startTailIndex + count; endBlock = ep_tailBlock e; edge = (startTailIndex AND (tr_BLOCK_SIZE k - 1) = 0);
                firstBlock = (if edge \<and> firstAllocatedBlock \<noteq> None then firstAllocatedBlock else bs_startBlock s)
            in if edge \<and> firstAllocatedBlock = None \<and> count \<noteq> 0 then Some (Inl (AssertFailed ''firstAllocatedBlock != nullptr''))
               else case bulk_fill k endBlock newTailIndex startTailIndex items firstBlock p of
                      None \<Rightarrow> None
                    | Some (Inl err) \<Rightarrow> Some (Inl err)
                    | Some (Inr (True, constructedStopIndex, lastBlockEnqueued, p)) \<Rightarrow>
                        map_option (map_sum id (\<lambda>p. (None, p, bulk_undo s firstAllocatedBlock e)))
                          (bulk_destroy k lastBlockEnqueued constructedStopIndex startTailIndex (if edge then firstAllocatedBlock else bs_startBlock s) p)
                    | Some (Inr (False, _, tailBlock, p)) \<Rightarrow>
                        Some (map_sum id (\<lambda>e. (Some True, p, e\<lparr>ep_tailIndex := newTailIndex\<rparr>))
                          (if firstAllocatedBlock = None then Inr (e\<lparr>ep_tailBlock := tailBlock\<rparr>) else bulk_publish (e\<lparr>ep_tailBlock := tailBlock\<rparr>))))"

section \<open>Dequeueing many elements\<close>

text \<open>The elements of a block from \<open>index\<close> up to \<open>endIndex\<close>, behind those taken before.\<close>

partial_function (option) take_range :: "cq_traits \<Rightarrow> index_t \<Rightarrow> index_t \<Rightarrow> 'a list \<Rightarrow> 'a cq_block \<Rightarrow> ('a list \<times> 'a cq_block) result option" where
  "take_range k endIndex index out b =
     (if index = endIndex then Some (Inr (out, b))
      else case cqb_element k index b of
             Inl err \<Rightarrow> Some (Inl err)
           | Inr el \<Rightarrow> take_range k endIndex (index + 1) (out @ [el]) (cqb_destroy k index b))"

definition take_block :: "cq_traits \<Rightarrow> index_t \<Rightarrow> index_t \<Rightarrow> 'a list \<Rightarrow> nat \<Rightarrow> 'a cq_pool \<Rightarrow> ('a list \<times> 'a cq_pool) result option" where
  "take_block k endIndex index out a p =
     (case po_heap p a of
        None \<Rightarrow> Some (Inl (UndefinedBehaviour ''block''))
      | Some b \<Rightarrow>
          (case take_range k endIndex index out b of
             None \<Rightarrow> None
           | Some (Inl err) \<Rightarrow> Some (Inl err)
           | Some (Inr (out, b)) \<Rightarrow> Some (map_sum id (\<lambda>(_, b). (out, cq_write a b p)) (set_many_empty k explicit_context index (endIndex - index) b))))"

partial_function (option) bulk_take ::
    "cq_traits \<Rightarrow> block_index \<Rightarrow> index_t \<Rightarrow> index_t \<Rightarrow> size_t \<Rightarrow> 'a list \<Rightarrow> 'a cq_pool \<Rightarrow> ('a list \<times> 'a cq_pool) result option" where
  "bulk_take k localBlockIndex lastIndex index indexIndex out p =
     (let endIndex = stop_index k index lastIndex
      in case bi_entries localBlockIndex ! unat indexIndex of
           None \<Rightarrow> Some (Inl (UndefinedBehaviour ''entry''))
         | Some (_, block) \<Rightarrow>
             (case take_block k endIndex index out block p of
                None \<Rightarrow> None
              | Some (Inl err) \<Rightarrow> Some (Inl err)
              | Some (Inr (out, p)) \<Rightarrow>
                  if endIndex = lastIndex then Some (Inr (out, p))
                  else bulk_take k localBlockIndex lastIndex endIndex ((indexIndex + 1) AND (bi_size localBlockIndex - 1)) out p))"

text \<open>The elements from \<open>firstIndex\<close> on, found through the index.\<close>

definition bulk_take_from :: "cq_traits \<Rightarrow> index_t \<Rightarrow> size_t \<Rightarrow> 'a ep_state \<Rightarrow> ('a list \<times> 'a cq_pool) result option" where
  "bulk_take_from k firstIndex actualCount = (\<lambda>(p, e).
     case ep_blockIndex e of
       None \<Rightarrow> Some (Inl (UndefinedBehaviour ''nullptr''))
     | Some bi \<Rightarrow>
         (case bi_entries bi ! unat (bi_front bi) of
            None \<Rightarrow> Some (Inl (UndefinedBehaviour ''entry''))
          | Some (headBase, _) \<Rightarrow>
              let firstBlockBaseIndex = firstIndex AND NOT (tr_BLOCK_SIZE k - 1);
                  offset = word_of_int (sint (firstBlockBaseIndex - headBase) sdiv sint (tr_BLOCK_SIZE k));
                  indexIndex = (bi_front bi + offset) AND (bi_size bi - 1)
              in bulk_take k bi (firstIndex + actualCount) firstIndex indexIndex [] p))"

definition ep_dequeue_bulk :: "cq_traits \<Rightarrow> size_t \<Rightarrow> 'a ep_state \<Rightarrow> ('a list \<times> 'a ep_state) result option" where
  "ep_dequeue_bulk k maxCount = (\<lambda>(p, e).
     let overcommit = ep_dequeueOvercommit e; desiredCount = ep_tailIndex e - (ep_dequeueOptimisticCount e - overcommit)
     in if circular_less_than 0 desiredCount
        then let desiredCount = (if desiredCount < maxCount then desiredCount else maxCount);
                 myDequeueCount = ep_dequeueOptimisticCount e; e = e\<lparr>ep_dequeueOptimisticCount := myDequeueCount + desiredCount\<rparr>;
                 actualCount = ep_tailIndex e - (myDequeueCount - overcommit)
             in if circular_less_than 0 actualCount
                then let actualCount = (if desiredCount < actualCount then desiredCount else actualCount);
                         e = (if actualCount < desiredCount then e\<lparr>ep_dequeueOvercommit := ep_dequeueOvercommit e + (desiredCount - actualCount)\<rparr> else e);
                         firstIndex = ep_headIndex e; e = e\<lparr>ep_headIndex := firstIndex + actualCount\<rparr>
                     in map_option (map_sum id (\<lambda>(out, p). (out, p, e))) (bulk_take_from k firstIndex actualCount (p, e))
                else Some (Inr ([], p, e\<lparr>ep_dequeueOvercommit := ep_dequeueOvercommit e + desiredCount\<rparr>))
        else Some (Inr ([], p, e)))"

end
