(* ===== verification/CQ_Explicit_Spec.thy ===== *)
theory CQ_Explicit_Spec
  imports CQ_Explicit
begin

text \<open>
  Explicit producers as queues. The blocks of the ring are numbered in the order in which they were filled: the
  block with number \<open>n\<close> holds the elements \<open>n * BLOCK_SIZE\<close> onwards, counted from the first element ever enqueued. The index is
  the list of these blocks with their bases. With this reading \<open>enqueue\<close> and \<open>dequeue\<close> work at the two ends of a list.
\<close>

section \<open>Powers of two and circular counters\<close>

lemma and_size_mask:
  fixes w z :: size_t
  assumes "unat z = 2 ^ s" "s < 64" shows "unat (w AND (z - 1)) = unat w mod 2 ^ s"
proof -
  have "z = 2 ^ s" using assms by (intro iffD1 [OF unat_inject]) (simp add: unat_pow2)
  then show ?thesis by (simp add: unsigned_take_bit_eq take_bit_nat_def flip: take_bit_eq_mask mask_eq_exp_minus_1)
qed

lemma minus_mask:
  fixes w z :: size_t
  assumes z: "unat z = 2 ^ s" "s < 64" and d: "d \<le> 2 ^ s" shows "unat ((w - of_nat d) AND (z - 1)) = (unat w + 2 ^ s - d) mod 2 ^ s"
proof -
  let ?S = "2 ^ s :: nat" and ?u = "w - of_nat d"
  have dvd: "?S dvd 2 ^ 64" using z(2) by (intro le_imp_power_dvd) simp
  have "unat (u + of_nat d) mod ?S = (unat u + d) mod ?S" for u :: size_t
    using dvd by (simp add: unat_word_ariths(1) unat_of_nat mod_add_right_eq mod_mod_cancel)
  from this [of ?u] have "(unat w + (?S - d)) mod ?S = (unat ?u + d + (?S - d)) mod ?S" by (intro mod_add_cong) simp_all
  also have "\<dots> = unat ?u mod ?S" using d by simp
  finally show ?thesis using d by (simp add: and_size_mask [OF z])
qed

lemma next_mask:
  fixes w z :: size_t
  assumes z: "unat z = 2 ^ s" "s < 64" and w: "unat w < 2 ^ s" shows "unat ((w + 1) AND (z - 1)) = ring_next (2 ^ s) (unat w)"
proof -
  have "w < z" using z w by (simp add: word_less_nat_alt)
  then have "unat (w + 1) = Suc (unat w)" by (rule unat_plus_one)
  then show ?thesis using w by (auto simp: and_size_mask [OF z] ring_next_def)
qed

lemma circular_nat: "m \<le> n \<Longrightarrow> n < m + 2 ^ 63 \<Longrightarrow> circular_less_than (of_nat m :: index_t) (of_nat n) \<longleftrightarrow> m < n"
  and circular_nat': "m \<le> n \<Longrightarrow> n < m + 2 ^ 63 \<Longrightarrow> \<not> circular_less_than (of_nat n :: index_t) (of_nat m)"
  using circular_less_than_spec [OF refl refl, of m n, where 'a = 64] circular_less_than_spec [OF refl refl, of n m, where 'a = 64] by auto

section \<open>The circular index\<close>

definition index_rep :: "block_index \<Rightarrow> nat \<Rightarrow> (index_t \<times> nat) list \<Rightarrow> bool" where
  "index_rep bi f L \<longleftrightarrow> (let S = length (bi_entries bi) in \<exists>r < S. length L \<le> S \<and> f = ring_at S r (length L) \<and>
     (\<forall>j < length L. bi_entries bi ! ring_at S r j = Some (L ! j)) \<and> (L \<noteq> [] \<longrightarrow> unat (bi_front bi) = ring_at S r (length L - 1)))"

lemma index_drop: "index_rep bi f (x # L) \<Longrightarrow> index_rep bi f L"
proof -
  let ?S = "length (bi_entries bi)"
  assume "index_rep bi f (x # L)"
  then obtain r where r: "r < ?S" "Suc (length L) \<le> ?S" "f = ring_at ?S r (Suc (length L))"
    "\<And>j. j < Suc (length L) \<Longrightarrow> bi_entries bi ! ring_at ?S r j = Some ((x # L) ! j)" "unat (bi_front bi) = ring_at ?S r (length L)"
    by (auto simp: index_rep_def Let_def)
  have n: "ring_at ?S (ring_next ?S r) j = ring_at ?S r (Suc j)" if "j < ?S" for j using r(1) that by (intro ring_at_next) auto
  have "bi_entries bi ! ring_at ?S r (Suc j) = Some (L ! j)" if "j < length L" for j using r(4) [of "Suc j"] that by simp
  moreover have "length L \<noteq> 0 \<Longrightarrow> Suc (length L - 1) = length L" by simp
  ultimately show ?thesis unfolding index_rep_def Let_def using r(1-3,5) n
    by (intro exI [of _ "ring_next ?S r"]) (auto simp: ring_next_less)
qed

lemma index_push:
  assumes "index_rep bi f L" "length L < length (bi_entries bi)" "unat w = f"
  shows "index_rep (bi\<lparr>bi_entries := (bi_entries bi)[f := Some x], bi_front := w\<rparr>) (ring_next (length (bi_entries bi)) f) (L @ [x])"
proof -
  let ?S = "length (bi_entries bi)"
  obtain r where r: "r < ?S" "f = ring_at ?S r (length L)" "\<And>j. j < length L \<Longrightarrow> bi_entries bi ! ring_at ?S r j = Some (L ! j)"
    using assms(1) by (auto simp: index_rep_def Let_def)
  have f: "f < ?S" using r(1,2) assms(2) by (simp add: ring_at_less)
  have ne: "ring_at ?S r j \<noteq> f" if "j < length L" for j using ring_at_inj [OF r(1), of j "length L"] that assms(2) r(2) by auto
  have "ring_next ?S f = ring_at ?S r (Suc (length L))" using r(1,2) assms(2) by (auto simp: ring_next_def ring_at_def split: if_splits)
  moreover have "(bi_entries bi)[f := Some x] ! ring_at ?S r j = Some ((L @ [x]) ! j)" if "j < Suc (length L)" for j
  proof (cases "j < length L")
    case True
    then show ?thesis using r(3) [OF True] ne [OF True] by (simp add: nth_append)
  next
    case False
    then have "j = length L" using that by simp
    then show ?thesis using f r(2) by simp
  qed
  ultimately show ?thesis unfolding index_rep_def Let_def using r(1,2) assms(2,3) by (intro exI [of _ r]) auto
qed

lemma index_start:
  fixes f u z :: size_t
  assumes "index_rep bi (unat f) L" "length (bi_entries bi) = 2 ^ s" "unat z = 2 ^ s" "s < 64" "unat u = length L"
  obtains r where "r < 2 ^ s" "length L \<le> 2 ^ s" "unat f = ring_at (2 ^ s) r (length L)" "unat ((f - u) AND (z - 1)) = ring_at (2 ^ s) r 0"
    "\<And>j. j < length L \<Longrightarrow> bi_entries bi ! ring_at (2 ^ s) r j = Some (L ! j)"
proof -
  obtain r where r: "r < 2 ^ s" "length L \<le> 2 ^ s" "unat f = ring_at (2 ^ s) r (length L)" "\<And>j. j < length L \<Longrightarrow> bi_entries bi ! ring_at (2 ^ s) r j = Some (L ! j)"
    using assms(1,2) by (auto simp: index_rep_def Let_def)
  have "unat ((f - of_nat (length L)) AND (z - 1)) = (ring_at (2 ^ s) r (length L) + 2 ^ s - length L) mod 2 ^ s"
    using assms(3,4) r(2) by (subst minus_mask [OF assms(3)]) (auto simp: r(3))
  also have "\<dots> = ring_at (2 ^ s) r 0" using r(1,2) by (auto simp: ring_at_def)
  finally have "unat ((f - u) AND (z - 1)) = ring_at (2 ^ s) r 0" by (simp flip: assms(5))
  with r show thesis by (intro that) auto
qed

lemma index_nth:
  assumes "index_rep bi f L" "m < length L" "length (bi_entries bi) = 2 ^ s" "s < 64" "unat (bi_size bi) = 2 ^ s"
  shows "unat (bi_front bi) < length (bi_entries bi)" "bi_entries bi ! unat (bi_front bi) = Some (last L)"
    "bi_entries bi ! unat ((bi_front bi + word_of_int (int m - (int (length L) - 1))) AND (bi_size bi - 1)) = Some (L ! m)"
proof -
  let ?S = "2 ^ s :: nat" and ?R = "length L"
  obtain r where r: "r < ?S" "?R \<le> ?S" "\<And>j. j < ?R \<Longrightarrow> bi_entries bi ! ring_at ?S r j = Some (L ! j)" "unat (bi_front bi) = ring_at ?S r (?R - 1)"
    using assms(1-3) by (auto simp: index_rep_def Let_def)
  show "unat (bi_front bi) < length (bi_entries bi)" using r(1,2,4) assms(2,3) ring_at_less [of r ?S "?R - 1"] by auto
  have "L \<noteq> []" using assms(2) by auto
  then show "bi_entries bi ! unat (bi_front bi) = Some (last L)" using r(3) [of "?R - 1"] r(4) assms(2) by (simp add: last_conv_nth)
  let ?d = "?R - 1 - m"
  have "int m - (int ?R - 1) = - int ?d" using assms(2) by simp
  then have off: "(word_of_int (int m - (int ?R - 1)) :: index_t) = - of_nat ?d" by simp
  show "bi_entries bi ! unat ((bi_front bi + word_of_int (int m - (int ?R - 1))) AND (bi_size bi - 1)) = Some (L ! m)"
  proof -
    have "unat ((bi_front bi - of_nat ?d) AND (bi_size bi - 1)) = (ring_at ?S r (?R - 1) + ?S - ?d) mod ?S"
      using r(2,4) by (subst minus_mask [OF assms(5,4)]) auto
    also have "\<dots> = ring_at ?S r m" using r(1,2) assms(2) by (auto simp: ring_at_def mod_if [of _ ?S])
    finally show ?thesis using r(3) [OF assms(2)] off by simp
  qed
qed

text \<open>Copying an index into a larger one puts the entries in use at its beginning.\<close>

lemma copy_index_ok:
  fixes z :: size_t
  assumes z: "unat z = 2 ^ s" "s < 64" and r: "r < 2 ^ s" "R \<le> 2 ^ s" and f: "unat front = ring_at (2 ^ s) r R"
  shows "unat i = ring_at (2 ^ s) r t \<Longrightarrow> t < R \<Longrightarrow> j + (R - t) \<le> length new \<Longrightarrow>
    \<exists>new'. copy_index (z - 1) front old i j new = Some (j + (R - t), new') \<and> length new' = length new \<and>
      (\<forall>m < R - t. new' ! (j + m) = old ! ring_at (2 ^ s) r (t + m)) \<and> (\<forall>m < j. new' ! m = new ! m)"
proof (induction "R - t" arbitrary: t i j new)
  case (Suc n)
  let ?new = "new[j := old ! unat i]" and ?i = "(i + 1) AND (z - 1)"
  have i: "unat i < 2 ^ s" using Suc.prems(1,2) r by (simp add: ring_at_less)
  have i': "unat ?i = ring_at (2 ^ s) r (Suc t)"
    using next_mask [OF z i] Suc.prems(1,2) r by (auto simp: ring_next_def ring_at_def split: if_splits)
  have eq: "?i = front \<longleftrightarrow> Suc t = R"
    using Suc.prems(2) r by (subst unat_inject [symmetric]) (auto simp: i' f ring_at_def split: if_splits)
  show ?case
  proof (cases "Suc t = R")
    case True
    then show ?thesis using eq Suc.prems by (subst copy_index.simps) (auto simp: Let_def)
  next
    case False
    have "n = R - Suc t" "j + (R - t) = Suc j + (R - Suc t)" using Suc.hyps(2) Suc.prems(2) by simp_all
    with Suc.hyps(1) [OF _ i', of "Suc j" ?new] Suc.prems False obtain new'
      where n: "copy_index (z - 1) front old ?i (Suc j) ?new = Some (j + (R - t), new')" "length new' = length new"
        "\<And>m. m < R - Suc t \<Longrightarrow> new' ! (Suc j + m) = old ! ring_at (2 ^ s) r (Suc t + m)" "\<And>m. m < Suc j \<Longrightarrow> new' ! m = ?new ! m" by auto
    have "new' ! (j + m) = old ! ring_at (2 ^ s) r (t + m)" if "m < R - t" for m
      using n(3) [of "m - 1"] n(4) [of j] that Suc.prems by (cases m) auto
    then show ?thesis using n eq False by (subst copy_index.simps) (auto simp: Let_def)
  qed
qed simp

definition index_ok :: "cq_traits \<Rightarrow> explicit_producer \<Rightarrow> (index_t \<times> nat) list \<Rightarrow> bool" where
  "index_ok k e L \<longleftrightarrow> (\<exists>s bi. s < 62 \<and> unat (ep_blockIndexSize e) = 2 ^ s \<and> 2 ^ s * block_size k \<le> 2 ^ 62 \<and> ep_blockIndex e = Some bi \<and>
     bi_size bi = ep_blockIndexSize e \<and> length (bi_entries bi) = 2 ^ s \<and> index_rep bi (unat (ep_blockIndexFront e)) L)"

definition no_index :: "explicit_producer \<Rightarrow> bool" where
  "no_index e \<longleftrightarrow> ep_blockIndex e = None \<and> ep_blockIndexFront e = 0 \<and> (\<exists>s < 63. unat (ep_blockIndexSize e) = 2 ^ s)"

text \<open>An index whose blocks would hold more elements than a quarter of the range of \<open>index_t\<close> cannot be allocated.\<close>

definition malloc_ok :: "cq_traits \<Rightarrow> bool" where
  "malloc_ok k \<longleftrightarrow> (\<forall>n. tr_malloc_index k n \<longrightarrow> unat n * block_size k \<le> 2 ^ 62)"

lemma new_block_index_front_ok:
  assumes k: "traits_ok k" "malloc_ok k" and e: "index_ok k e L \<or> no_index e \<and> L = []" and u: "unat (ep_blockIndexSlotsUsed e) = length L"
  shows "new_block_index k (ep_blockIndexSlotsUsed e) e = Some (False, e) \<and> \<not> tr_malloc_index k (push_bit 1 (ep_blockIndexSize e)) \<or>
    (\<exists>a b c. let e' = e\<lparr>ep_blockIndexSize := a, ep_blockIndexFront := b, ep_blockIndex := c\<rparr>
       in new_block_index k (ep_blockIndexSlotsUsed e) e = Some (True, e') \<and> index_ok k e' L \<and> length L < unat a \<and> unat b = length L)"
proof -
  let ?z = "ep_blockIndexSize e" and ?z2 = "push_bit 1 (ep_blockIndexSize e)" and ?n = "length L"
  obtain s where s: "s < 63" "unat ?z = 2 ^ s" "?n \<le> 2 ^ s"
    using e by (auto simp: index_ok_def no_index_def index_rep_def Let_def)
  have s63: "(2 :: nat) ^ s \<le> 2 ^ 62" using s(1) by (intro power_increasing) auto
  have z2: "unat ?z2 = 2 ^ Suc s" using s(2) s63 by (simp add: push_bit_eq_mult unat_word_ariths)
  have half: "drop_bit 1 ?z2 = ?z" using z2 s(2) by (intro iffD1 [OF unat_inject]) (simp add: drop_bit_eq_div unat_div_distrib)
  show ?thesis
  proof (cases "tr_malloc_index k ?z2")
    case False
    then show ?thesis unfolding new_block_index_def Let_def half by simp
  next
    case True
    have b: "2 ^ Suc s * block_size k \<le> 2 ^ 62" using k(2) True z2 unfolding malloc_ok_def by metis
    have "2 \<le> block_size k" using k(1) by (rule traits_size)
    then have "(2 :: nat) ^ Suc s * 2 \<le> 2 ^ 62" using b by (meson mult_le_mono2 order_trans)
    then have "(2 :: nat) ^ Suc s \<le> 2 ^ 61" by simp
    then have s2: "Suc s < 62" using power_le_imp_le_exp [of "2 :: nat" "Suc s" 61] by simp
    define old where "old = (case ep_blockIndex e of None \<Rightarrow> [] | Some bi \<Rightarrow> bi_entries bi)"
    obtain j new where c: "(if ep_blockIndexSlotsUsed e \<noteq> 0
        then copy_index (?z - 1) (ep_blockIndexFront e) old ((ep_blockIndexFront e - ep_blockIndexSlotsUsed e) AND (?z - 1)) 0 (replicate (unat ?z2) None)
        else Some (0, replicate (unat ?z2) None)) = Some (j, new)" "j = ?n" "length new = 2 ^ Suc s" "\<And>m. m < ?n \<Longrightarrow> new ! m = Some (L ! m)"
    proof (cases "L = []")
      case True
      then show thesis using that u z2 by (auto simp: unat_eq_zero)
    next
      case False
      then obtain bi where bi: "ep_blockIndex e = Some bi" "length (bi_entries bi) = 2 ^ s" "index_rep bi (unat (ep_blockIndexFront e)) L"
        using e s(2) by (auto simp: index_ok_def)
      have s64: "s < 64" using s(1) by simp
      obtain r where r: "r < 2 ^ s" "unat (ep_blockIndexFront e) = ring_at (2 ^ s) r ?n" "\<And>j. j < ?n \<Longrightarrow> old ! ring_at (2 ^ s) r j = Some (L ! j)"
        and i: "unat ((ep_blockIndexFront e - ep_blockIndexSlotsUsed e) AND (?z - 1)) = ring_at (2 ^ s) r 0"
        using index_start [OF bi(3,2) s(2) s64 u] bi(1) unfolding old_def by auto
      from copy_index_ok [OF s(2) _ r(1) s(3) r(2) i, of 0 "replicate (unat ?z2) None" old] False s(1,3) r(3) z2
      obtain new where "copy_index (?z - 1) (ep_blockIndexFront e) old ((ep_blockIndexFront e - ep_blockIndexSlotsUsed e) AND (?z - 1)) 0
        (replicate (unat ?z2) None) = Some (?n, new)" "length new = 2 ^ Suc s" "\<And>m. m < ?n \<Longrightarrow> new ! m = Some (L ! m)" by auto
      then show thesis using False u by (intro that [of ?n new]) auto
    qed
    let ?bi = "\<lparr>bi_size = ?z2, bi_front = ep_blockIndexSlotsUsed e - 1, bi_entries = new\<rparr>"
    have front: "unat (of_nat ?n :: size_t) = ?n" using s(3) s63 by (simp add: unat_of_nat)
    have "L \<noteq> [] \<Longrightarrow> unat (ep_blockIndexSlotsUsed e - 1) = ?n - 1" using u by (subst unat_sub) (auto simp: word_le_nat_alt Suc_leI)
    then have "index_rep ?bi ?n L" unfolding index_rep_def Let_def using c(3,4) s(3) by (intro exI [of _ 0]) (auto simp: ring_at_def)
    then have "index_ok k (e\<lparr>ep_blockIndexSize := ?z2, ep_blockIndexFront := of_nat j, ep_blockIndex := Some ?bi\<rparr>) L"
      unfolding index_ok_def using s2 b c(2,3) z2 front by (intro exI [of _ "Suc s"] exI [of _ ?bi]) auto
    moreover have "new_block_index k (ep_blockIndexSlotsUsed e) e =
        Some (True, e\<lparr>ep_blockIndexSize := ?z2, ep_blockIndexFront := of_nat j, ep_blockIndex := Some ?bi\<rparr>)"
      using True c(1) unfolding new_block_index_def Let_def old_def by simp
    moreover have "?n < unat ?z2"
    proof -
      have "0 < (2 :: nat) ^ s" by simp
      then show ?thesis unfolding z2 power_Suc using s(3) by linarith
    qed
    ultimately show ?thesis unfolding Let_def using c(2) front by (intro disjI2 exI [of _ ?z2] exI [of _ "of_nat j"] exI [of _ "Some ?bi"]) simp
  qed
qed

lemma new_block_index_ok:
  assumes "traits_ok k" "malloc_ok k" "index_ok k e L \<or> no_index e \<and> L = []" "unat (ep_blockIndexSlotsUsed e) = length L"
  shows "new_block_index k (ep_blockIndexSlotsUsed e) e = Some (False, e) \<and> \<not> tr_malloc_index k (push_bit 1 (ep_blockIndexSize e)) \<or>
    (\<exists>a b c. let e' = e\<lparr>ep_blockIndexSize := a, ep_blockIndexFront := b, ep_blockIndex := c\<rparr>
       in new_block_index k (ep_blockIndexSlotsUsed e) e = Some (True, e') \<and> index_ok k e' L \<and> length L < unat a)"
  using new_block_index_front_ok [OF assms] unfolding Let_def by blast

section \<open>The ring of blocks\<close>

fun index_list :: "cq_traits \<Rightarrow> nat \<Rightarrow> nat list \<Rightarrow> (index_t \<times> nat) list" where
  "index_list k n [] = []"
| "index_list k n (a # as) = (of_nat (n * block_size k), a) # index_list k (Suc n) as"

lemma length_index_list [simp]: "length (index_list k n as) = length as"
  by (induction as arbitrary: n) auto

lemma index_list_snoc: "index_list k n (as @ [a]) = index_list k n as @ [(of_nat ((n + length as) * block_size k), a)]"
  by (induction as arbitrary: n) (auto simp: algebra_simps)

lemma index_list_nth: "j < length as \<Longrightarrow> index_list k n as ! j = (of_nat ((n + j) * block_size k), as ! j)"
  by (induction as arbitrary: n j) (auto simp: nth_Cons algebra_simps split: nat.splits)

text \<open>The element with number \<open>m\<close>, when \<open>xs\<close> are the elements from number \<open>H\<close> on.\<close>

definition item :: "'a list \<Rightarrow> nat \<Rightarrow> nat \<Rightarrow> 'a option" where
  "item xs H m = (if H \<le> m \<and> m < H + length xs then Some (xs ! (m - H)) else None)"

lemma item_snoc: "item (xs @ [x]) H m = (if m = H + length xs then Some x else item xs H m)"
  by (auto simp: item_def nth_append)

lemma item_Cons: "item xs (Suc H) m = (if m = H then None else item (x # xs) H m)"
  by (auto simp: item_def nth_Cons' Suc_le_eq)

lemma item_range: "n < H + length xs \<Longrightarrow> item xs H (n + s) \<noteq> None \<longleftrightarrow> H - n \<le> s \<and> s < H + length xs - n"
  by (auto simp: item_def)

definition block_ok :: "cq_traits \<Rightarrow> 'a cq_block \<Rightarrow> nat \<Rightarrow> nat \<Rightarrow> 'a list \<Rightarrow> bool" where
  "block_ok k b n H xs \<longleftrightarrow> length (cqb_elements b) = block_size k \<and> (\<forall>i < block_size k. cqb_elements b ! i = item xs H (n * block_size k + i)) \<and>
     cqb_rep k explicit_context b {i. i < block_size k \<and> n * block_size k + i < H}"

definition ring_ok :: "cq_traits \<Rightarrow> (nat \<rightharpoonup> 'a cq_block) \<Rightarrow> nat list \<Rightarrow> nat \<Rightarrow> nat \<Rightarrow> 'a list \<Rightarrow> bool" where
  "ring_ok k h ring N H xs \<longleftrightarrow> distinct ring \<and>
     (\<forall>j < length ring. \<exists>b. h (ring ! j) = Some b \<and> cqb_next b = Some (ring ! (Suc j mod length ring)) \<and> block_ok k b (N + j) H xs)"

lemma ring_ok_nth:
  assumes "ring_ok k h ring N H xs" "j < length ring"
  obtains b where "h (ring ! j) = Some b" "cqb_next b = Some (ring ! (Suc j mod length ring))" "block_ok k b (N + j) H xs"
  using assms unfolding ring_ok_def by blast

lemma ring_ok_frame: "ring_ok k h ring N H xs \<Longrightarrow> (\<And>a. a \<in> set ring \<Longrightarrow> h' a = h a) \<Longrightarrow> ring_ok k h' ring N H xs"
  by (auto simp: ring_ok_def)

lemma block_ok_next [simp]: "block_ok k (b\<lparr>cqb_next := a\<rparr>) n H xs \<longleftrightarrow> block_ok k b n H xs"
  by (simp add: block_ok_def cqb_rep_def)

lemma reset_empty_next [simp]: "cqb_next (reset_empty k c b) = cqb_next b"
  by (simp add: reset_empty_def)

lemma block_ok_new:
  assumes "cqb_elements b = replicate (block_size k) None" "H + length xs \<le> n * block_size k"
  shows "block_ok k (reset_empty k explicit_context b\<lparr>cqb_next := a\<rparr>) n H xs"
proof -
  have "{i. i < block_size k \<and> n * block_size k + i < H} = {}" using assms(2) by auto
  moreover have "cqb_rep k explicit_context (reset_empty k explicit_context b\<lparr>cqb_next := a\<rparr>) {}" by (auto simp: cqb_rep_def reset_empty_def)
  ultimately show ?thesis using assms by (auto simp: block_ok_def item_def reset_empty_def)
qed

lemma ring_ok_append:
  assumes r: "ring_ok k h ring N H xs" and a: "a \<notin> set ring" "cqb_elements b = replicate (block_size k) None" "ring \<noteq> []"
    and T: "H + length xs \<le> (N + length ring) * block_size k" and t: "h (last ring) = Some tb"
  defines "newBlock \<equiv> reset_empty k explicit_context b\<lparr>cqb_next := cqb_next tb\<rparr>"
  shows "ring_ok k (h(a \<mapsto> newBlock, last ring \<mapsto> tb\<lparr>cqb_next := Some a\<rparr>)) (ring @ [a]) N H xs"
proof -
  let ?R = "length ring" and ?h = "h(a \<mapsto> newBlock, last ring \<mapsto> tb\<lparr>cqb_next := Some a\<rparr>)"
  have R: "0 < ?R" "last ring = ring ! (?R - 1)" using a(3) by (simp_all add: last_conv_nth)
  have d: "distinct ring" using r by (simp add: ring_ok_def)
  have "\<exists>c. ?h ((ring @ [a]) ! j) = Some c \<and> cqb_next c = Some ((ring @ [a]) ! (Suc j mod length (ring @ [a]))) \<and> block_ok k c (N + j) H xs"
    if jR: "j < Suc ?R" for j
  proof -
    consider "j = ?R" | "j = ?R - 1" "j < ?R" | "Suc j < ?R" using jR by linarith
    then show ?thesis
    proof cases
      case 1
      obtain c where "h (ring ! (?R - 1)) = Some c" "cqb_next c = Some (ring ! (Suc (?R - 1) mod ?R))" using ring_ok_nth [OF r, of "?R - 1"] R(1) by auto
      then have "cqb_next tb = Some (ring ! 0)" using R t by simp
      then show ?thesis using 1 R a(1) last_in_set [OF a(3)] block_ok_new [OF a(2) T] by (auto simp: newBlock_def nth_append)
    next
      case 2
      obtain c where "h (ring ! j) = Some c" "block_ok k c (N + j) H xs" using ring_ok_nth [OF r 2(2)] by auto
      moreover have "ring ! j = last ring" "Suc j = ?R" using 2 R by auto
      ultimately show ?thesis using 2(2) t by (auto simp: nth_append)
    next
      case 3
      obtain c where c: "h (ring ! j) = Some c" "cqb_next c = Some (ring ! Suc j)" "block_ok k c (N + j) H xs" using ring_ok_nth [OF r, of j] 3 by auto
      have "ring ! j \<noteq> last ring" using 3 R d by (simp add: nth_eq_iff_index_eq)
      moreover have "ring ! j \<noteq> a" using 3 a(1) by (metis Suc_lessD nth_mem)
      ultimately show ?thesis using c 3 by (auto simp: nth_append)
    qed
  qed
  then show ?thesis using d a(1) by (simp add: ring_ok_def)
qed

lemma ring_ok_reuse:
  assumes r: "ring_ok k h ring N H xs" "ring \<noteq> []" "h (hd ring) = Some b" and e: "is_empty k explicit_context b = Inr True"
    and T: "H + length xs \<le> (N + length ring) * block_size k"
  shows "ring_ok k (h(hd ring \<mapsto> reset_empty k explicit_context b)) (rotate1 ring) (Suc N) H xs" "Suc N * block_size k \<le> H"
proof -
  let ?R = "length ring" and ?B = "block_size k" and ?b = "reset_empty k explicit_context b"
  have R: "0 < ?R" "hd ring = ring ! 0" "distinct ring" using r by (simp_all add: hd_conv_nth ring_ok_def)
  obtain b0: "cqb_next b = Some (ring ! (1 mod ?R))" "block_ok k b N H xs" using ring_ok_nth [OF r(1) R(1)] r(3) R(2) by fastforce
  have all: "{i. i < ?B \<and> N * ?B + i < H} = {..<?B}"
    using e cqb_empty_iff [of k explicit_context b "{i. i < ?B \<and> N * ?B + i < H}"] b0(2) unfolding block_ok_def by simp
  have "N * ?B + i < H" if "i < ?B" for i using all that by (metis (mono_tags, lifting) lessThan_iff mem_Collect_eq)
  from this [of "?B - 1"] have "?B = 0 \<or> N * ?B + (?B - 1) < H" by linarith
  then show H: "Suc N * ?B \<le> H" by auto
  have "cqb_elements b = replicate ?B None" using b0(2) H by (intro nth_equalityI) (auto simp: block_ok_def item_def)
  from block_ok_new [OF this T, of "cqb_next b"] have new: "block_ok k ?b (N + ?R) H xs" by simp
  have "\<exists>c. (h(hd ring \<mapsto> ?b)) (rotate1 ring ! j) = Some c \<and> cqb_next c = Some (rotate1 ring ! (Suc j mod ?R)) \<and> block_ok k c (Suc N + j) H xs"
    if j: "j < ?R" for j
  proof (cases "Suc j = ?R")
    case True
    have "Suc N + j = N + ?R" using True by simp
    then show ?thesis unfolding \<open>Suc N + j = N + ?R\<close> using True new R b0(1) j by (auto simp: nth_rotate1)
  next
    case False
    then have 1: "Suc j < ?R" "ring ! Suc j \<noteq> hd ring" using j R by (auto simp: nth_eq_iff_index_eq)
    obtain c where "h (ring ! Suc j) = Some c" "cqb_next c = Some (ring ! (Suc (Suc j) mod ?R))" "block_ok k c (N + Suc j) H xs" using ring_ok_nth [OF r(1) 1(1)] .
    then show ?thesis using 1 j by (simp add: nth_rotate1)
  qed
  then show "ring_ok k (h(hd ring \<mapsto> ?b)) (rotate1 ring) (Suc N) H xs" using R(3) by (simp add: ring_ok_def)
qed

lemma slot_of_nat: "traits_ok k \<Longrightarrow> slot_of k (of_nat m) = m mod block_size k"
proof -
  assume k: "traits_ok k"
  obtain e where e: "e < 32" "block_size k = 2 ^ e" using k by (rule traits_size)
  have "(2 :: nat) ^ e dvd 2 ^ 64" using e by (intro le_imp_power_dvd) simp
  then show ?thesis using e by (simp add: slot_of_mod [OF k] unat_of_nat mod_mod_cancel)
qed

text \<open>Writing an element into the tail block, and taking one out of the block of the head.\<close>

lemma ring_ok_place:
  assumes k: "traits_ok k" and r: "ring_ok k h ring N H xs" "ring \<noteq> []" "h (last ring) = Some b"
    and T: "(N + length ring - 1) * block_size k \<le> H + length xs" "H + length xs < (N + length ring) * block_size k"
  shows "ring_ok k (h(last ring \<mapsto> cqb_construct k x (of_nat (H + length xs)) b)) ring N H (xs @ [x])"
proof -
  let ?R = "length ring" and ?B = "block_size k" and ?T = "H + length xs" and ?b = "cqb_construct k x (of_nat (H + length xs)) b"
  have R: "0 < ?R" "last ring = ring ! (?R - 1)" "distinct ring" using r by (simp_all add: last_conv_nth ring_ok_def)
  have B: "0 < ?B" using k by (rule traits_size) simp
  have N: "N + ?R - 1 = N + (?R - 1)" "N + ?R = Suc (N + (?R - 1))" using R(1) by linarith+
  have num: "?T div ?B = N + (?R - 1)" using T unfolding N by (intro div_nat_eqI) (simp_all add: mult.commute)
  have "\<exists>c. (h(last ring \<mapsto> ?b)) (ring ! j) = Some c \<and> cqb_next c = Some (ring ! (Suc j mod ?R)) \<and> block_ok k c (N + j) H (xs @ [x])"
    if j: "j < ?R" for j
  proof -
    obtain c where c: "h (ring ! j) = Some c" "cqb_next c = Some (ring ! (Suc j mod ?R))" "block_ok k c (N + j) H xs" using ring_ok_nth [OF r(1) j] .
    have m: "(N + j) * ?B + i = ?T \<longleftrightarrow> j = ?R - 1 \<and> i = ?T mod ?B" if "i < ?B" for i
      using num div_mult_mod_eq [of ?T ?B] that B by (metis add_left_cancel div_mult_self3 div_less add.right_neutral add.commute mod_mult_self3 mod_less less_not_refl2)
    show ?thesis
    proof (cases "j = ?R - 1")
      case True
      then have "c = b" using c(1) r(3) R(2) by simp
      have s: "slot_of k (of_nat ?T) = ?T mod ?B" by (rule slot_of_nat [OF k])
      have "block_ok k ?b (N + j) H (xs @ [x])" using c(3) m True unfolding block_ok_def cqb_construct_def s \<open>c = b\<close>
        by (auto simp: cqb_rep_def item_snoc nth_list_update)
      then show ?thesis using True R(2) c(2) \<open>c = b\<close> by (auto simp: cqb_construct_def)
    next
      case False
      then have "ring ! j \<noteq> last ring" using j R by (auto simp: nth_eq_iff_index_eq)
      then show ?thesis using c False m by (auto simp: block_ok_def item_snoc)
    qed
  qed
  then show ?thesis using R(3) by (simp add: ring_ok_def)
qed

lemma cqb_destroy_simps [simp]:
  "cqb_next (cqb_destroy k i b) = cqb_next b" "cqb_rep k c (cqb_destroy k i b) D = cqb_rep k c b D"
  "cqb_elements (cqb_destroy k i b) = (cqb_elements b)[slot_of k i := None]"
  by (auto simp: cqb_destroy_def cqb_rep_def)

lemma ring_ok_take:
  assumes k: "traits_ok k" and r: "ring_ok k h ring N H (x # xs)" and H: "N * block_size k \<le> H" "H < (N + length ring) * block_size k"
  defines "m \<equiv> H div block_size k - N"
  shows "m < length ring" "H div block_size k = N + m"
    "\<exists>b r' b'. h (ring ! m) = Some b \<and> cqb_element k (of_nat H) b = Inr x \<and>
       set_empty k explicit_context (of_nat H) (cqb_destroy k (of_nat H) b) = Inr (r', b') \<and> ring_ok k (h(ring ! m \<mapsto> b')) ring N (Suc H) xs"
proof -
  let ?R = "length ring" and ?B = "block_size k" and ?i = "of_nat H :: index_t"
  have B: "0 < ?B" using k by (rule traits_size) simp
  have "N \<le> H div ?B" "H div ?B < N + ?R" using H B by (simp_all add: less_eq_div_iff_mult_less_eq div_less_iff_less_mult)
  then show m: "m < ?R" and n: "H div ?B = N + m" unfolding m_def by linarith+
  have d: "distinct ring" using r by (simp add: ring_ok_def)
  have s: "slot_of k ?i = H mod ?B" by (rule slot_of_nat [OF k])
  have pos: "(N + j) * ?B + i = H \<longleftrightarrow> j = m \<and> i = H mod ?B" if "i < ?B" for i j
    using n div_mult_mod_eq [of H ?B] that B by (metis add_left_cancel div_mult_self3 div_less add.right_neutral add.commute mod_mult_self3 mod_less less_not_refl2)
  have modB: "H mod ?B < ?B" using B by simp
  obtain b where b: "h (ring ! m) = Some b" "cqb_next b = Some (ring ! (Suc m mod ?R))" "block_ok k b (N + m) H (x # xs)" using ring_ok_nth [OF r m] .
  have el: "cqb_element k ?i b = Inr x" using b(3) pos [OF modB, of m] modB by (auto simp: cqb_element_def s block_ok_def item_def)
  let ?D = "\<lambda>j H. {i. i < ?B \<and> (N + j) * ?B + i < H}"
  have D: "?D j (Suc H) = (if j = m then insert (H mod ?B) (?D j H) else ?D j H)" for j
    using pos modB by (auto simp: less_Suc_eq)
  have "cqb_rep k explicit_context (cqb_destroy k ?i b) (?D m H)" "slot_of k ?i \<notin> ?D m H" using b(3) pos [OF modB, of m] by (auto simp: block_ok_def s)
  from cqb_set_ok [OF k this] obtain r' b' where b': "set_empty k explicit_context ?i (cqb_destroy k ?i b) = Inr (r', b')"
    "cqb_rep k explicit_context b' (insert (slot_of k ?i) (?D m H))" "cqb_elements b' = (cqb_elements b)[slot_of k ?i := None]" "cqb_next b' = cqb_next b" by auto
  have new: "block_ok k b' (N + m) (Suc H) xs" using b(3) b'(2,3) pos D [of m] modB unfolding block_ok_def s item_Cons [of xs H _ x]
    by (auto simp: nth_list_update)
  have "\<exists>c. (h(ring ! m \<mapsto> b')) (ring ! j) = Some c \<and> cqb_next c = Some (ring ! (Suc j mod ?R)) \<and> block_ok k c (N + j) (Suc H) xs" if j: "j < ?R" for j
  proof (cases "j = m")
    case True
    then show ?thesis using new b(2) b'(4) by simp
  next
    case False
    obtain c where c: "h (ring ! j) = Some c" "cqb_next c = Some (ring ! (Suc j mod ?R))" "block_ok k c (N + j) H (x # xs)" using ring_ok_nth [OF r j] .
    have "block_ok k c (N + j) (Suc H) xs" using c(3) False pos D [of j] unfolding block_ok_def item_Cons [of xs H _ x] by auto
    then show ?thesis using c False d j m by (auto simp: nth_eq_iff_index_eq)
  qed
  then have "ring_ok k (h(ring ! m \<mapsto> b')) ring N (Suc H) xs" using d by (simp add: ring_ok_def)
  then show "\<exists>b r' b'. h (ring ! m) = Some b \<and> cqb_element k ?i b = Inr x \<and> set_empty k explicit_context ?i (cqb_destroy k ?i b) = Inr (r', b') \<and>
      ring_ok k (h(ring ! m \<mapsto> b')) ring N (Suc H) xs"
    using b(1) el b'(1) by blast
qed

section \<open>The pool\<close>

text \<open>\<open>U\<close> are the blocks in use; the others are available and hold no elements.\<close>

definition pool_blocks :: "'a cq_pool \<Rightarrow> nat set" where
  "pool_blocks p = {unat (po_initialBlockPoolIndex p)..<unat (po_initialBlockPoolSize p)} \<union> set (po_freeList p)"

definition pool_ok :: "cq_traits \<Rightarrow> 'a cq_pool \<Rightarrow> nat set \<Rightarrow> bool" where
  "pool_ok k p U \<longleftrightarrow> distinct (po_freeList p) \<and> (\<forall>a \<in> set (po_freeList p). a \<notin> {unat (po_initialBlockPoolIndex p)..<unat (po_initialBlockPoolSize p)}) \<and>
     pool_blocks p \<inter> U = {} \<and> (\<forall>a \<in> pool_blocks p. \<exists>b. po_heap p a = Some b \<and> cqb_elements b = replicate (block_size k) None) \<and>
     dom (po_heap p) = pool_blocks p \<union> U \<and> (\<forall>a \<in> dom (po_heap p). a < po_fresh p)"

lemma requisition_ok:
  assumes p: "pool_ok k p U" and r: "requisition_block k canAlloc p = (r, p')"
  shows "pool_ok k p' (U \<union> set_option r)" "\<And>a. a \<in> dom (po_heap p) \<Longrightarrow> po_heap p' a = po_heap p a"
    "\<And>a. r = Some a \<Longrightarrow> a \<notin> U \<and> (\<exists>b. po_heap p' a = Some b \<and> cqb_elements b = replicate (block_size k) None)"
    "r = None \<Longrightarrow> p' = p \<and> pool_blocks p = {} \<and> (\<not> canAlloc \<or> \<not> tr_malloc_block k (po_fresh p))"
proof -
  let ?i = "po_initialBlockPoolIndex p" and ?s = "po_initialBlockPoolSize p"
  consider (pool) "?i < ?s" "r = Some (unat ?i)" "p' = p\<lparr>po_initialBlockPoolIndex := ?i + 1\<rparr>"
    | (free) a as where "\<not> ?i < ?s" "po_freeList p = a # as" "r = Some a" "p' = p\<lparr>po_freeList := as\<rparr>"
    | (new) "\<not> ?i < ?s" "po_freeList p = []" "canAlloc" "tr_malloc_block k (po_fresh p)" "r = Some (po_fresh p)"
        "p' = cq_write (po_fresh p) (cq_Block k) (p\<lparr>po_fresh := Suc (po_fresh p)\<rparr>)"
    | (none) "\<not> ?i < ?s" "po_freeList p = []" "\<not> canAlloc \<or> \<not> tr_malloc_block k (po_fresh p)" "r = None" "p' = p"
    by (cases "?i < ?s"; cases "po_freeList p"; cases "canAlloc \<and> tr_malloc_block k (po_fresh p)") (use r in \<open>simp add: requisition_block_def
      try_get_block_from_initial_pool_def try_get_block_from_free_list_def create_block_def Let_def not_le [symmetric] split: if_splits\<close>)+
  then have "pool_ok k p' (U \<union> set_option r) \<and> (\<forall>a \<in> dom (po_heap p). po_heap p' a = po_heap p a) \<and>
    (\<forall>a. r = Some a \<longrightarrow> a \<notin> U \<and> (\<exists>b. po_heap p' a = Some b \<and> cqb_elements b = replicate (block_size k) None)) \<and>
    (r = None \<longrightarrow> p' = p \<and> pool_blocks p = {} \<and> (\<not> canAlloc \<or> \<not> tr_malloc_block k (po_fresh p)))"
  proof cases
    case pool
    note i = unat_plus_one [OF pool(1)]
    have lt: "unat ?i < unat ?s" using pool(1) by (simp add: word_less_nat_alt)
    have "pool_blocks p = insert (unat ?i) (pool_blocks p')" "unat ?i \<notin> pool_blocks p'" 
      using p lt by (auto simp: pool_blocks_def pool(3) i pool_ok_def)
    then show ?thesis using p lt unfolding pool_ok_def by (auto simp: pool i)
  next
    case free
    have "pool_blocks p = insert a (pool_blocks p')" "a \<notin> pool_blocks p'" using p free(1,2) by (auto simp: pool_blocks_def free(4) pool_ok_def word_less_nat_alt)
    then show ?thesis using p unfolding pool_ok_def by (auto simp: free)
  next
    case new
    have e: "pool_blocks p = {}" "pool_blocks p' = {}" using new(1,2) by (auto simp: pool_blocks_def new(6) cq_write_def word_less_nat_alt)
    have f: "po_fresh p \<notin> dom (po_heap p)" using p by (auto simp: pool_ok_def)
    then show ?thesis using p e unfolding pool_ok_def by (auto simp: new cq_write_def cq_Block_def intro: less_SucI)
  next
    case none
    then show ?thesis using p by (auto simp: pool_blocks_def word_less_nat_alt)
  qed
  then show "pool_ok k p' (U \<union> set_option r)" "\<And>a. a \<in> dom (po_heap p) \<Longrightarrow> po_heap p' a = po_heap p a"
    "\<And>a. r = Some a \<Longrightarrow> a \<notin> U \<and> (\<exists>b. po_heap p' a = Some b \<and> cqb_elements b = replicate (block_size k) None)"
    "r = None \<Longrightarrow> p' = p \<and> pool_blocks p = {} \<and> (\<not> canAlloc \<or> \<not> tr_malloc_block k (po_fresh p))" by blast+
qed

section \<open>Finding a block\<close>

lemma block_base:
  assumes k: "traits_ok k" shows "(of_nat H :: index_t) AND NOT (tr_BLOCK_SIZE k - 1) = of_nat (H div block_size k * block_size k)"
proof -
  let ?w = "of_nat H :: index_t" and ?m = "tr_BLOCK_SIZE k - 1"
  have "unat (?w AND ?m) = H mod block_size k" using slot_of_nat [OF k, of H] by (simp add: slot_of_def)
  then have "of_nat (unat (?w AND ?m)) = (of_nat (H mod block_size k) :: index_t)" by (simp only:)
  then have "?w AND ?m = of_nat (H mod block_size k)" by simp
  moreover have "(?w AND NOT ?m) + (?w AND ?m) = (?w AND NOT ?m) OR (?w AND ?m)"
    by (intro disjunctive_add_eq_or bit_eqI) (auto simp: bit_simps)
  then have "?w = (?w AND NOT ?m) + (?w AND ?m)" by (auto intro: bit_eqI simp: bit_simps)
  moreover have "?w = of_nat (H div block_size k * block_size k) + of_nat (H mod block_size k)"
    by (metis div_mult_mod_eq of_nat_add)
  ultimately show ?thesis by (metis add_right_cancel)
qed

lemma sdiv_neg: "0 < b \<Longrightarrow> (- int (d * b)) sdiv int b = - int d"
  by (simp only: minus_sdiv_eq) (simp add: signed_divide_int_eq_divide_int)

lemma sint_neg_nat: "d < 2 ^ 63 \<Longrightarrow> sint (- of_nat d :: index_t) = - int d"
proof (cases "d = 0")
  case False
  assume d: "d < 2 ^ 63"
  have "unat (of_nat d :: index_t) = d" using d by (simp add: unat_of_nat)
  then have "unat (- of_nat d :: index_t) = 2 ^ 64 - d" using False unat_sub_words [of 0 "of_nat d :: index_t"] by simp
  then show ?thesis using d False unfolding sint_unat by (simp add: of_nat_diff)
qed simp

lemma block_offset:
  assumes k: "traits_ok k" and d: "m \<le> n" "(n - m) * block_size k < 2 ^ 63"
  shows "sint (of_nat (m * block_size k) - of_nat (n * block_size k) :: index_t) sdiv sint (tr_BLOCK_SIZE k) = int m - int n"
proof -
  let ?B = "block_size k" and ?d = "(n - m) * block_size k"
  have B: "0 < ?B" "?B < 2 ^ 32" using k by (rule traits_size, simp)+
  have "(of_nat (m * ?B) - of_nat (n * ?B) :: index_t) = - of_nat ?d" using d(1) by (simp add: of_nat_diff algebra_simps)
  moreover have "sint (- of_nat ?d :: index_t) = - int ?d" by (rule sint_neg_nat [OF d(2)])
  moreover have "sint (tr_BLOCK_SIZE k) = int ?B" using B(2) by (simp add: sint_unat)
  ultimately show ?thesis using sdiv_neg [OF B(1), of "n - m"] d(1) by (simp add: of_nat_diff)
qed

lemma find_block_ok:
  assumes k: "traits_ok k" and e: "index_ok k e (index_list k N ring)" and m: "m < length ring" "H div block_size k = N + m"
  shows "find_block k (of_nat H) e = Inr (ring ! m)"
proof -
  let ?L = "index_list k N ring" and ?B = "block_size k" and ?R = "length ring"
  obtain s bi where i: "s < 62" "unat (ep_blockIndexSize e) = 2 ^ s" "2 ^ s * ?B \<le> 2 ^ 62" "ep_blockIndex e = Some bi"
    "bi_size bi = ep_blockIndexSize e" "length (bi_entries bi) = 2 ^ s" "index_rep bi (unat (ep_blockIndexFront e)) ?L"
    using e unfolding index_ok_def by blast
  have "?R \<le> 2 ^ s" using i(6,7) by (auto simp: index_rep_def Let_def)
  then have "?R * ?B \<le> 2 ^ 62" using i(3) by (meson mult_le_mono1 order_trans)
  moreover have "(?R - 1 - m) * ?B \<le> ?R * ?B" by (intro mult_le_mono1) simp
  ultimately have "(?R - 1 - m) * ?B \<le> 2 ^ 62" by (rule order_trans [rotated])
  then have lt: "((N + (?R - 1)) - (N + m)) * ?B < 2 ^ 63" by (auto dest: le_less_trans)
  have last: "last ?L = (of_nat ((N + (?R - 1)) * ?B), last ring)"
    using m(1) by (cases ring rule: rev_cases) (simp_all add: index_list_snoc)
  have off: "sint (of_nat ((N + m) * ?B) - of_nat ((N + (?R - 1)) * ?B) :: index_t) sdiv sint (tr_BLOCK_SIZE k) = int m - (int ?R - 1)"
    using m(1) by (subst block_offset [OF k _ lt]) auto
  have nth: "m < length ?L" "unat (bi_size bi) = 2 ^ s" using m(1) i(2,5) by simp_all
  have s64: "s < 64" using i(1) by simp
  note nths = index_nth [OF i(7) nth(1) i(6) s64 nth(2)]
  show ?thesis unfolding find_block_def Let_def i(4) option.case block_base [OF k] m(2) nths(2) last prod.case off
    using nths(3) index_list_nth [OF m(1), of k N] by simp
qed

section \<open>The invariant\<close>

text \<open>
  \<open>F\<close> are blocks that belong to others, \<open>ring\<close> the blocks of the producer from the oldest to the tail block, \<open>N\<close> the number of the oldest,
  \<open>H\<close> the number of elements ever dequeued and \<open>xs\<close> the elements inside.
\<close>

definition ep_inv :: "cq_traits \<Rightarrow> nat set \<Rightarrow> 'a ep_state \<Rightarrow> nat list \<Rightarrow> nat \<Rightarrow> nat \<Rightarrow> 'a list \<Rightarrow> bool" where
  "ep_inv k F = (\<lambda>(p, e) ring N H xs.
     ring_ok k (po_heap p) ring N H xs \<and> N * block_size k \<le> H \<and> H + length xs \<le> (N + length ring) * block_size k \<and>
     (ring \<noteq> [] \<longrightarrow> (N + length ring - 1) * block_size k < H + length xs) \<and> length ring * block_size k \<le> unat (tr_MAX_SUBQUEUE_SIZE k) \<and>
     pool_ok k p (set ring \<union> F) \<and> set ring \<inter> F = {} \<and>
     ep_headIndex e = of_nat H \<and> ep_tailIndex e = of_nat (H + length xs) \<and> ep_dequeueOptimisticCount e - ep_dequeueOvercommit e = ep_headIndex e \<and>
     ep_tailBlock e = (if ring = [] then None else Some (last ring)) \<and> unat (ep_blockIndexSlotsUsed e) = length ring \<and>
     (index_ok k e (index_list k N ring) \<or> ring = [] \<and> no_index e))"

text \<open>The effect of an operation on the blocks of others: none.\<close>

definition same_on :: "nat set \<Rightarrow> 'a cq_pool \<Rightarrow> 'a cq_pool \<Rightarrow> bool" where
  "same_on F p p' \<longleftrightarrow> (\<forall>a \<in> F. po_heap p' a = po_heap p a)"

lemma index_ok_size: "index_ok k e L \<Longrightarrow> length L * block_size k \<le> 2 ^ 62"
proof -
  assume "index_ok k e L"
  then obtain s where "length L \<le> 2 ^ s" "2 ^ s * block_size k \<le> 2 ^ 62" by (auto simp: index_ok_def index_rep_def Let_def)
  then show ?thesis by (meson mult_le_mono1 order_trans)
qed

lemma ep_inv_size: "ep_inv k F st ring N H xs \<Longrightarrow> length xs \<le> 2 ^ 62"
proof (cases st)
  case (Pair p e)
  assume "ep_inv k F st ring N H xs"
  then have i: "N * block_size k \<le> H" "H + length xs \<le> (N + length ring) * block_size k" "length ring * block_size k \<le> 2 ^ 62"
    by (auto simp: ep_inv_def Pair dest: index_ok_size)
  then show ?thesis unfolding add_mult_distrib by linarith
qed

lemma pool_ok_write:
  assumes "pool_ok k p U" "a \<in> U" shows "pool_ok k (cq_write a b p) U"
proof -
  have "pool_blocks (cq_write a b p) = pool_blocks p" by (simp add: pool_blocks_def cq_write_def)
  moreover have "a \<notin> pool_blocks p" using assms by (auto simp: pool_ok_def)
  moreover have "a < po_fresh p" using assms by (auto simp: pool_ok_def)
  ultimately show ?thesis using assms unfolding pool_ok_def by (auto simp: cq_write_def)
qed

lemma index_ok_cong:
  "ep_blockIndexSize e' = ep_blockIndexSize e \<Longrightarrow> ep_blockIndex e' = ep_blockIndex e \<Longrightarrow> ep_blockIndexFront e' = ep_blockIndexFront e \<Longrightarrow>
    index_ok k e' L = index_ok k e L"
  by (simp add: index_ok_def)

lemma no_index_cong:
  "ep_blockIndexSize e' = ep_blockIndexSize e \<Longrightarrow> ep_blockIndex e' = ep_blockIndex e \<Longrightarrow> ep_blockIndexFront e' = ep_blockIndexFront e \<Longrightarrow>
    no_index e' = no_index e"
  by (simp add: no_index_def)

section \<open>Dequeueing\<close>

lemma ep_dequeue_empty: "ep_inv k F (p, e) ring N H [] \<Longrightarrow> ep_dequeue k (p, e) = Inr (None, p, e)"
  using circular_nat [of H H] by (simp add: ep_inv_def ep_dequeue_def Let_def)

lemma ep_dequeue_ok:
  assumes k: "traits_ok k" and i: "ep_inv k F (p, e) ring N H (x # xs)"
  shows "\<exists>p' e'. ep_dequeue k (p, e) = Inr (Some x, p', e') \<and> ep_inv k F (p', e') ring N (Suc H) xs \<and> same_on F p p'"
proof -
  have len: "length (x # xs) \<le> 2 ^ 62" using ep_inv_size [OF i] .
  note I = i [unfolded ep_inv_def prod.case]
  have r: "ring_ok k (po_heap p) ring N H (x # xs)" "N * block_size k \<le> H" "H < (N + length ring) * block_size k" using I by auto
  then have "ring \<noteq> []" by auto
  then have ix: "index_ok k e (index_list k N ring)" using I by auto
  define m where "m = H div block_size k - N"
  note take = ring_ok_take [OF k r, folded m_def]
  obtain b r' b' where b: "po_heap p (ring ! m) = Some b" "cqb_element k (of_nat H) b = Inr x"
    "set_empty k explicit_context (of_nat H) (cqb_destroy k (of_nat H) b) = Inr (r', b')"
    "ring_ok k ((po_heap p)(ring ! m \<mapsto> b')) ring N (Suc H) xs" using take(3) by blast
  define e' where "e' = e\<lparr>ep_dequeueOptimisticCount := ep_dequeueOptimisticCount e + 1, ep_headIndex := ep_headIndex e + 1\<rparr>"
  have "index_ok k e' L = index_ok k e L" for L by (rule index_ok_cong) (simp_all add: e'_def)
  then have f: "find_block k (of_nat H) e' = Inr (ring ! m)" using find_block_ok [OF k _ take(1,2)] ix by blast
  have c: "circular_less_than (ep_headIndex e) (ep_tailIndex e)" using circular_nat [of H "H + length (x # xs)"] len I by simp
  have "ep_dequeue k (p, e) = Inr (Some x, cq_write (ring ! m) b' p, e')"
    using c f b I unfolding ep_dequeue_def Let_def e'_def by (simp add: cq_deref_def)
  moreover have "ep_inv k F (cq_write (ring ! m) b' p, e') ring N (Suc H) xs"
  proof -
    have "pool_ok k (cq_write (ring ! m) b' p) (set ring \<union> F)" using I take(1) by (intro pool_ok_write) auto
    moreover have "index_ok k e' (index_list k N ring)" using ix \<open>\<And>L. index_ok k e' L = index_ok k e L\<close> by simp
    ultimately show ?thesis using I b(4) unfolding ep_inv_def by (auto simp: e'_def cq_write_def algebra_simps)
  qed
  moreover have "same_on F p (cq_write (ring ! m) b' p)" using I nth_mem [OF take(1)] by (auto simp: same_on_def cq_write_def)
  ultimately show ?thesis by blast
qed

section \<open>Enqueueing\<close>

text \<open>After a block has been started and before it is in the index.\<close>

definition ep_started :: "cq_traits \<Rightarrow> nat set \<Rightarrow> 'a ep_state \<Rightarrow> nat list \<Rightarrow> nat \<Rightarrow> nat \<Rightarrow> 'a list \<Rightarrow> bool" where
  "ep_started k F = (\<lambda>(p, e) ring N H xs.
     ring \<noteq> [] \<and> ring_ok k (po_heap p) ring N H xs \<and> N * block_size k \<le> H \<and> H + length xs = (N + length ring - 1) * block_size k \<and>
     length ring * block_size k \<le> unat (tr_MAX_SUBQUEUE_SIZE k) \<and> pool_ok k p (set ring \<union> F) \<and> set ring \<inter> F = {} \<and>
     ep_headIndex e = of_nat H \<and> ep_tailIndex e = of_nat (H + length xs) \<and> ep_dequeueOptimisticCount e - ep_dequeueOvercommit e = ep_headIndex e \<and>
     ep_tailBlock e = Some (last ring) \<and> unat (ep_blockIndexSlotsUsed e) = length ring \<and>
     index_ok k e (index_list k N (butlast ring)) \<and> length ring \<le> unat (ep_blockIndexSize e))"

definition limit_ok :: "cq_traits \<Rightarrow> bool" where
  "limit_ok k \<longleftrightarrow> tr_MAX_SUBQUEUE_SIZE k = - 1 \<or> block_size k dvd unat (tr_MAX_SUBQUEUE_SIZE k)"

lemma ep_index_block_ok:
  assumes "index_ok k e L" "length L < unat (ep_blockIndexSize e)" "ep_tailBlock e = Some t"
  shows "\<exists>c f. ep_index_block e = Inr (e\<lparr>ep_blockIndex := c, ep_blockIndexFront := f\<rparr>) \<and>
    index_ok k (e\<lparr>ep_blockIndex := c, ep_blockIndexFront := f\<rparr>) (L @ [(ep_tailIndex e, t)])"
proof -
  obtain s bi where i: "s < 62" "unat (ep_blockIndexSize e) = 2 ^ s" "2 ^ s * block_size k \<le> 2 ^ 62" "ep_blockIndex e = Some bi"
    "bi_size bi = ep_blockIndexSize e" "length (bi_entries bi) = 2 ^ s" "index_rep bi (unat (ep_blockIndexFront e)) L"
    using assms(1) unfolding index_ok_def by blast
  let ?f = "ep_blockIndexFront e" and ?x = "(ep_tailIndex e, t)"
  let ?bi = "bi\<lparr>bi_entries := (bi_entries bi)[unat ?f := Some ?x], bi_front := ?f\<rparr>" and ?f' = "(?f + 1) AND (ep_blockIndexSize e - 1)"
  have f: "unat ?f < 2 ^ s" using i(6,7) assms(2) i(2) by (auto simp: index_rep_def Let_def ring_at_less)
  have nf: "unat ?f' = ring_next (2 ^ s) (unat ?f)" using i(1,2) f by (intro next_mask) auto
  have "index_rep ?bi (unat ?f') (L @ [?x])" using index_push [OF i(7) _ refl, of ?x] assms(2) i(2,6) nf by simp
  then have "index_ok k (e\<lparr>ep_blockIndex := Some ?bi, ep_blockIndexFront := ?f'\<rparr>) (L @ [?x])"
    unfolding index_ok_def using i by (intro exI [of _ s] exI [of _ ?bi]) simp
  then show ?thesis using i(4,6) f assms(3) by (intro exI [of _ "Some ?bi"] exI [of _ ?f']) (simp add: ep_index_block_def)
qed

lemma ep_place_ok:
  assumes k: "traits_ok k" and s: "ep_started k F (p, e) ring N H xs"
  shows "\<exists>p' e'. ep_place k x (p, e) = Inr p' \<and> ep_index_block e = Inr e' \<and>
    ep_inv k F (p', e'\<lparr>ep_tailIndex := 1 + ep_tailIndex e\<rparr>) ring N H (xs @ [x]) \<and> same_on F p p'"
proof -
  note S = s [unfolded ep_started_def prod.case]
  let ?B = "block_size k" and ?R = "length ring"
  have B: "0 < ?B" using k by (rule traits_size) simp
  have ne: "ring \<noteq> []" and ro: "ring_ok k (po_heap p) ring N H xs" using S by blast+
  obtain M where M: "N + ?R = Suc M" using ne by (cases ring) simp_all
  have eq: "H + length xs = (N + ?R - 1) * ?B" using S by blast
  have T: "(N + ?R - 1) * ?B \<le> H + length xs" "H + length xs < (N + ?R) * ?B" unfolding eq M using B by simp_all
  have tl: "ep_tailIndex e = of_nat (H + length xs)" using S by blast
  obtain b where b: "po_heap p (last ring) = Some b" using ring_ok_nth [OF ro, of "?R - 1"] ne by (auto simp: last_conv_nth)
  define p' where "p' = cq_write (last ring) (cqb_construct k x (ep_tailIndex e) b) p"
  have pl: "ep_place k x (p, e) = Inr p'" using S b by (simp add: ep_place_def cq_deref_def p'_def)
  have ro': "ring_ok k (po_heap p') ring N H (xs @ [x])" 
    using ring_ok_place [OF k ro ne b T, of x] unfolding p'_def cq_write_def tl by simp
  have "length (index_list k N (butlast ring)) < unat (ep_blockIndexSize e)" using S by (cases ring) auto
  then obtain c f where e': "ep_index_block e = Inr (e\<lparr>ep_blockIndex := c, ep_blockIndexFront := f\<rparr>)"
    "index_ok k (e\<lparr>ep_blockIndex := c, ep_blockIndexFront := f\<rparr>) (index_list k N (butlast ring) @ [(ep_tailIndex e, last ring)])"
    using ep_index_block_ok [of k e "index_list k N (butlast ring)" "last ring"] S by blast
  have "index_list k N ring = index_list k N (butlast ring @ [last ring])" using ne by simp
  also have "\<dots> = index_list k N (butlast ring) @ [(ep_tailIndex e, last ring)]" using ne unfolding index_list_snoc tl eq by (cases ring) auto
  finally have ix: "index_ok k (e\<lparr>ep_blockIndex := c, ep_blockIndexFront := f, ep_tailIndex := t\<rparr>) (index_list k N ring)" for t
    using e'(2) index_ok_cong [of "e\<lparr>ep_blockIndex := c, ep_blockIndexFront := f, ep_tailIndex := t\<rparr>" "e\<lparr>ep_blockIndex := c, ep_blockIndexFront := f\<rparr>" k] by simp
  have G: "N * ?B \<le> H" "?R * ?B \<le> unat (tr_MAX_SUBQUEUE_SIZE k)" "set ring \<inter> F = {}" "ep_headIndex e = of_nat H" "ep_tailBlock e = Some (last ring)"
    "ep_dequeueOptimisticCount e - ep_dequeueOvercommit e = ep_headIndex e" "unat (ep_blockIndexSlotsUsed e) = ?R" using S by blast+
  have bd: "H + length (xs @ [x]) \<le> (N + ?R) * ?B" "(N + ?R - 1) * ?B < H + length (xs @ [x])" "1 + ep_tailIndex e = of_nat (H + length (xs @ [x]))"
    using T tl by simp_all
  have "last ring \<in> set ring \<union> F" using ne by simp
  then have "pool_ok k p' (set ring \<union> F)" unfolding p'_def using S by (intro pool_ok_write) blast+
  then have "ep_inv k F (p', e\<lparr>ep_blockIndex := c, ep_blockIndexFront := f, ep_tailIndex := 1 + ep_tailIndex e\<rparr>) ring N H (xs @ [x])"
    unfolding ep_inv_def prod.case using ne ro' ix bd G by simp
  moreover have "last ring \<notin> F" using G(3) last_in_set [OF ne] by blast
  then have "same_on F p p'" by (simp add: same_on_def p'_def cq_write_def)
  ultimately show ?thesis using pl e'(1) by auto
qed

text \<open>A new block behind the tail block.\<close>

lemma link_block_ok:
  assumes k: "traits_ok k" and r: "ring_ok k (po_heap p) ring N H xs" and p: "pool_ok k p (set ring \<union> F \<union> {a})" "a \<notin> set ring \<union> F" "set ring \<inter> F = {}"
    and b: "po_heap p a = Some b" "cqb_elements b = replicate (block_size k) None"
    and T: "H + length xs \<le> (N + length ring) * block_size k" and t: "ep_tailBlock e = (if ring = [] then None else Some (last ring))"
  shows "\<exists>p'. link_block k a (p, e) = Inr (p', e\<lparr>ep_tailBlock := Some a, ep_blockIndexSlotsUsed := ep_blockIndexSlotsUsed e + 1\<rparr>) \<and>
    ring_ok k (po_heap p') (ring @ [a]) N H xs \<and> pool_ok k p' (set (ring @ [a]) \<union> F) \<and> same_on F p p'"
proof (cases "ring = []")
  case True
  define p' where "p' = cq_write a (reset_empty k explicit_context b\<lparr>cqb_next := Some a\<rparr>) p"
  have "block_ok k (reset_empty k explicit_context b\<lparr>cqb_next := Some a\<rparr>) N H xs" using block_ok_new [OF b(2)] T True by simp
  then have "ring_ok k (po_heap p') (ring @ [a]) N H xs" using True by (simp add: ring_ok_def p'_def cq_write_def)
  moreover have "pool_ok k p' (set (ring @ [a]) \<union> F)" unfolding p'_def using p(1) True by (intro pool_ok_write) (simp_all add: Un_commute)
  ultimately show ?thesis using True t b(1) p(2) by (intro exI [of _ p']) (simp add: link_block_def cq_deref_def p'_def same_on_def cq_write_def)
next
  case False
  obtain tb where tb: "po_heap p (last ring) = Some tb" using ring_ok_nth [OF r, of "length ring - 1"] False by (auto simp: last_conv_nth)
  define p' where "p' = cq_write (last ring) (tb\<lparr>cqb_next := Some a\<rparr>) (cq_write a (reset_empty k explicit_context b\<lparr>cqb_next := cqb_next tb\<rparr>) p)"
  have l: "last ring \<in> set ring" using False by simp
  then have ne: "last ring \<noteq> a" "last ring \<notin> F" using p(2,3) by auto
  have "ring_ok k (po_heap p') (ring @ [a]) N H xs"
    using ring_ok_append [OF r _ b(2) False T tb, of a] p(2) by (simp add: p'_def cq_write_def)
  moreover have "pool_ok k p' (set ring \<union> F \<union> {a})" unfolding p'_def using p(1) l by (intro pool_ok_write) auto
  then have "pool_ok k p' (set (ring @ [a]) \<union> F)" by (simp add: Un_commute)
  ultimately show ?thesis using False t b(1) p(2) tb ne
    by (intro exI [of _ p']) (auto simp: link_block_def cq_deref_def p'_def same_on_def cq_write_def Let_def)
qed

lemma limit_step:
  fixes B l R mx :: nat
  assumes "B dvd mx" "l + B \<le> mx" "R = 0 \<or> (R - 1) * B < l" shows "(R + 1) * B \<le> mx"
proof -
  obtain q where q: "mx = B * q" using assms(1) by auto
  have "R * B < mx \<or> R = 0"
  proof (cases R)
    case (Suc n)
    then show ?thesis using assms(2,3) by simp
  qed simp
  then have "R < q \<or> R = 0" using q by (auto simp: mult.commute)
  then have "R + 1 \<le> q \<or> R = 0" by auto
  then show ?thesis using q assms(2) by (cases q) (auto simp: mult.commute [of B])
qed

text \<open>Why \<open>enqueue\<close> refuses: the limit of the sub-queue, or no memory.\<close>

definition ep_refuses :: "cq_traits \<Rightarrow> bool \<Rightarrow> 'a ep_state \<Rightarrow> nat \<Rightarrow> bool" where
  "ep_refuses k canAlloc = (\<lambda>(p, e) n. unat (tr_MAX_SUBQUEUE_SIZE k) < n + block_size k \<or>
     (\<not> canAlloc \<or> \<not> tr_malloc_index k (push_bit 1 (ep_blockIndexSize e)) \<or> \<not> tr_malloc_block k (po_fresh p)))"

lemma ep_new_block_guard:
  assumes k: "traits_ok k" "limit_ok k" and i: "ep_inv k F (p, e) ring N H xs"
    and H: "H + length xs = (N + length ring) * block_size k" "ring \<noteq> [] \<Longrightarrow> H < Suc N * block_size k"
  defines "BS \<equiv> tr_BLOCK_SIZE k" and "mx \<equiv> tr_MAX_SUBQUEUE_SIZE k"
  shows "\<not> circular_less_than (ep_tailIndex e) (ep_headIndex e)" "circular_less_than (ep_headIndex e) (ep_tailIndex e + BS)"
    "mx \<noteq> - 1 \<and> (mx = 0 \<or> mx - BS < ep_tailIndex e - ep_headIndex e) \<Longrightarrow> unat mx < length xs + block_size k"
    "\<not> (mx \<noteq> - 1 \<and> (mx = 0 \<or> mx - BS < ep_tailIndex e - ep_headIndex e)) \<Longrightarrow> (length ring + 1) * block_size k \<le> unat mx"
proof -
  let ?B = "block_size k" and ?R = "length ring" and ?T = "H + length xs"
  have B: "0 < ?B" "?B < 2 ^ 32" using k(1) by (rule traits_size, simp)+
  have len: "length xs \<le> 2 ^ 62" by (rule ep_inv_size [OF i])
  have tl: "ep_tailIndex e = of_nat ?T" "ep_headIndex e = of_nat H" using i by (auto simp: ep_inv_def)
  show "\<not> circular_less_than (ep_tailIndex e) (ep_headIndex e)" unfolding tl using len by (intro circular_nat') simp_all
  have "ep_tailIndex e + BS = of_nat (?T + ?B)" by (simp add: tl BS_def)
  then show "circular_less_than (ep_headIndex e) (ep_tailIndex e + BS)" using circular_nat [of H "?T + ?B"] len B tl(2) by simp
  have "ep_tailIndex e - ep_headIndex e = of_nat (length xs)" by (simp add: tl)
  then have diff: "unat (ep_tailIndex e - ep_headIndex e) = length xs" using len by (simp add: unat_of_nat)
  have dvd: "?B dvd unat mx" if "mx \<noteq> - 1" using k(2) that by (auto simp: limit_ok_def mx_def)
  have sub: "unat (mx - BS) = unat mx - ?B \<and> ?B \<le> unat mx" if "mx \<noteq> - 1" "mx \<noteq> 0"
  proof -
    have "?B \<le> unat mx" using dvd [OF that(1)] that(2) by (intro dvd_imp_le) (simp_all add: unat_gt_0)
    then show ?thesis by (simp add: unat_sub BS_def word_le_nat_alt)
  qed
  show "unat mx < length xs + ?B" if "mx \<noteq> - 1 \<and> (mx = 0 \<or> mx - BS < ep_tailIndex e - ep_headIndex e)"
    using that sub diff B(1) by (cases "mx = 0") (auto simp: word_less_nat_alt)
  show "(?R + 1) * ?B \<le> unat mx" if g: "\<not> (mx \<noteq> - 1 \<and> (mx = 0 \<or> mx - BS < ep_tailIndex e - ep_headIndex e))"
  proof (cases "mx = - 1")
    case True
    have "?R * ?B \<le> 2 ^ 62" using i index_ok_size [of k e "index_list k N ring"] by (auto simp: ep_inv_def)
    then show ?thesis using B(2) True by (simp add: unsigned_minus_1_eq_mask mask_eq_exp_minus_1)
  next
    case False
    have "length xs + ?B \<le> unat mx" using g sub diff False by (auto simp: word_less_nat_alt)
    moreover have "?R = 0 \<or> (?R - 1) * ?B < length xs" using H by (cases ring) (auto simp: add_mult_distrib)
    ultimately show ?thesis by (rule limit_step [OF dvd [OF False]])
  qed
qed

lemma ep_new_block_ok:
  assumes k: "traits_ok k" "limit_ok k" "malloc_ok k" and i: "ep_inv k F (p, e) ring N H xs"
    and H: "H + length xs = (N + length ring) * block_size k" "ring \<noteq> [] \<Longrightarrow> H < Suc N * block_size k"
  shows "\<exists>b p' e'. ep_new_block k canAlloc (p, e) = Some (Inr (b, p', e')) \<and> same_on F p p' \<and>
    (if b then \<exists>ring'. ep_started k F (p', e') ring' N H xs else ep_inv k F (p', e') ring N H xs \<and> ep_refuses k canAlloc (p, e) (length xs))"
proof -
  let ?B = "block_size k" and ?R = "length ring" and ?mx = "tr_MAX_SUBQUEUE_SIZE k" and ?L = "index_list k N ring"
  note I = i [unfolded ep_inv_def prod.case]
  note g = ep_new_block_guard [OF k(1,2) i H]
  show ?thesis
  proof (cases "?mx \<noteq> - 1 \<and> (?mx = 0 \<or> ?mx - tr_BLOCK_SIZE k < ep_tailIndex e - ep_headIndex e)")
    case True
    then show ?thesis using g(1-3) i by (intro exI [of _ False]) (simp add: ep_new_block_def Let_def same_on_def ep_refuses_def)
  next
    case False
    define ix where "ix = (if ep_blockIndex e = None \<or> ep_blockIndexSlotsUsed e = ep_blockIndexSize e
      then if \<not> canAlloc then Some (False, e) else new_block_index k (ep_blockIndexSlotsUsed e) e else Some (True, e))"
    have "ix = Some (False, e) \<and> (\<not> canAlloc \<or> \<not> tr_malloc_index k (push_bit 1 (ep_blockIndexSize e))) \<or>
      (\<exists>a b c. let e' = e\<lparr>ep_blockIndexSize := a, ep_blockIndexFront := b, ep_blockIndex := c\<rparr> in ix = Some (True, e') \<and> index_ok k e' ?L \<and> ?R < unat a)"
    proof (cases "ep_blockIndex e = None \<or> ep_blockIndexSlotsUsed e = ep_blockIndexSize e")
      case True
      have "index_ok k e ?L \<or> no_index e \<and> ?L = []" "unat (ep_blockIndexSlotsUsed e) = length ?L" using I by auto
      from new_block_index_ok [OF k(1,3) this] True show ?thesis by (auto simp: ix_def)
    next
      case False
      then have "index_ok k e ?L" using I by (auto simp: no_index_def)
      moreover from this have "?R < unat (ep_blockIndexSize e)" using False I by (auto simp: index_ok_def index_rep_def Let_def unat_inject [symmetric])
      moreover have "ix = Some (True, e)" using False by (auto simp: ix_def)
      ultimately have "let e' = e\<lparr>ep_blockIndexSize := ep_blockIndexSize e, ep_blockIndexFront := ep_blockIndexFront e, ep_blockIndex := ep_blockIndex e\<rparr>
        in ix = Some (True, e') \<and> index_ok k e' ?L \<and> ?R < unat (ep_blockIndexSize e)" by simp
      then show ?thesis by blast
    qed
    then consider (full) "ix = Some (False, e)" "\<not> canAlloc \<or> \<not> tr_malloc_index k (push_bit 1 (ep_blockIndexSize e))"
      | (room) a b c e1 where "e1 = e\<lparr>ep_blockIndexSize := a, ep_blockIndexFront := b, ep_blockIndex := c\<rparr>" "ix = Some (True, e1)" "index_ok k e1 ?L" "?R < unat a"
      unfolding Let_def by blast
    then show ?thesis
    proof cases
      case full
      have "ep_new_block k canAlloc (p, e) = Some (Inr (False, p, e))" using g(1,2) False full(1) unfolding ix_def ep_new_block_def Let_def by simp
      moreover have "ep_refuses k canAlloc (p, e) (length xs)" using full(2) by (auto simp: ep_refuses_def)
      ultimately show ?thesis using i by (intro exI [of _ False]) (simp add: same_on_def)
    next
      case room
      obtain r p1 where rq: "requisition_block k canAlloc p = (r, p1)" by (cases "requisition_block k canAlloc p")
      have po: "pool_ok k p (set ring \<union> F)" using I by blast
      note q = requisition_ok [OF po rq]
      show ?thesis
      proof (cases r)
        case None
        have "ep_inv k F (p, e1) ring N H xs" unfolding ep_inv_def prod.case using I room(1,3) by simp
        moreover have "ep_new_block k canAlloc (p, e) = Some (Inr (False, p, e1))"
          using g(1,2) False room(2) rq q(4) None unfolding ix_def ep_new_block_def Let_def by auto
        ultimately show ?thesis using q(4) None by (auto simp: same_on_def ep_refuses_def)
      next
        case (Some a')
        obtain b0 where b0: "a' \<notin> set ring \<union> F" "po_heap p1 a' = Some b0" "cqb_elements b0 = replicate ?B None" using q(3) [OF Some] by blast
        have sub: "set ring \<subseteq> dom (po_heap p)" "F \<subseteq> dom (po_heap p)" using po by (auto simp: pool_ok_def)
        have "ring_ok k (po_heap p) ring N H xs" "set ring \<inter> F = {}" using I by blast+
        moreover have "ring_ok k (po_heap p1) ring N H xs" by (rule ring_ok_frame [OF calculation(1)]) (use q(2) sub(1) in blast)
        moreover have "pool_ok k p1 (set ring \<union> F \<union> {a'})" using q(1) Some by simp
        moreover have "ep_tailBlock e1 = (if ring = [] then None else Some (last ring))" using I room(1) by simp
        moreover have "H + length xs \<le> (N + ?R) * ?B" using H(1) by simp
        ultimately obtain p2 where p2: "link_block k a' (p1, e1) = Inr (p2, e1\<lparr>ep_tailBlock := Some a', ep_blockIndexSlotsUsed := ep_blockIndexSlotsUsed e1 + 1\<rparr>)"
          "ring_ok k (po_heap p2) (ring @ [a']) N H xs" "pool_ok k p2 (set (ring @ [a']) \<union> F)" "same_on F p1 p2"
          using link_block_ok [OF k(1) _ _ b0(1) _ b0(2,3)] by blast
        define e2 where "e2 = e1\<lparr>ep_tailBlock := Some a', ep_blockIndexSlotsUsed := ep_blockIndexSlotsUsed e1 + 1\<rparr>"
        have "index_ok k e2 ?L" using room(3) index_ok_cong [of e2 e1 k] by (simp add: e2_def)
        moreover have "unat (ep_blockIndexSlotsUsed e2) = Suc ?R"
          using I room(1,4) unat_plus_one [of "ep_blockIndexSlotsUsed e" a] by (simp add: e2_def word_less_nat_alt)
        moreover have "?R * ?B + ?B \<le> unat ?mx" using g(4) [OF _ False] by simp
        ultimately have "ep_started k F (p2, e2) (ring @ [a']) N H xs"
          unfolding ep_started_def prod.case using I p2(2,3) b0(1) room(1,4) H(1) by (simp add: e2_def add.commute)
        moreover have "ep_new_block k canAlloc (p, e) = Some (Inr (True, p2, e2))"
          using g(1,2) False room(2) rq Some p2(1) unfolding ix_def ep_new_block_def Let_def e2_def by auto
        moreover have "same_on F p p2" using p2(4) q(2) sub(2) unfolding same_on_def by (metis subsetD)
        ultimately show ?thesis by (intro exI [of _ True] exI [of _ p2] exI [of _ e2]) auto
      qed
    qed
  qed
qed

lemma ep_next_block_ok:
  assumes k: "traits_ok k" "limit_ok k" "malloc_ok k" and i: "ep_inv k F (p, e) ring N H xs" and T: "H + length xs = (N + length ring) * block_size k"
  shows "\<exists>b p' e'. ep_next_block k canAlloc (p, e) = Some (Inr (b, p', e')) \<and> same_on F p p' \<and>
    (if b then \<exists>ring' N'. ep_started k F (p', e') ring' N' H xs else ep_inv k F (p', e') ring N H xs \<and> ep_refuses k canAlloc (p, e) (length xs))"
proof (cases "ring = []")
  case True
  then have "ep_tailBlock e = None" using i by (simp add: ep_inv_def)
  then show ?thesis using ep_new_block_ok [OF k i T, of canAlloc] True unfolding ep_next_block_def by fastforce
next
  case False
  let ?R = "length ring" and ?B = "block_size k"
  note I = i [unfolded ep_inv_def prod.case]
  have r: "ring_ok k (po_heap p) ring N H xs" using I by blast
  obtain t where t: "po_heap p (last ring) = Some t" "cqb_next t = Some (hd ring)"
    using ring_ok_nth [OF r, of "?R - 1"] False by (auto simp: last_conv_nth hd_conv_nth)
  obtain b where b: "po_heap p (hd ring) = Some b" "block_ok k b N H xs" using ring_ok_nth [OF r, of 0] False by (auto simp: hd_conv_nth)
  have em: "is_empty k explicit_context b = Inr ({i. i < ?B \<and> N * ?B + i < H} = {..<?B})" using b(2) by (intro cqb_empty_iff) (simp add: block_ok_def)
  have tb: "ep_tailBlock e = Some (last ring)" using I False by simp
  show ?thesis
  proof (cases "{i. i < ?B \<and> N * ?B + i < H} = {..<?B}")
    case True
    then have ie: "is_empty k explicit_context b = Inr True" using em by simp
    define p' where "p' = cq_write (hd ring) (reset_empty k explicit_context b) p"
    define e' where "e' = e\<lparr>ep_tailBlock := Some (hd ring)\<rparr>"
    have nb: "ep_next_block k canAlloc (p, e) = Some (Inr (True, p', e'))" using tb t b(1) ie by (simp add: ep_next_block_def cq_deref_def p'_def e'_def)
    have hd: "hd ring \<in> set ring" using False by simp
    have ro: "ring_ok k (po_heap p') (rotate1 ring) (Suc N) H xs" "Suc N * ?B \<le> H"
      using ring_ok_reuse [OF r False b(1) ie] T by (simp_all add: p'_def cq_write_def)
    have po: "pool_ok k p' (set (rotate1 ring) \<union> F)" unfolding p'_def set_rotate1 using I hd by (intro pool_ok_write) auto
    obtain a as where a: "ring = a # as" using False by (cases ring) auto
    have ix: "index_ok k e (index_list k N ring)" using I False by auto
    then have "index_ok k e' (index_list k (Suc N) as)" using a index_drop unfolding index_ok_def e'_def by fastforce
    moreover have "?R \<le> unat (ep_blockIndexSize e')" using ix by (auto simp: index_ok_def index_rep_def Let_def e'_def)
    ultimately have "ep_started k F (p', e') (rotate1 ring) (Suc N) H xs"
      unfolding ep_started_def prod.case using I ro po T a by (simp add: e'_def)
    moreover have "same_on F p p'" using I hd by (auto simp: same_on_def p'_def cq_write_def)
    ultimately show ?thesis using nb by (intro exI [of _ True] exI [of _ p'] exI [of _ e']) auto
  next
    case no: False
    then obtain i where "i < ?B" "H \<le> N * ?B + i" by fastforce
    then have "H < Suc N * ?B" by simp
    then obtain b' p' e' where n: "ep_new_block k canAlloc (p, e) = Some (Inr (b', p', e'))" "same_on F p p'"
      "if b' then \<exists>ring'. ep_started k F (p', e') ring' N H xs else ep_inv k F (p', e') ring N H xs \<and> ep_refuses k canAlloc (p, e) (length xs)"
      using ep_new_block_ok [OF k i T] by blast
    have "ep_next_block k canAlloc (p, e) = ep_new_block k canAlloc (p, e)" using tb t b(1) em no by (simp add: ep_next_block_def cq_deref_def)
    then show ?thesis using n by (intro exI [of _ b'] exI [of _ p'] exI [of _ e']) (auto split: if_splits)
  qed
qed

lemma ep_enqueue_ok:
  assumes k: "traits_ok k" "limit_ok k" "malloc_ok k" and i: "ep_inv k F (p, e) ring N H xs"
  shows "\<exists>b p' e' ring' N'. ep_enqueue k canAlloc (Some x) (p, e) = Some (Inr (Some b, p', e')) \<and> same_on F p p' \<and>
    ep_inv k F (p', e') ring' N' H (if b then xs @ [x] else xs) \<and> (\<not> b \<longrightarrow> ep_refuses k canAlloc (p, e) (length xs))"
proof -
  let ?R = "length ring" and ?B = "block_size k" and ?T = "H + length xs"
  note I = i [unfolded ep_inv_def prod.case]
  have B: "0 < ?B" using k(1) by (rule traits_size) simp
  have tl: "ep_tailIndex e = of_nat ?T" using I by blast
  have "unat (ep_tailIndex e AND (tr_BLOCK_SIZE k - 1)) = ?T mod ?B" using slot_of_nat [OF k(1), of ?T] unfolding tl slot_of_def .
  then have edge: "ep_tailIndex e AND (tr_BLOCK_SIZE k - 1) = 0 \<longleftrightarrow> ?T mod ?B = 0" by (simp add: unat_eq_zero [symmetric])
  have bd: "?T \<le> (N + ?R) * ?B" "ring \<noteq> [] \<Longrightarrow> (N + ?R - 1) * ?B < ?T" "N * ?B \<le> H" using I by blast+
  have full: "?T mod ?B = 0 \<longleftrightarrow> ?T = (N + ?R) * ?B"
  proof (cases ring)
    case (Cons a as)
    then have c: "(N + length as) * ?B < ?T" "?T \<le> Suc (N + length as) * ?B" using bd by simp_all
    show ?thesis
    proof
      assume "?T mod ?B = 0"
      then obtain q where q: "?T = q * ?B" by (metis dvd_def mod_eq_0_iff_dvd mult.commute)
      then have "q = Suc (N + length as)" using c B unfolding q mult_less_cancel2 mult_le_cancel2 by linarith
      then show "?T = (N + ?R) * ?B" using q Cons by simp
    qed simp
  next
    case Nil
    then have "H = N * ?B" "?T = N * ?B" using bd by simp_all
    then show ?thesis using Nil by simp
  qed
  show ?thesis
  proof (cases "?T = (N + ?R) * ?B")
    case True
    obtain b p1 e1 where n: "ep_next_block k canAlloc (p, e) = Some (Inr (b, p1, e1))" "same_on F p p1"
      "if b then \<exists>ring' N'. ep_started k F (p1, e1) ring' N' H xs else ep_inv k F (p1, e1) ring N H xs \<and> ep_refuses k canAlloc (p, e) (length xs)"
      using ep_next_block_ok [OF k i True] by blast
    show ?thesis
    proof (cases b)
      case False
      then show ?thesis using n True edge full by (auto simp: ep_enqueue_def)
    next
      case b: True
      then obtain ring' N' where s: "ep_started k F (p1, e1) ring' N' H xs" using n(3) by auto
      obtain p2 e2 where p2: "ep_place k x (p1, e1) = Inr p2" "ep_index_block e1 = Inr e2"
        "ep_inv k F (p2, e2\<lparr>ep_tailIndex := 1 + ep_tailIndex e1\<rparr>) ring' N' H (xs @ [x])" "same_on F p1 p2" using ep_place_ok [OF k(1) s] by blast
      have "ep_tailIndex e1 = ep_tailIndex e" using s unfolding ep_started_def prod.case tl by blast
      then have "ep_enqueue k canAlloc (Some x) (p, e) = Some (Inr (Some True, p2, e2\<lparr>ep_tailIndex := 1 + ep_tailIndex e1\<rparr>))"
        using n(1) b edge full True p2(1,2) by (simp add: ep_enqueue_def Let_def)
      moreover have "same_on F p p2" using n(2) p2(4) by (simp add: same_on_def)
      ultimately show ?thesis using p2(3) by fastforce
    qed
  next
    case False
    then have lt: "?T < (N + ?R) * ?B" using bd(1) by simp
    then have ne: "ring \<noteq> []" using bd(3) by (cases ring) auto
    have ro: "ring_ok k (po_heap p) ring N H xs" using I by blast
    obtain b where b: "po_heap p (last ring) = Some b" using ring_ok_nth [OF ro, of "?R - 1"] ne by (auto simp: last_conv_nth)
    define p' where "p' = cq_write (last ring) (cqb_construct k x (ep_tailIndex e) b) p"
    have "ring_ok k (po_heap p') ring N H (xs @ [x])"
      using ring_ok_place [OF k(1) ro ne b less_imp_le [OF bd(2) [OF ne]] lt, of x] unfolding p'_def cq_write_def tl by simp
    moreover have "pool_ok k p' (set ring \<union> F)" unfolding p'_def using I ne by (intro pool_ok_write) auto
    moreover have "index_ok k (e\<lparr>ep_tailIndex := t\<rparr>) L = index_ok k e L" for t L by (rule index_ok_cong) simp_all
    ultimately have "ep_inv k F (p', e\<lparr>ep_tailIndex := 1 + ep_tailIndex e\<rparr>) ring N H (xs @ [x])"
      unfolding ep_inv_def prod.case using I ne lt by (simp add: tl)
    moreover have "ep_enqueue k canAlloc (Some x) (p, e) = Some (Inr (Some True, p', e\<lparr>ep_tailIndex := 1 + ep_tailIndex e\<rparr>))"
      using edge full False I ne b by (simp add: ep_enqueue_def Let_def ep_place_def cq_deref_def p'_def)
    moreover have "last ring \<notin> F" using I last_in_set [OF ne] by blast
    then have "same_on F p p'" by (simp add: same_on_def p'_def cq_write_def)
    ultimately show ?thesis by (intro exI [of _ True]) auto
  qed
qed

section \<open>Construction\<close>

definition index_traits_ok :: "cq_traits \<Rightarrow> bool" where
  "index_traits_ok k \<longleftrightarrow> (\<exists>a. 0 < a \<and> a < 64 \<and> tr_EXPLICIT_INITIAL_INDEX_SIZE k = 2 ^ a)"

lemma half_pow2: "unat (w :: size_t) = 2 ^ Suc a \<Longrightarrow> unat (drop_bit 1 w) = 2 ^ a"
  by (simp add: drop_bit_eq_div unat_div_distrib)

lemma ceil_to_pow_2_half: "drop_bit 1 (ceil_to_pow_2 (w :: size_t)) = 0 \<or> (\<exists>a < 63. unat (drop_bit 1 (ceil_to_pow_2 w)) = 2 ^ a)"
proof (cases "0 < unat w \<and> unat w \<le> 2 ^ 63")
  case True
  then obtain a where a: "unat (ceil_to_pow_2 w) = 2 ^ a" using ceil_to_pow_2_correct(1) [of 8 w] by (auto simp: ceil_to_pow_2_def least_pow2_def)
  then have "(2 :: nat) ^ a < 2 ^ 64" using unsigned_less [of "ceil_to_pow_2 w", where 'a = nat] by simp
  then have "a < 64" using power_less_imp_less_exp [of "2 :: nat" a 64] by simp
  then show ?thesis using a half_pow2 [of "ceil_to_pow_2 w"]
    by (cases a) (auto simp: drop_bit_eq_div unat_eq_zero [symmetric] unat_div_distrib)
next
  case False
  then have "ceil_to_pow_2 w = 0" using ceil_to_pow_2_correct(2) [of 8 w] by (auto simp: ceil_to_pow_2_def unat_eq_zero [symmetric])
  then show ?thesis by simp
qed

lemma ExplicitProducer_ok:
  assumes k: "traits_ok k" "malloc_ok k" "index_traits_ok k" and p: "pool_ok k p F"
  shows "\<exists>e. ExplicitProducer k p = Some e \<and> ep_inv k F (p, e) [] 0 0 []"
proof -
  obtain a where a: "0 < a" "a < 64" "tr_EXPLICIT_INITIAL_INDEX_SIZE k = 2 ^ a" using k(3) by (auto simp: index_traits_ok_def)
  let ?sz = "drop_bit 1 (tr_EXPLICIT_INITIAL_INDEX_SIZE k)" and ?pb = "drop_bit 1 (ceil_to_pow_2 (po_initialBlockPoolSize p))"
  have sz: "unat ?sz = 2 ^ (a - 1)" using a by (intro half_pow2) (simp add: unat_pow2)
  define e where "e = \<lparr>ep_tailIndex = 0, ep_headIndex = 0, ep_dequeueOptimisticCount = 0, ep_dequeueOvercommit = 0, ep_tailBlock = None,
    ep_blockIndex = None, ep_blockIndexSlotsUsed = 0, ep_blockIndexSize = (if ?pb > ?sz then ?pb else ?sz), ep_blockIndexFront = 0\<rparr>"
  have "\<exists>s < 63. unat (ep_blockIndexSize e) = 2 ^ s"
  proof (cases "?pb > ?sz")
    case True
    then have "?pb \<noteq> 0" by auto
    then show ?thesis using ceil_to_pow_2_half [of "po_initialBlockPoolSize p"] True by (auto simp: e_def)
  next
    case False
    then show ?thesis using sz a(1,2) by (intro exI [of _ "a - 1"]) (simp add: e_def)
  qed
  then have n: "no_index e" by (simp add: no_index_def e_def)
  have base: "ep_inv k F (p, e) [] 0 0 []" using p n by (simp add: ep_inv_def ring_ok_def e_def)
  have "index_ok k e [] \<or> no_index e \<and> [] = []" "unat (ep_blockIndexSlotsUsed e) = length []" using n by (simp_all add: e_def)
  from new_block_index_ok [OF k(1,2) this] obtain b e' where e': "new_block_index k 0 e = Some (b, e')" "ep_inv k F (p, e') [] 0 0 []"
    using base by (auto simp: Let_def ep_inv_def e_def)
  then show ?thesis unfolding ExplicitProducer_def Let_def e_def [symmetric] by simp
qed

lemma populate_pool_ok: "pool_ok k (populate_initial_block_list k ok n) {}"
  by (auto simp: pool_ok_def pool_blocks_def populate_initial_block_list_def Let_def cq_Block_def split: if_splits)

section \<open>Destruction\<close>

lemma circular_far:
  fixes x y h r b :: nat
  assumes "x + b \<le> y" "h = y + r" "r < b" "y \<le> x + 2 ^ 62" "r \<noteq> 0"
  shows "circular_less_than (of_nat (x + b) :: index_t) (of_nat h)"
  using circular_nat [of "x + b" h] assms by simp

lemma circular_near: "q + r = h \<Longrightarrow> r \<noteq> 0 \<Longrightarrow> r < 2 ^ 32 \<Longrightarrow> circular_less_than (of_nat q :: index_t) (of_nat h)"
  using circular_nat [of q h] by simp

lemma half_dequeued_ok:
  assumes k: "traits_ok k" and ix: "length (bi_entries bi) = 2 ^ s" "s < 62" "2 ^ s * block_size k \<le> 2 ^ 62"
    and z: "unat z = 2 ^ s" and r: "r < 2 ^ s" "\<And>j. j < length ring \<Longrightarrow> bi_entries bi ! ring_at (2 ^ s) r j = Some (index_list k N ring ! j)" "length ring \<le> 2 ^ s"
    and m: "m < length ring" "H div block_size k = N + m" "H mod block_size k \<noteq> 0"
  shows "t \<le> m \<Longrightarrow> unat i = ring_at (2 ^ s) r t \<Longrightarrow> half_dequeued k (z - 1) (of_nat H) (bi_entries bi) i = Some (Inr (of_nat ((N + m) * block_size k), ring ! m))"
proof (induction "m - t" arbitrary: t i)
  case 0
  let ?B = "block_size k"
  have B: "0 < ?B" "?B < 2 ^ 32" using k by (rule traits_size, simp)+
  have t: "t = m" using 0 by simp
  have "H < (N + m) * ?B + ?B" using m(2) B(1) mod_less_divisor [of ?B H] div_mult_mod_eq [of H ?B] by (metis add_strict_left_mono)
  moreover have "(N + m) * ?B \<le> H" using m(2) by (metis div_times_less_eq_dividend)
  ultimately have "\<not> circular_less_than (of_nat ((N + m) * ?B + ?B) :: index_t) (of_nat H)" using B by (intro circular_nat') simp_all
  moreover have "ring_at (2 ^ s) r m < 2 ^ s" using r(1,3) m(1) by (simp add: ring_at_less)
  ultimately show ?case using 0 r(2) [OF m(1)] ix(1) index_list_nth [OF m(1), of k N] unfolding t by (subst half_dequeued.simps) simp
next
  case (Suc n)
  let ?B = "block_size k"
  have B: "0 < ?B" using k by (rule traits_size) simp
  have t: "t < m" "t < length ring" using Suc m(1) by simp_all
  have at: "ring_at (2 ^ s) r t < 2 ^ s" using r(1,3) t(2) by (simp add: ring_at_less)
  have "(N + t) * ?B + ?B \<le> (N + m) * ?B" using t(1) mult_le_mono1 [of "Suc (N + t)" "N + m" ?B] by simp
  moreover have H: "H = (N + m) * ?B + H mod ?B" "H mod ?B < ?B" using m(2) B div_mult_mod_eq [of H ?B] by simp_all
  moreover have "(m - t) * ?B \<le> 2 ^ s * ?B" using m(1) r(3) by (intro mult_le_mono1) simp
  then have "(N + m) * ?B \<le> (N + t) * ?B + 2 ^ 62" using ix(3) t(1) by (simp add: algebra_simps diff_mult_distrib)
  ultimately have "circular_less_than (of_nat ((N + t) * ?B + ?B) :: index_t) (of_nat H)" using m(3) by (intro circular_far)
  moreover have "unat ((i + 1) AND (z - 1)) = ring_at (2 ^ s) r (Suc t)"
    using next_mask [OF z, of i] Suc.prems(2) at t(2) r(1,3) ix(2) by (auto simp: ring_next_def ring_at_def split: if_splits)
  moreover have "n = m - Suc t" "Suc t \<le> m" using Suc.hyps(2) t by simp_all
  ultimately show ?case using Suc.hyps(1) [of "Suc t" "(i + 1) AND (z - 1)"] Suc.prems(2) r(2) [OF t(2)] ix(1) at index_list_nth [OF t(2), of k N]
    by (subst half_dequeued.simps) simp
qed

lemma destroy_items_ok:
  assumes k: "traits_ok k" and e: "en \<le> block_size k" "stop = (if en' then Some w else None)" "if en' then unat w = en else en = block_size k"
  shows "unat i \<le> en \<Longrightarrow> length (cqb_elements b) = block_size k \<Longrightarrow> (\<forall>j. unat i \<le> j \<and> j < en \<longrightarrow> cqb_elements b ! j \<noteq> None) \<Longrightarrow>
    \<exists>b'. destroy_items k stop i b = Some (Inr b') \<and> cqb_next b' = cqb_next b \<and> length (cqb_elements b') = block_size k \<and>
      (\<forall>j < block_size k. cqb_elements b' ! j = (if unat i \<le> j \<and> j < en then None else cqb_elements b ! j))"
proof (induction "en - unat i" arbitrary: i b)
  case 0
  then have "i = tr_BLOCK_SIZE k \<or> stop = Some i" using e by (auto simp: unat_inject [symmetric])
  then show ?case using 0 by (subst destroy_items.simps) auto
next
  case (Suc n)
  let ?B = "block_size k" and ?b = "cqb_destroy k i b"
  have lt: "unat i < en" "unat i < ?B" using Suc.hyps(2) e(1) by simp_all
  have i1: "unat (i + 1) = Suc (unat i)" using lt(2) by (intro unat_plus_one [of _ "tr_BLOCK_SIZE k"]) (simp add: word_less_nat_alt)
  have sl: "slot_of k i = unat i" using lt(2) by (simp add: slot_of_mod [OF k])
  obtain v where v: "cqb_elements b ! unat i = Some v" using Suc.prems(3) lt by auto
  obtain b' where b': "destroy_items k stop (i + 1) ?b = Some (Inr b')" "cqb_next b' = cqb_next b" "length (cqb_elements b') = ?B"
    "\<forall>j < ?B. cqb_elements b' ! j = (if unat (i + 1) \<le> j \<and> j < en then None else cqb_elements ?b ! j)"
  proof -
    have "n = en - unat (i + 1)" "unat (i + 1) \<le> en" "length (cqb_elements ?b) = ?B" using Suc.hyps(2) Suc.prems(2) lt by (simp_all add: i1)
    moreover have "\<forall>j. unat (i + 1) \<le> j \<and> j < en \<longrightarrow> cqb_elements ?b ! j \<noteq> None" using Suc.prems(3) by (auto simp: i1 sl)
    ultimately show thesis using Suc.hyps(1) [of "i + 1" ?b] that by auto
  qed
  have "i \<noteq> tr_BLOCK_SIZE k" "stop \<noteq> Some i" using lt e by (auto split: if_splits)
  then have "destroy_items k stop i b = Some (Inr b')" using b'(1) v by (subst destroy_items.simps) (simp add: cqb_element_def sl)
  moreover have "\<forall>j < ?B. cqb_elements b' ! j = (if unat i \<le> j \<and> j < en then None else cqb_elements b ! j)"
    using b'(4) lt Suc.prems(2) by (auto simp: i1 sl nth_list_update)
  ultimately show ?case using b'(2,3) by auto
qed

lemma ep_half_ok:
  assumes k: "traits_ok k" and i: "ep_inv k F (p, e) ring N H xs" and ne: "ring \<noteq> []"
  shows "ep_half k e = Some (Inr (if H mod block_size k = 0 then None else Some (ring ! (H div block_size k - N))))"
proof -
  let ?B = "block_size k" and ?R = "length ring" and ?L = "index_list k N ring"
  note I = i [unfolded ep_inv_def prod.case]
  have B: "0 < ?B" "?B < 2 ^ 32" using k by (rule traits_size, simp)+
  have hd: "ep_headIndex e = of_nat H" and bd: "N * ?B \<le> H" "H \<le> (N + ?R) * ?B" using I by auto
  have "unat (ep_headIndex e AND (tr_BLOCK_SIZE k - 1)) = H mod ?B" using slot_of_nat [OF k, of H] unfolding hd slot_of_def .
  then have z: "ep_headIndex e AND (tr_BLOCK_SIZE k - 1) = 0 \<longleftrightarrow> H mod ?B = 0" by (simp add: unat_eq_zero [symmetric])
  show ?thesis
  proof (cases "H mod ?B = 0")
    case True
    then show ?thesis using z by (simp add: ep_half_def)
  next
    case False
    then have "H \<noteq> (N + ?R) * ?B" by auto
    then have "H < (N + ?R) * ?B" using bd(2) by simp
    then have m: "H div ?B - N < ?R" "H div ?B = N + (H div ?B - N)"
      using bd(1) B by (simp_all add: less_eq_div_iff_mult_less_eq div_less_iff_less_mult less_diff_conv2 add.commute)
    have "index_ok k e ?L" using I ne by blast
    then obtain s bi where x: "s < 62" "unat (ep_blockIndexSize e) = 2 ^ s" "2 ^ s * ?B \<le> 2 ^ 62" "ep_blockIndex e = Some bi" "length (bi_entries bi) = 2 ^ s"
      "index_rep bi (unat (ep_blockIndexFront e)) ?L" unfolding index_ok_def by blast
    have u: "unat (ep_blockIndexSlotsUsed e) = length ?L" and s: "s < 64" using I x(1) by simp_all
    obtain r where r: "r < 2 ^ s" "length ?L \<le> 2 ^ s" "unat ((ep_blockIndexFront e - ep_blockIndexSlotsUsed e) AND (ep_blockIndexSize e - 1)) = ring_at (2 ^ s) r 0"
      "\<And>j. j < length ?L \<Longrightarrow> bi_entries bi ! ring_at (2 ^ s) r j = Some (?L ! j)" using index_start [OF x(6,5,2) s u] by blast
    have h: "half_dequeued k (ep_blockIndexSize e - 1) (of_nat H) (bi_entries bi) ((ep_blockIndexFront e - ep_blockIndexSlotsUsed e) AND (ep_blockIndexSize e - 1)) =
        Some (Inr (of_nat (H div ?B * ?B), ring ! (H div ?B - N)))"
      using half_dequeued_ok [OF k x(5,1,3,2) r(1) _ _ m False _ r(3)] r(2,4) m(2) by simp
    have "circular_less_than (of_nat (H div ?B * ?B) :: index_t) (of_nat H)"
      by (rule circular_near [OF div_mult_mod_eq False]) (use B mod_less_divisor [OF B(1), of H] in linarith)
    then show ?thesis using False z x(4) h by (simp add: ep_half_def hd)
  qed
qed

text \<open>Where the elements of a block begin, and where those of the tail block end.\<close>

lemma start_slot:
  assumes k: "traits_ok k" and bd: "N * block_size k \<le> H" "H \<le> (N + length ring) * block_size k" "H < (N + j) * block_size k + block_size k"
    and j: "j < length ring" "distinct ring"
  shows "unat (if (if H mod block_size k = 0 then None else Some (ring ! (H div block_size k - N))) = Some (ring ! j)
      then (of_nat H :: index_t) AND (tr_BLOCK_SIZE k - 1) else 0) = H - (N + j) * block_size k"
proof -
  let ?B = "block_size k" and ?n = "(N + j) * block_size k"
  have B: "0 < ?B" using k by (rule traits_size) simp
  have s: "unat ((of_nat H :: index_t) AND (tr_BLOCK_SIZE k - 1)) = H mod ?B" using slot_of_nat [OF k, of H] unfolding slot_of_def .
  show ?thesis
  proof (cases "H \<le> ?n")
    case True
    have "H div ?B - N \<noteq> j \<and> H div ?B - N < length ring" if "H mod ?B \<noteq> 0"
    proof -
      have "H \<noteq> ?n" "H \<noteq> (N + length ring) * ?B" using that by auto
      then have "H < ?n" "H < (N + length ring) * ?B" using True bd(2) by auto
      then have "H div ?B < N + j" "H div ?B < N + length ring" "N \<le> H div ?B" using B bd(1) by (simp_all add: less_eq_div_iff_mult_less_eq div_less_iff_less_mult)
      then show ?thesis by linarith
    qed
    then show ?thesis using True j by (auto simp: nth_eq_iff_index_eq)
  next
    case False
    then have "H div ?B = N + j" using bd(3) by (intro div_nat_eqI) (simp_all add: mult.commute)
    moreover from this have "H mod ?B = H - ?n" by (metis minus_div_mult_eq_mod)
    ultimately show ?thesis using False s by auto
  qed
qed

lemma end_slot:
  assumes k: "traits_ok k" and T: "M * block_size k < T" "T \<le> M * block_size k + block_size k"
  shows "unat (if (of_nat T :: index_t) AND (tr_BLOCK_SIZE k - 1) = 0 then tr_BLOCK_SIZE k else of_nat T AND (tr_BLOCK_SIZE k - 1)) = T - M * block_size k"
proof -
  let ?B = "block_size k"
  have B: "0 < ?B" using k by (rule traits_size) simp
  have s: "unat ((of_nat T :: index_t) AND (tr_BLOCK_SIZE k - 1)) = T mod ?B" using slot_of_nat [OF k, of T] unfolding slot_of_def .
  show ?thesis
  proof (cases "T = M * ?B + ?B")
    case True
    then have "T mod ?B = 0" by simp
    then show ?thesis using s True by (simp add: unat_eq_zero)
  next
    case False
    then have "T div ?B = M" using T by (intro div_nat_eqI) (simp_all add: mult.commute)
    then have "T mod ?B = T - M * ?B" by (metis minus_div_mult_eq_mod)
    then show ?thesis using s T(1) by (auto simp: unat_eq_zero [symmetric])
  qed
qed

lemma destroy_block_ok:
  assumes k: "traits_ok k" and i: "ep_inv k F (p, e) ring N H xs" and j: "j < length ring" and b: "block_ok k b (N + j) H xs"
  defines "half \<equiv> if H mod block_size k = 0 then None else Some (ring ! (H div block_size k - N))"
  shows "\<exists>b'. destroy_block k e half (ring ! j) b = Some (Inr b') \<and> cqb_next b' = cqb_next b \<and> cqb_elements b' = replicate (block_size k) None"
proof -
  let ?B = "block_size k" and ?R = "length ring" and ?T = "H + length xs" and ?n = "(N + j) * block_size k"
  note I = i [unfolded ep_inv_def prod.case]
  have ne: "ring \<noteq> []" using j by auto
  have B: "0 < ?B" "?B < 2 ^ 32" using k by (rule traits_size, simp)+
  have idx: "ep_headIndex e = of_nat H" "ep_tailIndex e = of_nat ?T" "ep_tailBlock e = Some (last ring)" "distinct ring" using I ne by (auto simp: ring_ok_def)
  have bd: "N * ?B \<le> H" "?T \<le> (N + ?R) * ?B" "(N + ?R - 1) * ?B < ?T" using I ne by blast+
  have el: "length (cqb_elements b) = ?B" "\<And>s. s < ?B \<Longrightarrow> cqb_elements b ! s = item xs H (?n + s)" using b by (auto simp: block_ok_def)
  have em: "is_empty k explicit_context b = Inr ({s. s < ?B \<and> ?n + s < H} = {..<?B})" using b by (intro cqb_empty_iff) (simp add: block_ok_def)
  show ?thesis
  proof (cases "{s. s < ?B \<and> ?n + s < H} = {..<?B}")
    case True
    have "?n + s < H" if "s < ?B" for s using True that by (metis (mono_tags, lifting) lessThan_iff mem_Collect_eq)
    then have "item xs H (?n + s) = None" if "s < ?B" for s using that by (fastforce simp: item_def not_le)
    then have "cqb_elements b = replicate ?B None" using el by (intro nth_equalityI) auto
    then show ?thesis using em True by (auto simp: destroy_block_def)
  next
    case False
    then obtain s where "s < ?B" "H \<le> ?n + s" by fastforce
    then have Hn: "H < ?n + ?B" by simp
    define i0 where "i0 = (if half = Some (ring ! j) then ep_headIndex e AND (tr_BLOCK_SIZE k - 1) else 0)"
    have i0: "unat i0 = H - ?n" unfolding i0_def half_def idx(1) by (rule start_slot [OF k bd(1) _ Hn j idx(4)]) (use bd(2) in simp)
    define lv where "lv = (if ep_tailIndex e AND (tr_BLOCK_SIZE k - 1) = 0 then tr_BLOCK_SIZE k else ep_tailIndex e AND (tr_BLOCK_SIZE k - 1))"
    have lv: "unat lv = ?T - (N + ?R - 1) * ?B" unfolding lv_def idx(2) by (rule end_slot [OF k bd(3)]) (use bd(2) j in \<open>cases ring; simp\<close>)
    define en where "en = (if j = ?R - 1 then unat lv else ?B)"
    have en_cases: "if j = ?R - 1 then unat lv = en else en = ?B" by (simp add: en_def)
    have tb: "ep_tailBlock e = Some (ring ! j) \<longleftrightarrow> j = ?R - 1" using idx(3,4) j ne by (auto simp: last_conv_nth nth_eq_iff_index_eq)
    have nR: "?n + ?B \<le> (N + ?R - 1) * ?B" if "j \<noteq> ?R - 1"
    proof -
      have "Suc (N + j) \<le> N + ?R - 1" using j that by linarith
      from mult_le_mono1 [OF this, of ?B] show ?thesis by simp
    qed
    have nq: "j = ?R - 1 \<Longrightarrow> ?n = (N + ?R - 1) * ?B" using j by simp
    have enB: "en \<le> ?B" using lv bd(2) j by (cases ring) (auto simp: en_def)
    have live: "item xs H (?n + s) \<noteq> None \<longleftrightarrow> unat i0 \<le> s \<and> s < en" if "s < ?B" for s
    proof (cases "j = ?R - 1")
      case True
      show ?thesis unfolding en_def if_P [OF True] i0 lv nq [OF True, symmetric] using bd(3) unfolding nq [OF True, symmetric] by (rule item_range)
    next
      case False
      then have "?n + ?B < ?T" using nR bd(3) by linarith
      then show ?thesis using item_range [of ?n H xs s] i0 False that unfolding en_def by auto
    qed
    have "unat i0 \<le> en"
    proof (cases "j = ?R - 1")
      case True
      show ?thesis unfolding en_def if_P [OF True] i0 lv nq [OF True, symmetric] by (rule diff_le_mono) simp
    next
      case False
      then show ?thesis using i0 Hn by (simp add: en_def)
    qed
    moreover have "\<forall>s. unat i0 \<le> s \<and> s < en \<longrightarrow> cqb_elements b ! s \<noteq> None" using live el(2) enB by (metis order_less_le_trans)
    ultimately obtain b' where b': "destroy_items k (if j = ?R - 1 then Some lv else None) i0 b = Some (Inr b')" "cqb_next b' = cqb_next b" "length (cqb_elements b') = ?B"
      "\<forall>s < ?B. cqb_elements b' ! s = (if unat i0 \<le> s \<and> s < en then None else cqb_elements b ! s)"
      using destroy_items_ok [OF k enB refl, of "j = ?R - 1" lv i0 b] el(1) en_cases by blast
    have "cqb_elements b' ! s = None" if "s < ?B" for s using b'(4) el(2) [OF that] live [OF that] that by metis
    then have "cqb_elements b' = replicate ?B None" using b'(3) by (intro nth_equalityI) auto
    then show ?thesis using b'(1,2) em False tb unfolding destroy_block_def Let_def i0_def lv_def by auto
  qed
qed

text \<open>The first loop empties the blocks from the oldest to the tail block.\<close>

lemma destroy_ring_ok:
  assumes k: "traits_ok k" and i: "ep_inv k F (p0, e) ring N H xs"
  defines "half \<equiv> if H mod block_size k = 0 then None else Some (ring ! (H div block_size k - N))"
  shows "j < length ring \<Longrightarrow> blk = ring ! (if j = 0 then length ring - 1 else j - 1) \<Longrightarrow>
    (\<forall>a. a \<notin> set (take j ring) \<longrightarrow> po_heap p a = po_heap p0 a) \<Longrightarrow>
    (\<forall>i < j. \<exists>b. po_heap p (ring ! i) = Some b \<and> cqb_next b = Some (ring ! (Suc i mod length ring)) \<and> cqb_elements b = replicate (block_size k) None) \<Longrightarrow>
    \<exists>h. destroy_ring k e half (Some blk) p = Some (Inr (p\<lparr>po_heap := h\<rparr>)) \<and> (\<forall>a. a \<notin> set ring \<longrightarrow> h a = po_heap p0 a) \<and>
      (\<forall>i < length ring. \<exists>b. h (ring ! i) = Some b \<and> cqb_next b = Some (ring ! (Suc i mod length ring)) \<and> cqb_elements b = replicate (block_size k) None)"
proof (induction "length ring - j" arbitrary: j blk p)
  case (Suc n)
  let ?R = "length ring" and ?i = "if j = 0 then length ring - 1 else j - 1"
  note I = i [unfolded ep_inv_def prod.case]
  have ro: "ring_ok k (po_heap p0) ring N H xs" and d: "distinct ring" using I by (auto simp: ring_ok_def)
  have ne: "ring \<noteq> []" and iR: "?i < ?R" "Suc ?i mod ?R = j" using Suc.prems(1) by auto
  have out: "ring ! m \<notin> set (take j ring)" if "j \<le> m" "m < ?R" for m using d that by (auto simp: in_set_conv_nth nth_eq_iff_index_eq)
  obtain c where c: "po_heap p (ring ! ?i) = Some c" "cqb_next c = Some (ring ! j)"
  proof (cases "j = 0")
    case True
    then show thesis using that ring_ok_nth [OF ro iR(1)] Suc.prems(3) iR(2) by (metis empty_iff list.set(1) take0)
  next
    case False
    then have "?i < j" by simp
    then show thesis using that Suc.prems(4) iR(2) by metis
  qed
  obtain b where b: "po_heap p (ring ! j) = Some b" "cqb_next b = Some (ring ! (Suc j mod ?R))" "block_ok k b (N + j) H xs"
    using ring_ok_nth [OF ro Suc.prems(1)] Suc.prems(1,3) out [of j] by (metis le_refl)
  obtain b' where b': "destroy_block k e half (ring ! j) b = Some (Inr b')" "cqb_next b' = cqb_next b" "cqb_elements b' = replicate (block_size k) None"
    using destroy_block_ok [OF k i Suc.prems(1) b(3)] unfolding half_def by blast
  let ?p = "cq_write (ring ! j) b' p"
  have tb: "Some (ring ! j) = ep_tailBlock e \<longleftrightarrow> Suc j = ?R" using I ne d Suc.prems(1) by (auto simp: last_conv_nth nth_eq_iff_index_eq)
  have step: "destroy_ring k e half (Some blk) p = (if Suc j \<noteq> ?R then destroy_ring k e half (Some (ring ! j)) ?p else Some (Inr ?p))"
    using c b(1) b'(1) tb Suc.prems(2) by (subst destroy_ring.simps) (simp add: cq_deref_def Let_def)
  have tk: "set (take (Suc j) ring) = insert (ring ! j) (set (take j ring))" using Suc.prems(1) by (simp add: take_Suc_conv_app_nth)
  have A: "\<forall>a. a \<notin> set (take (Suc j) ring) \<longrightarrow> po_heap ?p a = po_heap p0 a" using Suc.prems(3) by (auto simp: tk cq_write_def)
  have B: "\<forall>i < Suc j. \<exists>b. po_heap ?p (ring ! i) = Some b \<and> cqb_next b = Some (ring ! (Suc i mod ?R)) \<and> cqb_elements b = replicate (block_size k) None"
    using Suc.prems(1,4) b(2) b'(2,3) d by (auto simp: cq_write_def less_Suc_eq nth_eq_iff_index_eq)
  show ?case
  proof (cases "Suc j = ?R")
    case True
    then have "take (Suc j) ring = ring" by simp
    then show ?thesis using step True A B by (intro exI [of _ "po_heap ?p"]) (simp add: cq_write_def)
  next
    case False
    then have 1: "n = ?R - Suc j" "Suc j < ?R" using Suc.hyps(2) Suc.prems(1) by simp_all
    have 2: "ring ! j = ring ! (if Suc j = 0 then ?R - 1 else Suc j - 1)" by simp
    from Suc.hyps(1) [OF 1 2 A B] show ?thesis using step False by (auto simp: cq_write_def)
  qed
qed simp

text \<open>The second loop returns them to the pool.\<close>

lemma add_block_to_free_list_ok:
  assumes p: "pool_ok k p (insert a U)" "a \<notin> U" and b: "po_heap p a = Some b" "cqb_elements b = replicate (block_size k) None"
  shows "\<exists>p'. add_block_to_free_list k a p = Inr p' \<and> pool_ok k p' U \<and> (\<forall>x. x \<noteq> a \<longrightarrow> po_heap p' x = po_heap p x)"
proof (cases "\<not> tr_RECYCLE_ALLOCATED_BLOCKS k \<and> cqb_dynamicallyAllocated b")
  case True
  let ?p = "p\<lparr>po_heap := (po_heap p)(a := None)\<rparr>"
  have "pool_blocks ?p = pool_blocks p" "a \<notin> pool_blocks p" using p by (auto simp: pool_blocks_def pool_ok_def)
  then have "pool_ok k ?p U" using p unfolding pool_ok_def by auto
  then show ?thesis using True b by (intro exI [of _ ?p]) (simp add: add_block_to_free_list_def cq_deref_def)
next
  case False
  let ?p = "p\<lparr>po_freeList := a # po_freeList p\<rparr>"
  have "pool_blocks ?p = insert a (pool_blocks p)" "a \<notin> pool_blocks p" using p by (auto simp: pool_blocks_def pool_ok_def)
  then have "pool_ok k ?p U" using p b unfolding pool_ok_def by (auto simp: pool_blocks_def)
  then show ?thesis using False b by (intro exI [of _ ?p]) (auto simp: add_block_to_free_list_def cq_deref_def)
qed

lemma pairs_nth: "(x, y) \<in> pairs ns \<longleftrightarrow> (\<exists>i. Suc i < length ns \<and> x = ns ! i \<and> y = ns ! Suc i)"
proof -
  have "(i < length ns - Suc 0) = (Suc i < length ns)" for i by (simp add: less_diff_conv)
  then show ?thesis by (fastforce simp: pairs_def set_zip nth_tl)
qed

lemma pairs_snoc_fst: "(x, y) \<in> pairs (ns @ [t]) \<Longrightarrow> x \<in> set ns"
  by (auto simp: pairs_nth nth_append)

lemma free_ring_ok:
  "pool_ok k p (set (a # as) \<union> F) \<Longrightarrow> distinct (a # as) \<Longrightarrow> set (a # as) \<inter> F = {} \<Longrightarrow> tb \<notin> set as \<Longrightarrow>
    (\<forall>x \<in> set (a # as). \<exists>b. po_heap p x = Some b \<and> cqb_elements b = replicate (block_size k) None) \<Longrightarrow>
    (\<forall>(x, y) \<in> pairs (a # as @ [tb]). \<exists>b. po_heap p x = Some b \<and> cqb_next b = Some y) \<Longrightarrow>
    \<exists>p'. free_ring k (Some tb) (Some a) p = Some (Inr p') \<and> pool_ok k p' F \<and> same_on F p p'"
proof (induction as arbitrary: a p)
  case Nil
  obtain b where b: "po_heap p a = Some b" "cqb_elements b = replicate (block_size k) None" "cqb_next b = Some tb" using Nil.prems(5,6) by auto
  have "pool_ok k p (insert a F)" "a \<notin> F" using Nil.prems(1,3) by auto
  from add_block_to_free_list_ok [OF this b(1,2)] show ?case using b(1,3) \<open>a \<notin> F\<close>
    by (subst free_ring.simps) (auto simp: cq_deref_def same_on_def)
next
  case (Cons a' as)
  obtain b where b: "po_heap p a = Some b" "cqb_elements b = replicate (block_size k) None" "cqb_next b = Some a'" using Cons.prems(5,6) by auto
  have U: "pool_ok k p (insert a (set (a' # as) \<union> F))" "a \<notin> set (a' # as) \<union> F" using Cons.prems(1-3) by auto
  obtain p1 where p1: "add_block_to_free_list k a p = Inr p1" "pool_ok k p1 (set (a' # as) \<union> F)" "\<And>x. x \<noteq> a \<Longrightarrow> po_heap p1 x = po_heap p x"
    using add_block_to_free_list_ok [OF U b(1,2)] by blast
  have at: "a \<notin> set (a' # as)" "a \<notin> F" "a' \<noteq> tb" using Cons.prems(2-4) by auto
  have "\<forall>x \<in> set (a' # as). \<exists>b. po_heap p1 x = Some b \<and> cqb_elements b = replicate (block_size k) None" using Cons.prems(5) p1(3) at(1) by (metis list.set_intros(2))
  moreover have "\<forall>(x, y) \<in> pairs (a' # as @ [tb]). \<exists>b. po_heap p1 x = Some b \<and> cqb_next b = Some y"
  proof (intro ballI, clarify)
    fix x y assume xy: "(x, y) \<in> pairs (a' # as @ [tb])"
    then have "x \<in> set (a' # as)" using pairs_snoc_fst [of x y "a' # as" tb] by simp
    then have "x \<noteq> a" using at(1) by auto
    then show "\<exists>b. po_heap p1 x = Some b \<and> cqb_next b = Some y" using Cons.prems(6) xy p1(3) by auto
  qed
  ultimately obtain p' where p': "free_ring k (Some tb) (Some a') p1 = Some (Inr p')" "pool_ok k p' F" "same_on F p1 p'"
    using Cons.IH [of p1 a'] p1(2) Cons.prems(2-4) by auto
  have "free_ring k (Some tb) (Some a) p = Some (Inr p')" using b p1(1) at(3) p'(1) by (subst free_ring.simps) (simp add: cq_deref_def)
  moreover have "same_on F p p'" using p'(3) p1(3) at(2) unfolding same_on_def by metis
  ultimately show ?case using p'(2) by blast
qed

lemma ep_dtor_ok:
  assumes k: "traits_ok k" and i: "ep_inv k F (p, e) ring N H xs"
  shows "\<exists>p'. ep_dtor k (p, e) = Some (Inr p') \<and> pool_ok k p' F \<and> same_on F p p'"
proof (cases "ring = []")
  case True
  then show ?thesis using i by (simp add: ep_inv_def ep_dtor_def same_on_def)
next
  case False
  let ?R = "length ring" and ?half = "if H mod block_size k = 0 then None else Some (ring ! (H div block_size k - N))"
  note I = i [unfolded ep_inv_def prod.case]
  have R: "0 < ?R" "last ring = ring ! (?R - 1)" using False by (simp_all add: last_conv_nth)
  have tb: "ep_tailBlock e = Some (last ring)" and d: "distinct ring" and F: "set ring \<inter> F = {}" using I False by (auto simp: ring_ok_def)
  obtain h where h: "destroy_ring k e ?half (Some (last ring)) p = Some (Inr (p\<lparr>po_heap := h\<rparr>))" "\<And>a. a \<notin> set ring \<Longrightarrow> h a = po_heap p a"
    "\<And>i. i < ?R \<Longrightarrow> \<exists>b. h (ring ! i) = Some b \<and> cqb_next b = Some (ring ! (Suc i mod ?R)) \<and> cqb_elements b = replicate (block_size k) None"
    using destroy_ring_ok [OF k i R(1), of "last ring" p] R by auto
  let ?p = "p\<lparr>po_heap := h\<rparr>"
  have dom: "dom h = dom (po_heap p)"
  proof -
    have "set ring \<subseteq> dom (po_heap p)" using I by (auto simp: pool_ok_def)
    moreover have "a \<in> dom h" if "a \<in> set ring" for a using h(3) that by (metis domI in_set_conv_nth)
    ultimately have "a \<in> dom h \<and> a \<in> dom (po_heap p)" if "a \<in> set ring" for a using that by blast
    then show ?thesis using h(2) by (metis (no_types, lifting) domD domI subsetI subset_antisym)
  qed
  have "pool_blocks ?p = pool_blocks p" by (simp add: pool_blocks_def)
  moreover have "a \<notin> set ring" if "a \<in> pool_blocks p" for a using I that by (auto simp: pool_ok_def)
  moreover have "pool_ok k p (set ring \<union> F)" using I by blast
  ultimately have "pool_ok k ?p (set ring \<union> F)" using h(2) dom unfolding pool_ok_def by simp
  moreover have "set (last ring # butlast ring) = set ring" "distinct (last ring # butlast ring)"
    using False d by (cases ring rule: rev_cases, simp_all)+
  moreover have "last ring \<notin> set (butlast ring)" using calculation(3) by simp
  moreover have "\<forall>x \<in> set ring. \<exists>b. h x = Some b \<and> cqb_elements b = replicate (block_size k) None" using h(3) by (metis in_set_conv_nth)
  moreover have "\<forall>(x, y) \<in> pairs (last ring # butlast ring @ [last ring]). \<exists>b. h x = Some b \<and> cqb_next b = Some y"
  proof (intro ballI, clarify)
    fix x y assume "(x, y) \<in> pairs (last ring # butlast ring @ [last ring])"
    then obtain i where i: "Suc i < Suc ?R" "x = (last ring # ring) ! i" "y = ring ! i" unfolding pairs_nth by (auto simp: append_butlast_last_id [OF False])
    show "\<exists>b. h x = Some b \<and> cqb_next b = Some y"
    proof (cases i)
      case 0
      then show ?thesis using h(3) [of "?R - 1"] R i by auto
    next
      case (Suc m)
      then show ?thesis using h(3) [of m] i by auto
    qed
  qed
  ultimately obtain p' where p': "free_ring k (Some (last ring)) (Some (last ring)) ?p = Some (Inr p')" "pool_ok k p' F" "same_on F ?p p'"
    using free_ring_ok [of k ?p "last ring" "butlast ring" F "last ring"] F by auto
  have "ep_half k e = Some (Inr ?half)" by (rule ep_half_ok [OF k i False])
  moreover have "same_on F p ?p" using h(2) F by (auto simp: same_on_def)
  ultimately show ?thesis using p' tb h(1) by (intro exI [of _ p']) (simp add: ep_dtor_def same_on_def)
qed

section \<open>First in, first out\<close>

definition cq_traits_ok :: "cq_traits \<Rightarrow> bool" where
  "cq_traits_ok k \<longleftrightarrow> traits_ok k \<and> limit_ok k \<and> malloc_ok k \<and> index_traits_ok k"

text \<open>The elements inside, found as a consumer finds them.\<close>

definition ep_peek :: "cq_traits \<Rightarrow> index_t \<Rightarrow> 'a ep_state \<Rightarrow> 'a result" where
  "ep_peek k i = (\<lambda>(p, e). case find_block k i e of Inl err \<Rightarrow> Inl err | Inr a \<Rightarrow> cq_deref p (Some a) (\<lambda>_ b. cqb_element k i b))"

definition ep_contents :: "cq_traits \<Rightarrow> 'a ep_state \<Rightarrow> 'a list" where
  "ep_contents k st = map (\<lambda>i. projr (ep_peek k (ep_headIndex (snd st) + of_nat i) st)) [0..<unat (ep_tailIndex (snd st) - ep_headIndex (snd st))]"

lemma ep_contents_inv:
  assumes k: "traits_ok k" and i: "ep_inv k F st ring N H xs"
  shows "ep_contents k st = xs" "ep_size_approx (snd st) = of_nat (length xs)"
proof -
  obtain p e where st: "st = (p, e)" by (cases st)
  note I = i [unfolded ep_inv_def st prod.case]
  let ?B = "block_size k"
  have B: "0 < ?B" using k by (rule traits_size) simp
  have len: "length xs \<le> 2 ^ 62" by (rule ep_inv_size [OF i])
  have idx: "ep_headIndex e = of_nat H" "ep_tailIndex e - ep_headIndex e = of_nat (length xs)" using I by auto
  then have n: "unat (ep_tailIndex e - ep_headIndex e) = length xs" using len by (simp add: unat_of_nat)
  have "ep_peek k (of_nat (H + j)) (p, e) = Inr (xs ! j)" if j: "j < length xs" for j
  proof -
    have ro: "ring_ok k (po_heap p) ring N H xs" and bd: "N * ?B \<le> H + j" "H + j < (N + length ring) * ?B" using I j by auto
    then have ne: "ring \<noteq> []" by (cases ring) auto
    let ?m = "(H + j) div ?B - N"
    have m: "?m < length ring" "(H + j) div ?B = N + ?m"
      using bd B by (simp_all add: less_eq_div_iff_mult_less_eq div_less_iff_less_mult less_diff_conv2 add.commute)
    have f: "find_block k (of_nat (H + j)) e = Inr (ring ! ?m)" using I ne by (intro find_block_ok [OF k _ m]) blast
    obtain b where b: "po_heap p (ring ! ?m) = Some b" "block_ok k b (N + ?m) H xs" using ring_ok_nth [OF ro m(1)] by blast
    have "(N + ?m) * ?B + (H + j) mod ?B = H + j" using m(2) by (metis div_mult_mod_eq)
    then have "cqb_elements b ! ((H + j) mod ?B) = Some (xs ! j)" using b(2) B j by (auto simp: block_ok_def item_def)
    then show ?thesis using f b(1) slot_of_nat [OF k, of "H + j"] unfolding ep_peek_def prod.case f by (simp add: cq_deref_def cqb_element_def)
  qed
  then show "ep_contents k st = xs" using idx n by (intro nth_equalityI) (simp_all add: ep_contents_def st)
  show "ep_size_approx (snd st) = of_nat (length xs)" using circular_nat [of H "H + length xs"] len I unfolding ep_size_approx_def st by auto
qed

text \<open>
  \<open>enqueue\<close> of an element whose construction does not throw, as the interface sees it; an answer that says that it
  has thrown would be an error.
\<close>

definition ep_put :: "cq_traits \<Rightarrow> bool \<Rightarrow> 'a \<Rightarrow> 'a ep_state \<Rightarrow> (bool \<times> 'a ep_state) result option" where
  "ep_put k canAlloc x st =
     (case ep_enqueue k canAlloc (Some x) st of
        None \<Rightarrow> None
      | Some (Inl err) \<Rightarrow> Some (Inl err)
      | Some (Inr (None, st')) \<Rightarrow> Some (Inl (RuntimeError ''element constructor'' 0))
      | Some (Inr (Some b, st')) \<Rightarrow> Some (Inr (b, st')))"

definition ep_room :: "cq_traits \<Rightarrow> bool \<Rightarrow> 'a ep_state \<Rightarrow> bool" where
  "ep_room k canAlloc st \<longleftrightarrow> (ep_tailIndex (snd st) AND (tr_BLOCK_SIZE k - 1) = 0 \<longrightarrow>
     (case ep_next_block k canAlloc st of Some (Inr (b, _)) \<Rightarrow> b | _ \<Rightarrow> False))"

definition ep_ok :: "cq_traits \<Rightarrow> nat set \<Rightarrow> 'a ep_state \<Rightarrow> bool" where
  "ep_ok k F st \<longleftrightarrow> cq_traits_ok k \<and> (\<exists>ring N H xs. ep_inv k F st ring N H xs)"

lemma map_sum_eq_Inr: "map_sum id g s = Inr y \<longleftrightarrow> (\<exists>z. s = Inr z \<and> y = g z)"
  by (cases s) auto

lemma ep_room_iff: "ep_enqueue k canAlloc (Some x) st = Some (Inr (Some b, st')) \<Longrightarrow> b \<longleftrightarrow> ep_room k canAlloc st"
  by (cases st) (auto simp: ep_enqueue_def ep_room_def Let_def map_sum_eq_Inr split: if_splits option.splits sum.splits bool.splits prod.splits)

lemma ep_offer_ok:
  assumes "ep_ok k F st"
  shows "\<exists>b st'. ep_enqueue k c (Some x) st = Some (Inr (Some b, st')) \<and> ep_ok k F st' \<and> ep_contents k st' = (if b then ep_contents k st @ [x] else ep_contents k st) \<and>
    (\<not> b \<longrightarrow> ep_refuses k c st (length (ep_contents k st)))"
proof -
  obtain p e ring N H xs where i: "cq_traits_ok k" "ep_inv k F (p, e) ring N H xs" "st = (p, e)" using assms by (cases st) (auto simp: ep_ok_def)
  then have k: "traits_ok k" "limit_ok k" "malloc_ok k" by (auto simp: cq_traits_ok_def)
  obtain b p' e' ring' N' where e: "ep_enqueue k c (Some x) (p, e) = Some (Inr (Some b, p', e'))"
    "ep_inv k F (p', e') ring' N' H (if b then xs @ [x] else xs)" "\<not> b \<longrightarrow> ep_refuses k c (p, e) (length xs)" using ep_enqueue_ok [OF k i(2)] by blast
  have "ep_ok k F (p', e')" using e(2) i(1) by (auto simp: ep_ok_def)
  then show ?thesis using e ep_contents_inv(1) [OF k(1) i(2)] ep_contents_inv(1) [OF k(1) e(2)] i(3) by auto
qed

lemma ep_take_ok:
  assumes "ep_ok k F st"
  shows "\<exists>r st'. ep_dequeue k st = Inr (r, st') \<and> ep_ok k F st' \<and> ep_contents k st = (case r of None \<Rightarrow> [] | Some x \<Rightarrow> [x]) @ ep_contents k st' \<and>
    (r = None \<longleftrightarrow> ep_contents k st = [])"
proof -
  obtain p e ring N H xs where i: "cq_traits_ok k" "ep_inv k F (p, e) ring N H xs" "st = (p, e)" using assms by (cases st) (auto simp: ep_ok_def)
  then have k: "traits_ok k" by (simp add: cq_traits_ok_def)
  note c = ep_contents_inv(1) [OF k i(2)]
  show ?thesis
  proof (cases xs)
    case Nil
    then show ?thesis using ep_dequeue_empty [of k F p e ring N H] i c assms by auto
  next
    case (Cons x ys)
    obtain p' e' where d: "ep_dequeue k (p, e) = Inr (Some x, p', e')" "ep_inv k F (p', e') ring N (Suc H) ys" using ep_dequeue_ok [OF k i(2) [unfolded Cons]] by blast
    have "ep_ok k F (p', e')" using d(2) i(1) by (auto simp: ep_ok_def)
    then show ?thesis using d(1) c Cons ep_contents_inv(1) [OF k d(2)] i(3) by auto
  qed
qed

interpretation ep: fifo_queue "ep_ok k F" "ep_contents k" "ep_room k c" "ep_put k c" "\<lambda>st. Some (ep_dequeue k st)"
  for k :: cq_traits and F :: "nat set" and c :: bool
proof
  fix q :: "'a ep_state" and x :: 'a
  assume i: "ep_ok k F q"
  obtain b st' where e: "ep_enqueue k c (Some x) q = Some (Inr (Some b, st'))" "ep_ok k F st'" "ep_contents k st' = (if b then ep_contents k q @ [x] else ep_contents k q)"
    using ep_offer_ok [OF i] by blast
  note r = ep_room_iff [OF e(1)]
  show "ep_room k c q \<Longrightarrow> \<exists>q'. ep_put k c x q = Some (Inr (True, q')) \<and> ep_ok k F q' \<and> ep_contents k q' = ep_contents k q @ [x]"
    using e r by (simp add: ep_put_def)
  show "\<not> ep_room k c q \<Longrightarrow> \<exists>q'. ep_put k c x q = Some (Inr (False, q')) \<and> ep_ok k F q' \<and> ep_contents k q' = ep_contents k q"
    using e r by (simp add: ep_put_def)
next
  fix q :: "'a ep_state" assume "ep_ok k F q" "ep_contents k q = []"
  with ep_take_ok [of k F q] show "\<exists>q'. Some (ep_dequeue k q) = Some (Inr (None, q')) \<and> ep_ok k F q' \<and> ep_contents k q' = []" by fastforce
next
  fix q :: "'a ep_state" and x xs assume "ep_ok k F q" "ep_contents k q = x # xs"
  with ep_take_ok [of k F q] show "\<exists>q'. Some (ep_dequeue k q) = Some (Inr (Some x, q')) \<and> ep_ok k F q' \<and> ep_contents k q' = xs"
    by (fastforce split: option.splits)
qed

lemma ep_fresh:
  assumes "cq_traits_ok k" "ExplicitProducer k (populate_initial_block_list k ok n :: 'a cq_pool) = Some e"
  shows "ep_inv k {} (populate_initial_block_list k ok n :: 'a cq_pool, e) [] 0 0 []"
proof -
  let ?p = "populate_initial_block_list k ok n :: 'a cq_pool"
  have "traits_ok k" "malloc_ok k" "index_traits_ok k" using assms(1) by (auto simp: cq_traits_ok_def)
  from ExplicitProducer_ok [OF this populate_pool_ok [of k ok n, where 'a = 'a]] assms(2) show ?thesis by auto
qed

lemma ep_fresh_run:
  assumes k: "cq_traits_ok k" and e: "ExplicitProducer k (populate_initial_block_list k ok n :: 'a cq_pool) = Some e"
  shows "\<exists>as st. run_ops (ep_put k c) (\<lambda>st. Some (ep_dequeue k st)) ops (populate_initial_block_list k ok n :: 'a cq_pool, e) = Some (Inr (as, st)) \<and>
    ep_ok k {} st \<and> fifo_trace (\<lambda>_. True) ops as [] (ep_contents k st)"
proof -
  let ?st = "(populate_initial_block_list k ok n :: 'a cq_pool, e)"
  note i = ep_fresh [OF k e]
  then have "ep_ok k {} ?st" using k by (auto simp: ep_ok_def)
  moreover have "ep_contents k ?st = []" using ep_contents_inv(1) [OF _ i] k by (simp add: cq_traits_ok_def)
  ultimately show ?thesis using ep.run_fifo [where may = "\<lambda>_. True" and k = k and F = "{}" and c = c and q = ?st and ops = ops] by simp
qed

text \<open>
  C7. An explicit producer of \<open>ConcurrentQueue\<close>, one thread, any block size, any initial pool and any outcome of the
  allocations: every sequence of \<open>enqueue\<close> (or \<open>try_enqueue\<close>) and \<open>dequeue\<close> returns normally with the answers of a first-in
  first-out list, so that what was accepted is what came out followed
  by what is inside, across the wrap of the indices and the growth of the block index. No operation fails an assertion or
  touches memory it does not own; \<open>enqueue\<close> refuses only for the limit of the sub-queue, which is never exceeded, or for want of
  memory; \<open>dequeue\<close> fails only on an empty queue, and \<open>size_approx\<close> is the number of elements.
\<close>
theorem explicit_producer_fifo:
  assumes k: "cq_traits_ok k" and e: "ExplicitProducer k (populate_initial_block_list k ok n :: 'a cq_pool) = Some e"
  shows "\<exists>as st. run_ops (ep_put k c) (\<lambda>st. Some (ep_dequeue k st)) ops (populate_initial_block_list k ok n :: 'a cq_pool, e) = Some (Inr (as, st)) \<and>
    fifo_trace (\<lambda>_. True) ops as [] (ep_contents k st) \<and> accepted_of ops as = taken_of as @ ep_contents k st \<and>
    length (ep_contents k st) \<le> unat (tr_MAX_SUBQUEUE_SIZE k) \<and>
    ep_size_approx (snd st) = of_nat (length (ep_contents k st)) \<and>
    (\<exists>b st'. ep_enqueue k c (Some x) st = Some (Inr (Some b, st')) \<and> (b \<or> ep_refuses k c st (length (ep_contents k st)))) \<and>
    (\<exists>st'. ep_dequeue k st = Inr (case ep_contents k st of [] \<Rightarrow> None | y # ys \<Rightarrow> Some y, st'))"
proof -
  obtain as st where run: "run_ops (ep_put k c) (\<lambda>st. Some (ep_dequeue k st)) ops (populate_initial_block_list k ok n :: 'a cq_pool, e) = Some (Inr (as, st))"
    and ok: "ep_ok k {} st" and tr: "fifo_trace (\<lambda>_. True) ops as [] (ep_contents k st)" using ep_fresh_run [OF k e] by blast
  obtain p' e' ring N H xs where i: "st = (p', e')" "ep_inv k {} (p', e') ring N H xs" using ok by (cases st) (auto simp: ep_ok_def)
  have t: "traits_ok k" using k by (simp add: cq_traits_ok_def)
  note c = ep_contents_inv [OF t i(2)]
  have "N * block_size k \<le> H" "H + length xs \<le> (N + length ring) * block_size k" "length ring * block_size k \<le> unat (tr_MAX_SUBQUEUE_SIZE k)"
    using i(2) by (auto simp: ep_inv_def)
  then have "length xs \<le> unat (tr_MAX_SUBQUEUE_SIZE k)" unfolding add_mult_distrib by linarith
  moreover have "\<exists>st'. ep_dequeue k st = Inr (case ep_contents k st of [] \<Rightarrow> None | y # ys \<Rightarrow> Some y, st')"
    using ep_take_ok [OF ok] by (auto split: option.splits)
  ultimately show ?thesis using run tr fifo_trace_conserves [OF tr] ep_offer_ok [OF ok, of c x] c i(1) by auto
qed

text \<open>
  The destructor of an explicit producer after any sequence of operations: its loops end, each element still inside is
  destroyed exactly once and no other slot is touched, no assertion fails, and every block is freed or back in the pool, empty.
\<close>
theorem explicit_producer_destroyed:
  assumes k: "cq_traits_ok k" and e: "ExplicitProducer k (populate_initial_block_list k ok n :: 'a cq_pool) = Some e"
  shows "\<exists>as st p'. run_ops (ep_put k c) (\<lambda>st. Some (ep_dequeue k st)) ops (populate_initial_block_list k ok n :: 'a cq_pool, e) = Some (Inr (as, st)) \<and>
    ep_dtor k st = Some (Inr p') \<and> dom (po_heap p') = pool_blocks p' \<and>
    (\<forall>a. \<forall>b. po_heap p' a = Some b \<longrightarrow> cqb_elements b = replicate (block_size k) None)"
proof -
  obtain as st where run: "run_ops (ep_put k c) (\<lambda>st. Some (ep_dequeue k st)) ops (populate_initial_block_list k ok n :: 'a cq_pool, e) = Some (Inr (as, st))"
    and ok: "ep_ok k {} st" using ep_fresh_run [OF k e] by blast
  then obtain p1 e1 ring N H xs where i: "st = (p1, e1)" "ep_inv k {} (p1, e1) ring N H xs" by (cases st) (auto simp: ep_ok_def)
  have t: "traits_ok k" using k by (simp add: cq_traits_ok_def)
  obtain p' where p': "ep_dtor k st = Some (Inr p')" "pool_ok k p' {}" using ep_dtor_ok [OF t i(2)] i(1) by blast
  then have "dom (po_heap p') = pool_blocks p'" "\<forall>a \<in> pool_blocks p'. \<exists>b. po_heap p' a = Some b \<and> cqb_elements b = replicate (block_size k) None"
    by (auto simp: pool_ok_def)
  then have "\<forall>a. \<forall>b. po_heap p' a = Some b \<longrightarrow> cqb_elements b = replicate (block_size k) None" by (metis domI option.inject)
  then show ?thesis using run p' \<open>dom (po_heap p') = pool_blocks p'\<close> by blast
qed

text \<open>
  C35. When the constructor of the first element throws, \<open>enqueue\<close> leaves the new block in the ring with all its slots marked as
  in use (the comment says that it stays available), and the destructor of the producer destroys elements that were never constructed.
\<close>
theorem explicit_throw_corrupts:
  assumes k: "cq_traits_ok k" and e: "ExplicitProducer k (populate_initial_block_list k ok n :: 'a cq_pool) = Some e"
    and t: "ep_enqueue k c None (populate_initial_block_list k ok n :: 'a cq_pool, e) = Some (Inr (None, st))"
  shows "ep_dtor k st = Some (Inl (UndefinedBehaviour ''raw storage''))"
proof -
  let ?p = "populate_initial_block_list k ok n :: 'a cq_pool"
  have tr: "traits_ok k" "limit_ok k" "malloc_ok k" using k by (auto simp: cq_traits_ok_def)
  have B: "0 < block_size k" using tr(1) by (rule traits_size) simp
  note i = ep_fresh [OF k e]
  then have f: "ep_tailIndex e = 0" "ep_headIndex e = 0" "ep_tailBlock e = None" by (simp_all add: ep_inv_def)
  obtain b p1 e1 where n: "ep_next_block k c (?p, e) = Some (Inr (b, p1, e1))" "b \<Longrightarrow> \<exists>ring N. ep_started k {} (p1, e1) ring N 0 []"
    using ep_next_block_ok [OF tr i, of c] by auto
  have st: "b" "st = (p1, e1\<lparr>ep_blockIndexSlotsUsed := ep_blockIndexSlotsUsed e, ep_tailBlock := ep_tailBlock e1\<rparr>)"
    using t n(1) f(1,3) by (auto simp: ep_enqueue_def Let_def split: bool.splits)
  obtain ring N where s: "ep_started k {} (p1, e1) ring N 0 []" using n(2) st(1) by blast
  note S = s [unfolded ep_started_def prod.case]
  have "N = 0" "length ring = 1" using S B by (auto simp: le_Suc_eq)
  then obtain a where a: "ring = [a]" by (auto simp: length_Suc_conv)
  have ro: "ring_ok k (po_heap p1) [a] 0 0 []" using S a \<open>N = 0\<close> by simp
  obtain b where b: "po_heap p1 a = Some b" "cqb_next b = Some a" "block_ok k b 0 0 []" using ring_ok_nth [OF ro, of 0] by auto
  have el: "cqb_element k 0 b = Inl (UndefinedBehaviour ''raw storage'')"
    using b(3) B by (auto simp: cqb_element_def slot_of_def block_ok_def item_def)
  have em: "is_empty k explicit_context b = Inr ({} = {..<block_size k})" using b(3) by (intro cqb_empty_iff) (simp add: block_ok_def)
  have "{} \<noteq> {..<block_size k}" using B by auto
  then have ie: "is_empty k explicit_context b = Inr False" using em by simp
  have "tr_BLOCK_SIZE k \<noteq> 0" using B by auto
  then have "destroy_items k (Some (tr_BLOCK_SIZE k)) 0 b = Some (Inl (UndefinedBehaviour ''raw storage''))" using el by (subst destroy_items.simps) simp
  moreover define e2 where "e2 = e1\<lparr>ep_blockIndexSlotsUsed := ep_blockIndexSlotsUsed e, ep_tailBlock := ep_tailBlock e1\<rparr>"
  have e2: "ep_tailIndex e2 = 0" "ep_headIndex e2 = 0" "ep_tailBlock e2 = Some a" using S a by (simp_all add: e2_def)
  ultimately have "destroy_block k e2 None a b = Some (Inl (UndefinedBehaviour ''raw storage''))" using ie by (simp add: destroy_block_def Let_def)
  then have "destroy_ring k e2 None (Some a) p1 = Some (Inl (UndefinedBehaviour ''raw storage''))" using b(1,2) by (subst destroy_ring.simps) (simp add: cq_deref_def)
  then show ?thesis using e2 unfolding st e2_def [symmetric] ep_dtor_def by (simp add: ep_half_def)
qed

section \<open>Witnesses\<close>

lemma traits4_all_ok: "cq_traits_ok traits4"
proof -
  have "unat n * 4 \<le> 2 ^ 62" if "n < 2 ^ 58" for n :: size_t using that by (simp add: word_less_nat_alt)
  then show ?thesis using traits4_ok by (auto simp: cq_traits_ok_def limit_ok_def malloc_ok_def index_traits_ok_def traits4_def intro!: exI [of _ 1])
qed

text \<open>A producer on a queue without preallocated blocks.\<close>

definition demo_pool :: "nat cq_pool" where
  "demo_pool = populate_initial_block_list traits4 False 0"

definition demo_producer :: explicit_producer where
  "demo_producer = \<lparr>ep_tailIndex = 0, ep_headIndex = 0, ep_dequeueOptimisticCount = 0, ep_dequeueOvercommit = 0, ep_tailBlock = None,
     ep_blockIndex = Some \<lparr>bi_size = 2, bi_front = - 1, bi_entries = [None, None]\<rparr>, ep_blockIndexSlotsUsed = 0, ep_blockIndexSize = 2, ep_blockIndexFront = 0\<rparr>"

lemma demo_producer_ctor: "ExplicitProducer traits4 demo_pool = Some demo_producer"
proof -
  have "ceil_to_pow_2 (0 :: size_t) = 0" using ceil_to_pow_2_correct(2) [of 8 "0 :: size_t"] by (simp add: ceil_to_pow_2_def)
  moreover have "replicate 2 x = [x, x]" for x :: "(index_t \<times> nat) option" by (simp add: numeral_2_eq_2)
  ultimately show ?thesis
    by (auto simp: ExplicitProducer_def demo_pool_def populate_initial_block_list_def traits4_def demo_producer_def new_block_index_def Let_def)
qed

lemmas ep_eval = ep_put_def ep_enqueue_def ep_next_block_def ep_new_block_def link_block_def ep_place_def ep_index_block_def cq_deref_def cq_write_def
  ep_dequeue_def find_block_def is_empty_def set_empty_def flag_of_def uses_flags_def slot_of_def reset_empty_def cqb_construct_def cqb_element_def cqb_destroy_def
  requisition_block_def try_get_block_from_initial_pool_def try_get_block_from_free_list_def create_block_def cq_Block_def circular_less_than_def
  demo_pool_def populate_initial_block_list_def traits4_def demo_producer_def Let_def

theorem explicit_producer_fifo_witness:
  "\<exists>st. run_ops (ep_put traits4 True) (\<lambda>st. Some (ep_dequeue traits4 st)) [Push 5, Push 6, Pop] (demo_pool, demo_producer) =
     Some (Inr ([Pushed True, Pushed True, Popped (Some 5)], st)) \<and> ep_contents traits4 st = [6]"
proof -
  obtain as st where r: "run_ops (ep_put traits4 True) (\<lambda>st. Some (ep_dequeue traits4 st)) [Push 5, Push 6, Pop] (demo_pool, demo_producer) = Some (Inr (as, st))"
    "fifo_trace (\<lambda>_. True) [Push 5, Push 6, Pop] as [] (ep_contents traits4 st)"
    using explicit_producer_fifo [OF traits4_all_ok demo_producer_ctor [unfolded demo_pool_def], of True "[Push 5, Push 6, Pop]" 0, folded demo_pool_def] by blast
  then have "as = [Pushed True, Pushed True, Popped (Some 5)]" by (auto simp: ep_eval)
  with r show ?thesis by simp
qed

theorem explicit_producer_destroyed_witness:
  "\<exists>as st p'. run_ops (ep_put traits4 True) (\<lambda>st. Some (ep_dequeue traits4 st)) [Push 5, Push 6, Pop] (demo_pool, demo_producer) = Some (Inr (as, st)) \<and>
     ep_dtor traits4 st = Some (Inr p')"
  using explicit_producer_destroyed [OF traits4_all_ok demo_producer_ctor [unfolded demo_pool_def], of True "[Push 5, Push 6, Pop]", folded demo_pool_def] by blast

theorem explicit_throw_corrupts_witness:
  "\<exists>st. ep_enqueue traits4 True None (demo_pool, demo_producer) = Some (Inr (None, st)) \<and> ep_dtor traits4 st = Some (Inl (UndefinedBehaviour ''raw storage''))"
proof -
  obtain st where t: "ep_enqueue traits4 True None (demo_pool, demo_producer) = Some (Inr (None, st))" by (simp add: ep_eval)
  from explicit_throw_corrupts [OF traits4_all_ok demo_producer_ctor [unfolded demo_pool_def] t [unfolded demo_pool_def]] t show ?thesis by auto
qed

end
