(* ===== verification/CQ_Bulk_Spec.thy ===== *)
theory CQ_Bulk_Spec
  imports CQ_Bulk CQ_Explicit_Spec
begin

text \<open>
  The bulk operations of explicit producers on the list an explicit producer stands for (\<open>CQ_Explicit_Spec\<close>): \<open>dequeue_bulk\<close> takes a prefix, and
  \<open>enqueue_bulk\<close>, when it succeeds, appends all elements.
\<close>

section \<open>Ranges of indices\<close>

lemma of_nat_plus_eq: "c < 2 ^ 64 \<Longrightarrow> (of_nat H :: index_t) = of_nat (H + c) \<longleftrightarrow> c = 0"
proof -
  assume c: "c < 2 ^ 64"
  have "(of_nat H :: index_t) = of_nat (H + c) \<longleftrightarrow> (of_nat c :: index_t) = 0" by simp
  also have "\<dots> \<longleftrightarrow> c = 0" using c by (auto simp: word_of_nat_eq_0_iff dest: dvd_imp_le)
  finally show ?thesis .
qed

lemma mod_step: "(H :: nat) mod B + c < B \<Longrightarrow> (H + c) mod B = H mod B + c"
proof -
  assume "H mod B + c < B"
  then have "(H mod B + c) mod B = H mod B + c" by simp
  then show ?thesis by (simp add: mod_add_left_eq)
qed

text \<open>The end of the block, or of the whole range when that comes first.\<close>

lemma stop_index_ok:
  assumes k: "traits_ok k" and H: "H \<le> E" "E \<le> H + 2 ^ 62"
  shows "stop_index k (of_nat H) (of_nat E) = of_nat (min E (Suc (H div block_size k) * block_size k))"
proof -
  let ?B = "block_size k" and ?S = "Suc (H div block_size k) * block_size k"
  have B: "0 < ?B" "?B < 2 ^ 32" using k by (rule traits_size, simp)+
  have S: "H < ?S" "?S \<le> H + ?B" using B(1) div_mult_mod_eq [of H ?B] mod_less_divisor [OF B(1), of H] by (simp_all add: dividend_less_div_times)
  have stop: "((of_nat H :: index_t) AND NOT (tr_BLOCK_SIZE k - 1)) + tr_BLOCK_SIZE k = of_nat ?S" by (simp add: block_base [OF k])
  have "circular_less_than (of_nat E :: index_t) (of_nat ?S) \<longleftrightarrow> E < ?S"
  proof (cases "E \<le> ?S")
    case True
    moreover have "?S < E + 2 ^ 63" by (rule le_less_trans [OF S(2)]) (use H(1) B(2) in simp)
    ultimately show ?thesis by (rule circular_nat)
  next
    case False
    moreover have "E < ?S + 2 ^ 63" by (rule le_less_trans [OF H(2)]) (rule add_strict_mono [OF S(1)], simp)
    ultimately show ?thesis using circular_nat' [of ?S E] by (metis linorder_le_cases not_less)
  qed
  then show ?thesis unfolding stop_index_def Let_def stop by simp
qed

section \<open>Taking many elements\<close>

lemma take_range_ok:
  assumes k: "traits_ok k"
  shows "H mod block_size k + length ys \<le> block_size k \<Longrightarrow> length (cqb_elements b) = block_size k \<Longrightarrow>
    (\<forall>i < length ys. cqb_elements b ! (H mod block_size k + i) = Some (ys ! i)) \<Longrightarrow>
    \<exists>es. take_range k (of_nat (H + length ys)) (of_nat H) out b = Some (Inr (out @ ys, b\<lparr>cqb_elements := es\<rparr>)) \<and> length es = block_size k \<and>
      (\<forall>j < block_size k. es ! j = (if H mod block_size k \<le> j \<and> j < H mod block_size k + length ys then None else cqb_elements b ! j))"
proof (induction ys arbitrary: H out b)
  case Nil
  then show ?case by (subst take_range.simps) (auto intro: exI [of _ "cqb_elements b"])
next
  case (Cons y ys)
  let ?B = "block_size k" and ?s = "H mod block_size k"
  have B: "?B < 2 ^ 32" using k by (rule traits_size) simp
  have "length (y # ys) < 2 ^ 64" using Cons.prems(1) B by simp
  from of_nat_plus_eq [OF this, of H] have ne: "(of_nat H :: index_t) \<noteq> of_nat (H + length (y # ys))" by simp
  have s: "slot_of k (of_nat H) = ?s" by (rule slot_of_nat [OF k])
  have el: "cqb_element k (of_nat H) b = Inr y" using Cons.prems(3) by (auto simp: cqb_element_def s)
  let ?b = "cqb_destroy k (of_nat H) b"
  have b: "cqb_elements ?b = (cqb_elements b)[?s := None]" "?b = b\<lparr>cqb_elements := (cqb_elements b)[?s := None]\<rparr>" by (simp_all add: cqb_destroy_def s)
  have step: "take_range k (of_nat (H + length (y # ys))) (of_nat H) out b = take_range k (of_nat (Suc H + length ys)) (of_nat (Suc H)) (out @ [y]) ?b"
    using ne el by (subst take_range.simps) (simp add: algebra_simps)
  show ?case
  proof (cases "ys = []")
    case True
    then show ?thesis unfolding step using b Cons.prems(2) by (subst take_range.simps) (auto simp: nth_list_update)
  next
    case False
    have m: "Suc H mod ?B = Suc ?s" using mod_step [of H ?B 1] Cons.prems(1) False by (cases ys) auto
    have "Suc H mod ?B + length ys \<le> ?B" "length (cqb_elements ?b) = ?B" "\<forall>i < length ys. cqb_elements ?b ! (Suc H mod ?B + i) = Some (ys ! i)"
      using Cons.prems unfolding m b(1) by auto
    from Cons.IH [OF this, of "out @ [y]"] obtain es
      where es: "take_range k (of_nat (Suc H + length ys)) (of_nat (Suc H)) (out @ [y]) ?b = Some (Inr ((out @ [y]) @ ys, ?b\<lparr>cqb_elements := es\<rparr>))" "length es = ?B"
        "\<forall>j < ?B. es ! j = (if Suc ?s \<le> j \<and> j < Suc ?s + length ys then None else cqb_elements ?b ! j)" unfolding m by blast
    have "?b\<lparr>cqb_elements := es\<rparr> = b\<lparr>cqb_elements := es\<rparr>" by (simp add: b(2))
    moreover have "\<forall>j < ?B. es ! j = (if ?s \<le> j \<and> j < ?s + length (y # ys) then None else cqb_elements b ! j)"
      using es(3) Cons.prems(2) unfolding b(1) by (auto simp: nth_list_update)
    ultimately show ?thesis using es(1,2) unfolding step by auto
  qed
qed

lemma cqb_rep_elements [simp]: "cqb_rep k c (b\<lparr>cqb_elements := es\<rparr>) D \<longleftrightarrow> cqb_rep k c b D"
  by (simp add: cqb_rep_def)

lemma set_many_none: "cqb_rep k c b D \<Longrightarrow> \<exists>x. set_many_empty k c i 0 b = Inr (x, b)"
proof -
  assume r: "cqb_rep k c b D"
  have "cqb_elementsCompletelyDequeued b \<le> tr_BLOCK_SIZE k" if "\<not> uses_flags k c"
  proof -
    have "unat (cqb_elementsCompletelyDequeued b) = card D" "D \<subseteq> {..<block_size k}" using r that by (auto simp: cqb_rep_def)
    then show ?thesis by (metis card_lessThan card_mono finite_lessThan word_le_nat_alt)
  qed
  then show ?thesis by (auto simp: set_many_empty_def Let_def)
qed

lemma take_block_ok:
  assumes k: "traits_ok k" and b: "po_heap p a = Some b" "block_ok k b n H xs" and n: "H div block_size k = n"
    and c: "c \<le> length xs" "H mod block_size k + c \<le> block_size k"
  shows "\<exists>b'. take_block k (of_nat (H + c)) (of_nat H) out a p = Some (Inr (out @ take c xs, cq_write a b' p)) \<and>
    block_ok k b' n (H + c) (drop c xs) \<and> cqb_next b' = cqb_next b"
proof -
  let ?B = "block_size k" and ?s = "H mod block_size k" and ?D = "{i. i < block_size k \<and> n * block_size k + i < H}"
  have B: "?B < 2 ^ 32" using k by (rule traits_size) simp
  have H: "n * ?B + ?s = H" using n by (metis div_mult_mod_eq)
  have el: "length (cqb_elements b) = ?B" "\<And>i. i < ?B \<Longrightarrow> cqb_elements b ! i = item xs H (n * ?B + i)" "cqb_rep k explicit_context b ?D" using b(2) by (auto simp: block_ok_def)
  have "cqb_elements b ! (?s + i) = Some (take c xs ! i)" if "i < c" for i
    using el(2) [of "?s + i"] that c H by (simp add: item_def flip: add.assoc)
  then obtain es where es: "take_range k (of_nat (H + c)) (of_nat H) out b = Some (Inr (out @ take c xs, b\<lparr>cqb_elements := es\<rparr>))" "length es = ?B"
    "\<forall>j < ?B. es ! j = (if ?s \<le> j \<and> j < ?s + c then None else cqb_elements b ! j)"
    using take_range_ok [OF k, of H "take c xs" b out] el(1) c by auto
  have rep: "cqb_rep k explicit_context (b\<lparr>cqb_elements := es\<rparr>) ?D" using el(3) by simp
  have s: "slot_of k (of_nat H) = ?s" by (rule slot_of_nat [OF k])
  have u: "unat (of_nat (H + c) - of_nat H :: index_t) = c" using c B by (simp add: unat_of_nat)
  have "\<exists>x b'. set_many_empty k explicit_context (of_nat H) (of_nat (H + c) - of_nat H) (b\<lparr>cqb_elements := es\<rparr>) = Inr (x, b') \<and>
    cqb_rep k explicit_context b' (?D \<union> {?s..<?s + c}) \<and> same_block (b\<lparr>cqb_elements := es\<rparr>) b'"
  proof (cases "c = 0")
    case True
    then show ?thesis using set_many_none [OF rep, of "of_nat H"] rep by (auto simp: same_block_def)
  next
    case False
    have "{slot_of k (of_nat H)..<slot_of k (of_nat H) + c} \<inter> ?D = {}" unfolding s using H by auto
    then show ?thesis using set_many_ok [OF k rep, of "of_nat (H + c) - of_nat H" "of_nat H"] False c(2) unfolding u s by auto
  qed
  then obtain x b' where b': "set_many_empty k explicit_context (of_nat H) (of_nat (H + c) - of_nat H) (b\<lparr>cqb_elements := es\<rparr>) = Inr (x, b')"
    "cqb_rep k explicit_context b' (?D \<union> {?s..<?s + c})" "cqb_elements b' = es" "cqb_next b' = cqb_next b" by (auto simp: same_block_def)
  have "?D \<union> {?s..<?s + c} = {i. i < ?B \<and> n * ?B + i < H + c}" using H c by auto
  moreover have "es ! i = item (drop c xs) (H + c) (n * ?B + i)" if "i < ?B" for i
    using es(3) el(2) [OF that] that H c by (auto simp: item_def)
  ultimately have "block_ok k b' n (H + c) (drop c xs)" using b'(2,3) es(2) by (simp add: block_ok_def)
  then show ?thesis using b'(1,4) b(1) es(1) by (intro exI [of _ b']) (simp add: take_block_def)
qed

lemma item_drop: "c \<le> length xs \<Longrightarrow> item (drop c xs) (H + c) q = (if q < H + c then None else item xs H q)"
  by (auto simp: item_def)

lemma block_elsewhere:
  assumes "i < (B :: nat)" "n \<noteq> H div B" "H mod B + c \<le> B" shows "n * B + i < H + c \<longleftrightarrow> n * B + i < H"
proof -
  have n: "(n * B + i) div B = n" using assms(1) by simp
  have "H + c \<le> (H div B) * B + B" using assms(3) div_mult_mod_eq [of H B] by linarith
  then have "n * B + i < Suc (H div B) * B" if "n * B + i < H + c" using that by simp
  then have "n \<le> H div B" if "n * B + i < H + c" using that n by (metis less_Suc_eq_le less_mult_imp_div_less)
  moreover have "n * B + i < H" if "n < H div B"
  proof -
    have "Suc n * B \<le> (H div B) * B" using that by (intro mult_le_mono1) simp
    then have "n * B + B \<le> (H div B) * B" by simp
    moreover have "(H div B) * B \<le> H" by simp
    ultimately show ?thesis using assms(1) by linarith
  qed
  ultimately show ?thesis using assms(2) by linarith
qed

lemma ring_ok_take_many:
  assumes r: "ring_ok k h ring N H xs" and m: "m < length ring" "H div block_size k = N + m"
    and c: "c \<le> length xs" "H mod block_size k + c \<le> block_size k"
    and b: "block_ok k b' (N + m) (H + c) (drop c xs)" "cqb_next b' = Some (ring ! (Suc m mod length ring))"
  shows "ring_ok k (h(ring ! m \<mapsto> b')) ring N (H + c) (drop c xs)"
proof -
  have d: "distinct ring" using r by (simp add: ring_ok_def)
  have "\<exists>b. (h(ring ! m \<mapsto> b')) (ring ! j) = Some b \<and> cqb_next b = Some (ring ! (Suc j mod length ring)) \<and> block_ok k b (N + j) (H + c) (drop c xs)"
    if j: "j < length ring" for j
  proof (cases "j = m")
    case True
    then show ?thesis using b by simp
  next
    case False
    obtain b0 where b0: "h (ring ! j) = Some b0" "cqb_next b0 = Some (ring ! (Suc j mod length ring))" "block_ok k b0 (N + j) H xs" using ring_ok_nth [OF r j] .
    have e: "(N + j) * block_size k + i < H + c \<longleftrightarrow> (N + j) * block_size k + i < H" if "i < block_size k" for i
      using block_elsewhere [OF that _ c(2), of "N + j"] False m(2) by simp
    then have "{i. i < block_size k \<and> (N + j) * block_size k + i < H + c} = {i. i < block_size k \<and> (N + j) * block_size k + i < H}" by auto
    moreover have "item (drop c xs) (H + c) ((N + j) * block_size k + i) = item xs H ((N + j) * block_size k + i)" if "i < block_size k" for i
      unfolding item_drop [OF c(1)] using e [OF that] by (simp add: item_def)
    ultimately have "block_ok k b0 (N + j) (H + c) (drop c xs)" using b0(3) by (simp add: block_ok_def)
    then show ?thesis using b0 False d j m(1) by (auto simp: nth_eq_iff_index_eq)
  qed
  then show ?thesis using d by (simp add: ring_ok_def)
qed

lemma bulk_take_ok:
  assumes k: "traits_ok k" and bi: "length (bi_entries bi) = 2 ^ s" "unat (bi_size bi) = 2 ^ s" "s < 62"
    and r: "r < 2 ^ s" "length ring \<le> 2 ^ s" "\<And>j. j < length ring \<Longrightarrow> bi_entries bi ! ring_at (2 ^ s) r j = Some (index_list k N ring ! j)"
    and U: "set ring \<subseteq> U"
  shows "ring_ok k (po_heap p) ring N H xs \<Longrightarrow> m < length ring \<Longrightarrow> H div block_size k = N + m \<Longrightarrow> H + length xs \<le> (N + length ring) * block_size k \<Longrightarrow>
    n \<le> length xs \<Longrightarrow> n \<le> 2 ^ 62 \<Longrightarrow> unat w = ring_at (2 ^ s) r m \<Longrightarrow> pool_ok k p U \<Longrightarrow>
    \<exists>p'. bulk_take k bi (of_nat (H + n)) (of_nat H) w out p = Some (Inr (out @ take n xs, p')) \<and> ring_ok k (po_heap p') ring N (H + n) (drop n xs) \<and>
      pool_ok k p' U \<and> (\<forall>a. a \<notin> set ring \<longrightarrow> po_heap p' a = po_heap p a)"
proof (induction n arbitrary: H xs m w out p rule: less_induct)
  case (less n)
  let ?B = "block_size k" and ?S = "Suc (H div block_size k) * block_size k"
  define c where "c = min n (?S - H)"
  have B: "0 < ?B" using k by (rule traits_size) simp
  have HS: "H < ?S" using B by (simp add: dividend_less_div_times)
  have "?S = (H div ?B) * ?B + ?B" "(H div ?B) * ?B + H mod ?B = H" by simp_all
  then have "H mod ?B + (?S - H) = ?B" using HS by linarith
  then have c: "c \<le> length xs" "H mod ?B + c \<le> ?B" "c \<le> n" using less.prems(5) by (auto simp: c_def)
  obtain b where b: "po_heap p (ring ! m) = Some b" "cqb_next b = Some (ring ! (Suc m mod length ring))" "block_ok k b (N + m) H xs"
    using ring_ok_nth [OF less.prems(1,2)] .
  obtain b' where b': "take_block k (of_nat (H + c)) (of_nat H) out (ring ! m) p = Some (Inr (out @ take c xs, cq_write (ring ! m) b' p))"
    "block_ok k b' (N + m) (H + c) (drop c xs)" "cqb_next b' = cqb_next b" using take_block_ok [OF k b(1,3) less.prems(3) c(1,2)] by blast
  let ?p = "cq_write (ring ! m) b' p"
  have stop: "stop_index k (of_nat H) (of_nat (H + n)) = of_nat (H + c)"
  proof -
    have "min (H + n) ?S = H + c" unfolding c_def using HS by linarith
    then show ?thesis using stop_index_ok [OF k, of H "H + n"] less.prems(6) by (simp only: add_le_cancel_left le_add1)
  qed
  have ro: "ring_ok k (po_heap ?p) ring N (H + c) (drop c xs)"
    using ring_ok_take_many [OF less.prems(1-3) c(1,2) b'(2)] b'(3) b(2) by (simp add: cq_write_def)
  have po: "pool_ok k ?p U" using less.prems(8) U nth_mem [OF less.prems(2)] by (intro pool_ok_write) auto
  have out: "po_heap ?p a = po_heap p a" if "a \<notin> set ring" for a using that less.prems(2) by (auto simp: cq_write_def)
  have entry: "bi_entries bi ! unat w = Some (of_nat ((N + m) * ?B), ring ! m)"
    unfolding less.prems(7) r(3) [OF less.prems(2)] by (simp add: index_list_nth [OF less.prems(2)])
  have eq: "(of_nat (H + c) :: index_t) = of_nat (H + n) \<longleftrightarrow> c = n"
    using of_nat_plus_eq [of "n - c" "H + c"] c(3) less.prems(6) by auto
  show ?case
  proof (cases "c = n")
    case True
    then show ?thesis using ro po out b'(1) stop entry by (subst bulk_take.simps) (auto simp: Let_def)
  next
    case False
    then have lt: "c < n" "H + c = ?S" "0 < c" using c(3) HS by (auto simp: c_def min_def split: if_splits)
    have div: "(H + c) div ?B = N + Suc m" unfolding lt(2) using B less.prems(3) by simp
    have "?S < (N + length ring) * ?B" using lt less.prems(4,5) by linarith
    then have "Suc (N + m) < N + length ring" unfolding less.prems(3) mult_less_cancel2 by blast
    then have m: "Suc m < length ring" by simp
    have w: "unat ((w + 1) AND (bi_size bi - 1)) = ring_at (2 ^ s) r (Suc m)"
      using next_mask [OF bi(2), of w] less.prems(2,7) r(1,2) bi(3) m by (auto simp: ring_at_less ring_next_def ring_at_def split: if_splits)
    have "n - c < n" "H + c + length (drop c xs) \<le> (N + length ring) * ?B" "n - c \<le> length (drop c xs)" "n - c \<le> 2 ^ 62" using lt c less.prems(4,5,6) by auto
    from less.IH [OF this(1) ro m div this(2-4) w po, of "out @ take c xs"]
    obtain p' where p': "bulk_take k bi (of_nat (H + c + (n - c))) (of_nat (H + c)) ((w + 1) AND (bi_size bi - 1)) (out @ take c xs) ?p =
        Some (Inr ((out @ take c xs) @ take (n - c) (drop c xs), p'))"
      "ring_ok k (po_heap p') ring N (H + c + (n - c)) (drop (n - c) (drop c xs))" "pool_ok k p' U" "\<forall>a. a \<notin> set ring \<longrightarrow> po_heap p' a = po_heap ?p a" by blast
    have t: "take c xs @ take (n - c) (drop c xs) = take n xs" using lt(1) by (metis add_diff_inverse_nat le_eq_less_or_eq not_less take_add)
    have "H + c + (n - c) = H + n" using lt(1) by simp
    then have "bulk_take k bi (of_nat (H + n)) (of_nat H) w out p = Some (Inr (out @ take n xs, p'))"
      using p'(1) t b'(1) stop entry eq False by (subst bulk_take.simps) (simp add: Let_def)
    then show ?thesis using p'(2-4) out lt(1) by (intro exI [of _ p']) (simp add: \<open>H + c + (n - c) = H + n\<close>)
  qed
qed

text \<open>Where the index has the entry of a block.\<close>

lemma index_position:
  assumes "index_rep bi f L" "m < length L" "length (bi_entries bi) = 2 ^ s" "s < 64" "unat (bi_size bi) = 2 ^ s"
  obtains r where "r < 2 ^ s" "length L \<le> 2 ^ s" "\<And>j. j < length L \<Longrightarrow> bi_entries bi ! ring_at (2 ^ s) r j = Some (L ! j)"
    "unat ((bi_front bi + word_of_int (int m - (int (length L) - 1))) AND (bi_size bi - 1)) = ring_at (2 ^ s) r m"
proof -
  let ?S = "2 ^ s :: nat" and ?R = "length L" and ?d = "length L - 1 - m"
  obtain r where r: "r < ?S" "?R \<le> ?S" "\<And>j. j < ?R \<Longrightarrow> bi_entries bi ! ring_at ?S r j = Some (L ! j)" "unat (bi_front bi) = ring_at ?S r (?R - 1)"
    using assms(1-3) by (auto simp: index_rep_def Let_def)
  have "int m - (int ?R - 1) = - int ?d" using assms(2) by simp
  then have "(word_of_int (int m - (int ?R - 1)) :: index_t) = - of_nat ?d" by simp
  moreover have "unat ((bi_front bi - of_nat ?d) AND (bi_size bi - 1)) = (ring_at ?S r (?R - 1) + ?S - ?d) mod ?S"
    using r(2,4) by (subst minus_mask [OF assms(5,4)]) auto
  moreover have "(ring_at ?S r (?R - 1) + ?S - ?d) mod ?S = ring_at ?S r m" using r(1,2) assms(2) by (auto simp: ring_at_def mod_if [of _ ?S])
  ultimately show thesis using r by (intro that [of r]) simp_all
qed

lemma index_offset:
  assumes k: "traits_ok k" and i: "index_rep bi f (index_list k N ring)" "length (bi_entries bi) = 2 ^ s" "unat (bi_size bi) = 2 ^ s" "s < 62" "2 ^ s * block_size k \<le> 2 ^ 62"
    and m: "m < length ring" "H div block_size k = N + m"
  obtains r hb where "r < 2 ^ s" "length ring \<le> 2 ^ s" "\<And>j. j < length ring \<Longrightarrow> bi_entries bi ! ring_at (2 ^ s) r j = Some (index_list k N ring ! j)"
    "bi_entries bi ! unat (bi_front bi) = Some (hb, last ring)"
    "unat ((bi_front bi + word_of_int (sint (((of_nat H :: index_t) AND NOT (tr_BLOCK_SIZE k - 1)) - hb) sdiv sint (tr_BLOCK_SIZE k))) AND (bi_size bi - 1)) = ring_at (2 ^ s) r m"
proof -
  let ?L = "index_list k N ring" and ?B = "block_size k" and ?R = "length ring"
  have ml: "m < length ?L" and s: "s < 64" using m(1) i(4) by simp_all
  obtain r where r: "r < 2 ^ s" "length ?L \<le> 2 ^ s" "\<And>j. j < length ?L \<Longrightarrow> bi_entries bi ! ring_at (2 ^ s) r j = Some (?L ! j)"
    "unat ((bi_front bi + word_of_int (int m - (int (length ?L) - 1))) AND (bi_size bi - 1)) = ring_at (2 ^ s) r m"
    by (rule index_position [OF i(1) ml i(2) s i(3)]) (rule that)
  have "?R * ?B \<le> 2 ^ 62" using r(2) i(5) by (metis length_index_list mult_le_mono1 order_trans)
  moreover have "(?R - 1 - m) * ?B \<le> ?R * ?B" by (intro mult_le_mono1) simp
  ultimately have "(?R - 1 - m) * ?B \<le> 2 ^ 62" by (rule order_trans [rotated])
  then have lt: "((N + (?R - 1)) - (N + m)) * ?B < 2 ^ 63" by (auto dest: le_less_trans)
  have last: "last ?L = (of_nat ((N + (?R - 1)) * ?B), last ring)" using m(1) by (cases ring rule: rev_cases) (simp_all add: index_list_snoc)
  have off: "sint (of_nat ((N + m) * ?B) - of_nat ((N + (?R - 1)) * ?B) :: index_t) sdiv sint (tr_BLOCK_SIZE k) = int m - (int ?R - 1)"
    using m(1) by (subst block_offset [OF k _ lt]) auto
  have "bi_entries bi ! unat (bi_front bi) = Some (last ?L)" by (rule index_nth(2) [OF i(1) ml i(2) s i(3)])
  then show thesis using r off unfolding last by (intro that [of r "of_nat ((N + (?R - 1)) * ?B)"]) (simp_all add: block_base [OF k] m(2))
qed

lemma min_word: "(if of_nat n < (w :: size_t) then of_nat n else w) = of_nat (min n (unat w))" if "n < 2 ^ 64" for n
  using that by (simp add: word_less_nat_alt unat_of_nat min_def)

lemma ep_dequeue_bulk_ok:
  fixes maxCount :: size_t
  assumes k: "traits_ok k" and i: "ep_inv k F (p, e) ring N H xs"
  defines "n \<equiv> min (length xs) (unat maxCount)"
  shows "\<exists>p' e'. ep_dequeue_bulk k maxCount (p, e) = Some (Inr (take n xs, p', e')) \<and> ep_inv k F (p', e') ring N (H + n) (drop n xs) \<and> same_on F p p'"
proof (cases "xs = []")
  case True
  have "ep_tailIndex e - (ep_dequeueOptimisticCount e - ep_dequeueOvercommit e) = 0" using i True by (simp add: ep_inv_def)
  then have "ep_dequeue_bulk k maxCount (p, e) = Some (Inr ([], p, e))" using circular_nat [of 0 0] by (simp add: ep_dequeue_bulk_def)
  then show ?thesis using i True by (simp add: n_def same_on_def)
next
  case False
  let ?B = "block_size k" and ?l = "length xs"
  note I = i [unfolded ep_inv_def prod.case]
  have B: "0 < ?B" using k by (rule traits_size) simp
  have len: "?l \<le> 2 ^ 62" by (rule ep_inv_size [OF i])
  have bd: "N * ?B \<le> H" "H + ?l \<le> (N + length ring) * ?B" using I by blast+
  define m where "m = H div ?B - N"
  have "H < (N + length ring) * ?B" using bd(2) False by (cases xs) simp_all
  then have "N \<le> H div ?B" "H div ?B < N + length ring" using bd(1) B by (simp_all add: less_eq_div_iff_mult_less_eq div_less_iff_less_mult)
  then have m: "m < length ring" "H div ?B = N + m" unfolding m_def by linarith+
  then have ne: "ring \<noteq> []" by auto
  then have "index_ok k e (index_list k N ring)" using I by auto
  then obtain s bi where ix: "s < 62" "unat (ep_blockIndexSize e) = 2 ^ s" "2 ^ s * ?B \<le> 2 ^ 62" "ep_blockIndex e = Some bi"
    "bi_size bi = ep_blockIndexSize e" "length (bi_entries bi) = 2 ^ s" "index_rep bi (unat (ep_blockIndexFront e)) (index_list k N ring)" unfolding index_ok_def by blast
  have bs: "unat (bi_size bi) = 2 ^ s" using ix(2,5) by simp
  obtain r hb where r: "r < 2 ^ s" "length ring \<le> 2 ^ s" "\<And>j. j < length ring \<Longrightarrow> bi_entries bi ! ring_at (2 ^ s) r j = Some (index_list k N ring ! j)"
    "bi_entries bi ! unat (bi_front bi) = Some (hb, last ring)"
    "unat ((bi_front bi + word_of_int (sint (((of_nat H :: index_t) AND NOT (tr_BLOCK_SIZE k - 1)) - hb) sdiv sint (tr_BLOCK_SIZE k))) AND (bi_size bi - 1)) = ring_at (2 ^ s) r m"
    by (rule index_offset [OF k ix(7,6) bs ix(1,3) m]) (rule that)
  have nl: "n \<le> ?l" "n < 2 ^ 64" "?l < 2 ^ 64" using len unfolding n_def by simp_all
  have "n \<le> 2 ^ 62" using nl(1) len by linarith
  have ro: "ring_ok k (po_heap p) ring N H xs" and po: "pool_ok k p (set ring \<union> F)" using I by blast+
  obtain p' where p': "bulk_take k bi (of_nat (H + n)) (of_nat H)
      ((bi_front bi + word_of_int (sint (((of_nat H :: index_t) AND NOT (tr_BLOCK_SIZE k - 1)) - hb) sdiv sint (tr_BLOCK_SIZE k))) AND (bi_size bi - 1)) [] p = Some (Inr (take n xs, p'))"
    "ring_ok k (po_heap p') ring N (H + n) (drop n xs)" "pool_ok k p' (set ring \<union> F)" "\<forall>a. a \<notin> set ring \<longrightarrow> po_heap p' a = po_heap p a"
    using bulk_take_ok [OF k ix(6) bs ix(1) r(1-3) Un_upper1, of p H xs m n _ F "[]"] ro m bd(2) nl(1) \<open>n \<le> 2 ^ 62\<close> r(5) po by auto
  have cnt: "ep_tailIndex e - (ep_dequeueOptimisticCount e - ep_dequeueOvercommit e) = of_nat ?l" "ep_headIndex e = of_nat H" using I by simp_all
  have c: "circular_less_than (0 :: size_t) (of_nat ?l)" using circular_nat [of 0 ?l] len False by simp
  have d: "(if of_nat ?l < maxCount then of_nat ?l else maxCount) = of_nat n" unfolding n_def by (rule min_word [OF nl(3)])
  have a: "n = ?l \<or> (of_nat n :: size_t) < of_nat ?l" "\<not> (of_nat ?l :: size_t) < of_nat n"
    using nl by (auto simp: word_less_nat_alt unat_of_nat)
  define e' where "e' = e\<lparr>ep_dequeueOptimisticCount := ep_dequeueOptimisticCount e + of_nat n, ep_headIndex := of_nat H + of_nat n\<rparr>"
  have "ep_dequeue_bulk k maxCount (p, e) = Some (Inr (take n xs, p', e'))"
  proof -
    have "bulk_take_from k (of_nat H) (of_nat n) (p, e') = Some (Inr (take n xs, p'))" using p'(1) by (simp add: bulk_take_from_def ix(4) r(4) e'_def Let_def)
    moreover have "ep_dequeue_bulk k maxCount (p, e) = map_option (map_sum id (\<lambda>(out, p). (out, p, e'))) (bulk_take_from k (of_nat H) (of_nat n) (p, e'))"
      unfolding ep_dequeue_bulk_def prod.case Let_def cnt(1) d using a(1) by (elim disjE) (simp_all add: cnt c a(2) e'_def)
    ultimately show ?thesis by simp
  qed
  moreover have "index_ok k e' L = index_ok k e L" for L by (rule index_ok_cong) (simp_all add: e'_def)
  then have "ep_inv k F (p', e') ring N (H + n) (drop n xs)"
    unfolding ep_inv_def prod.case using I p'(2,3) nl(1) ne by (simp add: e'_def algebra_simps)
  moreover have "same_on F p p'" using I p'(4) by (auto simp: same_on_def)
  ultimately show ?thesis by blast
qed

end
