(* ===== verification/CQ_Bulk_Enq.thy ===== *)
theory CQ_Bulk_Enq
  imports CQ_Bulk_Spec
begin

text \<open>
  \<open>enqueue_bulk\<close> of explicit producers. Blocks that have been taken for the new elements and not been reset yet are at the end of the ring; the
  index has entries for them that are not published.
\<close>

section \<open>Blocks that wait to be filled\<close>

definition blank_block :: "cq_traits \<Rightarrow> 'a cq_block \<Rightarrow> bool" where
  "blank_block k b \<longleftrightarrow> cqb_elements b = replicate (block_size k) None \<and> cqb_rep k explicit_context b {..<block_size k}"

definition ring_pend :: "cq_traits \<Rightarrow> (nat \<rightharpoonup> 'a cq_block) \<Rightarrow> nat list \<Rightarrow> nat \<Rightarrow> nat \<Rightarrow> 'a list \<Rightarrow> nat \<Rightarrow> bool" where
  "ring_pend k h ring N H xs c \<longleftrightarrow> distinct ring \<and> c \<le> length ring \<and>
     (\<forall>j < length ring. \<exists>b. h (ring ! j) = Some b \<and> cqb_next b = Some (ring ! (Suc j mod length ring)) \<and>
        (if j < length ring - c then block_ok k b (N + j) H xs else blank_block k b))"

lemma ring_pend_nth:
  assumes "ring_pend k h ring N H xs c" "j < length ring"
  obtains b where "h (ring ! j) = Some b" "cqb_next b = Some (ring ! (Suc j mod length ring))"
    "j < length ring - c \<Longrightarrow> block_ok k b (N + j) H xs" "\<not> j < length ring - c \<Longrightarrow> blank_block k b"
  using assms unfolding ring_pend_def by (metis (full_types))

lemma ring_pend_0: "ring_pend k h ring N H xs 0 \<longleftrightarrow> ring_ok k h ring N H xs"
  by (simp add: ring_pend_def ring_ok_def cong: conj_cong)

lemma ring_pend_frame: "ring_pend k h ring N H xs c \<Longrightarrow> (\<And>a. a \<in> set ring \<Longrightarrow> h' a = h a) \<Longrightarrow> ring_pend k h' ring N H xs c"
  by (auto simp: ring_pend_def)

lemma blank_next [simp]: "blank_block k (b\<lparr>cqb_next := a\<rparr>) \<longleftrightarrow> blank_block k b"
  by (simp add: blank_block_def cqb_rep_def)

lemma set_all_empty_blank:
  assumes "cqb_elements b = replicate (block_size k) None" shows "blank_block k (set_all_empty k explicit_context b)"
  using assms by (auto simp: blank_block_def set_all_empty_def cqb_rep_def)

text \<open>The oldest block, when it is empty, becomes the youngest.\<close>

lemma empty_block:
  assumes b: "block_ok k b n H xs" "is_empty k explicit_context b = Inr True" and B: "0 < block_size k"
  shows "Suc n * block_size k \<le> H" "blank_block k b"
proof -
  let ?B = "block_size k"
  have all: "{i. i < ?B \<and> n * ?B + i < H} = {..<?B}"
    using b(2) cqb_empty_iff [of k explicit_context b "{i. i < ?B \<and> n * ?B + i < H}"] b(1) unfolding block_ok_def by simp
  have "?B - 1 \<in> {..<?B}" using B by simp
  then have "n * ?B + (?B - 1) < H" unfolding all [symmetric] mem_Collect_eq by (rule conjunct2)
  then show H: "Suc n * ?B \<le> H" using B by simp
  have "cqb_elements b = replicate ?B None" using b(1) H by (intro nth_equalityI) (auto simp: block_ok_def item_def)
  then show "blank_block k b" using b(1) all by (simp add: blank_block_def block_ok_def)
qed

lemma ring_pend_rotate:
  assumes r: "ring_pend k h ring N H xs c" "c < length ring" and b: "h (hd ring) = Some b" "blank_block k b"
  shows "ring_pend k h (rotate1 ring) (Suc N) H xs (Suc c)"
proof -
  let ?R = "length ring"
  have ne: "ring \<noteq> []" "hd ring = ring ! 0" using r(2) by (cases ring; simp)+
  have "\<exists>b. h (rotate1 ring ! j) = Some b \<and> cqb_next b = Some (rotate1 ring ! (Suc j mod ?R)) \<and>
      (if j < ?R - Suc c then block_ok k b (Suc N + j) H xs else blank_block k b)" if j: "j < ?R" for j
  proof (cases "Suc j = ?R")
    case True
    obtain b0 where "h (ring ! 0) = Some b0" "cqb_next b0 = Some (ring ! (1 mod ?R))" using ring_pend_nth [OF r(1), of 0] ne(1) by auto
    then show ?thesis using True b ne j by (auto simp: nth_rotate1)
  next
    case False
    then have j1: "Suc j < ?R" using j by simp
    obtain b0 where b0: "h (ring ! Suc j) = Some b0" "cqb_next b0 = Some (ring ! (Suc (Suc j) mod ?R))"
      "Suc j < ?R - c \<Longrightarrow> block_ok k b0 (N + Suc j) H xs" "\<not> Suc j < ?R - c \<Longrightarrow> blank_block k b0" using ring_pend_nth [OF r(1) j1] by blast
    then show ?thesis using j1 j by (auto simp: nth_rotate1)
  qed
  then show ?thesis using r by (auto simp: ring_pend_def)
qed

text \<open>A new block behind the youngest.\<close>

lemma ring_pend_append:
  assumes r: "ring_pend k h ring N H xs c" and a: "a \<notin> set ring" "ring \<noteq> []" and b: "blank_block k b" and t: "h (last ring) = Some tb"
  shows "ring_pend k (h(a \<mapsto> b\<lparr>cqb_next := cqb_next tb\<rparr>, last ring \<mapsto> tb\<lparr>cqb_next := Some a\<rparr>)) (ring @ [a]) N H xs (Suc c)"
proof -
  let ?R = "length ring" and ?h = "h(a \<mapsto> b\<lparr>cqb_next := cqb_next tb\<rparr>, last ring \<mapsto> tb\<lparr>cqb_next := Some a\<rparr>)"
  have R: "0 < ?R" "last ring = ring ! (?R - 1)" using a(2) by (simp_all add: last_conv_nth)
  have d: "distinct ring" "c \<le> ?R" using r by (simp_all add: ring_pend_def)
  have "\<exists>b. ?h ((ring @ [a]) ! j) = Some b \<and> cqb_next b = Some ((ring @ [a]) ! (Suc j mod length (ring @ [a]))) \<and>
      (if j < ?R - c then block_ok k b (N + j) H xs else blank_block k b)" if jR: "j < Suc ?R" for j
  proof -
    consider "j = ?R" | "j = ?R - 1" "j < ?R" | "Suc j < ?R" using jR by linarith
    then show ?thesis
    proof cases
      case 1
      obtain b0 where "h (ring ! (?R - 1)) = Some b0" "cqb_next b0 = Some (ring ! (Suc (?R - 1) mod ?R))" using ring_pend_nth [OF r, of "?R - 1"] R(1) by auto
      then have "cqb_next tb = Some (ring ! 0)" using R t by simp
      then show ?thesis using 1 R a(1) b last_in_set [OF a(2)] by (auto simp: nth_append)
    next
      case 2
      obtain b0 where "h (ring ! j) = Some b0" "j < ?R - c \<Longrightarrow> block_ok k b0 (N + j) H xs" "\<not> j < ?R - c \<Longrightarrow> blank_block k b0" using ring_pend_nth [OF r 2(2)] by blast
      moreover have "ring ! j = last ring" "Suc j = ?R" using 2 R by auto
      ultimately show ?thesis using 2(2) t by (auto simp: nth_append)
    next
      case 3
      obtain b0 where b0: "h (ring ! j) = Some b0" "cqb_next b0 = Some (ring ! (Suc j mod ?R))" "j < ?R - c \<Longrightarrow> block_ok k b0 (N + j) H xs"
        "\<not> j < ?R - c \<Longrightarrow> blank_block k b0" using ring_pend_nth [OF r, of j] 3 by (metis Suc_lessD)
      have "ring ! j \<noteq> last ring" using 3 R d by (simp add: nth_eq_iff_index_eq)
      moreover have "ring ! j \<noteq> a" using 3 a(1) by (metis Suc_lessD nth_mem)
      ultimately show ?thesis using b0 3 by (auto simp: nth_append)
    qed
  qed
  then show ?thesis using d a(1) by (simp add: ring_pend_def)
qed

text \<open>The first of the waiting blocks is reset.\<close>

lemma ring_pend_reset:
  assumes r: "ring_pend k h ring N H xs (Suc c)" and b: "h (ring ! (length ring - Suc c)) = Some b" and T: "H + length xs \<le> (N + (length ring - Suc c)) * block_size k"
  shows "ring_pend k (h(ring ! (length ring - Suc c) \<mapsto> reset_empty k explicit_context b)) ring N H xs c"
proof -
  let ?R = "length ring" and ?i = "length ring - Suc c" and ?b = "reset_empty k explicit_context b"
  have c: "Suc c \<le> ?R" "distinct ring" using r by (simp_all add: ring_pend_def)
  then have i: "?i < ?R" by simp
  obtain b0 where b0: "h (ring ! ?i) = Some b0" "cqb_next b0 = Some (ring ! (Suc ?i mod ?R))" "blank_block k b0" using ring_pend_nth [OF r i] by (metis less_irrefl)
  then have "block_ok k (?b\<lparr>cqb_next := cqb_next b\<rparr>) (N + ?i) H xs" using b T by (intro block_ok_new) (simp_all add: blank_block_def)
  then have new: "block_ok k ?b (N + ?i) H xs" by simp
  have "\<exists>b'. (h(ring ! ?i \<mapsto> ?b)) (ring ! j) = Some b' \<and> cqb_next b' = Some (ring ! (Suc j mod ?R)) \<and> (if j < ?R - c then block_ok k b' (N + j) H xs else blank_block k b')"
    if j: "j < ?R" for j
  proof (cases "j = ?i")
    case True
    then show ?thesis using new b0 b c by auto
  next
    case False
    obtain b1 where b1: "h (ring ! j) = Some b1" "cqb_next b1 = Some (ring ! (Suc j mod ?R))" "j < ?i \<Longrightarrow> block_ok k b1 (N + j) H xs" "\<not> j < ?i \<Longrightarrow> blank_block k b1"
      using ring_pend_nth [OF r j] by blast
    have "j < ?R - c \<longleftrightarrow> j < ?i" using False c by auto
    then show ?thesis using b1 False c i j by (auto simp: nth_eq_iff_index_eq)
  qed
  then show ?thesis using c by (simp add: ring_pend_def)
qed

section \<open>An index with entries that are not published\<close>

definition with_front :: "size_t \<Rightarrow> explicit_producer \<Rightarrow> explicit_producer" where
  "with_front v e = e\<lparr>ep_blockIndex := map_option (bi_front_update (\<lambda>_. v)) (ep_blockIndex e)\<rparr>"

definition index_unpub :: "cq_traits \<Rightarrow> explicit_producer \<Rightarrow> (index_t \<times> nat) list \<Rightarrow> bool" where
  "index_unpub k e L \<longleftrightarrow> (\<exists>v. index_ok k (with_front v e) L)"

lemma index_ok_unpub: "index_ok k e L \<Longrightarrow> index_unpub k e L"
proof -
  assume i: "index_ok k e L"
  then obtain bi where bi: "ep_blockIndex e = Some bi" by (auto simp: index_ok_def)
  then have "with_front (bi_front bi) e = e" by (simp add: with_front_def)
  then show ?thesis using i unfolding index_unpub_def by metis
qed

lemma index_unpub_cong:
  "ep_blockIndexSize e' = ep_blockIndexSize e \<Longrightarrow> ep_blockIndex e' = ep_blockIndex e \<Longrightarrow> ep_blockIndexFront e' = ep_blockIndexFront e \<Longrightarrow>
    index_unpub k e' L = index_unpub k e L"
  unfolding index_unpub_def by (intro ex_cong1 index_ok_cong) (simp_all add: with_front_def)

lemma index_unpub_size: "index_unpub k e L \<Longrightarrow> length L * block_size k \<le> 2 ^ 62"
  using index_ok_size by (auto simp: index_unpub_def)

lemma index_unpub_length: "index_unpub k e L \<Longrightarrow> length L \<le> unat (ep_blockIndexSize e)"
  by (auto simp: index_unpub_def index_ok_def index_rep_def Let_def with_front_def)

lemma index_unpub_drop: "index_unpub k e (x # L) \<Longrightarrow> index_unpub k e L"
  unfolding index_unpub_def index_ok_def using index_drop by blast

lemma index_entry_ok:
  assumes "index_unpub k e L" "length L < unat (ep_blockIndexSize e)" "ep_tailBlock e = Some t"
  shows "\<exists>c f. ep_index_entry base e = Inr (e\<lparr>ep_blockIndex := c, ep_blockIndexFront := f\<rparr>) \<and> index_unpub k (e\<lparr>ep_blockIndex := c, ep_blockIndexFront := f\<rparr>) (L @ [(base, t)])"
proof -
  obtain v where v: "index_ok k (with_front v e) L" using assms(1) by (auto simp: index_unpub_def)
  then obtain bi where bi: "ep_blockIndex e = Some bi" by (auto simp: index_ok_def with_front_def)
  define e0 where "e0 = (with_front v e)\<lparr>ep_tailIndex := base\<rparr>"
  have "index_ok k e0 L" using v index_ok_cong [of e0 "with_front v e"] by (simp add: e0_def)
  moreover have "length L < unat (ep_blockIndexSize e0)" "ep_tailBlock e0 = Some t" using assms(2,3) by (simp_all add: e0_def with_front_def)
  ultimately obtain c0 f0 where 0: "ep_index_block e0 = Inr (e0\<lparr>ep_blockIndex := c0, ep_blockIndexFront := f0\<rparr>)"
    "index_ok k (e0\<lparr>ep_blockIndex := c0, ep_blockIndexFront := f0\<rparr>) (L @ [(base, t)])" using ep_index_block_ok [of k e0 L t] by (auto simp: e0_def)
  let ?f = "ep_blockIndexFront e"
  have lt: "unat ?f < length (bi_entries bi)" using 0(1) assms(3) by (auto simp: ep_index_block_def e0_def with_front_def bi split: if_splits)
  let ?c = "bi\<lparr>bi_entries := (bi_entries bi)[unat ?f := Some (base, t)]\<rparr>" and ?g = "(?f + 1) AND (ep_blockIndexSize e - 1)"
  have c0: "c0 = Some (?c\<lparr>bi_front := ?f\<rparr>)" "f0 = ?g" using 0(1) assms(3) lt by (auto simp: ep_index_block_def e0_def with_front_def bi dest: arg_cong [where f = ep_blockIndex] arg_cong [where f = ep_blockIndexFront])
  have "ep_index_entry base e = Inr (e\<lparr>ep_blockIndex := Some ?c, ep_blockIndexFront := ?g\<rparr>)" using lt bi assms(3) by (simp add: ep_index_entry_def)
  moreover have "index_ok k (with_front ?f (e\<lparr>ep_blockIndex := Some ?c, ep_blockIndexFront := ?g\<rparr>)) (L @ [(base, t)])"
    using 0(2) unfolding c0 by (subst index_ok_cong) (simp_all add: e0_def with_front_def)
  ultimately show ?thesis unfolding index_unpub_def by blast
qed

lemma index_published:
  assumes "index_unpub k e L" "L \<noteq> []"
  shows "\<exists>c. bulk_publish e = Inr (e\<lparr>ep_blockIndex := c\<rparr>) \<and> index_ok k (e\<lparr>ep_blockIndex := c\<rparr>) L"
proof -
  obtain v where v: "index_ok k (with_front v e) L" using assms(1) by (auto simp: index_unpub_def)
  then obtain s bi where i: "s < 62" "unat (ep_blockIndexSize e) = 2 ^ s" "ep_blockIndex e = Some bi" "length (bi_entries bi) = 2 ^ s"
    "index_rep (bi\<lparr>bi_front := v\<rparr>) (unat (ep_blockIndexFront e)) L" by (auto simp: index_ok_def with_front_def)
  let ?S = "2 ^ s :: nat" and ?n = "length L" and ?w = "(ep_blockIndexFront e - 1) AND (ep_blockIndexSize e - 1)"
  obtain r where r: "r < ?S" "?n \<le> ?S" "unat (ep_blockIndexFront e) = ring_at ?S r ?n" "unat v = ring_at ?S r (?n - 1)" using i(4,5) assms(2) by (auto simp: index_rep_def Let_def)
  obtain q where q: "?n = Suc q" using assms(2) by (cases L) simp_all
  have s64: "s < 64" using i(1) by simp
  have "unat ?w = (unat (ep_blockIndexFront e) + ?S - 1) mod ?S" using minus_mask [OF i(2) s64, of 1 "ep_blockIndexFront e"] by simp
  also have "\<dots> = ring_at ?S r (?n - 1)" using r(1,2) unfolding r(3) q by (auto simp: ring_at_def mod_if [of _ ?S])
  finally have "?w = v" using r(4) by (metis unat_inject)
  then have "e\<lparr>ep_blockIndex := Some (bi\<lparr>bi_front := ?w\<rparr>)\<rparr> = with_front v e" using i(3) by (simp add: with_front_def)
  then show ?thesis using v i(3) by (intro exI [of _ "Some (bi\<lparr>bi_front := ?w\<rparr>)"]) (simp add: bulk_publish_def)
qed

lemma new_block_index_expose:
  "new_block_index k n e = (case new_block_index k m e of None \<Rightarrow> None | Some (False, e') \<Rightarrow> Some (False, e') | Some (True, e') \<Rightarrow> Some (True, with_front (n - 1) e'))"
  by (auto simp: new_block_index_def Let_def with_front_def split: option.splits)

lemma new_block_index_front:
  "new_block_index k n (with_front v e) = (case new_block_index k n e of None \<Rightarrow> None | Some (False, e') \<Rightarrow> Some (False, with_front v e') | Some (True, e') \<Rightarrow> Some (True, e'))"
  by (cases "ep_blockIndex e") (auto simp: new_block_index_def Let_def with_front_def split: option.splits)


lemma unpub_new_index:
  assumes k: "traits_ok k" "malloc_ok k" and e: "index_unpub k e L \<or> no_index e \<and> L = []" and u: "unat (ep_blockIndexSlotsUsed e) = length L"
  shows "new_block_index k n e = Some (False, e) \<and> \<not> tr_malloc_index k (push_bit 1 (ep_blockIndexSize e)) \<or>
    (\<exists>a b c. let e' = e\<lparr>ep_blockIndexSize := a, ep_blockIndexFront := b, ep_blockIndex := c\<rparr>
       in new_block_index k n e = Some (True, e') \<and> index_unpub k e' L \<and> length L < unat a \<and> unat b = length L \<and> (unat n = length L \<longrightarrow> index_ok k e' L))"
proof -
  obtain v where v: "index_ok k (with_front v e) L \<or> no_index (with_front v e) \<and> L = []" using e by (auto simp: index_unpub_def no_index_def with_front_def)
  define m where "m = ep_blockIndexSlotsUsed e"
  have m: "ep_blockIndexSlotsUsed (with_front v e) = m" "unat m = length L" using u by (simp_all add: with_front_def m_def)
  then have "unat (ep_blockIndexSlotsUsed (with_front v e)) = length L" by simp
  from new_block_index_front_ok [OF k v this]
  consider (no) "new_block_index k m (with_front v e) = Some (False, with_front v e)" "\<not> tr_malloc_index k (push_bit 1 (ep_blockIndexSize e))"
    | (yes) a b c e1 where "e1 = (with_front v e)\<lparr>ep_blockIndexSize := a, ep_blockIndexFront := b, ep_blockIndex := c\<rparr>"
      "new_block_index k m (with_front v e) = Some (True, e1)" "index_ok k e1 L" "length L < unat a" "unat b = length L"
    unfolding m(1) Let_def by (auto simp: with_front_def)
  then show ?thesis
  proof cases
    case no
    then obtain e2 where e2: "new_block_index k m e = Some (False, e2)" using new_block_index_front [of k m v e] by (auto split: option.splits bool.splits)
    have "with_front v e2 = with_front v e" using no(1) e2 new_block_index_front [of k m v e] by simp
    moreover have "e2 = e\<lparr>ep_blockIndexSize := ep_blockIndexSize e2\<rparr>" using e2 no(2) by (auto simp: new_block_index_def Let_def)
    moreover have "ep_blockIndexSize e2 = ep_blockIndexSize e" using calculation(1) by (auto simp: with_front_def dest: arg_cong [where f = ep_blockIndexSize])
    ultimately have "e2 = e" by (metis (no_types) explicit_producer.surjective explicit_producer.update_convs(8))
    then have "new_block_index k n e = Some (False, e)" using new_block_index_expose [of k n e m] e2 by simp
    then show ?thesis using no(2) by blast
  next
    case yes
    have me: "new_block_index k m e = Some (True, e1)"
      using yes(2) new_block_index_front [of k m v e] by (auto split: option.splits bool.splits)
    then have n: "new_block_index k n e = Some (True, with_front (n - 1) e1)" using new_block_index_expose [of k n e m] by simp
    have e1: "with_front (n - 1) e1 = e\<lparr>ep_blockIndexSize := a, ep_blockIndexFront := b, ep_blockIndex := map_option (bi_front_update (\<lambda>_. n - 1)) c\<rparr>"
      using yes(1) by (simp add: with_front_def)
    obtain bi where c: "c = Some bi" using yes(1,3) by (auto simp: index_ok_def)
    have fr: "with_front (m - 1) e1 = e1" using me by (auto simp: new_block_index_def Let_def with_front_def split: if_splits option.splits)
    have "with_front (bi_front bi) (with_front (n - 1) e1) = e1" using yes(1) c by (simp add: with_front_def)
    then have "index_unpub k (with_front (n - 1) e1) L" using yes(3) unfolding index_unpub_def by metis
    moreover have "index_ok k (with_front (n - 1) e1) L" if "unat n = length L" using that m(2) fr yes(3) by (metis unat_inject)
    ultimately show ?thesis using n yes(4,5) unfolding e1 Let_def by blast
  qed
qed

section \<open>Taking the blocks\<close>

text \<open>
  \<open>c\<close> blocks have been taken so far; they are the last of the ring. The blocks before them hold all elements: \<open>M\<close> is the number of the first block taken,
  and \<open>sb\<close> is the block before it.
\<close>

definition bulk_inv :: "cq_traits \<Rightarrow> nat set \<Rightarrow> 'a ep_state \<Rightarrow> nat list \<Rightarrow> nat \<Rightarrow> nat \<Rightarrow> 'a list \<Rightarrow> nat \<Rightarrow> nat \<Rightarrow> nat \<Rightarrow> bool" where
  "bulk_inv k F = (\<lambda>(p, e) ring N H xs M sb c.
     ring_pend k (po_heap p) ring N H xs c \<and> N + length ring = M + c \<and> N * block_size k \<le> H \<and> H + length xs \<le> M * block_size k \<and>
     (c < length ring \<longrightarrow> (M - 1) * block_size k < H + length xs \<and> ring ! (length ring - Suc c) = sb) \<and> length ring * block_size k \<le> unat (tr_MAX_SUBQUEUE_SIZE k) \<and>
     pool_ok k p (set ring \<union> F) \<and> set ring \<inter> F = {} \<and>
     ep_headIndex e = of_nat H \<and> ep_tailIndex e = of_nat (H + length xs) \<and> ep_dequeueOptimisticCount e - ep_dequeueOvercommit e = ep_headIndex e \<and>
     ep_tailBlock e = (if ring = [] then None else Some (last ring)) \<and> unat (ep_blockIndexSlotsUsed e) = length ring \<and>
     (index_unpub k e (index_list k N ring) \<or> ring = [] \<and> no_index e))"

lemma bulk_inv_start: "ep_inv k F (p, e) ring N H xs \<Longrightarrow> bulk_inv k F (p, e) ring N H xs (N + length ring) (last ring) 0"
  by (auto simp: ep_inv_def bulk_inv_def ring_pend_0 last_conv_nth dest: index_ok_unpub)

definition first_taken :: "nat list \<Rightarrow> nat \<Rightarrow> nat option" where
  "first_taken ring c = (if c = 0 then None else Some (ring ! (length ring - c)))"

text \<open>What is left to do, and how far the blocks reach, as the code counts them.\<close>

definition bulk_diff :: "cq_traits \<Rightarrow> nat \<Rightarrow> nat \<Rightarrow> size_t" where
  "bulk_diff k D c = of_nat ((D - c) * block_size k)"

definition bulk_cur :: "cq_traits \<Rightarrow> nat \<Rightarrow> nat \<Rightarrow> index_t" where
  "bulk_cur k M c = of_nat ((M + c) * block_size k) - tr_BLOCK_SIZE k"

lemma of_nat_not_0: "x \<noteq> 0 \<Longrightarrow> x < 2 ^ 64 \<Longrightarrow> (of_nat x :: index_t) \<noteq> 0"
  by (auto simp: word_of_nat_eq_0_iff dest: dvd_imp_le)

lemma bulk_counts:
  assumes "traits_ok k" "c < D" "D * block_size k < 2 ^ 64"
  shows "bulk_diff k D c > 0" "bulk_diff k D c - tr_BLOCK_SIZE k = bulk_diff k D (Suc c)" "bulk_cur k M c + tr_BLOCK_SIZE k = of_nat ((M + c) * block_size k)"
    "bulk_cur k M c + tr_BLOCK_SIZE k = bulk_cur k M (Suc c)"
proof -
  have B: "0 < block_size k" using assms(1) by (rule traits_size) simp
  have "(D - c) * block_size k \<le> D * block_size k" by (intro mult_le_mono1) simp
  then have lt: "(D - c) * block_size k < 2 ^ 64" using assms(3) by (rule le_less_trans)
  have "(D - c) * block_size k \<noteq> 0" using assms(2) B by simp
  from of_nat_not_0 [OF this lt] show "bulk_diff k D c > 0" unfolding bulk_diff_def word_gt_0 by (rule not_sym)
  have "D - c = Suc (D - Suc c)" using assms(2) by simp
  then show "bulk_diff k D c - tr_BLOCK_SIZE k = bulk_diff k D (Suc c)" unfolding bulk_diff_def by (simp add: algebra_simps)
  show "bulk_cur k M c + tr_BLOCK_SIZE k = of_nat ((M + c) * block_size k)" "bulk_cur k M c + tr_BLOCK_SIZE k = bulk_cur k M (Suc c)"
    unfolding bulk_cur_def by (simp_all add: algebra_simps)
qed

lemma bulk_diff_done [simp]: "bulk_diff k D D = 0"
  by (simp add: bulk_diff_def)

lemma block_ahead_ok:
  assumes k: "traits_ok k" and i: "bulk_inv k F (p, e) ring N H xs M sb c"
  shows "block_ahead k (first_taken ring c) (p, e) = Inr None \<and> (ring = [] \<or> H < Suc N * block_size k) \<or>
    c < length ring \<and> block_ahead k (first_taken ring c) (p, e) = Inr (Some (hd ring)) \<and> Suc N * block_size k \<le> H \<and> (\<exists>b. po_heap p (hd ring) = Some b \<and> blank_block k b)"
proof (cases "ring = []")
  case True
  then show ?thesis using i by (simp add: bulk_inv_def block_ahead_def)
next
  case False
  let ?R = "length ring" and ?B = "block_size k"
  note I = i [unfolded bulk_inv_def prod.case]
  have B: "0 < ?B" using k by (rule traits_size) simp
  have r: "ring_pend k (po_heap p) ring N H xs c" and c: "c \<le> ?R" and d: "distinct ring" using I by (auto simp: ring_pend_def)
  have R: "0 < ?R" "last ring = ring ! (?R - 1)" "hd ring = ring ! 0" using False by (simp_all add: last_conv_nth hd_conv_nth)
  obtain t where t: "po_heap p (last ring) = Some t" "cqb_next t = Some (hd ring)" using ring_pend_nth [OF r, of "?R - 1"] R by auto
  obtain b where b: "po_heap p (hd ring) = Some b" "0 < ?R - c \<Longrightarrow> block_ok k b N H xs" using ring_pend_nth [OF r R(1)] R(3) by (metis add.right_neutral)
  have tb: "ep_tailBlock e = Some (last ring)" using I False by simp
  have first: "first_taken ring c = Some (hd ring) \<longleftrightarrow> c = ?R" using c R d by (auto simp: first_taken_def nth_eq_iff_index_eq)
  show ?thesis
  proof (cases "c = ?R")
    case True
    have N: "N = M" using I True by simp
    then have "H < Suc N * ?B" using I B by simp
    then show ?thesis using True first tb t by (simp add: block_ahead_def cq_deref_def)
  next
    case ne: False
    then have bo: "block_ok k b N H xs" and cR: "c < ?R" using b(2) c by simp_all
    let ?D = "{i. i < ?B \<and> N * ?B + i < H}"
    have em: "is_empty k explicit_context b = Inr (?D = {..<?B})" using bo by (intro cqb_empty_iff) (simp add: block_ok_def)
    have ah: "block_ahead k (first_taken ring c) (p, e) = Inr (if ?D = {..<?B} then Some (hd ring) else None)"
      using ne first tb t b(1) em by (auto simp: block_ahead_def cq_deref_def)
    show ?thesis
    proof (cases "?D = {..<?B}")
      case True
      then have "is_empty k explicit_context b = Inr True" using em by simp
      from empty_block [OF bo this B] show ?thesis using ah True b(1) cR by simp
    next
      case no: False
      then obtain i where "i < ?B" "H \<le> N * ?B + i" by fastforce
      then have "H < Suc N * ?B" by simp
      then show ?thesis using ah no by simp
    qed
  qed
qed

lemma take_ahead_ok:
  assumes i: "bulk_inv k F (p, e) ring N H xs M sb c" and c: "c < length ring" and H: "Suc N * block_size k \<le> H" and b: "po_heap p (hd ring) = Some b" "blank_block k b"
  shows "\<exists>e'. ep_index_entry (of_nat ((M + c) * block_size k)) (e\<lparr>ep_tailBlock := Some (hd ring)\<rparr>) = Inr e' \<and>
    bulk_inv k F (p, e') (rotate1 ring) (Suc N) H xs M sb (Suc c) \<and> first_block (first_taken ring c) (hd ring) = first_taken (rotate1 ring) (Suc c) \<and>
    ep_blockIndexSize e' = ep_blockIndexSize e"
proof -
  let ?R = "length ring" and ?B = "block_size k"
  note I = i [unfolded bulk_inv_def prod.case]
  obtain a as where a: "ring = a # as" using c by (cases ring) auto
  have r: "ring_pend k (po_heap p) ring N H xs c" using I by blast
  have n: "N + ?R = M + c" using I by blast
  define e0 where "e0 = e\<lparr>ep_tailBlock := Some a\<rparr>"
  have ix: "index_unpub k e (index_list k N ring)" using I a by auto
  have "?R \<le> unat (ep_blockIndexSize e)" using index_unpub_length [OF ix] by simp
  moreover have "index_unpub k e (index_list k (Suc N) as)" using index_unpub_drop [of k e] ix a by simp
  then have "index_unpub k e0 (index_list k (Suc N) as)" using index_unpub_cong [of e0 e k] by (simp add: e0_def)
  ultimately obtain x f where x: "ep_index_entry (of_nat ((M + c) * ?B)) e0 = Inr (e0\<lparr>ep_blockIndex := x, ep_blockIndexFront := f\<rparr>)"
    "index_unpub k (e0\<lparr>ep_blockIndex := x, ep_blockIndexFront := f\<rparr>) (index_list k (Suc N) as @ [(of_nat ((M + c) * ?B), a)])"
    using index_entry_ok [of k e0 "index_list k (Suc N) as" a "of_nat ((M + c) * ?B)"] a by (auto simp: e0_def)
  have "index_list k (Suc N) as @ [(of_nat ((M + c) * ?B), a)] = index_list k (Suc N) (rotate1 ring)"
    using n a by (simp add: index_list_snoc)
  moreover have sb: "ring ! (?R - Suc c) = sb" using I c by blast
  then have rot: "c < length as \<longrightarrow> (as @ [a]) ! (length as - Suc c) = sb" unfolding a by (auto simp: nth_append nth_Cons')
  ultimately have "bulk_inv k F (p, e0\<lparr>ep_blockIndex := x, ep_blockIndexFront := f\<rparr>) (rotate1 ring) (Suc N) H xs M sb (Suc c)"
    unfolding bulk_inv_def prod.case using I ring_pend_rotate [OF r c b] x(2) H n a rot by (simp add: e0_def)
  moreover have "first_block (first_taken ring c) (hd ring) = first_taken (rotate1 ring) (Suc c)"
    using c a by (cases c) (auto simp: first_block_def first_taken_def nth_append Suc_diff_Suc nth_Cons')
  ultimately show ?thesis using x(1) a by (auto simp: e0_def)
qed

lemma bulk_ahead_ok:
  assumes k: "traits_ok k" and D: "D * block_size k < 2 ^ 64"
  shows "c \<le> D \<Longrightarrow> bulk_inv k F (p, e) ring N H xs M sb c \<Longrightarrow>
    \<exists>ring' N' c' e'. bulk_ahead k (bulk_diff k D c) (bulk_cur k M c) (first_taken ring c) (p, e) =
        Some (Inr (bulk_diff k D c', bulk_cur k M c', first_taken ring' c', p, e')) \<and>
      bulk_inv k F (p, e') ring' N' H xs M sb c' \<and> c' \<le> D \<and> length ring' = length ring \<and> ep_blockIndexSize e' = ep_blockIndexSize e \<and>
      (c' < D \<longrightarrow> ring' = [] \<or> H < Suc N' * block_size k) \<and> (c' = c \<longrightarrow> e' = e \<and> ring' = ring \<and> N' = N) \<and> c \<le> c'"
proof (induction "D - c" arbitrary: c e ring N)
  case 0
  then have "c = D" by simp
  then show ?case using 0 by (intro exI [of _ ring] exI [of _ N] exI [of _ D] exI [of _ e]) (subst bulk_ahead.simps, simp)
next
  case (Suc d)
  then have cD: "c < D" by simp
  note cnt = bulk_counts [OF k cD D]
  from block_ahead_ok [OF k Suc.prems(2)] show ?case
  proof (elim disjE conjE exE)
    assume "block_ahead k (first_taken ring c) (p, e) = Inr None" "ring = []"
    then show ?thesis using cnt(1) Suc.prems by (subst bulk_ahead.simps) fastforce
  next
    assume "block_ahead k (first_taken ring c) (p, e) = Inr None" "H < Suc N * block_size k"
    then show ?thesis using cnt(1) Suc.prems by (subst bulk_ahead.simps) fastforce
  next
    fix b assume a: "c < length ring" "block_ahead k (first_taken ring c) (p, e) = Inr (Some (hd ring))" "Suc N * block_size k \<le> H" "po_heap p (hd ring) = Some b" "blank_block k b"
    obtain e1 where e1: "ep_index_entry (of_nat ((M + c) * block_size k)) (e\<lparr>ep_tailBlock := Some (hd ring)\<rparr>) = Inr e1"
      "bulk_inv k F (p, e1) (rotate1 ring) (Suc N) H xs M sb (Suc c)" "first_block (first_taken ring c) (hd ring) = first_taken (rotate1 ring) (Suc c)"
      "ep_blockIndexSize e1 = ep_blockIndexSize e" using take_ahead_ok [OF Suc.prems(2) a(1,3-5)] by blast
    have step: "bulk_ahead k (bulk_diff k D c) (bulk_cur k M c) (first_taken ring c) (p, e) =
        bulk_ahead k (bulk_diff k D (Suc c)) (bulk_cur k M (Suc c)) (first_taken (rotate1 ring) (Suc c)) (p, e1)"
      using cnt a(2) e1(1,3) by (subst bulk_ahead.simps) (simp add: Let_def)
    have "d = D - Suc c" "Suc c \<le> D" using Suc.hyps(2) cD by simp_all
    from Suc.hyps(1) [OF this e1(2)] show ?thesis unfolding step e1(4) length_rotate1 by (metis Suc_leD Suc_n_not_le_n)
  qed
qed

lemma bulk_link_ok:
  assumes r: "ring_pend k (po_heap p) ring N H xs c" and p: "pool_ok k p (set ring \<union> F \<union> {a})" "a \<notin> set ring \<union> F" "set ring \<inter> F = {}"
    and b: "po_heap p a = Some b" "cqb_elements b = replicate (block_size k) None" and t: "ep_tailBlock e = (if ring = [] then None else Some (last ring))"
  shows "\<exists>p'. bulk_link k a (p, e) = Inr (p', e\<lparr>ep_tailBlock := Some a, ep_blockIndexSlotsUsed := ep_blockIndexSlotsUsed e + 1\<rparr>) \<and>
    ring_pend k (po_heap p') (ring @ [a]) N H xs (Suc c) \<and> pool_ok k p' (set (ring @ [a]) \<union> F) \<and> same_on F p p'"
proof (cases "ring = []")
  case True
  define p' where "p' = cq_write a (set_all_empty k explicit_context b\<lparr>cqb_next := Some a\<rparr>) p"
  have "blank_block k (set_all_empty k explicit_context b\<lparr>cqb_next := Some a\<rparr>)" using set_all_empty_blank [OF b(2)] by simp
  moreover have "c = 0" using r True by (simp add: ring_pend_def)
  ultimately have "ring_pend k (po_heap p') (ring @ [a]) N H xs (Suc c)" using True by (simp add: ring_pend_def p'_def cq_write_def)
  moreover have "pool_ok k p' (set (ring @ [a]) \<union> F)" unfolding p'_def using p(1) True by (intro pool_ok_write) (simp_all add: Un_commute)
  ultimately show ?thesis using True t b(1) p(2) by (intro exI [of _ p']) (simp add: bulk_link_def cq_deref_def p'_def same_on_def cq_write_def)
next
  case False
  obtain tb where tb: "po_heap p (last ring) = Some tb" using ring_pend_nth [OF r, of "length ring - 1"] False by (auto simp: last_conv_nth)
  define p' where "p' = cq_write (last ring) (tb\<lparr>cqb_next := Some a\<rparr>) (cq_write a (set_all_empty k explicit_context b\<lparr>cqb_next := cqb_next tb\<rparr>) p)"
  have l: "last ring \<in> set ring" using False by simp
  then have ne: "last ring \<noteq> a" "last ring \<notin> F" using p(2,3) by auto
  have "ring_pend k (po_heap p') (ring @ [a]) N H xs (Suc c)"
    using ring_pend_append [OF r _ False set_all_empty_blank [OF b(2)] tb, of a] p(2) by (simp add: p'_def cq_write_def)
  moreover have "pool_ok k p' (set ring \<union> F \<union> {a})" unfolding p'_def using p(1) l by (intro pool_ok_write) auto
  then have "pool_ok k p' (set (ring @ [a]) \<union> F)" by (simp add: Un_commute)
  ultimately show ?thesis using False t b(1) p(2) tb ne
    by (intro exI [of _ p']) (auto simp: bulk_link_def cq_deref_def p'_def same_on_def cq_write_def Let_def)
qed

text \<open>The test for the limit of the sub-queue, one block further on.\<close>

lemma bulk_full_ok:
  assumes k: "traits_ok k" "limit_ok k" and i: "bulk_inv k F (p, e) ring N H xs M sb c" and H: "ring = [] \<or> H < Suc N * block_size k"
    and P_def: "P = (M + c) * block_size k"
  shows "\<not> circular_less_than (of_nat P) (ep_headIndex e)"
    "bulk_full k (of_nat P) e \<Longrightarrow> unat (tr_MAX_SUBQUEUE_SIZE k) + H < P + block_size k"
    "\<not> bulk_full k (of_nat P) e \<Longrightarrow> Suc (length ring) * block_size k \<le> unat (tr_MAX_SUBQUEUE_SIZE k)"
proof -
  let ?B = "block_size k" and ?R = "length ring" and ?mx = "tr_MAX_SUBQUEUE_SIZE k"
  note I = i [unfolded bulk_inv_def prod.case]
  have B: "0 < ?B" "?B < 2 ^ 32" using k(1) by (rule traits_size, simp)+
  have hd: "ep_headIndex e = of_nat H" and NM: "N + ?R = M + c" and NH: "N * ?B \<le> H" using I by blast+
  have "M * ?B \<le> P" unfolding P_def by (intro mult_le_mono1) simp
  then have HP: "H \<le> P" using I by linarith
  have "?R * ?B \<le> 2 ^ 62" using I index_unpub_size [of k e "index_list k N ring"] by auto
  moreover have P: "P = N * ?B + ?R * ?B" unfolding P_def NM [symmetric] by (rule add_mult_distrib)
  ultimately have PH: "P \<le> H + 2 ^ 62" using NH by linarith
  show "\<not> circular_less_than (of_nat P) (ep_headIndex e)" unfolding hd using HP PH by (intro circular_nat') simp_all
  have "circular_less_than (ep_headIndex e) (of_nat P + tr_BLOCK_SIZE k)"
    using circular_nat [of H "P + ?B"] HP PH B unfolding hd by simp
  then have full: "bulk_full k (of_nat P) e \<longleftrightarrow> ?mx \<noteq> - 1 \<and> (?mx = 0 \<or> ?mx - tr_BLOCK_SIZE k < of_nat (P - H))"
    using HP unfolding bulk_full_def Let_def hd by (simp add: of_nat_diff)
  have diff: "unat (of_nat (P - H) :: index_t) = P - H" using PH by (simp add: unat_of_nat)
  have dvd: "?B dvd unat ?mx" if "?mx \<noteq> - 1" using k(2) that by (auto simp: limit_ok_def)
  have sub: "unat (?mx - tr_BLOCK_SIZE k) = unat ?mx - ?B" "?B \<le> unat ?mx" if "?mx \<noteq> - 1" "?mx \<noteq> 0"
  proof -
    show le: "?B \<le> unat ?mx" using dvd [OF that(1)] that(2) by (intro dvd_imp_le) (simp_all add: unat_gt_0)
    then show "unat (?mx - tr_BLOCK_SIZE k) = unat ?mx - ?B" by (simp add: unat_sub word_le_nat_alt)
  qed
  show "unat ?mx + H < P + ?B" if "bulk_full k (of_nat P) e"
  proof (cases "?mx = 0")
    case False
    then have "unat ?mx - ?B < P - H" "?B \<le> unat ?mx" using that [unfolded full] sub diff by (auto simp: word_less_nat_alt)
    then show ?thesis by linarith
  qed (use HP B(1) in simp)
  show "Suc ?R * ?B \<le> unat ?mx" if nf: "\<not> bulk_full k (of_nat P) e"
  proof (cases "?mx = - 1")
    case True
    then show ?thesis using \<open>?R * ?B \<le> 2 ^ 62\<close> B(2) by (simp add: unsigned_minus_1_eq_mask mask_eq_exp_minus_1)
  next
    case False
    then have "?mx \<noteq> 0" "P - H \<le> unat ?mx - ?B" "?B \<le> unat ?mx" using nf [unfolded full] sub diff by (auto simp: word_less_nat_alt not_less)
    then have le: "P + ?B \<le> unat ?mx + H" using HP by linarith
    obtain q where q: "unat ?mx = q * ?B" using dvd [OF False] by (metis dvd_def mult.commute)
    have "H < Suc N * ?B"
    proof (cases "ring = []")
      case True
      then have "H \<le> N * ?B" using I NM HP P by simp
      then show ?thesis using B(1) by simp
    qed (use H in simp)
    then have "H < N * ?B + ?B" by simp
    moreover have "N * ?B + ?R * ?B + ?B \<le> q * ?B + H" using le unfolding P q .
    ultimately have "?R * ?B < q * ?B" by linarith
    then have "Suc ?R \<le> q" by simp
    then show ?thesis unfolding q by (rule mult_le_mono1)
  qed
qed

lemma bulk_room_ok:
  assumes k: "traits_ok k" "limit_ok k" "malloc_ok k" and i: "bulk_inv k F (p, e) ring N H xs M sb c" and H: "ring = [] \<or> H < Suc N * block_size k"
    and P: "P = (M + c) * block_size k" and z: "ring = [] \<longrightarrow> unat (ep_blockIndexSize e) \<le> z0" "length ring \<le> z0 + c"
  defines "L \<equiv> index_list k N ring"
  shows "bulk_index_room k canAlloc (of_nat P) s e = Some (False, s, e) \<and>
      (unat (tr_MAX_SUBQUEUE_SIZE k) + H < P + block_size k \<or> \<not> canAlloc \<or> (\<exists>z. unat z \<le> 2 * (z0 + c) \<and> \<not> tr_malloc_index k z)) \<or>
    (\<exists>x y z f. let e' = e\<lparr>ep_blockIndexSize := x, ep_blockIndexFront := y, ep_blockIndex := z\<rparr>
       in bulk_index_room k canAlloc (of_nat P) s e = Some (True, s\<lparr>bs_originalBlockIndexFront := f\<rparr>, e') \<and> index_unpub k e' L \<and> length ring < unat x \<and>
         Suc (length ring) * block_size k \<le> unat (tr_MAX_SUBQUEUE_SIZE k) \<and>
         (unat (bs_originalBlockIndexSlotsUsed s) = length ring \<and> (index_ok k e L \<or> no_index e) \<and> bs_originalBlockIndexFront s = ep_blockIndexFront e \<longrightarrow> index_ok k e' L \<and> f = y))"
proof -
  let ?R = "length ring"
  note I = i [unfolded bulk_inv_def prod.case]
  note g = bulk_full_ok [OF k(1,2) i H P]
  have L: "length L = ?R" "index_unpub k e L \<or> no_index e \<and> L = []" "unat (ep_blockIndexSlotsUsed e) = length L" using I by (auto simp: L_def)
  show ?thesis
  proof (cases "bulk_full k (of_nat P) e")
    case True
    then show ?thesis using g(2) by (simp add: bulk_index_room_def Let_def)
  next
    case nf: False
    note max = g(3) [OF nf]
    show ?thesis
    proof (cases "ep_blockIndex e = None \<or> ep_blockIndexSlotsUsed e = ep_blockIndexSize e")
      case False
      then have ix: "index_unpub k e L" using L(2) by (auto simp: no_index_def)
      have "?R \<le> unat (ep_blockIndexSize e)" using index_unpub_length [OF ix] L(1) by simp
      moreover have "?R \<noteq> unat (ep_blockIndexSize e)" using False L(1,3) by (metis unat_inject)
      ultimately have lt: "?R < unat (ep_blockIndexSize e)" by simp
      have room: "bulk_index_room k canAlloc (of_nat P) s e = Some (True, s, e)" using False nf by (auto simp: bulk_index_room_def Let_def)
      have "\<not> no_index e" using False by (auto simp: no_index_def)
      note fs = room this ix lt max
      show ?thesis
        by (rule disjI2, rule exI [of _ "ep_blockIndexSize e"], rule exI [of _ "ep_blockIndexFront e"], rule exI [of _ "ep_blockIndex e"],
            rule exI [of _ "bs_originalBlockIndexFront s"]) (use fs in \<open>simp add: Let_def\<close>)
    next
      case need: True
      show ?thesis
      proof (cases canAlloc)
        case False
        then have "bulk_index_room k canAlloc (of_nat P) s e = Some (False, s, e)" using need by (auto simp: bulk_index_room_def Let_def)
        then show ?thesis using False by blast
      next
        case alloc: True
        let ?n = "bs_originalBlockIndexSlotsUsed s"
        from unpub_new_index [OF k(1,3) L(2,3), of ?n] show ?thesis
        proof (elim disjE exE conjE)
          assume a: "new_block_index k ?n e = Some (False, e)" "\<not> tr_malloc_index k (push_bit 1 (ep_blockIndexSize e))"
          have "unat (ep_blockIndexSize e) \<le> z0 + c"
          proof (cases "ep_blockIndexSlotsUsed e = ep_blockIndexSize e")
            case True
            then show ?thesis using L(1,3) z(2) by simp
          next
            case False
            then have "ring = []" using need L(2) by (auto simp: index_unpub_def index_ok_def with_front_def L_def) (cases ring; simp)
            then show ?thesis using z(1) by simp
          qed
          moreover have "unat (push_bit 1 (ep_blockIndexSize e)) \<le> 2 * unat (ep_blockIndexSize e)" by (simp add: push_bit_eq_mult unat_word_ariths)
          ultimately have "unat (push_bit 1 (ep_blockIndexSize e)) \<le> 2 * (z0 + c)" by (meson mult_le_mono2 order_trans)
          then show ?thesis using a need nf alloc by (auto simp: bulk_index_room_def Let_def)
        next
          fix x y z
          assume a: "let e' = e\<lparr>ep_blockIndexSize := x, ep_blockIndexFront := y, ep_blockIndex := z\<rparr>
            in new_block_index k ?n e = Some (True, e') \<and> index_unpub k e' L \<and> length L < unat x \<and> unat y = length L \<and> (unat ?n = length L \<longrightarrow> index_ok k e' L)"
          then have room: "bulk_index_room k canAlloc (of_nat P) s e = Some (True, s\<lparr>bs_originalBlockIndexFront := ?n\<rparr>, e\<lparr>ep_blockIndexSize := x, ep_blockIndexFront := y, ep_blockIndex := z\<rparr>)"
            using need nf alloc by (simp add: bulk_index_room_def Let_def)
          have "?n = y" if "unat ?n = ?R" using that a L(1) by (simp add: Let_def flip: unat_inject)
          note fs = this room a max L(1)
          show ?thesis by (rule disjI2, rule exI [of _ x], rule exI [of _ y], rule exI [of _ z], rule exI [of _ ?n]) (use fs in \<open>simp add: Let_def\<close>)
        qed
      qed
    qed
  qed
qed

lemma requisition_fresh: "requisition_block k canAlloc p = (r, p') \<Longrightarrow> po_fresh p \<le> po_fresh p'"
  by (auto simp: requisition_block_def try_get_block_from_initial_pool_def try_get_block_from_free_list_def create_block_def cq_write_def Let_def
      split: if_splits list.splits)

lemma bulk_link_fresh: "bulk_link k a (p, e) = Inr (p', e') \<Longrightarrow> po_fresh p' = po_fresh p"
  by (auto simp: bulk_link_def cq_deref_def cq_write_def Let_def split: option.splits if_splits)

text \<open>One more block at the end of the ring.\<close>

lemma bulk_grow_ok:
  assumes i: "bulk_inv k F (p, e) ring N H xs M sb c" and k: "traits_ok k" and ix: "index_unpub k e (index_list k N ring)" "length ring < unat (ep_blockIndexSize e)"
    and mx: "Suc (length ring) * block_size k \<le> unat (tr_MAX_SUBQUEUE_SIZE k)" and q: "requisition_block k canAlloc p = (Some a, p1)"
  shows "\<exists>p2 e2 e3. bulk_link k a (p1, e) = Inr (p2, e2) \<and> ep_index_entry (of_nat ((M + c) * block_size k)) e2 = Inr e3 \<and>
    bulk_inv k F (p2, e3) (ring @ [a]) N H xs M sb (Suc c) \<and> same_on F p p2 \<and> po_fresh p \<le> po_fresh p2 \<and>
    first_block (first_taken ring c) a = first_taken (ring @ [a]) (Suc c)"
proof -
  let ?R = "length ring" and ?B = "block_size k"
  note I = i [unfolded bulk_inv_def prod.case]
  have po: "pool_ok k p (set ring \<union> F)" and n: "N + ?R = M + c" and r: "ring_pend k (po_heap p) ring N H xs c" and dis: "set ring \<inter> F = {}" using I by blast+
  note Q = requisition_ok [OF po q]
  obtain b where b: "a \<notin> set ring \<union> F" "po_heap p1 a = Some b" "cqb_elements b = replicate ?B None" using Q(3) by blast
  have sub: "set ring \<subseteq> dom (po_heap p)" "F \<subseteq> dom (po_heap p)" using po by (auto simp: pool_ok_def)
  have r1: "ring_pend k (po_heap p1) ring N H xs c" by (rule ring_pend_frame [OF r]) (use Q(2) sub(1) in blast)
  have p1: "pool_ok k p1 (set ring \<union> F \<union> {a})" using Q(1) by simp
  have tb: "ep_tailBlock e = (if ring = [] then None else Some (last ring))" using I by blast
  define e2 where "e2 = e\<lparr>ep_tailBlock := Some a, ep_blockIndexSlotsUsed := ep_blockIndexSlotsUsed e + 1\<rparr>"
  obtain p2 where p2: "bulk_link k a (p1, e) = Inr (p2, e2)" "ring_pend k (po_heap p2) (ring @ [a]) N H xs (Suc c)"
    "pool_ok k p2 (set (ring @ [a]) \<union> F)" "same_on F p1 p2" using bulk_link_ok [OF r1 p1 b(1) dis b(2,3) tb] unfolding e2_def by blast
  have "index_unpub k e2 (index_list k N ring)" using ix(1) index_unpub_cong [of e2 e k] by (simp add: e2_def)
  moreover have "length (index_list k N ring) < unat (ep_blockIndexSize e2)" "ep_tailBlock e2 = Some a" using ix(2) by (simp_all add: e2_def)
  ultimately obtain x f where x: "ep_index_entry (of_nat ((M + c) * ?B)) e2 = Inr (e2\<lparr>ep_blockIndex := x, ep_blockIndexFront := f\<rparr>)"
    "index_unpub k (e2\<lparr>ep_blockIndex := x, ep_blockIndexFront := f\<rparr>) (index_list k N ring @ [(of_nat ((M + c) * ?B), a)])"
    using index_entry_ok by blast
  have u: "unat (ep_blockIndexSlotsUsed e) = ?R" using I by blast
  then have u2: "unat (ep_blockIndexSlotsUsed e2) = Suc ?R"
    using ix(2) unat_plus_one [of "ep_blockIndexSlotsUsed e" "ep_blockIndexSize e"] by (simp add: e2_def word_less_nat_alt)
  have il: "index_list k N ring @ [(of_nat ((M + c) * ?B), a)] = index_list k N (ring @ [a])" by (simp add: index_list_snoc n)
  have app: "Suc c < Suc ?R \<longrightarrow> (ring @ [a]) ! (Suc ?R - Suc (Suc c)) = ring ! (?R - Suc c)" by (auto simp: nth_append)
  have "bulk_inv k F (p2, e2\<lparr>ep_blockIndex := x, ep_blockIndexFront := f\<rparr>) (ring @ [a]) N H xs M sb (Suc c)"
    unfolding bulk_inv_def prod.case using I p2(2,3) b(1) x(2) [unfolded il] mx u2 app by (simp add: e2_def)
  moreover have "same_on F p p2" using p2(4) Q(2) sub(2) unfolding same_on_def by (metis subsetD)
  moreover have "po_fresh p \<le> po_fresh p2" using requisition_fresh [OF q] bulk_link_fresh [OF p2(1)] by simp
  moreover have "c \<le> ?R" using r by (simp add: ring_pend_def)
  then have "first_block (first_taken ring c) a = first_taken (ring @ [a]) (Suc c)"
    by (cases c) (auto simp: first_block_def first_taken_def nth_append)
  ultimately show ?thesis using p2(1) x(1) by blast
qed

lemma ep_inv_bulk:
  "bulk_inv k F (p, e) ring N H xs M sb 0 \<Longrightarrow> index_ok k e (index_list k N ring) \<or> ring = [] \<and> no_index e \<Longrightarrow> ep_inv k F (p, e) ring N H xs"
  by (auto simp: ep_inv_def bulk_inv_def ring_pend_0)

text \<open>Nothing but the index has changed, and the undoing finds it as it is.\<close>

definition undo_matches :: "cq_traits \<Rightarrow> bulk_start \<Rightarrow> explicit_producer \<Rightarrow> nat list \<Rightarrow> nat \<Rightarrow> bool" where
  "undo_matches k s e ring N \<longleftrightarrow> bs_startBlock s = ep_tailBlock e \<and> bs_originalBlockIndexFront s = ep_blockIndexFront e \<and>
     bs_originalBlockIndexSlotsUsed s = ep_blockIndexSlotsUsed e \<and> (index_ok k e (index_list k N ring) \<or> ring = [] \<and> no_index e)"

lemma bulk_undo_ok:
  assumes "bulk_inv k F (p, e) ring N H xs M sb 0" "undo_matches k s e ring N"
  shows "ep_inv k F (p, bulk_undo s (first_taken ring 0) e) ring N H xs"
proof -
  have "bulk_undo s (first_taken ring 0) e = e" using assms by (simp add: bulk_undo_def undo_matches_def first_taken_def)
  moreover have "ep_inv k F (p, e) ring N H xs" by (rule ep_inv_bulk [OF assms(1)]) (use assms(2) in \<open>simp add: undo_matches_def\<close>)
  ultimately show ?thesis by simp
qed

text \<open>Why \<open>enqueue_bulk\<close> refuses, with the sizes at the beginning of the call.\<close>

definition alloc_fails :: "cq_traits \<Rightarrow> bool \<Rightarrow> nat \<Rightarrow> nat \<Rightarrow> nat \<Rightarrow> bool" where
  "alloc_fails k canAlloc n z0 f0 \<longleftrightarrow> unat (tr_MAX_SUBQUEUE_SIZE k) < n + block_size k \<or> \<not> canAlloc \<or>
     (\<exists>z. unat z \<le> 2 * z0 \<and> \<not> tr_malloc_index k z) \<or> (\<exists>a \<ge> f0. \<not> tr_malloc_block k a)"

lemma bulk_new_ok:
  assumes k: "traits_ok k" "limit_ok k" "malloc_ok k" and D: "D * block_size k < 2 ^ 64" and m: "(M + D - 1) * block_size k < H + n"
  shows "c \<le> D \<Longrightarrow> bulk_inv k F (p, e) ring N H xs M sb c \<Longrightarrow> c < D \<longrightarrow> ring = [] \<or> H < Suc N * block_size k \<Longrightarrow>
    ring = [] \<longrightarrow> unat (ep_blockIndexSize e) \<le> z0 \<Longrightarrow> length ring \<le> z0 + c \<Longrightarrow> f0 \<le> po_fresh p \<Longrightarrow>
    \<exists>b f s' p' e'. bulk_new k canAlloc (bulk_diff k D c) (bulk_cur k M c) (first_taken ring c) s (p, e) = Some (Inr (b, f, s', p', e')) \<and> same_on F p p' \<and>
      bs_startBlock s' = bs_startBlock s \<and>
      (if b then \<exists>ring' N'. bulk_inv k F (p', e') ring' N' H xs M sb D \<and> f = first_taken ring' D
       else c < D \<and> alloc_fails k canAlloc n (z0 + D) f0 \<and> (Suc c = D \<and> c = 0 \<and> undo_matches k s e ring N \<longrightarrow> ep_inv k F (p', e') ring N H xs))"
proof (induction "D - c" arbitrary: c s p e ring)
  case 0
  then have "c = D" by simp
  then show ?case using 0 by (subst bulk_new.simps) (auto simp: same_on_def)
next
  case (Suc d)
  let ?B = "block_size k" and ?R = "length ring"
  have cD: "c < D" using Suc.hyps(2) by simp
  note cnt = bulk_counts [OF k(1) cD D]
  have H: "ring = [] \<or> H < Suc N * ?B" using Suc.prems(3) cD by blast
  define P where "P = (M + c) * ?B"
  note g = bulk_full_ok(1) [OF k(1,2) Suc.prems(2) H P_def]
  have "P \<le> (M + D - 1) * ?B" unfolding P_def using cD by (intro mult_le_mono1) simp
  then have Pn: "P < H + n" using m by linarith
  note go = bulk_new.simps [of k canAlloc "bulk_diff k D c" "bulk_cur k M c" "first_taken ring c" s "(p, e)"]
  have step: "bulk_new k canAlloc (bulk_diff k D c) (bulk_cur k M c) (first_taken ring c) s (p, e) =
     (case bulk_index_room k canAlloc (of_nat P) s e of
        None \<Rightarrow> None
      | Some (room, s, e) \<Rightarrow>
          if \<not> room then Some (Inr (False, first_taken ring c, s, p, bulk_undo s (first_taken ring c) e))
          else (case requisition_block k canAlloc p of
             (None, p) \<Rightarrow> Some (Inr (False, first_taken ring c, s, p, bulk_undo s (first_taken ring c) e))
           | (Some a, p) \<Rightarrow>
               (case bulk_link k a (p, e) of
                  Inl err \<Rightarrow> Some (Inl err)
                | Inr (p, e) \<Rightarrow>
                    (case ep_index_entry (of_nat P) e of
                       Inl err \<Rightarrow> Some (Inl err)
                     | Inr e \<Rightarrow> bulk_new k canAlloc (bulk_diff k D (Suc c)) (of_nat P) (first_block (first_taken ring c) a) s (p, e)))))"
    unfolding go using cnt(1,2) g unfolding cnt(3) P_def [symmetric] fst_conv snd_conv by (simp add: Let_def)
  consider (none) "bulk_index_room k canAlloc (of_nat P) s e = Some (False, s, e)"
      "unat (tr_MAX_SUBQUEUE_SIZE k) + H < P + ?B \<or> \<not> canAlloc \<or> (\<exists>z. unat z \<le> 2 * (z0 + c) \<and> \<not> tr_malloc_index k z)"
    | (room) x y z f e1 where "e1 = e\<lparr>ep_blockIndexSize := x, ep_blockIndexFront := y, ep_blockIndex := z\<rparr>"
      "bulk_index_room k canAlloc (of_nat P) s e = Some (True, s\<lparr>bs_originalBlockIndexFront := f\<rparr>, e1)" "index_unpub k e1 (index_list k N ring)" "?R < unat x"
      "Suc ?R * ?B \<le> unat (tr_MAX_SUBQUEUE_SIZE k)"
      "unat (bs_originalBlockIndexSlotsUsed s) = ?R \<and> (index_ok k e (index_list k N ring) \<or> no_index e) \<and> bs_originalBlockIndexFront s = ep_blockIndexFront e \<longrightarrow>
         index_ok k e1 (index_list k N ring) \<and> f = y"
    using bulk_room_ok [OF k Suc.prems(2) H P_def Suc.prems(4,5), of canAlloc s] unfolding Let_def by blast
  then show ?case
  proof cases
    case none
    have "alloc_fails k canAlloc n (z0 + D) f0" using none(2)
    proof (elim disjE exE conjE)
      assume "unat (tr_MAX_SUBQUEUE_SIZE k) + H < P + ?B"
      then show ?thesis using Pn by (simp add: alloc_fails_def)
    next
      fix z :: size_t assume "unat z \<le> 2 * (z0 + c)" "\<not> tr_malloc_index k z"
      moreover have "2 * (z0 + c) \<le> 2 * (z0 + D)" using cD by simp
      ultimately show ?thesis unfolding alloc_fails_def by (meson order_trans)
    qed (simp add: alloc_fails_def)
    moreover have "ep_inv k F (p, bulk_undo s (first_taken ring c) e) ring N H xs" if "c = 0" "undo_matches k s e ring N"
      using bulk_undo_ok [OF _ that(2)] Suc.prems(2) that(1) by blast
    ultimately show ?thesis unfolding step none(1) using cD by (auto simp: same_on_def)
  next
    case room
    have i1: "bulk_inv k F (p, e1) ring N H xs M sb c"
      using Suc.prems(2) room(1,3) by (simp add: bulk_inv_def)
    show ?thesis
    proof (cases "requisition_block k canAlloc p")
      case (Pair r p1)
      show ?thesis
      proof (cases r)
        case None
        have po: "pool_ok k p (set ring \<union> F)" using Suc.prems(2) by (auto simp: bulk_inv_def)
        have p1: "p1 = p" "\<not> canAlloc \<or> \<not> tr_malloc_block k (po_fresh p)" using requisition_ok(4) [OF po Pair None] by blast+
        then have "alloc_fails k canAlloc n (z0 + D) f0" using Suc.prems(6) unfolding alloc_fails_def by blast
        moreover have "ep_inv k F (p, bulk_undo (s\<lparr>bs_originalBlockIndexFront := f\<rparr>) (first_taken ring c) e1) ring N H xs" if c: "c = 0" and um: "undo_matches k s e ring N"
        proof -
          have u: "unat (bs_originalBlockIndexSlotsUsed s) = ?R" using um Suc.prems(2) by (auto simp: bulk_inv_def undo_matches_def)
          have "index_ok k e1 (index_list k N ring) \<and> f = y" using room(6) u um by (auto simp: undo_matches_def)
          then have "undo_matches k (s\<lparr>bs_originalBlockIndexFront := f\<rparr>) e1 ring N" using um room(1) by (simp add: undo_matches_def)
          from bulk_undo_ok [OF i1 [unfolded c] this] show ?thesis unfolding c .
        qed
        ultimately show ?thesis unfolding step room(2) using Pair None p1(1) cD by (auto simp: same_on_def)
      next
        case (Some a)
        have sz: "?R < unat (ep_blockIndexSize e1)" using room(1,4) by simp
        from bulk_grow_ok [OF i1 k(1) room(3) sz room(5)] Pair Some obtain p2 e2 e3
          where g: "bulk_link k a (p1, e1) = Inr (p2, e2)" "ep_index_entry (of_nat P) e2 = Inr e3" "bulk_inv k F (p2, e3) (ring @ [a]) N H xs M sb (Suc c)" "same_on F p p2"
            "po_fresh p \<le> po_fresh p2" "first_block (first_taken ring c) a = first_taken (ring @ [a]) (Suc c)" unfolding P_def by blast
        let ?s = "s\<lparr>bs_originalBlockIndexFront := f\<rparr>"
        have go: "bulk_new k canAlloc (bulk_diff k D c) (bulk_cur k M c) (first_taken ring c) s (p, e) =
            bulk_new k canAlloc (bulk_diff k D (Suc c)) (bulk_cur k M (Suc c)) (first_taken (ring @ [a]) (Suc c)) ?s (p2, e3)"
          unfolding step room(2) using Pair Some g(1,2,6) cnt(3,4) by (simp add: P_def)
        have d: "d = D - Suc c" "Suc c \<le> D" using Suc.hyps(2) by simp_all
        have h: "Suc c < D \<longrightarrow> ring @ [a] = [] \<or> H < Suc N * ?B"
        proof -
          have "H < Suc N * ?B" if "ring = []"
          proof -
            have "N * ?B = M * ?B + c * ?B" "c = 0" "H \<le> M * ?B" using Suc.prems(2) that by (auto simp: bulk_inv_def ring_pend_def add_mult_distrib)
            moreover have "0 < ?B" using k(1) by (rule traits_size) simp
            ultimately show ?thesis by simp
          qed
          then show ?thesis using H by blast
        qed
        have l: "ring @ [a] = [] \<longrightarrow> unat (ep_blockIndexSize e3) \<le> z0" "length (ring @ [a]) \<le> z0 + Suc c" "f0 \<le> po_fresh p2" using Suc.prems(5,6) g(5) by simp_all
        from Suc.hyps(1) [OF d g(3) h l, of ?s] obtain b f' s' p' e'
          where n: "bulk_new k canAlloc (bulk_diff k D (Suc c)) (bulk_cur k M (Suc c)) (first_taken (ring @ [a]) (Suc c)) ?s (p2, e3) = Some (Inr (b, f', s', p', e'))"
            "same_on F p2 p'" "bs_startBlock s' = bs_startBlock ?s"
            "if b then \<exists>ring' N'. bulk_inv k F (p', e') ring' N' H xs M sb D \<and> f' = first_taken ring' D
             else Suc c < D \<and> alloc_fails k canAlloc n (z0 + D) f0 \<and> (Suc (Suc c) = D \<and> Suc c = 0 \<and> undo_matches k ?s e3 (ring @ [a]) N \<longrightarrow> ep_inv k F (p', e') (ring @ [a]) N H xs)"
          by blast
        have "same_on F p p'" using g(4) n(2) by (simp add: same_on_def)
        moreover have "if b then \<exists>ring' N'. bulk_inv k F (p', e') ring' N' H xs M sb D \<and> f' = first_taken ring' D
          else c < D \<and> alloc_fails k canAlloc n (z0 + D) f0 \<and> (Suc c = D \<and> c = 0 \<and> undo_matches k s e ring N \<longrightarrow> ep_inv k F (p', e') ring N H xs)"
          using n(4) by (cases b) auto
        moreover have "bs_startBlock s' = bs_startBlock s" using n(3) by simp
        ultimately show ?thesis unfolding go n(1) by blast
      qed
    qed
  qed
qed

end
