(* ===== verification/CQ_Bulk_Fill.thy ===== *)
theory CQ_Bulk_Fill
  imports CQ_Bulk_Enq
begin

text \<open>
  \<open>enqueue_bulk\<close> of explicit producers, from the blocks that have been taken to the elements in them.
\<close>

section \<open>The blocks that were taken are reset\<close>

lemma bulk_reset_ok:
  "ring_pend k (po_heap p) ring N H xs (Suc c) \<Longrightarrow> pool_ok k p U \<Longrightarrow> set ring \<subseteq> U \<Longrightarrow> H + length xs \<le> (N + (length ring - Suc c)) * block_size k \<Longrightarrow>
    \<exists>p'. bulk_reset k (Some (last ring)) (Some (ring ! (length ring - Suc c))) p = Some (Inr p') \<and> ring_ok k (po_heap p') ring N H xs \<and> pool_ok k p' U \<and>
      (\<forall>a. a \<notin> set ring \<longrightarrow> po_heap p' a = po_heap p a)"
proof (induction c arbitrary: p)
  case (0 p)
  let ?R = "length ring"
  have R: "0 < ?R" using 0(1) by (auto simp: ring_pend_def)
  then have l: "last ring = ring ! (?R - 1)" by (intro last_conv_nth) auto
  obtain b where b: "po_heap p (ring ! (?R - 1)) = Some b" using ring_pend_nth [OF 0(1), of "?R - 1"] R by auto
  let ?p = "cq_write (ring ! (?R - 1)) (reset_empty k explicit_context b) p"
  have "ring_pend k (po_heap ?p) ring N H xs 0" using ring_pend_reset [OF 0(1), of b] b 0(4) by (simp add: cq_write_def)
  moreover have "ring ! (?R - 1) \<in> set ring" using R by simp
  moreover from this have "pool_ok k ?p U" using 0(2,3) by (intro pool_ok_write) auto
  ultimately show ?case using b l by (intro exI [of _ ?p]) (subst bulk_reset.simps, auto simp: cq_deref_def ring_pend_0 cq_write_def)
next
  case (Suc c p)
  let ?R = "length ring" and ?i = "length ring - Suc (Suc c)"
  have R: "Suc (Suc c) \<le> ?R" "distinct ring" using Suc.prems(1) by (auto simp: ring_pend_def)
  then have i: "?i < ?R" "Suc ?i = ?R - Suc c" by simp_all
  obtain b where b: "po_heap p (ring ! ?i) = Some b" "cqb_next b = Some (ring ! (Suc ?i mod ?R))" using ring_pend_nth [OF Suc.prems(1) i(1)] by blast
  have nx: "cqb_next b = Some (ring ! (?R - Suc c))" using b(2) i(2) R(1) by simp
  have ne: "ring ! ?i \<noteq> last ring" using R i(1) by (cases ring rule: rev_cases) (auto simp: nth_append dest: nth_mem)
  let ?p = "cq_write (ring ! ?i) (reset_empty k explicit_context b) p"
  have r: "ring_pend k (po_heap ?p) ring N H xs (Suc c)" using ring_pend_reset [OF Suc.prems(1) b(1) Suc.prems(4)] by (simp add: cq_write_def)
  have p: "pool_ok k ?p U" using Suc.prems(2,3) i(1) by (intro pool_ok_write) (auto dest: nth_mem)
  have "(N + ?i) * block_size k \<le> (N + (?R - Suc c)) * block_size k" by (intro mult_le_mono1) simp
  then have T: "H + length xs \<le> (N + (?R - Suc c)) * block_size k" using Suc.prems(4) by linarith
  have step: "bulk_reset k (Some (last ring)) (Some (ring ! ?i)) p = bulk_reset k (Some (last ring)) (Some (ring ! (?R - Suc c))) ?p"
    using b(1) ne nx by (subst bulk_reset.simps) (simp add: cq_deref_def)
  have "ring ! ?i \<in> set ring" using i(1) by simp
  then show ?case unfolding step using Suc.IH [OF r p Suc.prems(3) T] by (auto simp: cq_write_def)
qed

section \<open>The elements of one block\<close>

lemma fill_block_ok:
  assumes k: "traits_ok k"
  shows "T mod block_size k + length ys \<le> block_size k \<Longrightarrow> length (cqb_elements b) = block_size k \<Longrightarrow>
    \<exists>es. fill_block k (of_nat (T + length ys)) (of_nat T) (map Some (ys @ zs)) b = Inr (False, of_nat (T + length ys), map Some zs, b\<lparr>cqb_elements := es\<rparr>) \<and>
      length es = block_size k \<and>
      (\<forall>j < block_size k. es ! j = (if T mod block_size k \<le> j \<and> j < T mod block_size k + length ys then Some (ys ! (j - T mod block_size k)) else cqb_elements b ! j))"
proof (induction ys arbitrary: T b)
  case Nil
  have "fill_block k (of_nat T) (of_nat T) (map Some zs) b = Inr (False, of_nat T, map Some zs, b)" by (cases zs) simp_all
  then show ?case using Nil by (intro exI [of _ "cqb_elements b"]) auto
next
  case (Cons y ys)
  let ?B = "block_size k" and ?s = "T mod block_size k"
  have B: "?B < 2 ^ 32" using k by (rule traits_size) simp
  have "length (y # ys) < 2 ^ 64" using Cons.prems(1) B by simp
  from of_nat_plus_eq [OF this, of T] have ne: "(of_nat T :: index_t) \<noteq> of_nat (T + length (y # ys))" by simp
  have s: "slot_of k (of_nat T) = ?s" by (rule slot_of_nat [OF k])
  let ?b = "b\<lparr>cqb_elements := (cqb_elements b)[?s := Some y]\<rparr>"
  have b: "cqb_construct k y (of_nat T) b = ?b" by (simp add: cqb_construct_def s)
  have step: "fill_block k (of_nat (T + length (y # ys))) (of_nat T) (map Some ((y # ys) @ zs)) b =
      fill_block k (of_nat (Suc T + length ys)) (of_nat (Suc T)) (map Some (ys @ zs)) ?b"
    using ne unfolding b [symmetric] by (simp add: algebra_simps)
  show ?case
  proof (cases "ys = []")
    case True
    have "fill_block k (of_nat (Suc T)) (of_nat (Suc T)) (map Some zs) ?b = Inr (False, of_nat (Suc T), map Some zs, ?b)" by (cases zs) simp_all
    then show ?thesis unfolding step using True Cons.prems by (intro exI [of _ "(cqb_elements b)[?s := Some y]"]) (auto simp: nth_list_update)
  next
    case False
    have m: "Suc T mod ?B = Suc ?s" using mod_step [of T ?B 1] Cons.prems(1) False by (cases ys) auto
    have "Suc T mod ?B + length ys \<le> ?B" "length (cqb_elements ?b) = ?B" using Cons.prems unfolding m by auto
    from Cons.IH [OF this] obtain es
      where es: "fill_block k (of_nat (Suc T + length ys)) (of_nat (Suc T)) (map Some (ys @ zs)) ?b = Inr (False, of_nat (Suc T + length ys), map Some zs, ?b\<lparr>cqb_elements := es\<rparr>)"
        "length es = ?B" "\<forall>j < ?B. es ! j = (if Suc ?s \<le> j \<and> j < Suc ?s + length ys then Some (ys ! (j - Suc ?s)) else cqb_elements ?b ! j)" unfolding m by blast
    have "\<forall>j < ?B. es ! j = (if ?s \<le> j \<and> j < ?s + length (y # ys) then Some ((y # ys) ! (j - ?s)) else cqb_elements b ! j)"
      using es(3) Cons.prems(2) by (auto simp: nth_list_update nth_Cons' Suc_le_eq)
    then show ?thesis unfolding step using es(1,2) by (intro exI [of _ es]) simp
  qed
qed

lemma item_append: "item (xs @ ys) H q = (if H + length xs \<le> q \<and> q < H + length xs + length ys then Some (ys ! (q - (H + length xs))) else item xs H q)"
  by (auto simp: item_def nth_append)

text \<open>Elements behind those in a block, and in no other block of the ring.\<close>

lemma block_ok_filled:
  assumes b: "block_ok k b n H xs" and n: "(H + length xs) div block_size k = n" and es: "length es = block_size k"
    "\<forall>j < block_size k. es ! j = (if (H + length xs) mod block_size k \<le> j \<and> j < (H + length xs) mod block_size k + length ys
       then Some (ys ! (j - (H + length xs) mod block_size k)) else cqb_elements b ! j)"
  shows "block_ok k (b\<lparr>cqb_elements := es\<rparr>) n H (xs @ ys)"
proof -
  let ?T = "H + length xs" and ?B = "block_size k"
  have T: "n * ?B + ?T mod ?B = ?T" using n by (metis div_mult_mod_eq)
  have "es ! i = item (xs @ ys) H (n * ?B + i)" if i: "i < ?B" for i
  proof -
    have q: "?T \<le> n * ?B + i \<longleftrightarrow> ?T mod ?B \<le> i" "n * ?B + i < ?T + length ys \<longleftrightarrow> i < ?T mod ?B + length ys" "n * ?B + i - ?T = i - ?T mod ?B" using T by linarith+
    have "cqb_elements b ! i = item xs H (n * ?B + i)" using b i by (simp add: block_ok_def)
    then show ?thesis using es(2) i unfolding item_append q by simp
  qed
  then show ?thesis using b es(1) by (simp add: block_ok_def)
qed

lemma ring_ok_filled:
  assumes r: "ring_ok k h ring N H xs" and m: "m < length ring" "(H + length xs) div block_size k = N + m"
    and c: "(H + length xs) mod block_size k + length ys \<le> block_size k"
    and b: "block_ok k b' (N + m) H (xs @ ys)" "cqb_next b' = Some (ring ! (Suc m mod length ring))"
  shows "ring_ok k (h(ring ! m \<mapsto> b')) ring N H (xs @ ys)"
proof -
  let ?B = "block_size k" and ?T = "H + length xs"
  have d: "distinct ring" using r by (simp add: ring_ok_def)
  have "\<exists>b. (h(ring ! m \<mapsto> b')) (ring ! j) = Some b \<and> cqb_next b = Some (ring ! (Suc j mod length ring)) \<and> block_ok k b (N + j) H (xs @ ys)"
    if j: "j < length ring" for j
  proof (cases "j = m")
    case True
    then show ?thesis using b by simp
  next
    case False
    obtain b0 where b0: "h (ring ! j) = Some b0" "cqb_next b0 = Some (ring ! (Suc j mod length ring))" "block_ok k b0 (N + j) H xs" using ring_ok_nth [OF r j] .
    have "item (xs @ ys) H ((N + j) * ?B + i) = item xs H ((N + j) * ?B + i)" if "i < ?B" for i
      unfolding item_append using block_elsewhere [OF that _ c, of "N + j"] False m(2) by auto
    then have "block_ok k b0 (N + j) H (xs @ ys)" using b0(3) by (simp add: block_ok_def)
    then show ?thesis using b0 False d j m(1) by (auto simp: nth_eq_iff_index_eq)
  qed
  then show ?thesis using d by (simp add: ring_ok_def)
qed


section \<open>All blocks\<close>

lemma bulk_fill_ok:
  assumes k: "traits_ok k" and U: "set ring \<subseteq> U"
  shows "ring_ok k (po_heap p) ring N H xs \<Longrightarrow> pool_ok k p U \<Longrightarrow> m < length ring \<Longrightarrow> (H + length xs) div block_size k = N + m \<Longrightarrow>
    H + length xs + length ys \<le> (N + length ring) * block_size k \<Longrightarrow> (N + length ring) * block_size k < H + length xs + length ys + block_size k \<Longrightarrow> length ys \<le> 2 ^ 62 \<Longrightarrow>
    \<exists>p'. bulk_fill k (Some (last ring)) (of_nat (H + length xs + length ys)) (of_nat (H + length xs)) (map Some ys) (Some (ring ! m)) p =
        Some (Inr (False, of_nat (H + length xs + length ys), Some (last ring), p')) \<and>
      ring_ok k (po_heap p') ring N H (xs @ ys) \<and> pool_ok k p' U \<and> (\<forall>a. a \<notin> set ring \<longrightarrow> po_heap p' a = po_heap p a)"
proof (induction "length ys" arbitrary: xs ys m p rule: less_induct)
  case less
  let ?B = "block_size k" and ?T = "H + length xs" and ?R = "length ring"
  let ?S = "Suc (?T div ?B) * ?B"
  define c where "c = min (length ys) (?S - ?T)"
  have B: "0 < ?B" using k by (rule traits_size) simp
  have TS: "?T < ?S" using B by (simp add: dividend_less_div_times)
  have "?S = (?T div ?B) * ?B + ?B" "(?T div ?B) * ?B + ?T mod ?B = ?T" by simp_all
  then have "?T mod ?B + (?S - ?T) = ?B" using TS by linarith
  then have c: "c \<le> length ys" "?T mod ?B + c \<le> ?B" by (auto simp: c_def)
  define us vs where "us = take c ys" and "vs = drop c ys"
  have uv: "ys = us @ vs" "length us = c" "length ys = c + length vs" using c(1) by (simp_all add: us_def vs_def)
  have d: "distinct ring" using less.prems(1) by (simp add: ring_ok_def)
  obtain b where b: "po_heap p (ring ! m) = Some b" "cqb_next b = Some (ring ! (Suc m mod ?R))" "block_ok k b (N + m) H xs" using ring_ok_nth [OF less.prems(1,3)] .
  have "length (cqb_elements b) = ?B" using b(3) by (simp add: block_ok_def)
  from fill_block_ok [OF k c(2) [folded uv(2)] this, of vs] obtain es
    where es: "fill_block k (of_nat (?T + c)) (of_nat ?T) (map Some ys) b = Inr (False, of_nat (?T + c), map Some vs, b\<lparr>cqb_elements := es\<rparr>)" "length es = ?B"
      "\<forall>j < ?B. es ! j = (if ?T mod ?B \<le> j \<and> j < ?T mod ?B + length us then Some (us ! (j - ?T mod ?B)) else cqb_elements b ! j)"
    unfolding uv(1) [symmetric] uv(2) by blast
  let ?b = "b\<lparr>cqb_elements := es\<rparr>"
  let ?p = "cq_write (ring ! m) ?b p"
  have bo: "block_ok k ?b (N + m) H (xs @ us)" by (rule block_ok_filled [OF b(3) less.prems(4) es(2,3)])
  have ro: "ring_ok k (po_heap ?p) ring N H (xs @ us)"
    using ring_ok_filled [OF less.prems(1,3,4) c(2) [folded uv(2)] bo] b(2) by (simp add: cq_write_def)
  have po: "pool_ok k ?p U" using less.prems(2) U nth_mem [OF less.prems(3)] by (intro pool_ok_write) auto
  have out: "po_heap ?p a = po_heap p a" if "a \<notin> set ring" for a using that less.prems(3) by (auto simp: cq_write_def)
  have stop: "stop_index k (of_nat ?T) (of_nat (?T + length ys)) = of_nat (?T + c)"
  proof -
    have "min (?T + length ys) ?S = ?T + c" unfolding c_def using TS by linarith
    then show ?thesis using stop_index_ok [OF k, of ?T "?T + length ys"] less.prems(7) by (simp only: add_le_cancel_left le_add1)
  qed
  have eq: "(of_nat ?T :: index_t) = of_nat (?T + c) \<longleftrightarrow> c = 0" using of_nat_plus_eq [of c ?T] c(1) less.prems(7) by simp
  have last: "last ring = ring ! (?R - 1)" using less.prems(3) by (intro last_conv_nth) auto
  then have end_m: "ring ! m = last ring \<longleftrightarrow> Suc m = ?R" using d less.prems(3) by (auto simp: nth_eq_iff_index_eq)
  have S: "?S = Suc (N + m) * ?B" unfolding less.prems(4) by simp
  have reached: "Suc m = ?R" if "c = length ys"
  proof -
    have "?T + length ys \<le> ?S" using TS that unfolding c_def by linarith
    then have "(N + ?R) * ?B < Suc (Suc (N + m)) * ?B" using less.prems(6) unfolding S by simp
    then have "N + ?R < Suc (Suc (N + m))" unfolding mult_less_cancel2 by (rule conjunct2)
    then show ?thesis using less.prems(3) by simp
  qed
  note go = bulk_fill.simps [of k "Some (last ring)" "of_nat (?T + length ys)" "of_nat ?T" "map Some ys" "Some (ring ! m)" p]
  show ?case
  proof (cases "c = length ys")
    case True
    show ?thesis
    proof (cases "c = 0")
      case c0: True
      then have "ys = []" using True by simp
      then show ?thesis unfolding go stop Let_def using c0 end_m reached [OF True] less.prems(1,2) by simp
    next
      case False
      have v: "vs = []" "us = ys" using True by (simp_all add: us_def vs_def)
      have ne: "(of_nat ?T :: index_t) \<noteq> of_nat (?T + c)" using eq False by blast
      have f: "(if (of_nat ?T :: index_t) = of_nat (?T + c) then Inr (False, of_nat ?T, map Some ys, p)
          else cq_deref p (Some (ring ! m)) (\<lambda>a b. map_sum id (\<lambda>(thrown, cur, items, b). (thrown, cur, items, cq_write a b p))
            (fill_block k (of_nat (?T + c)) (of_nat ?T) (map Some ys) b))) = Inr (False, of_nat (?T + c), [], ?p)"
        using ne es(1) b(1) v(1) by (simp add: cq_deref_def)
      have "bulk_fill k (Some (last ring)) (of_nat (?T + length ys)) (of_nat ?T) (map Some ys) (Some (ring ! m)) p =
          Some (Inr (False, of_nat (?T + length ys), Some (last ring), ?p))"
        unfolding go stop Let_def f using end_m reached [OF True] True by simp
      then show ?thesis using ro po out unfolding v(2) by blast
    qed
  next
    case False
    then have lt: "c < length ys" "?T + c = ?S" "0 < c" using c(1) TS by (auto simp: c_def min_def split: if_splits)
    have "Suc (N + m) * ?B < (N + ?R) * ?B" using less.prems(5) lt(1,2) unfolding S by linarith
    then have "Suc (N + m) < N + ?R" unfolding mult_less_cancel2 by (rule conjunct2)
    then have m1: "Suc m < ?R" by simp
    have vs: "length vs < length ys" using uv(3) lt(3) by linarith
    have T1: "H + length (xs @ us) = ?T + c" "?T + c + length vs = ?T + length ys" using uv by simp_all
    have dv: "(H + length (xs @ us)) div ?B = N + Suc m" unfolding T1 lt(2) S using B by simp
    have bds: "H + length (xs @ us) + length vs \<le> (N + ?R) * ?B" "(N + ?R) * ?B < H + length (xs @ us) + length vs + ?B" "length vs \<le> 2 ^ 62"
      using less.prems(5-7) uv(3) unfolding T1 by simp_all
    have ne: "(of_nat ?T :: index_t) \<noteq> of_nat (?T + c)" using eq lt(3) by blast
    have nx: "cqb_next ?b = Some (ring ! Suc m)" using b(2) m1 by simp
    have "\<not> ring ! m = last ring" using end_m m1 by simp
    then have step: "bulk_fill k (Some (last ring)) (of_nat (?T + length ys)) (of_nat ?T) (map Some ys) (Some (ring ! m)) p =
        bulk_fill k (Some (last ring)) (of_nat (?T + length ys)) (of_nat (?T + c)) (map Some vs) (Some (ring ! Suc m)) ?p"
      unfolding go stop Let_def using ne b(1) es(1) nx by (simp add: cq_deref_def cq_write_def)
    have app: "(xs @ us) @ vs = xs @ ys" by (simp add: uv(1))
    from less.hyps [OF vs ro po m1 dv bds] obtain p' where p':
      "bulk_fill k (Some (last ring)) (of_nat (?T + length ys)) (of_nat (?T + c)) (map Some vs) (Some (ring ! Suc m)) ?p =
         Some (Inr (False, of_nat (?T + length ys), Some (last ring), p'))"
      "ring_ok k (po_heap p') ring N H (xs @ ys)" "pool_ok k p' U" "\<forall>a. a \<notin> set ring \<longrightarrow> po_heap p' a = po_heap ?p a" unfolding T1 app by blast
    have "\<forall>a. a \<notin> set ring \<longrightarrow> po_heap p' a = po_heap p a" using p'(4) out by metis
    then show ?thesis unfolding step using p'(1-3) by blast
  qed
qed

section \<open>How many blocks are taken\<close>

lemma last_base:
  assumes k: "traits_ok k" and T: "T \<le> M * block_size k" "M * block_size k < T + block_size k"
  shows "(of_nat T - 1 :: index_t) AND NOT (tr_BLOCK_SIZE k - 1) = of_nat (M * block_size k) - tr_BLOCK_SIZE k"
proof -
  let ?B = "block_size k"
  obtain s where s: "s < 32" "?B = 2 ^ s" using k by (rule traits_size)
  have "(2 :: nat) ^ (64 - s) * 2 ^ s = 2 ^ 64" using s(1) by (simp flip: power_add)
  moreover obtain q where "(2 :: nat) ^ (64 - s) = Suc q" by (metis gr0_implies_Suc zero_less_power zero_less_numeral)
  ultimately have q: "q * ?B + ?B = 2 ^ 64" by (simp add: s(2))
  have 0: "(of_nat (2 ^ 64) :: index_t) = 0" by (simp add: word_of_nat_eq_0_iff)
  have "(of_nat (T + 2 ^ 64 - 1) :: index_t) = of_nat (T + 2 ^ 64) - of_nat 1" by (rule of_nat_diff) simp
  then have 1: "(of_nat T - 1 :: index_t) = of_nat (T + 2 ^ 64 - 1)" using 0 unfolding of_nat_add by simp
  have B: "0 < ?B" using s(2) by simp
  have "(T + 2 ^ 64 - 1) div ?B = q + M"
  proof (rule div_nat_eqI)
    show "?B * (q + M) \<le> T + 2 ^ 64 - 1" using T q by (simp add: algebra_simps)
    show "T + 2 ^ 64 - 1 < ?B * Suc (q + M)" using T q B by (simp add: algebra_simps)
  qed
  then have "(of_nat T - 1 :: index_t) AND NOT (tr_BLOCK_SIZE k - 1) = of_nat ((q + M) * ?B)" unfolding 1 block_base [OF k] by simp
  also have "\<dots> = of_nat (q * ?B) + of_nat (M * ?B)" by (simp only: add_mult_distrib of_nat_add)
  also have "of_nat (q * ?B) + of_nat ?B = (0 :: index_t)" using q 0 by (metis of_nat_add)
  then have "(of_nat (q * ?B) :: index_t) = - of_nat ?B" by (simp add: eq_neg_iff_add_eq_0)
  finally show ?thesis by simp
qed

lemma blocks_needed:
  assumes "0 < (B :: nat)" "M * B < T + B" obtains D where "T + m \<le> (M + D) * B" "(M + D) * B < T + m + B"
proof (cases "T + m \<le> M * B")
  case True
  then show thesis using assms by (intro that [of 0]) simp_all
next
  case False
  define r where "r = T + m - M * B - 1"
  have r: "T + m = M * B + Suc r" using False by (simp add: r_def)
  have "(r div B) * B \<le> r" "r < (r div B) * B + B" using dividend_less_div_times [OF assms(1), of r] by simp_all
  then show thesis using r by (intro that [of "Suc (r div B)"]) (unfold add_mult_distrib mult_Suc, linarith+)
qed

lemma bulk_blocks:
  assumes k: "traits_ok k" and T: "T \<le> M * block_size k" "M * block_size k < T + block_size k"
    and D: "T + m \<le> (M + D) * block_size k" "(M + D) * block_size k < T + m + block_size k"
  shows "((of_nat T + of_nat m - 1 :: index_t) AND NOT (tr_BLOCK_SIZE k - 1)) - ((of_nat T - 1) AND NOT (tr_BLOCK_SIZE k - 1)) = bulk_diff k D 0"
    "(of_nat T - 1 :: index_t) AND NOT (tr_BLOCK_SIZE k - 1) = bulk_cur k M 0"
proof -
  show cur: "(of_nat T - 1 :: index_t) AND NOT (tr_BLOCK_SIZE k - 1) = bulk_cur k M 0" using last_base [OF k T] by (simp add: bulk_cur_def)
  have "(of_nat (T + m) - 1 :: index_t) AND NOT (tr_BLOCK_SIZE k - 1) = of_nat ((M + D) * block_size k) - tr_BLOCK_SIZE k" by (rule last_base [OF k D])
  then have "(of_nat T + of_nat m - 1 :: index_t) AND NOT (tr_BLOCK_SIZE k - 1) = of_nat ((M + D) * block_size k) - tr_BLOCK_SIZE k" by simp
  then show "((of_nat T + of_nat m - 1 :: index_t) AND NOT (tr_BLOCK_SIZE k - 1)) - ((of_nat T - 1) AND NOT (tr_BLOCK_SIZE k - 1)) = bulk_diff k D 0"
    unfolding cur by (simp add: bulk_cur_def bulk_diff_def algebra_simps)
qed

lemma ep_inv_blocks:
  assumes "traits_ok k" "ep_inv k F (p, e) ring N H xs"
  shows "H + length xs \<le> (N + length ring) * block_size k" "(N + length ring) * block_size k < H + length xs + block_size k"
proof -
  have B: "0 < block_size k" using assms(1) by (rule traits_size) simp
  show "H + length xs \<le> (N + length ring) * block_size k" using assms(2) by (simp add: ep_inv_def)
  show "(N + length ring) * block_size k < H + length xs + block_size k"
  proof (cases ring)
    case Nil
    then show ?thesis using assms(2) B by (simp add: ep_inv_def)
  next
    case (Cons a as)
    then show ?thesis using assms(2) by (simp add: ep_inv_def)
  qed
qed

lemma bulk_allocate_none:
  assumes k: "traits_ok k" and i: "ep_inv k F (p, e) ring N H xs" and m: "H + length xs + m \<le> (N + length ring) * block_size k"
  shows "\<exists>s. bulk_allocate k canAlloc (of_nat m) (p, e) = Some (Inr (True, None, s, p, e)) \<and> bs_startBlock s = ep_tailBlock e"
proof -
  note b = ep_inv_blocks [OF k i]
  have t: "ep_tailIndex e = of_nat (H + length xs)" using i by (simp add: ep_inv_def)
  have "((of_nat (H + length xs) + of_nat m - 1 :: index_t) AND NOT (tr_BLOCK_SIZE k - 1)) - ((of_nat (H + length xs) - 1) AND NOT (tr_BLOCK_SIZE k - 1)) = bulk_diff k 0 0"
    by (rule bulk_blocks [OF k b]) (use m b in simp_all)
  then show ?thesis unfolding bulk_allocate_def prod.case Let_def t by simp
qed

lemma bulk_allocate_ok:
  assumes k: "traits_ok k" "limit_ok k" "malloc_ok k" and i: "ep_inv k F (p, e) ring N H xs" and M: "M = N + length ring"
    and D: "0 < D" "H + length xs + m \<le> (M + D) * block_size k" "(M + D) * block_size k < H + length xs + m + block_size k" and m: "m \<le> 2 ^ 62"
  shows "\<exists>b f s p' e'. bulk_allocate k canAlloc (of_nat m) (p, e) = Some (Inr (b, f, s, p', e')) \<and> same_on F p p' \<and> bs_startBlock s = ep_tailBlock e \<and>
    (if b then \<exists>ring' N' p1. f = first_taken ring' D \<and> bulk_inv k F (p1, e') ring' N' H xs M (last ring) D \<and> ring_ok k (po_heap p') ring' N' H xs \<and> pool_ok k p' (set ring' \<union> F)
     else alloc_fails k canAlloc (length xs + m) (unat (ep_blockIndexSize e) + D) (po_fresh p) \<and> (D = 1 \<longrightarrow> ep_inv k F (p', e') ring N H xs))"
proof -
  let ?B = "block_size k" and ?z0 = "unat (ep_blockIndexSize e)"
  note I = i [unfolded ep_inv_def prod.case]
  note T = ep_inv_blocks [OF k(1) i, folded M]
  note bb = bulk_blocks [OF k(1) T D(2,3)]
  have B: "0 < ?B" "?B < 2 ^ 32" using k(1) by (rule traits_size, simp)+
  have t: "ep_tailIndex e = of_nat (H + length xs)" using I by blast
  have "D * ?B \<le> 2 ^ 62 + 2 ^ 32" using D(3) T(1) B(2) m unfolding add_mult_distrib by linarith
  then have D64: "D * ?B < 2 ^ 64" by (rule le_less_trans) simp
  have n: "(M + D - 1) * ?B < H + (length xs + m)"
  proof -
    obtain d where "D = Suc d" using D(1) by (cases D) auto
    then show ?thesis using D(3) by simp
  qed
  define s where "s = \<lparr>bs_startBlock = ep_tailBlock e, bs_originalBlockIndexFront = ep_blockIndexFront e, bs_originalBlockIndexSlotsUsed = ep_blockIndexSlotsUsed e\<rparr>"
  have pos: "bulk_diff k D 0 > 0" by (rule bulk_counts [OF k(1) D(1) D64])
  have i0: "bulk_inv k F (p, e) ring N H xs M (last ring) 0" using bulk_inv_start [OF i] by (simp add: M)
  have "first_taken ring 0 = None" by (simp add: first_taken_def)
  with bulk_ahead_ok [OF k(1) D64 _ i0] obtain ring1 N1 c e1
    where a: "bulk_ahead k (bulk_diff k D 0) (bulk_cur k M 0) None (p, e) = Some (Inr (bulk_diff k D c, bulk_cur k M c, first_taken ring1 c, p, e1))"
      "bulk_inv k F (p, e1) ring1 N1 H xs M (last ring) c" "c \<le> D" "length ring1 = length ring" "ep_blockIndexSize e1 = ep_blockIndexSize e"
      "c < D \<longrightarrow> ring1 = [] \<or> H < Suc N1 * ?B" "c = 0 \<longrightarrow> e1 = e \<and> ring1 = ring \<and> N1 = N" by auto
  have "length ring \<le> ?z0" using I index_ok_unpub index_unpub_length by fastforce
  then have z: "ring1 = [] \<longrightarrow> unat (ep_blockIndexSize e1) \<le> ?z0" "length ring1 \<le> ?z0 + c" using a(4,5) by simp_all
  from bulk_new_ok [OF k D64 n a(3,2,6) z order.refl, of canAlloc s] obtain b f s' p' e'
    where w: "bulk_new k canAlloc (bulk_diff k D c) (bulk_cur k M c) (first_taken ring1 c) s (p, e1) = Some (Inr (b, f, s', p', e'))" "same_on F p p'"
      "bs_startBlock s' = bs_startBlock s"
      "if b then \<exists>ring' N'. bulk_inv k F (p', e') ring' N' H xs M (last ring) D \<and> f = first_taken ring' D
       else c < D \<and> alloc_fails k canAlloc (length xs + m) (?z0 + D) (po_fresh p) \<and> (Suc c = D \<and> c = 0 \<and> undo_matches k s e1 ring1 N1 \<longrightarrow> ep_inv k F (p', e') ring1 N1 H xs)"
    by blast
  have s': "bs_startBlock s' = ep_tailBlock e" using w(3) by (simp add: s_def)
  have al: "bulk_allocate k canAlloc (of_nat m) (p, e) =
     (case Some (Inr (b, f, s', p', e')) of
        None \<Rightarrow> None
      | Some (Inl err) \<Rightarrow> Some (Inl err)
      | Some (Inr (False, firstAllocatedBlock, s, st)) \<Rightarrow> Some (Inr (False, firstAllocatedBlock, s, st))
      | Some (Inr (True, firstAllocatedBlock, s, p, e)) \<Rightarrow>
          map_option (map_sum id (\<lambda>p. (True, firstAllocatedBlock, s, p, e))) (bulk_reset k (ep_tailBlock e) firstAllocatedBlock p))"
    unfolding bulk_allocate_def prod.case Let_def t bb(2) bb(1) [unfolded bb(2)] w(1) [symmetric] s_def using pos a(1) by simp
  show ?thesis
  proof (cases b)
    case False
    have "undo_matches k s e ring N" using I by (auto simp: undo_matches_def s_def)
    then have "ep_inv k F (p', e') ring N H xs" if "D = 1" using w(4) False a(7) that by auto
    then show ?thesis unfolding al using False w(2,4) s' by auto
  next
    case True
    then obtain ring' N' where r: "bulk_inv k F (p', e') ring' N' H xs M (last ring) D" "f = first_taken ring' D" using w(4) by auto
    note R = r(1) [unfolded bulk_inv_def prod.case]
    have rp: "ring_pend k (po_heap p') ring' N' H xs (Suc (D - 1))" "pool_ok k p' (set ring' \<union> F)" "N' + length ring' = M + D" using R D(1) by auto
    then have D': "D \<le> length ring'" "ring' \<noteq> []" using D(1) by (auto simp: ring_pend_def)
    have "N' + (length ring' - Suc (D - 1)) = M" using rp(3) D' D(1) by simp
    then have "H + length xs \<le> (N' + (length ring' - Suc (D - 1))) * ?B" using R by simp
    from bulk_reset_ok [OF rp(1,2) _ this] obtain p2 where p2: "bulk_reset k (Some (last ring')) (Some (ring' ! (length ring' - D))) p' = Some (Inr p2)"
      "ring_ok k (po_heap p2) ring' N' H xs" "pool_ok k p2 (set ring' \<union> F)" "\<forall>a. a \<notin> set ring' \<longrightarrow> po_heap p2 a = po_heap p' a" using D(1) by auto
    have "set ring' \<inter> F = {}" using R by blast
    then have "same_on F p p2" using w(2) p2(4) by (auto simp: same_on_def)
    moreover have "ep_tailBlock e' = Some (last ring')" "f = Some (ring' ! (length ring' - D))" using R D'(2) r(2) D(1) by (auto simp: first_taken_def)
    then have "bulk_allocate k canAlloc (of_nat m) (p, e) = Some (Inr (True, f, s', p2, e'))" unfolding al using True p2(1) by simp
    moreover have "\<exists>ring' N' p1. f = first_taken ring' D \<and> bulk_inv k F (p1, e') ring' N' H xs M (last ring) D \<and> ring_ok k (po_heap p2) ring' N' H xs \<and> pool_ok k p2 (set ring' \<union> F)"
      using r p2(2,3) by blast
    ultimately show ?thesis using s'
      by (intro exI [of _ True] exI [of _ f] exI [of _ s'] exI [of _ p2] exI [of _ e'], unfold if_True) (intro conjI; assumption)
  qed
qed

section \<open>The whole operation\<close>

lemma alloc_fails_mono: "alloc_fails k canAlloc n z f \<Longrightarrow> z \<le> z' \<Longrightarrow> alloc_fails k canAlloc n z' f"
  unfolding alloc_fails_def by (meson mult_le_mono2 order_trans)

text \<open>What is left when all blocks are there: the elements, the index and the tail.\<close>

definition bulk_rest :: "cq_traits \<Rightarrow> 'a option list \<Rightarrow> index_t \<Rightarrow> nat option \<Rightarrow> nat option \<Rightarrow> 'a ep_state \<Rightarrow> (bool option \<times> 'a ep_state) result option" where
  "bulk_rest k items startTailIndex firstBlock firstAllocatedBlock = (\<lambda>(p, e).
     case bulk_fill k (ep_tailBlock e) (startTailIndex + of_nat (length items)) startTailIndex items firstBlock p of
       None \<Rightarrow> None
     | Some (Inl err) \<Rightarrow> Some (Inl err)
     | Some (Inr (True, _)) \<Rightarrow> None
     | Some (Inr (False, _, tailBlock, p)) \<Rightarrow>
         Some (map_sum id (\<lambda>e. (Some True, p, e\<lparr>ep_tailIndex := startTailIndex + of_nat (length items)\<rparr>))
           (if firstAllocatedBlock = None then Inr (e\<lparr>ep_tailBlock := tailBlock\<rparr>) else bulk_publish (e\<lparr>ep_tailBlock := tailBlock\<rparr>))))"

lemma bulk_rest_new:
  assumes k: "traits_ok k" and b: "bulk_inv k F (p1, e) ring N H xs M sb D" "ring_ok k (po_heap p) ring N H xs" "pool_ok k p (set ring \<union> F)" and D: "0 < D"
    and m: "H + length xs + length ys \<le> (M + D) * block_size k" "(M + D) * block_size k < H + length xs + length ys + block_size k" "length ys \<le> 2 ^ 62"
    and j: "j < length ring" "(H + length xs) div block_size k = N + j"
  shows "\<exists>p' e'. bulk_rest k (map Some ys) (of_nat (H + length xs)) (Some (ring ! j)) (Some a) (p, e) = Some (Inr (Some True, p', e')) \<and>
    same_on F p p' \<and> ep_inv k F (p', e') ring N H (xs @ ys)"
proof -
  let ?B = "block_size k" and ?T = "H + length xs"
  note I = b(1) [unfolded bulk_inv_def prod.case]
  have n: "N + length ring = M + D" and ne: "ring \<noteq> []" using I j(1) by auto
  from bulk_fill_ok [OF k _ b(2,3) j m(1,2) [folded n] m(3)] obtain p'
    where f: "bulk_fill k (Some (last ring)) (of_nat (?T + length ys)) (of_nat ?T) (map Some ys) (Some (ring ! j)) p = Some (Inr (False, of_nat (?T + length ys), Some (last ring), p'))"
      "ring_ok k (po_heap p') ring N H (xs @ ys)" "pool_ok k p' (set ring \<union> F)" "\<forall>a. a \<notin> set ring \<longrightarrow> po_heap p' a = po_heap p a" by blast
  define e1 where "e1 = e\<lparr>ep_tailBlock := Some (last ring)\<rparr>"
  have "index_unpub k e (index_list k N ring)" using I ne by blast
  then have "index_unpub k e1 (index_list k N ring)" using index_unpub_cong [of e1 e k] by (simp add: e1_def)
  moreover have "index_list k N ring \<noteq> []" using ne by (cases ring) simp_all
  ultimately obtain c where c: "bulk_publish e1 = Inr (e1\<lparr>ep_blockIndex := c\<rparr>)" "index_ok k (e1\<lparr>ep_blockIndex := c\<rparr>) (index_list k N ring)" using index_published by blast
  define e2 where "e2 = e1\<lparr>ep_blockIndex := c, ep_tailIndex := of_nat (?T + length ys)\<rparr>"
  have tb: "ep_tailBlock e = Some (last ring)" using I ne by simp
  have "bulk_rest k (map Some ys) (of_nat ?T) (Some (ring ! j)) (Some a) (p, e) = Some (Inr (Some True, p', e2))"
    using f(1) c(1) unfolding bulk_rest_def prod.case tb by (simp add: e1_def e2_def)
  moreover have "same_on F p p'" using f(4) I by (auto simp: same_on_def)
  moreover have ix: "index_ok k e2 (index_list k N ring)" using c(2) index_ok_cong [of e2 "e1\<lparr>ep_blockIndex := c\<rparr>" k] by (simp add: e2_def)
  have lst: "(N + length ring - 1) * ?B < ?T + length ys"
  proof -
    obtain d where "D = Suc d" using D by (cases D) auto
    then show ?thesis using m(2) unfolding n by simp
  qed
  have "ep_inv k F (p', e2) ring N H (xs @ ys)"
    unfolding ep_inv_def prod.case using I f(2,3) ix lst m(1) ne n by (simp add: e1_def e2_def add.assoc)
  ultimately show ?thesis by blast
qed

lemma bulk_rest_old:
  assumes k: "traits_ok k" and i: "ep_inv k F (p, e) ring N H xs" and m: "H + length xs + length ys \<le> (N + length ring) * block_size k" "length ys \<le> 2 ^ 62"
  shows "\<exists>p' e'. bulk_rest k (map Some ys) (of_nat (H + length xs)) (ep_tailBlock e) None (p, e) = Some (Inr (Some True, p', e')) \<and>
    same_on F p p' \<and> ep_inv k F (p', e') ring N H (xs @ ys)"
proof (cases "ys = []")
  case True
  have B: "0 < block_size k" using k by (rule traits_size) simp
  have "H + length xs \<le> Suc ((H + length xs) div block_size k) * block_size k" using dividend_less_div_times [OF B, of "H + length xs"] by simp
  then have "min (H + length xs) (Suc ((H + length xs) div block_size k) * block_size k) = H + length xs" by (rule min_absorb1)
  then have "stop_index k (of_nat (H + length xs)) (of_nat (H + length xs)) = of_nat (H + length xs)"
    using stop_index_ok [OF k, of "H + length xs" "H + length xs"] by simp
  then have "bulk_fill k (ep_tailBlock e) (of_nat (H + length xs)) (of_nat (H + length xs)) [] (ep_tailBlock e) p = Some (Inr (False, of_nat (H + length xs), ep_tailBlock e, p))"
    by (subst bulk_fill.simps) (simp add: Let_def)
  moreover have "ep_tailIndex e = of_nat (H + length xs)" using i by (simp add: ep_inv_def)
  then have "e\<lparr>ep_tailIndex := of_nat (H + length xs)\<rparr> = e" by simp
  ultimately have "bulk_rest k (map Some ys) (of_nat (H + length xs)) (ep_tailBlock e) None (p, e) = Some (Inr (Some True, p, e))"
    using True by (simp add: bulk_rest_def)
  then show ?thesis using i True by (auto simp: same_on_def)
next
  case False
  let ?B = "block_size k" and ?T = "H + length xs" and ?R = "length ring"
  note I = i [unfolded ep_inv_def prod.case]
  note b = ep_inv_blocks [OF k i]
  have T: "?T < (N + ?R) * ?B" using m False by (cases ys) auto
  have ne: "ring \<noteq> []" using T I by auto
  have last: "last ring = ring ! (?R - 1)" "?R - 1 < ?R" using ne by (simp_all add: last_conv_nth)
  have r: "N + ?R = Suc (N + (?R - 1))" using ne by (cases ring) simp_all
  have "?T div ?B = N + (?R - 1)" using T b(2) unfolding r by (intro div_nat_eqI) (simp_all add: mult.commute)
  from bulk_fill_ok [OF k _ _ _ last(2) this m(1) _ m(2), of "set ring \<union> F" p] obtain p'
    where f: "bulk_fill k (Some (last ring)) (of_nat (?T + length ys)) (of_nat ?T) (map Some ys) (Some (last ring)) p = Some (Inr (False, of_nat (?T + length ys), Some (last ring), p'))"
      "ring_ok k (po_heap p') ring N H (xs @ ys)" "pool_ok k p' (set ring \<union> F)" "\<forall>a. a \<notin> set ring \<longrightarrow> po_heap p' a = po_heap p a"
    using I b(2) unfolding last(1) by force
  have tb: "ep_tailBlock e = Some (last ring)" using I ne by simp
  define e2 where "e2 = e\<lparr>ep_tailIndex := of_nat (?T + length ys)\<rparr>"
  have "e\<lparr>ep_tailBlock := Some (last ring)\<rparr> = e" using tb by simp
  then have "bulk_rest k (map Some ys) (of_nat ?T) (ep_tailBlock e) None (p, e) = Some (Inr (Some True, p', e2))"
    using f(1) unfolding bulk_rest_def prod.case tb by (simp add: e2_def)
  moreover have "same_on F p p'" using f(4) I by (auto simp: same_on_def)
  moreover have "index_ok k e (index_list k N ring)" using I ne by blast
  then have "index_ok k e2 (index_list k N ring)" using index_ok_cong [of e2 e k] by (simp add: e2_def)
  then have "ep_inv k F (p', e2) ring N H (xs @ ys)"
    unfolding ep_inv_def prod.case using I f(2,3) m(1) ne by (simp add: e2_def add.assoc)
  ultimately show ?thesis by blast
qed

lemma ep_enqueue_bulk_rest:
  assumes "bulk_allocate k canAlloc (of_nat (length items)) (p, e) = Some (Inr (True, f, s, p1, e1))"
    and "ep_tailIndex e AND (tr_BLOCK_SIZE k - 1) = 0 \<Longrightarrow> f = None \<Longrightarrow> items = []"
    and "bulk_rest k items (ep_tailIndex e) (if ep_tailIndex e AND (tr_BLOCK_SIZE k - 1) = 0 \<and> f \<noteq> None then f else bs_startBlock s) f (p1, e1) = Some (Inr x)"
  shows "ep_enqueue_bulk k canAlloc items (p, e) = Some (Inr x)"
proof -
  let ?edge = "ep_tailIndex e AND (tr_BLOCK_SIZE k - 1) = 0"
  obtain cur tb p2 where f: "bulk_fill k (ep_tailBlock e1) (ep_tailIndex e + of_nat (length items)) (ep_tailIndex e) items
      (if ?edge \<and> f \<noteq> None then f else bs_startBlock s) p1 = Some (Inr (False, cur, tb, p2))"
    using assms(3) unfolding bulk_rest_def prod.case by (auto split: option.splits sum.splits bool.splits prod.splits)
  have g: "\<not> (?edge \<and> f = None \<and> (of_nat (length items) :: index_t) \<noteq> 0)"
  proof
    assume "?edge \<and> f = None \<and> (of_nat (length items) :: index_t) \<noteq> 0"
    moreover from this have "items = []" using assms(2) by blast
    ultimately show False by simp
  qed
  show ?thesis using assms(3) unfolding ep_enqueue_bulk_def bulk_rest_def Let_def prod.case assms(1) option.case sum.case bool.case f if_not_P [OF g] .
qed

lemma ep_enqueue_bulk_ok:
  assumes k: "traits_ok k" "limit_ok k" "malloc_ok k" and i: "ep_inv k F (p, e) ring N H xs" and m: "length ys \<le> 2 ^ 62"
  shows "\<exists>b p' e'. ep_enqueue_bulk k canAlloc (map Some ys) (p, e) = Some (Inr (Some b, p', e')) \<and> same_on F p p' \<and>
    (if b then \<exists>ring' N'. ep_inv k F (p', e') ring' N' H (xs @ ys)
     else alloc_fails k canAlloc (length xs + length ys) (unat (ep_blockIndexSize e) + length ys) (po_fresh p) \<and>
       (length ys \<le> block_size k \<longrightarrow> ep_inv k F (p', e') ring N H xs))"
proof -
  let ?B = "block_size k" and ?T = "H + length xs" and ?m = "length ys"
  define M where "M = N + length ring"
  note I = i [unfolded ep_inv_def prod.case]
  note b = ep_inv_blocks [OF k(1) i, folded M_def]
  have B: "0 < ?B" using k(1) by (rule traits_size) simp
  have tl: "ep_tailIndex e = of_nat ?T" using I by blast
  have "unat (ep_tailIndex e AND (tr_BLOCK_SIZE k - 1)) = ?T mod ?B" using slot_of_nat [OF k(1), of ?T] unfolding tl slot_of_def .
  then have edge: "ep_tailIndex e AND (tr_BLOCK_SIZE k - 1) = 0 \<longleftrightarrow> ?T mod ?B = 0" by (simp add: unat_eq_zero [symmetric])
  have full: "?T = M * ?B" if "?T mod ?B = 0"
  proof -
    obtain q where q: "?T = q * ?B" using \<open>?T mod ?B = 0\<close> by (metis dvd_def mod_eq_0_iff_dvd mult.commute)
    have "q * ?B \<le> M * ?B" "M * ?B < Suc q * ?B" using b unfolding q by simp_all
    then have "q \<le> M" "M < Suc q" using B unfolding mult_le_cancel2 mult_less_cancel2 by blast+
    then show ?thesis using q by simp
  qed
  obtain D where D: "?T + ?m \<le> (M + D) * ?B" "(M + D) * ?B < ?T + ?m + ?B" using blocks_needed [OF B b(2)] by metis
  show ?thesis
  proof (cases "D = 0")
    case True
    then have le: "?T + ?m \<le> (N + length ring) * ?B" using D(1) by (simp add: M_def)
    obtain s where s: "bulk_allocate k canAlloc (of_nat (length (map Some ys))) (p, e) = Some (Inr (True, None, s, p, e))" "bs_startBlock s = ep_tailBlock e"
      using bulk_allocate_none [OF k(1) i le, of canAlloc] by auto
    obtain p' e' where r: "bulk_rest k (map Some ys) (ep_tailIndex e) (ep_tailBlock e) None (p, e) = Some (Inr (Some True, p', e'))" "same_on F p p'"
      "ep_inv k F (p', e') ring N H (xs @ ys)" using bulk_rest_old [OF k(1) i le m] unfolding tl by blast
    have "map Some ys = []" if "ep_tailIndex e AND (tr_BLOCK_SIZE k - 1) = 0" using that edge full D(1) True by simp
    from ep_enqueue_bulk_rest [OF s(1) this, of "(Some True, p', e')"] r(1) s(2)
    have "ep_enqueue_bulk k canAlloc (map Some ys) (p, e) = Some (Inr (Some True, p', e'))" by simp
    then show ?thesis using r(2,3) by (intro exI [of _ True] exI [of _ p'] exI [of _ e']) auto
  next
    case False
    then have D0: "0 < D" by simp
    from bulk_allocate_ok [OF k i M_def D0 D m, of canAlloc] obtain bb f s p1 e1
      where a: "bulk_allocate k canAlloc (of_nat ?m) (p, e) = Some (Inr (bb, f, s, p1, e1))" "same_on F p p1" "bs_startBlock s = ep_tailBlock e"
        "if bb then \<exists>ring' N' p2. f = first_taken ring' D \<and> bulk_inv k F (p2, e1) ring' N' H xs M (last ring) D \<and> ring_ok k (po_heap p1) ring' N' H xs \<and> pool_ok k p1 (set ring' \<union> F)
         else alloc_fails k canAlloc (length xs + ?m) (unat (ep_blockIndexSize e) + D) (po_fresh p) \<and> (D = 1 \<longrightarrow> ep_inv k F (p1, e1) ring N H xs)" by blast
    show ?thesis
    proof (cases bb)
      case no: False
      have "D * ?B < ?m + ?B" using D(2) b(1) unfolding add_mult_distrib by linarith
      moreover obtain d where d: "D = Suc d" using D0 by (cases D) auto
      ultimately have dm: "d * ?B < ?m" by simp
      moreover have "d * 1 \<le> d * ?B" using B by (intro mult_le_mono2) simp
      ultimately have "d < ?m" by linarith
      then have "D \<le> ?m" using d by simp
      then have "alloc_fails k canAlloc (length xs + ?m) (unat (ep_blockIndexSize e) + ?m) (po_fresh p)" using a(4) no by (auto intro: alloc_fails_mono)
      moreover have "ep_inv k F (p1, e1) ring N H xs" if "?m \<le> ?B"
      proof -
        have "d * ?B < 1 * ?B" using less_le_trans [OF dm that] unfolding mult_1 .
        then have "d = 0" unfolding mult_less_cancel2 by simp
        then show ?thesis using a(4) no d by simp
      qed
      moreover have "ep_enqueue_bulk k canAlloc (map Some ys) (p, e) = Some (Inr (Some False, p1, e1))"
        using a(1) no by (simp add: ep_enqueue_bulk_def)
      ultimately show ?thesis using a(2) by (intro exI [of _ False] exI [of _ p1] exI [of _ e1]) auto
    next
      case True
      then obtain ring' N' p2 where r: "f = first_taken ring' D" "bulk_inv k F (p2, e1) ring' N' H xs M (last ring) D" "ring_ok k (po_heap p1) ring' N' H xs"
        "pool_ok k p1 (set ring' \<union> F)" using a(4) by auto
      note R = r(2) [unfolded bulk_inv_def prod.case]
      have n: "N' + length ring' = M + D" "D \<le> length ring'" using R by (auto simp: ring_pend_def)
      have f: "f = Some (ring' ! (length ring' - D))" using r(1) D0 by (simp add: first_taken_def)
      obtain j where j: "j < length ring'" "?T div ?B = N' + j"
        "(if ep_tailIndex e AND (tr_BLOCK_SIZE k - 1) = 0 \<and> f \<noteq> None then f else bs_startBlock s) = Some (ring' ! j)"
      proof (cases "?T mod ?B = 0")
        case True
        then have "?T div ?B = M" using full B by simp
        then show thesis using n D0 f edge True by (intro that [of "length ring' - D"]) simp_all
      next
        case False
        have ne: "ring \<noteq> []"
        proof
          assume "ring = []"
          then have "?T = N * ?B" using I by simp
          then show False using False by simp
        qed
        have "D \<noteq> length ring'"
        proof
          assume "D = length ring'"
          then have "N' = M" using n(1) by simp
          then have "M * ?B \<le> H" using R by blast
          then have "?T = M * ?B" using b(1) by simp
          then show False using False by simp
        qed
        then have lt: "D < length ring'" using n(2) by simp
        then have sb: "ring' ! (length ring' - Suc D) = last ring" using R by blast
        have M1: "M = Suc (M - 1)" using ne by (cases ring) (simp_all add: M_def)
        have "?T \<noteq> M * ?B" using False by auto
        then have T: "?T < Suc (M - 1) * ?B" using b(1) M1 by simp
        have "(M - 1) * ?B \<le> ?T" using b(2) unfolding mult_Suc [of "M - 1" ?B, folded M1] by linarith
        then have "?T div ?B = M - 1" using T by (intro div_nat_eqI) (simp_all add: mult.commute)
        moreover have "M - 1 = N' + (length ring' - Suc D)" using n lt by simp
        moreover have "bs_startBlock s = Some (last ring)" using a(3) I ne by simp
        ultimately show thesis using lt sb edge False by (intro that [of "length ring' - Suc D"]) simp_all
      qed
      obtain p' e' where w: "bulk_rest k (map Some ys) (ep_tailIndex e) (Some (ring' ! j)) f (p1, e1) = Some (Inr (Some True, p', e'))" "same_on F p1 p'"
        "ep_inv k F (p', e') ring' N' H (xs @ ys)" using bulk_rest_new [OF k(1) r(2-4) D0 D m j(1,2)] unfolding tl f by blast
      have al: "bulk_allocate k canAlloc (of_nat (length (map Some ys))) (p, e) = Some (Inr (True, f, s, p1, e1))" using a(1) True by simp
      have "ep_enqueue_bulk k canAlloc (map Some ys) (p, e) = Some (Inr (Some True, p', e'))"
        by (rule ep_enqueue_bulk_rest [OF al]) (use f w(1) j(3) in simp_all)
      moreover have "same_on F p p'" using a(2) w(2) by (simp add: same_on_def)
      ultimately show ?thesis using w(3) by (intro exI [of _ True] exI [of _ p'] exI [of _ e']) auto
    qed
  qed
qed

end
