(* ===== verification/CQ_Bulk_Run.thy ===== *)
theory CQ_Bulk_Run
  imports CQ_Bulk_Fill
begin

text \<open>
  Sequences of single and bulk operations on an explicit producer, and what becomes of one that refused a bulk.
\<close>

declare copy_index.simps [code] bulk_ahead.simps [code] bulk_new.simps [code] bulk_reset.simps [code] bulk_fill.simps [code]
  bulk_destroy.simps [code] destroy_range.simps [code] bulk_take.simps [code] take_range.simps [code]

section \<open>Runs\<close>

datatype 'a bulk_op = Enqueue_bulk bool "'a list" | Dequeue_bulk size_t | Enqueue_one bool 'a | Dequeue_one

text \<open>The answer, the elements that came out and the state.\<close>

definition bulk_op_step :: "cq_traits \<Rightarrow> 'a bulk_op \<Rightarrow> 'a ep_state \<Rightarrow> (bool \<times> 'a list \<times> 'a ep_state) result option" where
  "bulk_op_step k op st =
     (case op of
        Enqueue_bulk c ys \<Rightarrow> map_option (map_sum id (\<lambda>(r, st). (r = Some True, [], st))) (ep_enqueue_bulk k c (map Some ys) st)
      | Enqueue_one c x \<Rightarrow> map_option (map_sum id (\<lambda>(r, st). (r = Some True, [], st))) (ep_enqueue k c (Some x) st)
      | Dequeue_bulk n \<Rightarrow> map_option (map_sum id (\<lambda>(out, st). (True, out, st))) (ep_dequeue_bulk k n st)
      | Dequeue_one \<Rightarrow> Some (map_sum id (\<lambda>(r, st). (True, (case r of None \<Rightarrow> [] | Some x \<Rightarrow> [x]), st)) (ep_dequeue k st)))"

fun op_items :: "'a bulk_op \<Rightarrow> 'a list" where
  "op_items (Enqueue_bulk c ys) = ys"
| "op_items (Enqueue_one c x) = [x]"
| "op_items (Dequeue_bulk n) = []"
| "op_items Dequeue_one = []"

text \<open>A run: what was accepted, what came out, and whether it went to the end; it stops at the refusal of a bulk of more than a block.\<close>

fun bulk_run :: "cq_traits \<Rightarrow> 'a bulk_op list \<Rightarrow> 'a ep_state \<Rightarrow> ('a list \<times> 'a list \<times> bool \<times> 'a ep_state) result option" where
  "bulk_run k [] st = Some (Inr ([], [], True, st))"
| "bulk_run k (op # ops) st =
     (case bulk_op_step k op st of
        None \<Rightarrow> None
      | Some (Inl err) \<Rightarrow> Some (Inl err)
      | Some (Inr (b, out, st)) \<Rightarrow>
          if \<not> b \<and> block_size k < length (op_items op) then Some (Inr ([], [], False, st))
          else map_option (map_sum id (\<lambda>(acc, outs, r). ((if b then op_items op else []) @ acc, out @ outs, r))) (bulk_run k ops st))"

lemma ep_dequeue_bulk_take:
  assumes "traits_ok k" "ep_inv k F (p, e) ring N H xs"
  shows "\<exists>p' e'. ep_dequeue_bulk k m (p, e) = Some (Inr (take (unat m) xs, p', e')) \<and>
    ep_inv k F (p', e') ring N (H + min (length xs) (unat m)) (drop (unat m) xs) \<and> same_on F p p'"
proof -
  have "take (min (length xs) (unat m)) xs = take (unat m) xs" "drop (min (length xs) (unat m)) xs = drop (unat m) xs" by (auto simp: min_def)
  then show ?thesis using ep_dequeue_bulk_ok [OF assms, of m] by auto
qed

lemma bulk_op_step_ok:
  assumes k: "cq_traits_ok k" and i: "ep_inv k F st ring N H xs" and m: "length (op_items op) \<le> 2 ^ 62"
  shows "\<exists>b out st'. bulk_op_step k op st = Some (Inr (b, out, st')) \<and>
    (b \<or> length (op_items op) \<le> block_size k \<longrightarrow>
      (\<exists>ring' N' H' xs'. ep_inv k F st' ring' N' H' xs' \<and> xs @ (if b then op_items op else []) = out @ xs'))"
proof -
  have t: "traits_ok k" "limit_ok k" "malloc_ok k" using k by (auto simp: cq_traits_ok_def)
  obtain p e where st: "st = (p, e)" by (cases st)
  note i = i [unfolded st]
  show ?thesis
  proof (cases op)
    case (Enqueue_bulk c ys)
    obtain b p' e' where r: "ep_enqueue_bulk k c (map Some ys) (p, e) = Some (Inr (Some b, p', e'))"
      "if b then \<exists>ring' N'. ep_inv k F (p', e') ring' N' H (xs @ ys)
       else alloc_fails k c (length xs + length ys) (unat (ep_blockIndexSize e) + length ys) (po_fresh p) \<and> (length ys \<le> block_size k \<longrightarrow> ep_inv k F (p', e') ring N H xs)"
      using ep_enqueue_bulk_ok [OF t i m [unfolded Enqueue_bulk op_items.simps], of c] by blast
    have "bulk_op_step k op st = Some (Inr (b, [], p', e'))" using r(1) by (simp add: bulk_op_step_def Enqueue_bulk st)
    then show ?thesis using r(2) Enqueue_bulk by (cases b) auto
  next
    case (Enqueue_one c x)
    obtain b p' e' ring' N' where r: "ep_enqueue k c (Some x) (p, e) = Some (Inr (Some b, p', e'))" "ep_inv k F (p', e') ring' N' H (if b then xs @ [x] else xs)"
      using ep_enqueue_ok [OF t i] by blast
    then have "bulk_op_step k op st = Some (Inr (b, [], p', e'))" by (simp add: bulk_op_step_def Enqueue_one st)
    then show ?thesis using r(2) Enqueue_one by (cases b) auto
  next
    case (Dequeue_bulk n)
    obtain p' e' where r: "ep_dequeue_bulk k n (p, e) = Some (Inr (take (unat n) xs, p', e'))"
      "ep_inv k F (p', e') ring N (H + min (length xs) (unat n)) (drop (unat n) xs)" using ep_dequeue_bulk_take [OF t(1) i] by blast
    then have "bulk_op_step k op st = Some (Inr (True, take (unat n) xs, p', e'))" by (simp add: bulk_op_step_def Dequeue_bulk st)
    then show ?thesis using r(2) Dequeue_bulk
      by (intro exI [of _ True] exI [of _ "take (unat n) xs"] exI [of _ "(p', e')"] conjI impI exI [of _ ring] exI [of _ N]
          exI [of _ "H + min (length xs) (unat n)"] exI [of _ "drop (unat n) xs"]) simp_all
  next
    case Dequeue_one
    show ?thesis
    proof (cases xs)
      case Nil
      then have "ep_dequeue k (p, e) = Inr (None, p, e)" using ep_dequeue_empty i by blast
      then have "bulk_op_step k op st = Some (Inr (True, [], p, e))" by (simp add: bulk_op_step_def Dequeue_one st)
      then show ?thesis using i Nil Dequeue_one by auto
    next
      case (Cons y ys)
      obtain p' e' where d: "ep_dequeue k (p, e) = Inr (Some y, p', e')" "ep_inv k F (p', e') ring N (Suc H) ys" using ep_dequeue_ok [OF t(1) i [unfolded Cons]] by blast
      then have "bulk_op_step k op st = Some (Inr (True, [y], p', e'))" by (simp add: bulk_op_step_def Dequeue_one st)
      then show ?thesis using d(2) Cons Dequeue_one
        by (intro exI [of _ True] exI [of _ "[y]"] exI [of _ "(p', e')"] conjI impI exI [of _ ring] exI [of _ N] exI [of _ "Suc H"] exI [of _ ys]) simp_all
    qed
  qed
qed

lemma bulk_run_ok:
  assumes k: "cq_traits_ok k"
  shows "ep_inv k F st ring N H xs \<Longrightarrow> (\<forall>op \<in> set ops. length (op_items op) \<le> 2 ^ 62) \<Longrightarrow>
    \<exists>acc out b st'. bulk_run k ops st = Some (Inr (acc, out, b, st')) \<and>
      (if b then \<exists>ring' N' H' xs'. ep_inv k F st' ring' N' H' xs' \<and> xs @ acc = out @ xs' else \<exists>op \<in> set ops. block_size k < length (op_items op))"
proof (induction ops arbitrary: st ring N H xs)
  case Nil
  then show ?case by auto
next
  case (Cons op ops)
  obtain b out st1 where s: "bulk_op_step k op st = Some (Inr (b, out, st1))" "b \<or> length (op_items op) \<le> block_size k \<longrightarrow>
      (\<exists>ring' N' H' xs'. ep_inv k F st1 ring' N' H' xs' \<and> xs @ (if b then op_items op else []) = out @ xs')"
    using bulk_op_step_ok [OF k Cons.prems(1), of op] Cons.prems(2) by (metis list.set_intros(1))
  show ?case
  proof (cases "\<not> b \<and> block_size k < length (op_items op)")
    case True
    then show ?thesis using s(1) by auto
  next
    case False
    then obtain ring' N' H' xs' where i: "ep_inv k F st1 ring' N' H' xs'" "xs @ (if b then op_items op else []) = out @ xs'" using s(2) by auto
    from Cons.IH [OF i(1)] Cons.prems(2) obtain acc outs b' st' where r: "bulk_run k ops st1 = Some (Inr (acc, outs, b', st'))"
      "if b' then \<exists>ring' N' H' xs''. ep_inv k F st' ring' N' H' xs'' \<and> xs' @ acc = outs @ xs'' else \<exists>op \<in> set ops. block_size k < length (op_items op)"
      by auto
    have run: "bulk_run k (op # ops) st = Some (Inr ((if b then op_items op else []) @ acc, out @ outs, b', st'))"
      unfolding bulk_run.simps s(1) option.case sum.case prod.case if_not_P [OF False] r(1) by simp
    show ?thesis
    proof (cases b')
      case True
      then obtain ring2 N2 H2 xs2 where j: "ep_inv k F st' ring2 N2 H2 xs2" "xs' @ acc = outs @ xs2" using r(2) by auto
      have "xs @ (if b then op_items op else []) @ acc = (out @ outs) @ xs2" using i(2) j(2) by (metis append.assoc)
      then show ?thesis unfolding run using True j(1) by (metis (no_types, lifting))
    next
      case no: False
      then show ?thesis unfolding run using r(2) by auto
    qed
  qed
qed

text \<open>
  C11. An explicit producer of \<open>ConcurrentQueue\<close>, one thread, any block size, any initial pool and any outcome of the allocations, with bulk
  operations: every sequence of \<open>enqueue_bulk\<close>, \<open>try_enqueue_bulk\<close>, \<open>enqueue\<close>, \<open>dequeue_bulk\<close> and \<open>dequeue\<close> returns without a failed assertion or
  an access to memory the producer does not own. Unless a bulk of more than a block is refused on the way, what was accepted is what came out followed by
  what is inside; then \<open>dequeue_bulk\<close> takes as many elements as it may, from the front, and \<open>enqueue_bulk\<close> appends all its elements, or refuses
  them for the limit of the sub-queue or for want of memory.
\<close>
theorem explicit_bulk_fifo:
  assumes k: "cq_traits_ok k" and e: "ExplicitProducer k (populate_initial_block_list k ok n :: 'a cq_pool) = Some e"
    and m: "\<forall>op \<in> set ops. length (op_items op) \<le> 2 ^ 62" "length ys \<le> 2 ^ 62"
  shows "\<exists>acc out b st. bulk_run k ops (populate_initial_block_list k ok n :: 'a cq_pool, e) = Some (Inr (acc, out, b, st)) \<and>
    (if b
     then acc = out @ ep_contents k st \<and>
       (\<exists>st'. ep_dequeue_bulk k maxCount st = Some (Inr (take (unat maxCount) (ep_contents k st), st')) \<and> ep_contents k st' = drop (unat maxCount) (ep_contents k st)) \<and>
       (\<exists>a st'. ep_enqueue_bulk k c (map Some ys) st = Some (Inr (Some a, st')) \<and>
          (if a then ep_contents k st' = ep_contents k st @ ys
           else alloc_fails k c (length (ep_contents k st) + length ys) (unat (ep_blockIndexSize (snd st)) + length ys) (po_fresh (fst st)) \<and>
             (length ys \<le> block_size k \<longrightarrow> ep_contents k st' = ep_contents k st)))
     else \<exists>op \<in> set ops. block_size k < length (op_items op))"
proof -
  have t: "traits_ok k" "limit_ok k" "malloc_ok k" using k by (auto simp: cq_traits_ok_def)
  obtain acc out b st where r: "bulk_run k ops (populate_initial_block_list k ok n :: 'a cq_pool, e) = Some (Inr (acc, out, b, st))"
    "if b then \<exists>ring' N' H' xs'. ep_inv k {} st ring' N' H' xs' \<and> [] @ acc = out @ xs' else \<exists>op \<in> set ops. block_size k < length (op_items op)"
    using bulk_run_ok [OF k ep_fresh [OF k e] m(1)] by blast
  show ?thesis
  proof (cases b)
    case True
    then obtain p' e' ring N H xs where i: "st = (p', e')" "ep_inv k {} (p', e') ring N H xs" "acc = out @ xs" using r(2) by (cases st) auto
    note c = ep_contents_inv(1) [OF t(1) i(2)]
    obtain p1 e1 where d: "ep_dequeue_bulk k maxCount (p', e') = Some (Inr (take (unat maxCount) xs, p1, e1))"
      "ep_inv k {} (p1, e1) ring N (H + min (length xs) (unat maxCount)) (drop (unat maxCount) xs)" using ep_dequeue_bulk_take [OF t(1) i(2)] by blast
    obtain a p2 e2 where q: "ep_enqueue_bulk k c (map Some ys) (p', e') = Some (Inr (Some a, p2, e2))"
      "if a then \<exists>ring' N'. ep_inv k {} (p2, e2) ring' N' H (xs @ ys)
       else alloc_fails k c (length xs + length ys) (unat (ep_blockIndexSize e') + length ys) (po_fresh p') \<and> (length ys \<le> block_size k \<longrightarrow> ep_inv k {} (p2, e2) ring N H xs)"
      using ep_enqueue_bulk_ok [OF t i(2) m(2), of c] by blast
    have "if a then ep_contents k (p2, e2) = xs @ ys
       else alloc_fails k c (length xs + length ys) (unat (ep_blockIndexSize e') + length ys) (po_fresh p') \<and> (length ys \<le> block_size k \<longrightarrow> ep_contents k (p2, e2) = xs)"
      using q(2) ep_contents_inv(1) [OF t(1)] by (cases a) auto
    then show ?thesis using r(1) True i(1,3) c d(1) q(1) ep_contents_inv(1) [OF t(1) d(2)] by auto
  qed (use r in auto)
qed

lemma demo_bulk_run:
  "map_option (map_sum id (\<lambda>(acc, out, b, st). (acc, out, b)))
     (bulk_run traits4 [Enqueue_bulk True [1, 2, 3, 4, 5, 6], Dequeue_bulk 2, Enqueue_one True 7, Dequeue_bulk 3] (demo_pool, demo_producer)) =
   Some (Inr ([1, 2, 3, 4, 5, 6, 7], [1, 2, 3, 4, 5], True))"
  by code_simp

theorem explicit_bulk_fifo_witness:
  "\<exists>st st'. bulk_run traits4 [Enqueue_bulk True [1, 2, 3, 4, 5, 6], Dequeue_bulk 2, Enqueue_one True 7, Dequeue_bulk 3] (demo_pool, demo_producer) =
       Some (Inr ([1, 2, 3, 4, 5, 6, 7], [1, 2, 3, 4, 5], True, st)) \<and>
     ep_contents traits4 st = [6, 7] \<and> ep_dequeue_bulk traits4 1 st = Some (Inr ([6], st')) \<and> ep_contents traits4 st' = [7]"
proof -
  let ?ops = "[Enqueue_bulk True [1, 2, 3, 4, 5, 6], Dequeue_bulk 2, Enqueue_one True 7, Dequeue_bulk 3] :: nat bulk_op list"
  have m: "\<forall>op \<in> set ?ops. length (op_items op) \<le> 2 ^ 62" "length [8 :: nat] \<le> 2 ^ 62" by simp_all
  from explicit_bulk_fifo [OF traits4_all_ok demo_producer_ctor [unfolded demo_pool_def] m, where c = True and maxCount = 1, folded demo_pool_def]
  obtain acc out b st where r: "bulk_run traits4 ?ops (demo_pool, demo_producer) = Some (Inr (acc, out, b, st))"
    "b \<Longrightarrow> acc = out @ ep_contents traits4 st \<and>
       (\<exists>st'. ep_dequeue_bulk traits4 1 st = Some (Inr (take 1 (ep_contents traits4 st), st')) \<and> ep_contents traits4 st' = drop 1 (ep_contents traits4 st))"
    by (auto split: if_splits)
  have "acc = [1, 2, 3, 4, 5, 6, 7]" "out = [1, 2, 3, 4, 5]" b using demo_bulk_run unfolding r(1) by simp_all
  then show ?thesis using r by auto
qed

section \<open>After a refusal\<close>

text \<open>Two blocks are preallocated, and the index has room for two.\<close>

definition pool_of_two :: "nat cq_pool" where
  "pool_of_two = populate_initial_block_list traits4 True 2"

text \<open>The answers of the operations, in order, and what a run ends with.\<close>

fun bulk_answers :: "cq_traits \<Rightarrow> 'a bulk_op list \<Rightarrow> 'a ep_state \<Rightarrow> (bool \<times> 'a list) list \<times> cpp_error option" where
  "bulk_answers k [] st = ([], None)"
| "bulk_answers k (op # ops) st =
     (case bulk_op_step k op st of
        None \<Rightarrow> ([], None)
      | Some (Inl err) \<Rightarrow> ([], Some err)
      | Some (Inr (b, out, st)) \<Rightarrow> (case bulk_answers k ops st of (rs, err) \<Rightarrow> ((b, out) # rs, err)))"

text \<open>
  A refused bulk corrupts a producer: the blocks it has taken stay in the ring, but the count of the used entries of the block index goes back
  (the comment says that the blocks are kept for later). With blocks of four elements, two of them preallocated, \<open>try_enqueue_bulk\<close> of
  twelve elements is refused for want of a third block; \<open>enqueue_bulk\<close> of the same twelve then succeeds and writes the entry of the
  third block over that of the first: the elements 8 to 11 come out first, then 4 to 7, and the next \<open>dequeue\<close> reads an element that is not there.
\<close>
theorem bulk_refused_corrupts:
  "map_option (\<lambda>e. bulk_answers traits4 ([Enqueue_bulk False [0..<12], Enqueue_bulk True [0..<12]] @ replicate 9 Dequeue_one) (pool_of_two, e))
     (ExplicitProducer traits4 pool_of_two) =
   Some ([(False, []), (True, []), (True, [8]), (True, [9]), (True, [10]), (True, [11]), (True, [4]), (True, [5]), (True, [6]), (True, [7])],
     Some (UndefinedBehaviour ''raw storage''))"
  by code_simp

end
