(* ===== verification/CQ_Queue.thy ===== *)
theory CQ_Queue
  imports CQ_Explicit_Spec
begin

text \<open>
  \<open>ConcurrentQueue\<close> (\<^verbatim>\<open>concurrentqueue/concurrentqueue.h\<close>) as one thread sees it: the list of producers, producer and consumer
  tokens, the ways to dequeue, and destruction, for traits with \<open>INITIAL_IMPLICIT_PRODUCER_HASH_SIZE = 0\<close>, which turn implicit
  production off. The queue is a list of first-in, first-out lists, one for each producer.
\<close>

section \<open>Data\<close>

text \<open>
  Producers are never removed while the queue lives, and a new one is put in front of the list. A producer is therefore named by
  its position in the order of creation: \<open>producerListTail\<close> is the last one, and \<open>next_prod\<close> leads to the one created before.
\<close>

record producer =
  pr_ep :: explicit_producer
  pr_inactive :: bool
  pr_token :: bool    \<comment> \<open>has a token\<close>

record 'a cqueue =
  cq_blocks :: "'a cq_pool"
  cq_producers :: "producer list"
  cq_producerCount :: u32
  cq_nextExplicitConsumerId :: u32
  cq_globalExplicitConsumerOffset :: u32

record consumer_token =
  ct_initialOffset :: u32
  ct_lastKnownGlobalOffset :: u32
  ct_itemsConsumedFromCurrent :: u32
  ct_currentProducer :: "nat option"
  ct_desiredProducer :: "nat option"

definition producerListTail :: "'a cqueue \<Rightarrow> nat option" where
  "producerListTail q = (case length (cq_producers q) of 0 \<Rightarrow> None | Suc n \<Rightarrow> Some n)"

definition next_prod :: "nat \<Rightarrow> nat option" where
  "next_prod i = (case i of 0 \<Rightarrow> None | Suc n \<Rightarrow> Some n)"

section \<open>Construction and tokens\<close>

definition cq_empty :: "'a cq_pool \<Rightarrow> 'a cqueue" where
  "cq_empty p = \<lparr>cq_blocks = p, cq_producers = [], cq_producerCount = 0, cq_nextExplicitConsumerId = 0, cq_globalExplicitConsumerOffset = 0\<rparr>"

definition ConcurrentQueue :: "cq_traits \<Rightarrow> bool \<Rightarrow> size_t \<Rightarrow> 'a cqueue" where
  "ConcurrentQueue k arrayAllocated capacity =
     cq_empty (populate_initial_block_list k arrayAllocated
       (capacity div tr_BLOCK_SIZE k + (if capacity AND (tr_BLOCK_SIZE k - 1) = 0 then 0 else 1)))"

definition ConcurrentQueue3 :: "cq_traits \<Rightarrow> bool \<Rightarrow> size_t \<Rightarrow> size_t \<Rightarrow> size_t \<Rightarrow> 'a cqueue" where
  "ConcurrentQueue3 k arrayAllocated minCapacity maxExplicitProducers maxImplicitProducers =
     cq_empty (populate_initial_block_list k arrayAllocated
       (((minCapacity + tr_BLOCK_SIZE k - 1) div tr_BLOCK_SIZE k - 1) * (maxExplicitProducers + 1) + 2 * (maxExplicitProducers + maxImplicitProducers)))"

definition add_producer :: "explicit_producer \<Rightarrow> 'a cqueue \<Rightarrow> nat \<times> 'a cqueue" where
  "add_producer e q =
     (length (cq_producers q), q\<lparr>cq_producerCount := cq_producerCount q + 1, cq_producers := cq_producers q @ [\<lparr>pr_ep = e, pr_inactive = False, pr_token = False\<rparr>]\<rparr>)"

text \<open>The search from the tail for a producer without an owner; \<open>Suc i\<close> stands for the pointer to producer \<open>i\<close>, 0 for null.\<close>

fun find_inactive :: "producer list \<Rightarrow> nat \<Rightarrow> nat option" where
  "find_inactive ps 0 = None"
| "find_inactive ps (Suc i) = (if pr_inactive (ps ! i) then Some i else find_inactive ps i)"

definition upd_producer :: "nat \<Rightarrow> (producer \<Rightarrow> producer) \<Rightarrow> 'a cqueue \<Rightarrow> 'a cqueue" where
  "upd_producer i f q = q\<lparr>cq_producers := (cq_producers q)[i := f (cq_producers q ! i)]\<rparr>"

text \<open>\<open>created\<close> says whether \<open>create<ExplicitProducer>\<close> gets memory for the object.\<close>

definition recycle_or_create_producer :: "cq_traits \<Rightarrow> bool \<Rightarrow> 'a cqueue \<Rightarrow> (nat option \<times> 'a cqueue) option" where
  "recycle_or_create_producer k created q =
     (case find_inactive (cq_producers q) (length (cq_producers q)) of
        Some i \<Rightarrow> Some (Some i, upd_producer i (pr_inactive_update (\<lambda>_. False)) q)
      | None \<Rightarrow>
          if \<not> created then Some (None, q)
          else case ExplicitProducer k (cq_blocks q) of
                 None \<Rightarrow> None
               | Some e \<Rightarrow> (case add_producer e q of (i, q) \<Rightarrow> Some (Some i, q)))"

definition ProducerToken :: "cq_traits \<Rightarrow> bool \<Rightarrow> 'a cqueue \<Rightarrow> (nat option \<times> 'a cqueue) option" where
  "ProducerToken k created q =
     (case recycle_or_create_producer k created q of
        None \<Rightarrow> None
      | Some (None, q) \<Rightarrow> Some (None, q)
      | Some (Some i, q) \<Rightarrow> Some (Some i, upd_producer i (pr_token_update (\<lambda>_. True)) q))"

definition ProducerToken_dtor :: "nat option \<Rightarrow> 'a cqueue \<Rightarrow> 'a cqueue" where
  "ProducerToken_dtor t q =
     (case t of None \<Rightarrow> q | Some i \<Rightarrow> upd_producer i (\<lambda>p. p\<lparr>pr_token := False, pr_inactive := True\<rparr>) q)"

definition ConsumerToken :: "'a cqueue \<Rightarrow> consumer_token \<times> 'a cqueue" where
  "ConsumerToken q =
     (\<lparr>ct_initialOffset = cq_nextExplicitConsumerId q, ct_lastKnownGlobalOffset = - 1, ct_itemsConsumedFromCurrent = 0,
        ct_currentProducer = None, ct_desiredProducer = None\<rparr>,
      q\<lparr>cq_nextExplicitConsumerId := cq_nextExplicitConsumerId q + 1\<rparr>)"

section \<open>Enqueueing and dequeueing\<close>

definition set_ep :: "nat \<Rightarrow> 'a cqueue \<Rightarrow> 'a ep_state \<Rightarrow> 'a cqueue" where
  "set_ep i q = (\<lambda>(p, e). upd_producer i (pr_ep_update (\<lambda>_. e)) (q\<lparr>cq_blocks := p\<rparr>))"

definition get_ep :: "nat \<Rightarrow> 'a cqueue \<Rightarrow> 'a ep_state" where
  "get_ep i q = (cq_blocks q, pr_ep (cq_producers q ! i))"

definition cq_inner_enqueue :: "cq_traits \<Rightarrow> bool \<Rightarrow> nat option \<Rightarrow> 'a \<Rightarrow> 'a cqueue \<Rightarrow> (bool \<times> 'a cqueue) result option" where
  "cq_inner_enqueue k canAlloc token x q =
     (case token of
        None \<Rightarrow> Some (Inl (UndefinedBehaviour ''nullptr''))
      | Some i \<Rightarrow>
          (case ep_enqueue k canAlloc (Some x) (get_ep i q) of
             None \<Rightarrow> None
           | Some (Inl err) \<Rightarrow> Some (Inl err)
           | Some (Inr (r, st)) \<Rightarrow> Some (Inr (r = Some True, set_ep i q st))))"

definition cq_enqueue :: "cq_traits \<Rightarrow> nat option \<Rightarrow> 'a \<Rightarrow> 'a cqueue \<Rightarrow> (bool \<times> 'a cqueue) result option" where
  "cq_enqueue k token x q = cq_inner_enqueue k True token x q"

definition cq_try_enqueue :: "cq_traits \<Rightarrow> nat option \<Rightarrow> 'a \<Rightarrow> 'a cqueue \<Rightarrow> (bool \<times> 'a cqueue) result option" where
  "cq_try_enqueue k token x q = cq_inner_enqueue k False token x q"

text \<open>\<open>enqueue\<close> and \<open>try_enqueue\<close> without a token, when implicit production is off.\<close>

definition cq_enqueue_implicit :: "'a \<Rightarrow> 'a cqueue \<Rightarrow> bool \<times> 'a cqueue" where
  "cq_enqueue_implicit x q = (False, q)"

definition prod_dequeue :: "cq_traits \<Rightarrow> nat \<Rightarrow> 'a cqueue \<Rightarrow> ('a option \<times> 'a cqueue) result" where
  "prod_dequeue k i q = map_sum id (\<lambda>(r, st). (r, set_ep i q st)) (ep_dequeue k (get_ep i q))"

text \<open>The first loop of \<open>try_dequeue\<close>: the longest of the first three non-empty producers.\<close>

fun scan_best :: "producer list \<Rightarrow> nat \<Rightarrow> nat \<Rightarrow> nat option \<Rightarrow> size_t \<Rightarrow> nat \<times> nat option" where
  "scan_best ps 0 nonEmptyCount best bestSize = (nonEmptyCount, best)"
| "scan_best ps (Suc i) nonEmptyCount best bestSize =
     (if nonEmptyCount < 3
      then let size = ep_size_approx (pr_ep (ps ! i))
           in if size > 0
              then if size > bestSize then scan_best ps i (Suc nonEmptyCount) (Some i) size
                   else scan_best ps i (Suc nonEmptyCount) best bestSize
              else scan_best ps i nonEmptyCount best bestSize
      else (nonEmptyCount, best))"

fun dequeue_each :: "cq_traits \<Rightarrow> nat option \<Rightarrow> nat \<Rightarrow> 'a cqueue \<Rightarrow> ('a option \<times> 'a cqueue) result" where
  "dequeue_each k best 0 q = Inr (None, q)"
| "dequeue_each k best (Suc i) q =
     (if Some i = best then dequeue_each k best i q
      else case prod_dequeue k i q of
             Inl err \<Rightarrow> Inl err
           | Inr (Some x, q) \<Rightarrow> Inr (Some x, q)
           | Inr (None, q) \<Rightarrow> dequeue_each k best i q)"

definition cq_try_dequeue :: "cq_traits \<Rightarrow> 'a cqueue \<Rightarrow> ('a option \<times> 'a cqueue) result" where
  "cq_try_dequeue k q =
     (case scan_best (cq_producers q) (length (cq_producers q)) 0 None 0 of
        (nonEmptyCount, best) \<Rightarrow>
          if nonEmptyCount > 0
          then case best of
                 None \<Rightarrow> Inl (UndefinedBehaviour ''nullptr'')
               | Some b \<Rightarrow>
                   (case prod_dequeue k b q of
                      Inl err \<Rightarrow> Inl err
                    | Inr (Some x, q) \<Rightarrow> Inr (Some x, q)
                    | Inr (None, q) \<Rightarrow> dequeue_each k best (length (cq_producers q)) q)
          else Inr (None, q))"

definition try_dequeue_non_interleaved :: "cq_traits \<Rightarrow> 'a cqueue \<Rightarrow> ('a option \<times> 'a cqueue) result" where
  "try_dequeue_non_interleaved k q = dequeue_each k None (length (cq_producers q)) q"

definition try_dequeue_from_producer :: "cq_traits \<Rightarrow> nat option \<Rightarrow> 'a cqueue \<Rightarrow> ('a option \<times> 'a cqueue) result" where
  "try_dequeue_from_producer k token q = (case token of None \<Rightarrow> Inl (UndefinedBehaviour ''nullptr'') | Some i \<Rightarrow> prod_dequeue k i q)"

definition cq_size_approx :: "'a cqueue \<Rightarrow> size_t" where
  "cq_size_approx q = fold (\<lambda>p size. size + ep_size_approx (pr_ep p)) (rev (cq_producers q)) 0"

subsection \<open>Consumer tokens\<close>

text \<open>One step along the list, from its end back to the tail.\<close>

definition next_around :: "'a cqueue \<Rightarrow> nat \<Rightarrow> nat option" where
  "next_around q i = (case next_prod i of None \<Rightarrow> producerListTail q | Some j \<Rightarrow> Some j)"

fun advance :: "'a cqueue \<Rightarrow> nat \<Rightarrow> nat option \<Rightarrow> nat option result" where
  "advance q 0 ptr = Inr ptr"
| "advance q (Suc n) ptr = (case ptr of None \<Rightarrow> Inl (UndefinedBehaviour ''nullptr'') | Some i \<Rightarrow> advance q n (next_around q i))"

definition update_current_producer_after_rotation :: "'a cqueue \<Rightarrow> consumer_token \<Rightarrow> (bool \<times> consumer_token) result" where
  "update_current_producer_after_rotation q token =
     (let tail = producerListTail q
      in if ct_desiredProducer token = None \<and> tail = None then Inr (False, token)
         else let prodCount = cq_producerCount q; globalOffset = cq_globalExplicitConsumerOffset q
              in case (if ct_desiredProducer token = None
                       then if prodCount = 0 then Inl (UndefinedBehaviour ''% 0'')
                            else advance q (unat (prodCount - 1 - ct_initialOffset token mod prodCount)) tail
                       else Inr (ct_desiredProducer token)) of
                   Inl err \<Rightarrow> Inl err
                 | Inr desired \<Rightarrow>
                     let delta = globalOffset - ct_lastKnownGlobalOffset token
                     in if delta \<ge> prodCount \<and> prodCount = 0 then Inl (UndefinedBehaviour ''% 0'')
                        else case advance q (unat (if delta \<ge> prodCount then delta mod prodCount else delta)) desired of
                               Inl err \<Rightarrow> Inl err
                             | Inr desired \<Rightarrow> Inr (True, token\<lparr>ct_desiredProducer := desired, ct_lastKnownGlobalOffset := globalOffset,
                                   ct_currentProducer := desired, ct_itemsConsumedFromCurrent := 0\<rparr>))"

text \<open>The loop over the other producers, starting behind the current one.\<close>

partial_function (option) dequeue_around ::
    "cq_traits \<Rightarrow> nat \<Rightarrow> nat option \<Rightarrow> 'a cqueue \<Rightarrow> (('a \<times> nat) option \<times> 'a cqueue) result option" where
  "dequeue_around k current ptr q =
     (if ptr = Some current then Some (Inr (None, q))
      else case ptr of
             None \<Rightarrow> Some (Inl (UndefinedBehaviour ''nullptr''))
           | Some i \<Rightarrow>
               (case prod_dequeue k i q of
                  Inl err \<Rightarrow> Some (Inl err)
                | Inr (Some x, q) \<Rightarrow> Some (Inr (Some (x, i), q))
                | Inr (None, q) \<Rightarrow> dequeue_around k current (next_around q i) q))"

definition cq_try_dequeue_token :: "cq_traits \<Rightarrow> u32 \<Rightarrow> consumer_token \<Rightarrow> 'a cqueue \<Rightarrow> ('a option \<times> consumer_token \<times> 'a cqueue) result option" where
  "cq_try_dequeue_token k quota token q =
     (case (if ct_desiredProducer token = None \<or> ct_lastKnownGlobalOffset token \<noteq> cq_globalExplicitConsumerOffset q
            then update_current_producer_after_rotation q token else Inr (True, token)) of
        Inl err \<Rightarrow> Some (Inl err)
      | Inr (False, token) \<Rightarrow> Some (Inr (None, token, q))
      | Inr (True, token) \<Rightarrow>
          (case ct_currentProducer token of
             None \<Rightarrow> Some (Inl (UndefinedBehaviour ''nullptr''))
           | Some current \<Rightarrow>
               (case prod_dequeue k current q of
                  Inl err \<Rightarrow> Some (Inl err)
                | Inr (Some x, q) \<Rightarrow>
                    let n = ct_itemsConsumedFromCurrent token + 1
                    in Some (Inr (Some x, token\<lparr>ct_itemsConsumedFromCurrent := n\<rparr>,
                         if n = quota then q\<lparr>cq_globalExplicitConsumerOffset := cq_globalExplicitConsumerOffset q + 1\<rparr> else q))
                | Inr (None, q) \<Rightarrow>
                    (case dequeue_around k current (next_around q current) q of
                       None \<Rightarrow> None
                     | Some (Inl err) \<Rightarrow> Some (Inl err)
                     | Some (Inr (None, q)) \<Rightarrow> Some (Inr (None, token, q))
                     | Some (Inr (Some (x, i), q)) \<Rightarrow>
                         Some (Inr (Some x, token\<lparr>ct_currentProducer := Some i, ct_itemsConsumedFromCurrent := 1\<rparr>, q))))))"

section \<open>Destruction\<close>

fun destroy_producers :: "cq_traits \<Rightarrow> producer list \<Rightarrow> nat \<Rightarrow> 'a cq_pool \<Rightarrow> 'a cq_pool result option" where
  "destroy_producers k ps 0 p = Some (Inr p)"
| "destroy_producers k ps (Suc i) p =
     (case ep_dtor k (p, pr_ep (ps ! i)) of
        None \<Rightarrow> None
      | Some (Inl err) \<Rightarrow> Some (Inl err)
      | Some (Inr p) \<Rightarrow> destroy_producers k ps i p)"

text \<open>The blocks on the free list that were allocated one by one are freed, then the initial array.\<close>

fun destroy_free_list :: "nat list \<Rightarrow> (nat \<rightharpoonup> 'a cq_block) \<Rightarrow> (nat \<rightharpoonup> 'a cq_block) result" where
  "destroy_free_list [] h = Inr h"
| "destroy_free_list (a # as) h =
     (case h a of
        None \<Rightarrow> Inl (UndefinedBehaviour ''block'')
      | Some b \<Rightarrow> destroy_free_list as (if cqb_dynamicallyAllocated b then h(a := None) else h))"

definition cq_dtor :: "cq_traits \<Rightarrow> 'a cqueue \<Rightarrow> (nat \<rightharpoonup> 'a cq_block) result option" where
  "cq_dtor k q =
     (case destroy_producers k (cq_producers q) (length (cq_producers q)) (cq_blocks q) of
        None \<Rightarrow> None
      | Some (Inl err) \<Rightarrow> Some (Inl err)
      | Some (Inr p) \<Rightarrow>
          Some (map_sum id (\<lambda>h a. if a < unat (po_initialBlockPoolSize p) then None else h a) (destroy_free_list (po_freeList p) (po_heap p))))"

section \<open>Moving and swapping\<close>

definition cq_move :: "cq_traits \<Rightarrow> 'a cqueue \<Rightarrow> 'a cqueue \<times> 'a cqueue" where
  "cq_move k other = (other, cq_empty (populate_initial_block_list k False 0))"

definition cq_swap :: "'a cqueue \<Rightarrow> 'a cqueue \<Rightarrow> 'a cqueue \<times> 'a cqueue" where
  "cq_swap q other = (other, q)"

end
