(* ===== verification/CQ_Origin.thy ===== *)
theory CQ_Origin
  imports CQ_Explicit
begin

text \<open>
  Where the blocks of \<open>ConcurrentQueue\<close> come from: the flag \<open>dynamicallyAllocated\<close>, which decides whether the destructor frees a block by
  itself, is true of exactly the blocks outside \<open>initialBlockPool\<close>. Every operation of an explicit producer keeps it so.
\<close>

definition origin_ok :: "'a cq_pool \<Rightarrow> bool" where
  "origin_ok p \<longleftrightarrow> unat (po_initialBlockPoolSize p) \<le> po_fresh p \<and>
     (\<forall>a b. po_heap p a = Some b \<longrightarrow> (cqb_dynamicallyAllocated b \<longleftrightarrow> unat (po_initialBlockPoolSize p) \<le> a))"

named_theorems block_origin

lemma block_origin_simps [block_origin]:
  "cqb_dynamicallyAllocated (reset_empty k c b) = cqb_dynamicallyAllocated b" "cqb_dynamicallyAllocated (cqb_construct k x i b) = cqb_dynamicallyAllocated b"
  "cqb_dynamicallyAllocated (cqb_destroy k i b) = cqb_dynamicallyAllocated b" "cqb_dynamicallyAllocated (cq_Block k)"
  by (simp_all add: reset_empty_def cqb_construct_def cqb_destroy_def cq_Block_def)

lemma set_empty_origin: "set_empty k c i b = Inr (x, b') \<Longrightarrow> cqb_dynamicallyAllocated b' = cqb_dynamicallyAllocated b"
  using set_empty_frame [of k c i b x b'] by (simp add: same_block_def)

lemma origin_write:
  "origin_ok p \<Longrightarrow> po_heap p a = Some b \<Longrightarrow> cqb_dynamicallyAllocated b' = cqb_dynamicallyAllocated b \<Longrightarrow> origin_ok (cq_write a b' p)"
  by (auto simp: origin_ok_def cq_write_def)

lemma cq_deref_Inr: "cq_deref p a f = Inr r \<longleftrightarrow> (\<exists>a' b. a = Some a' \<and> po_heap p a' = Some b \<and> f a' b = Inr r)"
  by (auto simp: cq_deref_def split: option.splits)

lemma map_sum_Inr: "map_sum id f s = Inr y \<longleftrightarrow> (\<exists>x. s = Inr x \<and> y = f x)"
  by (cases s) auto

lemma populate_origin: "origin_ok (populate_initial_block_list k ok n)"
  by (auto simp: origin_ok_def populate_initial_block_list_def Let_def split: if_splits)

lemma requisition_origin: "origin_ok p \<Longrightarrow> requisition_block k c p = (r, p') \<Longrightarrow> origin_ok p'"
  by (auto simp: requisition_block_def try_get_block_from_initial_pool_def try_get_block_from_free_list_def create_block_def Let_def origin_ok_def
      cq_write_def block_origin split: if_splits prod.splits option.splits list.splits)

lemma link_origin:
  assumes "origin_ok p" "link_block k a (p, e) = Inr (p', e')" shows "origin_ok p'"
proof -
  obtain b where b: "po_heap p a = Some b" using assms(2) by (auto simp: link_block_def cq_deref_Inr)
  show ?thesis
  proof (cases "ep_tailBlock e")
    case None
    then show ?thesis using assms b by (auto simp: link_block_def cq_deref_Inr Let_def block_origin intro!: origin_write)
  next
    case (Some t)
    let ?b = "reset_empty k explicit_context b"
    obtain tb where t: "po_heap (cq_write a ?b p) t = Some tb" and p': "p' = cq_write t (tb\<lparr>cqb_next := Some a\<rparr>) (cq_write a (?b\<lparr>cqb_next := cqb_next tb\<rparr>) p)"
      using assms(2) Some b by (auto simp: link_block_def cq_deref_Inr Let_def)
    have 1: "origin_ok (cq_write a (?b\<lparr>cqb_next := cqb_next tb\<rparr>) p)" using assms(1) b by (rule origin_write) (simp add: block_origin)
    obtain tb' where tb': "po_heap (cq_write a (?b\<lparr>cqb_next := cqb_next tb\<rparr>) p) t = Some tb'" "cqb_dynamicallyAllocated tb' = cqb_dynamicallyAllocated tb"
      using t by (cases "t = a") (auto simp: cq_write_def)
    show ?thesis unfolding p' using 1 tb'(1) by (rule origin_write) (simp add: tb'(2))
  qed
qed

lemma new_block_origin: "origin_ok p \<Longrightarrow> ep_new_block k c (p, e) = Some (Inr (r, p', e')) \<Longrightarrow> origin_ok p'"
  by (auto simp: ep_new_block_def Let_def map_sum_Inr dest: requisition_origin link_origin split: if_splits option.splits bool.splits prod.splits sum.splits)

lemma next_block_origin: "origin_ok p \<Longrightarrow> ep_next_block k c (p, e) = Some (Inr (r, p', e')) \<Longrightarrow> origin_ok p'"
  by (auto simp: ep_next_block_def cq_deref_Inr map_sum_Inr block_origin dest: new_block_origin intro: origin_write split: option.splits sum.splits bool.splits prod.splits)

lemma place_origin: "origin_ok p \<Longrightarrow> ep_place k x (p, e) = Inr p' \<Longrightarrow> origin_ok p'"
  by (auto simp: ep_place_def cq_deref_Inr block_origin intro: origin_write)

lemma enqueue_origin:
  assumes "origin_ok p" "ep_enqueue k c x (p, e) = Some (Inr (r, p', e'))" shows "origin_ok p'"
proof -
  have "origin_ok p'" if "origin_ok p1" "ep_place k v (p1, e1) = Inr p'" for p1 e1 v using place_origin [OF that] .
  moreover have "origin_ok p1" if "ep_next_block k c (p, e) = Some (Inr (b, p1, e1))" for b p1 e1 using next_block_origin [OF assms(1) that] .
  ultimately show ?thesis using assms
    by (auto simp: ep_enqueue_def Let_def map_sum_Inr split: if_splits option.splits sum.splits bool.splits prod.splits)
qed

lemma dequeue_origin:
  assumes "origin_ok p" "ep_dequeue k (p, e) = Inr (r, p', e')" shows "origin_ok p'"
proof -
  have "p' = p \<or> (\<exists>a b b' x i. po_heap p a = Some b \<and> set_empty k explicit_context i (cqb_destroy k i b) = Inr (x, b') \<and> p' = cq_write a b' p)"
    using assms(2) by (auto simp: ep_dequeue_def Let_def cq_deref_def split: if_splits sum.split_asm option.split_asm) blast
  then show ?thesis
  proof (elim disjE exE conjE)
    fix a b b' x i
    assume b: "po_heap p a = Some b" "set_empty k explicit_context i (cqb_destroy k i b) = Inr (x, b')" "p' = cq_write a b' p"
    show ?thesis unfolding b(3) using assms(1) b(1) by (rule origin_write) (simp add: set_empty_origin [OF b(2)] block_origin)
  qed (simp add: assms(1))
qed

lemma destroy_items_origin:
  assumes "destroy_items k l i b = Some (Inr b')" shows "cqb_dynamicallyAllocated b' = cqb_dynamicallyAllocated b"
proof -
  have "\<forall>b'. r = Inr b' \<longrightarrow> cqb_dynamicallyAllocated b' = cqb_dynamicallyAllocated b" if "destroy_items k l i b = Some r" for r
    by (rule destroy_items.raw_induct [OF _ that]) (fastforce simp: block_origin split: if_splits sum.splits)
  from this [OF assms] show ?thesis by simp
qed

lemma destroy_block_origin: "destroy_block k e h a b = Some (Inr b') \<Longrightarrow> cqb_dynamicallyAllocated b' = cqb_dynamicallyAllocated b"
  by (auto simp: destroy_block_def Let_def dest: destroy_items_origin split: sum.splits bool.splits)

lemma destroy_ring_origin:
  assumes "destroy_ring k e h x p = Some (Inr p')" "origin_ok p" shows "origin_ok p'"
proof -
  have "origin_ok p \<longrightarrow> (case r of Inl _ \<Rightarrow> True | Inr p' \<Rightarrow> origin_ok p')" if "destroy_ring k e h x p = Some r" for r
  proof (rule destroy_ring.raw_induct [OF _ that])
    fix f :: "cq_traits \<Rightarrow> explicit_producer \<Rightarrow> nat option \<Rightarrow> nat option \<Rightarrow> 'a cq_pool \<Rightarrow> 'a cq_pool result option" and k e h x and p :: "'a cq_pool" and r
    assume IH: "\<And>k e h x p r. f k e h x p = Some r \<Longrightarrow> origin_ok p \<longrightarrow> (case r of Inl _ \<Rightarrow> True | Inr p' \<Rightarrow> origin_ok p')"
      and r: "(case cq_deref p x (\<lambda>_ b. cq_deref p (cqb_next b) (\<lambda>a b. Inr (a, b))) of
        Inl err \<Rightarrow> Some (Inl err)
      | Inr (a, b) \<Rightarrow>
          (case destroy_block k e h a b of
             None \<Rightarrow> None
           | Some (Inl err) \<Rightarrow> Some (Inl err)
           | Some (Inr b) \<Rightarrow>
               let p = cq_write a b p
               in if Some a \<noteq> ep_tailBlock e then f k e h (Some a) p else Some (Inr p))) = Some r"
    show "origin_ok p \<longrightarrow> (case r of Inl _ \<Rightarrow> True | Inr p' \<Rightarrow> origin_ok p')"
    proof
      assume p: "origin_ok p"
      have w: "origin_ok (cq_write a b' p)" if "cq_deref p x (\<lambda>_ b. cq_deref p (cqb_next b) (\<lambda>a b. Inr (a, b))) = Inr (a, b)" "destroy_block k e h a b = Some (Inr b')" for a b b'
        using that p by (auto simp: cq_deref_Inr dest: destroy_block_origin intro: origin_write)
      then show "case r of Inl _ \<Rightarrow> True | Inr p' \<Rightarrow> origin_ok p'"
        using r IH by (fastforce simp: Let_def split: sum.splits prod.splits option.splits if_splits)
    qed
  qed
  from this [OF assms(1)] assms(2) show ?thesis by simp
qed

lemma add_free_origin: "origin_ok p \<Longrightarrow> add_block_to_free_list k a p = Inr p' \<Longrightarrow> origin_ok p'"
  by (auto simp: add_block_to_free_list_def cq_deref_Inr origin_ok_def split: if_splits)

lemma free_ring_origin:
  assumes "free_ring k t x p = Some (Inr p')" "origin_ok p" shows "origin_ok p'"
proof -
  have "origin_ok p \<longrightarrow> (case r of Inl _ \<Rightarrow> True | Inr p' \<Rightarrow> origin_ok p')" if "free_ring k t x p = Some r" for r
    by (rule free_ring.raw_induct [OF _ that]) (fastforce simp: cq_deref_def map_sum_def dest: add_free_origin split: sum.splits option.splits if_splits)
  from this [OF assms(1)] assms(2) show ?thesis by simp
qed

lemma dtor_origin: "origin_ok p \<Longrightarrow> ep_dtor k (p, e) = Some (Inr p') \<Longrightarrow> origin_ok p'"
  by (auto simp: ep_dtor_def dest: destroy_ring_origin free_ring_origin split: if_splits option.splits sum.splits)

end
