(* ===== verification/CQ_Queue_Spec.thy ===== *)
theory CQ_Queue_Spec
  imports CQ_Queue CQ_Origin
begin

text \<open>
  \<open>ConcurrentQueue\<close> implements a list of queues, one for each producer: every operation is a step of that abstract system, all loops end,
  and no operation fails. The producers share the pool of blocks; the invariant says that their rings are disjoint.
\<close>

section \<open>The producers side by side\<close>

text \<open>What is known of a producer: its ring, the number of its oldest block, of its first element, and its elements.\<close>

type_synonym 'a ghost = "nat list \<times> nat \<times> nat \<times> 'a list"

definition rings :: "'a ghost list \<Rightarrow> nat set" where
  "rings gs = (\<Union>j < length gs. set (fst (gs ! j)))"

definition others :: "'a ghost list \<Rightarrow> nat \<Rightarrow> nat set" where
  "others gs i = (\<Union>j \<in> {..<length gs} - {i}. set (fst (gs ! j)))"

definition ghost_inv :: "cq_traits \<Rightarrow> nat set \<Rightarrow> 'a ep_state \<Rightarrow> 'a ghost \<Rightarrow> bool" where
  "ghost_inv k F st = (\<lambda>(ring, N, H, xs). ep_inv k F st ring N H xs)"

definition cq_inv :: "cq_traits \<Rightarrow> 'a cqueue \<Rightarrow> 'a ghost list \<Rightarrow> bool" where
  "cq_inv k q gs \<longleftrightarrow> length gs = length (cq_producers q) \<and> length gs < 2 ^ 32 \<and> unat (cq_producerCount q) = length gs \<and>
     pool_ok k (cq_blocks q) (rings gs) \<and> (\<forall>i < length gs. ghost_inv k (others gs i) (get_ep i q) (gs ! i))"

lemma rings_iff: "a \<in> rings gs \<longleftrightarrow> (\<exists>j < length gs. a \<in> set (fst (gs ! j)))"
  by (auto simp: rings_def)

lemma others_iff: "a \<in> others gs i \<longleftrightarrow> (\<exists>j < length gs. j \<noteq> i \<and> a \<in> set (fst (gs ! j)))"
  by (auto simp: others_def)

lemma rings_split: "i < length gs \<Longrightarrow> rings gs = set (fst (gs ! i)) \<union> others gs i"
  by (auto simp: rings_def others_def)

lemma others_upd_same: "others (gs[i := g]) i = others gs i"
  by (auto simp: others_def)

lemma others_mem: "j < length gs \<Longrightarrow> j \<noteq> i \<Longrightarrow> set (fst (gs ! j)) \<subseteq> others gs i"
  by (auto simp: others_def)

lemma ep_inv_frame:
  assumes "ep_inv k F (p, e) ring N H xs" "\<And>a. a \<in> set ring \<Longrightarrow> po_heap p' a = po_heap p a" "pool_ok k p' (set ring \<union> F')" "set ring \<inter> F' = {}"
  shows "ep_inv k F' (p', e) ring N H xs"
proof -
  have "ring_ok k (po_heap p) ring N H xs" using assms(1) by (simp add: ep_inv_def)
  then have "ring_ok k (po_heap p') ring N H xs" by (rule ring_ok_frame) (rule assms(2))
  then show ?thesis using assms unfolding ep_inv_def by simp
qed

lemma set_ep_simps [simp]:
  "cq_blocks (set_ep i q st) = fst st" "length (cq_producers (set_ep i q st)) = length (cq_producers q)" "cq_producerCount (set_ep i q st) = cq_producerCount q"
  "cq_nextExplicitConsumerId (set_ep i q st) = cq_nextExplicitConsumerId q" "cq_globalExplicitConsumerOffset (set_ep i q st) = cq_globalExplicitConsumerOffset q"
  by (cases st; simp add: set_ep_def upd_producer_def)+

lemma cq_inv_upd:
  assumes q: "cq_inv k q gs" and i: "i < length gs" and g: "ghost_inv k (others gs i) st g" and s: "same_on (others gs i) (cq_blocks q) (fst st)"
  shows "cq_inv k (set_ep i q st) (gs[i := g])"
proof -
  obtain p' e' where st: "st = (p', e')" by (cases st)
  let ?gs = "gs[i := g]" and ?q = "set_ep i q st"
  have n: "length (cq_producers q) = length gs" using q by (simp add: cq_inv_def)
  have pool: "pool_ok k p' (set (fst g) \<union> others gs i)" "set (fst g) \<inter> others gs i = {}" using g by (auto simp: ghost_inv_def ep_inv_def st split: prod.splits)
  have U: "rings ?gs = set (fst g) \<union> others gs i" using rings_split [of i ?gs] i by (simp add: others_upd_same)
  have "ghost_inv k (others ?gs j) (get_ep j ?q) (?gs ! j)" if j: "j < length gs" for j
  proof (cases "j = i")
    case True
    then show ?thesis using g i n by (simp add: others_upd_same get_ep_def set_ep_def upd_producer_def st)
  next
    case False
    obtain ring N H xs where gj: "gs ! j = (ring, N, H, xs)" by (metis prod_cases4)
    have old: "ep_inv k (others gs j) (cq_blocks q, pr_ep (cq_producers q ! j)) ring N H xs" using q j gj by (force simp: cq_inv_def ghost_inv_def get_ep_def)
    have sub: "set ring \<subseteq> others gs i" using others_mem [OF j False] gj by simp
    have "set ring \<union> others ?gs j = rings ?gs" using rings_split [of j ?gs] j False gj by simp
    then have A: "pool_ok k p' (set ring \<union> others ?gs j)" using pool(1) U by simp
    have B: "set ring \<inter> others ?gs j = {}"
    proof -
      have "set ring \<inter> others gs j = {}" using old by (simp add: ep_inv_def)
      moreover have "others ?gs j \<subseteq> others gs j \<union> set (fst g)" using i by (auto simp: others_def nth_list_update split: if_splits)
      ultimately show ?thesis using sub pool(2) by blast
    qed
    have C: "po_heap p' a = po_heap (cq_blocks q) a" if "a \<in> set ring" for a
    proof -
      have "a \<in> others gs i" using sub that by blast
      then show ?thesis using s by (simp add: same_on_def st)
    qed
    have "ep_inv k (others ?gs j) (p', pr_ep (cq_producers q ! j)) ring N H xs" by (rule ep_inv_frame [OF old C A B])
    then show ?thesis using False j n gj by (simp add: ghost_inv_def get_ep_def set_ep_def upd_producer_def st)
  qed
  moreover have "pool_ok k (cq_blocks ?q) (rings ?gs)" using pool(1) U by (simp add: st)
  moreover have "length gs < 2 ^ 32" "unat (cq_producerCount q) = length gs" using q by (auto simp: cq_inv_def)
  ultimately show ?thesis using n unfolding cq_inv_def by simp
qed

lemma cq_inv_add:
  assumes q: "cq_inv k q gs" and k: "cq_traits_ok k" and n: "Suc (length gs) < 2 ^ 32"
  shows "\<exists>e. ExplicitProducer k (cq_blocks q) = Some e \<and> cq_inv k (snd (add_producer e q)) (gs @ [([], 0, 0, [])])"
proof -
  let ?gs = "gs @ [([], 0, 0, [])]"
  have "traits_ok k" "malloc_ok k" "index_traits_ok k" using k by (auto simp: cq_traits_ok_def)
  moreover have p: "pool_ok k (cq_blocks q) (rings gs)" using q by (simp add: cq_inv_def)
  ultimately obtain e where e: "ExplicitProducer k (cq_blocks q) = Some e" "ep_inv k (rings gs) (cq_blocks q, e) [] 0 0 []" using ExplicitProducer_ok by blast
  have len: "length (cq_producers q) = length gs" "unat (cq_producerCount q) = length gs" using q by (auto simp: cq_inv_def)
  have o: "others ?gs i = others gs i" if "i < length gs" for i using that by (auto simp: others_iff nth_append less_Suc_eq set_eq_iff)
  have on: "others ?gs (length gs) = rings gs" "rings ?gs = rings gs" by (auto simp: others_iff rings_iff nth_append less_Suc_eq set_eq_iff)
  have "unat (cq_producerCount q + 1) = Suc (length gs)" using len(2) n by (simp add: unat_word_ariths)
  moreover have "ghost_inv k (others ?gs i) (get_ep i (snd (add_producer e q))) (?gs ! i)" if "i < Suc (length gs)" for i
    using that q e(2) o on(1) len(1) by (cases "i < length gs") (auto simp: cq_inv_def add_producer_def get_ep_def nth_append ghost_inv_def less_Suc_eq)
  ultimately have "cq_inv k (snd (add_producer e q)) ?gs" using p len n on(2) by (simp add: cq_inv_def add_producer_def)
  then show ?thesis using e(1) by blast
qed

section \<open>Contents\<close>

definition cq_ok :: "cq_traits \<Rightarrow> 'a cqueue \<Rightarrow> bool" where
  "cq_ok k q \<longleftrightarrow> cq_traits_ok k \<and> origin_ok (cq_blocks q) \<and> (\<exists>gs. cq_inv k q gs)"

definition cq_contents :: "cq_traits \<Rightarrow> 'a cqueue \<Rightarrow> 'a list list" where
  "cq_contents k q = map (\<lambda>i. ep_contents k (get_ep i q)) [0..<length (cq_producers q)]"

text \<open>The parts of a queue that enqueueing and dequeueing leave alone.\<close>

definition cq_same :: "'a cqueue \<Rightarrow> 'a cqueue \<Rightarrow> bool" where
  "cq_same q q' \<longleftrightarrow> map pr_inactive (cq_producers q') = map pr_inactive (cq_producers q) \<and> cq_producerCount q' = cq_producerCount q \<and>
     cq_nextExplicitConsumerId q' = cq_nextExplicitConsumerId q \<and> cq_globalExplicitConsumerOffset q' = cq_globalExplicitConsumerOffset q"

lemma cq_same_length: "cq_same q q' \<Longrightarrow> length (cq_producers q') = length (cq_producers q)"
  unfolding cq_same_def by (metis length_map)

lemma length_cq_contents [simp]: "length (cq_contents k q) = length (cq_producers q)"
  by (simp add: cq_contents_def)

lemma cq_contents_inv:
  assumes "cq_traits_ok k" "cq_inv k q gs"
  shows "cq_contents k q = map (snd \<circ> snd \<circ> snd) gs"
    "i < length (cq_producers q) \<Longrightarrow> ep_size_approx (pr_ep (cq_producers q ! i)) = of_nat (length (cq_contents k q ! i))"
    "i < length (cq_producers q) \<Longrightarrow> length (cq_contents k q ! i) \<le> 2 ^ 62"
proof -
  have t: "traits_ok k" and n: "length gs = length (cq_producers q)" using assms by (auto simp: cq_traits_ok_def cq_inv_def)
  have g: "ep_inv k (others gs i) (get_ep i q) (fst (gs ! i)) (fst (snd (gs ! i))) (fst (snd (snd (gs ! i)))) (snd (snd (snd (gs ! i))))"
    if "i < length gs" for i using assms(2) that by (auto simp: cq_inv_def ghost_inv_def split: prod.splits)
  note c = ep_contents_inv [OF t g]
  show eq: "cq_contents k q = map (snd \<circ> snd \<circ> snd) gs" using c(1) n by (intro nth_equalityI) (simp_all add: cq_contents_def)
  show "ep_size_approx (pr_ep (cq_producers q ! i)) = of_nat (length (cq_contents k q ! i))" if "i < length (cq_producers q)"
    using c(2) that n unfolding eq by (simp add: get_ep_def)
  show "length (cq_contents k q ! i) \<le> 2 ^ 62" if "i < length (cq_producers q)" using ep_inv_size [OF g] that n unfolding eq by simp
qed

lemma set_get_ep [simp]: "set_ep i q (get_ep i q) = q"
  by (simp add: set_ep_def get_ep_def upd_producer_def)

lemma cq_ok_upd:
  assumes k: "cq_traits_ok k" and q: "cq_inv k q gs" and i: "i < length gs" and g: "ep_inv k (others gs i) st ring N H ys"
    and s: "same_on (others gs i) (cq_blocks q) (fst st)" and o: "origin_ok (fst st)"
  shows "cq_ok k (set_ep i q st)" "cq_contents k (set_ep i q st) = (cq_contents k q)[i := ys]" "cq_same q (set_ep i q st)"
proof -
  have "cq_inv k (set_ep i q st) (gs[i := (ring, N, H, ys)])" using cq_inv_upd [OF q i _ s, of "(ring, N, H, ys)"] g by (simp add: ghost_inv_def)
  note inv = this
  show "cq_ok k (set_ep i q st)" using k inv o by (auto simp: cq_ok_def)
  show "cq_contents k (set_ep i q st) = (cq_contents k q)[i := ys]" unfolding cq_contents_inv(1) [OF k inv] cq_contents_inv(1) [OF k q] by (simp add: map_update)
  show "cq_same q (set_ep i q st)" using i q
    by (cases st) (auto simp: cq_same_def set_ep_def upd_producer_def map_update cq_inv_def list_update_same_conv)
qed

lemma prod_dequeue_ok:
  assumes q: "cq_ok k q" and i: "i < length (cq_producers q)"
  shows "cq_contents k q ! i = [] \<Longrightarrow> prod_dequeue k i q = Inr (None, q)"
    "cq_contents k q ! i = x # ys \<Longrightarrow> \<exists>q'. prod_dequeue k i q = Inr (Some x, q') \<and> cq_ok k q' \<and> cq_contents k q' = (cq_contents k q)[i := ys] \<and> cq_same q q'"
proof -
  obtain gs where gs: "cq_traits_ok k" "cq_inv k q gs" using q by (auto simp: cq_ok_def)
  then have t: "traits_ok k" and il: "i < length gs" using i by (auto simp: cq_traits_ok_def cq_inv_def)
  obtain ring N H xs where g: "gs ! i = (ring, N, H, xs)" by (metis prod_cases4)
  obtain p e where pe: "get_ep i q = (p, e)" "p = cq_blocks q" by (simp add: get_ep_def)
  have inv: "ep_inv k (others gs i) (p, e) ring N H xs" using gs(2) il g pe(1) by (force simp: cq_inv_def ghost_inv_def)
  have c: "cq_contents k q ! i = xs" using cq_contents_inv(1) [OF gs] il g by simp
  show "prod_dequeue k i q = Inr (None, q)" if "cq_contents k q ! i = []"
  proof -
    have "ep_dequeue k (get_ep i q) = Inr (None, get_ep i q)" using ep_dequeue_empty [of k "others gs i" p e ring N H] inv that c pe(1) by simp
    then show ?thesis by (simp add: prod_dequeue_def)
  qed
  show "\<exists>q'. prod_dequeue k i q = Inr (Some x, q') \<and> cq_ok k q' \<and> cq_contents k q' = (cq_contents k q)[i := ys] \<and> cq_same q q'"
    if "cq_contents k q ! i = x # ys"
  proof -
    have "xs = x # ys" using c that by simp
    then obtain p' e' where d: "ep_dequeue k (p, e) = Inr (Some x, p', e')" "ep_inv k (others gs i) (p', e') ring N (Suc H) ys" "same_on (others gs i) p p'"
      using ep_dequeue_ok [OF t, of "others gs i" p e ring N H x ys] inv by blast
    have "prod_dequeue k i q = Inr (Some x, set_ep i q (p', e'))" using d(1) pe(1) by (simp add: prod_dequeue_def)
    moreover have "origin_ok p'" using dequeue_origin [OF _ d(1)] q pe(2) by (simp add: cq_ok_def)
    ultimately show ?thesis using cq_ok_upd [OF gs il d(2)] d(3) pe(2) by auto
  qed
qed

lemma cq_inner_enqueue_ok:
  assumes q: "cq_ok k q" and i: "i < length (cq_producers q)"
  shows "\<exists>b q'. cq_inner_enqueue k c (Some i) x q = Some (Inr (b, q')) \<and> cq_ok k q' \<and>
    cq_contents k q' = (if b then (cq_contents k q)[i := cq_contents k q ! i @ [x]] else cq_contents k q) \<and> cq_same q q' \<and>
    (\<not> b \<longrightarrow> ep_refuses k c (get_ep i q) (length (cq_contents k q ! i)))"
proof -
  obtain gs where gs: "cq_traits_ok k" "cq_inv k q gs" using q by (auto simp: cq_ok_def)
  then have t: "traits_ok k" "limit_ok k" "malloc_ok k" and il: "i < length gs" using i by (auto simp: cq_traits_ok_def cq_inv_def)
  obtain ring N H xs where g: "gs ! i = (ring, N, H, xs)" by (metis prod_cases4)
  obtain p e where pe: "get_ep i q = (p, e)" "p = cq_blocks q" by (simp add: get_ep_def)
  have inv: "ep_inv k (others gs i) (p, e) ring N H xs" using gs(2) il g pe(1) by (force simp: cq_inv_def ghost_inv_def)
  have ci: "cq_contents k q ! i = xs" using cq_contents_inv(1) [OF gs] il g by simp
  obtain b p' e' ring' N' where d: "ep_enqueue k c (Some x) (p, e) = Some (Inr (Some b, p', e'))" "same_on (others gs i) p p'"
    "ep_inv k (others gs i) (p', e') ring' N' H (if b then xs @ [x] else xs)" "\<not> b \<longrightarrow> ep_refuses k c (p, e) (length xs)" using ep_enqueue_ok [OF t inv] by blast
  have "cq_inner_enqueue k c (Some i) x q = Some (Inr (b, set_ep i q (p', e')))" using d(1) pe(1) by (simp add: cq_inner_enqueue_def)
  moreover have "(cq_contents k q)[i := xs] = cq_contents k q" using ci by (metis list_update_id)
  moreover have "origin_ok p'" using enqueue_origin [OF _ d(1)] q pe(2) by (simp add: cq_ok_def)
  ultimately show ?thesis using cq_ok_upd [OF gs il d(3)] d(2,4) pe ci by auto
qed

section \<open>Dequeueing from any producer\<close>

lemma dequeue_each_ok:
  assumes "cq_ok k q"
  shows "n \<le> length (cq_producers q) \<Longrightarrow> \<exists>r q'. dequeue_each k best n q = Inr (r, q') \<and> cq_ok k q' \<and> cq_same q q' \<and>
    (case r of None \<Rightarrow> q' = q \<and> (\<forall>i < n. Some i \<noteq> best \<longrightarrow> cq_contents k q ! i = [])
     | Some x \<Rightarrow> \<exists>i < n. \<exists>ys. cq_contents k q ! i = x # ys \<and> cq_contents k q' = (cq_contents k q)[i := ys])"
proof (induction n)
  case 0
  then show ?case using assms by (simp add: cq_same_def)
next
  case (Suc i)
  then have i: "i < length (cq_producers q)" by simp
  obtain r q' where IH: "dequeue_each k best i q = Inr (r, q')" "cq_ok k q'" "cq_same q q'"
    "case r of None \<Rightarrow> q' = q \<and> (\<forall>j < i. Some j \<noteq> best \<longrightarrow> cq_contents k q ! j = [])
     | Some x \<Rightarrow> \<exists>j < i. \<exists>ys. cq_contents k q ! j = x # ys \<and> cq_contents k q' = (cq_contents k q)[j := ys]" using Suc by auto
  show ?case
  proof (cases "Some i = best \<or> cq_contents k q ! i = []")
    case True
    then have "dequeue_each k best (Suc i) q = Inr (r, q')" using IH(1) prod_dequeue_ok(1) [OF assms i] by auto
    moreover have "(\<forall>j < i. Some j \<noteq> best \<longrightarrow> cq_contents k q ! j = []) \<Longrightarrow> (\<forall>j < Suc i. Some j \<noteq> best \<longrightarrow> cq_contents k q ! j = [])"
      using True by (auto simp: less_Suc_eq)
    ultimately show ?thesis using IH(2-4) by (auto split: option.splits intro: less_SucI)
  next
    case False
    then obtain x ys where "cq_contents k q ! i = x # ys" by (meson neq_Nil_conv)
    note c = this
    obtain q' where q': "prod_dequeue k i q = Inr (Some x, q')" "cq_ok k q'" "cq_contents k q' = (cq_contents k q)[i := ys]" "cq_same q q'"
      using prod_dequeue_ok(2) [OF assms i c] by blast
    then have "dequeue_each k best (Suc i) q = Inr (Some x, q')" using False by auto
    moreover have "\<exists>j < Suc i. \<exists>zs. cq_contents k q ! j = x # zs \<and> cq_contents k q' = (cq_contents k q)[j := zs]" using c q'(3) by blast
    ultimately show ?thesis using q'(2,4) by simp
  qed
qed

lemma scan_best_ok:
  assumes s: "\<And>i. i < n \<Longrightarrow> ep_size_approx (pr_ep (ps ! i)) > 0 \<longleftrightarrow> P i"
    and b: "if c = 0 then b = None \<and> z = 0 else \<exists>j. b = Some j \<and> P j \<and> j < m" and nm: "n \<le> m"
  shows "case scan_best ps n c b z of (c', b') \<Rightarrow> (if c' = 0 then c = 0 \<and> (\<forall>i < n. \<not> P i) else \<exists>j < m. b' = Some j \<and> P j)"
  using assms
proof (induction n arbitrary: c b z)
  case (Suc i)
  let ?s = "ep_size_approx (pr_ep (ps ! i))"
  have P: "?s > 0 \<longleftrightarrow> P i" using Suc.prems(1) by simp
  have IH: "case scan_best ps i c b z of (c', b') \<Rightarrow> (if c' = 0 then c = 0 \<and> (\<forall>j < i. \<not> P j) else \<exists>j < m. b' = Some j \<and> P j)"
    if "if c = 0 then b = None \<and> z = 0 else \<exists>j. b = Some j \<and> P j \<and> j < m" for c b z using Suc.IH [of c b z] Suc.prems(1,3) that by simp
  show ?case
  proof (cases "c < 3 \<and> P i")
    case True
    have "case scan_best ps i (Suc c) (if ?s > z then Some i else b) (if ?s > z then ?s else z) of
        (c', b') \<Rightarrow> (if c' = 0 then Suc c = 0 \<and> (\<forall>j < i. \<not> P j) else \<exists>j < m. b' = Some j \<and> P j)"
      using Suc.prems(2,3) True P by (intro IH) (auto split: if_splits)
    then show ?thesis using True P by (auto simp: Let_def split: prod.splits if_splits)
  next
    case False
    then show ?thesis using IH [OF Suc.prems(2)] Suc.prems(2) P by (auto simp: Let_def less_Suc_eq split: prod.splits if_splits)
  qed
qed (auto split: if_splits)

text \<open>One way to take an element out of a list of queues: the front of one of them; or nothing, when all are empty.\<close>

definition takes :: "'a list list \<Rightarrow> 'a option \<Rightarrow> 'a list list \<Rightarrow> bool" where
  "takes Q r Q' \<longleftrightarrow> (case r of None \<Rightarrow> Q' = Q \<and> (\<forall>xs \<in> set Q. xs = []) | Some x \<Rightarrow> \<exists>i < length Q. \<exists>ys. Q ! i = x # ys \<and> Q' = Q[i := ys])"

lemma cq_same_refl [simp]: "cq_same q q"
  by (simp add: cq_same_def)

lemma try_dequeue_non_interleaved_ok:
  assumes "cq_ok k q"
  shows "\<exists>r q'. try_dequeue_non_interleaved k q = Inr (r, q') \<and> cq_ok k q' \<and> cq_same q q' \<and> takes (cq_contents k q) r (cq_contents k q')"
proof -
  obtain r q' where r: "dequeue_each k None (length (cq_producers q)) q = Inr (r, q')" "cq_ok k q'" "cq_same q q'"
    "case r of None \<Rightarrow> q' = q \<and> (\<forall>i < length (cq_producers q). Some i \<noteq> None \<longrightarrow> cq_contents k q ! i = [])
     | Some x \<Rightarrow> \<exists>i < length (cq_producers q). \<exists>ys. cq_contents k q ! i = x # ys \<and> cq_contents k q' = (cq_contents k q)[i := ys]"
    using dequeue_each_ok [OF assms, of "length (cq_producers q)" None] by blast
  then have "takes (cq_contents k q) r (cq_contents k q')" by (auto simp: takes_def in_set_conv_nth split: option.splits)
  then show ?thesis using r(1-3) by (simp add: try_dequeue_non_interleaved_def)
qed

lemma cq_sizes:
  assumes "cq_ok k q" "i < length (cq_producers q)"
  shows "ep_size_approx (pr_ep (cq_producers q ! i)) = of_nat (length (cq_contents k q ! i))"
    "ep_size_approx (pr_ep (cq_producers q ! i)) > 0 \<longleftrightarrow> cq_contents k q ! i \<noteq> []"
proof -
  obtain gs where gs: "cq_traits_ok k" "cq_inv k q gs" using assms by (auto simp: cq_ok_def)
  note c = cq_contents_inv(2,3) [OF gs assms(2)]
  show "ep_size_approx (pr_ep (cq_producers q ! i)) = of_nat (length (cq_contents k q ! i))" by (rule c(1))
  moreover have "(of_nat m :: size_t) = 0 \<longleftrightarrow> m = 0" if "m \<le> 2 ^ 62" for m using that by (simp add: word_of_nat_eq_0_iff nat_dvd_not_less linorder_not_less) (use dvd_imp_le in force)
  ultimately show "ep_size_approx (pr_ep (cq_producers q ! i)) > 0 \<longleftrightarrow> cq_contents k q ! i \<noteq> []" using c(2) by (simp add: word_gt_0)
qed

lemma cq_try_dequeue_ok:
  assumes q: "cq_ok k q"
  shows "\<exists>r q'. cq_try_dequeue k q = Inr (r, q') \<and> cq_ok k q' \<and> cq_same q q' \<and> takes (cq_contents k q) r (cq_contents k q')"
proof -
  let ?n = "length (cq_producers q)" and ?P = "\<lambda>i. cq_contents k q ! i \<noteq> []"
  obtain c b where s: "scan_best (cq_producers q) ?n 0 None 0 = (c, b)" by fastforce
  have *: "if c = 0 then \<forall>i < ?n. \<not> ?P i else \<exists>j < ?n. b = Some j \<and> ?P j"
    using scan_best_ok [of ?n "cq_producers q" ?P 0 None 0 ?n] cq_sizes(2) [OF q] s by (auto split: if_splits)
  show ?thesis
  proof (cases "c = 0")
    case True
    then have "\<forall>xs \<in> set (cq_contents k q). xs = []" using * by (auto simp: in_set_conv_nth)
    then show ?thesis using s True q by (simp add: cq_try_dequeue_def takes_def)
  next
    case False
    then obtain j x ys where j: "j < ?n" "b = Some j" "cq_contents k q ! j = x # ys" using * by (auto simp: neq_Nil_conv)
    from prod_dequeue_ok(2) [OF q j(1,3)] obtain q' where q': "prod_dequeue k j q = Inr (Some x, q')" "cq_ok k q'"
      "cq_contents k q' = (cq_contents k q)[j := ys]" "cq_same q q'" by blast
    have "cq_try_dequeue k q = Inr (Some x, q')" using s False j(2) q'(1) by (simp add: cq_try_dequeue_def)
    moreover have "takes (cq_contents k q) (Some x) (cq_contents k q')" using j q'(3) by (auto simp: takes_def)
    ultimately show ?thesis using q'(2,4) by blast
  qed
qed

lemma sum_list_of_nat_length: "(\<Sum>xs \<leftarrow> xss. of_nat (length xs)) = (of_nat (sum_list (map length xss)) :: size_t)"
  by (induction xss) simp_all

lemma cq_size_approx_ok:
  assumes "cq_ok k q"
  shows "cq_size_approx q = of_nat (sum_list (map length (cq_contents k q)))"
proof -
  have "fold (\<lambda>p size. size + ep_size_approx (pr_ep p)) ps z = z + sum_list (map (\<lambda>p. ep_size_approx (pr_ep p)) ps)" for ps :: "producer list" and z
    by (induction ps arbitrary: z) (simp_all add: algebra_simps)
  then have "cq_size_approx q = sum_list (map (\<lambda>p. ep_size_approx (pr_ep p)) (cq_producers q))"
    by (simp add: cq_size_approx_def sum_list_rev flip: rev_map)
  also have "map (\<lambda>p. ep_size_approx (pr_ep p)) (cq_producers q) = map (\<lambda>xs. of_nat (length xs)) (cq_contents k q)"
    using cq_sizes(1) [OF assms] by (intro nth_equalityI) simp_all
  also have "sum_list \<dots> = of_nat (sum_list (map length (cq_contents k q)))" by (rule sum_list_of_nat_length)
  finally show ?thesis .
qed

section \<open>Consumer tokens\<close>

text \<open>A token that has been used points to producers of the queue.\<close>

definition token_ok :: "nat \<Rightarrow> consumer_token \<Rightarrow> bool" where
  "token_ok n t \<longleftrightarrow> ct_desiredProducer t = None \<or>
     (\<exists>i < n. ct_desiredProducer t = Some i) \<and> (\<exists>j < n. ct_currentProducer t = Some j)"

text \<open>Moving along the circle of producers is subtraction modulo their number.\<close>

lemma next_around_mod:
  assumes "i < length (cq_producers q)"
  shows "next_around q i = Some (nat ((int i - 1) mod int (length (cq_producers q))))"
proof (cases i)
  case 0
  then have "(- 1) mod int (length (cq_producers q)) = int (length (cq_producers q)) - 1" using assms by (simp add: zmod_minus1)
  then show ?thesis using 0 assms by (cases "length (cq_producers q)") (auto simp: next_around_def next_prod_def producerListTail_def)
next
  case (Suc j)
  then show ?thesis using assms by (simp add: next_around_def next_prod_def)
qed

lemma advance_mod:
  assumes "i < length (cq_producers q)"
  shows "advance q m (Some i) = Inr (Some (nat ((int i - int m) mod int (length (cq_producers q)))))"
  using assms
proof (induction m arbitrary: i)
  case (Suc m)
  let ?n = "int (length (cq_producers q))"
  have n: "0 < ?n" using Suc.prems by (cases "cq_producers q") auto
  let ?j = "nat ((int i - 1) mod ?n)"
  have j: "int ?j = (int i - 1) mod ?n" "?j < length (cq_producers q)" using n by (simp_all add: nat_less_iff)
  have "(int ?j - int m) mod ?n = (int i - int (Suc m)) mod ?n" unfolding j(1) by (simp add: mod_diff_left_eq algebra_simps)
  then show ?case using Suc.IH [OF j(2)] next_around_mod [OF Suc.prems] by simp
qed simp

lemma advance_ok:
  assumes "i < length (cq_producers q)"
  shows "\<exists>j < length (cq_producers q). advance q m (Some i) = Inr (Some j)"
proof -
  have "0 < int (length (cq_producers q))" using assms by (cases "cq_producers q") auto
  then show ?thesis using advance_mod [OF assms] by (auto simp: nat_less_iff)
qed

lemma tail_some: "cq_producers q \<noteq> [] \<Longrightarrow> producerListTail q = Some (length (cq_producers q) - 1)"
  by (auto simp: producerListTail_def neq_Nil_conv)

lemma cq_ok_count:
  assumes "cq_ok k q"
  shows "unat (cq_producerCount q) = length (cq_producers q)" "length (cq_producers q) < 2 ^ 32"
  using assms by (auto simp: cq_ok_def cq_inv_def)

lemma update_current_ok:
  assumes q: "cq_ok k q" and t: "token_ok (length (cq_producers q)) t"
  shows "\<exists>b t'. update_current_producer_after_rotation q t = Inr (b, t') \<and> token_ok (length (cq_producers q)) t' \<and>
    (if b then ct_desiredProducer t' \<noteq> None else cq_producers q = [] \<and> t' = t)"
proof (cases "cq_producers q = []")
  case True
  then have "ct_desiredProducer t = None" using t by (simp add: token_ok_def)
  then have "update_current_producer_after_rotation q t = Inr (False, t)" using True by (simp add: update_current_producer_after_rotation_def producerListTail_def Let_def)
  then show ?thesis using True t by (auto intro: exI [of _ False])
next
  case False
  let ?n = "length (cq_producers q)" and ?c = "cq_producerCount q"
  have n: "0 < ?n" "?c \<noteq> 0" using False cq_ok_count [OF q] by auto
  have tail: "producerListTail q = Some (?n - 1)" by (rule tail_some [OF False])
  obtain d where d: "d < ?n" "(if ct_desiredProducer t = None then if ?c = 0 then Inl (UndefinedBehaviour ''% 0'')
      else advance q (unat (?c - 1 - ct_initialOffset t mod ?c)) (producerListTail q) else Inr (ct_desiredProducer t)) = Inr (Some d)"
    using t n advance_ok [of "?n - 1" q "unat (?c - 1 - ct_initialOffset t mod ?c)"] tail by (auto simp: token_ok_def)
  let ?delta = "cq_globalExplicitConsumerOffset q - ct_lastKnownGlobalOffset t"
  obtain e where e: "e < ?n" "advance q (unat (if ?delta \<ge> ?c then ?delta mod ?c else ?delta)) (Some d) = Inr (Some e)" using advance_ok [OF d(1)] by blast
  have "update_current_producer_after_rotation q t = Inr (True, t\<lparr>ct_desiredProducer := Some e, ct_lastKnownGlobalOffset := cq_globalExplicitConsumerOffset q,
      ct_currentProducer := Some e, ct_itemsConsumedFromCurrent := 0\<rparr>)"
    using d(2) e(2) n(2) tail unfolding update_current_producer_after_rotation_def Let_def by simp
  then show ?thesis using e(1) by (auto simp: token_ok_def intro: exI [of _ True])
qed

text \<open>How far it is from producer \<open>i\<close> to producer \<open>c\<close> along the circle.\<close>

definition around_dist :: "nat \<Rightarrow> nat \<Rightarrow> nat \<Rightarrow> nat" where
  "around_dist n c i = (if c \<le> i then i - c else i + n - c)"

lemma around_dist_0 [simp]: "i < n \<Longrightarrow> c < n \<Longrightarrow> around_dist n c i = 0 \<longleftrightarrow> i = c"
  by (auto simp: around_dist_def)

lemma around_dist_less: "i < n \<Longrightarrow> c < n \<Longrightarrow> around_dist n c i < n"
  by (auto simp: around_dist_def)

lemma around_dist_inj: "i < n \<Longrightarrow> j < n \<Longrightarrow> c < n \<Longrightarrow> around_dist n c i = around_dist n c j \<Longrightarrow> i = j"
  by (auto simp: around_dist_def split: if_splits)

lemma next_around_dist:
  assumes "i < length (cq_producers q)" "c < length (cq_producers q)" "i \<noteq> c"
  shows "\<exists>j < length (cq_producers q). next_around q i = Some j \<and> Suc (around_dist (length (cq_producers q)) c j) = around_dist (length (cq_producers q)) c i"
  using assms by (cases i; cases "length (cq_producers q)") (auto simp: next_around_def next_prod_def producerListTail_def around_dist_def)

lemma next_around_self:
  assumes "c < length (cq_producers q)"
  shows "\<exists>j < length (cq_producers q). next_around q c = Some j \<and> Suc (around_dist (length (cq_producers q)) c j) = length (cq_producers q)"
  using assms by (cases c; cases "length (cq_producers q)") (auto simp: next_around_def next_prod_def producerListTail_def around_dist_def)

lemma dequeue_around_ok:
  assumes q: "cq_ok k q" and c: "c < length (cq_producers q)"
  shows "i < length (cq_producers q) \<Longrightarrow> \<exists>r q'. dequeue_around k c (Some i) q = Some (Inr (r, q')) \<and> cq_ok k q' \<and> cq_same q q' \<and>
    (case r of None \<Rightarrow> q' = q \<and> (\<forall>j < length (cq_producers q). j \<noteq> c \<longrightarrow> around_dist (length (cq_producers q)) c j \<le> around_dist (length (cq_producers q)) c i \<longrightarrow> cq_contents k q ! j = [])
     | Some (x, j) \<Rightarrow> j < length (cq_producers q) \<and> (\<exists>ys. cq_contents k q ! j = x # ys \<and> cq_contents k q' = (cq_contents k q)[j := ys]))"
proof (induction "around_dist (length (cq_producers q)) c i" arbitrary: i)
  case 0
  have "j = c" if "j < length (cq_producers q)" "around_dist (length (cq_producers q)) c j = 0" for j using that c by simp
  moreover have "i = c" using 0 c by simp
  moreover have "dequeue_around k c (Some c) q = Some (Inr (None, q))" by (subst dequeue_around.simps) simp
  ultimately show ?case using 0(1) q by auto
next
  case (Suc d)
  let ?n = "length (cq_producers q)"
  have ne: "i \<noteq> c" using Suc.hyps(2) by (auto simp: around_dist_def)
  show ?case
  proof (cases "cq_contents k q ! i")
    case Nil
    obtain i' where i': "i' < ?n" "next_around q i = Some i'" "Suc (around_dist ?n c i') = around_dist ?n c i" using next_around_dist [OF Suc.prems c ne] by blast
    have step: "dequeue_around k c (Some i) q = dequeue_around k c (Some i') q"
      using prod_dequeue_ok(1) [OF q Suc.prems Nil] ne i'(2) by (subst dequeue_around.simps) simp
    have "around_dist ?n c j \<le> around_dist ?n c i \<longleftrightarrow> j = i \<or> around_dist ?n c j \<le> around_dist ?n c i'" if "j < ?n" for j
      using around_dist_inj [OF that Suc.prems c] i'(3) by (auto simp: le_Suc_eq)
    then have E: "(\<forall>j < ?n. j \<noteq> c \<longrightarrow> around_dist ?n c j \<le> around_dist ?n c i \<longrightarrow> cq_contents k q ! j = []) \<longleftrightarrow>
        (\<forall>j < ?n. j \<noteq> c \<longrightarrow> around_dist ?n c j \<le> around_dist ?n c i' \<longrightarrow> cq_contents k q ! j = [])" using Nil by auto
    have "d = around_dist ?n c i'" using Suc.hyps(2) i'(3) by simp
    from Suc.hyps(1) [OF this i'(1)] show ?thesis unfolding step E .
  next
    case (Cons x ys)
    from prod_dequeue_ok(2) [OF q Suc.prems Cons] obtain q' where q': "prod_dequeue k i q = Inr (Some x, q')" "cq_ok k q'"
      "cq_contents k q' = (cq_contents k q)[i := ys]" "cq_same q q'" by blast
    have "dequeue_around k c (Some i) q = Some (Inr (Some (x, i), q'))" using q'(1) ne by (subst dequeue_around.simps) simp
    then show ?thesis using q'(2-4) Cons Suc.prems by simp
  qed
qed

lemma cq_ok_offset [simp]:
  "cq_ok k (q\<lparr>cq_globalExplicitConsumerOffset := g\<rparr>) = cq_ok k q" "cq_contents k (q\<lparr>cq_globalExplicitConsumerOffset := g\<rparr>) = cq_contents k q"
  "cq_ok k (q\<lparr>cq_nextExplicitConsumerId := m\<rparr>) = cq_ok k q" "cq_contents k (q\<lparr>cq_nextExplicitConsumerId := m\<rparr>) = cq_contents k q"
  by (simp_all add: cq_ok_def cq_inv_def cq_contents_def get_ep_def)

lemma around_empty:
  assumes c: "c < length (cq_producers q)" and i: "Suc (around_dist (length (cq_producers q)) c i) = length (cq_producers q)"
    and "cq_contents k q ! c = []" "\<forall>j < length (cq_producers q). j \<noteq> c \<longrightarrow> around_dist (length (cq_producers q)) c j \<le> around_dist (length (cq_producers q)) c i \<longrightarrow> cq_contents k q ! j = []"
  shows "\<forall>xs \<in> set (cq_contents k q). xs = []"
proof -
  have "cq_contents k q ! j = []" if "j < length (cq_producers q)" for j using assms(3,4) that around_dist_less [OF that c] i by (cases "j = c") auto
  then show ?thesis by (auto simp: in_set_conv_nth)
qed

lemma cq_token_current_ok:
  assumes q: "cq_ok k q" and c: "c < length (cq_producers q)" and t: "ct_currentProducer t = Some c" "token_ok (length (cq_producers q)) t"
    and u: "(if ct_desiredProducer t0 = None \<or> ct_lastKnownGlobalOffset t0 \<noteq> cq_globalExplicitConsumerOffset q
            then update_current_producer_after_rotation q t0 else Inr (True, t0)) = Inr (True, t)"
  shows "\<exists>r t' q'. cq_try_dequeue_token k quota t0 q = Some (Inr (r, t', q')) \<and> cq_ok k q' \<and> map pr_inactive (cq_producers q') = map pr_inactive (cq_producers q) \<and>
    token_ok (length (cq_producers q)) t' \<and> takes (cq_contents k q) r (cq_contents k q')"
proof (cases "cq_contents k q ! c")
  case (Cons x ys)
  from prod_dequeue_ok(2) [OF q c Cons] obtain q' where q': "prod_dequeue k c q = Inr (Some x, q')" "cq_ok k q'"
    "cq_contents k q' = (cq_contents k q)[c := ys]" "cq_same q q'" by blast
  let ?m = "ct_itemsConsumedFromCurrent t + 1" and ?q = "if ct_itemsConsumedFromCurrent t + 1 = quota then q'\<lparr>cq_globalExplicitConsumerOffset := cq_globalExplicitConsumerOffset q' + 1\<rparr> else q'"
  have "cq_try_dequeue_token k quota t0 q = Some (Inr (Some x, t\<lparr>ct_itemsConsumedFromCurrent := ?m\<rparr>, ?q))"
    using q'(1) t(1) unfolding cq_try_dequeue_token_def u by (simp add: Let_def)
  moreover have "cq_ok k ?q" "cq_contents k ?q = (cq_contents k q)[c := ys]" "map pr_inactive (cq_producers ?q) = map pr_inactive (cq_producers q)" using q' by (auto simp: cq_same_def)
  moreover have "takes (cq_contents k q) (Some x) ((cq_contents k q)[c := ys])" using Cons c by (auto simp: takes_def)
  ultimately show ?thesis using t(2) by (auto simp: token_ok_def)
next
  case Nil
  obtain i where i: "i < length (cq_producers q)" "next_around q c = Some i" "Suc (around_dist (length (cq_producers q)) c i) = length (cq_producers q)"
    using next_around_self [OF c] by blast
  from dequeue_around_ok [OF q c i(1)] obtain r q' where r: "dequeue_around k c (Some i) q = Some (Inr (r, q'))" "cq_ok k q'" "cq_same q q'"
    "case r of None \<Rightarrow> q' = q \<and> (\<forall>j < length (cq_producers q). j \<noteq> c \<longrightarrow> around_dist (length (cq_producers q)) c j \<le> around_dist (length (cq_producers q)) c i \<longrightarrow> cq_contents k q ! j = [])
     | Some (x, j) \<Rightarrow> j < length (cq_producers q) \<and> (\<exists>ys. cq_contents k q ! j = x # ys \<and> cq_contents k q' = (cq_contents k q)[j := ys])" by blast
  note eval = prod_dequeue_ok(1) [OF q c Nil] t(1) r(1) i(2)
  show ?thesis
  proof (cases r)
    case None
    then have "cq_try_dequeue_token k quota t0 q = Some (Inr (None, t, q))" using eval r(4) unfolding cq_try_dequeue_token_def u by simp
    then show ?thesis using None r(4) t(2) q around_empty [OF c i(3) Nil] by (auto simp: takes_def)
  next
    case (Some y)
    then obtain x j where y: "r = Some (x, j)" by (cases y) auto
    then have "cq_try_dequeue_token k quota t0 q = Some (Inr (Some x, t\<lparr>ct_currentProducer := Some j, ct_itemsConsumedFromCurrent := 1\<rparr>, q'))"
      using eval unfolding cq_try_dequeue_token_def u by simp
    moreover have "takes (cq_contents k q) (Some x) (cq_contents k q')" using r(4) y by (auto simp: takes_def)
    ultimately show ?thesis using r(2-4) t(2) y by (auto simp: token_ok_def cq_same_def)
  qed
qed

lemma cq_try_dequeue_token_ok:
  assumes q: "cq_ok k q" and t: "token_ok (length (cq_producers q)) t"
  shows "\<exists>r t' q'. cq_try_dequeue_token k quota t q = Some (Inr (r, t', q')) \<and> cq_ok k q' \<and> map pr_inactive (cq_producers q') = map pr_inactive (cq_producers q) \<and>
    token_ok (length (cq_producers q)) t' \<and> takes (cq_contents k q) r (cq_contents k q')"
proof (cases "ct_desiredProducer t = None \<or> ct_lastKnownGlobalOffset t \<noteq> cq_globalExplicitConsumerOffset q")
  case False
  then obtain c where "c < length (cq_producers q)" "ct_currentProducer t = Some c" using t by (auto simp: token_ok_def)
  then show ?thesis using False by (intro cq_token_current_ok [OF q _ _ t]) auto
next
  case True
  obtain b t' where b: "update_current_producer_after_rotation q t = Inr (b, t')" "token_ok (length (cq_producers q)) t'"
    "if b then ct_desiredProducer t' \<noteq> None else cq_producers q = [] \<and> t' = t" using update_current_ok [OF q t] by blast
  show ?thesis
  proof (cases b)
    case True': True
    then obtain c where "c < length (cq_producers q)" "ct_currentProducer t' = Some c" using b(2,3) by (auto simp: token_ok_def)
    then show ?thesis using True True' b by (intro cq_token_current_ok [OF q _ _ b(2)]) auto
  next
    case False
    then have e: "cq_producers q = []" "t' = t" using b(3) by auto
    then have "cq_contents k q = []" by (simp add: cq_contents_def)
    then show ?thesis using True b(1) False e q t by (auto simp: cq_try_dequeue_token_def takes_def)
  qed
qed

text \<open>
  Where a token begins: its number minus the rotations so far, modulo the number of producers. Tokens created one after the other thus
  begin at different producers, as long as there are enough of them.
\<close>

lemma consumer_start:
  assumes q: "cq_ok k q" and ne: "cq_producers q \<noteq> []" and t: "ct_desiredProducer t = None"
  shows "\<exists>t'. update_current_producer_after_rotation q t = Inr (True, t') \<and> ct_currentProducer t' =
    Some (nat ((int (unat (ct_initialOffset t)) - int (unat (cq_globalExplicitConsumerOffset q - ct_lastKnownGlobalOffset t))) mod int (length (cq_producers q))))"
proof -
  let ?n = "length (cq_producers q)" and ?c = "cq_producerCount q" and ?o = "ct_initialOffset t"
  let ?delta = "cq_globalExplicitConsumerOffset q - ct_lastKnownGlobalOffset t"
  have n: "0 < ?n" "?c \<noteq> 0" "unat ?c = ?n" using ne cq_ok_count [OF q] by auto
  have tail: "producerListTail q = Some (?n - 1)" by (rule tail_some [OF ne])
  have lt: "unat ?o mod ?n < ?n" using n(1) by simp
  have "unat (?c - 1 - ?o mod ?c) = ?n - 1 - unat ?o mod ?n"
  proof -
    have 1: "unat (?c - 1) = ?n - 1" using n(2,3) by (simp add: unat_minus_one)
    moreover have "?o mod ?c \<le> ?c - 1" using 1 lt n(3) by (simp add: word_le_nat_alt unat_mod)
    ultimately show ?thesis using n(3) by (simp add: unat_sub unat_mod)
  qed
  then have 1: "advance q (unat (?c - 1 - ?o mod ?c)) (Some (?n - 1)) = Inr (Some (unat ?o mod ?n))"
    using advance_mod [of "?n - 1" q "?n - 1 - unat ?o mod ?n"] n(1) lt by (simp add: of_nat_diff)
  have d: "(int m - int (unat (if ?delta \<ge> ?c then ?delta mod ?c else ?delta))) mod int ?n = (int m - int (unat ?delta)) mod int ?n" for m
    unfolding n(3) [symmetric] by (simp add: uint_mod mod_diff_right_eq)
  have "(int (unat ?o mod ?n) - int (unat ?delta)) mod int ?n = (int (unat ?o) - int (unat ?delta)) mod int ?n" by (simp add: zmod_int mod_diff_left_eq)
  then have 2: "advance q (unat (if ?delta \<ge> ?c then ?delta mod ?c else ?delta)) (Some (unat ?o mod ?n)) =
      Inr (Some (nat ((int (unat ?o) - int (unat ?delta)) mod int ?n)))" unfolding advance_mod [OF lt] d by simp
  show ?thesis using 1 2 n(2) tail t unfolding update_current_producer_after_rotation_def Let_def by simp
qed

section \<open>Producer tokens\<close>

lemma cq_ok_flags:
  assumes "\<And>p. pr_ep (f p) = pr_ep p"
  shows "cq_ok k (upd_producer i f q) = cq_ok k q" "cq_contents k (upd_producer i f q) = cq_contents k q"
proof -
  have g: "get_ep j (upd_producer i f q) = get_ep j q" if "j < length (cq_producers q)" for j
    using assms that by (cases "j = i") (simp_all add: get_ep_def upd_producer_def)
  moreover have "length (cq_producers (upd_producer i f q)) = length (cq_producers q)" by (simp add: upd_producer_def)
  moreover have "cq_blocks (upd_producer i f q) = cq_blocks q" "cq_producerCount (upd_producer i f q) = cq_producerCount q" by (simp_all add: upd_producer_def)
  ultimately have "cq_inv k (upd_producer i f q) gs = cq_inv k q gs" for gs by (simp add: cq_inv_def cong: conj_cong)
  then show "cq_ok k (upd_producer i f q) = cq_ok k q" using \<open>cq_blocks (upd_producer i f q) = cq_blocks q\<close> by (simp add: cq_ok_def)
  show "cq_contents k (upd_producer i f q) = cq_contents k q"
    using g \<open>length (cq_producers (upd_producer i f q)) = length (cq_producers q)\<close> by (simp add: cq_contents_def cong: map_cong)
qed

lemma find_inactive_Some: "find_inactive ps n = Some i \<Longrightarrow> i < n \<and> pr_inactive (ps ! i)"
  by (induction n) (auto split: if_splits intro: less_SucI)

lemma find_inactive_None: "find_inactive ps n = None \<Longrightarrow> i < n \<Longrightarrow> \<not> pr_inactive (ps ! i)"
  by (induction n) (auto split: if_splits simp: less_Suc_eq)

text \<open>The flags of a producer that belongs to a token.\<close>

definition owned :: "'a cqueue \<Rightarrow> nat \<Rightarrow> bool" where
  "owned q i \<longleftrightarrow> i < length (cq_producers q) \<and> \<not> pr_inactive (cq_producers q ! i)"

lemma ProducerToken_ok:
  assumes q: "cq_ok k q" and n: "Suc (length (cq_producers q)) < 2 ^ 32"
  shows "\<exists>r q'. ProducerToken k c q = Some (r, q') \<and> cq_ok k q' \<and>
    (case r of None \<Rightarrow> q' = q
     | Some i \<Rightarrow> \<not> owned q i \<and> owned q' i \<and> (\<forall>j. j \<noteq> i \<longrightarrow> owned q' j = owned q j) \<and>
         (if i < length (cq_producers q) then length (cq_producers q') = length (cq_producers q) \<and> cq_contents k q' = cq_contents k q
          else i = length (cq_producers q) \<and> length (cq_producers q') = Suc i \<and> cq_contents k q' = cq_contents k q @ [[]]))"
proof (cases "find_inactive (cq_producers q) (length (cq_producers q))")
  case (Some i)
  let ?q = "upd_producer i (pr_token_update (\<lambda>_. True)) (upd_producer i (pr_inactive_update (\<lambda>_. False)) q)"
  have i: "i < length (cq_producers q)" "pr_inactive (cq_producers q ! i)" using find_inactive_Some [OF Some] by auto
  have "ProducerToken k c q = Some (Some i, ?q)" using Some by (simp add: ProducerToken_def recycle_or_create_producer_def)
  moreover have "cq_ok k ?q" "cq_contents k ?q = cq_contents k q" using q by (simp_all add: cq_ok_flags)
  moreover have "owned ?q i" "\<not> owned q i" "\<forall>j. j \<noteq> i \<longrightarrow> owned ?q j = owned q j" "length (cq_producers ?q) = length (cq_producers q)" using i by (auto simp: owned_def upd_producer_def)
  ultimately show ?thesis using i by simp
next
  case None
  show ?thesis
  proof (cases c)
    case False
    then show ?thesis using None q by (simp add: ProducerToken_def recycle_or_create_producer_def)
  next
    case True
    obtain gs where gs: "cq_traits_ok k" "cq_inv k q gs" "origin_ok (cq_blocks q)" using q by (auto simp: cq_ok_def)
    then have "length gs = length (cq_producers q)" by (simp add: cq_inv_def)
    then obtain e where e: "ExplicitProducer k (cq_blocks q) = Some e" "cq_inv k (snd (add_producer e q)) (gs @ [([], 0, 0, [])])"
      using cq_inv_add [OF gs(2,1)] n by auto
    let ?i = "length (cq_producers q)" and ?q1 = "snd (add_producer e q)"
    let ?q = "upd_producer ?i (pr_token_update (\<lambda>_. True)) ?q1"
    have "ProducerToken k c q = Some (Some ?i, ?q)" using None True e(1) by (simp add: ProducerToken_def recycle_or_create_producer_def add_producer_def)
    moreover have "cq_ok k ?q1" using gs e(2) by (auto simp: cq_ok_def add_producer_def)
    moreover have "cq_contents k ?q1 = cq_contents k q @ [[]]" unfolding cq_contents_inv(1) [OF gs(1) e(2)] cq_contents_inv(1) [OF gs(1,2)] by simp
    moreover have "owned ?q ?i" "\<not> owned q ?i" "\<forall>j. j \<noteq> ?i \<longrightarrow> owned ?q j = owned q j" "length (cq_producers ?q) = Suc ?i"
      by (auto simp: owned_def upd_producer_def add_producer_def nth_append)
    ultimately show ?thesis by (simp add: cq_ok_flags)
  qed
qed

lemma ProducerToken_dtor_ok:
  assumes "cq_ok k q"
  shows "cq_ok k (ProducerToken_dtor (Some i) q)" "cq_contents k (ProducerToken_dtor (Some i) q) = cq_contents k q"
    "length (cq_producers (ProducerToken_dtor (Some i) q)) = length (cq_producers q)"
    "owned (ProducerToken_dtor (Some i) q) j \<longleftrightarrow> owned q j \<and> j \<noteq> i"
proof -
  show "cq_ok k (ProducerToken_dtor (Some i) q)" "cq_contents k (ProducerToken_dtor (Some i) q) = cq_contents k q"
    using assms by (simp_all add: ProducerToken_dtor_def cq_ok_flags)
  show "length (cq_producers (ProducerToken_dtor (Some i) q)) = length (cq_producers q)" by (simp add: ProducerToken_dtor_def upd_producer_def)
  show "owned (ProducerToken_dtor (Some i) q) j \<longleftrightarrow> owned q j \<and> j \<noteq> i"
    by (cases "j = i") (auto simp: ProducerToken_dtor_def upd_producer_def owned_def)
qed

end
