(* ===== verification/CQ_Client.thy ===== *)
theory CQ_Client
  imports CQ_Queue_Spec
begin

text \<open>
  Programs that use \<open>ConcurrentQueue\<close>: they create and destroy tokens and call the members in any order. Each such program sees a list of
  first-in, first-out queues, and destroying the queue at its end gives all memory back.
\<close>

section \<open>Destroying the queue\<close>

lemma others_take_last: "n < length gs \<Longrightarrow> others (take (Suc n) gs) n = rings (take n gs)"
  by (auto simp: rings_iff others_iff less_Suc_eq set_eq_iff)

lemma destroy_producers_ok:
  assumes k: "traits_ok k"
  shows "n \<le> length gs \<Longrightarrow> pool_ok k p (rings (take n gs)) \<Longrightarrow> origin_ok p \<Longrightarrow>
    (\<forall>j < n. ghost_inv k (others (take n gs) j) (p, pr_ep (ps ! j)) (gs ! j)) \<Longrightarrow>
    \<exists>p'. destroy_producers k ps n p = Some (Inr p') \<and> pool_ok k p' {} \<and> origin_ok p'"
proof (induction n arbitrary: p)
  case 0
  then show ?case by (simp add: rings_def)
next
  case (Suc n)
  let ?F = "rings (take n gs)"
  obtain ring N H xs where g: "gs ! n = (ring, N, H, xs)" by (metis prod_cases4)
  have "ghost_inv k (others (take (Suc n) gs) n) (p, pr_ep (ps ! n)) (gs ! n)" using Suc.prems(4) by blast
  then have i: "ep_inv k ?F (p, pr_ep (ps ! n)) ring N H xs" using others_take_last [of n gs] Suc.prems(1) g by (simp add: ghost_inv_def)
  obtain p' where p': "ep_dtor k (p, pr_ep (ps ! n)) = Some (Inr p')" "pool_ok k p' ?F" "same_on ?F p p'" using ep_dtor_ok [OF k i] by blast
  have "ghost_inv k (others (take n gs) j) (p', pr_ep (ps ! j)) (gs ! j)" if j: "j < n" for j
  proof -
    obtain ring N H xs where g: "gs ! j = (ring, N, H, xs)" by (metis prod_cases4)
    have "ghost_inv k (others (take (Suc n) gs) j) (p, pr_ep (ps ! j)) (gs ! j)" using Suc.prems(4) j by simp
    then have old: "ep_inv k (others (take (Suc n) gs) j) (p, pr_ep (ps ! j)) ring N H xs" using g by (simp add: ghost_inv_def)
    have split: "?F = set ring \<union> others (take n gs) j" using rings_split [of j "take n gs"] j Suc.prems(1) g by simp
    have "set ring \<inter> others (take (Suc n) gs) j = {}" using old by (simp add: ep_inv_def)
    moreover have "others (take n gs) j \<subseteq> others (take (Suc n) gs) j" using Suc.prems(1) by (auto simp: others_iff) (metis less_SucI nth_take)
    ultimately have dis: "set ring \<inter> others (take n gs) j = {}" by blast
    have "ep_inv k (others (take n gs) j) (p', pr_ep (ps ! j)) ring N H xs"
      using old by (rule ep_inv_frame) (use p'(2,3) split dis in \<open>auto simp: same_on_def\<close>)
    then show ?thesis using g by (simp add: ghost_inv_def)
  qed
  then have "\<exists>p''. destroy_producers k ps n p' = Some (Inr p'') \<and> pool_ok k p'' {} \<and> origin_ok p''"
    using Suc.IH [of p'] p'(2) dtor_origin [OF Suc.prems(3) p'(1)] Suc.prems(1) by simp
  then show ?case using p'(1) by simp
qed

lemma destroy_free_list_ok:
  "distinct as \<Longrightarrow> set as \<subseteq> dom h \<Longrightarrow> \<exists>h'. destroy_free_list as h = Inr h' \<and>
    (\<forall>a. h' a = (if a \<in> set as \<and> cqb_dynamicallyAllocated (the (h a)) then None else h a))"
proof (induction as arbitrary: h)
  case (Cons a as)
  then obtain b where b: "h a = Some b" by auto
  let ?h = "if cqb_dynamicallyAllocated b then h(a := None) else h"
  have "set as \<subseteq> dom ?h" using Cons.prems by auto
  then obtain h' where h': "destroy_free_list as ?h = Inr h'" "\<forall>c. h' c = (if c \<in> set as \<and> cqb_dynamicallyAllocated (the (?h c)) then None else ?h c)"
    using Cons.IH [of ?h] Cons.prems(1) by auto
  have "h' c = (if c \<in> set (a # as) \<and> cqb_dynamicallyAllocated (the (h c)) then None else h c)" for c
    using h'(2) Cons.prems(1) b by (cases "c = a") auto
  then show ?case using h'(1) b by simp
qed simp

text \<open>Everything is freed: nothing is left of the blocks the queue got.\<close>

lemma cq_dtor_ok:
  assumes "cq_ok k q"
  shows "\<exists>p. destroy_producers k (cq_producers q) (length (cq_producers q)) (cq_blocks q) = Some (Inr p) \<and>
    (\<forall>a b. po_heap p a = Some b \<longrightarrow> cqb_elements b = replicate (block_size k) None) \<and> cq_dtor k q = Some (Inr Map.empty)"
proof -
  obtain gs where gs: "cq_traits_ok k" "cq_inv k q gs" "origin_ok (cq_blocks q)" using assms by (auto simp: cq_ok_def)
  then have n: "length gs = length (cq_producers q)" "traits_ok k" by (auto simp: cq_inv_def cq_traits_ok_def)
  obtain p where p: "destroy_producers k (cq_producers q) (length gs) (cq_blocks q) = Some (Inr p)" "pool_ok k p {}" "origin_ok p"
    using destroy_producers_ok [OF n(2), of "length gs" gs "cq_blocks q" "cq_producers q"] gs(2,3) by (auto simp: cq_inv_def get_ep_def)
  have d: "distinct (po_freeList p)" "dom (po_heap p) = pool_blocks p" using p(2) by (auto simp: pool_ok_def)
  have pb: "pool_blocks p = set (po_freeList p) \<union> {unat (po_initialBlockPoolIndex p)..<unat (po_initialBlockPoolSize p)}" by (simp add: pool_blocks_def Un_commute)
  obtain h where h: "destroy_free_list (po_freeList p) (po_heap p) = Inr h"
    "\<forall>a. h a = (if a \<in> set (po_freeList p) \<and> cqb_dynamicallyAllocated (the (po_heap p a)) then None else po_heap p a)"
    using destroy_free_list_ok [OF d(1), of "po_heap p"] d(2) pb by auto
  have "(if a < unat (po_initialBlockPoolSize p) then None else h a) = None" for a
  proof (cases "po_heap p a")
    case (Some b)
    then have "a \<in> pool_blocks p" "cqb_dynamicallyAllocated b \<longleftrightarrow> unat (po_initialBlockPoolSize p) \<le> a" using d(2) p(3) by (auto simp: origin_ok_def)
    then show ?thesis using h(2) Some pb by auto
  qed (use h(2) in auto)
  then have "cq_dtor k q = Some (Inr Map.empty)" using p(1) h(1) n(1) by (simp add: cq_dtor_def fun_eq_iff)
  moreover have "cqb_elements b = replicate (block_size k) None" if b: "po_heap p a = Some b" for a b
  proof -
    have "a \<in> pool_blocks p" using b d(2) by auto
    then obtain b' where "po_heap p a = Some b'" "cqb_elements b' = replicate (block_size k) None" using p(2) unfolding pool_ok_def by meson
    then show ?thesis using b by simp
  qed
  ultimately show ?thesis using p(1) n(1) by auto
qed

section \<open>The abstract queue\<close>

datatype 'a cq_event =
    Created nat | NotCreated | Destroyed nat | Accepted nat 'a | Refused nat | Took "'a option" | TookFrom nat "'a option" | Sized size_t | Other

text \<open>A list of queues; what an event does to it.\<close>

inductive mq_step :: "'a list list \<Rightarrow> 'a cq_event \<Rightarrow> 'a list list \<Rightarrow> bool" where
  reuse: "i < length Q \<Longrightarrow> mq_step Q (Created i) Q"
| new: "i = length Q \<Longrightarrow> mq_step Q (Created i) (Q @ [[]])"
| not_created: "mq_step Q NotCreated Q"
| destroyed: "i < length Q \<Longrightarrow> mq_step Q (Destroyed i) Q"
| accepted: "i < length Q \<Longrightarrow> mq_step Q (Accepted i x) (Q[i := Q ! i @ [x]])"
| refused: "i < length Q \<Longrightarrow> mq_step Q (Refused i) Q"
| took: "i < length Q \<Longrightarrow> Q ! i = x # ys \<Longrightarrow> mq_step Q (Took (Some x)) (Q[i := ys])"
| found_empty: "\<forall>xs \<in> set Q. xs = [] \<Longrightarrow> mq_step Q (Took None) Q"
| took_from: "i < length Q \<Longrightarrow> Q ! i = x # ys \<Longrightarrow> mq_step Q (TookFrom i (Some x)) (Q[i := ys])"
| one_empty: "i < length Q \<Longrightarrow> Q ! i = [] \<Longrightarrow> mq_step Q (TookFrom i None) Q"
| sized: "mq_step Q (Sized (of_nat (sum_list (map length Q)))) Q"
| other: "mq_step Q Other Q"

inductive mq_run :: "'a list list \<Rightarrow> 'a cq_event list \<Rightarrow> 'a list list \<Rightarrow> bool" where
  finish: "mq_run Q [] Q"
| step: "mq_step Q e Q' \<Longrightarrow> mq_run Q' es Q'' \<Longrightarrow> mq_run Q (e # es) Q''"

lemma takes_step: "takes Q r Q' \<Longrightarrow> mq_step Q (Took r) Q'"
  by (auto simp: takes_def intro: mq_step.intros split: option.splits)

section \<open>Programs\<close>

text \<open>
  The tokens of a program are numbered in the order of their creation. A call with a token that does not exist, or was not created for
  lack of memory, is left out: the header asks to check \<open>valid()\<close> first.
\<close>

datatype 'a cq_call =
    NewProducer bool | DropProducer nat | NewConsumer | Enqueue bool nat 'a | TryDequeue | TryDequeueNonInterleaved
  | DequeueFrom nat | DequeueWith nat | SizeApprox

record 'a client =
  cl_queue :: "'a cqueue"
  cl_producers :: "nat list"
  cl_consumers :: "consumer_token list"

definition took :: "'a client \<Rightarrow> ('a option \<Rightarrow> 'a cq_event) \<Rightarrow> ('a option \<times> 'a cqueue) result \<Rightarrow> ('a cq_event \<times> 'a client) result option" where
  "took c ev s = Some (map_sum id (\<lambda>(r, q). (ev r, c\<lparr>cl_queue := q\<rparr>)) s)"

fun cq_exec :: "cq_traits \<Rightarrow> u32 \<Rightarrow> 'a cq_call \<Rightarrow> 'a client \<Rightarrow> ('a cq_event \<times> 'a client) result option" where
  "cq_exec k quota (NewProducer ok) c =
     (case ProducerToken k ok (cl_queue c) of
        None \<Rightarrow> None
      | Some (None, q) \<Rightarrow> Some (Inr (NotCreated, c\<lparr>cl_queue := q\<rparr>))
      | Some (Some i, q) \<Rightarrow> Some (Inr (Created i, c\<lparr>cl_queue := q, cl_producers := cl_producers c @ [i]\<rparr>)))"
| "cq_exec k quota (DropProducer j) c =
     (if j < length (cl_producers c)
      then Some (Inr (Destroyed (cl_producers c ! j),
        c\<lparr>cl_queue := ProducerToken_dtor (Some (cl_producers c ! j)) (cl_queue c), cl_producers := take j (cl_producers c) @ drop (Suc j) (cl_producers c)\<rparr>))
      else Some (Inr (Other, c)))"
| "cq_exec k quota NewConsumer c =
     (case ConsumerToken (cl_queue c) of (t, q) \<Rightarrow> Some (Inr (Other, c\<lparr>cl_queue := q, cl_consumers := cl_consumers c @ [t]\<rparr>)))"
| "cq_exec k quota (Enqueue canAlloc j x) c =
     (if j < length (cl_producers c)
      then case (if canAlloc then cq_enqueue else cq_try_enqueue) k (Some (cl_producers c ! j)) x (cl_queue c) of
             None \<Rightarrow> None
           | Some (Inl err) \<Rightarrow> Some (Inl err)
           | Some (Inr (b, q)) \<Rightarrow> Some (Inr (if b then Accepted (cl_producers c ! j) x else Refused (cl_producers c ! j), c\<lparr>cl_queue := q\<rparr>))
      else Some (Inr (Other, c)))"
| "cq_exec k quota TryDequeue c = took c Took (cq_try_dequeue k (cl_queue c))"
| "cq_exec k quota TryDequeueNonInterleaved c = took c Took (try_dequeue_non_interleaved k (cl_queue c))"
| "cq_exec k quota (DequeueFrom j) c =
     (if j < length (cl_producers c)
      then took c (TookFrom (cl_producers c ! j)) (try_dequeue_from_producer k (Some (cl_producers c ! j)) (cl_queue c))
      else Some (Inr (Other, c)))"
| "cq_exec k quota (DequeueWith j) c =
     (if j < length (cl_consumers c)
      then case cq_try_dequeue_token k quota (cl_consumers c ! j) (cl_queue c) of
             None \<Rightarrow> None
           | Some (Inl err) \<Rightarrow> Some (Inl err)
           | Some (Inr (r, t, q)) \<Rightarrow> Some (Inr (Took r, c\<lparr>cl_queue := q, cl_consumers := (cl_consumers c)[j := t]\<rparr>))
      else Some (Inr (Other, c)))"
| "cq_exec k quota SizeApprox c = Some (Inr (Sized (cq_size_approx (cl_queue c)), c))"

fun cq_run :: "cq_traits \<Rightarrow> u32 \<Rightarrow> 'a cq_call list \<Rightarrow> 'a client \<Rightarrow> ('a cq_event list \<times> 'a client) result option" where
  "cq_run k quota [] c = Some (Inr ([], c))"
| "cq_run k quota (call # calls) c =
     (case cq_exec k quota call c of
        None \<Rightarrow> None
      | Some (Inl err) \<Rightarrow> Some (Inl err)
      | Some (Inr (e, c)) \<Rightarrow> map_option (map_sum id (\<lambda>(es, c). (e # es, c))) (cq_run k quota calls c))"

definition cl_ok :: "cq_traits \<Rightarrow> 'a client \<Rightarrow> bool" where
  "cl_ok k c \<longleftrightarrow> cq_ok k (cl_queue c) \<and> distinct (cl_producers c) \<and> (\<forall>i \<in> set (cl_producers c). owned (cl_queue c) i) \<and>
     (\<forall>t \<in> set (cl_consumers c). token_ok (length (cq_producers (cl_queue c))) t)"

lemma owned_same: "map pr_inactive (cq_producers q') = map pr_inactive (cq_producers q) \<Longrightarrow> owned q' i = owned q i"
  unfolding owned_def by (metis length_map nth_map)

lemma cl_ok_queue:
  assumes "cl_ok k c" "cq_ok k q'" "map pr_inactive (cq_producers q') = map pr_inactive (cq_producers (cl_queue c))"
  shows "cl_ok k (c\<lparr>cl_queue := q'\<rparr>)"
proof -
  have "length (cq_producers q') = length (cq_producers (cl_queue c))" using assms(3) by (metis length_map)
  then show ?thesis using assms owned_same [OF assms(3)] by (simp add: cl_ok_def)
qed

lemma token_ok_mono: "token_ok m t \<Longrightarrow> m \<le> n \<Longrightarrow> token_ok n t"
  by (auto simp: token_ok_def)

definition exec_ok :: "cq_traits \<Rightarrow> 'a client \<Rightarrow> ('a cq_event \<times> 'a client) result option \<Rightarrow> bool" where
  "exec_ok k c s \<longleftrightarrow> (\<exists>e c'. s = Some (Inr (e, c')) \<and> cl_ok k c' \<and> mq_step (cq_contents k (cl_queue c)) e (cq_contents k (cl_queue c')) \<and>
     length (cq_producers (cl_queue c')) \<le> Suc (length (cq_producers (cl_queue c))))"

lemma exec_okI:
  "s = Some (Inr (e, c')) \<Longrightarrow> cl_ok k c' \<Longrightarrow> mq_step (cq_contents k (cl_queue c)) e (cq_contents k (cl_queue c')) \<Longrightarrow>
    length (cq_producers (cl_queue c')) \<le> Suc (length (cq_producers (cl_queue c))) \<Longrightarrow> exec_ok k c s"
  by (auto simp: exec_ok_def)

lemma exec_ok_other: "cl_ok k c \<Longrightarrow> exec_ok k c (Some (Inr (Other, c)))"
  by (rule exec_okI) (auto intro: mq_step.other)

lemma exec_ok_took:
  assumes c: "cl_ok k c" and s: "\<exists>r q'. s = Inr (r, q') \<and> cq_ok k q' \<and> cq_same (cl_queue c) q' \<and> mq_step (cq_contents k (cl_queue c)) (ev r) (cq_contents k q')"
  shows "exec_ok k c (took c ev s)"
proof -
  obtain r q' where r: "s = Inr (r, q')" "cq_ok k q'" "cq_same (cl_queue c) q'" "mq_step (cq_contents k (cl_queue c)) (ev r) (cq_contents k q')" using s by blast
  then have "cl_ok k (c\<lparr>cl_queue := q'\<rparr>)" using cl_ok_queue [OF c r(2)] by (simp add: cq_same_def)
  then show ?thesis using r cq_same_length [OF r(3)] by (intro exec_okI [where e = "ev r" and c' = "c\<lparr>cl_queue := q'\<rparr>"]) (simp_all add: took_def)
qed

lemma new_producer_ok:
  assumes c: "cl_ok k c" and n: "Suc (length (cq_producers (cl_queue c))) < 2 ^ 32"
  shows "exec_ok k c (cq_exec k quota (NewProducer ok) c)"
proof -
  let ?q = "cl_queue c"
  have q: "cq_ok k ?q" using c by (simp add: cl_ok_def)
  obtain r q' where r: "ProducerToken k ok ?q = Some (r, q')" "cq_ok k q'"
    "case r of None \<Rightarrow> q' = ?q
     | Some i \<Rightarrow> \<not> owned ?q i \<and> owned q' i \<and> (\<forall>j. j \<noteq> i \<longrightarrow> owned q' j = owned ?q j) \<and>
         (if i < length (cq_producers ?q) then length (cq_producers q') = length (cq_producers ?q) \<and> cq_contents k q' = cq_contents k ?q
          else i = length (cq_producers ?q) \<and> length (cq_producers q') = Suc i \<and> cq_contents k q' = cq_contents k ?q @ [[]])"
    using ProducerToken_ok [OF q n] by blast
  show ?thesis
  proof (cases r)
    case None
    then show ?thesis using r c by (intro exec_okI [where e = NotCreated and c' = c]) (auto intro: mq_step.not_created)
  next
    case (Some i)
    let ?c = "c\<lparr>cl_queue := q', cl_producers := cl_producers c @ [i]\<rparr>"
    have le: "length (cq_producers ?q) \<le> length (cq_producers q')" "length (cq_producers q') \<le> Suc (length (cq_producers ?q))" using r(3) Some by (auto split: if_splits)
    have "i \<notin> set (cl_producers c)" using c r(3) Some by (auto simp: cl_ok_def)
    moreover have "owned q' j" if "j \<in> set (cl_producers c) \<or> j = i" for j using that c r(3) Some by (cases "j = i") (auto simp: cl_ok_def)
    ultimately have "cl_ok k ?c" using c r(2) token_ok_mono [OF _ le(1)] by (auto simp: cl_ok_def)
    moreover have "mq_step (cq_contents k ?q) (Created i) (cq_contents k q')" using r(3) Some by (auto intro: mq_step.intros split: if_splits)
    ultimately show ?thesis using r(1) Some le(2) by (intro exec_okI [where e = "Created i" and c' = ?c]) simp_all
  qed
qed

lemma drop_producer_ok:
  assumes c: "cl_ok k c" shows "exec_ok k c (cq_exec k quota (DropProducer j) c)"
proof (cases "j < length (cl_producers c)")
  case True
  let ?i = "cl_producers c ! j" and ?ps = "take j (cl_producers c) @ drop (Suc j) (cl_producers c)"
  let ?q = "ProducerToken_dtor (Some ?i) (cl_queue c)"
  let ?c = "c\<lparr>cl_queue := ?q, cl_producers := ?ps\<rparr>"
  have q: "cq_ok k (cl_queue c)" and d: "distinct (cl_producers c)" and o: "\<forall>i \<in> set (cl_producers c). owned (cl_queue c) i" using c by (auto simp: cl_ok_def)
  note D = ProducerToken_dtor_ok [OF q, of ?i]
  have split: "cl_producers c = take j (cl_producers c) @ ?i # drop (Suc j) (cl_producers c)" using True by (rule id_take_nth_drop)
  then have "distinct (take j (cl_producers c) @ ?i # drop (Suc j) (cl_producers c))" using d by metis
  then have ps: "distinct ?ps" "?i \<notin> set ?ps" by auto
  have "set ?ps \<subseteq> set (cl_producers c)" by (auto dest: in_set_takeD in_set_dropD)
  then have "cl_ok k ?c" using c D ps o by (auto simp: cl_ok_def)
  moreover have "?i < length (cq_contents k (cl_queue c))" using o True by (auto simp: owned_def)
  then have "mq_step (cq_contents k (cl_queue c)) (Destroyed ?i) (cq_contents k ?q)" unfolding D(2) by (rule mq_step.destroyed)
  ultimately show ?thesis using True D(3) by (intro exec_okI [where e = "Destroyed ?i" and c' = ?c]) simp_all
qed (use c in \<open>simp add: exec_ok_other\<close>)

lemma new_consumer_ok:
  assumes c: "cl_ok k c" shows "exec_ok k c (cq_exec k quota NewConsumer c)"
proof -
  obtain t q where t: "ConsumerToken (cl_queue c) = (t, q)" by fastforce
  let ?c = "c\<lparr>cl_queue := q, cl_consumers := cl_consumers c @ [t]\<rparr>"
  have q: "q = (cl_queue c)\<lparr>cq_nextExplicitConsumerId := cq_nextExplicitConsumerId (cl_queue c) + 1\<rparr>" "ct_desiredProducer t = None" using t by (auto simp: ConsumerToken_def)
  have "owned q i = owned (cl_queue c) i" for i by (simp add: owned_def q(1))
  then have "cl_ok k ?c" using c q(2) by (auto simp: cl_ok_def q(1) token_ok_def)
  then show ?thesis using t by (intro exec_okI [where e = Other and c' = ?c]) (auto simp: q(1) intro: mq_step.other)
qed

lemma enqueue_ok:
  assumes c: "cl_ok k c" shows "exec_ok k c (cq_exec k quota (Enqueue b j x) c)"
proof (cases "j < length (cl_producers c)")
  case True
  let ?i = "cl_producers c ! j"
  have q: "cq_ok k (cl_queue c)" and i: "?i < length (cq_producers (cl_queue c))" using c True by (auto simp: cl_ok_def owned_def)
  obtain r q' where r: "cq_inner_enqueue k b (Some ?i) x (cl_queue c) = Some (Inr (r, q'))" "cq_ok k q'" "cq_same (cl_queue c) q'"
    "cq_contents k q' = (if r then (cq_contents k (cl_queue c))[?i := cq_contents k (cl_queue c) ! ?i @ [x]] else cq_contents k (cl_queue c))"
    using cq_inner_enqueue_ok [OF q i] by blast
  let ?e = "if r then Accepted ?i x else Refused ?i"
  have "cl_ok k (c\<lparr>cl_queue := q'\<rparr>)" using cl_ok_queue [OF c r(2)] r(3) by (simp add: cq_same_def)
  moreover have "mq_step (cq_contents k (cl_queue c)) ?e (cq_contents k q')" unfolding r(4) using i by (auto intro: mq_step.accepted mq_step.refused)
  moreover have "(if b then cq_enqueue else cq_try_enqueue) k (Some ?i) x (cl_queue c) = cq_inner_enqueue k b (Some ?i) x (cl_queue c)"
    by (simp add: cq_enqueue_def cq_try_enqueue_def)
  then have "cq_exec k quota (Enqueue b j x) c = Some (Inr (?e, c\<lparr>cl_queue := q'\<rparr>))" unfolding cq_exec.simps using r(1) True by simp
  ultimately show ?thesis using cq_same_length [OF r(3)] by (intro exec_okI [where e = ?e and c' = "c\<lparr>cl_queue := q'\<rparr>"]) simp_all
qed (use c in \<open>simp add: exec_ok_other\<close>)

lemma dequeue_from_ok:
  assumes c: "cl_ok k c" shows "exec_ok k c (cq_exec k quota (DequeueFrom j) c)"
proof (cases "j < length (cl_producers c)")
  case True
  let ?i = "cl_producers c ! j"
  have q: "cq_ok k (cl_queue c)" and i: "?i < length (cq_producers (cl_queue c))" using c True by (auto simp: cl_ok_def owned_def)
  have "\<exists>r q'. try_dequeue_from_producer k (Some ?i) (cl_queue c) = Inr (r, q') \<and> cq_ok k q' \<and> cq_same (cl_queue c) q' \<and>
      mq_step (cq_contents k (cl_queue c)) (TookFrom ?i r) (cq_contents k q')"
  proof (cases "cq_contents k (cl_queue c) ! ?i")
    case Nil
    then show ?thesis using prod_dequeue_ok(1) [OF q i] q i by (auto simp: try_dequeue_from_producer_def intro: mq_step.one_empty)
  next
    case (Cons x ys)
    then obtain q' where "prod_dequeue k ?i (cl_queue c) = Inr (Some x, q')" "cq_ok k q'" "cq_contents k q' = (cq_contents k (cl_queue c))[?i := ys]" "cq_same (cl_queue c) q'"
      using prod_dequeue_ok(2) [OF q i] by blast
    moreover have "mq_step (cq_contents k (cl_queue c)) (TookFrom ?i (Some x)) ((cq_contents k (cl_queue c))[?i := ys])" using i Cons by (intro mq_step.took_from) auto
    ultimately show ?thesis by (auto simp: try_dequeue_from_producer_def)
  qed
  then show ?thesis using exec_ok_took [OF c] True by simp
qed (use c in \<open>simp add: exec_ok_other\<close>)

lemma dequeue_with_ok:
  assumes c: "cl_ok k c" shows "exec_ok k c (cq_exec k quota (DequeueWith j) c)"
proof (cases "j < length (cl_consumers c)")
  case True
  let ?q = "cl_queue c"
  have q: "cq_ok k ?q" and t: "token_ok (length (cq_producers ?q)) (cl_consumers c ! j)" using c True by (auto simp: cl_ok_def)
  obtain r t' q' where r: "cq_try_dequeue_token k quota (cl_consumers c ! j) ?q = Some (Inr (r, t', q'))" "cq_ok k q'"
    "map pr_inactive (cq_producers q') = map pr_inactive (cq_producers ?q)" "token_ok (length (cq_producers ?q)) t'" "takes (cq_contents k ?q) r (cq_contents k q')"
    using cq_try_dequeue_token_ok [OF q t] by blast
  let ?c = "c\<lparr>cl_queue := q', cl_consumers := (cl_consumers c)[j := t']\<rparr>"
  have len: "length (cq_producers q') = length (cq_producers ?q)" using r(3) by (metis length_map)
  have "cl_ok k (c\<lparr>cl_queue := q'\<rparr>)" using cl_ok_queue [OF c r(2,3)] .
  then have "cl_ok k ?c" using r(4) len by (auto simp: cl_ok_def dest: set_update_subset_insert [THEN subsetD])
  then show ?thesis using r(1) True len takes_step [OF r(5)] by (intro exec_okI [where e = "Took r" and c' = ?c]) simp_all
qed (use c in \<open>simp add: exec_ok_other\<close>)

lemma cq_exec_ok:
  assumes c: "cl_ok k c" and n: "Suc (length (cq_producers (cl_queue c))) < 2 ^ 32"
  shows "exec_ok k c (cq_exec k quota call c)"
proof -
  have q: "cq_ok k (cl_queue c)" using c by (simp add: cl_ok_def)
  show ?thesis
  proof (cases call)
    case TryDequeue
    show ?thesis unfolding TryDequeue cq_exec.simps using cq_try_dequeue_ok [OF q] by (intro exec_ok_took [OF c]) (blast intro: takes_step)
  next
    case TryDequeueNonInterleaved
    show ?thesis unfolding TryDequeueNonInterleaved cq_exec.simps using try_dequeue_non_interleaved_ok [OF q] by (intro exec_ok_took [OF c]) (blast intro: takes_step)
  next
    case SizeApprox
    have "mq_step (cq_contents k (cl_queue c)) (Sized (cq_size_approx (cl_queue c))) (cq_contents k (cl_queue c))" unfolding cq_size_approx_ok [OF q] by (rule mq_step.sized)
    then show ?thesis using c unfolding SizeApprox cq_exec.simps by (intro exec_okI [OF refl]) simp_all
  qed (use c n in \<open>simp_all only: new_producer_ok drop_producer_ok new_consumer_ok enqueue_ok dequeue_from_ok dequeue_with_ok\<close>)
qed

lemma cq_run_ok:
  "cl_ok k c \<Longrightarrow> length (cq_producers (cl_queue c)) + length calls < 2 ^ 32 \<Longrightarrow>
    \<exists>es c'. cq_run k quota calls c = Some (Inr (es, c')) \<and> cl_ok k c' \<and> mq_run (cq_contents k (cl_queue c)) es (cq_contents k (cl_queue c'))"
proof (induction calls arbitrary: c)
  case Nil
  then show ?case by (auto intro: mq_run.finish)
next
  case (Cons call calls)
  then obtain e c1 where e: "cq_exec k quota call c = Some (Inr (e, c1))" "cl_ok k c1" "mq_step (cq_contents k (cl_queue c)) e (cq_contents k (cl_queue c1))"
    "length (cq_producers (cl_queue c1)) \<le> Suc (length (cq_producers (cl_queue c)))" using cq_exec_ok [of k c quota call] by (auto simp: exec_ok_def)
  then obtain es c' where "cq_run k quota calls c1 = Some (Inr (es, c'))" "cl_ok k c'" "mq_run (cq_contents k (cl_queue c1)) es (cq_contents k (cl_queue c'))"
    using Cons.IH [OF e(2)] Cons.prems(2) by auto
  then show ?case using e(1,3) by (auto intro: mq_run.step)
qed

definition cl_new :: "'a cqueue \<Rightarrow> 'a client" where
  "cl_new q = \<lparr>cl_queue = q, cl_producers = [], cl_consumers = []\<rparr>"

lemma cq_empty_ok:
  assumes "cq_traits_ok k"
  shows "cq_ok k (cq_empty (populate_initial_block_list k ok n))" "cq_contents k (cq_empty (populate_initial_block_list k ok n)) = []"
proof -
  have "cq_inv k (cq_empty (populate_initial_block_list k ok n)) []" by (simp add: cq_inv_def cq_empty_def rings_def populate_pool_ok)
  then show "cq_ok k (cq_empty (populate_initial_block_list k ok n))" using assms populate_origin [of k ok n] by (auto simp: cq_ok_def cq_empty_def)
  show "cq_contents k (cq_empty (populate_initial_block_list k ok n)) = []" by (simp add: cq_contents_def cq_empty_def)
qed

lemma cl_new_ok:
  assumes "cq_traits_ok k"
  shows "cl_ok k (cl_new (ConcurrentQueue k ok n :: 'a cqueue))" "cq_contents k (ConcurrentQueue k ok n :: 'a cqueue) = []"
    "cq_producers (ConcurrentQueue k ok n :: 'a cqueue) = []"
proof -
  obtain m where m: "(ConcurrentQueue k ok n :: 'a cqueue) = cq_empty (populate_initial_block_list k ok m)" unfolding ConcurrentQueue_def by blast
  show "cq_contents k (ConcurrentQueue k ok n :: 'a cqueue) = []" unfolding m by (rule cq_empty_ok [OF assms])
  show "cl_ok k (cl_new (ConcurrentQueue k ok n :: 'a cqueue))" unfolding m using cq_empty_ok(1) [OF assms] by (simp add: cl_ok_def cl_new_def)
  show "cq_producers (ConcurrentQueue k ok n :: 'a cqueue) = []" unfolding m by (simp add: cq_empty_def)
qed

lemma program_runs:
  assumes "cq_traits_ok k" "length calls < 2 ^ 32"
  shows "\<exists>es c'. cq_run k quota calls (cl_new (ConcurrentQueue k ok capacity :: 'a cqueue)) = Some (Inr (es, c')) \<and> cl_ok k c' \<and> mq_run [] es (cq_contents k (cl_queue c'))"
  using cq_run_ok [OF cl_new_ok(1) [OF assms(1), where 'a = 'a], of ok capacity calls quota] cl_new_ok(2,3) [OF assms(1), where 'a = 'a] assms(2)
  by (simp add: cl_new_def)

lemma program_ok:
  assumes "cq_traits_ok k" "length calls < 2 ^ 32" "cq_run k quota calls (cl_new (ConcurrentQueue k ok capacity)) = Some (Inr (es, c'))"
  shows "cl_ok k c'" "mq_run [] es (cq_contents k (cl_queue c'))"
  using program_runs [OF assms(1,2), of quota ok capacity] assms(3) by auto

lemma cq_move_ok:
  assumes "cq_ok k other" "cq_move k other = (q, rest)"
  shows "cq_ok k q" "cq_contents k q = cq_contents k other" "cq_ok k rest" "cq_contents k rest = []"
  using assms cq_empty_ok [of k False 0] by (auto simp: cq_move_def cq_ok_def)

section \<open>What programs see\<close>

fun accepted_by :: "nat \<Rightarrow> 'a cq_event list \<Rightarrow> 'a list" where
  "accepted_by i [] = []"
| "accepted_by i (e # es) = (case e of Accepted j x \<Rightarrow> if j = i then x # accepted_by i es else accepted_by i es | _ \<Rightarrow> accepted_by i es)"

fun taken :: "'a cq_event list \<Rightarrow> 'a list" where
  "taken [] = []"
| "taken (e # es) = (case e of Took (Some x) \<Rightarrow> x # taken es | TookFrom i (Some x) \<Rightarrow> x # taken es | _ \<Rightarrow> taken es)"

definition queue_at :: "'a list list \<Rightarrow> nat \<Rightarrow> 'a list" where
  "queue_at Q i = (if i < length Q then Q ! i else [])"

definition from_source :: "nat \<Rightarrow> nat list \<Rightarrow> 'a list \<Rightarrow> 'a list" where
  "from_source i src xs = map snd (filter (\<lambda>p. fst p = i) (zip src xs))"

lemma queue_at_simps [simp]:
  "queue_at (Q @ [[]]) i = queue_at Q i" "j < length Q \<Longrightarrow> queue_at (Q[j := ys]) i = (if i = j then ys else queue_at Q i)" "queue_at [] i = []"
  by (auto simp: queue_at_def nth_append)

lemma from_source_Cons [simp]: "from_source i (s # src) (x # xs) = (if s = i then x # from_source i src xs else from_source i src xs)"
  by (simp add: from_source_def)

text \<open>One step, with the producer the element came from.\<close>

lemma mq_step_sources:
  assumes "mq_step Q e Q'"
  shows "\<exists>src. length src = length (taken [e]) \<and> (\<forall>i. queue_at Q i @ accepted_by i [e] = from_source i src (taken [e]) @ queue_at Q' i)"
  using assms
proof cases
  case (took i x ys)
  then show ?thesis by (intro exI [of _ "[i]"]) (auto simp: from_source_def queue_at_def)
next
  case (took_from i x ys)
  then show ?thesis by (intro exI [of _ "[i]"]) (auto simp: from_source_def queue_at_def)
qed (auto simp: from_source_def queue_at_def nth_append)

lemma accepted_by_append: "accepted_by i (es @ fs) = accepted_by i es @ accepted_by i fs"
  by (induction es) (auto split: cq_event.splits)

lemma taken_append: "taken (es @ fs) = taken es @ taken fs"
  by (induction es) (auto split: cq_event.splits option.splits)

lemma from_source_append: "length src = length xs \<Longrightarrow> from_source i (src @ src') (xs @ ys) = from_source i src xs @ from_source i src' ys"
  by (simp add: from_source_def)

lemma mq_run_sources:
  "mq_run Q es Q' \<Longrightarrow> \<exists>src. length src = length (taken es) \<and> (\<forall>i. queue_at Q i @ accepted_by i es = from_source i src (taken es) @ queue_at Q' i)"
proof (induction rule: mq_run.induct)
  case (finish Q)
  then show ?case by (auto simp: from_source_def)
next
  case (step Q e Q' es Q'')
  obtain s where s: "length s = length (taken [e])" "\<And>i. queue_at Q i @ accepted_by i [e] = from_source i s (taken [e]) @ queue_at Q' i"
    using mq_step_sources [OF step.hyps(1)] by blast
  obtain src where src: "length src = length (taken es)" "\<And>i. queue_at Q' i @ accepted_by i es = from_source i src (taken es) @ queue_at Q'' i" using step.IH by blast
  have "queue_at Q i @ accepted_by i ([e] @ es) = from_source i (s @ src) (taken ([e] @ es)) @ queue_at Q'' i" for i
  proof -
    have "queue_at Q i @ accepted_by i ([e] @ es) = from_source i s (taken [e]) @ queue_at Q' i @ accepted_by i es" unfolding accepted_by_append using s(2) [of i] by simp
    then show ?thesis by (simp only: src(2) taken_append from_source_append [OF s(1)] append_assoc)
  qed
  moreover have "length (s @ src) = length (taken ([e] @ es))" using s(1) src(1) by (simp only: length_append taken_append)
  ultimately show ?case by (metis append_Cons append_Nil)
qed

section \<open>Theorems\<close>

text \<open>
  C8. Every program with fewer than \<open>2 ^ 32\<close> calls on a queue runs to its end without an assertion failing or undefined behaviour (all loops
  of the queue end), and what it sees is a run of the abstract list of queues: an element is taken from the front of one queue,
  "empty" is answered only when all queues (or the one asked for) are empty, and \<open>size_approx\<close> is the number of elements. No two
  live tokens share a producer.
\<close>

theorem concurrent_queue_refines:
  assumes k: "cq_traits_ok k" and n: "length calls < 2 ^ 32"
  shows "\<exists>es c'. cq_run k quota calls (cl_new (ConcurrentQueue k ok capacity)) = Some (Inr (es, c')) \<and>
    mq_run [] es (cq_contents k (cl_queue c')) \<and> distinct (cl_producers c')"
  using program_runs [OF k n] by (fastforce simp: cl_ok_def)

text \<open>
  C9. The elements of one producer leave the queue in the order in which they were accepted, whatever way they are taken: the elements taken can
  be traced back to producers so that those of producer \<open>i\<close>, followed by those still inside, are the ones accepted from \<open>i\<close>.
\<close>

theorem concurrent_queue_order:
  assumes k: "cq_traits_ok k" and n: "length calls < 2 ^ 32" and r: "cq_run k quota calls (cl_new (ConcurrentQueue k ok capacity)) = Some (Inr (es, c'))"
  shows "\<exists>src. length src = length (taken es) \<and> (\<forall>i. accepted_by i es = from_source i src (taken es) @ queue_at (cq_contents k (cl_queue c')) i)"
proof -
  from mq_run_sources [OF program_ok(2) [OF k n r]] show ?thesis by simp
qed

text \<open>
  C32. Destroying the queue at the end of any program succeeds, whatever is still inside: the producers destroy each remaining element exactly once (their
  blocks are raw storage afterwards, and destroying raw storage would be an error), and every block is given back, those of the initial pool
  and those allocated later.
\<close>

theorem concurrent_queue_freed:
  assumes k: "cq_traits_ok k" and n: "length calls < 2 ^ 32" and r: "cq_run k quota calls (cl_new (ConcurrentQueue k ok capacity)) = Some (Inr (es, c'))"
  shows "\<exists>p. destroy_producers k (cq_producers (cl_queue c')) (length (cq_producers (cl_queue c'))) (cq_blocks (cl_queue c')) = Some (Inr p) \<and>
    (\<forall>a b. po_heap p a = Some b \<longrightarrow> cqb_elements b = replicate (block_size k) None) \<and> cq_dtor k (cl_queue c') = Some (Inr Map.empty)"
proof -
  have "cq_ok k (cl_queue c')" using program_ok(1) [OF k n r] by (simp add: cl_ok_def)
  then show ?thesis by (rule cq_dtor_ok)
qed

text \<open>
  C33. The first use of a consumer token: it begins at the producer given by its number minus the number of rotations, modulo the number of producers. Two
  tokens begin at the same producer only when their numbers agree modulo the number of producers.
\<close>

theorem consumers_spread:
  assumes k: "cq_traits_ok k" and n: "length calls < 2 ^ 32" and r: "cq_run k quota calls (cl_new (ConcurrentQueue k ok capacity)) = Some (Inr (es, c'))"
    and ne: "cq_producers (cl_queue c') \<noteq> []" and t: "ct_desiredProducer t = None" "ct_lastKnownGlobalOffset t = - 1"
    and u: "ct_desiredProducer u = None" "ct_lastKnownGlobalOffset u = - 1"
    and N: "N = length (cq_producers (cl_queue c'))"
  shows "\<exists>t' u'. update_current_producer_after_rotation (cl_queue c') t = Inr (True, t') \<and> update_current_producer_after_rotation (cl_queue c') u = Inr (True, u') \<and>
    (ct_currentProducer t' = ct_currentProducer u' \<longleftrightarrow> unat (ct_initialOffset t) mod N = unat (ct_initialOffset u) mod N)"
proof -
  have q: "cq_ok k (cl_queue c')" using program_ok(1) [OF k n r] by (simp add: cl_ok_def)
  let ?d = "int (unat (cq_globalExplicitConsumerOffset (cl_queue c') - (- 1)))"
  have N0: "0 < N" using ne N by simp
  have eq: "nat ((int a - ?d) mod int N) = nat ((int b - ?d) mod int N) \<longleftrightarrow> a mod N = b mod N" for a b
  proof -
    have "nat ((int a - ?d) mod int N) = nat ((int b - ?d) mod int N) \<longleftrightarrow> (int a - ?d) mod int N = (int b - ?d) mod int N" using N0 by (simp add: eq_nat_nat_iff)
    also have "\<dots> \<longleftrightarrow> int a mod int N = int b mod int N" by (simp add: mod_eq_dvd_iff)
    finally show ?thesis by (simp flip: zmod_int)
  qed
  from consumer_start [OF q ne t(1)] consumer_start [OF q ne u(1)] eq [of "unat (ct_initialOffset t)" "unat (ct_initialOffset u)"]
  show ?thesis unfolding t(2) u(2) N [symmetric] by auto
qed

section \<open>Examples\<close>

definition demo_calls :: "int cq_call list" where
  "demo_calls = [NewProducer True, NewProducer True, Enqueue True 0 5, Enqueue True 1 6, TryDequeue, SizeApprox]"

lemma demo_ctor: "po_initialBlockPoolSize p = 0 \<Longrightarrow> ExplicitProducer traits4 p = Some demo_producer"
  using demo_producer_ctor by (simp add: ExplicitProducer_def demo_pool_def populate_initial_block_list_def)

lemmas cq_eval = demo_ctor [unfolded traits4_def, simplified] ep_eval ConcurrentQueue_def cq_empty_def cl_new_def ProducerToken_def recycle_or_create_producer_def
  add_producer_def upd_producer_def took_def cq_try_dequeue_def prod_dequeue_def get_ep_def set_ep_def cq_enqueue_def cq_inner_enqueue_def cq_size_approx_def
  ep_size_approx_def

lemma demo_calls_run:
  "\<exists>c'. cq_run traits4 256 demo_calls (cl_new (ConcurrentQueue traits4 False 0)) =
     Some (Inr ([Created 0, Created 1, Accepted 0 5, Accepted 1 6, Took (Some 6), Sized 1], c')) \<and> length (cq_producers (cl_queue c')) = 2"
  by (simp add: demo_calls_def cq_eval)

lemma demo_calls_short: "length demo_calls < 2 ^ 32"
  by (simp add: demo_calls_def)

theorem concurrent_queue_refines_witness:
  "\<exists>c'. mq_run [] [Created 0, Created 1, Accepted 0 5, Accepted 1 6, Took (Some 6), Sized 1] (cq_contents traits4 (cl_queue c')) \<and> distinct (cl_producers (c' :: int client))"
proof -
  obtain es c' where r: "cq_run traits4 256 demo_calls (cl_new (ConcurrentQueue traits4 False 0)) = Some (Inr (es, c'))"
    "es = [Created 0, Created 1, Accepted 0 5, Accepted 1 6, Took (Some 6), Sized 1]" using demo_calls_run by blast
  have "mq_run [] es (cq_contents traits4 (cl_queue c')) \<and> distinct (cl_producers c')"
    using concurrent_queue_refines [OF traits4_all_ok demo_calls_short, of 256 False 0] unfolding r(1) by simp
  then show ?thesis unfolding r(2) by blast
qed

theorem concurrent_queue_order_witness:
  "\<exists>c' src. cq_run traits4 256 demo_calls (cl_new (ConcurrentQueue traits4 False 0)) =
     Some (Inr ([Created 0, Created 1, Accepted 0 5, Accepted 1 6, Took (Some 6), Sized 1], c')) \<and> [5] = from_source 0 src [6] @ queue_at (cq_contents traits4 (cl_queue c')) 0"
proof -
  let ?es = "[Created 0, Created 1, Accepted 0 5, Accepted 1 6, Took (Some 6), Sized 1]"
  obtain c' where r: "cq_run traits4 256 demo_calls (cl_new (ConcurrentQueue traits4 False 0)) = Some (Inr (?es, c'))" using demo_calls_run by blast
  obtain src where "\<forall>i. accepted_by i ?es = from_source i src (taken ?es) @ queue_at (cq_contents traits4 (cl_queue c')) i"
    using concurrent_queue_order [OF traits4_all_ok demo_calls_short r] by blast
  then have "accepted_by 0 ?es = from_source 0 src (taken ?es) @ queue_at (cq_contents traits4 (cl_queue c')) 0" by blast
  then have "[5] = from_source 0 src [6] @ queue_at (cq_contents traits4 (cl_queue c')) 0" by simp
  then show ?thesis using r by blast
qed

theorem concurrent_queue_freed_witness:
  "\<exists>es c'. cq_run traits4 256 demo_calls (cl_new (ConcurrentQueue traits4 False 0)) = Some (Inr (es, c')) \<and> cq_dtor traits4 (cl_queue c') = Some (Inr Map.empty)"
proof -
  obtain es c' where r: "cq_run traits4 256 demo_calls (cl_new (ConcurrentQueue traits4 False 0)) = Some (Inr (es, c'))" using demo_calls_run by blast
  from concurrent_queue_freed [OF traits4_all_ok demo_calls_short r] r show ?thesis by blast
qed

definition demo_token :: "u32 \<Rightarrow> consumer_token" where
  "demo_token i = \<lparr>ct_initialOffset = i, ct_lastKnownGlobalOffset = - 1, ct_itemsConsumedFromCurrent = 0, ct_currentProducer = None, ct_desiredProducer = None\<rparr>"

theorem consumers_spread_witness:
  "\<exists>q t u. update_current_producer_after_rotation (q :: int cqueue) (demo_token 0) = Inr (True, t) \<and> update_current_producer_after_rotation q (demo_token 1) = Inr (True, u) \<and>
     length (cq_producers q) = 2 \<and> ct_currentProducer t \<noteq> ct_currentProducer u"
proof -
  obtain es c' where r: "cq_run traits4 256 demo_calls (cl_new (ConcurrentQueue traits4 False 0)) = Some (Inr (es, c'))" "length (cq_producers (cl_queue c')) = 2"
    using demo_calls_run by blast
  then have "cq_producers (cl_queue c') \<noteq> []" by auto
  from consumers_spread [OF traits4_all_ok demo_calls_short r(1) this, of "demo_token 0" "demo_token 1" 2] r(2) show ?thesis by (auto simp: demo_token_def)
qed

end
