(* ===== verification/CQ_Bulk_Queue.thy ===== *)
theory CQ_Bulk_Queue
  imports CQ_Bulk_Run CQ_Client
begin

text \<open>
  The bulk operations of \<open>ConcurrentQueue\<close> with tokens (\<^verbatim>\<open>concurrentqueue/concurrentqueue.h\<close>), as one thread sees them.
\<close>

section \<open>The members\<close>

definition cq_inner_enqueue_bulk :: "cq_traits \<Rightarrow> bool \<Rightarrow> nat option \<Rightarrow> 'a list \<Rightarrow> 'a cqueue \<Rightarrow> (bool \<times> 'a cqueue) result option" where
  "cq_inner_enqueue_bulk k canAlloc token items q =
     (case token of
        None \<Rightarrow> Some (Inl (UndefinedBehaviour ''nullptr''))
      | Some i \<Rightarrow>
          (case ep_enqueue_bulk k canAlloc (map Some items) (get_ep i q) of
             None \<Rightarrow> None
           | Some (Inl err) \<Rightarrow> Some (Inl err)
           | Some (Inr (r, st)) \<Rightarrow> Some (Inr (r = Some True, set_ep i q st))))"

definition cq_enqueue_bulk :: "cq_traits \<Rightarrow> nat option \<Rightarrow> 'a list \<Rightarrow> 'a cqueue \<Rightarrow> (bool \<times> 'a cqueue) result option" where
  "cq_enqueue_bulk k token items q = cq_inner_enqueue_bulk k True token items q"

definition cq_try_enqueue_bulk :: "cq_traits \<Rightarrow> nat option \<Rightarrow> 'a list \<Rightarrow> 'a cqueue \<Rightarrow> (bool \<times> 'a cqueue) result option" where
  "cq_try_enqueue_bulk k token items q = cq_inner_enqueue_bulk k False token items q"

text \<open>\<open>enqueue_bulk\<close> and \<open>try_enqueue_bulk\<close> without a token, when implicit production is off.\<close>

definition cq_enqueue_bulk_implicit :: "'a list \<Rightarrow> 'a cqueue \<Rightarrow> bool \<times> 'a cqueue" where
  "cq_enqueue_bulk_implicit items q = (False, q)"

definition prod_dequeue_bulk :: "cq_traits \<Rightarrow> nat \<Rightarrow> size_t \<Rightarrow> 'a cqueue \<Rightarrow> ('a list \<times> 'a cqueue) result option" where
  "prod_dequeue_bulk k i maxCount q = map_option (map_sum id (\<lambda>(out, st). (out, set_ep i q st))) (ep_dequeue_bulk k maxCount (get_ep i q))"

text \<open>The producers from the tail on; \<open>count\<close> elements have come out so far.\<close>

fun dequeue_bulk_each :: "cq_traits \<Rightarrow> size_t \<Rightarrow> size_t \<Rightarrow> nat \<Rightarrow> 'a cqueue \<Rightarrow> ('a list \<times> 'a cqueue) result option" where
  "dequeue_bulk_each k maxCount count 0 q = Some (Inr ([], q))"
| "dequeue_bulk_each k maxCount count (Suc i) q =
     (case prod_dequeue_bulk k i (maxCount - count) q of
        None \<Rightarrow> None
      | Some (Inl err) \<Rightarrow> Some (Inl err)
      | Some (Inr (out, q)) \<Rightarrow>
          let count = count + of_nat (length out)
          in if count = maxCount then Some (Inr (out, q))
             else map_option (map_sum id (\<lambda>(outs, q). (out @ outs, q))) (dequeue_bulk_each k maxCount count i q))"

definition cq_try_dequeue_bulk :: "cq_traits \<Rightarrow> size_t \<Rightarrow> 'a cqueue \<Rightarrow> ('a list \<times> 'a cqueue) result option" where
  "cq_try_dequeue_bulk k maxCount q = dequeue_bulk_each k maxCount 0 (length (cq_producers q)) q"

definition try_dequeue_bulk_from_producer :: "cq_traits \<Rightarrow> nat option \<Rightarrow> size_t \<Rightarrow> 'a cqueue \<Rightarrow> ('a list \<times> 'a cqueue) result option" where
  "try_dequeue_bulk_from_producer k token maxCount q =
     (case token of None \<Rightarrow> Some (Inl (UndefinedBehaviour ''nullptr'')) | Some i \<Rightarrow> prod_dequeue_bulk k i maxCount q)"

text \<open>The loop over the other producers; the current producer changes with every producer that gives elements.\<close>

partial_function (option) dequeue_bulk_around ::
    "cq_traits \<Rightarrow> size_t \<Rightarrow> nat option \<Rightarrow> 'a list \<Rightarrow> consumer_token \<Rightarrow> 'a cqueue \<Rightarrow> ('a list \<times> consumer_token \<times> 'a cqueue) result option" where
  "dequeue_bulk_around k maxCount ptr out token q =
     (if ptr = ct_currentProducer token then Some (Inr (out, token, q))
      else case ptr of
             None \<Rightarrow> Some (Inl (UndefinedBehaviour ''nullptr''))
           | Some i \<Rightarrow>
               (case prod_dequeue_bulk k i maxCount q of
                  None \<Rightarrow> None
                | Some (Inl err) \<Rightarrow> Some (Inl err)
                | Some (Inr (outs, q)) \<Rightarrow>
                    let dequeued = of_nat (length outs);
                        token = (if dequeued \<noteq> 0 then token\<lparr>ct_currentProducer := Some i, ct_itemsConsumedFromCurrent := ucast dequeued\<rparr> else token)
                    in if dequeued = maxCount then Some (Inr (out @ outs, token, q))
                       else dequeue_bulk_around k (maxCount - dequeued) (next_around q i) (out @ outs) token q))"

definition cq_try_dequeue_bulk_token ::
    "cq_traits \<Rightarrow> u32 \<Rightarrow> size_t \<Rightarrow> consumer_token \<Rightarrow> 'a cqueue \<Rightarrow> ('a list \<times> consumer_token \<times> 'a cqueue) result option" where
  "cq_try_dequeue_bulk_token k quota maxCount token q =
     (case (if ct_desiredProducer token = None \<or> ct_lastKnownGlobalOffset token \<noteq> cq_globalExplicitConsumerOffset q
            then update_current_producer_after_rotation q token else Inr (True, token)) of
        Inl err \<Rightarrow> Some (Inl err)
      | Inr (False, token) \<Rightarrow> Some (Inr ([], token, q))
      | Inr (True, token) \<Rightarrow>
          (case ct_currentProducer token of
             None \<Rightarrow> Some (Inl (UndefinedBehaviour ''nullptr''))
           | Some current \<Rightarrow>
               (case prod_dequeue_bulk k current maxCount q of
                  None \<Rightarrow> None
                | Some (Inl err) \<Rightarrow> Some (Inl err)
                | Some (Inr (out, q)) \<Rightarrow>
                    let count = of_nat (length out); n = ct_itemsConsumedFromCurrent token + ucast count; token = token\<lparr>ct_itemsConsumedFromCurrent := n\<rparr>
                    in if count = maxCount
                       then Some (Inr (out, token, if n \<ge> quota then q\<lparr>cq_globalExplicitConsumerOffset := cq_globalExplicitConsumerOffset q + 1\<rparr> else q))
                       else dequeue_bulk_around k (maxCount - count) (next_around q current) out token q)))"

section \<open>Where the blocks come from\<close>

lemma set_all_empty_origin [block_origin]: "cqb_dynamicallyAllocated (set_all_empty k c b) = cqb_dynamicallyAllocated b"
  by (simp add: set_all_empty_def)

lemma bulk_ahead_pool:
  assumes "bulk_ahead k d t f (p, e) = Some (Inr (d', t', f', p', e'))" shows "p' = p"
proof -
  have "case r of Inl _ \<Rightarrow> True | Inr (_, _, _, st') \<Rightarrow> fst st' = fst st" if "bulk_ahead k d t f st = Some r" for d t f st r
    by (rule bulk_ahead.raw_induct [OF _ that]) (fastforce split: if_splits sum.splits option.splits prod.splits)
  from this [OF assms] show ?thesis by simp
qed

lemma bulk_link_origin:
  assumes "origin_ok p" "bulk_link k a (p, e) = Inr (p', e')" shows "origin_ok p'"
proof -
  obtain b where b: "po_heap p a = Some b" using assms(2) by (auto simp: bulk_link_def cq_deref_Inr)
  show ?thesis
  proof (cases "ep_tailBlock e")
    case None
    then show ?thesis using assms b by (auto simp: bulk_link_def cq_deref_Inr Let_def block_origin intro!: origin_write)
  next
    case (Some t)
    let ?b = "set_all_empty k explicit_context b"
    obtain tb where t: "po_heap (cq_write a ?b p) t = Some tb" and p': "p' = cq_write t (tb\<lparr>cqb_next := Some a\<rparr>) (cq_write a (?b\<lparr>cqb_next := cqb_next tb\<rparr>) p)"
      using assms(2) Some b by (auto simp: bulk_link_def cq_deref_Inr Let_def)
    have 1: "origin_ok (cq_write a (?b\<lparr>cqb_next := cqb_next tb\<rparr>) p)" using assms(1) b by (rule origin_write) (simp add: block_origin)
    obtain tb' where tb': "po_heap (cq_write a (?b\<lparr>cqb_next := cqb_next tb\<rparr>) p) t = Some tb'" "cqb_dynamicallyAllocated tb' = cqb_dynamicallyAllocated tb"
      using t by (cases "t = a") (auto simp: cq_write_def)
    show ?thesis unfolding p' using 1 tb'(1) by (rule origin_write) (simp add: tb'(2))
  qed
qed

lemma bulk_new_origin:
  fixes p :: "'a cq_pool"
  assumes "bulk_new k c d t f s (p, e) = Some (Inr (b, f', s', p', e'))" "origin_ok p" shows "origin_ok p'"
proof -
  have "origin_ok (fst st) \<longrightarrow> (case r of Inl _ \<Rightarrow> True | Inr (_, _, _, st') \<Rightarrow> origin_ok (fst st'))" if "bulk_new k c d t f s st = Some r" for d t f s and st :: "'a ep_state" and r
  proof (rule bulk_new.raw_induct [OF _ that], intro impI)
    fix F and k :: cq_traits and c d t f s and st :: "'a ep_state" and r :: "(bool \<times> nat option \<times> bulk_start \<times> 'a ep_state) result"
    let ?P = "\<lambda>r. case r of Inl _ \<Rightarrow> True | Inr (_, _, _, st') \<Rightarrow> origin_ok (fst st')"
    let ?d = "d - tr_BLOCK_SIZE k" and ?t = "t + tr_BLOCK_SIZE k"
    assume IH: "\<And>k c d t f s st r. F k c d t f s st = Some r \<Longrightarrow> origin_ok (fst st) \<longrightarrow> ?P r" and o: "origin_ok (fst st)"
      and r: "(if d > 0
        then let blockBaseDiff = ?d; currentTailIndex = ?t
             in if circular_less_than currentTailIndex (ep_headIndex (snd st)) then Some (Inl (AssertFailed ''!circular_less_than(currentTailIndex, head)''))
                else case bulk_index_room k c currentTailIndex s (snd st) of
                       None \<Rightarrow> None
                     | Some (room, s, e) \<Rightarrow>
                         if \<not> room then Some (Inr (False, f, s, fst st, bulk_undo s f e))
                         else (case requisition_block k c (fst st) of
                            (None, p) \<Rightarrow> Some (Inr (False, f, s, p, bulk_undo s f e))
                          | (Some a, p) \<Rightarrow>
                              (case bulk_link k a (p, e) of
                                 Inl err \<Rightarrow> Some (Inl err)
                               | Inr (p, e) \<Rightarrow>
                                   (case ep_index_entry currentTailIndex e of
                                      Inl err \<Rightarrow> Some (Inl err)
                                    | Inr e \<Rightarrow> F k c blockBaseDiff currentTailIndex (first_block f a) s (p, e))))
        else Some (Inr (True, f, s, st))) = Some r"
    show "?P r"
    proof (cases "d > 0 \<and> \<not> circular_less_than ?t (ep_headIndex (snd st))")
      case True
      then obtain room s1 e1 where 1: "bulk_index_room k c ?t s (snd st) = Some (room, s1, e1)"
        using r by (cases "bulk_index_room k c ?t s (snd st)") (auto simp: Let_def)
      obtain a p1 where 2: "requisition_block k c (fst st) = (a, p1)" by fastforce
      have p1: "origin_ok p1" using o 2 by (rule requisition_origin)
      show ?thesis
      proof (cases "room \<and> a \<noteq> None")
        case False
        then show ?thesis using r True 1 2 o p1 by (cases room) (auto simp: Let_def)
      next
        case a: True
        then obtain x where x: "a = Some x" by auto
        show ?thesis
        proof (cases "bulk_link k x (p1, e1)")
          case (Inr y)
          obtain p2 e2 where y: "y = (p2, e2)" by fastforce
          have "origin_ok p2" using p1 Inr [unfolded y] by (rule bulk_link_origin)
          then show ?thesis using r True 1 2 a x Inr y IH by (cases "ep_index_entry ?t e2") (auto simp: Let_def)
        qed (use r True 1 2 a x in \<open>auto simp: Let_def\<close>)
      qed
    next
      case False
      then show ?thesis using r o by (cases "d > 0") (auto simp: Let_def)
    qed
  qed
  from this [OF assms(1)] assms(2) show ?thesis by simp
qed

lemma bulk_reset_origin:
  fixes p :: "'a cq_pool"
  assumes "bulk_reset k t x p = Some (Inr p')" "origin_ok p" shows "origin_ok p'"
proof -
  have "origin_ok p \<longrightarrow> (case r of Inl _ \<Rightarrow> True | Inr p' \<Rightarrow> origin_ok p')" if "bulk_reset k t x p = Some r" for x and p :: "'a cq_pool" and r
  proof (rule bulk_reset.raw_induct [OF _ that], intro impI)
    fix F and k :: cq_traits and t x and p :: "'a cq_pool" and r :: "'a cq_pool result"
    let ?P = "\<lambda>r. case r of Inl _ \<Rightarrow> True | Inr p' \<Rightarrow> origin_ok p'"
    assume IH: "\<And>k t x p r. F k t x p = Some r \<Longrightarrow> origin_ok p \<longrightarrow> ?P r" and o: "origin_ok p"
      and r: "(case cq_deref p x (\<lambda>a b. Inr (a, cqb_next b, cq_write a (reset_empty k explicit_context b) p)) of
          Inl err \<Rightarrow> Some (Inl err)
        | Inr (a, nextBlock, p) \<Rightarrow> if Some a = t then Some (Inr p) else F k t nextBlock p) = Some r"
    show "?P r"
    proof (cases "cq_deref p x (\<lambda>a b. Inr (a, cqb_next b, cq_write a (reset_empty k explicit_context b) p)) :: (nat \<times> nat option \<times> 'a cq_pool) result")
      case (Inr y)
      then obtain a b where y: "y = (a, cqb_next b, cq_write a (reset_empty k explicit_context b) p)" "po_heap p a = Some b" unfolding cq_deref_Inr by auto
      have "origin_ok (cq_write a (reset_empty k explicit_context b) p)" using o y(2) by (rule origin_write) (simp add: block_origin)
      then show ?thesis using r IH unfolding Inr y(1) by (auto split: if_splits)
    qed (use r in auto)
  qed
  from this [OF assms(1)] assms(2) show ?thesis by simp
qed

lemma bulk_allocate_origin:
  assumes "bulk_allocate k c n (p, e) = Some (Inr (b, f, s, p', e'))" "origin_ok p" shows "origin_ok p'"
proof -
  have a: "p1 = p" if "bulk_ahead k d t f (p, e) = Some (Inr (d', t', f', p1, e1))" for d t f d' t' f' p1 e1 using bulk_ahead_pool [OF that] .
  have n: "origin_ok p2" if "bulk_new k c d t f s (p, e1) = Some (Inr (b, f', s', p2, e2))" for d t f s e1 b f' s' p2 e2 using bulk_new_origin [OF that assms(2)] .
  show ?thesis using assms unfolding bulk_allocate_def prod.case Let_def
    by (auto simp: map_sum_Inr split: if_splits option.splits sum.splits bool.splits prod.splits dest!: a dest: n bulk_reset_origin)
qed

lemma fill_block_origin: "fill_block k s i items b = Inr (t, j, rest, b') \<Longrightarrow> cqb_dynamicallyAllocated b' = cqb_dynamicallyAllocated b"
  by (induction k s i items b rule: fill_block.induct) (auto simp: block_origin split: if_splits option.splits)

lemma bulk_fill_origin:
  fixes p :: "'a cq_pool"
  assumes "bulk_fill k eb n i items tb p = Some (Inr (t, j, tb', p'))" "origin_ok p" shows "origin_ok p'"
proof -
  have "origin_ok p \<longrightarrow> (case r of Inl _ \<Rightarrow> True | Inr (_, _, _, p') \<Rightarrow> origin_ok p')" if "bulk_fill k eb n i items tb p = Some r"
    for i items tb and p :: "'a cq_pool" and r
  proof (rule bulk_fill.raw_induct [OF _ that], intro impI)
    fix F and k :: cq_traits and eb n i and items :: "'a option list" and tb and p :: "'a cq_pool" and r :: "(bool \<times> index_t \<times> nat option \<times> 'a cq_pool) result"
    let ?P = "\<lambda>r. case r of Inl _ \<Rightarrow> True | Inr (_, _, _, p') \<Rightarrow> origin_ok p'"
    let ?s = "stop_index k i n"
    let ?f = "if i = ?s then Inr (False, i, items, p)
      else cq_deref p tb (\<lambda>a b. map_sum id (\<lambda>(thrown, cur, items, b). (thrown, cur, items, cq_write a b p)) (fill_block k ?s i items b)) :: (bool \<times> index_t \<times> 'a option list \<times> 'a cq_pool) result"
    assume IH: "\<And>k eb n i items tb p r. F k eb n i items tb p = Some r \<Longrightarrow> origin_ok p \<longrightarrow> ?P r" and o: "origin_ok p"
      and r: "(let stopIndex = ?s
        in case (if i = stopIndex then Inr (False, i, items, p)
               else cq_deref p tb (\<lambda>a b. map_sum id (\<lambda>(thrown, cur, items, b). (thrown, cur, items, cq_write a b p)) (fill_block k stopIndex i items b))) of
             Inl err \<Rightarrow> Some (Inl err)
           | Inr (thrown, cur, items, p) \<Rightarrow>
               if thrown then Some (Inr (True, cur, tb, p))
               else if tb = eb then Some (if cur = n then Inr (False, cur, tb, p) else Inl (AssertFailed ''currentTailIndex == newTailIndex''))
               else case cq_deref p tb (\<lambda>_ b. Inr (cqb_next b)) of Inl err \<Rightarrow> Some (Inl err) | Inr next \<Rightarrow> F k eb n cur items next p) = Some r"
    show "?P r"
    proof (cases ?f)
      case (Inr y)
      obtain t cur its p1 where y: "y = (t, cur, its, p1)" by (cases y)
      have p1: "origin_ok p1"
      proof (cases "i = ?s")
        case True
        then show ?thesis using Inr y o by simp
      next
        case False
        then obtain a b b' where b: "po_heap p a = Some b" "fill_block k ?s i items b = Inr (t, cur, its, b')" "p1 = cq_write a b' p"
          using Inr y by (auto simp: cq_deref_Inr map_sum_Inr)
        show ?thesis unfolding b(3) using o b(1) fill_block_origin [OF b(2)] by (rule origin_write)
      qed
      then show ?thesis using r unfolding Let_def Inr y by (auto split: if_splits sum.splits dest!: IH)
    qed (use r in \<open>auto simp: Let_def\<close>)
  qed
  from this [OF assms(1)] assms(2) show ?thesis by simp
qed

lemma enqueue_bulk_origin:
  assumes "origin_ok p" "ep_enqueue_bulk k c (map Some items) (p, e) = Some (Inr (Some b, p', e'))" shows "origin_ok p'"
proof -
  obtain a f s p1 e1 where 1: "bulk_allocate k c (of_nat (length (map Some items))) (p, e) = Some (Inr (a, f, s, p1, e1))"
    using assms(2) unfolding ep_enqueue_bulk_def prod.case Let_def by (auto split: option.splits sum.splits)
  have o: "origin_ok p1" using 1 assms(1) by (rule bulk_allocate_origin)
  show ?thesis
  proof (cases a)
    case False
    then show ?thesis using assms(2) 1 o by (simp add: ep_enqueue_bulk_def)
  next
    case True
    then show ?thesis using assms(2) o unfolding ep_enqueue_bulk_def prod.case Let_def 1
      by (auto simp: map_sum_Inr dest: bulk_fill_origin split: if_splits option.splits sum.splits bool.splits prod.splits)
  qed
qed

lemma set_many_empty_origin: "set_many_empty k c i n b = Inr (x, b') \<Longrightarrow> cqb_dynamicallyAllocated b' = cqb_dynamicallyAllocated b"
  by (auto simp: set_many_empty_def Let_def map_sum_Inr split: if_splits)

lemma take_range_origin:
  fixes b :: "'a cq_block"
  assumes "take_range k s i out b = Some (Inr (out', b'))" shows "cqb_dynamicallyAllocated b' = cqb_dynamicallyAllocated b"
proof -
  have "case r of Inl _ \<Rightarrow> True | Inr (_, b') \<Rightarrow> cqb_dynamicallyAllocated b' = cqb_dynamicallyAllocated b" if "take_range k s i out b = Some r"
    for i out and b :: "'a cq_block" and r
    by (rule take_range.raw_induct [OF _ that]) (fastforce simp: block_origin split: if_splits sum.splits)
  from this [OF assms] show ?thesis by simp
qed

lemma take_block_origin:
  assumes "origin_ok p" "take_block k s i out a p = Some (Inr (out', p'))" shows "origin_ok p'"
proof -
  obtain b b1 x b2 where b: "po_heap p a = Some b" "take_range k s i out b = Some (Inr (out', b1))" "set_many_empty k explicit_context i (s - i) b1 = Inr (x, b2)" "p' = cq_write a b2 p"
    using assms(2) by (auto simp: take_block_def map_sum_Inr split: option.splits sum.splits)
  show ?thesis unfolding b(4) using assms(1) b(1) by (rule origin_write) (simp add: set_many_empty_origin [OF b(3)] take_range_origin [OF b(2)])
qed

lemma bulk_take_origin:
  fixes p :: "'a cq_pool"
  assumes "bulk_take k bi e i w out p = Some (Inr (out', p'))" "origin_ok p" shows "origin_ok p'"
proof -
  have "origin_ok p \<longrightarrow> (case r of Inl _ \<Rightarrow> True | Inr (_, p') \<Rightarrow> origin_ok p')" if "bulk_take k bi e i w out p = Some r"
    for i w out and p :: "'a cq_pool" and r
    by (rule bulk_take.raw_induct [OF _ that]) (fastforce simp: Let_def dest: take_block_origin split: option.splits sum.splits if_splits prod.splits)
  from this [OF assms(1)] assms(2) show ?thesis by simp
qed

lemma dequeue_bulk_origin:
  assumes "origin_ok p" "ep_dequeue_bulk k n (p, e) = Some (Inr (out, p', e'))" shows "origin_ok p'"
  using assms by (auto simp: ep_dequeue_bulk_def bulk_take_from_def Let_def map_sum_Inr dest: bulk_take_origin split: if_splits option.splits prod.splits)

end
