(* ===== verification/CQ_Bulk_Client.thy ===== *)
theory CQ_Bulk_Client
  imports CQ_Bulk_Queue
begin

text \<open>
  \<open>ConcurrentQueue\<close> with its bulk operations implements the same list of queues as without them (\<open>CQ_Queue_Spec\<close>, \<open>CQ_Client\<close>): a bulk is put behind
  one of the queues, and taking many elements is taking them one after the other.
\<close>

section \<open>One producer\<close>

lemma prod_dequeue_bulk_ok:
  assumes q: "cq_ok k q" and i: "i < length (cq_producers q)"
  shows "\<exists>q'. prod_dequeue_bulk k i n q = Some (Inr (take (unat n) (cq_contents k q ! i), q')) \<and> cq_ok k q' \<and>
    cq_contents k q' = (cq_contents k q)[i := drop (unat n) (cq_contents k q ! i)] \<and> cq_same q q'"
proof -
  obtain gs where gs: "cq_traits_ok k" "cq_inv k q gs" using q by (auto simp: cq_ok_def)
  then have t: "traits_ok k" and il: "i < length gs" using i by (auto simp: cq_traits_ok_def cq_inv_def)
  obtain ring N H xs where g: "gs ! i = (ring, N, H, xs)" by (metis prod_cases4)
  obtain p e where pe: "get_ep i q = (p, e)" "p = cq_blocks q" by (simp add: get_ep_def)
  have inv: "ep_inv k (others gs i) (p, e) ring N H xs" using gs(2) il g pe(1) by (force simp: cq_inv_def ghost_inv_def)
  have c: "cq_contents k q ! i = xs" using cq_contents_inv(1) [OF gs] il g by simp
  obtain p' e' where d: "ep_dequeue_bulk k n (p, e) = Some (Inr (take (unat n) xs, p', e'))"
    "ep_inv k (others gs i) (p', e') ring N (H + min (length xs) (unat n)) (drop (unat n) xs)" "same_on (others gs i) p p'"
    using ep_dequeue_bulk_take [OF t inv] by blast
  have "prod_dequeue_bulk k i n q = Some (Inr (take (unat n) xs, set_ep i q (p', e')))" using d(1) pe(1) by (simp add: prod_dequeue_bulk_def)
  moreover have "origin_ok p'" using dequeue_bulk_origin [OF _ d(1)] q pe(2) by (simp add: cq_ok_def)
  ultimately show ?thesis using cq_ok_upd [OF gs il d(2)] d(3) pe(2) c by auto
qed

lemma cq_inner_enqueue_bulk_ok:
  assumes q: "cq_ok k q" and i: "i < length (cq_producers q)" and m: "length ys \<le> 2 ^ 62"
  shows "\<exists>b q'. cq_inner_enqueue_bulk k c (Some i) ys q = Some (Inr (b, q')) \<and>
    (b \<or> length ys \<le> block_size k \<longrightarrow> cq_ok k q' \<and> cq_same q q' \<and>
      cq_contents k q' = (if b then (cq_contents k q)[i := cq_contents k q ! i @ ys] else cq_contents k q))"
proof -
  obtain gs where gs: "cq_traits_ok k" "cq_inv k q gs" using q by (auto simp: cq_ok_def)
  then have t: "traits_ok k" "limit_ok k" "malloc_ok k" and il: "i < length gs" using i by (auto simp: cq_traits_ok_def cq_inv_def)
  obtain ring N H xs where g: "gs ! i = (ring, N, H, xs)" by (metis prod_cases4)
  obtain p e where pe: "get_ep i q = (p, e)" "p = cq_blocks q" by (simp add: get_ep_def)
  have inv: "ep_inv k (others gs i) (p, e) ring N H xs" using gs(2) il g pe(1) by (force simp: cq_inv_def ghost_inv_def)
  have ci: "cq_contents k q ! i = xs" using cq_contents_inv(1) [OF gs] il g by simp
  obtain b p' e' where d: "ep_enqueue_bulk k c (map Some ys) (p, e) = Some (Inr (Some b, p', e'))" "same_on (others gs i) p p'"
    "if b then \<exists>ring' N'. ep_inv k (others gs i) (p', e') ring' N' H (xs @ ys)
     else alloc_fails k c (length xs + length ys) (unat (ep_blockIndexSize e) + length ys) (po_fresh p) \<and> (length ys \<le> block_size k \<longrightarrow> ep_inv k (others gs i) (p', e') ring N H xs)"
    using ep_enqueue_bulk_ok [OF t inv m] by blast
  have run: "cq_inner_enqueue_bulk k c (Some i) ys q = Some (Inr (b, set_ep i q (p', e')))" using d(1) pe(1) by (simp add: cq_inner_enqueue_bulk_def)
  have o: "origin_ok p'" using enqueue_bulk_origin [OF _ d(1)] q pe(2) by (simp add: cq_ok_def)
  have same: "(cq_contents k q)[i := xs] = cq_contents k q" using ci by (metis list_update_id)
  have "cq_ok k (set_ep i q (p', e')) \<and> cq_same q (set_ep i q (p', e')) \<and>
      cq_contents k (set_ep i q (p', e')) = (if b then (cq_contents k q)[i := cq_contents k q ! i @ ys] else cq_contents k q)" if "b \<or> length ys \<le> block_size k"
  proof -
    obtain ring' N' where "ep_inv k (others gs i) (p', e') ring' N' H (if b then xs @ ys else xs)" using d(3) \<open>b \<or> length ys \<le> block_size k\<close> by (cases b) auto
    then show ?thesis using cq_ok_upd [OF gs il, of "(p', e')" ring' N' H "if b then xs @ ys else xs"] d(2) pe(2) o ci same by auto
  qed
  then show ?thesis using run by blast
qed

section \<open>Taking many elements\<close>

fun takes_many :: "'a list list \<Rightarrow> 'a list \<Rightarrow> 'a list list \<Rightarrow> bool" where
  "takes_many Q [] Q' \<longleftrightarrow> Q' = Q"
| "takes_many Q (x # xs) Q' \<longleftrightarrow> (\<exists>Q1. takes Q (Some x) Q1 \<and> takes_many Q1 xs Q')"

lemma takes_many_append: "takes_many Q xs Q1 \<Longrightarrow> takes_many Q1 ys Q2 \<Longrightarrow> takes_many Q (xs @ ys) Q2"
  by (induction Q xs Q1 rule: takes_many.induct) auto

lemma takes_many_front: "i < length Q \<Longrightarrow> Q ! i = xs @ ys \<Longrightarrow> takes_many Q xs (Q[i := ys])"
proof (induction xs arbitrary: Q)
  case Nil
  then show ?case by (metis append_Nil list_update_id takes_many.simps(1))
next
  case (Cons x xs)
  have "takes Q (Some x) (Q[i := xs @ ys])" using Cons.prems by (auto simp: takes_def)
  moreover have "takes_many (Q[i := xs @ ys]) xs (Q[i := ys])" using Cons.IH [of "Q[i := xs @ ys]"] Cons.prems(1) by simp
  ultimately show ?case by auto
qed

lemma takes_many_take: "i < length Q \<Longrightarrow> takes_many Q (take m (Q ! i)) (Q[i := drop m (Q ! i)])"
  by (rule takes_many_front) simp_all

lemma takes_many_length: "takes_many Q xs Q' \<Longrightarrow> length Q' = length Q"
  by (induction Q xs Q' rule: takes_many.induct) (auto simp: takes_def)

lemma takes_many_empty: "takes_many Q xs Q' \<Longrightarrow> Q ! i = [] \<Longrightarrow> Q' ! i = []"
proof (induction Q xs Q' rule: takes_many.induct)
  case (2 Q x xs Q')
  then obtain Q1 where Q1: "takes Q (Some x) Q1" "takes_many Q1 xs Q'" by auto
  then have "Q1 ! i = []" using 2(3) by (auto simp: takes_def nth_list_update)
  then show ?case using 2(1) Q1 by blast
qed simp

text \<open>What is left when an operation may take up to \<open>m\<close> elements: nothing, if it took fewer.\<close>

definition takes_up_to :: "nat \<Rightarrow> 'a list list \<Rightarrow> 'a list \<Rightarrow> 'a list list \<Rightarrow> bool" where
  "takes_up_to m Q xs Q' \<longleftrightarrow> takes_many Q xs Q' \<and> length xs \<le> m \<and> (length xs < m \<longrightarrow> (\<forall>ys \<in> set Q'. ys = []))"

lemma cq_same_trans: "cq_same q q1 \<Longrightarrow> cq_same q1 q2 \<Longrightarrow> cq_same q q2"
  by (simp add: cq_same_def)

lemma count_step:
  fixes maxCount count :: size_t
  assumes "d \<le> unat (maxCount - count)"
  shows "count + of_nat d = maxCount \<longleftrightarrow> d = unat (maxCount - count)" "unat (maxCount - (count + of_nat d)) = unat (maxCount - count) - d"
proof -
  let ?m = "maxCount - count"
  have d: "unat (of_nat d :: size_t) = d" using assms unsigned_less [of ?m, where 'a = nat] by (simp add: unat_of_nat)
  have "maxCount - (count + of_nat d) = ?m - of_nat d" by simp
  moreover have "unat (?m - of_nat d) = unat ?m - unat (of_nat d :: size_t)" by (rule unat_sub) (use assms d in \<open>simp add: word_le_nat_alt\<close>)
  ultimately show "unat (maxCount - (count + of_nat d)) = unat ?m - d" by (simp only: d)
  have "count + of_nat d = maxCount \<longleftrightarrow> ?m = of_nat d" by (auto simp: algebra_simps)
  also have "\<dots> \<longleftrightarrow> d = unat ?m" using d by (metis unat_inject)
  finally show "count + of_nat d = maxCount \<longleftrightarrow> d = unat ?m" .
qed

lemma dequeue_bulk_each_ok:
  "cq_ok k q \<Longrightarrow> n \<le> length (cq_producers q) \<Longrightarrow>
    \<exists>out q'. dequeue_bulk_each k maxCount count n q = Some (Inr (out, q')) \<and> cq_ok k q' \<and> cq_same q q' \<and> takes_many (cq_contents k q) out (cq_contents k q') \<and>
      length out \<le> unat (maxCount - count) \<and> (length out < unat (maxCount - count) \<longrightarrow> (\<forall>i < n. cq_contents k q' ! i = []))"
proof (induction n arbitrary: q count)
  case 0
  then show ?case by simp
next
  case (Suc i)
  let ?xs = "cq_contents k q ! i" and ?m = "unat (maxCount - count)"
  have i: "i < length (cq_producers q)" using Suc.prems(2) by simp
  obtain q1 where q1: "prod_dequeue_bulk k i (maxCount - count) q = Some (Inr (take ?m ?xs, q1))" "cq_ok k q1" "cq_contents k q1 = (cq_contents k q)[i := drop ?m ?xs]" "cq_same q q1"
    using prod_dequeue_bulk_ok [OF Suc.prems(1) i] by blast
  let ?d = "length (take ?m ?xs)"
  have d: "?d \<le> ?m" by simp
  note c = count_step [OF d]
  have t: "takes_many (cq_contents k q) (take ?m ?xs) (cq_contents k q1)" unfolding q1(3) using i by (intro takes_many_take) simp
  show ?case
  proof (cases "?d = ?m")
    case True
    then have "dequeue_bulk_each k maxCount count (Suc i) q = Some (Inr (take ?m ?xs, q1))" using q1(1) c(1) by (simp add: Let_def)
    then show ?thesis using q1(2,4) t True by auto
  next
    case False
    then have dr: "cq_contents k q1 ! i = []" "?d < ?m" using q1(3) i by auto
    have "i \<le> length (cq_producers q1)" using cq_same_length [OF q1(4)] i by simp
    from Suc.IH [OF q1(2) this, of "count + of_nat ?d"] obtain out q' where r: "dequeue_bulk_each k maxCount (count + of_nat ?d) i q1 = Some (Inr (out, q'))" "cq_ok k q'" "cq_same q1 q'"
      "takes_many (cq_contents k q1) out (cq_contents k q')" "length out \<le> ?m - ?d" "length out < ?m - ?d \<longrightarrow> (\<forall>j < i. cq_contents k q' ! j = [])"
      unfolding c(2) by blast
    have "dequeue_bulk_each k maxCount count (Suc i) q = Some (Inr (take ?m ?xs @ out, q'))"
      using c(1) False unfolding dequeue_bulk_each.simps q1(1) option.case sum.case prod.case Let_def by (simp only: if_False r(1)) simp
    moreover have "cq_contents k q' ! i = []" by (rule takes_many_empty [OF r(4) dr(1)])
    moreover have "length (take ?m ?xs @ out) \<le> ?m" using r(5) d by simp
    ultimately show ?thesis using r(2,6) takes_many_append [OF t r(4)] cq_same_trans [OF q1(4) r(3)] dr(2) by (auto simp: less_Suc_eq)
  qed
qed

lemma cq_try_dequeue_bulk_ok:
  assumes "cq_ok k q"
  shows "\<exists>out q'. cq_try_dequeue_bulk k maxCount q = Some (Inr (out, q')) \<and> cq_ok k q' \<and> cq_same q q' \<and> takes_up_to (unat maxCount) (cq_contents k q) out (cq_contents k q')"
proof -
  obtain out q' where r: "dequeue_bulk_each k maxCount 0 (length (cq_producers q)) q = Some (Inr (out, q'))" "cq_ok k q'" "cq_same q q'" "takes_many (cq_contents k q) out (cq_contents k q')"
    "length out \<le> unat (maxCount - 0)" "length out < unat (maxCount - 0) \<longrightarrow> (\<forall>i < length (cq_producers q). cq_contents k q' ! i = [])"
    using dequeue_bulk_each_ok [OF assms order.refl] by blast
  have "length (cq_contents k q') = length (cq_producers q)" using cq_same_length [OF r(3)] by simp
  then have "takes_up_to (unat maxCount) (cq_contents k q) out (cq_contents k q')" using r(4-6) by (auto simp: takes_up_to_def in_set_conv_nth)
  then show ?thesis using r(1-3) by (simp add: cq_try_dequeue_bulk_def)
qed

section \<open>Consumer tokens\<close>

definition total :: "'a list list \<Rightarrow> nat" where
  "total Q = sum_list (map length Q)"

lemma total_update: "i < length Q \<Longrightarrow> total (Q[i := ys]) + length (Q ! i) = total Q + length ys"
  by (induction Q arbitrary: i) (auto simp: total_def nth_Cons split: nat.splits)

lemma token_ok_current: "token_ok n t \<Longrightarrow> i < n \<Longrightarrow> token_ok n (t\<lparr>ct_currentProducer := Some i, ct_itemsConsumedFromCurrent := m\<rparr>)"
  by (auto simp: token_ok_def)

text \<open>The producers that have been visited since the current one gave elements are empty; the loop ends when they all are, or when it has enough.\<close>

lemma dequeue_bulk_around_ok:
  "cq_ok k q \<Longrightarrow> i < length (cq_producers q) \<Longrightarrow> c < length (cq_producers q) \<Longrightarrow> ct_currentProducer t = Some c \<Longrightarrow> token_ok (length (cq_producers q)) t \<Longrightarrow>
    \<forall>j < length (cq_producers q). j = c \<or> around_dist (length (cq_producers q)) c i < around_dist (length (cq_producers q)) c j \<longrightarrow> cq_contents k q ! j = [] \<Longrightarrow>
    \<exists>outs t' q'. dequeue_bulk_around k m (Some i) out t q = Some (Inr (out @ outs, t', q')) \<and> cq_ok k q' \<and> cq_same q q' \<and>
      token_ok (length (cq_producers q)) t' \<and> takes_up_to (unat m) (cq_contents k q) outs (cq_contents k q')"
proof (induction "total (cq_contents k q) * length (cq_producers q) + around_dist (length (cq_producers q)) c i" arbitrary: q i c t m out rule: less_induct)
  case less
  let ?n = "length (cq_producers q)" and ?xs = "cq_contents k q ! i" and ?m = "unat m"
  note vis = less.prems(6)
  note go = dequeue_bulk_around.simps [of k m "Some i" out t q]
  show ?case
  proof (cases "i = c")
    case True
    have c0: "around_dist ?n c c = 0" by (simp add: around_dist_def)
    have "cq_contents k q ! j = []" if "j < ?n" for j
      using vis that True c0 around_dist_0 [OF that less.prems(3)] by (cases "j = c") auto
    then have "\<forall>ys \<in> set (cq_contents k q). ys = []" by (auto simp: in_set_conv_nth)
    then have "takes_up_to ?m (cq_contents k q) [] (cq_contents k q)" by (simp add: takes_up_to_def)
    moreover have "dequeue_bulk_around k m (Some i) out t q = Some (Inr (out @ [], t, q))" using go True less.prems(4) by simp
    ultimately show ?thesis using less.prems(1,5) by fastforce
  next
    case ne: False
    let ?o = "take ?m ?xs" and ?d = "length (take ?m (cq_contents k q ! i))"
    obtain q1 where q1: "prod_dequeue_bulk k i m q = Some (Inr (?o, q1))" "cq_ok k q1" "cq_contents k q1 = (cq_contents k q)[i := drop ?m ?xs]" "cq_same q q1"
      using prod_dequeue_bulk_ok [OF less.prems(1,2)] by blast
    have n1: "length (cq_producers q1) = ?n" using cq_same_length [OF q1(4)] .
    have dm: "?d \<le> unat (m - 0)" by simp
    note cs = count_step [OF dm, unfolded add_0_left diff_0_right]
    have d0: "(of_nat ?d :: size_t) = 0 \<longleftrightarrow> ?d = 0"
    proof -
      have "unat (of_nat ?d :: size_t) = ?d" using dm unsigned_less [of m, where 'a = nat] by (simp add: unat_of_nat)
      then show ?thesis by (metis unat_0 unat_eq_zero)
    qed
    define t1 where "t1 = (if (of_nat ?d :: size_t) \<noteq> 0 then t\<lparr>ct_currentProducer := Some i, ct_itemsConsumedFromCurrent := ucast (of_nat ?d :: size_t)\<rparr> else t)"
    have t1: "token_ok ?n t1" using less.prems(2,5) token_ok_current by (auto simp: t1_def)
    have tk: "takes_many (cq_contents k q) ?o (cq_contents k q1)" unfolding q1(3) using less.prems(2) by (intro takes_many_take) simp
    have step: "dequeue_bulk_around k m (Some i) out t q =
       (if (of_nat ?d :: size_t) = m then Some (Inr (out @ ?o, t1, q1)) else dequeue_bulk_around k (m - of_nat ?d) (next_around q1 i) (out @ ?o) t1 q1)"
      using go q1(1) ne less.prems(4) by (simp add: Let_def t1_def)
    show ?thesis
    proof (cases "?d = ?m")
      case True
      then have "dequeue_bulk_around k m (Some i) out t q = Some (Inr (out @ ?o, t1, q1))" using step cs(1) by simp
      moreover have "takes_up_to ?m (cq_contents k q) ?o (cq_contents k q1)" using tk True by (simp add: takes_up_to_def)
      ultimately show ?thesis using q1(2,4) t1 by blast
    next
      case False
      then have lt: "?d < ?m" "(of_nat ?d :: size_t) \<noteq> m" using cs(1) by auto
      then have e1: "cq_contents k q1 ! i = []" "?d = length ?xs" using q1(3) less.prems(2) by auto
      define c1 where "c1 = (if ?d \<noteq> 0 then i else c)"
      have cur: "ct_currentProducer t1 = Some c1" "c1 < ?n" using d0 less.prems(2-4) by (auto simp: t1_def c1_def)
      obtain i1 where i1: "i1 < ?n" "next_around q1 i = Some i1"
        "if ?d \<noteq> 0 then Suc (around_dist ?n c1 i1) = ?n else Suc (around_dist ?n c i1) = around_dist ?n c i"
        using next_around_self [of i q1] next_around_dist [of i q1 c] less.prems(2,3) ne n1 by (auto simp: c1_def)
      have tot: "total (cq_contents k q1) + ?d = total (cq_contents k q)"
        using total_update [of i "cq_contents k q" "drop ?m ?xs"] less.prems(2) e1 lt(1) unfolding q1(3) by simp
      have dist: "total (cq_contents k q1) * ?n + around_dist ?n c1 i1 < total (cq_contents k q) * ?n + around_dist ?n c i"
      proof (cases "?d = 0")
        case True
        then show ?thesis using tot i1(3) by (simp add: c1_def)
      next
        case d: False
        have "Suc (total (cq_contents k q1)) * ?n \<le> total (cq_contents k q) * ?n" using tot d by (intro mult_le_mono1) linarith
        moreover have "around_dist ?n c1 i1 < ?n" using i1(3) d by simp
        ultimately show ?thesis by (simp only: mult_Suc)
      qed
      have vis1: "cq_contents k q1 ! j = []" if j: "j < ?n" "j = c1 \<or> around_dist ?n c1 i1 < around_dist ?n c1 j" for j
      proof (cases "?d = 0")
        case True
        then have same: "cq_contents k q1 = cq_contents k q" using q1(3) e1 by (metis drop_eq_Nil le0 length_0_conv list.size(3) list_update_id)
        have "c1 = c" "Suc (around_dist ?n c i1) = around_dist ?n c i" using i1(3) True by (simp_all only: c1_def not_True_eq_False not_not if_False simp_thms)
        then have "j = c \<or> around_dist ?n c i \<le> around_dist ?n c j" using j(2) by auto
        then have "j = c \<or> j = i \<or> around_dist ?n c i < around_dist ?n c j" using around_dist_inj [OF less.prems(2) j(1) less.prems(3)] by (auto simp: le_less)
        then show ?thesis using vis j(1) e1(1) unfolding same by blast
      next
        case d: False
        then have "c1 = i" by (simp add: c1_def)
        moreover have "\<not> around_dist ?n c1 i1 < around_dist ?n c1 j" using around_dist_less [OF j(1) cur(2)] i1(3) d by simp
        ultimately show ?thesis using j(2) e1(1) by simp
      qed
      have m1: "unat (m - of_nat ?d) = ?m - ?d" using cs(2) .
      have V: "\<forall>j < ?n. j = c1 \<or> around_dist ?n c1 i1 < around_dist ?n c1 j \<longrightarrow> cq_contents k q1 ! j = []" using vis1 by blast
      from less.hyps [of q1 c1 i1 t1 "m - of_nat ?d" "out @ ?o", unfolded n1, OF dist q1(2) i1(1) cur(2,1) t1 V] obtain outs t' q' where
        r: "dequeue_bulk_around k (m - of_nat ?d) (Some i1) (out @ ?o) t1 q1 = Some (Inr ((out @ ?o) @ outs, t', q'))" "cq_ok k q'" "cq_same q1 q'" "token_ok ?n t'"
          "takes_up_to (?m - ?d) (cq_contents k q1) outs (cq_contents k q')" unfolding m1 by blast
      have "takes_up_to ?m (cq_contents k q) (?o @ outs) (cq_contents k q')"
        using r(5) takes_many_append [OF tk] lt(1) unfolding takes_up_to_def by auto
      moreover have "dequeue_bulk_around k m (Some i) out t q = Some (Inr (out @ (?o @ outs), t', q'))" using step lt(2) i1(2) r(1) by simp
      ultimately show ?thesis using r(2,4) cq_same_trans [OF q1(4) r(3)] by blast
    qed
  qed
qed

lemma cq_bulk_current_ok:
  assumes q: "cq_ok k q" and c: "c < length (cq_producers q)" and t: "ct_currentProducer t = Some c" "token_ok (length (cq_producers q)) t"
    and u: "(if ct_desiredProducer t0 = None \<or> ct_lastKnownGlobalOffset t0 \<noteq> cq_globalExplicitConsumerOffset q
            then update_current_producer_after_rotation q t0 else Inr (True, t0)) = Inr (True, t)"
  shows "\<exists>out t' q'. cq_try_dequeue_bulk_token k quota m t0 q = Some (Inr (out, t', q')) \<and> cq_ok k q' \<and> map pr_inactive (cq_producers q') = map pr_inactive (cq_producers q) \<and>
    token_ok (length (cq_producers q)) t' \<and> takes_up_to (unat m) (cq_contents k q) out (cq_contents k q')"
proof -
  let ?n = "length (cq_producers q)" and ?m = "unat m" and ?xs = "cq_contents k q ! c"
  let ?o = "take ?m ?xs" and ?d = "length (take ?m (cq_contents k q ! c))"
  obtain q1 where q1: "prod_dequeue_bulk k c m q = Some (Inr (?o, q1))" "cq_ok k q1" "cq_contents k q1 = (cq_contents k q)[c := drop ?m ?xs]" "cq_same q q1"
    using prod_dequeue_bulk_ok [OF q c] by blast
  have n1: "length (cq_producers q1) = ?n" using cq_same_length [OF q1(4)] .
  have dm: "?d \<le> unat (m - 0)" by simp
  note cs = count_step [OF dm, unfolded add_0_left diff_0_right]
  let ?t = "t\<lparr>ct_itemsConsumedFromCurrent := ct_itemsConsumedFromCurrent t + ucast (of_nat ?d :: size_t)\<rparr>"
  have t1: "token_ok ?n ?t" "ct_currentProducer ?t = Some c" using t by (auto simp: token_ok_def)
  have tk: "takes_many (cq_contents k q) ?o (cq_contents k q1)" unfolding q1(3) using c by (intro takes_many_take) simp
  show ?thesis
  proof (cases "?d = ?m")
    case True
    let ?q = "if ct_itemsConsumedFromCurrent ?t \<ge> quota then q1\<lparr>cq_globalExplicitConsumerOffset := cq_globalExplicitConsumerOffset q1 + 1\<rparr> else q1"
    have "cq_try_dequeue_bulk_token k quota m t0 q = Some (Inr (?o, ?t, ?q))"
      using cs(1) True t(1) q1(1) unfolding cq_try_dequeue_bulk_token_def u by (simp add: Let_def)
    moreover have "cq_ok k ?q" "cq_contents k ?q = cq_contents k q1" "map pr_inactive (cq_producers ?q) = map pr_inactive (cq_producers q)" using q1(2,4) by (auto simp: cq_same_def)
    moreover have "takes_up_to ?m (cq_contents k q) ?o (cq_contents k q1)" using tk True by (simp add: takes_up_to_def)
    ultimately show ?thesis using t1(1) by metis
  next
    case False
    then have lt: "?d < ?m" "(of_nat ?d :: size_t) \<noteq> m" using cs(1) by auto
    then have e1: "cq_contents k q1 ! c = []" using q1(3) c by auto
    obtain i where i: "i < ?n" "next_around q1 c = Some i" "Suc (around_dist ?n c i) = ?n" using next_around_self [of c q1] c n1 by auto
    have vis: "\<forall>j < ?n. j = c \<or> around_dist ?n c i < around_dist ?n c j \<longrightarrow> cq_contents k q1 ! j = []"
    proof (intro allI impI)
      fix j assume j: "j < ?n" "j = c \<or> around_dist ?n c i < around_dist ?n c j"
      then have "j = c" using around_dist_less [OF j(1) c] i(3) by auto
      then show "cq_contents k q1 ! j = []" using e1 by simp
    qed
    have m1: "unat (m - of_nat ?d) = ?m - ?d" using cs(2) .
    from dequeue_bulk_around_ok [OF q1(2), unfolded n1, OF i(1) c t1(2,1) vis, of "m - of_nat ?d" ?o] obtain outs t' q' where
      r: "dequeue_bulk_around k (m - of_nat ?d) (Some i) ?o ?t q1 = Some (Inr (?o @ outs, t', q'))" "cq_ok k q'" "cq_same q1 q'" "token_ok ?n t'"
        "takes_up_to (?m - ?d) (cq_contents k q1) outs (cq_contents k q')" unfolding m1 by blast
    have "cq_try_dequeue_bulk_token k quota m t0 q = Some (Inr (?o @ outs, t', q'))"
      using lt(2) t(1) q1(1) i(2) r(1) unfolding cq_try_dequeue_bulk_token_def u by (simp add: Let_def)
    moreover have "takes_up_to ?m (cq_contents k q) (?o @ outs) (cq_contents k q')"
      using r(5) takes_many_append [OF tk] lt(1) unfolding takes_up_to_def by auto
    moreover have "map pr_inactive (cq_producers q') = map pr_inactive (cq_producers q)" using q1(4) r(3) by (simp add: cq_same_def)
    ultimately show ?thesis using r(2,4) by blast
  qed
qed

lemma cq_try_dequeue_bulk_token_ok:
  assumes q: "cq_ok k q" and t: "token_ok (length (cq_producers q)) t"
  shows "\<exists>out t' q'. cq_try_dequeue_bulk_token k quota m t q = Some (Inr (out, t', q')) \<and> cq_ok k q' \<and> map pr_inactive (cq_producers q') = map pr_inactive (cq_producers q) \<and>
    token_ok (length (cq_producers q)) t' \<and> takes_up_to (unat m) (cq_contents k q) out (cq_contents k q')"
proof (cases "ct_desiredProducer t = None \<or> ct_lastKnownGlobalOffset t \<noteq> cq_globalExplicitConsumerOffset q")
  case False
  then obtain c where "c < length (cq_producers q)" "ct_currentProducer t = Some c" using t by (auto simp: token_ok_def)
  then show ?thesis using False by (intro cq_bulk_current_ok [OF q _ _ t]) auto
next
  case True
  obtain b t' where b: "update_current_producer_after_rotation q t = Inr (b, t')" "token_ok (length (cq_producers q)) t'"
    "if b then ct_desiredProducer t' \<noteq> None else cq_producers q = [] \<and> t' = t" using update_current_ok [OF q t] by blast
  show ?thesis
  proof (cases b)
    case True': True
    then obtain c where "c < length (cq_producers q)" "ct_currentProducer t' = Some c" using b(2,3) by (auto simp: token_ok_def)
    then show ?thesis using True True' b by (intro cq_bulk_current_ok [OF q _ _ b(2)]) auto
  next
    case False
    then have e: "cq_producers q = []" "t' = t" using b(3) by auto
    then have "cq_contents k q = []" by (simp add: cq_contents_def)
    then have "takes_up_to (unat m) (cq_contents k q) [] (cq_contents k q)" by (simp add: takes_up_to_def)
    moreover have "cq_try_dequeue_bulk_token k quota m t q = Some (Inr ([], t, q))" using True b(1) False e by (simp add: cq_try_dequeue_bulk_token_def)
    ultimately show ?thesis using q t by blast
  qed
qed

section \<open>Programs with bulk operations\<close>

datatype 'a bulk_call =
    Call "'a cq_call" | EnqueueBulk bool nat "'a list" | TryDequeueBulk size_t | DequeueBulkFrom nat size_t | DequeueBulkWith nat size_t

datatype 'a bulk_event =
    Single "'a cq_event" | AcceptedBulk nat "'a list" | RefusedBulk nat "'a list" | TookBulk size_t "'a list" | TookBulkFrom nat size_t "'a list"

text \<open>What an event does to the list of queues.\<close>

inductive bq_step :: "'a list list \<Rightarrow> 'a bulk_event \<Rightarrow> 'a list list \<Rightarrow> bool" where
  single: "mq_step Q e Q' \<Longrightarrow> bq_step Q (Single e) Q'"
| accepted: "i < length Q \<Longrightarrow> bq_step Q (AcceptedBulk i ys) (Q[i := Q ! i @ ys])"
| refused: "i < length Q \<Longrightarrow> bq_step Q (RefusedBulk i ys) Q"
| took: "takes_up_to (unat m) Q xs Q' \<Longrightarrow> bq_step Q (TookBulk m xs) Q'"
| took_from: "i < length Q \<Longrightarrow> bq_step Q (TookBulkFrom i m (take (unat m) (Q ! i))) (Q[i := drop (unat m) (Q ! i)])"

inductive bq_run :: "'a list list \<Rightarrow> 'a bulk_event list \<Rightarrow> 'a list list \<Rightarrow> bool" where
  finish: "bq_run Q [] Q"
| step: "bq_step Q e Q' \<Longrightarrow> bq_run Q' es Q'' \<Longrightarrow> bq_run Q (e # es) Q''"

definition single :: "('a cq_event \<times> 'a client) result option \<Rightarrow> ('a bulk_event \<times> 'a client) result option" where
  "single r = map_option (map_sum id (\<lambda>(e, c). (Single e, c))) r"

fun bulk_exec :: "cq_traits \<Rightarrow> u32 \<Rightarrow> 'a bulk_call \<Rightarrow> 'a client \<Rightarrow> ('a bulk_event \<times> 'a client) result option" where
  "bulk_exec k quota (Call call) c = single (cq_exec k quota call c)"
| "bulk_exec k quota (EnqueueBulk canAlloc j ys) c =
     (if j < length (cl_producers c)
      then map_option (map_sum id (\<lambda>(b, q). (if b then AcceptedBulk (cl_producers c ! j) ys else RefusedBulk (cl_producers c ! j) ys, c\<lparr>cl_queue := q\<rparr>)))
             ((if canAlloc then cq_enqueue_bulk else cq_try_enqueue_bulk) k (Some (cl_producers c ! j)) ys (cl_queue c))
      else Some (Inr (Single Other, c)))"
| "bulk_exec k quota (TryDequeueBulk m) c =
     map_option (map_sum id (\<lambda>(out, q). (TookBulk m out, c\<lparr>cl_queue := q\<rparr>))) (cq_try_dequeue_bulk k m (cl_queue c))"
| "bulk_exec k quota (DequeueBulkFrom j m) c =
     (if j < length (cl_producers c)
      then map_option (map_sum id (\<lambda>(out, q). (TookBulkFrom (cl_producers c ! j) m out, c\<lparr>cl_queue := q\<rparr>)))
             (try_dequeue_bulk_from_producer k (Some (cl_producers c ! j)) m (cl_queue c))
      else Some (Inr (Single Other, c)))"
| "bulk_exec k quota (DequeueBulkWith j m) c =
     (if j < length (cl_consumers c)
      then map_option (map_sum id (\<lambda>(out, t, q). (TookBulk m out, c\<lparr>cl_queue := q, cl_consumers := (cl_consumers c)[j := t]\<rparr>)))
             (cq_try_dequeue_bulk_token k quota m (cl_consumers c ! j) (cl_queue c))
      else Some (Inr (Single Other, c)))"

text \<open>A program ends when a bulk of more than a block is refused: its producer must not be used any more.\<close>

fun big_refusal :: "cq_traits \<Rightarrow> 'a bulk_event \<Rightarrow> bool" where
  "big_refusal k (RefusedBulk i ys) \<longleftrightarrow> block_size k < length ys"
| "big_refusal k _ \<longleftrightarrow> False"

fun bulk_program :: "cq_traits \<Rightarrow> u32 \<Rightarrow> 'a bulk_call list \<Rightarrow> 'a client \<Rightarrow> ('a bulk_event list \<times> 'a client) result option" where
  "bulk_program k quota [] c = Some (Inr ([], c))"
| "bulk_program k quota (call # calls) c =
     (case bulk_exec k quota call c of
        None \<Rightarrow> None
      | Some (Inl err) \<Rightarrow> Some (Inl err)
      | Some (Inr (e, c)) \<Rightarrow>
          if big_refusal k e then Some (Inr ([e], c)) else map_option (map_sum id (\<lambda>(es, c). (e # es, c))) (bulk_program k quota calls c))"

fun call_size :: "'a bulk_call \<Rightarrow> nat" where
  "call_size (EnqueueBulk c j ys) = length ys"
| "call_size _ = 0"

text \<open>One call: a step of the list of queues, and what holds afterwards unless a large bulk was refused.\<close>

definition bulk_exec_ok :: "cq_traits \<Rightarrow> 'a client \<Rightarrow> ('a bulk_event \<times> 'a client) result option \<Rightarrow> bool" where
  "bulk_exec_ok k c s \<longleftrightarrow> (\<exists>e c' Q. s = Some (Inr (e, c')) \<and> bq_step (cq_contents k (cl_queue c)) e Q \<and>
     (\<not> big_refusal k e \<longrightarrow> cl_ok k c' \<and> cq_contents k (cl_queue c') = Q \<and> length (cq_producers (cl_queue c')) \<le> Suc (length (cq_producers (cl_queue c)))))"

lemma bulk_exec_okI:
  "s = Some (Inr (e, c')) \<Longrightarrow> cl_ok k c' \<Longrightarrow> bq_step (cq_contents k (cl_queue c)) e (cq_contents k (cl_queue c')) \<Longrightarrow>
    length (cq_producers (cl_queue c')) \<le> Suc (length (cq_producers (cl_queue c))) \<Longrightarrow> bulk_exec_ok k c s"
  by (auto simp: bulk_exec_ok_def)

lemma bulk_exec_other: "cl_ok k c \<Longrightarrow> bulk_exec_ok k c (Some (Inr (Single Other, c)))"
  by (rule bulk_exec_okI) (auto intro: bq_step.single mq_step.other)

lemma bulk_exec_queue:
  assumes c: "cl_ok k c" and q: "cq_ok k q'" "cq_same (cl_queue c) q'" and s: "s = Some (Inr (e, c\<lparr>cl_queue := q'\<rparr>))"
    and e: "bq_step (cq_contents k (cl_queue c)) e (cq_contents k q')"
  shows "bulk_exec_ok k c s"
proof (rule bulk_exec_okI [OF s])
  show "cl_ok k (c\<lparr>cl_queue := q'\<rparr>)" using cl_ok_queue [OF c q(1)] q(2) by (simp add: cq_same_def)
  show "length (cq_producers (cl_queue (c\<lparr>cl_queue := q'\<rparr>))) \<le> Suc (length (cq_producers (cl_queue c)))" using cq_same_length [OF q(2)] by simp
qed (use e in simp)

lemma cl_producer: "cl_ok k c \<Longrightarrow> j < length (cl_producers c) \<Longrightarrow> cq_ok k (cl_queue c) \<and> cl_producers c ! j < length (cq_producers (cl_queue c))"
  by (auto simp: cl_ok_def owned_def)

lemma enqueue_bulk_call:
  assumes c: "cl_ok k c" and m: "length ys \<le> 2 ^ 62" shows "bulk_exec_ok k c (bulk_exec k quota (EnqueueBulk a j ys) c)"
proof (cases "j < length (cl_producers c)")
  case True
  let ?i = "cl_producers c ! j"
  have q: "cq_ok k (cl_queue c)" and i: "?i < length (cq_producers (cl_queue c))" using cl_producer [OF c True] by blast+
  obtain b q' where r: "cq_inner_enqueue_bulk k a (Some ?i) ys (cl_queue c) = Some (Inr (b, q'))" "b \<or> length ys \<le> block_size k \<longrightarrow> cq_ok k q' \<and> cq_same (cl_queue c) q' \<and>
      cq_contents k q' = (if b then (cq_contents k (cl_queue c))[?i := cq_contents k (cl_queue c) ! ?i @ ys] else cq_contents k (cl_queue c))"
    using cq_inner_enqueue_bulk_ok [OF q i m] by blast
  let ?e = "if b then AcceptedBulk ?i ys else RefusedBulk ?i ys"
  have "(if a then cq_enqueue_bulk else cq_try_enqueue_bulk) k (Some ?i) ys (cl_queue c) = cq_inner_enqueue_bulk k a (Some ?i) ys (cl_queue c)"
    by (simp add: cq_enqueue_bulk_def cq_try_enqueue_bulk_def)
  then have run: "bulk_exec k quota (EnqueueBulk a j ys) c = Some (Inr (?e, c\<lparr>cl_queue := q'\<rparr>))" unfolding bulk_exec.simps using r(1) True by simp
  have st: "bq_step (cq_contents k (cl_queue c)) ?e (if b then (cq_contents k (cl_queue c))[?i := cq_contents k (cl_queue c) ! ?i @ ys] else cq_contents k (cl_queue c))"
    using i by (auto intro: bq_step.accepted bq_step.refused)
  show ?thesis
  proof (cases "b \<or> length ys \<le> block_size k")
    case True
    then show ?thesis using r(2) st by (intro bulk_exec_queue [OF c _ _ run]) simp_all
  next
    case False
    then have "big_refusal k ?e" by simp
    then show ?thesis using run st unfolding bulk_exec_ok_def by blast
  qed
qed (use c in \<open>simp add: bulk_exec_other\<close>)

lemma dequeue_bulk_from_call:
  assumes c: "cl_ok k c" shows "bulk_exec_ok k c (bulk_exec k quota (DequeueBulkFrom j m) c)"
proof (cases "j < length (cl_producers c)")
  case True
  let ?i = "cl_producers c ! j" and ?Q = "cq_contents k (cl_queue c)"
  have q: "cq_ok k (cl_queue c)" and i: "?i < length (cq_producers (cl_queue c))" using cl_producer [OF c True] by blast+
  obtain q' where r: "prod_dequeue_bulk k ?i m (cl_queue c) = Some (Inr (take (unat m) (?Q ! ?i), q'))" "cq_ok k q'" "cq_contents k q' = ?Q[?i := drop (unat m) (?Q ! ?i)]"
    "cq_same (cl_queue c) q'" using prod_dequeue_bulk_ok [OF q i] by blast
  have run: "bulk_exec k quota (DequeueBulkFrom j m) c = Some (Inr (TookBulkFrom ?i m (take (unat m) (?Q ! ?i)), c\<lparr>cl_queue := q'\<rparr>))"
    using True r(1) by (simp add: try_dequeue_bulk_from_producer_def)
  show ?thesis by (rule bulk_exec_queue [OF c r(2,4) run]) (use i r(3) in \<open>auto intro: bq_step.took_from\<close>)
qed (use c in \<open>simp add: bulk_exec_other\<close>)

lemma dequeue_bulk_with_call:
  assumes c: "cl_ok k c" shows "bulk_exec_ok k c (bulk_exec k quota (DequeueBulkWith j m) c)"
proof (cases "j < length (cl_consumers c)")
  case True
  let ?q = "cl_queue c"
  have q: "cq_ok k ?q" and t: "token_ok (length (cq_producers ?q)) (cl_consumers c ! j)" using c True by (auto simp: cl_ok_def)
  obtain out t' q' where r: "cq_try_dequeue_bulk_token k quota m (cl_consumers c ! j) ?q = Some (Inr (out, t', q'))" "cq_ok k q'"
    "map pr_inactive (cq_producers q') = map pr_inactive (cq_producers ?q)" "token_ok (length (cq_producers ?q)) t'" "takes_up_to (unat m) (cq_contents k ?q) out (cq_contents k q')"
    using cq_try_dequeue_bulk_token_ok [OF q t] by blast
  let ?c = "c\<lparr>cl_queue := q', cl_consumers := (cl_consumers c)[j := t']\<rparr>"
  have len: "length (cq_producers q') = length (cq_producers ?q)" using r(3) by (metis length_map)
  have "cl_ok k (c\<lparr>cl_queue := q'\<rparr>)" using cl_ok_queue [OF c r(2,3)] .
  then have "cl_ok k ?c" using r(4) len by (auto simp: cl_ok_def dest: set_update_subset_insert [THEN subsetD])
  then show ?thesis using r(1) True len bq_step.took [OF r(5)] by (intro bulk_exec_okI [where e = "TookBulk m out" and c' = ?c]) simp_all
qed (use c in \<open>simp add: bulk_exec_other\<close>)

lemma bulk_exec_call:
  assumes c: "cl_ok k c" and n: "Suc (length (cq_producers (cl_queue c))) < 2 ^ 32" and m: "call_size call \<le> 2 ^ 62"
  shows "bulk_exec_ok k c (bulk_exec k quota call c)"
proof (cases call)
  case (Call x)
  obtain e c' where "cq_exec k quota x c = Some (Inr (e, c'))" "cl_ok k c'" "mq_step (cq_contents k (cl_queue c)) e (cq_contents k (cl_queue c'))"
    "length (cq_producers (cl_queue c')) \<le> Suc (length (cq_producers (cl_queue c)))" using cq_exec_ok [OF c n, of quota x] by (auto simp: exec_ok_def)
  then show ?thesis unfolding Call by (intro bulk_exec_okI [where e = "Single e" and c' = c']) (auto simp: single_def intro: bq_step.single)
next
  case (TryDequeueBulk n)
  have q: "cq_ok k (cl_queue c)" using c by (simp add: cl_ok_def)
  obtain out q' where r: "cq_try_dequeue_bulk k n (cl_queue c) = Some (Inr (out, q'))" "cq_ok k q'" "cq_same (cl_queue c) q'"
    "takes_up_to (unat n) (cq_contents k (cl_queue c)) out (cq_contents k q')" using cq_try_dequeue_bulk_ok [OF q] by blast
  have run: "bulk_exec k quota call c = Some (Inr (TookBulk n out, c\<lparr>cl_queue := q'\<rparr>))" using r(1) TryDequeueBulk by simp
  show ?thesis by (rule bulk_exec_queue [OF c r(2,3) run]) (rule bq_step.took [OF r(4)])
qed (use c m in \<open>simp_all only: enqueue_bulk_call dequeue_bulk_from_call dequeue_bulk_with_call call_size.simps\<close>)

lemma bulk_program_ok:
  "cl_ok k c \<Longrightarrow> length (cq_producers (cl_queue c)) + length calls < 2 ^ 32 \<Longrightarrow> \<forall>call \<in> set calls. call_size call \<le> 2 ^ 62 \<Longrightarrow>
    \<exists>es c' Q. bulk_program k quota calls c = Some (Inr (es, c')) \<and> bq_run (cq_contents k (cl_queue c)) es Q \<and>
      ((\<exists>e \<in> set es. big_refusal k e) \<or> cl_ok k c' \<and> Q = cq_contents k (cl_queue c'))"
proof (induction calls arbitrary: c)
  case Nil
  then show ?case by (auto intro: bq_run.finish)
next
  case (Cons call calls)
  have "bulk_exec_ok k c (bulk_exec k quota call c)" using Cons.prems by (intro bulk_exec_call) simp_all
  then obtain e c1 Q where e: "bulk_exec k quota call c = Some (Inr (e, c1))" "bq_step (cq_contents k (cl_queue c)) e Q"
    "\<not> big_refusal k e \<longrightarrow> cl_ok k c1 \<and> cq_contents k (cl_queue c1) = Q \<and> length (cq_producers (cl_queue c1)) \<le> Suc (length (cq_producers (cl_queue c)))"
    unfolding bulk_exec_ok_def by blast
  show ?case
  proof (cases "big_refusal k e")
    case True
    then have "bulk_program k quota (call # calls) c = Some (Inr ([e], c1))" using e(1) by simp
    moreover have "bq_run (cq_contents k (cl_queue c)) [e] Q" using e(2) by (auto intro: bq_run.intros)
    ultimately show ?thesis using True by fastforce
  next
    case False
    have "length (cq_producers (cl_queue c1)) + length calls < 2 ^ 32" using e(3) False Cons.prems(2) by simp
    with Cons.IH [of c1] e(3) False Cons.prems(3) obtain es c' Q' where r: "bulk_program k quota calls c1 = Some (Inr (es, c'))" "bq_run Q es Q'"
      "(\<exists>e \<in> set es. big_refusal k e) \<or> cl_ok k c' \<and> Q' = cq_contents k (cl_queue c')" by auto
    have "bulk_program k quota (call # calls) c = Some (Inr (e # es, c'))" using e(1) r(1) False by simp
    then show ?thesis using bq_run.step [OF e(2) r(2)] r(3) by fastforce
  qed
qed

text \<open>
  C10. Programs with bulk operations: every program with fewer than \<open>2 ^ 32\<close> calls, up to the first refusal of a bulk of more than a block, runs without an assertion
  failing or undefined behaviour, and what it sees is a run of the abstract list of queues. A bulk is accepted as a whole, behind one of the queues, or
  not at all. Taking up to \<open>m\<close> elements, with or without a token, takes them one after the other from the fronts of queues, and gives fewer than \<open>m\<close>
  only when all queues are empty afterwards. The destructor gives all memory back.
\<close>
theorem bulk_queue_refines:
  assumes k: "cq_traits_ok k" and n: "length calls < 2 ^ 32" "\<forall>call \<in> set calls. call_size call \<le> 2 ^ 62"
  shows "\<exists>es c' Q. bulk_program k quota calls (cl_new (ConcurrentQueue k ok capacity)) = Some (Inr (es, c')) \<and> bq_run [] es Q \<and>
    ((\<exists>e \<in> set es. big_refusal k e) \<or> Q = cq_contents k (cl_queue c') \<and> distinct (cl_producers c') \<and> cq_dtor k (cl_queue c') = Some (Inr Map.empty))"
proof -
  let ?c = "cl_new (ConcurrentQueue k ok capacity) :: 'a client"
  have "length (cq_producers (cl_queue ?c)) + length calls < 2 ^ 32" "cq_contents k (cl_queue ?c) = []" using cl_new_ok(2,3) [OF k, where 'a = 'a, of ok capacity] n(1) by (simp_all add: cl_new_def)
  with bulk_program_ok [OF cl_new_ok(1) [OF k, where 'a = 'a] _ n(2)] obtain es c' Q where r: "bulk_program k quota calls ?c = Some (Inr (es, c'))" "bq_run [] es Q"
    "(\<exists>e \<in> set es. big_refusal k e) \<or> cl_ok k c' \<and> Q = cq_contents k (cl_queue c')" by metis
  moreover have "distinct (cl_producers c') \<and> cq_dtor k (cl_queue c') = Some (Inr Map.empty)" if "cl_ok k c'"
    using that cq_dtor_ok [of k "cl_queue c'"] by (auto simp: cl_ok_def)
  ultimately show ?thesis by blast
qed

section \<open>An example\<close>

declare dequeue_around.simps [code] dequeue_bulk_around.simps [code]

definition demo_bulk_calls :: "int bulk_call list" where
  "demo_bulk_calls = [Call (NewProducer True), EnqueueBulk True 0 [1, 2, 3, 4, 5, 6], TryDequeueBulk 4, EnqueueBulk False 0 [7], DequeueBulkFrom 0 9]"

lemma demo_program_run:
  "map_option (map_sum id fst) (bulk_program traits4 256 demo_bulk_calls (cl_new (ConcurrentQueue traits4 False 0))) =
   Some (Inr [Single (Created 0), AcceptedBulk 0 [1, 2, 3, 4, 5, 6], TookBulk 4 [1, 2, 3, 4], AcceptedBulk 0 [7], TookBulkFrom 0 9 [5, 6, 7]])"
  by code_simp

theorem bulk_queue_refines_witness:
  "\<exists>es c' Q. bulk_program traits4 256 demo_bulk_calls (cl_new (ConcurrentQueue traits4 False 0)) = Some (Inr (es, c')) \<and>
     es = [Single (Created 0), AcceptedBulk 0 [1, 2, 3, 4, 5, 6], TookBulk 4 [1, 2, 3, 4], AcceptedBulk 0 [7], TookBulkFrom 0 9 [5, 6, 7]] \<and>
     bq_run [] es Q \<and> Q = cq_contents traits4 (cl_queue (c' :: int client)) \<and> cq_dtor traits4 (cl_queue c') = Some (Inr Map.empty)"
proof -
  have n: "length demo_bulk_calls < 2 ^ 32" "\<forall>call \<in> set demo_bulk_calls. call_size call \<le> 2 ^ 62" by (simp_all add: demo_bulk_calls_def)
  note ok = bulk_queue_refines [OF traits4_all_ok n, of 256 False 0]
  then obtain es c' Q where r: "bulk_program traits4 256 demo_bulk_calls (cl_new (ConcurrentQueue traits4 False 0)) = Some (Inr (es, c'))" "bq_run [] es Q"
    "(\<exists>e \<in> set es. big_refusal traits4 e) \<or> Q = cq_contents traits4 (cl_queue c') \<and> distinct (cl_producers c') \<and> cq_dtor traits4 (cl_queue c') = Some (Inr Map.empty)"
    by (elim exE conjE) (rule that; assumption)
  have es: "es = [Single (Created 0), AcceptedBulk 0 [1, 2, 3, 4, 5, 6], TookBulk 4 [1, 2, 3, 4], AcceptedBulk 0 [7], TookBulkFrom 0 9 [5, 6, 7]]" using demo_program_run unfolding r(1) by simp
  have "\<not> (\<exists>e \<in> set es. big_refusal traits4 e)" unfolding es by simp
  with r(3) have "Q = cq_contents traits4 (cl_queue c') \<and> cq_dtor traits4 (cl_queue c') = Some (Inr Map.empty)" by (elim disjE) simp_all
  with r(1,2) es show ?thesis by blast
qed

end
