(* ===== verification/CQ_Blocking.thy ===== *)
theory CQ_Blocking
  imports CQ_Bulk_Client Blocking
begin

text \<open>
  \<open>BlockingConcurrentQueue\<close> (\<^verbatim>\<open>concurrentqueue/blockingconcurrentqueue.h\<close>), as one thread sees it: a \<open>ConcurrentQueue\<close> and a
  \<open>LightweightSemaphore\<close> that counts its elements. A call that waits for ever is \<open>None\<close>.
\<close>

section \<open>The object\<close>

type_synonym 'a bcq = "('a cqueue, lw_sema option) blocking"

text \<open>\<open>semaAllocated\<close> says whether \<open>create\<close> gets memory for the semaphore.\<close>

definition bcq_create :: "bool \<Rightarrow> 'a cqueue \<Rightarrow> 'a bcq result" where
  "bcq_create semaAllocated q =
     (if \<not> semaAllocated then Inl BadAlloc
      else case LightweightSemaphore 0 of Inl err \<Rightarrow> Inl err | Inr s \<Rightarrow> Inr \<lparr>inner = q, sema = Some s\<rparr>)"

definition BlockingConcurrentQueue :: "cq_traits \<Rightarrow> bool \<Rightarrow> bool \<Rightarrow> size_t \<Rightarrow> 'a bcq result" where
  "BlockingConcurrentQueue k arrayAllocated semaAllocated capacity = bcq_create semaAllocated (ConcurrentQueue k arrayAllocated capacity)"

definition BlockingConcurrentQueue3 :: "cq_traits \<Rightarrow> bool \<Rightarrow> bool \<Rightarrow> size_t \<Rightarrow> size_t \<Rightarrow> size_t \<Rightarrow> 'a bcq result" where
  "BlockingConcurrentQueue3 k arrayAllocated semaAllocated minCapacity maxExplicitProducers maxImplicitProducers =
     bcq_create semaAllocated (ConcurrentQueue3 k arrayAllocated minCapacity maxExplicitProducers maxImplicitProducers)"

text \<open>The semaphore is moved away: the other object has none afterwards.\<close>

definition bcq_move :: "cq_traits \<Rightarrow> 'a bcq \<Rightarrow> 'a bcq \<times> 'a bcq" where
  "bcq_move k other = (case cq_move k (inner other) of (q, rest) \<Rightarrow> (\<lparr>inner = q, sema = sema other\<rparr>, \<lparr>inner = rest, sema = None\<rparr>))"

definition bcq_swap :: "'a bcq \<Rightarrow> 'a bcq \<Rightarrow> 'a bcq \<times> 'a bcq" where
  "bcq_swap b other = (case cq_swap (inner b) (inner other) of (q, q') \<Rightarrow> (\<lparr>inner = q, sema = sema other\<rparr>, \<lparr>inner = q', sema = sema b\<rparr>))"

definition bcq_size_approx :: "'a bcq \<Rightarrow> size_t result" where
  "bcq_size_approx b = (case sema b of None \<Rightarrow> Inl (UndefinedBehaviour ''sema'') | Some s \<Rightarrow> Inr (of_nat (availableApprox s)))"

section \<open>Enqueueing\<close>

text \<open>\<open>if (inner.enqueue...) { assert(static_cast<ssize_t>(count) >= 0); sema->signal(count); return true; } return false;\<close>\<close>

definition bcq_put :: "size_t \<Rightarrow> ('a cqueue \<Rightarrow> (bool \<times> 'a cqueue) result option) \<Rightarrow> 'a bcq \<Rightarrow> (bool \<times> 'a bcq) result option" where
  "bcq_put count enq b =
     (case enq (inner b) of
        None \<Rightarrow> None
      | Some (Inl err) \<Rightarrow> Some (Inl err)
      | Some (Inr (False, q)) \<Rightarrow> Some (Inr (False, b\<lparr>inner := q\<rparr>))
      | Some (Inr (True, q)) \<Rightarrow>
          Some (if sint count < 0 then Inl (AssertFailed ''static_cast<ssize_t>(count) >= 0'')
                else map_sum id (\<lambda>s. (True, \<lparr>inner = q, sema = s\<rparr>)) (ptr_signal (mp_signal (sint count)) (sema b))))"

definition bcq_enqueue :: "cq_traits \<Rightarrow> nat option \<Rightarrow> 'a \<Rightarrow> 'a bcq \<Rightarrow> (bool \<times> 'a bcq) result option" where
  "bcq_enqueue k token x = bcq_put 1 (cq_enqueue k token x)"

definition bcq_try_enqueue :: "cq_traits \<Rightarrow> nat option \<Rightarrow> 'a \<Rightarrow> 'a bcq \<Rightarrow> (bool \<times> 'a bcq) result option" where
  "bcq_try_enqueue k token x = bcq_put 1 (cq_try_enqueue k token x)"

definition bcq_enqueue_bulk :: "cq_traits \<Rightarrow> nat option \<Rightarrow> 'a list \<Rightarrow> 'a bcq \<Rightarrow> (bool \<times> 'a bcq) result option" where
  "bcq_enqueue_bulk k token items = bcq_put (of_nat (length items)) (cq_enqueue_bulk k token items)"

definition bcq_try_enqueue_bulk :: "cq_traits \<Rightarrow> nat option \<Rightarrow> 'a list \<Rightarrow> 'a bcq \<Rightarrow> (bool \<times> 'a bcq) result option" where
  "bcq_try_enqueue_bulk k token items = bcq_put (of_nat (length items)) (cq_try_enqueue_bulk k token items)"

text \<open>Without a token, when implicit production is off: refused, and nothing is signalled.\<close>

definition bcq_enqueue_implicit :: "'a \<Rightarrow> 'a bcq \<Rightarrow> (bool \<times> 'a bcq) result option" where
  "bcq_enqueue_implicit x = bcq_put 1 (\<lambda>q. Some (Inr (cq_enqueue_implicit x q)))"

definition bcq_enqueue_bulk_implicit :: "'a list \<Rightarrow> 'a bcq \<Rightarrow> (bool \<times> 'a bcq) result option" where
  "bcq_enqueue_bulk_implicit items = bcq_put (of_nat (length items)) (\<lambda>q. Some (Inr (cq_enqueue_bulk_implicit items q)))"

section \<open>Dequeueing\<close>

text \<open>The members exist without and with a consumer token: what they do with the inner queue is a function of both.\<close>

type_synonym ('a, 't) getter = "'t \<times> 'a cqueue \<Rightarrow> ('a option \<times> 't \<times> 'a cqueue) result option"
type_synonym ('a, 't) bulk_getter = "size_t \<Rightarrow> 't \<times> 'a cqueue \<Rightarrow> ('a list \<times> 't \<times> 'a cqueue) result option"

definition get_any :: "cq_traits \<Rightarrow> ('a, unit) getter" where
  "get_any k = (\<lambda>(t, q). Some (map_sum id (\<lambda>(r, q). (r, t, q)) (cq_try_dequeue k q)))"

definition get_token :: "cq_traits \<Rightarrow> u32 \<Rightarrow> ('a, consumer_token) getter" where
  "get_token k quota = (\<lambda>(t, q). cq_try_dequeue_token k quota t q)"

definition get_bulk_any :: "cq_traits \<Rightarrow> ('a, unit) bulk_getter" where
  "get_bulk_any k m = (\<lambda>(t, q). map_option (map_sum id (\<lambda>(out, q). (out, t, q))) (cq_try_dequeue_bulk k m q))"

definition get_bulk_token :: "cq_traits \<Rightarrow> u32 \<Rightarrow> ('a, consumer_token) bulk_getter" where
  "get_bulk_token k quota m = (\<lambda>(t, q). cq_try_dequeue_bulk_token k quota m t q)"

text \<open>\<open>while (!inner.try_dequeue(item)) continue;\<close>\<close>

partial_function (option) dequeue_until :: "('s \<Rightarrow> ('r option \<times> 's) result option) \<Rightarrow> 's \<Rightarrow> ('r \<times> 's) result option" where
  "dequeue_until get st =
     (case get st of
        None \<Rightarrow> None
      | Some (Inl err) \<Rightarrow> Some (Inl err)
      | Some (Inr (Some x, st)) \<Rightarrow> Some (Inr (x, st))
      | Some (Inr (None, st)) \<Rightarrow> dequeue_until get st)"

text \<open>\<open>while (count != max) count += inner.try_dequeue_bulk(itemFirst, max - count);\<close>\<close>

partial_function (option) dequeue_bulk_until ::
    "(size_t \<Rightarrow> 's \<Rightarrow> ('r list \<times> 's) result option) \<Rightarrow> size_t \<Rightarrow> size_t \<Rightarrow> 'r list \<Rightarrow> 's \<Rightarrow> ('r list \<times> 's) result option" where
  "dequeue_bulk_until get maxCount count out st =
     (if count = maxCount then Some (Inr (out, st))
      else case get (maxCount - count) st of
             None \<Rightarrow> None
           | Some (Inl err) \<Rightarrow> Some (Inl err)
           | Some (Inr (outs, st)) \<Rightarrow> dequeue_bulk_until get maxCount (count + of_nat (length outs)) (out @ outs) st)"

definition sema_do :: "(lw_sema \<Rightarrow> ('r \<times> lw_sema) result option) \<Rightarrow> lw_sema option \<Rightarrow> ('r \<times> lw_sema option) result option" where
  "sema_do wait p =
     (case p of None \<Rightarrow> Some (Inl (UndefinedBehaviour ''sema'')) | Some s \<Rightarrow> map_option (map_sum id (\<lambda>(r, s). (r, Some s))) (wait s))"

definition bcq_take :: "(lw_sema \<Rightarrow> (bool \<times> lw_sema) result option) \<Rightarrow> ('a, 't) getter \<Rightarrow> 't \<Rightarrow> 'a bcq \<Rightarrow> ('a option \<times> 't \<times> 'a bcq) result option" where
  "bcq_take wait get t b =
     (case sema_do wait (sema b) of
        None \<Rightarrow> None
      | Some (Inl err) \<Rightarrow> Some (Inl err)
      | Some (Inr (False, s)) \<Rightarrow> Some (Inr (None, t, b\<lparr>sema := s\<rparr>))
      | Some (Inr (True, s)) \<Rightarrow> map_option (map_sum id (\<lambda>(x, t, q). (Some x, t, \<lparr>inner = q, sema = s\<rparr>))) (dequeue_until get (t, inner b)))"

definition bcq_take_bulk ::
    "(int \<Rightarrow> lw_sema \<Rightarrow> (int \<times> lw_sema) result option) \<Rightarrow> ('a, 't) bulk_getter \<Rightarrow> size_t \<Rightarrow> 't \<Rightarrow> 'a bcq \<Rightarrow> ('a list \<times> 't \<times> 'a bcq) result option" where
  "bcq_take_bulk wait get maxCount t b =
     (if sint maxCount < 0 then Some (Inl (AssertFailed ''static_cast<ssize_t>(max) >= 0''))
      else case sema_do (wait (sint maxCount)) (sema b) of
        None \<Rightarrow> None
      | Some (Inl err) \<Rightarrow> Some (Inl err)
      | Some (Inr (n, s)) \<Rightarrow>
          map_option (map_sum id (\<lambda>(out, t, q). (out, t, \<lparr>inner = q, sema = s\<rparr>))) (dequeue_bulk_until get (word_of_int n) 0 [] (t, inner b)))"

definition bcq_try_dequeue :: "('a, 't) getter \<Rightarrow> 't \<Rightarrow> 'a bcq \<Rightarrow> ('a option \<times> 't \<times> 'a bcq) result option" where
  "bcq_try_dequeue = bcq_take (\<lambda>s. Some (Inr (mp_tryWait s)))"

text \<open>\<open>maxSpins\<close> is \<open>MAX_SEMA_SPINS\<close>.\<close>

definition bcq_wait_dequeue :: "nat \<Rightarrow> ('a, 't) getter \<Rightarrow> 't \<Rightarrow> 'a bcq \<Rightarrow> ('a option \<times> 't \<times> 'a bcq) result option" where
  "bcq_wait_dequeue maxSpins = bcq_take (wait_loop (\<lambda>s. map_option Inr (mp_wait maxSpins (- 1) s)))"

definition bcq_wait_dequeue_timed :: "nat \<Rightarrow> int \<Rightarrow> ('a, 't) getter \<Rightarrow> 't \<Rightarrow> 'a bcq \<Rightarrow> ('a option \<times> 't \<times> 'a bcq) result option" where
  "bcq_wait_dequeue_timed maxSpins timeout_usecs = bcq_take (\<lambda>s. map_option Inr (mp_wait maxSpins timeout_usecs s))"

definition bcq_try_dequeue_bulk :: "('a, 't) bulk_getter \<Rightarrow> size_t \<Rightarrow> 't \<Rightarrow> 'a bcq \<Rightarrow> ('a list \<times> 't \<times> 'a bcq) result option" where
  "bcq_try_dequeue_bulk = bcq_take_bulk (\<lambda>n s. Some (mp_tryWaitMany n s))"

definition bcq_wait_dequeue_bulk :: "nat \<Rightarrow> ('a, 't) bulk_getter \<Rightarrow> size_t \<Rightarrow> 't \<Rightarrow> 'a bcq \<Rightarrow> ('a list \<times> 't \<times> 'a bcq) result option" where
  "bcq_wait_dequeue_bulk maxSpins = bcq_take_bulk (mp_waitMany_untimed maxSpins)"

definition bcq_wait_dequeue_bulk_timed :: "nat \<Rightarrow> int \<Rightarrow> ('a, 't) bulk_getter \<Rightarrow> size_t \<Rightarrow> 't \<Rightarrow> 'a bcq \<Rightarrow> ('a list \<times> 't \<times> 'a bcq) result option" where
  "bcq_wait_dequeue_bulk_timed maxSpins timeout_usecs = bcq_take_bulk (\<lambda>n. mp_waitMany maxSpins n timeout_usecs)"

section \<open>The semaphore counts the elements\<close>

definition bcq_ok :: "cq_traits \<Rightarrow> 'a bcq \<Rightarrow> bool" where
  "bcq_ok k b \<longleftrightarrow> cq_ok k (inner b) \<and> sema b = Some \<lparr>m_count = int (total (cq_contents k (inner b))), m_sema = 0\<rparr>"

lemma total_takes: "takes Q (Some x) Q' \<Longrightarrow> total Q = Suc (total Q')"
proof -
  assume "takes Q (Some x) Q'"
  then obtain i ys where "i < length Q" "Q ! i = x # ys" "Q' = Q[i := ys]" by (auto simp: takes_def)
  then show ?thesis using total_update [of i Q ys] by simp
qed

lemma total_takes_many: "takes_many Q xs Q' \<Longrightarrow> total Q = length xs + total Q'"
proof (induction Q xs Q' rule: takes_many.induct)
  case (2 Q x xs Q')
  then obtain Q1 where Q1: "takes Q (Some x) Q1" "takes_many Q1 xs Q'" by auto
  show ?case using total_takes [OF Q1(1)] 2(1) [OF Q1(2)] by simp
qed simp

lemma total_0: "total Q = 0 \<longleftrightarrow> (\<forall>xs \<in> set Q. xs = [])"
  by (simp add: total_def)

lemma takes_up_to_all: "takes_up_to m Q xs Q' \<Longrightarrow> length xs = min m (total Q)"
proof -
  assume t: "takes_up_to m Q xs Q'"
  have "total Q = length xs + total Q'" using t total_takes_many by (auto simp: takes_up_to_def)
  moreover have "length xs \<le> m" "length xs < m \<longrightarrow> total Q' = 0" using t total_0 [of Q'] by (auto simp: takes_up_to_def)
  ultimately show ?thesis by linarith
qed

text \<open>The three ways to wait: whether they take a unit and whether they wait for ever when there is none.\<close>

definition waits :: "bool \<Rightarrow> (lw_sema \<Rightarrow> (bool \<times> lw_sema) result option) \<Rightarrow> bool" where
  "waits forever w \<longleftrightarrow> (\<forall>n. w \<lparr>m_count = int n, m_sema = 0\<rparr> =
     (if 0 < n then Some (Inr (True, \<lparr>m_count = int n - 1, m_sema = 0\<rparr>)) else if forever then None else Some (Inr (False, \<lparr>m_count = 0, m_sema = 0\<rparr>))))"

definition waits_many :: "bool \<Rightarrow> nat \<Rightarrow> (int \<Rightarrow> lw_sema \<Rightarrow> (int \<times> lw_sema) result option) \<Rightarrow> bool" where
  "waits_many forever m w \<longleftrightarrow> (\<forall>n. w (int m) \<lparr>m_count = int n, m_sema = 0\<rparr> =
     (if forever \<and> n = 0 \<and> 0 < m then None else Some (Inr (int (min m n), \<lparr>m_count = int (n - m), m_sema = 0\<rparr>))))"

lemma wait_quiet:
  "mp_wait k t \<lparr>m_count = int n, m_sema = 0\<rparr> = (if 0 < n then Some (True, \<lparr>m_count = int n - 1, m_sema = 0\<rparr>) else if t < 0 then None else Some (False, \<lparr>m_count = 0, m_sema = 0\<rparr>))"
  by (simp add: mp_wait_alone lw_quiet_def)

lemma waits_try: "waits False (\<lambda>s. Some (Inr (mp_tryWait s)))"
  by (simp add: waits_def mp_tryWait_def)

lemma waits_timed: "waits (t < 0) (\<lambda>s. map_option Inr (mp_wait k t s))"
  by (simp add: waits_def wait_quiet)

lemma waits_loop: "waits True (wait_loop (\<lambda>s. map_option Inr (mp_wait k (- 1) s)))"
  by (simp add: waits_def wait_loop.simps wait_quiet)

lemma waits_many_try: "waits_many False m (\<lambda>n s. Some (mp_tryWaitMany n s))"
  by (auto simp: waits_many_def mp_tryWaitMany_def mp_take_def min_def of_nat_diff Let_def)

lemma waits_many_timed: "waits_many (t < 0) m (\<lambda>n. mp_waitMany k n t)"
proof -
  have "mp_waitMany k (int m) t \<lparr>m_count = int n, m_sema = 0\<rparr> =
     (if t < 0 \<and> n = 0 \<and> 0 < m then None else Some (Inr (int (min m n), \<lparr>m_count = int (n - m), m_sema = 0\<rparr>)))" for n
  proof (cases "0 < m")
    case True
    then show ?thesis by (auto simp: mp_waitMany_alone lw_quiet_def min_def of_nat_diff)
  next
    case False
    then show ?thesis by (simp add: mp_waitMany_def mp_tryWaitMany_def mp_take_def Let_def)
  qed
  then show ?thesis by (simp add: waits_many_def)
qed

lemma waits_many_untimed:
  assumes m: "0 < m" shows "waits_many True m (mp_waitMany_untimed k)"
proof -
  have "mp_waitMany k (int m) (- 1) \<lparr>m_count = int n, m_sema = 0\<rparr> =
     (if n = 0 then None else Some (Inr (int (min m n), \<lparr>m_count = int (n - m), m_sema = 0\<rparr>)))" for n
    using waits_many_timed [of "- 1" m k] m by (simp add: waits_many_def)
  then show ?thesis using m by (auto simp: waits_many_def mp_waitMany_untimed_def min_def)
qed

lemma waits_many_untimed_0:
  "mp_waitMany_untimed k 0 \<lparr>m_count = int n, m_sema = 0\<rparr> = Some (Inl (AssertFailed ''result > 0''))"
proof -
  have "mp_waitMany k (int 0) (- 1) \<lparr>m_count = int n, m_sema = 0\<rparr> = Some (Inr (0, \<lparr>m_count = int n, m_sema = 0\<rparr>))"
    using waits_many_timed [of "- 1" 0 k] by (simp only: waits_many_def) simp
  then show ?thesis by (simp add: mp_waitMany_untimed_def)
qed

end
