(* ===== verification/CQ_Blocking_Client.thy ===== *)
theory CQ_Blocking_Client
  imports CQ_Blocking
begin

text \<open>
  What \<open>BlockingConcurrentQueue\<close> promises: its semaphore counts the elements of the inner queue, so that a unit that was taken is always
  answered by an element, and programs see the same list of queues as those on \<open>ConcurrentQueue\<close> (\<open>CQ_Bulk_Client\<close>); a call waits for
  ever exactly when all queues are empty and it has no time limit.
\<close>

section \<open>One operation\<close>

lemma bcq_okD:
  assumes "bcq_ok k b"
  obtains "cq_ok k (inner b)" "sema b = Some \<lparr>m_count = int (total (cq_contents k (inner b))), m_sema = 0\<rparr>"
  using assms by (simp add: bcq_ok_def)

lemma bcq_put_ok:
  assumes b: "bcq_ok k b" and e: "enq (inner b) = Some (Inr (r, q'))" and n: "sint count = int n"
    and Q: "r \<Longrightarrow> total (cq_contents k q') = total (cq_contents k (inner b)) + n"
  shows "bcq_put count enq b = Some (Inr (r, if r then \<lparr>inner = q', sema = Some \<lparr>m_count = int (total (cq_contents k q')), m_sema = 0\<rparr>\<rparr> else b\<lparr>inner := q'\<rparr>))"
proof (cases r)
  case True
  have "mp_signal (int n) \<lparr>m_count = int (total (cq_contents k (inner b))), m_sema = 0\<rparr> = Inr \<lparr>m_count = int (total (cq_contents k q')), m_sema = 0\<rparr>"
    using Q [OF True] by (simp add: mp_signal_def Let_def)
  then show ?thesis using b e n True by (simp add: bcq_put_def bcq_ok_def ptr_signal_def)
qed (use e in \<open>simp add: bcq_put_def\<close>)

lemma bcq_take_ok:
  assumes w: "waits forever w" and b: "bcq_ok k b" and g: "get (t, inner b) = Some (Inr (r, t', q'))" and Q: "takes (cq_contents k (inner b)) r (cq_contents k q')"
  shows "bcq_take w get t b = (if total (cq_contents k (inner b)) = 0 then if forever then None else Some (Inr (None, t, b))
    else Some (Inr (r, t', \<lparr>inner = q', sema = Some \<lparr>m_count = int (total (cq_contents k q')), m_sema = 0\<rparr>\<rparr>)))"
proof (cases "total (cq_contents k (inner b)) = 0")
  case True
  then have "sema b = Some \<lparr>m_count = 0, m_sema = 0\<rparr>" "w \<lparr>m_count = 0, m_sema = 0\<rparr> = (if forever then None else Some (Inr (False, \<lparr>m_count = 0, m_sema = 0\<rparr>)))"
    using b w [unfolded waits_def, THEN spec, of 0] by (simp_all add: bcq_ok_def)
  then show ?thesis using True by (cases b) (simp add: bcq_take_def sema_do_def)
next
  case False
  then have "r \<noteq> None" using Q by (cases r) (auto simp: takes_def total_0)
  then obtain x where x: "r = Some x" by auto
  then have tot: "total (cq_contents k (inner b)) = Suc (total (cq_contents k q'))" using Q total_takes by auto
  have "sema b = Some \<lparr>m_count = int (Suc (total (cq_contents k q'))), m_sema = 0\<rparr>" using b tot by (simp add: bcq_ok_def)
  moreover have "w \<lparr>m_count = int (Suc (total (cq_contents k q'))), m_sema = 0\<rparr> = Some (Inr (True, \<lparr>m_count = int (total (cq_contents k q')), m_sema = 0\<rparr>))"
    using w [unfolded waits_def, THEN spec, of "Suc (total (cq_contents k q'))"] by simp
  moreover have "dequeue_until get (t, inner b) = Some (Inr (x, t', q'))" using g x by (subst dequeue_until.simps) simp
  ultimately show ?thesis using False x by (simp add: bcq_take_def sema_do_def)
qed

lemma takes_up_to_min: "takes_up_to (min m (total Q)) Q xs Q' \<Longrightarrow> takes_up_to m Q xs Q'"
proof -
  assume t: "takes_up_to (min m (total Q)) Q xs Q'"
  have "length xs = min m (total Q)" "total Q = length xs + total Q'" using takes_up_to_all [OF t] t total_takes_many [of Q xs Q'] by (simp_all add: takes_up_to_def)
  then have "length xs < m \<Longrightarrow> total Q' = 0" "length xs \<le> m" by linarith+
  then show ?thesis using t total_0 [of Q'] by (auto simp: takes_up_to_def)
qed

lemma bcq_take_bulk_ok:
  assumes w: "waits_many forever (unat m) w" and b: "bcq_ok k b" and m: "unat m < 2 ^ 63"
    and g: "\<And>n. \<exists>out t' q'. get n (t, inner b) = Some (Inr (out, t', q')) \<and> P t' q' \<and> takes_up_to (unat n) (cq_contents k (inner b)) out (cq_contents k q')"
    and P: "P t (inner b)"
  shows "if forever \<and> total (cq_contents k (inner b)) = 0 \<and> m \<noteq> 0 then bcq_take_bulk w get m t b = None
    else \<exists>out t' q'. bcq_take_bulk w get m t b = Some (Inr (out, t', \<lparr>inner = q', sema = Some \<lparr>m_count = int (total (cq_contents k q')), m_sema = 0\<rparr>\<rparr>)) \<and>
      P t' q' \<and> takes_up_to (unat m) (cq_contents k (inner b)) out (cq_contents k q')"
proof -
  let ?T = "total (cq_contents k (inner b))" and ?n = "min (unat m) (total (cq_contents k (inner b)))"
  have sm: "sint m = int (unat m)" using m by (simp add: sint_unat)
  have s: "sema b = Some \<lparr>m_count = int ?T, m_sema = 0\<rparr>" using b by (simp add: bcq_ok_def)
  note W = w [unfolded waits_many_def, THEN spec, of ?T]
  show ?thesis
  proof (cases "forever \<and> ?T = 0 \<and> m \<noteq> 0")
    case True
    then have "0 < unat m" by (simp add: unat_gt_0)
    then have "w (sint m) \<lparr>m_count = int ?T, m_sema = 0\<rparr> = None" using W True unfolding sm by simp
    moreover have "\<not> sint m < 0" unfolding sm by simp
    ultimately show ?thesis using True s by (simp add: bcq_take_bulk_def sema_do_def)
  next
    case False
    then have "\<not> (forever \<and> ?T = 0 \<and> 0 < unat m)" by (auto simp: unat_gt_0)
    then have wr: "w (sint m) \<lparr>m_count = int ?T, m_sema = 0\<rparr> = Some (Inr (int ?n, \<lparr>m_count = int (?T - unat m), m_sema = 0\<rparr>))" using W unfolding sm by simp
    define c :: size_t where "c = word_of_int (int ?n)"
    have c: "unat c = ?n" "c = of_nat ?n" using unsigned_less [of m, where 'a = nat] by (simp_all add: c_def unat_of_nat min_def)
    have "\<exists>out t' q'. dequeue_bulk_until get c 0 [] (t, inner b) = Some (Inr (out, t', q')) \<and> P t' q' \<and> takes_up_to ?n (cq_contents k (inner b)) out (cq_contents k q')"
    proof (cases "c = 0")
      case True
      then have "?n = 0" using c(1) by simp
      then have "takes_up_to ?n (cq_contents k (inner b)) [] (cq_contents k (inner b))" by (simp add: takes_up_to_def)
      moreover have "dequeue_bulk_until get c 0 [] (t, inner b) = Some (Inr ([], t, inner b))" using True by (subst dequeue_bulk_until.simps) simp
      ultimately show ?thesis using P by blast
    next
      case False
      obtain out t' q' where r: "get c (t, inner b) = Some (Inr (out, t', q'))" "P t' q'" "takes_up_to ?n (cq_contents k (inner b)) out (cq_contents k q')"
        using g [of c] unfolding c(1) by blast
      have "length out = ?n" using takes_up_to_all [OF r(3)] by simp
      then have "(of_nat (length out) :: size_t) = c" using c(2) by simp
      then have "dequeue_bulk_until get c 0 [] (t, inner b) = Some (Inr (out, t', q'))"
        using False r(1) by (subst dequeue_bulk_until.simps) (simp add: dequeue_bulk_until.simps [of _ c c])
      then show ?thesis using r(2,3) by blast
    qed
    then obtain out t' q' where d: "dequeue_bulk_until get c 0 [] (t, inner b) = Some (Inr (out, t', q'))" "P t' q'" "takes_up_to ?n (cq_contents k (inner b)) out (cq_contents k q')"
      by blast
    have "total (cq_contents k q') = ?T - unat m" using takes_up_to_all [OF d(3)] d(3) total_takes_many [of "cq_contents k (inner b)" out "cq_contents k q'"]
      by (simp add: takes_up_to_def min_def split: if_splits)
    then have "bcq_take_bulk w get m t b = Some (Inr (out, t', \<lparr>inner = q', sema = Some \<lparr>m_count = int (total (cq_contents k q')), m_sema = 0\<rparr>\<rparr>))"
      using s sm wr d(1) by (simp add: bcq_take_bulk_def sema_do_def c_def)
    then show ?thesis using False d(2) takes_up_to_min [OF d(3)] by auto
  qed
qed

section \<open>Programs\<close>

text \<open>
  As in \<open>CQ_Client\<close>, the tokens of a program are numbered in the order of their creation, and a call with a token that does not exist is left out.
  A call dequeues by trying, by waiting, or by waiting with a limit, without or with a consumer token.
\<close>

datatype wait_mode = Try | Wait | Timed int

datatype 'a b_call =
    BNewProducer bool | BDropProducer nat | BNewConsumer | BEnqueue bool nat 'a | BEnqueueBulk bool nat "'a list"
  | BDequeue wait_mode "nat option" | BDequeueBulk wait_mode "nat option" size_t | BSizeApprox

record 'a bclient =
  bc_client :: "'a client"
  bc_sema :: "lw_sema option"

definition bc_queue :: "'a bclient \<Rightarrow> 'a bcq" where
  "bc_queue c = \<lparr>inner = cl_queue (bc_client c), sema = bc_sema c\<rparr>"

definition bc_put :: "'a bclient \<Rightarrow> 'a bcq \<Rightarrow> 'a bclient" where
  "bc_put c b = \<lparr>bc_client = (bc_client c)\<lparr>cl_queue := inner b\<rparr>, bc_sema = sema b\<rparr>"

definition bc_put_token :: "'a bclient \<Rightarrow> nat \<Rightarrow> consumer_token \<Rightarrow> 'a bcq \<Rightarrow> 'a bclient" where
  "bc_put_token c j t b = \<lparr>bc_client = (bc_client c)\<lparr>cl_queue := inner b, cl_consumers := (cl_consumers (bc_client c))[j := t]\<rparr>, bc_sema = sema b\<rparr>"

fun get_by :: "nat \<Rightarrow> wait_mode \<Rightarrow> ('a, 't) getter \<Rightarrow> 't \<Rightarrow> 'a bcq \<Rightarrow> ('a option \<times> 't \<times> 'a bcq) result option" where
  "get_by maxSpins Try = bcq_try_dequeue"
| "get_by maxSpins Wait = bcq_wait_dequeue maxSpins"
| "get_by maxSpins (Timed t) = bcq_wait_dequeue_timed maxSpins t"

fun get_bulk_by :: "nat \<Rightarrow> wait_mode \<Rightarrow> ('a, 't) bulk_getter \<Rightarrow> size_t \<Rightarrow> 't \<Rightarrow> 'a bcq \<Rightarrow> ('a list \<times> 't \<times> 'a bcq) result option" where
  "get_bulk_by maxSpins Try = bcq_try_dequeue_bulk"
| "get_bulk_by maxSpins Wait = bcq_wait_dequeue_bulk maxSpins"
| "get_bulk_by maxSpins (Timed t) = bcq_wait_dequeue_bulk_timed maxSpins t"

definition with_tokens :: "'a bclient \<Rightarrow> ('a cq_event \<times> 'a client) result option \<Rightarrow> ('a bulk_event \<times> 'a bclient) result option" where
  "with_tokens c r = map_option (map_sum id (\<lambda>(e, cl). (Single e, c\<lparr>bc_client := cl\<rparr>))) r"

fun b_exec :: "cq_traits \<Rightarrow> nat \<Rightarrow> u32 \<Rightarrow> 'a b_call \<Rightarrow> 'a bclient \<Rightarrow> ('a bulk_event \<times> 'a bclient) result option" where
  "b_exec k spins quota (BNewProducer ok) c = with_tokens c (cq_exec k quota (NewProducer ok) (bc_client c))"
| "b_exec k spins quota (BDropProducer j) c = with_tokens c (cq_exec k quota (DropProducer j) (bc_client c))"
| "b_exec k spins quota BNewConsumer c = with_tokens c (cq_exec k quota NewConsumer (bc_client c))"
| "b_exec k spins quota (BEnqueue canAlloc j x) c =
     (if j < length (cl_producers (bc_client c))
      then let i = cl_producers (bc_client c) ! j
           in map_option (map_sum id (\<lambda>(r, b). (Single (if r then Accepted i x else Refused i), bc_put c b)))
                ((if canAlloc then bcq_enqueue else bcq_try_enqueue) k (Some i) x (bc_queue c))
      else Some (Inr (Single Other, c)))"
| "b_exec k spins quota (BEnqueueBulk canAlloc j ys) c =
     (if j < length (cl_producers (bc_client c))
      then let i = cl_producers (bc_client c) ! j
           in map_option (map_sum id (\<lambda>(r, b). (if r then AcceptedBulk i ys else RefusedBulk i ys, bc_put c b)))
                ((if canAlloc then bcq_enqueue_bulk else bcq_try_enqueue_bulk) k (Some i) ys (bc_queue c))
      else Some (Inr (Single Other, c)))"
| "b_exec k spins quota (BDequeue mode None) c =
     map_option (map_sum id (\<lambda>(r, _, b). (Single (Took r), bc_put c b))) (get_by spins mode (get_any k) () (bc_queue c))"
| "b_exec k spins quota (BDequeue mode (Some j)) c =
     (if j < length (cl_consumers (bc_client c))
      then map_option (map_sum id (\<lambda>(r, t, b). (Single (Took r), bc_put_token c j t b)))
             (get_by spins mode (get_token k quota) (cl_consumers (bc_client c) ! j) (bc_queue c))
      else Some (Inr (Single Other, c)))"
| "b_exec k spins quota (BDequeueBulk mode None m) c =
     map_option (map_sum id (\<lambda>(out, _, b). (TookBulk m out, bc_put c b))) (get_bulk_by spins mode (get_bulk_any k) m () (bc_queue c))"
| "b_exec k spins quota (BDequeueBulk mode (Some j) m) c =
     (if j < length (cl_consumers (bc_client c))
      then map_option (map_sum id (\<lambda>(out, t, b). (TookBulk m out, bc_put_token c j t b)))
             (get_bulk_by spins mode (get_bulk_token k quota) m (cl_consumers (bc_client c) ! j) (bc_queue c))
      else Some (Inr (Single Other, c)))"
| "b_exec k spins quota BSizeApprox c = Some (map_sum id (\<lambda>n. (Single (Sized n), c)) (bcq_size_approx (bc_queue c)))"

text \<open>
  A program ends early when a call waits for ever, which is the last component of the result, or when a bulk of more than a block is refused.
\<close>

fun b_program :: "cq_traits \<Rightarrow> nat \<Rightarrow> u32 \<Rightarrow> 'a b_call list \<Rightarrow> 'a bclient \<Rightarrow> ('a bulk_event list \<times> 'a bclient \<times> bool) result" where
  "b_program k spins quota [] c = Inr ([], c, False)"
| "b_program k spins quota (call # calls) c =
     (case b_exec k spins quota call c of
        None \<Rightarrow> Inr ([], c, True)
      | Some (Inl err) \<Rightarrow> Inl err
      | Some (Inr (e, c)) \<Rightarrow>
          if big_refusal k e then Inr ([e], c, False) else map_sum id (\<lambda>(es, r). (e # es, r)) (b_program k spins quota calls c))"

text \<open>When a call should wait for ever.\<close>

fun forever :: "wait_mode \<Rightarrow> bool" where
  "forever Try \<longleftrightarrow> False"
| "forever Wait \<longleftrightarrow> True"
| "forever (Timed t) \<longleftrightarrow> t < 0"

definition has_token :: "'a bclient \<Rightarrow> nat option \<Rightarrow> bool" where
  "has_token c tk \<longleftrightarrow> (case tk of None \<Rightarrow> True | Some j \<Rightarrow> j < length (cl_consumers (bc_client c)))"

definition bc_contents :: "cq_traits \<Rightarrow> 'a bclient \<Rightarrow> 'a list list" where
  "bc_contents k c = cq_contents k (cl_queue (bc_client c))"

fun hangs :: "cq_traits \<Rightarrow> 'a b_call \<Rightarrow> 'a bclient \<Rightarrow> bool" where
  "hangs k (BDequeue mode tk) c \<longleftrightarrow> forever mode \<and> has_token c tk \<and> total (bc_contents k c) = 0"
| "hangs k (BDequeueBulk mode tk m) c \<longleftrightarrow> forever mode \<and> has_token c tk \<and> total (bc_contents k c) = 0 \<and> m \<noteq> 0"
| "hangs k _ c \<longleftrightarrow> False"

text \<open>The sizes the theorems are about. \<open>wait_dequeue_bulk\<close> for no element is left out: it fails an assertion.\<close>

fun call_fits :: "'a b_call \<Rightarrow> bool" where
  "call_fits (BEnqueueBulk canAlloc j ys) \<longleftrightarrow> length ys \<le> 2 ^ 62"
| "call_fits (BDequeueBulk mode tk m) \<longleftrightarrow> unat m < 2 ^ 63 \<and> (mode = Wait \<longrightarrow> m \<noteq> 0)"
| "call_fits _ \<longleftrightarrow> True"

section \<open>Each call\<close>

abbreviation counts :: "'a list list \<Rightarrow> lw_sema option" where
  "counts Q \<equiv> Some \<lparr>m_count = int (total Q), m_sema = 0\<rparr>"

definition b_ok :: "cq_traits \<Rightarrow> 'a bclient \<Rightarrow> bool" where
  "b_ok k c \<longleftrightarrow> cl_ok k (bc_client c) \<and> bc_sema c = counts (bc_contents k c)"

definition producers_of :: "'a bclient \<Rightarrow> nat" where
  "producers_of c = length (cq_producers (cl_queue (bc_client c)))"

definition b_exec_ok :: "cq_traits \<Rightarrow> 'a b_call \<Rightarrow> 'a bclient \<Rightarrow> ('a bulk_event \<times> 'a bclient) result option \<Rightarrow> bool" where
  "b_exec_ok k call c s \<longleftrightarrow> (if hangs k call c then s = None
     else \<exists>e c' Q. s = Some (Inr (e, c')) \<and> bq_step (bc_contents k c) e Q \<and>
       (\<not> big_refusal k e \<longrightarrow> b_ok k c' \<and> bc_contents k c' = Q \<and> producers_of c' \<le> Suc (producers_of c)))"

lemma b_exec_okI:
  "\<not> hangs k call c \<Longrightarrow> s = Some (Inr (e, c')) \<Longrightarrow> b_ok k c' \<Longrightarrow> bq_step (bc_contents k c) e (bc_contents k c') \<Longrightarrow> producers_of c' \<le> Suc (producers_of c) \<Longrightarrow>
    b_exec_ok k call c s"
  by (auto simp: b_exec_ok_def)

lemma b_exec_other: "b_ok k c \<Longrightarrow> \<not> hangs k call c \<Longrightarrow> b_exec_ok k call c (Some (Inr (Single Other, c)))"
  by (rule b_exec_okI) (auto intro: bq_step.single mq_step.other)

lemma b_ok_queue: "b_ok k c \<Longrightarrow> bcq_ok k (bc_queue c)"
  by (simp add: b_ok_def bcq_ok_def cl_ok_def bc_queue_def bc_contents_def)

lemma bc_put_simps [simp]:
  "bc_contents k (bc_put c b) = cq_contents k (inner b)" "producers_of (bc_put c b) = length (cq_producers (inner b))"
  "bc_contents k (bc_put_token c j t b) = cq_contents k (inner b)" "producers_of (bc_put_token c j t b) = length (cq_producers (inner b))"
  "inner (bc_queue c) = cl_queue (bc_client c)"
  by (simp_all add: bc_contents_def producers_of_def bc_put_def bc_put_token_def bc_queue_def)

lemma bc_fold: "cq_contents k (cl_queue (bc_client c)) = bc_contents k c"
  by (simp add: bc_contents_def)

lemma bc_fold_queue: "cq_contents k (inner (bc_queue c)) = bc_contents k c"
  by (simp add: bc_fold)

lemma bc_put_ok:
  assumes c: "b_ok k c" and q: "cq_ok k q" "map pr_inactive (cq_producers q) = map pr_inactive (cq_producers (cl_queue (bc_client c)))"
  shows "b_ok k (bc_put c \<lparr>inner = q, sema = counts (cq_contents k q)\<rparr>)"
  using cl_ok_queue [OF _ q] c by (simp add: b_ok_def bc_put_def bc_contents_def)

lemma bc_put_token_ok:
  assumes c: "b_ok k c" and q: "cq_ok k q" "map pr_inactive (cq_producers q) = map pr_inactive (cq_producers (cl_queue (bc_client c)))"
    and t: "token_ok (producers_of c) t"
  shows "b_ok k (bc_put_token c j t \<lparr>inner = q, sema = counts (cq_contents k q)\<rparr>)"
proof -
  have len: "length (cq_producers q) = producers_of c" using q(2) unfolding producers_of_def by (metis length_map)
  have "cl_ok k ((bc_client c)\<lparr>cl_queue := q\<rparr>)" using cl_ok_queue [OF _ q] c by (simp add: b_ok_def)
  then have "cl_ok k ((bc_client c)\<lparr>cl_queue := q, cl_consumers := (cl_consumers (bc_client c))[j := t]\<rparr>)"
    using t len by (auto simp: cl_ok_def dest: set_update_subset_insert [THEN subsetD])
  then show ?thesis by (simp add: b_ok_def bc_put_token_def bc_contents_def)
qed

lemma with_tokens_ok:
  assumes c: "b_ok k c" and n: "Suc (producers_of c) < 2 ^ 32" and s: "case call of NewProducer _ \<Rightarrow> True | DropProducer _ \<Rightarrow> True | NewConsumer \<Rightarrow> True | _ \<Rightarrow> False"
    and h: "\<not> hangs k bcall c"
  shows "b_exec_ok k bcall c (with_tokens c (cq_exec k quota call (bc_client c)))"
proof -
  have cl: "cl_ok k (bc_client c)" using c by (simp add: b_ok_def)
  obtain e cl' where e: "cq_exec k quota call (bc_client c) = Some (Inr (e, cl'))" "cl_ok k cl'" "mq_step (bc_contents k c) e (cq_contents k (cl_queue cl'))"
    "length (cq_producers (cl_queue cl')) \<le> Suc (producers_of c)"
    using cq_exec_ok [OF cl, of quota call] n by (auto simp: exec_ok_def bc_contents_def producers_of_def)
  have ev: "case e of Created _ \<Rightarrow> True | NotCreated \<Rightarrow> True | Destroyed _ \<Rightarrow> True | Other \<Rightarrow> True | _ \<Rightarrow> False"
    using e(1) s by (cases call) (auto split: option.splits prod.splits if_splits)
  have tot: "total (cq_contents k (cl_queue cl')) = total (bc_contents k c)"
    using e(3) ev by (cases rule: mq_step.cases) (auto simp: total_def)
  let ?c = "c\<lparr>bc_client := cl'\<rparr>"
  have "b_ok k ?c" using e(2) c tot by (simp add: b_ok_def bc_contents_def)
  moreover have "bq_step (bc_contents k c) (Single e) (bc_contents k ?c)" using e(3) by (auto simp: bc_contents_def intro: bq_step.single)
  ultimately show ?thesis using e(1,4) h by (intro b_exec_okI [where e = "Single e" and c' = ?c]) (simp_all add: with_tokens_def producers_of_def)
qed

lemma enqueue_inner:
  "cq_enqueue k token x = cq_inner_enqueue k True token x" "cq_try_enqueue k token x = cq_inner_enqueue k False token x"
  "cq_enqueue_bulk k token ys = cq_inner_enqueue_bulk k True token ys" "cq_try_enqueue_bulk k token ys = cq_inner_enqueue_bulk k False token ys"
  by (rule ext, simp add: cq_enqueue_def cq_try_enqueue_def cq_enqueue_bulk_def cq_try_enqueue_bulk_def)+

lemma b_enqueue_ok:
  assumes c: "b_ok k c" shows "b_exec_ok k (BEnqueue a j x) c (b_exec k spins quota (BEnqueue a j x) c)"
proof (cases "j < length (cl_producers (bc_client c))")
  case True
  let ?i = "cl_producers (bc_client c) ! j" and ?Q = "bc_contents k c"
  have cl: "cl_ok k (bc_client c)" using c by (simp add: b_ok_def)
  have q: "cq_ok k (cl_queue (bc_client c))" and i: "?i < length (cq_producers (cl_queue (bc_client c)))" using cl_producer [OF cl True] by blast+
  obtain r q' where r: "cq_inner_enqueue k a (Some ?i) x (cl_queue (bc_client c)) = Some (Inr (r, q'))" "cq_ok k q'" "cq_same (cl_queue (bc_client c)) q'"
    "cq_contents k q' = (if r then ?Q[?i := ?Q ! ?i @ [x]] else ?Q)"
    using cq_inner_enqueue_ok [OF q i] unfolding bc_contents_def by blast
  have il: "?i < length ?Q" using i by (simp add: bc_contents_def)
  have tot: "total (cq_contents k q') = total ?Q + (if r then 1 else 0)" using r(4) total_update [OF il, of "?Q ! ?i @ [x]"] by simp
  have e: "(if a then bcq_enqueue else bcq_try_enqueue) k (Some ?i) x = bcq_put 1 (cq_inner_enqueue k a (Some ?i) x)"
    by (simp add: bcq_enqueue_def bcq_try_enqueue_def enqueue_inner)
  have "bcq_put 1 (cq_inner_enqueue k a (Some ?i) x) (bc_queue c) =
      Some (Inr (r, if r then \<lparr>inner = q', sema = counts (cq_contents k q')\<rparr> else (bc_queue c)\<lparr>inner := q'\<rparr>))"
    using r(1) tot by (intro bcq_put_ok [OF b_ok_queue [OF c], where n = 1]) (simp_all add: bc_fold)
  also have "(if r then \<lparr>inner = q', sema = counts (cq_contents k q')\<rparr> else (bc_queue c)\<lparr>inner := q'\<rparr>) = \<lparr>inner = q', sema = counts (cq_contents k q')\<rparr>"
    using c tot by (simp add: bc_queue_def b_ok_def)
  finally have run: "b_exec k spins quota (BEnqueue a j x) c =
      Some (Inr (Single (if r then Accepted ?i x else Refused ?i), bc_put c \<lparr>inner = q', sema = counts (cq_contents k q')\<rparr>))"
    unfolding b_exec.simps Let_def e using True by simp
  have "mq_step ?Q (if r then Accepted ?i x else Refused ?i) (cq_contents k q')" unfolding r(4) using il by (auto intro: mq_step.accepted mq_step.refused)
  then show ?thesis using bc_put_ok [OF c r(2)] r(3) cq_same_length [OF r(3), folded producers_of_def]
    by (intro b_exec_okI [OF _ run]) (auto simp: cq_same_def intro: bq_step.single)
qed (use c in \<open>simp add: b_exec_other\<close>)

lemma b_enqueue_bulk_ok:
  assumes c: "b_ok k c" and m: "length ys \<le> 2 ^ 62" shows "b_exec_ok k (BEnqueueBulk a j ys) c (b_exec k spins quota (BEnqueueBulk a j ys) c)"
proof (cases "j < length (cl_producers (bc_client c))")
  case True
  let ?i = "cl_producers (bc_client c) ! j" and ?Q = "bc_contents k c" and ?n = "of_nat (length ys) :: size_t"
  have cl: "cl_ok k (bc_client c)" using c by (simp add: b_ok_def)
  have q: "cq_ok k (cl_queue (bc_client c))" and i: "?i < length (cq_producers (cl_queue (bc_client c)))" using cl_producer [OF cl True] by blast+
  have il: "?i < length ?Q" using i by (simp add: bc_contents_def)
  have "unat ?n = length ys" using m by (simp add: unat_of_nat)
  then have n: "sint ?n = int (length ys)" using m by (simp add: sint_unat)
  obtain r q' where r: "cq_inner_enqueue_bulk k a (Some ?i) ys (cl_queue (bc_client c)) = Some (Inr (r, q'))"
    "r \<or> length ys \<le> block_size k \<longrightarrow> cq_ok k q' \<and> cq_same (cl_queue (bc_client c)) q' \<and> cq_contents k q' = (if r then ?Q[?i := ?Q ! ?i @ ys] else ?Q)"
    using cq_inner_enqueue_bulk_ok [OF q i m] unfolding bc_contents_def by blast
  have tot: "total (cq_contents k q') = total ?Q + length ys" if r using r(2) that total_update [OF il, of "?Q ! ?i @ ys"] by simp
  let ?b = "if r then \<lparr>inner = q', sema = counts (cq_contents k q')\<rparr> else (bc_queue c)\<lparr>inner := q'\<rparr>" and ?e = "if r then AcceptedBulk ?i ys else RefusedBulk ?i ys"
  have e: "(if a then bcq_enqueue_bulk else bcq_try_enqueue_bulk) k (Some ?i) ys = bcq_put ?n (cq_inner_enqueue_bulk k a (Some ?i) ys)"
    by (simp add: bcq_enqueue_bulk_def bcq_try_enqueue_bulk_def enqueue_inner)
  have "bcq_put ?n (cq_inner_enqueue_bulk k a (Some ?i) ys) (bc_queue c) = Some (Inr (r, ?b))"
    by (rule bcq_put_ok [OF b_ok_queue [OF c] _ n]) (use r(1) tot in \<open>simp_all add: bc_fold\<close>)
  then have run: "b_exec k spins quota (BEnqueueBulk a j ys) c = Some (Inr (?e, bc_put c ?b))" unfolding b_exec.simps Let_def e using True by simp
  have st: "bq_step ?Q ?e (if r then ?Q[?i := ?Q ! ?i @ ys] else ?Q)" using il by (auto intro: bq_step.accepted bq_step.refused)
  show ?thesis
  proof (cases "r \<or> length ys \<le> block_size k")
    case True
    then have R: "cq_ok k q'" "cq_same (cl_queue (bc_client c)) q'" "cq_contents k q' = (if r then ?Q[?i := ?Q ! ?i @ ys] else ?Q)" using r(2) by blast+
    have b: "?b = \<lparr>inner = q', sema = counts (cq_contents k q')\<rparr>" using c R(3) by (simp add: bc_queue_def b_ok_def)
    show ?thesis using bc_put_ok [OF c R(1)] R(2) st cq_same_length [OF R(2), folded producers_of_def] unfolding R(3) [symmetric]
      by (intro b_exec_okI [OF _ run]) (simp_all only: b hangs.simps bc_put_simps blocking.simps, auto simp: cq_same_def)
  next
    case False
    then have "big_refusal k ?e" by simp
    then show ?thesis using run st unfolding b_exec_ok_def by auto
  qed
qed (use c in \<open>simp add: b_exec_other\<close>)

lemma waits_by:
  "\<exists>w. waits (forever mode) w \<and> get_by spins mode = bcq_take w"
  by (cases mode) (auto simp: bcq_try_dequeue_def bcq_wait_dequeue_def bcq_wait_dequeue_timed_def intro: waits_try waits_loop waits_timed)

lemma waits_bulk_by:
  assumes "mode = Wait \<longrightarrow> 0 < m" shows "\<exists>w. waits_many (forever mode) m w \<and> get_bulk_by spins mode = bcq_take_bulk w"
  using assms
  by (cases mode) (auto simp: bcq_try_dequeue_bulk_def bcq_wait_dequeue_bulk_def bcq_wait_dequeue_bulk_timed_def
      intro: waits_many_try waits_many_timed waits_many_untimed)

lemma bcq_wait_dequeue_bulk_none:
  "b_ok k c \<Longrightarrow> bcq_wait_dequeue_bulk spins get 0 t (bc_queue c) = Some (Inl (AssertFailed ''result > 0''))"
  by (simp add: bcq_wait_dequeue_bulk_def bcq_take_bulk_def sema_do_def bc_queue_def b_ok_def waits_many_untimed_0)

lemma wait_dequeue_bulk_none:
  "b_ok k c \<Longrightarrow> has_token c tk \<Longrightarrow> b_exec k spins quota (BDequeueBulk Wait tk 0) c = Some (Inl (AssertFailed ''result > 0''))"
  by (cases tk) (simp_all add: has_token_def bcq_wait_dequeue_bulk_none)

lemma b_dequeue_ok:
  assumes c: "b_ok k c" shows "b_exec_ok k (BDequeue mode None) c (b_exec k spins quota (BDequeue mode None) c)"
proof -
  let ?q = "cl_queue (bc_client c)" and ?Q = "bc_contents k c"
  have q: "cq_ok k ?q" using c by (simp add: b_ok_def cl_ok_def)
  obtain r q' where r: "cq_try_dequeue k ?q = Inr (r, q')" "cq_ok k q'" "cq_same ?q q'" "takes ?Q r (cq_contents k q')"
    using cq_try_dequeue_ok [OF q] unfolding bc_contents_def by blast
  obtain w where w: "waits (forever mode) w" "get_by spins mode = (bcq_take w :: ('a, unit) getter \<Rightarrow> _)" using waits_by by blast
  have g: "get_any k ((), inner (bc_queue c)) = Some (Inr (r, (), q'))" using r(1) by (simp add: get_any_def)
  have run: "b_exec k spins quota (BDequeue mode None) c = map_option (map_sum id (\<lambda>(r, _, b). (Single (Took r), bc_put c b)))
      (if total ?Q = 0 then if forever mode then None else Some (Inr (None, (), bc_queue c)) else Some (Inr (r, (), \<lparr>inner = q', sema = counts (cq_contents k q')\<rparr>)))"
    unfolding b_exec.simps w(2) using bcq_take_ok [OF w(1) b_ok_queue [OF c], of "get_any k" "()", OF g] r(4) by (simp add: bc_fold)
  show ?thesis
  proof (cases "total ?Q = 0")
    case True
    have "mq_step ?Q (Took None) ?Q" using True by (intro mq_step.found_empty) (simp add: total_0)
    moreover have "bc_put c (bc_queue c) = c" by (simp add: bc_put_def bc_queue_def)
    ultimately show ?thesis using run True c unfolding b_exec_ok_def by (auto simp: has_token_def intro: bq_step.single)
  next
    case False
    then show ?thesis using run bc_put_ok [OF c r(2)] r(3) cq_same_length [OF r(3), folded producers_of_def] takes_step [OF r(4)]
      by (intro b_exec_okI [where e = "Single (Took r)" and c' = "bc_put c \<lparr>inner = q', sema = counts (cq_contents k q')\<rparr>"])
        (auto simp: cq_same_def intro: bq_step.single)
  qed
qed

lemma b_dequeue_token_ok:
  assumes c: "b_ok k c" shows "b_exec_ok k (BDequeue mode (Some j)) c (b_exec k spins quota (BDequeue mode (Some j)) c)"
proof (cases "j < length (cl_consumers (bc_client c))")
  case True
  let ?q = "cl_queue (bc_client c)" and ?Q = "bc_contents k c" and ?t = "cl_consumers (bc_client c) ! j"
  have q: "cq_ok k ?q" "token_ok (length (cq_producers ?q)) ?t" using c True by (auto simp: b_ok_def cl_ok_def)
  obtain r t' q' where r: "cq_try_dequeue_token k quota ?t ?q = Some (Inr (r, t', q'))" "cq_ok k q'" "map pr_inactive (cq_producers q') = map pr_inactive (cq_producers ?q)"
    "token_ok (producers_of c) t'" "takes ?Q r (cq_contents k q')"
    using cq_try_dequeue_token_ok [OF q, of quota] unfolding bc_contents_def producers_of_def by blast
  have len: "length (cq_producers q') = producers_of c" using r(3) unfolding producers_of_def by (metis length_map)
  obtain w where w: "waits (forever mode) w" "get_by spins mode = (bcq_take w :: ('a, consumer_token) getter \<Rightarrow> _)" using waits_by by blast
  have g: "get_token k quota (?t, inner (bc_queue c)) = Some (Inr (r, t', q'))" using r(1) by (simp add: get_token_def)
  have run: "b_exec k spins quota (BDequeue mode (Some j)) c = map_option (map_sum id (\<lambda>(r, t, b). (Single (Took r), bc_put_token c j t b)))
      (if total ?Q = 0 then if forever mode then None else Some (Inr (None, ?t, bc_queue c)) else Some (Inr (r, t', \<lparr>inner = q', sema = counts (cq_contents k q')\<rparr>)))"
    unfolding b_exec.simps w(2) using bcq_take_ok [OF w(1) b_ok_queue [OF c], of "get_token k quota" ?t, OF g] r(5) True by (simp add: bc_fold)
  show ?thesis
  proof (cases "total ?Q = 0")
    case T: True
    have "mq_step ?Q (Took None) ?Q" using T by (intro mq_step.found_empty) (simp add: total_0)
    moreover have "bc_put_token c j ?t (bc_queue c) = c" by (simp add: bc_put_token_def bc_queue_def)
    ultimately show ?thesis using run True T c unfolding b_exec_ok_def by (auto simp: has_token_def intro: bq_step.single)
  next
    case False
    then show ?thesis using run bc_put_token_ok [OF c r(2,3,4)] len takes_step [OF r(5)]
      by (intro b_exec_okI [where e = "Single (Took r)" and c' = "bc_put_token c j t' \<lparr>inner = q', sema = counts (cq_contents k q')\<rparr>"])
        (auto intro: bq_step.single)
  qed
qed (use c in \<open>simp add: b_exec_other has_token_def\<close>)

lemma b_dequeue_bulk_ok:
  assumes c: "b_ok k c" and m: "unat m < 2 ^ 63" and nz: "mode = Wait \<longrightarrow> m \<noteq> 0"
  shows "b_exec_ok k (BDequeueBulk mode None m) c (b_exec k spins quota (BDequeueBulk mode None m) c)"
proof -
  let ?q = "cl_queue (bc_client c)" and ?Q = "bc_contents k c" and ?P = "\<lambda>(t :: unit) q'. cq_ok k q' \<and> cq_same (cl_queue (bc_client c)) q'"
  have q: "cq_ok k ?q" using c by (simp add: b_ok_def cl_ok_def)
  have "mode = Wait \<longrightarrow> 0 < unat m" using nz by (simp add: unat_gt_0)
  then obtain w where w: "waits_many (forever mode) (unat m) w" "get_bulk_by spins mode = (bcq_take_bulk w :: ('a, unit) bulk_getter \<Rightarrow> _)" using waits_bulk_by by blast
  have g: "\<exists>out t' q'. get_bulk_any k n ((), inner (bc_queue c)) = Some (Inr (out, t', q')) \<and> ?P t' q' \<and>
      takes_up_to (unat n) (cq_contents k (inner (bc_queue c))) out (cq_contents k q')" for n
    using cq_try_dequeue_bulk_ok [OF q, of n] by (auto simp: get_bulk_any_def bc_contents_def)
  have P: "?P () (inner (bc_queue c))" using q by simp
  from bcq_take_bulk_ok [OF w(1) b_ok_queue [OF c] m, of "get_bulk_any k" "()" ?P, OF g P]
  have R: "if forever mode \<and> total ?Q = 0 \<and> m \<noteq> 0 then bcq_take_bulk w (get_bulk_any k) m () (bc_queue c) = None
    else \<exists>out t' q'. bcq_take_bulk w (get_bulk_any k) m () (bc_queue c) = Some (Inr (out, t', \<lparr>inner = q', sema = counts (cq_contents k q')\<rparr>)) \<and>
      ?P t' q' \<and> takes_up_to (unat m) ?Q out (cq_contents k q')" unfolding bc_fold_queue .
  show ?thesis
  proof (cases "forever mode \<and> total ?Q = 0 \<and> m \<noteq> 0")
    case True
    then show ?thesis using R w(2) by (simp add: b_exec_ok_def has_token_def)
  next
    case False
    then obtain out q' where r: "bcq_take_bulk w (get_bulk_any k) m () (bc_queue c) = Some (Inr (out, (), \<lparr>inner = q', sema = counts (cq_contents k q')\<rparr>))"
      "cq_ok k q'" "cq_same ?q q'" "takes_up_to (unat m) ?Q out (cq_contents k q')" using R by auto
    have "b_exec k spins quota (BDequeueBulk mode None m) c = Some (Inr (TookBulk m out, bc_put c \<lparr>inner = q', sema = counts (cq_contents k q')\<rparr>))"
      unfolding b_exec.simps w(2) r(1) by simp
    then show ?thesis using False bc_put_ok [OF c r(2)] r(3) cq_same_length [OF r(3), folded producers_of_def] bq_step.took [OF r(4)]
      by (intro b_exec_okI) (auto simp: cq_same_def)
  qed
qed

lemma b_dequeue_bulk_token_ok:
  assumes c: "b_ok k c" and m: "unat m < 2 ^ 63" and nz: "mode = Wait \<longrightarrow> m \<noteq> 0"
  shows "b_exec_ok k (BDequeueBulk mode (Some j) m) c (b_exec k spins quota (BDequeueBulk mode (Some j) m) c)"
proof (cases "j < length (cl_consumers (bc_client c))")
  case True
  let ?q = "cl_queue (bc_client c)" and ?Q = "bc_contents k c" and ?t = "cl_consumers (bc_client c) ! j"
    and ?P = "\<lambda>t' q'. cq_ok k q' \<and> map pr_inactive (cq_producers q') = map pr_inactive (cq_producers (cl_queue (bc_client c))) \<and> token_ok (producers_of c) t'"
  have q: "cq_ok k ?q" "token_ok (length (cq_producers ?q)) ?t" using c True by (auto simp: b_ok_def cl_ok_def)
  have "mode = Wait \<longrightarrow> 0 < unat m" using nz by (simp add: unat_gt_0)
  then obtain w where w: "waits_many (forever mode) (unat m) w" "get_bulk_by spins mode = (bcq_take_bulk w :: ('a, consumer_token) bulk_getter \<Rightarrow> _)" using waits_bulk_by by blast
  have g: "\<exists>out t' q'. get_bulk_token k quota n (?t, inner (bc_queue c)) = Some (Inr (out, t', q')) \<and> ?P t' q' \<and>
      takes_up_to (unat n) (cq_contents k (inner (bc_queue c))) out (cq_contents k q')" for n
    using cq_try_dequeue_bulk_token_ok [OF q, of quota n] by (simp add: get_bulk_token_def bc_contents_def producers_of_def)
  have P: "?P ?t (inner (bc_queue c))" using q by (simp add: producers_of_def)
  from bcq_take_bulk_ok [OF w(1) b_ok_queue [OF c] m, of "get_bulk_token k quota" ?t ?P, OF g P]
  have R: "if forever mode \<and> total ?Q = 0 \<and> m \<noteq> 0 then bcq_take_bulk w (get_bulk_token k quota) m ?t (bc_queue c) = None
    else \<exists>out t' q'. bcq_take_bulk w (get_bulk_token k quota) m ?t (bc_queue c) = Some (Inr (out, t', \<lparr>inner = q', sema = counts (cq_contents k q')\<rparr>)) \<and>
      ?P t' q' \<and> takes_up_to (unat m) ?Q out (cq_contents k q')" unfolding bc_fold_queue .
  show ?thesis
  proof (cases "forever mode \<and> total ?Q = 0 \<and> m \<noteq> 0")
    case T: True
    then show ?thesis using R w(2) True by (simp add: b_exec_ok_def has_token_def)
  next
    case False
    then obtain out t' q' where r: "bcq_take_bulk w (get_bulk_token k quota) m ?t (bc_queue c) = Some (Inr (out, t', \<lparr>inner = q', sema = counts (cq_contents k q')\<rparr>))"
      "cq_ok k q'" "map pr_inactive (cq_producers q') = map pr_inactive (cq_producers ?q)" "token_ok (producers_of c) t'" "takes_up_to (unat m) ?Q out (cq_contents k q')"
      using R by auto
    have len: "length (cq_producers q') = producers_of c" using r(3) unfolding producers_of_def by (metis length_map)
    have "b_exec k spins quota (BDequeueBulk mode (Some j) m) c = Some (Inr (TookBulk m out, bc_put_token c j t' \<lparr>inner = q', sema = counts (cq_contents k q')\<rparr>))"
      unfolding b_exec.simps w(2) r(1) using True by simp
    then show ?thesis using False bc_put_token_ok [OF c r(2,3,4)] len bq_step.took [OF r(5)] by (intro b_exec_okI) auto
  qed
qed (use c in \<open>simp add: b_exec_other has_token_def\<close>)

lemma b_size_ok: assumes c: "b_ok k c" shows "b_exec_ok k BSizeApprox c (b_exec k spins quota BSizeApprox c)"
proof (rule b_exec_okI)
  have "bcq_size_approx (bc_queue c) = Inr (of_nat (total (bc_contents k c)))"
    using c by (cases "total (bc_contents k c)") (simp_all add: b_ok_def bcq_size_approx_def bc_queue_def availableApprox_def)
  then show "b_exec k spins quota BSizeApprox c = Some (Inr (Single (Sized (of_nat (total (bc_contents k c)))), c))" by simp
  show "bq_step (bc_contents k c) (Single (Sized (of_nat (total (bc_contents k c))))) (bc_contents k c)"
    unfolding total_def by (intro bq_step.single mq_step.sized)
qed (use c in simp_all)

lemma b_exec_call:
  assumes c: "b_ok k c" and n: "Suc (producers_of c) < 2 ^ 32" and m: "call_fits call" shows "b_exec_ok k call c (b_exec k spins quota call c)"
proof (cases call)
  case (BDequeue mode tk)
  then show ?thesis using b_dequeue_ok [OF c] b_dequeue_token_ok [OF c] by (cases tk) (simp_all only:)
next
  case (BDequeueBulk mode tk m)
  then have "unat m < 2 ^ 63" "mode = Wait \<longrightarrow> m \<noteq> 0" using assms(3) by simp_all
  then show ?thesis using BDequeueBulk b_dequeue_bulk_ok [OF c] b_dequeue_bulk_token_ok [OF c] by (cases tk) (simp_all only:)
next
  case (BEnqueueBulk a j ys)
  then have "length ys \<le> 2 ^ 62" using m by simp
  then show ?thesis unfolding BEnqueueBulk by (rule b_enqueue_bulk_ok [OF c])
next
  case (BNewProducer x)
  then show ?thesis using with_tokens_ok [OF c n, of "NewProducer x" call quota] by simp
next
  case (BDropProducer x)
  then show ?thesis using with_tokens_ok [OF c n, of "DropProducer x" call quota] by simp
next
  case BNewConsumer
  then show ?thesis using with_tokens_ok [OF c n, of NewConsumer call quota] by simp
qed (simp_all only: b_enqueue_ok [OF c] b_size_ok [OF c])

lemma b_program_ok:
  "b_ok k c \<Longrightarrow> producers_of c + length calls < 2 ^ 32 \<Longrightarrow> \<forall>call \<in> set calls. call_fits call \<Longrightarrow>
    \<exists>es c' h Q. b_program k spins quota calls c = Inr (es, c', h) \<and> bq_run (bc_contents k c) es Q \<and>
      ((\<exists>e \<in> set es. big_refusal k e) \<or> b_ok k c' \<and> bc_contents k c' = Q \<and> producers_of c' \<le> producers_of c + length es \<and>
        (if h then length es < length calls \<and> hangs k (calls ! length es) c' else length es = length calls))"
proof (induction calls arbitrary: c)
  case Nil
  then show ?case by (auto intro: bq_run.finish)
next
  case (Cons call calls)
  have ok: "b_exec_ok k call c (b_exec k spins quota call c)" using Cons.prems by (intro b_exec_call) simp_all
  show ?case
  proof (cases "hangs k call c")
    case True
    then have "b_program k spins quota (call # calls) c = Inr ([], c, True)" using ok by (simp add: b_exec_ok_def)
    then show ?thesis using True Cons.prems(1) by (intro exI conjI) (auto intro: bq_run.finish)
  next
    case False
    then obtain e c1 Q where e: "b_exec k spins quota call c = Some (Inr (e, c1))" "bq_step (bc_contents k c) e Q"
      "\<not> big_refusal k e \<longrightarrow> b_ok k c1 \<and> bc_contents k c1 = Q \<and> producers_of c1 \<le> Suc (producers_of c)" using ok unfolding b_exec_ok_def by auto
    show ?thesis
    proof (cases "big_refusal k e")
      case True
      then have "b_program k spins quota (call # calls) c = Inr ([e], c1, False)" using e(1) by simp
      moreover have "bq_run (bc_contents k c) [e] Q" using e(2) by (auto intro: bq_run.intros)
      ultimately show ?thesis using True by fastforce
    next
      case nb: False
      have "producers_of c1 + length calls < 2 ^ 32" "b_ok k c1" "\<forall>call \<in> set calls. call_fits call" using e(3) nb Cons.prems(2,3) by simp_all
      with Cons.IH [of c1] obtain es c' h Q' where r: "b_program k spins quota calls c1 = Inr (es, c', h)" "bq_run (bc_contents k c1) es Q'"
        "(\<exists>e \<in> set es. big_refusal k e) \<or> b_ok k c' \<and> bc_contents k c' = Q' \<and> producers_of c' \<le> producers_of c1 + length es \<and>
          (if h then length es < length calls \<and> hangs k (calls ! length es) c' else length es = length calls)" by blast
      have p: "b_program k spins quota (call # calls) c = Inr (e # es, c', h)" using e(1) r(1) nb by simp
      have "bq_run (bc_contents k c) (e # es) Q'" using bq_run.step [OF e(2), of es Q'] r(2) e(3) nb by simp
      moreover have "(\<exists>e \<in> set (e # es). big_refusal k e) \<or> b_ok k c' \<and> bc_contents k c' = Q' \<and> producers_of c' \<le> producers_of c + length (e # es) \<and>
          (if h then length (e # es) < length (call # calls) \<and> hangs k ((call # calls) ! length (e # es)) c' else length (e # es) = length (call # calls))"
        using r(3) e(3) nb by (cases h) auto
      ultimately show ?thesis using p by blast
    qed
  qed
qed

definition b_new :: "'a bcq \<Rightarrow> 'a bclient" where
  "b_new b = \<lparr>bc_client = cl_new (inner b), bc_sema = sema b\<rparr>"

lemma b_new_ok:
  assumes "cq_traits_ok k"
  shows "\<exists>b. BlockingConcurrentQueue k ok True capacity = Inr (b :: 'a bcq) \<and> b_ok k (b_new b) \<and> bc_contents k (b_new b) = [] \<and> producers_of (b_new b) = 0"
  using cl_new_ok [OF assms, where 'a = 'a, of ok capacity]
  by (simp add: BlockingConcurrentQueue_def bcq_create_def LightweightSemaphore_def b_ok_def b_new_def bc_contents_def producers_of_def cl_new_def total_def)


section \<open>An example\<close>

declare dequeue_until.simps [code] dequeue_bulk_until.simps [code] wait_loop.simps [code] mp_restore.simps [code]

definition demo_b_calls :: "int b_call list" where
  "demo_b_calls = [BNewProducer True, BEnqueue True 0 5, BEnqueueBulk True 0 [6, 7], BDequeue Try None, BDequeueBulk Wait None 8, BDequeue Wait None, BSizeApprox]"

definition demo_b_new :: "int bcq" where
  "demo_b_new = \<lparr>inner = ConcurrentQueue traits4 False 0, sema = Some \<lparr>m_count = 0, m_sema = 0\<rparr>\<rparr>"

lemma demo_b_new_ctor: "BlockingConcurrentQueue traits4 False True 0 = Inr demo_b_new"
  by (simp add: BlockingConcurrentQueue_def bcq_create_def LightweightSemaphore_def demo_b_new_def)

lemma demo_b_run:
  "map_sum id (\<lambda>(es, c, h). (es, h)) (b_program traits4 0 256 demo_b_calls (b_new demo_b_new)) =
   Inr ([Single (Created 0), Single (Accepted 0 5), AcceptedBulk 0 [6, 7], Single (Took (Some 5)), TookBulk 8 [6, 7]], True)"
  by code_simp


section \<open>Moving and swapping\<close>

lemma bcq_move_ok:
  assumes "bcq_ok k other" "bcq_move k other = (b, rest)"
  shows "bcq_ok k b" "inner b = inner other" "bcq_take w get t rest = Some (Inl (UndefinedBehaviour ''sema''))"
proof -
  have b: "inner b = inner other" "sema b = sema other" "sema rest = None" using assms(2) by (auto simp: bcq_move_def cq_move_def)
  show "inner b = inner other" by (rule b(1))
  show "bcq_ok k b" using assms(1) b by (simp add: bcq_ok_def)
  show "bcq_take w get t rest = Some (Inl (UndefinedBehaviour ''sema''))" using b(3) by (simp add: bcq_take_def sema_do_def)
qed

lemma bcq_swap_swaps: "bcq_swap b other = (other, b)"
  by (simp add: bcq_swap_def cq_swap_def)

end
